(* ===== verification/Prelude.thy ===== *)
theory Prelude
  imports Main "HOL-Library.Word" "HOL-Library.List_Lexorder"
begin

unbundle bit_operations_syntax

text \<open>
  Shared vocabulary of the development: the machine types of the C++ sources, the status
  values every fallible routine returns, and the generic facts on lists, options and words
  that the component theories use.

  A \<open>char\<close> buffer, a \<open>std::string\<close>, a \<open>tstring\<close> and a \<open>StringPiece\<close> are all byte
  strings.  A byte is an \<open>8 word\<close>, and the library order on words is the unsigned one, so the
  lexicographic order of \<open>HOL-Library.List_Lexorder\<close> on byte strings is the order of
  \<open>StringPiece::compare\<close> (\<open>memcmp\<close>, then the length).
\<close>

section \<open>Machine types\<close>

type_synonym byte = "8 word"
type_synonym bytes = "byte list"
type_synonym u16 = "16 word"
type_synonym u32 = "32 word"
type_synonym u64 = "64 word"

text \<open>
  The largest value of \<open>uint32_t\<close> and of the 64-bit \<open>size_t\<close>.  Sizes of objects that are in
  memory are natural numbers; where the code narrows one it goes through \<open>word_of_nat\<close>.
\<close>

abbreviation UINT32_MAX :: nat where "UINT32_MAX \<equiv> 2 ^ 32 - 1"
abbreviation SIZE_MAX :: nat where "SIZE_MAX \<equiv> 2 ^ 64 - 1"
abbreviation INT64_MAX :: int where "INT64_MAX \<equiv> 2 ^ 63 - 1"

section \<open>Status values\<close>

datatype error_code = INVALID_ARGUMENT | NOT_FOUND | FAILED_PRECONDITION | OUT_OF_RANGE
  | UNIMPLEMENTED | INTERNAL | DATA_LOSS | RESOURCE_EXHAUSTED

datatype status = OkStatus | Error error_code string

fun ok :: "status \<Rightarrow> bool" where
  "ok OkStatus = True"
| "ok (Error c m) = False"

fun error_message :: "status \<Rightarrow> string" where
  "error_message OkStatus = ''''"
| "error_message (Error c m) = m"

definition IsOutOfRange :: "status \<Rightarrow> bool" where
  "IsOutOfRange s \<longleftrightarrow> (\<exists>m. s = Error OUT_OF_RANGE m)"

definition IsDataLoss :: "status \<Rightarrow> bool" where
  "IsDataLoss s \<longleftrightarrow> (\<exists>m. s = Error DATA_LOSS m)"

lemma IsOutOfRange_simps [simp, code]:
  "IsOutOfRange OkStatus = False"
  "IsOutOfRange (Error c m) = (c = OUT_OF_RANGE)"
  by (auto simp: IsOutOfRange_def)

lemma IsDataLoss_simps [simp, code]:
  "IsDataLoss OkStatus = False"
  "IsDataLoss (Error c m) = (c = DATA_LOSS)"
  by (auto simp: IsDataLoss_def)

lemma ok_iff: "ok s \<longleftrightarrow> s = OkStatus"
  by (cases s) auto

lemma ok_not_OutOfRange [simp]: "ok s \<Longrightarrow> \<not> IsOutOfRange s"
  by (cases s) auto

section \<open>Facts on lists\<close>

text \<open>The order of byte strings, in the form the proofs use.\<close>

lemma append_less_same_iff [simp]: "(xs @ ys < xs @ zs) \<longleftrightarrow> ys < (zs :: bytes)"
  by (induction xs) auto

lemma append_le_same_iff [simp]: "(xs @ ys \<le> xs @ zs) \<longleftrightarrow> ys \<le> (zs :: bytes)"
  by (induction xs) (auto simp: less_le)

text \<open>
  Two byte strings diverge when they differ at a position both have.  Divergence decides the
  order of any extensions of the two strings.
\<close>

fun diverge_less :: "bytes \<Rightarrow> bytes \<Rightarrow> bool" where
  "diverge_less (x # xs) (y # ys) \<longleftrightarrow> x < y \<or> x = y \<and> diverge_less xs ys"
| "diverge_less xs ys \<longleftrightarrow> False"

lemma diverge_less_append: "diverge_less xs ys \<Longrightarrow> xs @ s < ys @ t"
  by (induction xs ys rule: diverge_less.induct) auto

lemma diverge_less_same_length: "length xs = length ys \<Longrightarrow> xs < ys \<Longrightarrow> diverge_less xs ys"
  by (induction xs ys rule: list_induct2) auto

lemma diverge_less_take: "diverge_less xs (take n ys) \<Longrightarrow> diverge_less xs ys"
proof (induction xs ys arbitrary: n rule: diverge_less.induct)
  case (1 x xs y ys)
  then show ?case by (cases n) auto
qed auto

lemma less_append_same_length:
  "length xs = length ys \<Longrightarrow> xs < ys \<Longrightarrow> xs @ s < ys @ (t :: bytes)"
  by (simp add: diverge_less_same_length diverge_less_append)

section \<open>Facts on words\<close>

named_theorems word_bits \<open>bitwise facts the codecs use\<close>

lemma bit_byte: "bit (b :: byte) n \<Longrightarrow> n < 8"
  by (drule bit_imp_le_length) simp

lemma and_255_take_bit: "(w :: 'a::len word) AND 0xff = take_bit 8 w"
  by (simp add: take_bit_eq_mask mask_numeral)

lemma and_127_take_bit: "(w :: 'a::len word) AND 127 = take_bit 7 w"
  by (simp add: take_bit_eq_mask mask_numeral)

lemma unat_drop_bit: "unat (drop_bit n w) = unat (w :: 'a::len word) div 2 ^ n"
  by (subst unat_drop_bit_eq) (rule drop_bit_eq_div)

lemma ucast_of_unat: "ucast (w :: 'a::len word) = (word_of_nat (unat w) :: 'b::len word)"
  by simp

lemma ucast_drop_bit_byte:
  "ucast (drop_bit (8 * j) v) = (word_of_nat (unat (v :: 'a::len word) div 256 ^ j) :: byte)"
proof -
  have "(256 :: nat) ^ j = 2 ^ (8 * j)" by (simp add: power_mult)
  then show ?thesis by (simp add: ucast_of_unat unat_drop_bit del: of_nat_unat)
qed

lemma or_push_bit_add:
  assumes "take_bit k x = x"
  shows "x OR push_bit k y = x + push_bit k (y :: 'a::len word)"
proof -
  have low: "n < k" if "bit x n" for n
    using assms that by (metis bit_take_bit_iff)
  have "x AND push_bit k y = 0"
    by (rule bit_word_eqI) (auto simp: bit_simps dest!: low)
  then show ?thesis
    by (simp add: disjunctive_add_eq_or)
qed

lemma take_bit_word_of_nat:
  "n < 2 ^ k \<Longrightarrow> take_bit k (word_of_nat n :: 'a::len word) = word_of_nat n"
  by (simp add: take_bit_of_nat take_bit_nat_eq_self)

lemma take_bit_ucast_byte [simp]: "take_bit 8 (ucast (b :: byte) :: 'a::len word) = ucast b"
  by (rule bit_word_eqI) (auto simp: bit_simps dest: bit_byte)

lemma or_push_bit_of_nat:
  "l < 2 ^ k \<Longrightarrow>
   word_of_nat l OR push_bit k (word_of_nat h :: 'a::len word) = word_of_nat (l + 2 ^ k * h)"
  by (subst or_push_bit_add) (simp_all add: take_bit_word_of_nat push_bit_eq_mult algebra_simps)

lemma unat_byte_less: "unat (b :: byte) < 256"
  using unsigned_less [of b] by simp

lemma unat_u16_less: "unat (w :: u16) < 2 ^ 16"
  using unsigned_less [of w] by simp

lemma unat_u32_less: "unat (w :: u32) < 2 ^ 32"
  using unsigned_less [of w] by simp

lemma unat_u64_less: "unat (w :: u64) < 2 ^ 64"
  using unsigned_less [of w] by simp

lemmas unat_bounds = unat_byte_less unat_u16_less unat_u32_less unat_u64_less

lemma take_bit_unat: "take_bit k w = word_of_nat (unat (w :: 'a::len word) mod 2 ^ k)"
proof -
  have "word_of_nat (unat w mod 2 ^ k) = take_bit k (word_of_nat (unat w) :: 'a word)"
    by (subst take_bit_of_nat) (simp only: take_bit_eq_mod)
  then show ?thesis by simp
qed

lemma unat_take_bit_less: "unat (take_bit n (w :: 'a::len word)) < 2 ^ n"
  by (simp only: unsigned_take_bit_eq take_bit_nat_less_exp)

lemma unat_take_bit_fix: "take_bit n w = w \<Longrightarrow> unat (w :: 'a::len word) < 2 ^ n"
  by (metis unat_take_bit_less)

lemma or_push_bit_xor:
  assumes "take_bit k x = x"
  shows "x OR push_bit k y = x XOR push_bit k (y :: 'a::len word)"
proof -
  have low: "n < k" if "bit x n" for n
    using assms that by (metis bit_take_bit_iff)
  have "x AND push_bit k y = 0"
    by (rule bit_word_eqI) (auto simp: bit_simps dest!: low)
  then show ?thesis
    by (simp add: disjunctive_xor_eq_or)
qed

lemma take_bit_xor_drop_bit: "take_bit n w XOR push_bit n (drop_bit n w) = (w :: 'a::len word)"
  by (rule bit_word_eqI) (auto simp: bit_xor_iff bit_take_bit_iff bit_push_bit_iff bit_drop_bit_eq)

lemma ucast_u32_u64 [simp]: "ucast (ucast (x :: u32) :: u64) = x"
  by (rule bit_word_eqI) (simp add: bit_simps)

lemma unat_NOT_byte: "unat (NOT b :: byte) = 255 - unat b"
proof -
  have "NOT b = 255 - b" by (simp add: not_eq_complement)
  moreover have "b \<le> 255" using unat_byte_less [of b] by (simp add: word_le_nat_alt)
  ultimately show ?thesis by (simp add: unat_sub)
qed

lemma diverge_less_NOT:
  "diverge_less (map NOT ys) (map NOT xs) \<longleftrightarrow> diverge_less xs ys"
proof (induction xs ys rule: diverge_less.induct)
  case (1 x xs y ys)
  have "NOT y < NOT x \<longleftrightarrow> x < y"
    using unat_byte_less [of x] unat_byte_less [of y] by (auto simp: word_less_nat_alt unat_NOT_byte)
  with 1 show ?case by auto
qed auto

text \<open>The signed reading of a 64-bit word.\<close>

lemma sint_u64: "sint (x :: u64) = (if unat x < 2 ^ 63 then int (unat x) else int (unat x) - 2 ^ 64)"
proof -
  have u: "uint x = int (unat x)" by simp
  have b: "unat x < 2 ^ 64" by (rule unat_u64_less)
  have "bit (uint x) 63 \<longleftrightarrow> bit (unat x) 63" by (simp add: bit_simps)
  also have "\<dots> \<longleftrightarrow> odd (unat x div 2 ^ 63)" by (rule bit_iff_odd)
  also have "\<dots> \<longleftrightarrow> \<not> unat x < 2 ^ 63"
  proof (cases "unat x < 2 ^ 63")
    case False
    then have "unat x div 2 ^ 63 = 1" using b by (intro div_nat_eqI) simp_all
    with False show ?thesis by simp
  qed simp
  finally have bit: "bit (uint x) 63 \<longleftrightarrow> \<not> unat x < 2 ^ 63" .
  have "sint x = signed_take_bit 63 (uint x)"
    by (simp add: sint_uint)
  also have "\<dots> = take_bit 64 (uint x) - 2 ^ 64 * of_bool (bit (uint x) 63)"
    using signed_take_bit_eq_take_bit_minus [of 63 "uint x"] by simp
  also have "take_bit 64 (uint x) = uint x"
    using b unfolding u by (intro take_bit_int_eq_self) (simp_all del: of_nat_unat)
  finally show ?thesis using bit by simp
qed

lemma sint_nonneg_iff: "0 \<le> sint (x :: u64) \<longleftrightarrow> unat x < 2 ^ 63"
proof -
  have "int (unat x) - 2 ^ 64 < 0" using unat_u64_less [of x] by (simp del: of_nat_unat)
  then show ?thesis by (auto simp: sint_u64 simp del: of_nat_unat)
qed

lemma unat_NOT_u64: "unat (NOT x :: u64) = 2 ^ 64 - 1 - unat x"
proof -
  have "NOT x = 0xffffffffffffffff - x" by (simp add: not_eq_complement)
  moreover have "x \<le> 0xffffffffffffffff" using unat_u64_less [of x] by (simp add: word_le_nat_alt)
  ultimately show ?thesis by (simp add: unat_sub)
qed

lemma unat_Suc_word: "w \<noteq> - 1 \<Longrightarrow> unat (w + 1) = Suc (unat (w :: 'a::len word))"
  by (subst add.commute, rule unatSuc) (auto simp: add_eq_0_iff)

section \<open>The interface of an item coder\<close>

text \<open>
  A coder writes an item as bytes, and its reader takes the item off the front of a buffer and
  returns the bytes after it.  \<open>read_items\<close> is the loop of a client that reads a fixed number of
  items.
\<close>

fun read_items :: "(bytes \<Rightarrow> ('a \<times> bytes) option) \<Rightarrow> nat \<Rightarrow> bytes \<Rightarrow> ('a list \<times> bytes) option" where
  "read_items rd 0 p = Some ([], p)"
| "read_items rd (Suc n) p =
     (case rd p of None \<Rightarrow> None
      | Some (x, p) \<Rightarrow> (case read_items rd n p of None \<Rightarrow> None | Some (xs, p) \<Rightarrow> Some (x # xs, p)))"

locale codec =
  fixes enc :: "'a \<Rightarrow> bytes" and dec :: "bytes \<Rightarrow> ('a \<times> bytes) option"
  assumes dec_enc: "dec (enc x @ rest) = Some (x, rest)"
begin

lemma enc_append_eq_iff: "enc x @ s = enc y @ t \<longleftrightarrow> x = y \<and> s = t"
  by (metis dec_enc option.inject prod.inject)

lemma inj_enc: "inj enc"
  by (rule injI) (metis enc_append_eq_iff)

lemma read_items_enc: "read_items dec (length xs) (concat (map enc xs) @ rest) = Some (xs, rest)"
  by (induction xs) (simp_all add: dec_enc)

lemma concat_enc_inject:
  "length xs = length ys \<Longrightarrow> concat (map enc xs) @ s = concat (map enc ys) @ t \<Longrightarrow> xs = ys \<and> s = t"
  by (metis read_items_enc option.inject prod.inject)

end

text \<open>
  An ordered coder also keeps the order of the items in the order of the bytes, whatever follows
  them, so that sequences of items sort like the concatenations of their codes.
\<close>

locale ordered_codec = codec enc dec
  for enc :: "'a \<Rightarrow> bytes" and dec :: "bytes \<Rightarrow> ('a \<times> bytes) option" +
  fixes before :: "'a \<Rightarrow> 'a \<Rightarrow> bool"
  assumes enc_less: "before x y \<Longrightarrow> enc x @ s < enc y @ t"
    and before_total: "before x y \<or> x = y \<or> before y x"
begin

lemma enc_less_iff: "enc x @ s < enc y @ t \<longleftrightarrow> before x y \<or> x = y \<and> s < t"
proof -
  have irrefl: "\<not> before z z" for z using enc_less [of z z "[]" "[]"] by auto
  consider "before x y" | "x = y" | "before y x" using before_total by blast
  then show ?thesis
  proof cases
    case 1
    then show ?thesis by (simp add: enc_less)
  next
    case 2
    then show ?thesis using irrefl by simp
  next
    case 3
    then have "\<not> enc x @ s < enc y @ t" "\<not> before x y" "x \<noteq> y"
      using enc_less [of y x t s] enc_less [of x y s t] irrefl by (auto dest: less_asym)
    then show ?thesis by simp
  qed
qed

lemma concat_enc_less_iff:
  "length xs = length ys \<Longrightarrow>
   concat (map enc xs) @ s < concat (map enc ys) @ t \<longleftrightarrow>
   (xs, ys) \<in> lexord {(x, y). before x y} \<or> xs = ys \<and> s < t"
  by (induction xs ys rule: list_induct2) (auto simp: enc_less_iff)

end

section \<open>Files\<close>

text \<open>\<open>WritableFile::Append\<close> on an abstract file.\<close>

type_synonym 'f appender = "'f \<Rightarrow> bytes \<Rightarrow> status \<times> 'f"

text \<open>The documented behaviour of a file that accepts every append.\<close>

definition appends :: "'f appender \<Rightarrow> ('f \<Rightarrow> bytes) \<Rightarrow> bool" where
  "appends app contents \<longleftrightarrow> (\<forall>f b. fst (app f b) = OkStatus \<and> contents (snd (app f b)) = contents f @ b)"

lemma appendsE:
  assumes "appends app contents"
  obtains f' where "app f b = (OkStatus, f')" "contents f' = contents f @ b"
  using assms unfolding appends_def by (metis prod.collapse)

end
