(* ===== verification/Coding.thy ===== *)
theory Coding
  imports Prelude
begin

text \<open>
  The integer codecs of \<open>tsl/platform/coding.cc\<close> and \<open>tsl/platform/raw_coding.h\<close>: fixed-width
  little-endian integers and base-128 varints.  A routine that writes through a \<open>char*\<close> is
  the function that returns the bytes written; a routine that reads from a pointer range
  \<open>[p, limit)\<close> takes the bytes of that range and returns the value with the bytes that are
  left, or \<open>None\<close> where the code returns \<open>nullptr\<close> or \<open>false\<close>.

  The specification is \<open>le_bytes\<close> (little-endian digits) and \<open>varint\<close> (base-128 digits) over
  natural numbers; every routine is shown equal to it, and the readers invert the writers.
\<close>

section \<open>Fixed-width integers\<close>

text \<open>
  \<open>port::kLittleEndian\<close> is a compile-time constant.  The model follows the little-endian
  hosts; the lemmas below treat both branches, so none of them depends on its value.
\<close>

definition kLittleEndian :: bool where
  "kLittleEndian = True"

text \<open>The object representation that \<open>memcpy\<close> reads from or writes to an integer of \<open>n\<close> bytes
  on a little-endian host.\<close>

definition memcpy_out :: "nat \<Rightarrow> 'a::len word \<Rightarrow> bytes" where
  "memcpy_out n value = map (\<lambda>i. ucast (drop_bit (8 * i) value)) [0..<n]"

definition memcpy_in :: "nat \<Rightarrow> bytes \<Rightarrow> 'a::len word" where
  "memcpy_in n ptr = foldr (\<lambda>b acc. push_bit 8 acc + ucast b) (take n ptr) 0"

definition EncodeFixed16 :: "u16 \<Rightarrow> bytes" where
  "EncodeFixed16 value =
     (if kLittleEndian then memcpy_out 2 value
      else [ucast (value AND 0xff), ucast (drop_bit 8 value AND 0xff)])"

definition EncodeFixed32 :: "u32 \<Rightarrow> bytes" where
  "EncodeFixed32 value =
     (if kLittleEndian then memcpy_out 4 value
      else [ucast (value AND 0xff), ucast (drop_bit 8 value AND 0xff),
            ucast (drop_bit 16 value AND 0xff), ucast (drop_bit 24 value AND 0xff)])"

definition EncodeFixed64 :: "u64 \<Rightarrow> bytes" where
  "EncodeFixed64 value =
     (if kLittleEndian then memcpy_out 8 value
      else [ucast (value AND 0xff), ucast (drop_bit 8 value AND 0xff),
            ucast (drop_bit 16 value AND 0xff), ucast (drop_bit 24 value AND 0xff),
            ucast (drop_bit 32 value AND 0xff), ucast (drop_bit 40 value AND 0xff),
            ucast (drop_bit 48 value AND 0xff), ucast (drop_bit 56 value AND 0xff)])"

definition PutFixed16 :: "bytes \<Rightarrow> u16 \<Rightarrow> bytes" where
  "PutFixed16 dst value = dst @ EncodeFixed16 value"

definition PutFixed32 :: "bytes \<Rightarrow> u32 \<Rightarrow> bytes" where
  "PutFixed32 dst value = dst @ EncodeFixed32 value"

definition PutFixed64 :: "bytes \<Rightarrow> u64 \<Rightarrow> bytes" where
  "PutFixed64 dst value = dst @ EncodeFixed64 value"

text \<open>
  The readers do no bounds checking: they are given the bytes from \<open>ptr\<close> on, and every use in
  the development has a lemma that enough of them are there.
\<close>

definition DecodeFixed16 :: "bytes \<Rightarrow> u16" where
  "DecodeFixed16 ptr =
     (if kLittleEndian then memcpy_in 2 ptr
      else ucast (ptr ! 0) OR push_bit 8 (ucast (ptr ! 1)))"

definition DecodeFixed32 :: "bytes \<Rightarrow> u32" where
  "DecodeFixed32 ptr =
     (if kLittleEndian then memcpy_in 4 ptr
      else ucast (ptr ! 0) OR push_bit 8 (ucast (ptr ! 1)) OR
           push_bit 16 (ucast (ptr ! 2)) OR push_bit 24 (ucast (ptr ! 3)))"

definition DecodeFixed64 :: "bytes \<Rightarrow> u64" where
  "DecodeFixed64 ptr =
     (if kLittleEndian then memcpy_in 8 ptr
      else (let lo = ucast (DecodeFixed32 ptr); hi = ucast (DecodeFixed32 (drop 4 ptr))
            in push_bit 32 hi OR lo))"

section \<open>Varints\<close>

definition EncodeVarint32 :: "u32 \<Rightarrow> bytes" where
  "EncodeVarint32 v =
     (let B = 128 in
      if v < 2 ^ 7 then [ucast v]
      else if v < 2 ^ 14 then [ucast (v OR B), ucast (drop_bit 7 v)]
      else if v < 2 ^ 21 then
        [ucast (v OR B), ucast (drop_bit 7 v OR B), ucast (drop_bit 14 v)]
      else if v < 2 ^ 28 then
        [ucast (v OR B), ucast (drop_bit 7 v OR B), ucast (drop_bit 14 v OR B),
         ucast (drop_bit 21 v)]
      else
        [ucast (v OR B), ucast (drop_bit 7 v OR B), ucast (drop_bit 14 v OR B),
         ucast (drop_bit 21 v OR B), ucast (drop_bit 28 v)])"

definition PutVarint32 :: "bytes \<Rightarrow> u32 \<Rightarrow> bytes" where
  "PutVarint32 dst v = dst @ EncodeVarint32 v"

lemma drop_bit_7_less: "v \<ge> 128 \<Longrightarrow> unat (drop_bit 7 v) < unat (v :: u64)"
proof -
  assume "v \<ge> 128"
  then have "unat v \<ge> 128" by (simp add: word_le_nat_alt)
  moreover have "unat (drop_bit 7 v) = unat v div 2 ^ 7"
    by (rule unat_drop_bit)
  ultimately show ?thesis by simp
qed

function EncodeVarint64 :: "u64 \<Rightarrow> bytes" where
  "EncodeVarint64 v =
     (if v \<ge> 128 then ucast ((v AND 127) OR 128) # EncodeVarint64 (drop_bit 7 v)
      else [ucast v])"
  by pat_completeness auto
termination
  by (relation "measure unat") (auto simp: drop_bit_7_less not_less)

declare EncodeVarint64.simps [simp del]

definition PutVarint64 :: "bytes \<Rightarrow> u64 \<Rightarrow> bytes" where
  "PutVarint64 dst v = dst @ EncodeVarint64 v"

function VarintLength_loop :: "nat \<Rightarrow> u64 \<Rightarrow> nat" where
  "VarintLength_loop len v =
     (if v \<ge> 128 then VarintLength_loop (len + 1) (drop_bit 7 v) else len)"
  by pat_completeness auto
termination
  by (relation "measure (\<lambda>(len, v). unat v)") (auto simp: drop_bit_7_less not_less)

declare VarintLength_loop.simps [simp del]

definition VarintLength :: "u64 \<Rightarrow> nat" where
  "VarintLength v = VarintLength_loop 1 v"

text \<open>The reading loops: \<open>shift\<close> and \<open>result\<close> are the loop variables, the list is
  \<open>[p, limit)\<close>.\<close>

fun GetVarint32PtrFallback_loop :: "nat \<Rightarrow> u32 \<Rightarrow> bytes \<Rightarrow> (u32 \<times> bytes) option" where
  "GetVarint32PtrFallback_loop shift result [] = None"
| "GetVarint32PtrFallback_loop shift result (b # p) =
     (if shift \<le> 28 then
        (let byte = ucast b :: u32 in
         if byte AND 128 \<noteq> 0
         then GetVarint32PtrFallback_loop (shift + 7)
                (result OR push_bit shift (byte AND 127)) p
         else Some (result OR push_bit shift byte, p))
      else None)"

definition GetVarint32PtrFallback :: "bytes \<Rightarrow> (u32 \<times> bytes) option" where
  "GetVarint32PtrFallback p = GetVarint32PtrFallback_loop 0 0 p"

definition GetVarint32Ptr :: "bytes \<Rightarrow> (u32 \<times> bytes) option" where
  "GetVarint32Ptr p =
     (case p of
        [] \<Rightarrow> GetVarint32PtrFallback p
      | b # q \<Rightarrow>
          (let result = ucast b :: u32 in
           if result AND 128 = 0 then Some (result, q) else GetVarint32PtrFallback p))"

definition GetVarint32 :: "bytes \<Rightarrow> (u32 \<times> bytes) option" where
  "GetVarint32 input =
     (case GetVarint32Ptr input of None \<Rightarrow> None | Some (value, q) \<Rightarrow> Some (value, q))"

fun GetVarint64Ptr_loop :: "nat \<Rightarrow> u64 \<Rightarrow> bytes \<Rightarrow> (u64 \<times> bytes) option" where
  "GetVarint64Ptr_loop shift result [] = None"
| "GetVarint64Ptr_loop shift result (b # p) =
     (if shift \<le> 63 then
        (let byte = ucast b :: u64 in
         if byte AND 128 \<noteq> 0
         then GetVarint64Ptr_loop (shift + 7) (result OR push_bit shift (byte AND 127)) p
         else Some (result OR push_bit shift byte, p))
      else None)"

definition GetVarint64Ptr :: "bytes \<Rightarrow> (u64 \<times> bytes) option" where
  "GetVarint64Ptr p = GetVarint64Ptr_loop 0 0 p"

definition GetVarint64 :: "bytes \<Rightarrow> (u64 \<times> bytes) option" where
  "GetVarint64 input =
     (case GetVarint64Ptr input of None \<Rightarrow> None | Some (value, q) \<Rightarrow> Some (value, q))"

section \<open>Specification: little-endian and base-128 digits\<close>

fun le_bytes :: "nat \<Rightarrow> nat \<Rightarrow> bytes" where
  "le_bytes 0 n = []"
| "le_bytes (Suc k) n = word_of_nat n # le_bytes k (n div 256)"

fun le_value :: "bytes \<Rightarrow> nat" where
  "le_value [] = 0"
| "le_value (b # bs) = unat b + 256 * le_value bs"

fun varint :: "nat \<Rightarrow> bytes" where
  "varint n = (if n < 128 then [word_of_nat n]
               else word_of_nat (n mod 128 + 128) # varint (n div 128))"

declare varint.simps [simp del]

lemma length_le_bytes [simp]: "length (le_bytes k n) = k"
  by (induction k arbitrary: n) auto

lemma le_value_le_bytes [simp]: "le_value (le_bytes k n) = n mod 256 ^ k"
proof (induction k arbitrary: n)
  case (Suc k)
  have "n mod (256 * 256 ^ k) = 256 * (n div 256 mod 256 ^ k) + n mod 256"
    by (rule mod_mult2_eq)
  with Suc show ?case
    by (simp add: unat_of_nat)
qed simp

lemma memcpy_out_le_bytes: "memcpy_out k (v :: 'a::len word) = le_bytes k (unat v)"
proof -
  have "map (\<lambda>i. ucast (drop_bit (8 * i) v) :: byte) [j..<j + k] = le_bytes k (unat v div 256 ^ j)"
    for j
  proof (induction k arbitrary: j)
    case (Suc k)
    have hd: "ucast (drop_bit (8 * j) v) = (word_of_nat (unat v div 256 ^ j) :: byte)"
      by (rule ucast_drop_bit_byte)
    have "unat v div 256 ^ j div 256 = unat v div 256 ^ Suc j"
      by (simp add: div_mult2_eq [symmetric] mult.commute)
    with hd Suc [of "Suc j"] show ?case
      by (simp add: upt_conv_Cons del: upt_Suc)
  qed simp
  from this [of 0] show ?thesis by (simp add: memcpy_out_def)
qed

lemma memcpy_in_le_value:
  "memcpy_in k ptr = (word_of_nat (le_value (take k ptr)) :: 'a::len word)"
proof -
  have "foldr (\<lambda>b acc. push_bit 8 acc + ucast b) bs 0 = (word_of_nat (le_value bs) :: 'a word)"
    for bs :: bytes
    by (induction bs) (simp_all add: push_bit_eq_mult algebra_simps)
  then show ?thesis by (simp add: memcpy_in_def)
qed

subsection \<open>Fixed-width integers meet the specification\<close>

lemma ucast_and_255 [word_bits]: "ucast ((w :: 'a::len word) AND 0xff) = (ucast w :: byte)"
  by (auto intro!: bit_word_eqI simp: bit_simps and_255_take_bit dest: bit_imp_le_length)

lemma portable_bytes:
  "[ucast (v AND 0xff), ucast (drop_bit 8 v AND 0xff)] = memcpy_out 2 (v :: u16)"
  "[ucast (w AND 0xff), ucast (drop_bit 8 w AND 0xff),
    ucast (drop_bit 16 w AND 0xff), ucast (drop_bit 24 w AND 0xff)] = memcpy_out 4 (w :: u32)"
  "[ucast (x AND 0xff), ucast (drop_bit 8 x AND 0xff),
    ucast (drop_bit 16 x AND 0xff), ucast (drop_bit 24 x AND 0xff),
    ucast (drop_bit 32 x AND 0xff), ucast (drop_bit 40 x AND 0xff),
    ucast (drop_bit 48 x AND 0xff), ucast (drop_bit 56 x AND 0xff)] = memcpy_out 8 (x :: u64)"
  by (simp_all add: memcpy_out_def ucast_and_255 upt_rec)

lemma EncodeFixed16_le_bytes: "EncodeFixed16 v = le_bytes 2 (unat v)"
  by (simp only: EncodeFixed16_def portable_bytes memcpy_out_le_bytes if_cancel)

lemma EncodeFixed32_le_bytes: "EncodeFixed32 v = le_bytes 4 (unat v)"
  by (simp only: EncodeFixed32_def portable_bytes memcpy_out_le_bytes if_cancel)

lemma EncodeFixed64_le_bytes: "EncodeFixed64 v = le_bytes 8 (unat v)"
  by (simp only: EncodeFixed64_def portable_bytes memcpy_out_le_bytes if_cancel)

lemma length_EncodeFixed [simp]:
  "length (EncodeFixed16 v) = 2" "length (EncodeFixed32 w) = 4" "length (EncodeFixed64 x) = 8"
  by (simp_all add: EncodeFixed16_le_bytes EncodeFixed32_le_bytes EncodeFixed64_le_bytes)

text \<open>The portable decoders assemble the same number.\<close>

lemma byte_or_push_bit:
  "ucast (b :: byte) OR push_bit 8 (word_of_nat acc :: 'a::len word) =
     word_of_nat (unat b + 256 * acc)"
  using or_push_bit_of_nat [of "unat b" 8 acc, where 'a = 'a] unat_byte_less [of b] by simp

lemma take_nth_2: "length p \<ge> 2 \<Longrightarrow> take 2 p = [p ! 0, p ! 1]"
  and take_nth_4: "length p \<ge> 4 \<Longrightarrow> take 4 p = [p ! 0, p ! 1, p ! 2, p ! 3]"
  by (auto simp: numeral_eq_Suc Suc_le_length_iff)

lemma portable_DecodeFixed16:
  assumes "length p \<ge> 2"
  shows "ucast (p ! 0) OR push_bit 8 (ucast (p ! 1)) = (memcpy_in 2 p :: u16)"
  using byte_or_push_bit [where 'a = 16, of "p ! 0" "unat (p ! 1)"] assms
  by (simp add: memcpy_in_le_value take_nth_2)

lemma portable_DecodeFixed32:
  assumes "length p \<ge> 4"
  shows "ucast (p ! 0) OR push_bit 8 (ucast (p ! 1)) OR
         push_bit 16 (ucast (p ! 2)) OR push_bit 24 (ucast (p ! 3)) = (memcpy_in 4 p :: u32)"
proof -
  let ?n = "\<lambda>i. unat (p ! i)"
  have "ucast (p ! 0) OR push_bit 8 (ucast (p ! 1)) OR
      push_bit 16 (ucast (p ! 2)) OR push_bit 24 (ucast (p ! 3)) =
      ucast (p ! 0) OR push_bit 8 (ucast (p ! 1) OR push_bit 8 (ucast (p ! 2) OR
        push_bit 8 (word_of_nat (?n 3) :: u32)))"
    by (simp add: push_bit_or or.assoc)
  also have "\<dots> = word_of_nat (le_value [p ! 0, p ! 1, p ! 2, p ! 3])"
    by (simp only: byte_or_push_bit) simp
  finally show ?thesis
    using assms by (simp add: memcpy_in_le_value take_nth_4)
qed

lemma le_value_append: "le_value (q @ r) = le_value q + 256 ^ length q * le_value r"
  by (induction q) (auto simp: algebra_simps)

lemma le_value_less: "le_value q < 256 ^ length q"
proof (induction q)
  case (Cons b q)
  then show ?case using unat_byte_less [of b] by simp
qed simp

lemma DecodeFixed16_le_value:
  "length p \<ge> 2 \<Longrightarrow> DecodeFixed16 p = word_of_nat (le_value (take 2 p))"
  using portable_DecodeFixed16 [of p] by (simp add: DecodeFixed16_def memcpy_in_le_value)

lemma DecodeFixed32_le_value:
  "length p \<ge> 4 \<Longrightarrow> DecodeFixed32 p = word_of_nat (le_value (take 4 p))"
  using portable_DecodeFixed32 [of p] by (simp add: DecodeFixed32_def memcpy_in_le_value)

lemma DecodeFixed32_pair:
  assumes "length p \<ge> 8"
  shows "push_bit 32 (ucast (DecodeFixed32 (drop 4 p))) OR ucast (DecodeFixed32 p) = (word_of_nat (le_value (take 8 p)) :: u64)"
proof -
  let ?lo = "le_value (take 4 p)" and ?hi = "le_value (take 4 (drop 4 p))"
  have bounds: "?lo < 2 ^ 32" "?hi < 2 ^ 32"
    using le_value_less [of "take 4 p"] le_value_less [of "take 4 (drop 4 p)"] assms by simp_all
  have "take 8 p = take 4 p @ take 4 (drop 4 p)"
    by (simp flip: take_add)
  with assms have "le_value (take 8 p) = ?lo + 2 ^ 32 * ?hi"
    by (simp add: le_value_append)
  moreover have "ucast (word_of_nat n :: u32) = (word_of_nat n :: u64)" if "n < 2 ^ 32" for n
    using that by (simp add: unsigned_of_nat take_bit_nat_eq_self)
  ultimately show ?thesis
    using assms bounds or_push_bit_of_nat [of ?lo 32 ?hi, where 'a = 64]
    by (simp add: DecodeFixed32_le_value or.commute)
qed

lemma DecodeFixed64_le_value:
  "length p \<ge> 8 \<Longrightarrow> DecodeFixed64 p = word_of_nat (le_value (take 8 p))"
  by (simp add: DecodeFixed64_def memcpy_in_le_value DecodeFixed32_pair Let_def)

lemma le_bytes_le_value: "le_bytes (length q) (le_value q) = q"
proof (induction q)
  case (Cons b q)
  have "(unat b + 256 * le_value q) div 256 = le_value q"
    using unat_byte_less [of b] by simp
  moreover have "word_of_nat (unat b + 256 * le_value q) = b"
    using unat_byte_less [of b] by (simp only: word_unat_eq_iff unat_of_nat) simp
  ultimately show ?case using Cons by (simp del: of_nat_add)
qed simp

lemma memcpy_out_in:
  assumes "length p \<ge> 8"
  shows "memcpy_out 8 (memcpy_in 8 p :: u64) = take 8 p"
proof -
  have "le_value (take 8 p) < 2 ^ 64"
    using le_value_less [of "take 8 p"] assms by simp
  then have "unat (memcpy_in 8 p :: u64) = le_value (take 8 p)"
    by (simp add: memcpy_in_le_value unat_of_nat)
  then show ?thesis
    using le_bytes_le_value [of "take 8 p"] assms by (simp add: memcpy_out_le_bytes)
qed

lemma EncodeFixed32_DecodeFixed32:
  assumes "length q = 4"
  shows "EncodeFixed32 (DecodeFixed32 q) = q"
proof -
  have "le_value q < 2 ^ 32" using le_value_less [of q] assms by simp
  then have "unat (word_of_nat (le_value q) :: u32) = le_value q" by (simp add: unat_of_nat)
  then show ?thesis using le_bytes_le_value [of q] assms by (simp add: EncodeFixed32_le_bytes DecodeFixed32_le_value)
qed

lemma DecodeFixed_EncodeFixed [simp]:
  "DecodeFixed16 (EncodeFixed16 v @ p) = v"
  "DecodeFixed32 (EncodeFixed32 w @ p) = w"
  "DecodeFixed64 (EncodeFixed64 x @ p) = x"
  using unat_u16_less [of v] unat_u32_less [of w] unat_u64_less [of x]
  by (simp_all add: DecodeFixed16_le_value DecodeFixed32_le_value DecodeFixed64_le_value
      EncodeFixed16_le_bytes EncodeFixed32_le_bytes EncodeFixed64_le_bytes)

subsection \<open>Varints meet the specification\<close>

lemma EncodeVarint64_varint: "EncodeVarint64 v = varint (unat v)"
proof (induction v rule: EncodeVarint64.induct)
  case (1 v)
  show ?case
  proof (cases "v \<ge> 128")
    case True
    have "(v AND 127) OR 128 = word_of_nat (unat v mod 128 + 128)"
      using or_push_bit_of_nat [of "unat v mod 128" 7 1, where 'a = 64]
      by (simp add: and_127_take_bit take_bit_unat del: take_bit_numeral_minus_1_eq)
    then have "ucast ((v AND 127) OR 128) = (word_of_nat (unat v mod 128 + 128) :: byte)"
      by (simp add: unsigned_of_nat take_bit_nat_eq_self del: of_nat_add)
    with True 1 show ?thesis
      by (simp add: EncodeVarint64.simps [of v] varint.simps [of "unat v"] word_le_nat_alt
          unat_drop_bit not_less)
  next
    case False
    then show ?thesis
      by (simp add: EncodeVarint64.simps [of v] varint.simps [of "unat v"] word_le_nat_alt)
  qed
qed

lemma VarintLength_eq: "VarintLength v = length (EncodeVarint64 v)"
proof -
  have "Suc (VarintLength_loop len v) = len + length (EncodeVarint64 v)" for len
  proof (induction len v rule: VarintLength_loop.induct)
    case (1 len v)
    then show ?case
      by (cases "v \<ge> 128") (simp_all add: EncodeVarint64.simps [of v] VarintLength_loop.simps [of len v])
  qed
  from this [of 1] show ?thesis by (simp add: VarintLength_def)
qed

lemma bit_128_int: "bit (128 :: int) n \<longleftrightarrow> n = 7"
  using bit_exp_iff [of 7 n, where 'a = int] by auto

lemma ucast_or_128: "ucast ((w :: u32) OR 128) = (word_of_nat (unat w mod 128 + 128) :: byte)"
proof -
  have "ucast (w OR 128) = (take_bit 7 (ucast w) OR 128 :: byte)"
    by (rule bit_word_eqI) (auto simp: bit_simps bit_128_int)
  also have "\<dots> = word_of_nat (unat w mod 128 + 128)"
    using or_push_bit_of_nat [of "unat w mod 128" 7 1, where 'a = 8]
    by (simp add: take_bit_unat unsigned_ucast_eq mod_mod_cancel take_bit_eq_mod)
  finally show ?thesis .
qed

lemma EncodeVarint32_varint: "EncodeVarint32 v = varint (unat v)"
proof -
  have v5: "unat v < 128 ^ 5" using unat_u32_less [of v] by simp
  have cast: "ucast (drop_bit k v) = (word_of_nat (unat v div 2 ^ k) :: byte)"
    "ucast v = (word_of_nat (unat v) :: byte)" for k
    by (simp_all add: ucast_of_unat unat_drop_bit del: of_nat_unat)
  show ?thesis
    using v5
    by (simp add: EncodeVarint32_def Let_def ucast_or_128 cast unat_drop_bit word_less_nat_alt
        varint.simps [of "unat v"] varint.simps [of "unat v div 128"]
        varint.simps [of "unat v div 16384"] varint.simps [of "unat v div 2097152"]
        varint.simps [of "unat v div 268435456"] div_mult2_eq [symmetric]
        del: of_nat_unat of_nat_add)
       (auto simp: not_less)
qed

text \<open>Reading: one step of either loop consumes one digit.\<close>

lemma ucast_byte_of_nat:
  "m < 256 \<Longrightarrow> ucast (word_of_nat m :: byte) = (word_of_nat m :: 'a::len word)"
  by (simp add: unsigned_of_nat take_bit_nat_eq_self)

lemma and_128_of_nat:
  assumes "7 < LENGTH('a::len)"
  shows "(word_of_nat m :: 'a word) AND 128 = 0 \<longleftrightarrow> even (m div 128)"
  using and_exp_eq_0_iff_not_bit [of "word_of_nat m :: 'a word" 7] assms
  by (simp add: bit_of_nat_iff bit_iff_odd [where 'a = nat])

lemma and_127_of_nat: "(word_of_nat m :: 'a::len word) AND 127 = word_of_nat (m mod 128)"
  by (simp add: and_127_take_bit take_bit_of_nat take_bit_eq_mod [where 'a = nat])

lemma varint_step: "word_of_nat n = word_of_nat (n mod 128) OR push_bit 7 (word_of_nat (n div 128) :: 'a::len word)"
  by (subst or_push_bit_of_nat) simp_all

lemma GetVarint32PtrFallback_loop_varint:
  assumes "n < 2 ^ (32 - 7 * k)" "k \<le> 4"
  shows "GetVarint32PtrFallback_loop (7 * k) result (varint n @ rest) =
           Some (result OR push_bit (7 * k) (word_of_nat n), rest)"
  using assms
proof (induction n arbitrary: k result rule: varint.induct)
  case (1 n)
  show ?case
  proof (cases "n < 128")
    case True
    then show ?thesis
      using "1.prems" by (simp add: varint.simps [of n] ucast_byte_of_nat and_128_of_nat)
  next
    case False
    then have "(2 :: nat) ^ 7 < 2 ^ (32 - 7 * k)" using "1.prems"(1) by simp
    then have "7 < 32 - 7 * k" by (rule power_less_imp_less_exp [rotated]) simp
    then have k: "Suc k \<le> 4" and e: "32 - 7 * k = 7 + (32 - 7 * Suc k)"
      by simp_all
    have "n div 128 < 2 ^ (32 - 7 * Suc k)"
      using "1.prems"(1) unfolding e by (simp add: power_add div_less_iff_less_mult mult.commute)
    moreover have "(n mod 128 + 128) div 128 = 1" by (simp add: div_nat_eqI)
    moreover note "1.IH" [OF False _ k]
    ultimately show ?thesis using False
      by (simp add: varint.simps [of n] ucast_byte_of_nat and_128_of_nat and_127_of_nat
          "1.prems"(2) k or.assoc varint_step [of n, THEN arg_cong [where f = "push_bit (7 * k)"]]
          push_bit_or Let_def add.commute [of "7 * k" 7] del: of_nat_add)
  qed
qed

lemma GetVarint64Ptr_loop_varint:
  assumes "n < 2 ^ (64 - 7 * k)" "k \<le> 9"
  shows "GetVarint64Ptr_loop (7 * k) result (varint n @ rest) =
           Some (result OR push_bit (7 * k) (word_of_nat n), rest)"
  using assms
proof (induction n arbitrary: k result rule: varint.induct)
  case (1 n)
  show ?case
  proof (cases "n < 128")
    case True
    then show ?thesis
      using "1.prems" by (simp add: varint.simps [of n] ucast_byte_of_nat and_128_of_nat)
  next
    case False
    then have "(2 :: nat) ^ 7 < 2 ^ (64 - 7 * k)" using "1.prems"(1) by simp
    then have "7 < 64 - 7 * k" by (rule power_less_imp_less_exp [rotated]) simp
    then have k: "Suc k \<le> 9" and e: "64 - 7 * k = 7 + (64 - 7 * Suc k)"
      by simp_all
    have "n div 128 < 2 ^ (64 - 7 * Suc k)"
      using "1.prems"(1) unfolding e by (simp add: power_add div_less_iff_less_mult mult.commute)
    moreover have "(n mod 128 + 128) div 128 = 1" by (simp add: div_nat_eqI)
    moreover note "1.IH" [OF False _ k]
    ultimately show ?thesis using False
      by (simp add: varint.simps [of n] ucast_byte_of_nat and_128_of_nat and_127_of_nat
          "1.prems"(2) k or.assoc varint_step [of n, THEN arg_cong [where f = "push_bit (7 * k)"]]
          push_bit_or Let_def add.commute [of "7 * k" 7] del: of_nat_add)
  qed
qed

text \<open>The readers invert the writers, whatever follows in the buffer.\<close>

lemma varint_not_Nil [simp]: "varint n \<noteq> []"
  by (simp add: varint.simps [of n])

lemma GetVarint32Ptr_fallback: "GetVarint32Ptr p = GetVarint32PtrFallback p"
  by (cases p) (auto simp: GetVarint32Ptr_def GetVarint32PtrFallback_def Let_def)

lemma GetVarint32Ptr_EncodeVarint32 [simp]:
  "GetVarint32Ptr (EncodeVarint32 v @ rest) = Some (v, rest)"
  using GetVarint32PtrFallback_loop_varint [of "unat v" 0 0 rest] unat_u32_less [of v]
  by (simp add: GetVarint32Ptr_fallback GetVarint32PtrFallback_def EncodeVarint32_varint)

lemma GetVarint64Ptr_EncodeVarint64 [simp]:
  "GetVarint64Ptr (EncodeVarint64 v @ rest) = Some (v, rest)"
  using GetVarint64Ptr_loop_varint [of "unat v" 0 0 rest] unat_u64_less [of v]
  by (simp add: GetVarint64Ptr_def EncodeVarint64_varint)

lemma GetVarint64_EncodeVarint64 [simp]:
  "GetVarint64 (EncodeVarint64 v @ rest) = Some (v, rest)"
  by (simp add: GetVarint64_def)

lemma length_varint_le: "n < 128 ^ Suc k \<Longrightarrow> length (varint n) \<le> Suc k"
proof (induction k arbitrary: n)
  case 0
  then show ?case by (simp add: varint.simps [of n])
next
  case (Suc k)
  then have "n div 128 < 128 ^ Suc k" by (simp add: div_less_iff_less_mult mult.commute)
  with Suc.IH show ?case by (simp add: varint.simps [of n])
qed

lemma length_EncodeVarint_bounds:
  "length (EncodeVarint32 v) \<in> {1..5}" "length (EncodeVarint64 w) \<in> {1..10}"
  using length_varint_le [of "unat v" 4] length_varint_le [of "unat w" 9]
    unat_u32_less [of v] unat_u64_less [of w]
  by (auto simp: EncodeVarint32_varint EncodeVarint64_varint Suc_le_eq)

text \<open>A reader consumes a non-empty prefix of its input, never more than the varint limit.\<close>

lemma GetVarint32PtrFallback_loop_suffix:
  "GetVarint32PtrFallback_loop (7 * k) result p = Some (v, q) \<Longrightarrow>
   \<exists>c. p = c @ q \<and> c \<noteq> [] \<and> length c + k \<le> 5"
proof (induction "7 * k" result p arbitrary: k v rule: GetVarint32PtrFallback_loop.induct)
  case (2 result b p)
  show ?case
  proof (cases "ucast b AND (128 :: u32) = 0")
    case True
    with "2.prems" show ?thesis
      by (intro exI [of _ "[b]"]) (auto split: if_splits)
  next
    case False
    with "2.prems" have k: "7 * k \<le> 28"
      and rec: "GetVarint32PtrFallback_loop (7 * Suc k)
        (result OR push_bit (7 * k) (ucast b AND 127)) p = Some (v, q)"
      by (auto simp: add.commute split: if_splits)
    have "7 * k + 7 = 7 * Suc k" by simp
    from "2.hyps" [OF k refl False this rec]
    obtain c where "p = c @ q" "c \<noteq> []" "length c + Suc k \<le> 5" by blast
    then show ?thesis by (intro exI [of _ "b # c"]) simp
  qed
qed simp

lemma GetVarint32Ptr_suffix:
  assumes "GetVarint32Ptr p = Some (v, q)"
  obtains c where "p = c @ q" "c \<noteq> []" "length c \<le> 5"
  using GetVarint32PtrFallback_loop_suffix [of 0 0 p v q] assms
  by (auto simp: GetVarint32Ptr_fallback GetVarint32PtrFallback_def)

interpretation varint32: codec EncodeVarint32 GetVarint32
  by unfold_locales (simp add: GetVarint32_def)

interpretation varint64: codec EncodeVarint64 GetVarint64
  by unfold_locales simp

section \<open>Properties\<close>

text \<open>(C38) Varints round-trip: reading what \<open>PutVarint32\<close> or \<open>PutVarint64\<close> appended
  returns the value and exactly the bytes that follow it, for every 32-bit and 64-bit value.\<close>

theorem varint_roundtrip:
  "GetVarint32 (PutVarint32 [] v @ rest) = Some (v, rest) \<and>
   GetVarint64 (PutVarint64 [] w @ rest) = Some (w, rest)"
  by (simp add: PutVarint32_def PutVarint64_def GetVarint32_def)

text \<open>Fixed-width integers round-trip through a buffer, and the bytes written are the
  little-endian digits on a host of either byte order.\<close>

theorem fixed_roundtrip:
  "DecodeFixed16 (PutFixed16 [] a @ rest) = a \<and> EncodeFixed16 a = le_bytes 2 (unat a) \<and>
   DecodeFixed32 (PutFixed32 [] b @ rest) = b \<and> EncodeFixed32 b = le_bytes 4 (unat b) \<and>
   DecodeFixed64 (PutFixed64 [] c @ rest) = c \<and> EncodeFixed64 c = le_bytes 8 (unat c)"
  by (simp add: PutFixed16_def PutFixed32_def PutFixed64_def
      EncodeFixed16_le_bytes [symmetric] EncodeFixed32_le_bytes [symmetric]
      EncodeFixed64_le_bytes [symmetric])

text \<open>The unrolled 32-bit encoder writes the same bytes as the 64-bit loop; a varint
  takes at most five or ten bytes (the size of the callers' buffers), and \<open>VarintLength\<close> is the
  exact number.\<close>

theorem varint_encoders_agree:
  "EncodeVarint32 v = EncodeVarint64 (ucast v) \<and> length (EncodeVarint32 v) \<le> 5 \<and>
   length (EncodeVarint64 w) \<le> 10 \<and> VarintLength w = length (EncodeVarint64 w)"
proof -
  have "unat (ucast v :: u64) = unat v"
    using unat_u32_less [of v] by (simp add: unsigned_ucast_eq take_bit_nat_eq_self)
  then show ?thesis
    using length_EncodeVarint_bounds(1) [of v] length_EncodeVarint_bounds(2) [of w]
    by (simp add: EncodeVarint32_varint EncodeVarint64_varint VarintLength_eq)
qed

end
