(* ===== verification/Streams.thy ===== *)
theory Streams
  imports Prelude
begin

text \<open>
  Input streams: the interface of \<open>tsl/lib/io/inputstream_interface.h\<close> with its default
  \<open>SkipNBytes\<close>, and the stream over a random access file of \<open>random_inputstream.cc\<close>.

  A stream class is a record of its four virtual methods over the type of its state.  The locale
  \<open>input_stream\<close> states what their comments promise: a stream over the bytes \<open>bs\<close> is at a
  position, a read returns the next bytes, a read or skip past the end stops at the end and reports
  \<open>OUT_OF_RANGE\<close>.  Buffered streams and the record reader rely on this contract only.

  Positions and counts of type \<open>int64_t\<close> are integers; the laws ask that a skip does not leave
  their range, where the sum in the C++ code would be undefined.  \<open>None\<close> is a loop that does not end.
\<close>

section \<open>The interface\<close>

record 's stream_ops =
  op_ReadNBytes :: "int \<Rightarrow> bytes \<Rightarrow> 's \<Rightarrow> (status \<times> bytes \<times> 's) option"
  op_SkipNBytes :: "int \<Rightarrow> 's \<Rightarrow> (status \<times> 's) option"
  op_Tell :: "'s \<Rightarrow> int"
  op_Reset :: "'s \<Rightarrow> status \<times> 's"

definition kMaxSkipSize :: int where "kMaxSkipSize = 8 * 1024 * 1024"

lemma kMaxSkipSize_pos [simp]: "0 < kMaxSkipSize"
  by (simp add: kMaxSkipSize_def)

text \<open>The default implementation reads into a string that is not used.\<close>

function default_skip_loop :: "'s stream_ops \<Rightarrow> int \<Rightarrow> bytes \<Rightarrow> 's \<Rightarrow> (status \<times> 's) option" where
  "default_skip_loop ops bytes_to_skip unused st =
     (if bytes_to_skip > 0 then
        let bytes_to_read = min kMaxSkipSize bytes_to_skip in
        (case op_ReadNBytes ops bytes_to_read unused st of
           None \<Rightarrow> None
         | Some (s, unused, st) \<Rightarrow>
             if \<not> ok s then Some (s, st)
             else default_skip_loop ops (bytes_to_skip - bytes_to_read) unused st)
      else Some (OkStatus, st))"
  by pat_completeness auto
termination
  by (relation "measure (\<lambda>(ops, n, unused, st). nat n)") auto

declare default_skip_loop.simps [simp del]

definition InputStreamInterface_SkipNBytes :: "'s stream_ops \<Rightarrow> int \<Rightarrow> 's \<Rightarrow> (status \<times> 's) option" where
  "InputStreamInterface_SkipNBytes ops bytes_to_skip st =
     (if bytes_to_skip < 0 then Some (Error INVALID_ARGUMENT ''Can't skip a negative number of bytes'', st)
      else default_skip_loop ops bytes_to_skip [] st)"

section \<open>The contract\<close>

text \<open>The outcome of moving \<open>n\<close> bytes on from \<open>p\<close>: the new position and whether the status fits.\<close>

definition moved :: "bytes \<Rightarrow> nat \<Rightarrow> nat \<Rightarrow> nat" where
  "moved bs p n = min (p + n) (length bs)"

definition move_status :: "bytes \<Rightarrow> nat \<Rightarrow> nat \<Rightarrow> status \<Rightarrow> bool" where
  "move_status bs p n s \<longleftrightarrow> (if p + n \<le> length bs then s = OkStatus else IsOutOfRange s)"

lemma move_status_ok: "move_status bs p n s \<Longrightarrow> ok s \<longleftrightarrow> p + n \<le> length bs"
  by (cases s) (auto simp: move_status_def split: if_splits)

lemma move_status_not_ok: "move_status bs p n s \<Longrightarrow> \<not> ok s \<Longrightarrow> IsOutOfRange s"
  by (auto simp: move_status_def split: if_splits)

text \<open>The reads of a stream: what fails because the stream is too short ends at its end, and its result is not
  determined.\<close>

locale read_source =
  fixes ops :: "'s stream_ops" and over :: "bytes \<Rightarrow> 's \<Rightarrow> nat \<Rightarrow> bool"
  assumes over_le: "over bs st p \<Longrightarrow> p \<le> length bs"
    and read_ok: "over bs st p \<Longrightarrow> p + n \<le> length bs \<Longrightarrow>
      \<exists>st'. op_ReadNBytes ops (int n) result st = Some (OkStatus, take n (drop p bs), st') \<and> over bs st' (p + n)"
    and read_short: "over bs st p \<Longrightarrow> length bs < p + n \<Longrightarrow>
      \<exists>s r st'. op_ReadNBytes ops (int n) result st = Some (s, r, st') \<and> over bs st' (length bs) \<and> IsOutOfRange s"
begin

text \<open>The default \<open>SkipNBytes\<close> reads.\<close>

lemma default_skip_loop_law:
  assumes "over bs st p" "0 \<le> n"
  shows "\<exists>s st'. default_skip_loop ops n unused st = Some (s, st') \<and>
    over bs st' (moved bs p (nat n)) \<and> move_status bs p (nat n) s"
  using assms
proof (induction "nat n" arbitrary: n st p unused rule: less_induct)
  case less
  show ?case
  proof (cases "n > 0")
    case False
    then show ?thesis
      using less.prems over_le [OF less.prems(1)]
      by (subst default_skip_loop.simps) (simp add: moved_def move_status_def)
  next
    case True
    define k where "k = nat (min kMaxSkipSize n)"
    have k: "0 < k" "int k \<le> n" "min kMaxSkipSize n = int k" using True by (simp_all add: k_def less_imp_le)
    show ?thesis
    proof (cases "p + k \<le> length bs")
      case False
      then have "length bs < p + k" by simp
      from read_short [OF less.prems(1) this] obtain s r st1 where r:
        "op_ReadNBytes ops (int k) unused st = Some (s, r, st1)" "over bs st1 (length bs)" "IsOutOfRange s" by blast
      have "\<not> ok s" using r(3) by (cases s) auto
      then have "default_skip_loop ops n unused st = Some (s, st1)"
        using True r(1) by (subst default_skip_loop.simps) (simp add: k(3) Let_def)
      moreover have "moved bs p (nat n) = length bs" "\<not> p + nat n \<le> length bs" using False k by (auto simp: moved_def)
      ultimately show ?thesis using r(2,3) by (simp add: move_status_def)
    next
      case le: True
      from read_ok [OF less.prems(1) le] obtain st1 where r:
        "op_ReadNBytes ops (int k) unused st = Some (OkStatus, take k (drop p bs), st1)" "over bs st1 (p + k)" by blast
      have step: "default_skip_loop ops n unused st = default_skip_loop ops (n - int k) (take k (drop p bs)) st1"
        using True r(1) by (subst default_skip_loop.simps) (simp add: k(3) Let_def)
      obtain s' st' where "default_skip_loop ops (n - int k) (take k (drop p bs)) st1 = Some (s', st')"
        "over bs st' (moved bs (p + k) (nat (n - int k)))" "move_status bs (p + k) (nat (n - int k)) s'"
        using less.hyps [of "n - int k" st1 "p + k" "take k (drop p bs)"] k r(2) by auto
      moreover have "p + k + nat (n - int k) = p + nat n" using k by simp
      ultimately show ?thesis using step by (simp add: moved_def move_status_def)
    qed
  qed
qed

lemma default_skip_law:
  assumes "over bs st p" "0 \<le> n"
  shows "\<exists>s st'. InputStreamInterface_SkipNBytes ops n st = Some (s, st') \<and>
    over bs st' (moved bs p (nat n)) \<and> move_status bs p (nat n) s"
  using default_skip_loop_law [OF assms] assms(2) by (simp add: InputStreamInterface_SkipNBytes_def)

end

text \<open>With the other methods.\<close>

locale byte_source = read_source +
  assumes skip_law: "over bs st p \<Longrightarrow> 0 \<le> n \<Longrightarrow> int p + n \<le> INT64_MAX \<Longrightarrow>
      \<exists>s st'. op_SkipNBytes ops n st = Some (s, st') \<and> over bs st' (moved bs p (nat n)) \<and> move_status bs p (nat n) s"
    and tell_law: "over bs st p \<Longrightarrow> op_Tell ops st = int p"
    and reset_law: "over bs st p \<Longrightarrow> \<exists>st'. op_Reset ops st = (OkStatus, st') \<and> over bs st' 0"

text \<open>Streams that also return the bytes before the end when they fail there, and reject negative counts.\<close>

locale input_stream =
  fixes ops :: "'s stream_ops" and over :: "bytes \<Rightarrow> 's \<Rightarrow> nat \<Rightarrow> bool"
  assumes over_le: "over bs st p \<Longrightarrow> p \<le> length bs"
    and read_law: "over bs st p \<Longrightarrow> 0 \<le> n \<Longrightarrow>
      \<exists>s st'. op_ReadNBytes ops n result st = Some (s, take (nat n) (drop p bs), st') \<and>
        over bs st' (moved bs p (nat n)) \<and> move_status bs p (nat n) s"
    and skip_law: "over bs st p \<Longrightarrow> 0 \<le> n \<Longrightarrow> int p + n \<le> INT64_MAX \<Longrightarrow>
      \<exists>s st'. op_SkipNBytes ops n st = Some (s, st') \<and> over bs st' (moved bs p (nat n)) \<and> move_status bs p (nat n) s"
    and negative_law: "over bs st p \<Longrightarrow> n < 0 \<Longrightarrow>
      \<exists>s r st'. op_ReadNBytes ops n result st = Some (s, r, st') \<and> over bs st' p \<and> \<not> ok s \<and> \<not> IsOutOfRange s"
    and negative_skip_law: "over bs st p \<Longrightarrow> n < 0 \<Longrightarrow>
      \<exists>s st'. op_SkipNBytes ops n st = Some (s, st') \<and> over bs st' p \<and> \<not> ok s \<and> \<not> IsOutOfRange s"
    and tell_law: "over bs st p \<Longrightarrow> op_Tell ops st = int p"
    and reset_law: "over bs st p \<Longrightarrow> \<exists>st'. op_Reset ops st = (OkStatus, st') \<and> over bs st' 0"

sublocale input_stream \<subseteq> src: byte_source ops over
proof (unfold_locales, goal_cases)
  case (1 bs st p)
  then show ?case by (rule over_le)
next
  case (2 bs st p n result)
  then show ?case using read_law [of bs st p "int n" result] by (auto simp: moved_def move_status_def)
next
  case (3 bs st p n result)
  then show ?case using read_law [of bs st p "int n" result] by (auto simp: moved_def move_status_def)
next
  case (4 bs st p n)
  then show ?case by (rule skip_law)
next
  case (5 bs st p)
  then show ?case by (rule tell_law)
next
  case (6 bs st p)
  then show ?case by (rule reset_law)
qed

section \<open>A stream over a random access file\<close>

text \<open>\<open>RandomAccessFile::Read\<close>: the status and the bytes that were read.\<close>

type_synonym random_file = "int \<Rightarrow> int \<Rightarrow> status \<times> bytes"

record random_stream =
  rs_file :: random_file
  rs_pos :: int

definition RandomAccessInputStream :: "random_file \<Rightarrow> random_stream" where
  "RandomAccessInputStream file = \<lparr>rs_file = file, rs_pos = 0\<rparr>"

definition RandomAccess_ReadNBytes :: "int \<Rightarrow> bytes \<Rightarrow> random_stream \<Rightarrow> status \<times> bytes \<times> random_stream" where
  "RandomAccess_ReadNBytes bytes_to_read result st =
     (if bytes_to_read < 0 then (Error INVALID_ARGUMENT ''Cannot read negative number of bytes'', result, st)
      else
        let (s, data) = rs_file st (rs_pos st) bytes_to_read in
        (s, data, if ok s \<or> IsOutOfRange s then st\<lparr>rs_pos := rs_pos st + int (length data)\<rparr> else st))"

text \<open>The overload for a cord appends to it.\<close>

definition RandomAccess_ReadNBytes_Cord :: "int \<Rightarrow> bytes \<Rightarrow> random_stream \<Rightarrow> status \<times> bytes \<times> random_stream" where
  "RandomAccess_ReadNBytes_Cord bytes_to_read result st =
     (if bytes_to_read < 0 then (Error INVALID_ARGUMENT ''Cannot read negative number of bytes'', result, st)
      else
        let current_size = length result;
            (s, data) = rs_file st (rs_pos st) bytes_to_read;
            result = result @ data
        in (s, result,
            if ok s \<or> IsOutOfRange s then st\<lparr>rs_pos := rs_pos st + (int (length result) - int current_size)\<rparr> else st))"

function RandomAccess_skip_loop :: "int \<Rightarrow> random_stream \<Rightarrow> status \<times> random_stream" where
  "RandomAccess_skip_loop bytes_to_skip st =
     (if bytes_to_skip > 0 then
        let bytes_to_read = min kMaxSkipSize bytes_to_skip;
            (s, data) = rs_file st (rs_pos st) bytes_to_read
        in if ok s \<or> IsOutOfRange s then
             let st = st\<lparr>rs_pos := rs_pos st + int (length data)\<rparr> in
             if int (length data) < bytes_to_read then (Error OUT_OF_RANGE ''reached end of file'', st)
             else RandomAccess_skip_loop (bytes_to_skip - bytes_to_read) st
           else (s, st)
      else (OkStatus, st))"
  by pat_completeness auto
termination
  by (relation "measure (\<lambda>(n, st). nat n)") auto

declare RandomAccess_skip_loop.simps [simp del]

definition RandomAccess_SkipNBytes :: "int \<Rightarrow> random_stream \<Rightarrow> status \<times> random_stream" where
  "RandomAccess_SkipNBytes bytes_to_skip st =
     (if bytes_to_skip < 0 then (Error INVALID_ARGUMENT ''Can't skip a negative number of bytes'', st)
      else if bytes_to_skip > 0 \<and>
        (let (s, data) = rs_file st (rs_pos st + bytes_to_skip - 1) 1
         in (ok s \<or> IsOutOfRange s) \<and> length data = 1)
      then (OkStatus, st\<lparr>rs_pos := rs_pos st + bytes_to_skip\<rparr>)
      else RandomAccess_skip_loop bytes_to_skip st)"

definition RandomAccess_Seek :: "int \<Rightarrow> random_stream \<Rightarrow> status \<times> random_stream" where
  "RandomAccess_Seek position st = (OkStatus, st\<lparr>rs_pos := position\<rparr>)"

definition random_ops :: "random_stream stream_ops" where
  "random_ops = \<lparr>op_ReadNBytes = \<lambda>n result st. Some (RandomAccess_ReadNBytes n result st),
     op_SkipNBytes = \<lambda>n st. Some (RandomAccess_SkipNBytes n st), op_Tell = rs_pos, op_Reset = RandomAccess_Seek 0\<rparr>"

text \<open>The documented behaviour of \<open>Read\<close> on a file that holds \<open>bs\<close>.\<close>

definition file_has :: "random_file \<Rightarrow> bytes \<Rightarrow> bool" where
  "file_has file bs \<longleftrightarrow> (\<forall>off n. 0 \<le> off \<longrightarrow> 0 \<le> n \<longrightarrow>
     snd (file off n) = take (nat n) (drop (nat off) bs) \<and>
     (if off + n \<le> int (length bs) then fst (file off n) = OkStatus else IsOutOfRange (fst (file off n))))"

definition random_over :: "bytes \<Rightarrow> random_stream \<Rightarrow> nat \<Rightarrow> bool" where
  "random_over bs st p \<longleftrightarrow> file_has (rs_file st) bs \<and> rs_pos st = int p \<and> p \<le> length bs"

lemma file_has_read:
  assumes "file_has file bs" "0 \<le> n"
  obtains s where "file (int p) n = (s, take (nat n) (drop p bs))" "move_status bs p (nat n) s" "ok s \<or> IsOutOfRange s"
proof -
  let ?r = "file (int p) n"
  have r: "snd ?r = take (nat n) (drop p bs)"
    "if int p + n \<le> int (length bs) then fst ?r = OkStatus else IsOutOfRange (fst ?r)"
    using assms(1) [unfolded file_has_def, rule_format, of "int p" n] assms(2) by simp_all
  have iff: "int p + n \<le> int (length bs) \<longleftrightarrow> p + nat n \<le> length bs" using assms(2) by linarith
  show ?thesis
    by (rule that [of "fst ?r"]) (use r iff in \<open>auto simp: move_status_def prod_eq_iff split: if_splits\<close>)
qed

lemma random_skip_loop_law:
  assumes "random_over bs st p" "0 \<le> n"
  shows "\<exists>s st'. RandomAccess_skip_loop n st = (s, st') \<and> random_over bs st' (moved bs p (nat n)) \<and> move_status bs p (nat n) s"
  using assms
proof (induction "nat n" arbitrary: n st p rule: less_induct)
  case less
  show ?case
  proof (cases "n > 0")
    case False
    then show ?thesis
      using less.prems by (subst RandomAccess_skip_loop.simps) (auto simp: random_over_def moved_def move_status_def)
  next
    case True
    define k where "k = min kMaxSkipSize n"
    have k: "0 < k" "k \<le> n" using True by (simp_all add: k_def)
    have o: "file_has (rs_file st) bs" "rs_pos st = int p" "p \<le> length bs" using less.prems(1) by (simp_all add: random_over_def)
    obtain s where r: "rs_file st (int p) k = (s, take (nat k) (drop p bs))" "move_status bs p (nat k) s" "ok s \<or> IsOutOfRange s"
      using file_has_read [OF o(1), of k p] k(1) by auto
    let ?st = "st\<lparr>rs_pos := int p + int (length (take (nat k) (drop p bs)))\<rparr>"
    have step: "RandomAccess_skip_loop n st =
        (if int (length (take (nat k) (drop p bs))) < k then (Error OUT_OF_RANGE ''reached end of file'', ?st)
         else RandomAccess_skip_loop (n - k) ?st)"
      using True r(1,3) o(2) by (subst RandomAccess_skip_loop.simps) (simp add: k_def [symmetric] Let_def)
    show ?thesis
    proof (cases "p + nat k \<le> length bs")
      case False
      then have "length (take (nat k) (drop p bs)) = length bs - p" using k(1) by auto
      moreover from False have "int (length bs - p) < k" "\<not> p + nat n \<le> length bs" using k o(3) by auto
      ultimately show ?thesis
        using step o by (auto simp: random_over_def moved_def move_status_def)
    next
      case le: True
      then have "length (take (nat k) (drop p bs)) = nat k" by auto
      moreover from this have "random_over bs ?st (p + nat k)" using o le by (auto simp: random_over_def)
      ultimately obtain s' st' where "RandomAccess_skip_loop n st = (s', st')"
        "random_over bs st' (moved bs (p + nat k) (nat (n - k)))" "move_status bs (p + nat k) (nat (n - k)) s'"
        using step less.hyps [of "n - k" ?st "p + nat k"] k by auto
      moreover have "p + nat k + nat (n - k) = p + nat n" using k by simp
      ultimately show ?thesis by (simp add: moved_def move_status_def)
    qed
  qed
qed

interpretation random: input_stream random_ops random_over
proof (unfold_locales, goal_cases)
  case (1 bs st p)
  then show ?case by (simp add: random_over_def)
next
  case (2 bs st p n result)
  then obtain s where "rs_file st (int p) n = (s, take (nat n) (drop p bs))" "move_status bs p (nat n) s" "ok s \<or> IsOutOfRange s"
    using file_has_read [of "rs_file st" bs n p] by (auto simp: random_over_def)
  with 2 show ?case
    by (auto simp: random_ops_def RandomAccess_ReadNBytes_def random_over_def moved_def)
next
  case (3 bs st p n)
  have f: "file_has (rs_file st) bs" "rs_pos st = int p" "p \<le> length bs" using 3 by (simp_all add: random_over_def)
  show ?case
  proof (cases "n > 0 \<and> p + nat n \<le> length bs")
    case True
    have "rs_pos st + n - 1 = int (p + nat n - 1)" using True f(2) by auto
    moreover obtain s where "rs_file st (int (p + nat n - 1)) 1 = (s, take (nat 1) (drop (p + nat n - 1) bs))" "ok s \<or> IsOutOfRange s"
      using file_has_read [OF f(1), of 1 "p + nat n - 1"] by auto
    moreover have "length (take (nat 1) (drop (p + nat n - 1) bs)) = 1" using True by auto
    ultimately have "RandomAccess_SkipNBytes n st = (OkStatus, st\<lparr>rs_pos := rs_pos st + n\<rparr>)"
      using True by (simp add: RandomAccess_SkipNBytes_def)
    then show ?thesis
      using True f by (auto simp: random_ops_def random_over_def moved_def move_status_def)
  next
    case False
    have "\<not> (n > 0 \<and> (let (s, data) = rs_file st (rs_pos st + n - 1) 1 in (ok s \<or> IsOutOfRange s) \<and> length data = 1))"
    proof (cases "n > 0")
      case pos: True
      have e: "rs_pos st + n - 1 = int (p + nat n - 1)" using pos f(2) by auto
      obtain s where "rs_file st (int (p + nat n - 1)) 1 = (s, take (nat 1) (drop (p + nat n - 1) bs))"
        using file_has_read [OF f(1), of 1 "p + nat n - 1"] by auto
      moreover have "drop (p + nat n - 1) bs = []" using False pos by simp
      ultimately show ?thesis unfolding e by simp
    qed simp
    then have "RandomAccess_SkipNBytes n st = RandomAccess_skip_loop n st"
      using 3(2) by (simp only: RandomAccess_SkipNBytes_def if_False) simp
    then show ?thesis using random_skip_loop_law [OF 3(1,2)] by (auto simp: random_ops_def)
  qed
next
  case (4 bs st p n result)
  then show ?case by (simp add: random_ops_def RandomAccess_ReadNBytes_def)
next
  case (5 bs st p n)
  then show ?case by (simp add: random_ops_def RandomAccess_SkipNBytes_def)
next
  case (6 bs st p)
  then show ?case by (simp add: random_ops_def random_over_def)
next
  case (7 bs st p)
  then show ?case by (simp add: random_ops_def RandomAccess_Seek_def random_over_def)
qed

end
