(* ===== verification/Buffered_Stream.thy ===== *)
theory Buffered_Stream
  imports Streams
begin

text \<open>
  \<open>tsl/lib/io/buffered_inputstream.cc\<close>: a read-ahead buffer on top of any input stream.

  \<open>buf_[pos_, limit_)\<close> holds the bytes of the underlying stream just before its position.  The
  methods take the operations of the underlying stream as an argument; under the contract of
  \<open>input_stream\<close> the buffered stream meets the same contract at the position of its reader, so
  the buffer cannot be observed, except by \<open>ReadAll\<close>, which starts after the buffered bytes.
  Error messages leave out the number that the code appends.
\<close>

section \<open>The code\<close>

record 's buffered_stream =
  bi_input_stream :: 's
  bi_size :: nat
  bi_buf :: bytes
  bi_pos :: nat
  bi_limit :: nat
  bi_file_status :: status

definition BufferedInputStream :: "'s \<Rightarrow> nat \<Rightarrow> 's buffered_stream" where
  "BufferedInputStream stream buffer_bytes =
     \<lparr>bi_input_stream = stream, bi_size = buffer_bytes, bi_buf = [], bi_pos = 0, bi_limit = 0,
      bi_file_status = OkStatus\<rparr>"

definition FillBuffer :: "'s stream_ops \<Rightarrow> 's buffered_stream \<Rightarrow> (status \<times> 's buffered_stream) option" where
  "FillBuffer ops b =
     (if \<not> ok (bi_file_status b) then Some (bi_file_status b, b\<lparr>bi_pos := 0, bi_limit := 0\<rparr>)
      else
        (case op_ReadNBytes ops (int (bi_size b)) (bi_buf b) (bi_input_stream b) of
           None \<Rightarrow> None
         | Some (s, buf, st) \<Rightarrow>
             let b = b\<lparr>bi_input_stream := st, bi_buf := buf, bi_pos := 0, bi_limit := length buf\<rparr>
             in Some (s, if \<not> ok s then b\<lparr>bi_file_status := s\<rparr> else b)))"

text \<open>The bytes \<open>[start_pos, pos_)\<close> of the buffer.\<close>

definition slice_from :: "'s buffered_stream \<Rightarrow> nat \<Rightarrow> bytes" where
  "slice_from b start_pos = take (bi_pos b - start_pos) (drop start_pos (bi_buf b))"

text \<open>The first half of an iteration of \<open>ReadLineHelper\<close>: the status, whether the end was reached, and the
  start of the current piece, the result and the stream.\<close>

definition line_refill ::
  "'s stream_ops \<Rightarrow> nat \<Rightarrow> bytes \<Rightarrow> 's buffered_stream \<Rightarrow> (status \<times> bool \<times> nat \<times> bytes \<times> 's buffered_stream) option" where
  "line_refill ops start_pos result b =
     (if bi_pos b = bi_limit b then
        let result = result @ slice_from b start_pos in
        (case FillBuffer ops b of
           None \<Rightarrow> None
         | Some (s, b) \<Rightarrow> Some (s, bi_limit b = 0, bi_pos b, result, b))
      else Some (OkStatus, False, start_pos, result, b))"

partial_function (option) ReadLine_loop ::
  "'s stream_ops \<Rightarrow> bool \<Rightarrow> nat \<Rightarrow> bytes \<Rightarrow> 's buffered_stream \<Rightarrow> (status \<times> bytes \<times> 's buffered_stream) option" where
  "ReadLine_loop ops include_eol start_pos result b =
     (case line_refill ops start_pos result b of
        None \<Rightarrow> None
      | Some (s, eof, start_pos, result, b) \<Rightarrow>
          if eof then Some (if IsOutOfRange s \<and> result \<noteq> [] then OkStatus else s, result, b)
          else
            let c = bi_buf b ! bi_pos b; b' = b\<lparr>bi_pos := bi_pos b + 1\<rparr> in
            if c = 10 then
              Some (OkStatus, result @ slice_from b start_pos @ (if include_eol then [c] else []), b')
            else if c = 13 then ReadLine_loop ops include_eol (bi_pos b + 1) (result @ slice_from b start_pos) b'
            else ReadLine_loop ops include_eol start_pos result b')"

definition ReadLineHelper ::
  "'s stream_ops \<Rightarrow> bool \<Rightarrow> 's buffered_stream \<Rightarrow> (status \<times> bytes \<times> 's buffered_stream) option" where
  "ReadLineHelper ops include_eol b = ReadLine_loop ops include_eol (bi_pos b) [] b"

definition Buffered_ReadLine :: "'s stream_ops \<Rightarrow> 's buffered_stream \<Rightarrow> (status \<times> bytes \<times> 's buffered_stream) option" where
  "Buffered_ReadLine ops b = ReadLineHelper ops False b"

definition ReadLineAsString :: "'s stream_ops \<Rightarrow> 's buffered_stream \<Rightarrow> (bytes \<times> 's buffered_stream) option" where
  "ReadLineAsString ops b = map_option snd (ReadLineHelper ops True b)"

text \<open>The loop of \<open>ReadNBytes\<close>; copying from the buffer is its second half.\<close>

definition copy_out :: "nat \<Rightarrow> bytes \<Rightarrow> 's buffered_stream \<Rightarrow> bytes \<times> 's buffered_stream" where
  "copy_out bytes_to_read result b =
     (let bytes_to_copy = min (bi_limit b - bi_pos b) (bytes_to_read - length result)
      in (result @ take bytes_to_copy (drop (bi_pos b) (bi_buf b)), b\<lparr>bi_pos := bi_pos b + bytes_to_copy\<rparr>))"

partial_function (option) ReadNBytes_loop ::
  "'s stream_ops \<Rightarrow> nat \<Rightarrow> status \<Rightarrow> bytes \<Rightarrow> 's buffered_stream \<Rightarrow> (status \<times> bytes \<times> 's buffered_stream) option" where
  "ReadNBytes_loop ops bytes_to_read s result b =
     (if length result < bytes_to_read then
        if bi_pos b = bi_limit b then
          (case FillBuffer ops b of
             None \<Rightarrow> None
           | Some (s, b) \<Rightarrow>
               if bi_limit b = 0 then Some (s, result, b\<lparr>bi_file_status := s\<rparr>)
               else let (result, b) = copy_out bytes_to_read result b
                    in ReadNBytes_loop ops bytes_to_read s result b)
        else let (result, b) = copy_out bytes_to_read result b
             in ReadNBytes_loop ops bytes_to_read s result b
      else Some (s, result, b))"

definition Buffered_ReadNBytes ::
  "'s stream_ops \<Rightarrow> int \<Rightarrow> bytes \<Rightarrow> 's buffered_stream \<Rightarrow> (status \<times> bytes \<times> 's buffered_stream) option" where
  "Buffered_ReadNBytes ops bytes_to_read result b =
     (if bytes_to_read < 0 then Some (Error INVALID_ARGUMENT ''Can't read a negative number of bytes: '', result, b)
      else if bi_pos b = bi_limit b \<and> \<not> ok (bi_file_status b) \<and> bytes_to_read > 0
      then Some (bi_file_status b, [], b)
      else
        map_option (\<lambda>(s, result, b).
            (if IsOutOfRange s \<and> length result = nat bytes_to_read then OkStatus else s, result, b))
          (ReadNBytes_loop ops (nat bytes_to_read) OkStatus [] b))"

definition Buffered_SkipNBytes ::
  "'s stream_ops \<Rightarrow> int \<Rightarrow> 's buffered_stream \<Rightarrow> (status \<times> 's buffered_stream) option" where
  "Buffered_SkipNBytes ops bytes_to_skip b =
     (if bytes_to_skip < 0 then Some (Error INVALID_ARGUMENT ''Can only skip forward, not '', b)
      else if bi_pos b + nat bytes_to_skip < bi_limit b
      then Some (OkStatus, b\<lparr>bi_pos := bi_pos b + nat bytes_to_skip\<rparr>)
      else
        map_option (\<lambda>(s, st).
            let b = b\<lparr>bi_input_stream := st, bi_pos := 0, bi_limit := 0\<rparr>
            in (s, if IsOutOfRange s then b\<lparr>bi_file_status := s\<rparr> else b))
          (op_SkipNBytes ops (bytes_to_skip - int (bi_limit b - bi_pos b)) (bi_input_stream b)))"

definition Buffered_Tell :: "'s stream_ops \<Rightarrow> 's buffered_stream \<Rightarrow> int" where
  "Buffered_Tell ops b = op_Tell ops (bi_input_stream b) - int (bi_limit b - bi_pos b)"

definition Buffered_Reset :: "'s stream_ops \<Rightarrow> 's buffered_stream \<Rightarrow> status \<times> 's buffered_stream" where
  "Buffered_Reset ops b =
     (let (s, st) = op_Reset ops (bi_input_stream b); b = b\<lparr>bi_input_stream := st\<rparr> in
      if \<not> ok s then (s, b)
      else (OkStatus, b\<lparr>bi_pos := 0, bi_limit := 0, bi_file_status := OkStatus\<rparr>))"

definition Buffered_Seek :: "'s stream_ops \<Rightarrow> int \<Rightarrow> 's buffered_stream \<Rightarrow> (status \<times> 's buffered_stream) option" where
  "Buffered_Seek ops position b =
     (if position < 0 then Some (Error INVALID_ARGUMENT ''Seeking to a negative position: '', b)
      else
        let buf_lower_limit = op_Tell ops (bi_input_stream b) - int (bi_limit b) in
        if position < buf_lower_limit then
          let (s, b) = Buffered_Reset ops b in
          if \<not> ok s then Some (s, b) else Buffered_SkipNBytes ops position b
        else if position < Buffered_Tell ops b then
          Some (OkStatus, b\<lparr>bi_pos := bi_pos b - nat (Buffered_Tell ops b - position)\<rparr>)
        else Buffered_SkipNBytes ops (position - Buffered_Tell ops b) b)"

partial_function (option) ReadAll_loop ::
  "'s stream_ops \<Rightarrow> status \<Rightarrow> bytes \<Rightarrow> 's buffered_stream \<Rightarrow> (status \<times> bytes \<times> 's buffered_stream) option" where
  "ReadAll_loop ops s result b =
     (if ok s then
        (case FillBuffer ops b of
           None \<Rightarrow> None
         | Some (s, b) \<Rightarrow>
             if bi_limit b = 0 then Some (s, result, b)
             else ReadAll_loop ops s (result @ bi_buf b) (b\<lparr>bi_pos := bi_limit b\<rparr>))
      else Some (s, result, b))"

definition ReadAll :: "'s stream_ops \<Rightarrow> 's buffered_stream \<Rightarrow> (status \<times> bytes \<times> 's buffered_stream) option" where
  "ReadAll ops b =
     map_option (\<lambda>(s, result, b).
         if IsOutOfRange s then (OkStatus, result, b\<lparr>bi_file_status := s\<rparr>) else (s, result, b))
       (ReadAll_loop ops OkStatus [] b)"

partial_function (option) SkipLine_loop ::
  "'s stream_ops \<Rightarrow> bool \<Rightarrow> 's buffered_stream \<Rightarrow> (status \<times> 's buffered_stream) option" where
  "SkipLine_loop ops skipped b =
     (case line_refill ops (bi_pos b) [] b of
        None \<Rightarrow> None
      | Some (s, eof, start_pos, result, b) \<Rightarrow>
          if eof then Some (if IsOutOfRange s \<and> skipped then OkStatus else s, b)
          else
            let c = bi_buf b ! bi_pos b; b = b\<lparr>bi_pos := bi_pos b + 1\<rparr> in
            if c = 10 then Some (OkStatus, b) else SkipLine_loop ops True b)"

definition SkipLine :: "'s stream_ops \<Rightarrow> 's buffered_stream \<Rightarrow> (status \<times> 's buffered_stream) option" where
  "SkipLine ops b = SkipLine_loop ops False b"

definition buffered_ops :: "'s stream_ops \<Rightarrow> 's buffered_stream stream_ops" where
  "buffered_ops ops = \<lparr>op_ReadNBytes = Buffered_ReadNBytes ops, op_SkipNBytes = Buffered_SkipNBytes ops,
     op_Tell = Buffered_Tell ops, op_Reset = Buffered_Reset ops\<rparr>"

section \<open>The buffer\<close>

definition buffered_at :: "(bytes \<Rightarrow> 's \<Rightarrow> nat \<Rightarrow> bool) \<Rightarrow> bytes \<Rightarrow> 's buffered_stream \<Rightarrow> nat \<Rightarrow> nat \<Rightarrow> bool" where
  "buffered_at over bs b p q \<longleftrightarrow> over bs (bi_input_stream b) q \<and> q \<le> length bs \<and> 0 < bi_size b \<and>
     bi_pos b \<le> bi_limit b \<and> bi_limit b \<le> length (bi_buf b) \<and> bi_limit b \<le> q \<and> p + (bi_limit b - bi_pos b) = q \<and>
     take (bi_limit b) (bi_buf b) = take (bi_limit b) (drop (q - bi_limit b) bs) \<and>
     (bi_file_status b = OkStatus \<or> IsOutOfRange (bi_file_status b) \<and> q = length bs)"

definition buffered_over :: "(bytes \<Rightarrow> 's \<Rightarrow> nat \<Rightarrow> bool) \<Rightarrow> bytes \<Rightarrow> 's buffered_stream \<Rightarrow> nat \<Rightarrow> bool" where
  "buffered_over over bs b p \<longleftrightarrow> (\<exists>q. buffered_at over bs b p q)"

text \<open>What is between \<open>pos_\<close> and \<open>limit_\<close> are the next bytes, and moving \<open>pos_\<close> is moving in the stream.\<close>

lemma buffered_at_bytes:
  assumes "buffered_at over bs b p q" "k \<le> bi_limit b - bi_pos b"
  shows "take k (drop (bi_pos b) (bi_buf b)) = take k (drop p bs)"
    and "buffered_at over bs (b\<lparr>bi_pos := bi_pos b + k\<rparr>) (p + k) q"
proof -
  let ?l = "bi_limit b" and ?i = "bi_pos b"
  have a: "?i \<le> ?l" "?l \<le> q" "p + (?l - ?i) = q" "take ?l (bi_buf b) = take ?l (drop (q - ?l) bs)"
    using assms(1) by (simp_all add: buffered_at_def)
  have "take k (drop ?i (bi_buf b)) = take k (drop ?i (take ?l (bi_buf b)))"
    using assms(2) a(1) by (simp add: drop_take min_def)
  also have "\<dots> = take k (drop (?i + (q - ?l)) bs)" unfolding a(4) using assms(2) by (simp add: drop_take min_def)
  also have "?i + (q - ?l) = p" using a(1-3) by simp
  finally show "take k (drop (bi_pos b) (bi_buf b)) = take k (drop p bs)" .
  show "buffered_at over bs (b\<lparr>bi_pos := bi_pos b + k\<rparr>) (p + k) q"
    using assms by (auto simp: buffered_at_def)
qed

lemma buffered_at_byte:
  assumes "buffered_at over bs b p q" "bi_pos b < bi_limit b"
  shows "p < length bs" "bi_buf b ! bi_pos b = bs ! p" "buffered_at over bs (b\<lparr>bi_pos := bi_pos b + 1\<rparr>) (p + 1) q"
proof -
  have len: "bi_pos b < length (bi_buf b)" and p: "p < length bs" using assms by (auto simp: buffered_at_def)
  show "p < length bs" by (rule p)
  have "take 1 (drop (bi_pos b) (bi_buf b)) = take 1 (drop p bs)"
    using buffered_at_bytes(1) [OF assms(1), of 1] assms(2) by simp
  then show "bi_buf b ! bi_pos b = bs ! p" using len p by (metis hd_drop_conv_nth hd_take zero_less_one)
  show "buffered_at over bs (b\<lparr>bi_pos := bi_pos b + 1\<rparr>) (p + 1) q"
    using buffered_at_bytes(2) [OF assms(1), of 1] assms(2) by simp
qed

lemma slice_from_take:
  assumes "buffered_at over bs b p q" "start_pos \<le> bi_pos b"
  shows "slice_from (b\<lparr>bi_pos := bi_pos b + k\<rparr>) start_pos = slice_from b start_pos @ take k (drop (bi_pos b) (bi_buf b))"
proof -
  obtain d where d: "bi_pos b = start_pos + d" using assms(2) le_Suc_ex by blast
  have "take (d + k) (drop start_pos (bi_buf b)) = take d (drop start_pos (bi_buf b)) @ take k (drop (start_pos + d) (bi_buf b))"
    by (simp add: take_add add.commute)
  then show ?thesis by (simp add: slice_from_def d)
qed

text \<open>The text of a line: up to the newline, without carriage returns.\<close>

definition line_of :: "bytes \<Rightarrow> bytes" where
  "line_of bs = filter (\<lambda>c. c \<noteq> 13) (takeWhile (\<lambda>c. c \<noteq> 10) bs)"

definition line_end :: "bytes \<Rightarrow> nat" where
  "line_end bs = min (Suc (length (takeWhile (\<lambda>c. c \<noteq> 10) bs))) (length bs)"

definition line_text :: "bool \<Rightarrow> bytes \<Rightarrow> bytes" where
  "line_text include_eol bs = line_of bs @ (if include_eol \<and> 10 \<in> set bs then [10] else [])"

text \<open>The status after reading the line \<open>line\<close> of \<open>bs\<close>: only an empty last line is past the end.\<close>

definition line_status :: "bytes \<Rightarrow> bytes \<Rightarrow> status \<Rightarrow> bool" where
  "line_status line bs s \<longleftrightarrow> (if 10 \<in> set bs \<or> line \<noteq> [] then s = OkStatus else IsOutOfRange s)"

lemma line_simps:
  "line_of [] = []"
  "line_of (c # cs) = (if c = 10 then [] else if c = 13 then line_of cs else c # line_of cs)"
  "line_end [] = 0"
  "line_end (c # cs) = (if c = 10 then 1 else Suc (line_end cs))"
  "line_text eol [] = []"
  "line_text eol (c # cs) =
     (if c = 10 then (if eol then [10] else []) else if c = 13 then line_text eol cs else c # line_text eol cs)"
  by (auto simp: line_of_def line_end_def line_text_def)

context input_stream
begin

lemma FillBuffer_law:
  assumes "buffered_at over bs b p q" "bi_pos b = bi_limit b"
  shows "\<exists>s b' q'. FillBuffer ops b = Some (s, b') \<and> buffered_at over bs b' p q' \<and> bi_pos b' = 0 \<and>
    bi_size b' = bi_size b \<and> (if p < length bs then 0 < bi_limit b' else bi_limit b' = 0 \<and> IsOutOfRange s) \<and>
    (ok s \<or> IsOutOfRange s \<and> q' = length bs) \<and> length (bi_buf b') \<ge> bi_limit b' \<and>
    (p < length bs \<longrightarrow> bi_limit b' = length (bi_buf b'))"
proof (cases "ok (bi_file_status b)")
  case False
  then have "q = length bs" "p = q" "IsOutOfRange (bi_file_status b)"
    using assms by (auto simp: buffered_at_def)
  with False assms show ?thesis
    by (intro exI [of _ "bi_file_status b"] exI [of _ "b\<lparr>bi_pos := 0, bi_limit := 0\<rparr>"] exI [of _ q])
       (auto simp: FillBuffer_def buffered_at_def)
next
  case True
  have a: "over bs (bi_input_stream b) p" "0 < bi_size b" "p \<le> length bs"
    using assms by (auto simp: buffered_at_def)
  let ?n = "bi_size b"
  obtain s st where r: "op_ReadNBytes ops (int ?n) (bi_buf b) (bi_input_stream b) = Some (s, take ?n (drop p bs), st)"
    "over bs st (moved bs p ?n)" "move_status bs p ?n s"
    using read_law [OF a(1), of "int ?n" "bi_buf b"] by auto
  let ?buf = "take ?n (drop p bs)"
  let ?b = "b\<lparr>bi_input_stream := st, bi_buf := ?buf, bi_pos := 0, bi_limit := length ?buf\<rparr>"
  let ?b' = "if \<not> ok s then ?b\<lparr>bi_file_status := s\<rparr> else ?b"
  have f: "FillBuffer ops b = Some (s, ?b')" using True by (simp add: FillBuffer_def r(1) Let_def)
  have q: "moved bs p ?n = p + length ?buf" using a(3) by (auto simp: moved_def)
  have s: "ok s \<or> IsOutOfRange s \<and> moved bs p ?n = length bs"
    using r(3) by (auto simp: move_status_def moved_def split: if_splits)
  have st: "bi_file_status b = OkStatus" using True by (simp add: ok_iff)
  have tk: "take (length ?buf) ?buf = take (length ?buf) (drop (p + length ?buf - length ?buf) bs)"
    by (simp add: min.commute)
  have "over bs st (p + length ?buf)" "p + length ?buf \<le> length bs" "ok s \<or> IsOutOfRange s \<and> p + length ?buf = length bs"
    using r(2) s a(3) unfolding q by auto
  then have "buffered_at over bs ?b' p (moved bs p ?n)"
    unfolding q buffered_at_def using a(2) st tk by (cases "ok s") simp_all
  moreover have "if p < length bs then 0 < length ?buf else length ?buf = 0 \<and> IsOutOfRange s"
    using a(2,3) r(3) by (auto simp: move_status_def)
  ultimately show ?thesis
    using f s by (intro exI [of _ s] exI [of _ ?b'] exI [of _ "moved bs p ?n"]) (auto split: if_splits)
qed

lemma copy_out_law:
  assumes "buffered_at over bs b p q" "bi_pos b < bi_limit b" "length result < n"
  shows "\<exists>k b'. copy_out n result b = (result @ take k (drop p bs), b') \<and> buffered_at over bs b' (p + k) q \<and>
    0 < k \<and> k \<le> n - length result \<and> p + k \<le> length bs \<and> bi_file_status b' = bi_file_status b"
proof -
  let ?k = "min (bi_limit b - bi_pos b) (n - length result)"
  have "p + ?k \<le> length bs" using assms(1) by (auto simp: buffered_at_def)
  then show ?thesis
    using buffered_at_bytes [OF assms(1), of ?k] assms(2,3)
    by (intro exI [of _ ?k] exI [of _ "b\<lparr>bi_pos := bi_pos b + ?k\<rparr>"]) (simp add: copy_out_def Let_def)
qed

text \<open>The reading loop returns the bytes up to the requested number or the end.\<close>

lemma ReadNBytes_loop_law:
  assumes "buffered_at over bs b p q" "ok s \<or> IsOutOfRange s \<and> q = length bs" "length result \<le> n"
  shows "\<exists>s' b' q'. ReadNBytes_loop ops n s result b = Some (s', result @ take (n - length result) (drop p bs), b') \<and>
    buffered_at over bs b' (moved bs p (n - length result)) q' \<and>
    (if p + (n - length result) \<le> length bs then ok s' \<or> IsOutOfRange s' else IsOutOfRange s')"
  using assms
proof (induction "n - length result" arbitrary: s result b p q rule: less_induct)
  case less
  have p: "p \<le> length bs" using less.prems(1) by (auto simp: buffered_at_def)
  show ?case
  proof (cases "length result < n")
    case False
    then show ?thesis
      using less.prems p by (subst ReadNBytes_loop.simps) (auto simp: moved_def)
  next
    case True
    have go: "\<exists>s' b' q'. (let (result, b) = copy_out n result b1 in ReadNBytes_loop ops n s1 result b) =
          Some (s', result @ take (n - length result) (drop p bs), b') \<and>
        buffered_at over bs b' (moved bs p (n - length result)) q' \<and>
        (if p + (n - length result) \<le> length bs then ok s' \<or> IsOutOfRange s' else IsOutOfRange s')"
      if b1: "buffered_at over bs b1 p q1" "bi_pos b1 < bi_limit b1" "ok s1 \<or> IsOutOfRange s1 \<and> q1 = length bs" for b1 q1 s1
    proof -
      obtain k b2 where k: "copy_out n result b1 = (result @ take k (drop p bs), b2)" "buffered_at over bs b2 (p + k) q1"
        "0 < k" "k \<le> n - length result" "p + k \<le> length bs"
        using copy_out_law [OF b1(1,2) True] by blast
      let ?r = "result @ take k (drop p bs)"
      have len: "length ?r = length result + k" using k(5) by simp
      have c: "n - length ?r < n - length result" "length ?r \<le> n" unfolding len using k(3,4) True by simp_all
      obtain s' b' q' where ih: "ReadNBytes_loop ops n s1 ?r b2 = Some (s', ?r @ take (n - length ?r) (drop (p + k) bs), b')"
        "buffered_at over bs b' (moved bs (p + k) (n - length ?r)) q'"
        "if p + k + (n - length ?r) \<le> length bs then ok s' \<or> IsOutOfRange s' else IsOutOfRange s'"
        using less.hyps [OF c(1) k(2) b1(3) c(2)] by blast
      have m: "n - length result = k + (n - length ?r)" using len k(4) by simp
      have e: "?r @ take (n - length ?r) (drop (p + k) bs) = result @ take (n - length result) (drop p bs)"
        unfolding m take_add by (simp add: add.commute)
      have p: "p + k + (n - length ?r) = p + (n - length result)" using m by simp
      have mv: "moved bs (p + k) (n - length ?r) = moved bs p (n - length result)" unfolding moved_def p by (rule refl)
      show ?thesis using ih [unfolded e p mv] unfolding k(1) Let_def prod.case by blast
    qed
    show ?thesis
    proof (cases "bi_pos b = bi_limit b")
      case False
      then have "bi_pos b < bi_limit b" using less.prems(1) by (simp add: buffered_at_def)
      from go [OF less.prems(1) this less.prems(2)] show ?thesis
        using True False by (subst ReadNBytes_loop.simps) simp
    next
      case empty: True
      obtain s1 b1 q1 where f: "FillBuffer ops b = Some (s1, b1)" "buffered_at over bs b1 p q1" "bi_pos b1 = 0"
        "if p < length bs then 0 < bi_limit b1 else bi_limit b1 = 0 \<and> IsOutOfRange s1" "ok s1 \<or> IsOutOfRange s1 \<and> q1 = length bs"
        using FillBuffer_law [OF less.prems(1) empty] by blast
      show ?thesis
      proof (cases "p < length bs")
        case lt: True
        from go [OF f(2) _ f(5)] show ?thesis
          using True empty f lt by (subst ReadNBytes_loop.simps) simp
      next
        case False
        then have e: "p = length bs" "bi_limit b1 = 0" "IsOutOfRange s1" "\<not> ok s1" "q1 = length bs"
          using p f(4,5) by (auto simp: IsOutOfRange_def)
        have "buffered_at over bs (b1\<lparr>bi_file_status := s1\<rparr>) (length bs) q1"
          using f(2) e by (auto simp: buffered_at_def)
        then show ?thesis
          using True empty f(1) e by (subst ReadNBytes_loop.simps) (auto simp: moved_def)
      qed
    qed
  qed
qed

lemma buffered_read_law:
  assumes "buffered_over over bs b p" "0 \<le> n"
  shows "\<exists>s b'. Buffered_ReadNBytes ops n result b = Some (s, take (nat n) (drop p bs), b') \<and>
    buffered_over over bs b' (moved bs p (nat n)) \<and> move_status bs p (nat n) s"
proof -
  obtain q where b: "buffered_at over bs b p q" using assms(1) by (auto simp: buffered_over_def)
  show ?thesis
  proof (cases "bi_pos b = bi_limit b \<and> \<not> ok (bi_file_status b) \<and> n > 0")
    case True
    then have "p = length bs" "IsOutOfRange (bi_file_status b)" using b by (auto simp: buffered_at_def)
    with True b show ?thesis
      by (auto simp: Buffered_ReadNBytes_def buffered_over_def moved_def move_status_def)
  next
    case False
    obtain s b' q' where l: "ReadNBytes_loop ops (nat n) OkStatus [] b = Some (s, take (nat n) (drop p bs), b')"
      "buffered_at over bs b' (moved bs p (nat n)) q'" "if p + nat n \<le> length bs then ok s \<or> IsOutOfRange s else IsOutOfRange s"
      using ReadNBytes_loop_law [OF b, of OkStatus "[]" "nat n"] by auto
    have p: "p \<le> length bs" using b by (auto simp: buffered_at_def)
    have "length (take (nat n) (drop p bs)) = nat n \<longleftrightarrow> p + nat n \<le> length bs" using p by auto
    then have "move_status bs p (nat n)
        (if IsOutOfRange s \<and> length (take (nat n) (drop p bs)) = nat n then OkStatus else s)"
      using l(3) by (auto simp: move_status_def ok_iff)
    moreover have "Buffered_ReadNBytes ops n result b =
        Some (if IsOutOfRange s \<and> length (take (nat n) (drop p bs)) = nat n then OkStatus else s, take (nat n) (drop p bs), b')"
      using False assms(2) l(1) unfolding Buffered_ReadNBytes_def by auto
    ultimately show ?thesis using l(2) unfolding buffered_over_def by blast
  qed
qed

lemma buffered_skip_law:
  assumes "buffered_over over bs b p" "0 \<le> n" "int p + n \<le> INT64_MAX"
  shows "\<exists>s b'. Buffered_SkipNBytes ops n b = Some (s, b') \<and>
    buffered_over over bs b' (moved bs p (nat n)) \<and> move_status bs p (nat n) s"
proof -
  obtain q where b: "buffered_at over bs b p q" using assms(1) by (auto simp: buffered_over_def)
  have a: "over bs (bi_input_stream b) q" "q \<le> length bs" "p + (bi_limit b - bi_pos b) = q" "bi_pos b \<le> bi_limit b"
    "bi_file_status b = OkStatus \<or> IsOutOfRange (bi_file_status b) \<and> q = length bs" "0 < bi_size b"
    using b by (simp_all add: buffered_at_def)
  show ?thesis
  proof (cases "bi_pos b + nat n < bi_limit b")
    case True
    then have "p + nat n \<le> length bs" using a(2,3) by simp
    moreover have "buffered_at over bs (b\<lparr>bi_pos := bi_pos b + nat n\<rparr>) (p + nat n) q"
      using buffered_at_bytes(2) [OF b, of "nat n"] True by simp
    ultimately show ?thesis
      using True assms(2) by (auto simp: Buffered_SkipNBytes_def moved_def move_status_def buffered_over_def min_def)
  next
    case False
    define d where "d = n - int (bi_limit b - bi_pos b)"
    have d: "0 \<le> d" "q + nat d = p + nat n" "int q + d \<le> INT64_MAX"
      using False a(3,4) assms(2,3) by (auto simp: d_def)
    obtain s st where r: "op_SkipNBytes ops d (bi_input_stream b) = Some (s, st)" "over bs st (moved bs q (nat d))"
      "move_status bs q (nat d) s"
      using skip_law [OF a(1) d(1,3)] by blast
    have m: "moved bs q (nat d) = moved bs p (nat n)" "move_status bs q (nat d) s = move_status bs p (nat n) s"
      by (simp_all add: moved_def move_status_def d(2))
    let ?b = "b\<lparr>bi_input_stream := st, bi_pos := 0, bi_limit := 0\<rparr>"
    let ?b' = "if IsOutOfRange s then ?b\<lparr>bi_file_status := s\<rparr> else ?b"
    have "\<not> IsOutOfRange (bi_file_status b) \<or> moved bs p (nat n) = length bs"
      using a(5) d(2) by (cases "IsOutOfRange (bi_file_status b)") (auto simp: moved_def)
    moreover have "IsOutOfRange s \<Longrightarrow> moved bs p (nat n) = length bs"
      using r(3) m(2) by (auto simp: move_status_def moved_def split: if_splits)
    ultimately have "buffered_at over bs ?b' (moved bs p (nat n)) (moved bs p (nat n))"
      using a(5,6) r(2) m(1) by (auto simp: buffered_at_def moved_def)
    moreover have "Buffered_SkipNBytes ops n b = Some (s, ?b')"
      using False assms(2) r(1) by (simp add: Buffered_SkipNBytes_def d_def Let_def)
    ultimately show ?thesis using r(3) m(2) unfolding buffered_over_def by blast
  qed
qed

lemma buffered_tell_law: "buffered_over over bs b p \<Longrightarrow> Buffered_Tell ops b = int p"
  using tell_law by (auto simp: buffered_over_def buffered_at_def Buffered_Tell_def)

lemma buffered_reset_law:
  assumes "buffered_over over bs b p"
  shows "\<exists>b'. Buffered_Reset ops b = (OkStatus, b') \<and> buffered_over over bs b' 0"
proof -
  obtain q where b: "over bs (bi_input_stream b) q" "0 < bi_size b"
    using assms by (auto simp: buffered_over_def buffered_at_def)
  obtain st where "op_Reset ops (bi_input_stream b) = (OkStatus, st)" "over bs st 0" using reset_law [OF b(1)] by blast
  with b(2) show ?thesis
    by (simp add: Buffered_Reset_def Let_def buffered_over_def buffered_at_def)
qed

text \<open>A buffered stream is an input stream.\<close>

lemma buffered_input_stream: "input_stream (buffered_ops ops) (buffered_over over)"
proof (unfold_locales, goal_cases)
  case (1 bs st p)
  then show ?case by (auto simp: buffered_over_def buffered_at_def)
next
  case (2 bs st p n result)
  then show ?case using buffered_read_law by (simp add: buffered_ops_def)
next
  case (3 bs st p n)
  then show ?case using buffered_skip_law by (simp add: buffered_ops_def)
next
  case (4 bs st p n result)
  then show ?case by (simp add: buffered_ops_def Buffered_ReadNBytes_def)
next
  case (5 bs st p n)
  then show ?case by (simp add: buffered_ops_def Buffered_SkipNBytes_def)
next
  case (6 bs st p)
  then show ?case using buffered_tell_law by (simp add: buffered_ops_def)
next
  case (7 bs st p)
  then show ?case using buffered_reset_law by (simp add: buffered_ops_def)
qed

text \<open>\<open>Seek\<close> goes to its argument, from a position before, inside or after the buffer.\<close>

lemma buffered_seek_law:
  assumes "buffered_over over bs b p" "0 \<le> position" "position \<le> INT64_MAX"
  shows "\<exists>s b'. Buffered_Seek ops position b = Some (s, b') \<and>
    buffered_over over bs b' (moved bs 0 (nat position)) \<and> move_status bs 0 (nat position) s"
proof -
  obtain q where b: "buffered_at over bs b p q" using assms(1) by (auto simp: buffered_over_def)
  have a: "over bs (bi_input_stream b) q" "q \<le> length bs" "p + (bi_limit b - bi_pos b) = q" "bi_pos b \<le> bi_limit b"
    "bi_limit b \<le> q"
    using b by (simp_all add: buffered_at_def)
  have t: "op_Tell ops (bi_input_stream b) = int q" "Buffered_Tell ops b = int p"
    using tell_law [OF a(1)] buffered_tell_law [OF assms(1)] by simp_all
  consider (reset) "position < int q - int (bi_limit b)" | (inside) "\<not> position < int q - int (bi_limit b)" "position < int p"
    | (forward) "\<not> position < int q - int (bi_limit b)" "\<not> position < int p"
    by blast
  then show ?thesis
  proof cases
    case reset
    obtain b1 where r: "Buffered_Reset ops b = (OkStatus, b1)" "buffered_over over bs b1 0"
      using buffered_reset_law [OF assms(1)] by blast
    show ?thesis
      using buffered_skip_law [OF r(2) assms(2)] reset assms(2,3) r(1) t(1) by (simp add: Buffered_Seek_def)
  next
    case inside
    let ?k = "nat (int p - position)"
    have "bi_pos b - ?k \<le> bi_limit b" "nat position + (bi_limit b - (bi_pos b - ?k)) = q"
      using inside a(3-5) assms(2) by linarith+
    then have "buffered_at over bs (b\<lparr>bi_pos := bi_pos b - ?k\<rparr>) (nat position) q"
      using b by (simp add: buffered_at_def)
    moreover have "nat position \<le> length bs" using inside(2) a(2,3) by linarith
    moreover have "Buffered_Seek ops position b = Some (OkStatus, b\<lparr>bi_pos := bi_pos b - ?k\<rparr>)"
      using inside assms(2) t by (simp add: Buffered_Seek_def)
    ultimately show ?thesis by (auto simp: moved_def move_status_def buffered_over_def)
  next
    case forward
    define n where "n = position - int p"
    have n: "0 \<le> n" "int p + n \<le> INT64_MAX" "p + nat n = nat position" using forward assms by (auto simp: n_def)
    have "Buffered_Seek ops position b = Buffered_SkipNBytes ops n b"
      using forward assms(2) t by (simp add: Buffered_Seek_def n_def)
    then show ?thesis
      using buffered_skip_law [OF assms(1) n(1,2)] by (simp add: moved_def move_status_def n(3))
  qed
qed

text \<open>A line: the refill step brings the next byte into the buffer, unless the stream is at its end.\<close>

lemma line_refill_law:
  assumes "buffered_at over bs b p q" "start_pos \<le> bi_pos b"
  obtains s sp r b1 q1 where "line_refill ops start_pos result b = Some (s, p = length bs, sp, r, b1)"
    "buffered_at over bs b1 p q1" "sp \<le> bi_pos b1" "p < length bs \<longrightarrow> bi_pos b1 < bi_limit b1"
    "r @ slice_from b1 sp = result @ slice_from b start_pos"
    "p = length bs \<longrightarrow> r = result @ slice_from b start_pos \<and> IsOutOfRange s"
proof (cases "bi_pos b = bi_limit b")
  case True
  obtain s b1 q1 where f: "FillBuffer ops b = Some (s, b1)" "buffered_at over bs b1 p q1" "bi_pos b1 = 0"
    "if p < length bs then 0 < bi_limit b1 else bi_limit b1 = 0 \<and> IsOutOfRange s"
    using FillBuffer_law [OF assms(1) True] by blast
  have "p \<le> length bs" using f(2) by (auto simp: buffered_at_def)
  then have "bi_limit b1 = 0 \<longleftrightarrow> p = length bs" using f(4) by (auto split: if_splits)
  then show ?thesis
    using True f by (intro that [of s 0 "result @ slice_from b start_pos" b1 q1])
      (auto simp: line_refill_def slice_from_def Let_def split: if_splits)
next
  case False
  then have "bi_pos b < bi_limit b" "p < length bs" using assms(1) by (auto simp: buffered_at_def)
  with False assms show ?thesis
    by (intro that [of OkStatus start_pos result b q]) (auto simp: line_refill_def)
qed

lemma ReadLine_loop_law:
  assumes "buffered_at over bs b p q" "start_pos \<le> bi_pos b"
  shows "\<exists>s b' q'. ReadLine_loop ops include_eol start_pos result b =
      Some (s, result @ slice_from b start_pos @ line_text include_eol (drop p bs), b') \<and>
    buffered_at over bs b' (p + line_end (drop p bs)) q' \<and>
    line_status (result @ slice_from b start_pos @ line_of (drop p bs)) (drop p bs) s"
  using assms
proof (induction "length bs - p" arbitrary: b p q start_pos result rule: less_induct)
  case less
  obtain s sp r b1 q1 where l: "line_refill ops start_pos result b = Some (s, p = length bs, sp, r, b1)"
    "buffered_at over bs b1 p q1" "sp \<le> bi_pos b1" "p < length bs \<longrightarrow> bi_pos b1 < bi_limit b1"
    "r @ slice_from b1 sp = result @ slice_from b start_pos"
    "p = length bs \<longrightarrow> r = result @ slice_from b start_pos \<and> IsOutOfRange s"
    using line_refill_law [OF less.prems] by blast
  show ?case
  proof (cases "p = length bs")
    case True
    then show ?thesis using l(1,2,6) by (subst ReadLine_loop.simps) (auto simp: line_simps line_status_def)
  next
    case False
    then have p: "p < length bs" using l(2) by (auto simp: buffered_at_def)
    define b2 where "b2 = b1\<lparr>bi_pos := bi_pos b1 + 1\<rparr>"
    have b: "bi_buf b1 ! bi_pos b1 = bs ! p" "buffered_at over bs b2 (p + 1) q1" "bi_pos b1 < length (bi_buf b1)"
      using buffered_at_byte [OF l(2) l(4) [rule_format, OF p]] l(4) [rule_format, OF p] l(2) by (auto simp: b2_def buffered_at_def)
    have d: "drop p bs = bs ! p # drop (p + 1) bs" using p by (simp add: Cons_nth_drop_Suc)
    have step: "ReadLine_loop ops include_eol start_pos result b =
        (if bs ! p = 10 then Some (OkStatus, r @ slice_from b1 sp @ (if include_eol then [10] else []), b2)
         else if bs ! p = 13 then ReadLine_loop ops include_eol (bi_pos b1 + 1) (r @ slice_from b1 sp) b2
         else ReadLine_loop ops include_eol sp r b2)"
      using l(1) False by (subst ReadLine_loop.simps) (simp add: b(1) b2_def Let_def)
    have s0: "slice_from b2 (bi_pos b1 + 1) = []" by (simp add: slice_from_def b2_def)
    have s1: "slice_from b2 sp = slice_from b1 sp @ [bs ! p]"
      using slice_from_take [OF l(2,3), of 1] b(1,3) by (simp add: b2_def take_Suc_conv_app_nth hd_drop_conv_nth take_Suc)
    have dec: "length bs - (p + 1) < length bs - p" using p by simp
    consider "bs ! p = 10" | "bs ! p \<noteq> 10" "bs ! p = 13" | "bs ! p \<noteq> 10" "bs ! p \<noteq> 13" by blast
    then show ?thesis
    proof cases
      case 1
      then show ?thesis unfolding step d using b(2) l(5)
        by (intro exI [of _ OkStatus] exI [of _ b2] exI [of _ q1]) (simp add: line_simps line_status_def)
    next
      case 2
      from less.hyps [OF dec b(2), of "bi_pos b1 + 1" "r @ slice_from b1 sp"] 2 show ?thesis
        unfolding step d s0 l(5) by (simp add: line_simps line_status_def b2_def)
    next
      case 3
      have sp: "sp \<le> bi_pos b2" using l(3) by (simp add: b2_def)
      have e: "r @ slice_from b1 sp @ x = result @ slice_from b start_pos @ x" for x
        using l(5) by (metis append.assoc)
      from less.hyps [OF dec b(2) sp, of r] 3 show ?thesis
        unfolding step d s1 by (simp add: line_simps line_status_def e)
    qed
  qed
qed

lemma read_line_law:
  assumes "buffered_over over bs b p"
  shows "\<exists>s b'. ReadLineHelper ops include_eol b = Some (s, line_text include_eol (drop p bs), b') \<and>
    buffered_over over bs b' (p + line_end (drop p bs)) \<and> line_status (line_of (drop p bs)) (drop p bs) s"
proof -
  obtain q where b: "buffered_at over bs b p q" using assms by (auto simp: buffered_over_def)
  have "slice_from b (bi_pos b) = []" by (simp add: slice_from_def)
  then show ?thesis
    using ReadLine_loop_law [OF b order.refl, of include_eol "[]"]
    by (auto simp: ReadLineHelper_def buffered_over_def)
qed

lemma SkipLine_loop_law:
  assumes "buffered_at over bs b p q"
  shows "\<exists>s b'. SkipLine_loop ops skipped b = Some (s, b') \<and> buffered_over over bs b' (p + line_end (drop p bs)) \<and>
    (if skipped \<or> p < length bs then s = OkStatus else IsOutOfRange s)"
  using assms
proof (induction "length bs - p" arbitrary: b p q skipped rule: less_induct)
  case less
  obtain s sp r b1 q1 where l: "line_refill ops (bi_pos b) [] b = Some (s, p = length bs, sp, r, b1)"
    "buffered_at over bs b1 p q1" "p < length bs \<longrightarrow> bi_pos b1 < bi_limit b1"
    "p = length bs \<longrightarrow> r = [] @ slice_from b (bi_pos b) \<and> IsOutOfRange s"
    by (rule line_refill_law [OF less.prems order.refl, of "[]"]) (rule that)
  show ?case
  proof (cases "p = length bs")
    case True
    moreover from this have "buffered_over over bs b1 (length bs)" using l(2) unfolding buffered_over_def by blast
    moreover have "IsOutOfRange s" using True l(4) by simp
    ultimately show ?thesis using l(1) by (subst SkipLine_loop.simps) (simp add: line_simps)
  next
    case False
    then have p: "p < length bs" using l(2) by (auto simp: buffered_at_def)
    define b2 where "b2 = b1\<lparr>bi_pos := bi_pos b1 + 1\<rparr>"
    have b: "bi_buf b1 ! bi_pos b1 = bs ! p" "buffered_at over bs b2 (p + 1) q1"
      using buffered_at_byte [OF l(2) l(3) [rule_format, OF p]] by (simp_all add: b2_def)
    have d: "drop p bs = bs ! p # drop (p + 1) bs" using p by (simp add: Cons_nth_drop_Suc)
    have step: "SkipLine_loop ops skipped b = (if bs ! p = 10 then Some (OkStatus, b2) else SkipLine_loop ops True b2)"
      using l(1) False by (subst SkipLine_loop.simps) (simp add: b(1) b2_def Let_def)
    show ?thesis
    proof (cases "bs ! p = 10")
      case True
      moreover have "buffered_over over bs b2 (p + 1)" using b(2) unfolding buffered_over_def by (rule exI)
      ultimately show ?thesis using p unfolding step d by (simp add: line_simps)
    next
      case no: False
      have "length bs - (p + 1) < length bs - p" using p by simp
      from less.hyps [OF this b(2), of True] no p show ?thesis unfolding step d by (simp add: line_simps)
    qed
  qed
qed

text \<open>\<open>ReadAll\<close> returns what the underlying stream has left.\<close>

lemma ReadAll_loop_law:
  assumes "buffered_at over bs b p q"
  shows "\<exists>s b'. ReadAll_loop ops OkStatus result b = Some (s, result @ drop q bs, b') \<and>
    buffered_at over bs b' (length bs) (length bs) \<and> IsOutOfRange s"
  using assms
proof (induction "length bs - q" arbitrary: b p q result rule: less_induct)
  case less
  define b0 where "b0 = b\<lparr>bi_pos := bi_limit b\<rparr>"
  have b0: "buffered_at over bs b0 q q"
    using less.prems by (auto simp: buffered_at_def b0_def)
  have fb: "FillBuffer ops b = FillBuffer ops b0" by (simp add: FillBuffer_def b0_def Let_def split: option.split)
  obtain s b1 q1 where f: "FillBuffer ops b = Some (s, b1)" "buffered_at over bs b1 q q1" "bi_pos b1 = 0"
    "if q < length bs then 0 < bi_limit b1 else bi_limit b1 = 0 \<and> IsOutOfRange s" "ok s \<or> IsOutOfRange s \<and> q1 = length bs"
    "q < length bs \<longrightarrow> bi_limit b1 = length (bi_buf b1)"
    using FillBuffer_law [OF b0] unfolding fb by (auto simp: b0_def)
  have q: "q \<le> length bs" using b0 by (auto simp: buffered_at_def)
  show ?case
  proof (cases "q < length bs")
    case False
    moreover from this have "q1 = length bs" using q f(2) by (auto simp: buffered_at_def)
    ultimately show ?thesis using f q by (subst ReadAll_loop.simps) (auto split: if_splits)
  next
    case True
    define b2 where "b2 = b1\<lparr>bi_pos := bi_limit b1\<rparr>"
    have a: "bi_limit b1 = length (bi_buf b1)" "0 < bi_limit b1" "q + bi_limit b1 = q1" "q1 \<le> length bs"
      using f True by (auto simp: buffered_at_def)
    have buf: "bi_buf b1 = take (bi_limit b1) (drop q bs)"
      using buffered_at_bytes(1) [OF f(2), of "bi_limit b1"] f(3) a(1) by simp
    have b2: "buffered_at over bs b2 q1 q1"
      using buffered_at_bytes(2) [OF f(2), of "bi_limit b1"] f(3) a(3) by (simp add: b2_def)
    have e: "bi_buf b1 @ drop q1 bs = drop q bs"
      unfolding buf a(3) [symmetric] by (metis append_take_drop_id drop_drop add.commute)
    have step: "ReadAll_loop ops OkStatus result b = ReadAll_loop ops s (result @ bi_buf b1) b2"
      using a(2) f(1) by (subst ReadAll_loop.simps) (simp add: b2_def)
    show ?thesis
    proof (cases "ok s")
      case ok: True
      then have "s = OkStatus" by (simp add: ok_iff)
      moreover have "length bs - q1 < length bs - q" using a(2-4) by linarith
      ultimately show ?thesis using less.hyps [OF _ b2, of "result @ bi_buf b1"] step e by simp
    next
      case False
      then have "q1 = length bs" "IsOutOfRange s" using f(5) by auto
      with False b2 e show ?thesis
        unfolding step by (subst ReadAll_loop.simps) auto
    qed
  qed
qed

lemma read_all_law:
  assumes "buffered_at over bs b p q"
  shows "\<exists>b'. ReadAll ops b = Some (OkStatus, drop q bs, b') \<and> buffered_over over bs b' (length bs)"
proof -
  obtain s b' where r: "ReadAll_loop ops OkStatus [] b = Some (s, drop q bs, b')"
    "buffered_at over bs b' (length bs) (length bs)" "IsOutOfRange s"
    using ReadAll_loop_law [OF assms, of "[]"] by auto
  have "buffered_at over bs (b'\<lparr>bi_file_status := s\<rparr>) (length bs) (length bs)"
    using r(2,3) by (auto simp: buffered_at_def)
  then show ?thesis using r by (auto simp: ReadAll_def buffered_over_def)
qed

end

section \<open>Properties\<close>

interpretation buffered: input_stream "buffered_ops random_ops" "buffered_over random_over"
  by (rule random.buffered_input_stream)

lemma buffered_fresh:
  assumes "file_has file bs" "0 < bufsz"
  shows "buffered_at random_over bs (BufferedInputStream (RandomAccessInputStream file) bufsz) 0 0"
  using assms by (simp add: buffered_at_def BufferedInputStream_def RandomAccessInputStream_def random_over_def)

text \<open>A file that holds \<open>bs\<close>, for concrete runs.\<close>

definition byte_file :: "bytes \<Rightarrow> random_file" where
  "byte_file bs off n =
     (if off + n \<le> int (length bs) then OkStatus else Error OUT_OF_RANGE ''eof'', take (nat n) (drop (nat off) bs))"

lemma file_has_byte_file: "file_has (byte_file bs) bs"
  by (simp add: file_has_def byte_file_def)

text \<open>(C20) A buffered stream over a file cannot be told from the file: whatever is in the buffer, a read at
  position \<open>p\<close> returns the next \<open>n\<close> bytes of the file, moves to \<open>p + n\<close> or to the end, and
  reports \<open>OUT_OF_RANGE\<close> exactly when the file ends before; \<open>Tell\<close> gives the position after that.\<close>

theorem buffered_reads_file:
  assumes "buffered_over random_over bs b p" "0 \<le> n"
  shows "\<exists>s b'. Buffered_ReadNBytes random_ops n result b = Some (s, take (nat n) (drop p bs), b') \<and>
    buffered_over random_over bs b' (min (p + nat n) (length bs)) \<and>
    Buffered_Tell random_ops b' = int (min (p + nat n) (length bs)) \<and>
    (if p + nat n \<le> length bs then s = OkStatus else IsOutOfRange s)"
  using random.buffered_read_law [OF assms, of result] random.buffered_tell_law
  unfolding moved_def move_status_def by blast

lemma buffered_reads_file_witness:
  "buffered_over random_over [1, 2, 3] (BufferedInputStream (RandomAccessInputStream (byte_file [1, 2, 3])) 2) 0 \<and>
   (\<exists>b'. Buffered_ReadNBytes random_ops 3 [] (BufferedInputStream (RandomAccessInputStream (byte_file [1, 2, 3])) 2) =
      Some (OkStatus, [1, 2, 3], b'))"
proof -
  have b: "buffered_over random_over [1, 2, 3] (BufferedInputStream (RandomAccessInputStream (byte_file [1, 2, 3])) 2) 0"
    using buffered_fresh [OF file_has_byte_file, of 2] unfolding buffered_over_def by auto
  show ?thesis using b buffered_reads_file [OF b, of 3 "[]"] by auto
qed

text \<open>\<open>Seek\<close> of a buffered stream goes to the byte it is given, whether that is before the buffer, so
  that the file is reset, inside the buffer, or after it; past the end of the file it stops there and
  reports \<open>OUT_OF_RANGE\<close>.\<close>

lemma buffered_seek:
  assumes "buffered_over random_over bs b p" "0 \<le> position" "position \<le> INT64_MAX"
  shows "\<exists>s b'. Buffered_Seek random_ops position b = Some (s, b') \<and>
    buffered_over random_over bs b' (min (nat position) (length bs)) \<and>
    (if nat position \<le> length bs then s = OkStatus else IsOutOfRange s)"
  using random.buffered_seek_law [OF assms] by (simp add: moved_def move_status_def)

text \<open>\<open>ReadLine\<close> returns the bytes up to the next newline without carriage returns, across any number of
  buffers, leaves the stream after the newline, and fails with \<open>OUT_OF_RANGE\<close> exactly when there is no
  newline left and no such byte either; \<open>SkipLine\<close> goes to the same place.\<close>

theorem buffered_read_line:
  assumes "buffered_over random_over bs b p"
  shows "(\<exists>s b'. Buffered_ReadLine random_ops b = Some (s, line_of (drop p bs), b') \<and>
      buffered_over random_over bs b' (p + line_end (drop p bs)) \<and>
      (if 10 \<in> set (drop p bs) \<or> line_of (drop p bs) \<noteq> [] then s = OkStatus else IsOutOfRange s)) \<and>
    (\<exists>s b'. SkipLine random_ops b = Some (s, b') \<and> buffered_over random_over bs b' (p + line_end (drop p bs)) \<and>
      (if p < length bs then s = OkStatus else IsOutOfRange s))"
proof (rule conjI)
  show "\<exists>s b'. Buffered_ReadLine random_ops b = Some (s, line_of (drop p bs), b') \<and>
      buffered_over random_over bs b' (p + line_end (drop p bs)) \<and>
      (if 10 \<in> set (drop p bs) \<or> line_of (drop p bs) \<noteq> [] then s = OkStatus else IsOutOfRange s)"
    using random.read_line_law [OF assms, of False] by (simp add: Buffered_ReadLine_def line_text_def line_status_def)
  obtain q where "buffered_at random_over bs b p q" using assms by (auto simp: buffered_over_def)
  from random.SkipLine_loop_law [OF this, of False]
  show "\<exists>s b'. SkipLine random_ops b = Some (s, b') \<and> buffered_over random_over bs b' (p + line_end (drop p bs)) \<and>
      (if p < length bs then s = OkStatus else IsOutOfRange s)" by (simp add: SkipLine_def)
qed

lemma buffered_read_line_witness:
  "\<exists>s b'. Buffered_ReadLine random_ops (BufferedInputStream (RandomAccessInputStream (byte_file [65, 13, 10, 66])) 2) =
     Some (s, [65], b') \<and> buffered_over random_over [65, 13, 10, 66] b' 3 \<and> s = OkStatus"
proof -
  have b: "buffered_over random_over [65, 13, 10, 66]
      (BufferedInputStream (RandomAccessInputStream (byte_file [65, 13, 10, 66])) 2) 0"
    using buffered_fresh [OF file_has_byte_file, of 2] unfolding buffered_over_def by auto
  show ?thesis using buffered_read_line [OF b] by (simp add: line_simps numeral_3_eq_3)
qed

text \<open>\<open>ReadAll\<close> returns the bytes the underlying file has left and ends at the end of the file: on a fresh
  stream that is the whole file, but the bytes that were read ahead into the buffer are dropped.\<close>

lemma read_all_after_buffer:
  assumes "buffered_over random_over bs b p"
  shows "\<exists>b'. ReadAll random_ops b = Some (OkStatus, drop (p + (bi_limit b - bi_pos b)) bs, b') \<and>
    buffered_over random_over bs b' (length bs)"
proof -
  obtain q where b: "buffered_at random_over bs b p q" using assms by (auto simp: buffered_over_def)
  then have q: "q = p + (bi_limit b - bi_pos b)" by (simp add: buffered_at_def)
  show ?thesis using random.read_all_law [OF b] unfolding q .
qed

end
