(* ===== verification/Input_Buffer.thy ===== *)
theory Input_Buffer
  imports Coding Buffered_Stream
begin

text \<open>
  \<open>tsl/lib/io/inputbuffer.cc\<close> and \<open>inputbuffer.h\<close>: a read buffer on a random access file, with
  readers of lines, of byte counts and of varints.

  Of the array \<open>buf_\<close> the record keeps the bytes \<open>[buf_, limit_)\<close>, since what follows them is
  never read; \<open>pos_\<close> is an offset into them.  Readers that fill a caller's array return the bytes
  they wrote.  A loop that does not end is \<open>None\<close>.
\<close>

section \<open>The code\<close>

record input_buffer =
  ib_file :: random_file
  ib_file_pos :: int
  ib_size :: nat
  ib_buf :: bytes
  ib_pos :: nat

definition InputBuffer :: "random_file \<Rightarrow> nat \<Rightarrow> input_buffer" where
  "InputBuffer file buffer_bytes =
     \<lparr>ib_file = file, ib_file_pos = 0, ib_size = buffer_bytes, ib_buf = [], ib_pos = 0\<rparr>"

text \<open>\<open>limit_ - pos_\<close> and the bytes there.\<close>

abbreviation ib_remain :: "input_buffer \<Rightarrow> nat" where
  "ib_remain b \<equiv> length (ib_buf b) - ib_pos b"

definition ib_rest :: "input_buffer \<Rightarrow> bytes" where
  "ib_rest b = drop (ib_pos b) (ib_buf b)"

definition InputBuffer_FillBuffer :: "input_buffer \<Rightarrow> status \<times> input_buffer" where
  "InputBuffer_FillBuffer b =
     (let (s, data) = ib_file b (ib_file_pos b) (int (ib_size b))
      in (s, b\<lparr>ib_buf := data, ib_pos := 0, ib_file_pos := ib_file_pos b + int (length data)\<rparr>))"

text \<open>\<open>memchr(pos_, '\n', ...)\<close>, as an offset from \<open>pos_\<close>.\<close>

definition find_newline :: "bytes \<Rightarrow> nat option" where
  "find_newline bs = (if 10 \<in> set bs then Some (length (takeWhile (\<lambda>c. c \<noteq> 10) bs)) else None)"

definition strip_cr :: "bytes \<Rightarrow> bytes" where
  "strip_cr result = (if result \<noteq> [] \<and> last result = 13 then butlast result else result)"

partial_function (option) InputBuffer_line_loop :: "bytes \<Rightarrow> input_buffer \<Rightarrow> (status \<times> bytes \<times> input_buffer) option" where
  "InputBuffer_line_loop result b =
     (case find_newline (ib_rest b) of
        Some result_len \<Rightarrow>
          Some (OkStatus, strip_cr (result @ take result_len (ib_rest b)), b\<lparr>ib_pos := ib_pos b + result_len + 1\<rparr>)
      | None \<Rightarrow>
          let result = result @ ib_rest b; (s, b) = InputBuffer_FillBuffer b in
          if ib_buf b \<noteq> [] then InputBuffer_line_loop result b
          else
            let result = strip_cr result
            in Some (if IsOutOfRange s \<and> result \<noteq> [] then OkStatus else s, result, b))"

definition InputBuffer_ReadLine :: "input_buffer \<Rightarrow> (status \<times> bytes \<times> input_buffer) option" where
  "InputBuffer_ReadLine b = InputBuffer_line_loop [] b"

text \<open>The overload of \<open>ReadNBytes\<close> for an array; \<open>result\<close> are the bytes written so far.\<close>

partial_function (option) InputBuffer_read_loop ::
  "nat \<Rightarrow> status \<Rightarrow> bytes \<Rightarrow> input_buffer \<Rightarrow> (status \<times> bytes \<times> input_buffer) option" where
  "InputBuffer_read_loop bytes_to_read status result b =
     (if length result < bytes_to_read then
        let (status, b) = (if ib_remain b = 0 then InputBuffer_FillBuffer b else (status, b)) in
        if ib_remain b = 0 then Some (status, result, b)
        else
          let bytes_to_copy = min (ib_remain b) (bytes_to_read - length result)
          in InputBuffer_read_loop bytes_to_read status (result @ take bytes_to_copy (ib_rest b))
               (b\<lparr>ib_pos := ib_pos b + bytes_to_copy\<rparr>)
      else Some (status, result, b))"

definition InputBuffer_ReadNBytes_array :: "int \<Rightarrow> input_buffer \<Rightarrow> (status \<times> bytes \<times> input_buffer) option" where
  "InputBuffer_ReadNBytes_array bytes_to_read b =
     (if bytes_to_read < 0 then Some (Error INVALID_ARGUMENT ''Can't read a negative number of bytes: '', [], b)
      else
        map_option (\<lambda>(status, result, b).
            (if IsOutOfRange status \<and> length result = nat bytes_to_read then OkStatus else status, result, b))
          (InputBuffer_read_loop (nat bytes_to_read) OkStatus [] b))"

definition InputBuffer_ReadNBytes :: "int \<Rightarrow> input_buffer \<Rightarrow> (status \<times> bytes \<times> input_buffer) option" where
  "InputBuffer_ReadNBytes bytes_to_read b =
     (if bytes_to_read < 0 then Some (Error INVALID_ARGUMENT ''Can't read a negative number of bytes: '', [], b)
      else InputBuffer_ReadNBytes_array bytes_to_read b)"

text \<open>\<open>ReadVarintFallback\<close>: the loop has the number of bytes it may still read, and \<open>scratch\<close> keeps its value when
  a read gives nothing.\<close>

fun ReadVarintFallback_loop ::
  "nat \<Rightarrow> nat \<Rightarrow> byte \<Rightarrow> 'a::len word \<Rightarrow> input_buffer \<Rightarrow> (status \<times> 'a word \<times> input_buffer) option" where
  "ReadVarintFallback_loop 0 index scratch result b = Some (Error DATA_LOSS ''Stored data longer than '', result, b)"
| "ReadVarintFallback_loop (Suc left) index scratch result b =
     (let shift = 7 * index in
      (case InputBuffer_ReadNBytes_array 1 b of
         None \<Rightarrow> None
       | Some (s, data, b) \<Rightarrow>
           if \<not> ok s then Some (s, result, b)
           else
             let scratch = (if data = [] then scratch else hd data);
                 result = result OR push_bit shift (ucast scratch AND 127)
             in if scratch AND 128 = 0 then Some (OkStatus, result, b)
                else ReadVarintFallback_loop left (index + 1) scratch result b))"

definition ReadVarintFallback :: "nat \<Rightarrow> input_buffer \<Rightarrow> (status \<times> 'a::len word \<times> input_buffer) option" where
  "ReadVarintFallback max_bytes b = ReadVarintFallback_loop max_bytes 0 0 0 b"

definition kMaxVarint32Bytes :: nat where "kMaxVarint32Bytes = 5"
definition kMaxVarint64Bytes :: nat where "kMaxVarint64Bytes = 10"

definition ReadVarint32Fallback :: "input_buffer \<Rightarrow> (status \<times> u32 \<times> input_buffer) option" where
  "ReadVarint32Fallback b =
     map_option (\<lambda>(s, result, b).
         (if IsDataLoss s then Error DATA_LOSS ''Stored data is too large to be a varint32.'' else s, result, b))
       (ReadVarintFallback kMaxVarint32Bytes b)"

definition ReadVarint64Fallback :: "input_buffer \<Rightarrow> (status \<times> u64 \<times> input_buffer) option" where
  "ReadVarint64Fallback b =
     map_option (\<lambda>(s, result, b).
         (if IsDataLoss s then Error DATA_LOSS ''Stored data is too large to be a varint64.'' else s, result, b))
       (ReadVarintFallback kMaxVarint64Bytes b)"

text \<open>\<open>GetVarint32Ptr\<close> leaves \<open>*result\<close> alone when it fails.\<close>

definition ReadVarint32 :: "u32 \<Rightarrow> input_buffer \<Rightarrow> (status \<times> u32 \<times> input_buffer) option" where
  "ReadVarint32 result b =
     (if ib_pos b + kMaxVarint32Bytes \<le> length (ib_buf b) then
        (case GetVarint32Ptr (ib_rest b) of
           None \<Rightarrow> Some (Error OUT_OF_RANGE ''Parsed past limit.'', result, b)
         | Some (result, offset) \<Rightarrow> Some (OkStatus, result, b\<lparr>ib_pos := length (ib_buf b) - length offset\<rparr>))
      else ReadVarint32Fallback b)"

definition ReadVarint64 :: "u64 \<Rightarrow> input_buffer \<Rightarrow> (status \<times> u64 \<times> input_buffer) option" where
  "ReadVarint64 result b =
     (if ib_pos b + kMaxVarint64Bytes \<le> length (ib_buf b) then
        (case GetVarint64Ptr (ib_rest b) of
           None \<Rightarrow> Some (Error OUT_OF_RANGE ''Parsed past limit.'', result, b)
         | Some (result, offset) \<Rightarrow> Some (OkStatus, result, b\<lparr>ib_pos := length (ib_buf b) - length offset\<rparr>))
      else ReadVarint64Fallback b)"

partial_function (option) InputBuffer_skip_loop ::
  "int \<Rightarrow> int \<Rightarrow> status \<Rightarrow> input_buffer \<Rightarrow> (status \<times> int \<times> input_buffer) option" where
  "InputBuffer_skip_loop bytes_to_skip bytes_skipped s b =
     (if bytes_skipped < bytes_to_skip then
        let (s, b) = (if ib_remain b = 0 then InputBuffer_FillBuffer b else (s, b)) in
        if ib_remain b = 0 then Some (s, bytes_skipped, b)
        else
          let bytes_to_advance = min (int (ib_remain b)) (bytes_to_skip - bytes_skipped)
          in InputBuffer_skip_loop bytes_to_skip (bytes_skipped + bytes_to_advance) s
               (b\<lparr>ib_pos := ib_pos b + nat bytes_to_advance\<rparr>)
      else Some (s, bytes_skipped, b))"

definition InputBuffer_SkipNBytes :: "int \<Rightarrow> input_buffer \<Rightarrow> (status \<times> input_buffer) option" where
  "InputBuffer_SkipNBytes bytes_to_skip b =
     (if bytes_to_skip < 0 then Some (Error INVALID_ARGUMENT ''Can only skip forward, not '', b)
      else
        map_option (\<lambda>(s, bytes_skipped, b).
            (if IsOutOfRange s \<and> bytes_skipped = bytes_to_skip then OkStatus else s, b))
          (InputBuffer_skip_loop bytes_to_skip 0 OkStatus b))"

definition InputBuffer_Seek :: "int \<Rightarrow> input_buffer \<Rightarrow> status \<times> input_buffer" where
  "InputBuffer_Seek position b =
     (if position < 0 then (Error INVALID_ARGUMENT ''Seeking to a negative position: '', b)
      else
        let bufpos = ib_file_pos b - int (length (ib_buf b)) in
        if position \<ge> bufpos \<and> position < ib_file_pos b
        then (OkStatus, b\<lparr>ib_pos := nat (position - bufpos)\<rparr>)
        else (OkStatus, b\<lparr>ib_buf := [], ib_pos := 0, ib_file_pos := position\<rparr>))"

definition Hint :: "int \<Rightarrow> input_buffer \<Rightarrow> status \<times> input_buffer" where
  "Hint bytes_to_read b =
     (if bytes_to_read < 0 then (Error INVALID_ARGUMENT ''Can't read a negative number of bytes: '', b)
      else if bytes_to_read > int (ib_size b) then (OkStatus, b)
      else
        let bytes_remain_in_buf = int (ib_remain b) in
        if bytes_to_read \<le> bytes_remain_in_buf then (OkStatus, b)
        else
          let bytes_to_read = bytes_to_read - bytes_remain_in_buf;
              (s, data) = ib_file b (ib_file_pos b) bytes_to_read;
              b = b\<lparr>ib_buf := ib_rest b @ data, ib_pos := 0, ib_file_pos := ib_file_pos b + int (length data)\<rparr>
          in (if IsOutOfRange s \<and> int (length data) = bytes_to_read then OkStatus else s, b))"

definition InputBuffer_Tell :: "input_buffer \<Rightarrow> int" where
  "InputBuffer_Tell b = ib_file_pos b - int (ib_remain b)"

section \<open>The buffer\<close>

definition input_at :: "bytes \<Rightarrow> input_buffer \<Rightarrow> nat \<Rightarrow> nat \<Rightarrow> bool" where
  "input_at bs b p q \<longleftrightarrow> file_has (ib_file b) bs \<and> 0 < ib_size b \<and> ib_file_pos b = int q \<and> p \<le> length bs \<and>
     ib_pos b \<le> length (ib_buf b) \<and> length (ib_buf b) \<le> q \<and> p + ib_remain b = q \<and>
     ib_buf b = take (length (ib_buf b)) (drop (q - length (ib_buf b)) bs)"

definition input_over :: "bytes \<Rightarrow> input_buffer \<Rightarrow> nat \<Rightarrow> bool" where
  "input_over bs b p \<longleftrightarrow> (\<exists>q. input_at bs b p q)"

lemma input_at_rest:
  assumes "input_at bs b p q"
  shows "ib_rest b = take (ib_remain b) (drop p bs)" "q \<le> length bs"
proof -
  let ?l = "length (ib_buf b)" and ?i = "ib_pos b"
  have a: "?i \<le> ?l" "?l \<le> q" "p + (?l - ?i) = q" "p \<le> length bs"
    and buf: "ib_buf b = take ?l (drop (q - ?l) bs)"
    using assms by (simp_all add: input_at_def)
  have "ib_rest b = drop ?i (take ?l (drop (q - ?l) bs))" unfolding ib_rest_def using buf by simp
  also have "\<dots> = take (?l - ?i) (drop (?i + (q - ?l)) bs)" by (simp add: drop_take)
  also have "?i + (q - ?l) = p" using a(1-3) by simp
  finally show "ib_rest b = take (ib_remain b) (drop p bs)" .
  have "?l \<le> length bs - (q - ?l)" using arg_cong [OF buf, of length] by simp
  then show "q \<le> length bs" using a by (cases "?l = 0") auto
qed

lemma input_at_advance:
  assumes "input_at bs b p q" "k \<le> ib_remain b"
  shows "take k (ib_rest b) = take k (drop p bs)" "input_at bs (b\<lparr>ib_pos := ib_pos b + k\<rparr>) (p + k) q" "p + k \<le> length bs"
proof -
  show "take k (ib_rest b) = take k (drop p bs)" using input_at_rest(1) [OF assms(1)] assms(2) by (simp add: min_def)
  show "p + k \<le> length bs" using input_at_rest(2) [OF assms(1)] assms by (simp add: input_at_def)
  then show "input_at bs (b\<lparr>ib_pos := ib_pos b + k\<rparr>) (p + k) q" using assms by (auto simp: input_at_def)
qed

lemma InputBuffer_FillBuffer_law:
  assumes "input_at bs b p q" "ib_remain b = 0"
  obtains s b' q' where "InputBuffer_FillBuffer b = (s, b')" "input_at bs b' p q'" "ib_pos b' = 0"
    "ib_buf b' = take (ib_size b) (drop p bs)" "ib_buf b' = [] \<longleftrightarrow> p = length bs"
    "if p + ib_size b \<le> length bs then s = OkStatus else IsOutOfRange s"
proof -
  have a: "file_has (ib_file b) bs" "0 < ib_size b" "ib_file_pos b = int p" "p \<le> length bs"
    using assms by (auto simp: input_at_def)
  let ?data = "take (ib_size b) (drop p bs)"
  obtain s where s: "ib_file b (int p) (int (ib_size b)) = (s, ?data)" "move_status bs p (ib_size b) s"
    using file_has_read [OF a(1), of "int (ib_size b)" p] by auto
  let ?b = "b\<lparr>ib_buf := ?data, ib_pos := 0, ib_file_pos := int p + int (length ?data)\<rparr>"
  have "?data = take (length ?data) (drop p bs)" by (cases "ib_size b \<le> length (drop p bs)") (simp_all add: min_def)
  then have "input_at bs ?b p (p + length ?data)" using a by (simp add: input_at_def)
  moreover have "?data = [] \<longleftrightarrow> p = length bs" using a(2,4) by auto
  ultimately show ?thesis
    using s a(3) by (intro that [of s ?b]) (simp_all add: InputBuffer_FillBuffer_def move_status_def)
qed

text \<open>Reading loops of \<open>ReadNBytes\<close> and \<open>SkipNBytes\<close>: the first half of an iteration.\<close>

lemma refill_law:
  assumes "input_at bs b p q" "ok s \<or> IsOutOfRange s"
  obtains s' b' q' where "(if ib_remain b = 0 then InputBuffer_FillBuffer b else (s, b)) = (s', b')" "input_at bs b' p q'"
    "ib_remain b' = 0 \<longleftrightarrow> p = length bs" "ok s' \<or> IsOutOfRange s'" "p = length bs \<longrightarrow> IsOutOfRange s'"
proof (cases "ib_remain b = 0")
  case True
  obtain s' b' q' where f: "InputBuffer_FillBuffer b = (s', b')" "input_at bs b' p q'" "ib_pos b' = 0"
    "ib_buf b' = take (ib_size b) (drop p bs)" "ib_buf b' = [] \<longleftrightarrow> p = length bs"
    "if p + ib_size b \<le> length bs then s' = OkStatus else IsOutOfRange s'"
    using InputBuffer_FillBuffer_law [OF assms(1) True] by blast
  have "0 < ib_size b" using assms(1) by (simp add: input_at_def)
  then show ?thesis using True f by (intro that [of s' b' q']) (auto split: if_splits)
next
  case False
  moreover have "p \<noteq> length bs" using input_at_rest(2) [OF assms(1)] assms(1) False by (auto simp: input_at_def)
  ultimately show ?thesis using assms by (intro that [of s b q]) auto
qed

lemma InputBuffer_read_loop_law:
  assumes "input_at bs b p q" "ok s \<or> IsOutOfRange s" "length result \<le> n"
  shows "\<exists>s' b'. InputBuffer_read_loop n s result b = Some (s', result @ take (n - length result) (drop p bs), b') \<and>
    input_over bs b' (moved bs p (n - length result)) \<and>
    (if p + (n - length result) \<le> length bs then ok s' \<or> IsOutOfRange s' else IsOutOfRange s')"
  using assms
proof (induction "n - length result" arbitrary: s result b p q rule: less_induct)
  case less
  have p: "p \<le> length bs" using less.prems(1) by (auto simp: input_at_def)
  show ?case
  proof (cases "length result < n")
    case False
    then show ?thesis
      using less.prems p by (subst InputBuffer_read_loop.simps) (auto simp: moved_def input_over_def)
  next
    case True
    obtain s1 b1 q1 where f: "(if ib_remain b = 0 then InputBuffer_FillBuffer b else (s, b)) = (s1, b1)"
      "input_at bs b1 p q1" "ib_remain b1 = 0 \<longleftrightarrow> p = length bs" "ok s1 \<or> IsOutOfRange s1" "p = length bs \<longrightarrow> IsOutOfRange s1"
      using refill_law [OF less.prems(1,2)] by blast
    show ?thesis
    proof (cases "p = length bs")
      case end_: True
      then have "IsOutOfRange s1" "ib_remain b1 = 0" "input_over bs b1 (length bs)" using f by (auto simp: input_over_def)
      with True f(1) end_ show ?thesis
        by (subst InputBuffer_read_loop.simps) (simp only: if_True Let_def prod.case, simp add: moved_def)
    next
      case False
      define k where "k = min (ib_remain b1) (n - length result)"
      define b2 where "b2 = b1\<lparr>ib_pos := ib_pos b1 + k\<rparr>"
      have k: "0 < k" "k \<le> ib_remain b1" "k \<le> n - length result" using False f(3) True by (auto simp: k_def)
      note adv = input_at_advance [OF f(2) k(2)]
      let ?r = "result @ take k (drop p bs)"
      have step: "InputBuffer_read_loop n s result b = InputBuffer_read_loop n s1 ?r b2"
        using True False f(1,3)
        by (subst InputBuffer_read_loop.simps) (simp only: if_True if_False Let_def prod.case k_def [symmetric] adv(1) b2_def)
      have len: "length ?r = length result + k" using adv(3) by simp
      have c: "n - length ?r < n - length result" "length ?r \<le> n" unfolding len using k True by simp_all
      have m: "n - length result = k + (n - length ?r)" using len k(3) by simp
      have e: "?r @ take (n - length ?r) (drop (p + k) bs) = result @ take (n - length result) (drop p bs)"
        unfolding m take_add by (simp add: add.commute)
      have pk: "p + k + (n - length ?r) = p + (n - length result)" using m by simp
      have mv: "moved bs (p + k) (n - length ?r) = moved bs p (n - length result)" unfolding moved_def pk by (rule refl)
      show ?thesis
        using less.hyps [OF c(1) adv(2) [folded b2_def] f(4) c(2)] unfolding step e pk mv .
    qed
  qed
qed

lemma input_read_law:
  assumes "input_over bs b p" "0 \<le> n"
  shows "\<exists>s b'. InputBuffer_ReadNBytes_array n b = Some (s, take (nat n) (drop p bs), b') \<and>
    input_over bs b' (moved bs p (nat n)) \<and> move_status bs p (nat n) s"
proof -
  obtain q where b: "input_at bs b p q" using assms(1) by (auto simp: input_over_def)
  obtain s b' where l: "InputBuffer_read_loop (nat n) OkStatus [] b = Some (s, take (nat n) (drop p bs), b')"
    "input_over bs b' (moved bs p (nat n))" "if p + nat n \<le> length bs then ok s \<or> IsOutOfRange s else IsOutOfRange s"
    using InputBuffer_read_loop_law [OF b, of OkStatus "[]" "nat n"] by auto
  have p: "p \<le> length bs" using b by (auto simp: input_at_def)
  then have "length (take (nat n) (drop p bs)) = nat n \<longleftrightarrow> p + nat n \<le> length bs" by auto
  then have "move_status bs p (nat n) (if IsOutOfRange s \<and> length (take (nat n) (drop p bs)) = nat n then OkStatus else s)"
    using l(3) by (auto simp: move_status_def ok_iff)
  then show ?thesis using assms(2) l(1,2) by (simp add: InputBuffer_ReadNBytes_array_def)
qed

lemma input_tell_law: "input_over bs b p \<Longrightarrow> InputBuffer_Tell b = int p"
  by (auto simp: InputBuffer_Tell_def input_over_def input_at_def)

text \<open>\<open>SkipNBytes\<close>, \<open>Seek\<close> and \<open>Hint\<close>.\<close>

lemma InputBuffer_skip_loop_law:
  assumes "input_at bs b p q" "ok s \<or> IsOutOfRange s" "k \<le> n"
  shows "\<exists>s' b'. InputBuffer_skip_loop n k s b = Some (s', k + int (moved bs p (nat (n - k)) - p), b') \<and>
    input_over bs b' (moved bs p (nat (n - k))) \<and>
    (if p + nat (n - k) \<le> length bs then ok s' \<or> IsOutOfRange s' else IsOutOfRange s')"
  using assms
proof (induction "nat (n - k)" arbitrary: s k b p q rule: less_induct)
  case less
  have p: "p \<le> length bs" using less.prems(1) by (auto simp: input_at_def)
  show ?case
  proof (cases "k < n")
    case False
    then show ?thesis
      using less.prems p by (subst InputBuffer_skip_loop.simps) (auto simp: moved_def input_over_def)
  next
    case True
    obtain s1 b1 q1 where f: "(if ib_remain b = 0 then InputBuffer_FillBuffer b else (s, b)) = (s1, b1)"
      "input_at bs b1 p q1" "ib_remain b1 = 0 \<longleftrightarrow> p = length bs" "ok s1 \<or> IsOutOfRange s1" "p = length bs \<longrightarrow> IsOutOfRange s1"
      using refill_law [OF less.prems(1,2)] by blast
    show ?thesis
    proof (cases "p = length bs")
      case end_: True
      then have "IsOutOfRange s1" "ib_remain b1 = 0" "input_over bs b1 (length bs)" using f by (auto simp: input_over_def)
      with True f(1) end_ show ?thesis
        by (subst InputBuffer_skip_loop.simps) (simp only: if_True Let_def prod.case, simp add: moved_def)
    next
      case False
      define d where "d = min (int (ib_remain b1)) (n - k)"
      have "0 < ib_remain b1" using False f(3) by simp
      then have d: "0 < d" "nat d \<le> ib_remain b1" "k + d \<le> n" using True by (simp_all add: d_def)
      note adv = input_at_advance [OF f(2) d(2)]
      have step: "InputBuffer_skip_loop n k s b = InputBuffer_skip_loop n (k + d) s1 (b1\<lparr>ib_pos := ib_pos b1 + nat d\<rparr>)"
        using True False f(1,3)
        by (subst InputBuffer_skip_loop.simps) (simp only: if_True if_False Let_def prod.case d_def [symmetric])
      have c: "nat (n - (k + d)) < nat (n - k)" using d(1) True by simp
      have pk: "p + nat d + nat (n - (k + d)) = p + nat (n - k)" using d by simp
      have mv: "moved bs (p + nat d) (nat (n - (k + d))) = moved bs p (nat (n - k))" unfolding moved_def pk by (rule refl)
      have "p + nat d \<le> moved bs p (nat (n - k))" using adv(3) d by (simp add: moved_def)
      then have sk: "k + d + int (moved bs p (nat (n - k)) - (p + nat d)) = k + int (moved bs p (nat (n - k)) - p)"
        using d(1) by simp
      show ?thesis using less.hyps [OF c adv(2) f(4) d(3)] unfolding step pk mv sk .
    qed
  qed
qed

lemma input_skip_law:
  assumes "input_over bs b p" "0 \<le> n"
  shows "\<exists>s b'. InputBuffer_SkipNBytes n b = Some (s, b') \<and> input_over bs b' (moved bs p (nat n)) \<and> move_status bs p (nat n) s"
proof -
  obtain q where b: "input_at bs b p q" using assms(1) by (auto simp: input_over_def)
  obtain s b' where l: "InputBuffer_skip_loop n 0 OkStatus b = Some (s, int (moved bs p (nat n) - p), b')"
    "input_over bs b' (moved bs p (nat n))" "if p + nat n \<le> length bs then ok s \<or> IsOutOfRange s else IsOutOfRange s"
    using InputBuffer_skip_loop_law [OF b, of OkStatus 0 n] assms(2) by auto
  have p: "p \<le> length bs" using b by (auto simp: input_at_def)
  then have "int (moved bs p (nat n) - p) = n \<longleftrightarrow> p + nat n \<le> length bs" using assms(2) by (auto simp: moved_def)
  then have "move_status bs p (nat n) (if IsOutOfRange s \<and> int (moved bs p (nat n) - p) = n then OkStatus else s)"
    using l(3) by (auto simp: move_status_def ok_iff)
  then show ?thesis using assms(2) l(1,2) by (simp add: InputBuffer_SkipNBytes_def)
qed

lemma input_seek_law:
  assumes "input_over bs b p" "0 \<le> position" "position \<le> int (length bs)"
  shows "\<exists>b'. InputBuffer_Seek position b = (OkStatus, b') \<and> input_over bs b' (nat position)"
proof -
  obtain q where b: "input_at bs b p q" using assms(1) by (auto simp: input_over_def)
  let ?bufpos = "int q - int (length (ib_buf b))"
  have a: "file_has (ib_file b) bs" "0 < ib_size b" "ib_file_pos b = int q" "length (ib_buf b) \<le> q"
    "ib_buf b = take (length (ib_buf b)) (drop (q - length (ib_buf b)) bs)"
    using b by (simp_all add: input_at_def)
  show ?thesis
  proof (cases "position \<ge> ?bufpos \<and> position < int q")
    case True
    then have "nat position + (length (ib_buf b) - nat (position - ?bufpos)) = q" "nat (position - ?bufpos) \<le> length (ib_buf b)"
      "nat position \<le> length bs"
      using assms(2,3) a(4) by linarith+
    then have "input_at bs (b\<lparr>ib_pos := nat (position - ?bufpos)\<rparr>) (nat position) q"
      using a by (simp add: input_at_def)
    with True a(3) assms(2) show ?thesis by (auto simp: InputBuffer_Seek_def input_over_def)
  next
    case False
    have "input_at bs (b\<lparr>ib_buf := [], ib_pos := 0, ib_file_pos := position\<rparr>) (nat position) (nat position)"
      using a(1,2) assms(2,3) by (simp add: input_at_def)
    moreover have "InputBuffer_Seek position b = (OkStatus, b\<lparr>ib_buf := [], ib_pos := 0, ib_file_pos := position\<rparr>)"
      using False a(3) assms(2) unfolding InputBuffer_Seek_def Let_def by (simp only: if_False) simp
    ultimately show ?thesis by (auto simp: input_over_def)
  qed
qed

lemma input_hint_law:
  assumes "input_over bs b p"
  shows "input_over bs (snd (Hint n b)) p"
proof -
  obtain q where b: "input_at bs b p q" using assms by (auto simp: input_over_def)
  have a: "file_has (ib_file b) bs" "0 < ib_size b" "ib_file_pos b = int q" "p \<le> length bs" "p + ib_remain b = q"
    using b by (simp_all add: input_at_def)
  note rest = input_at_rest [OF b]
  show ?thesis
  proof (cases "n < 0 \<or> n > int (ib_size b) \<or> n \<le> int (ib_remain b)")
    case True
    then show ?thesis using assms by (auto simp: Hint_def Let_def)
  next
    case False
    define m where "m = n - int (ib_remain b)"
    define data where "data = take (nat m) (drop q bs)"
    obtain s where s: "ib_file b (int q) m = (s, data)"
      using file_has_read [OF a(1), of m q] False by (auto simp: m_def data_def)
    define buf where "buf = ib_rest b @ data"
    let ?b = "b\<lparr>ib_buf := buf, ib_pos := 0, ib_file_pos := int q + int (length data)\<rparr>"
    have len: "length (ib_rest b) = ib_remain b" by (simp add: ib_rest_def)
    have cut: "data = take (length data) (drop q bs)"
      unfolding data_def by (cases "nat m \<le> length (drop q bs)") (simp_all add: min_def)
    have "ib_rest b @ data = take (ib_remain b) (drop p bs) @ take (length data) (drop (p + ib_remain b) bs)"
      unfolding a(5) using rest(1) cut by simp
    also have "\<dots> = take (length (ib_rest b @ data)) (drop p bs)"
      unfolding length_append len take_add by (simp add: add.commute)
    finally have "buf = take (length buf) (drop p bs)" by (simp only: buf_def)
    moreover have l: "p + length buf = q + length data" unfolding buf_def length_append len using a(5) by simp
    then have "q + length data - length buf = p" by (metis add_diff_cancel_right')
    ultimately have "buf = take (length buf) (drop (q + length data - length buf) bs)" by simp
    then have "input_at bs ?b p (q + length data)"
      unfolding input_at_def using a l by (intro conjI) simp_all
    moreover have "snd (Hint n b) = ?b"
      using False s a(3) by (simp add: Hint_def Let_def m_def [symmetric] buf_def)
    ultimately show ?thesis by (auto simp: input_over_def)
  qed
qed

section \<open>Lines\<close>

lemma find_newline_take: "find_newline bs = Some n \<Longrightarrow> take n bs = takeWhile (\<lambda>c. c \<noteq> 10) bs \<and> n < length bs"
  by (induction bs arbitrary: n) (auto simp: find_newline_def split: if_splits)

lemma takeWhile_newline_append:
  "find_newline xs = None \<Longrightarrow> takeWhile (\<lambda>c. c \<noteq> 10) (xs @ ys) = xs @ takeWhile (\<lambda>c. c \<noteq> 10) ys"
  by (rule takeWhile_append2) (auto simp: find_newline_def split: if_splits)

lemma InputBuffer_line_loop_law:
  assumes "input_at bs b p q"
  shows "\<exists>s b'. InputBuffer_line_loop result b = Some (s, strip_cr (result @ takeWhile (\<lambda>c. c \<noteq> 10) (drop p bs)), b') \<and>
    input_over bs b' (p + line_end (drop p bs)) \<and>
    line_status (strip_cr (result @ takeWhile (\<lambda>c. c \<noteq> 10) (drop p bs))) (drop p bs) s"
  using assms
proof (induction "length bs - q" arbitrary: b p q result rule: less_induct)
  case less
  note rest = input_at_rest [OF less.prems]
  have q: "p + ib_remain b = q" "p \<le> length bs" using less.prems by (simp_all add: input_at_def)
  have cut: "drop p bs = ib_rest b @ drop q bs"
    unfolding rest(1) q(1) [symmetric] by (metis append_take_drop_id drop_drop add.commute)
  have len: "length (ib_rest b) = ib_remain b" by (simp add: ib_rest_def)
  show ?case
  proof (cases "find_newline (ib_rest b)")
    case (Some n)
    note n = find_newline_take [OF Some]
    have m: "10 \<in> set (ib_rest b)" "n = length (takeWhile (\<lambda>c. c \<noteq> 10) (ib_rest b))"
      using Some by (auto simp: find_newline_def split: if_splits)
    have tw: "takeWhile (\<lambda>c. c \<noteq> 10) (drop p bs) = take n (ib_rest b)"
      unfolding cut using m(1) n by (subst takeWhile_append1 [of 10]) auto
    have "line_end (drop p bs) = n + 1"
      unfolding line_end_def tw unfolding cut using n m(2) by (simp add: min_def)
    moreover have "input_at bs (b\<lparr>ib_pos := ib_pos b + (n + 1)\<rparr>) (p + (n + 1)) q"
      using input_at_advance(2) [OF less.prems, of "n + 1"] n len by simp
    ultimately show ?thesis
      using m(1) Some unfolding tw
      by (subst InputBuffer_line_loop.simps) (auto simp: input_over_def line_status_def cut add.assoc)
  next
    case None
    note tw = takeWhile_newline_append [OF None]
    have e: "result @ takeWhile (\<lambda>c. c \<noteq> 10) (drop p bs) = (result @ ib_rest b) @ takeWhile (\<lambda>c. c \<noteq> 10) (drop q bs)"
      unfolding cut tw by simp
    have le: "p + line_end (drop p bs) = q + line_end (drop q bs)"
      unfolding cut line_end_def tw using len q(1) by simp
    have nl: "10 \<in> set (drop p bs) \<longleftrightarrow> 10 \<in> set (drop q bs)"
      unfolding cut using None by (auto simp: find_newline_def split: if_splits)
    define b0 where "b0 = b\<lparr>ib_pos := length (ib_buf b)\<rparr>"
    have b0: "input_at bs b0 q q" "ib_remain b0 = 0"
      using less.prems rest(2) by (auto simp: b0_def input_at_def)
    have f0: "InputBuffer_FillBuffer b = InputBuffer_FillBuffer b0" by (simp add: InputBuffer_FillBuffer_def b0_def)
    obtain s b1 q1 where f: "InputBuffer_FillBuffer b = (s, b1)" "input_at bs b1 q q1" "ib_pos b1 = 0"
      "ib_buf b1 = take (ib_size b0) (drop q bs)" "ib_buf b1 = [] \<longleftrightarrow> q = length bs"
      "if q + ib_size b0 \<le> length bs then s = OkStatus else IsOutOfRange s"
      using InputBuffer_FillBuffer_law [OF b0] unfolding f0 by blast
    show ?thesis
    proof (cases "q = length bs")
      case True
      moreover have "0 < ib_size b0" using b0(1) by (simp add: input_at_def)
      ultimately have "IsOutOfRange s" "ib_buf b1 = []" "input_over bs b1 (length bs)"
        using f by (auto simp: input_over_def split: if_splits)
      then show ?thesis
        unfolding e le line_status_def nl using None f(1) True
        by (subst InputBuffer_line_loop.simps) (simp add: line_end_def Let_def)
    next
      case False
      then have ne: "ib_buf b1 \<noteq> []" using f(5) by simp
      have "length bs - q1 < length bs - q"
        using f(2,3) ne input_at_rest(2) [OF f(2)] False by (cases "ib_buf b1") (auto simp: input_at_def)
      from less.hyps [OF this f(2), of "result @ ib_rest b"] show ?thesis
        unfolding e le line_status_def nl using None f(1) ne
        by (subst InputBuffer_line_loop.simps) (simp add: Let_def)
    qed
  qed
qed

lemma filter_cr: "13 \<notin> set (strip_cr xs) \<Longrightarrow> filter (\<lambda>c. c \<noteq> 13) xs = strip_cr xs"
proof (cases xs rule: rev_cases)
  case (snoc ys y)
  assume "13 \<notin> set (strip_cr xs)"
  then have "13 \<notin> set ys" using snoc by (auto simp: strip_cr_def split: if_splits)
  then have "filter (\<lambda>c. c \<noteq> 13) ys = ys" by (auto intro: filter_True)
  with snoc show ?thesis by (simp add: strip_cr_def)
qed (simp add: strip_cr_def)

section \<open>Varints\<close>

text \<open>The fallback reads a varint of any length up to its bound, across buffers.\<close>

lemma ReadVarintFallback_loop_varint:
  assumes "input_over bs b p" "drop p bs = varint n @ rest" "n < 128 ^ left" "0 < left"
  shows "\<exists>b'. ReadVarintFallback_loop left k scratch result b =
      Some (OkStatus, result OR push_bit (7 * k) (word_of_nat n :: 'a::len word), b') \<and> input_over bs b' (p + length (varint n))"
  using assms
proof (induction left arbitrary: n k scratch result b p)
  case 0
  then show ?case by simp
next
  case (Suc left)
  let ?c = "hd (varint n)"
  have d: "drop p bs = ?c # tl (varint n) @ rest" using Suc.prems(2) by (cases "varint n") auto
  then have p: "p < length bs" by (metis drop_all list.discI not_le)
  have d1: "drop (p + 1) bs = tl (varint n) @ rest" using d by (metis Suc_eq_plus1 drop_Suc list.sel(3) tl_drop)
  obtain s b1 where r: "InputBuffer_ReadNBytes_array 1 b = Some (s, take 1 (drop p bs), b1)" "input_over bs b1 (p + 1)" "s = OkStatus"
    using input_read_law [OF Suc.prems(1), of 1] p by (auto simp: moved_def move_status_def)
  have step: "ReadVarintFallback_loop (Suc left) k scratch result b =
      (let result = result OR push_bit (7 * k) (ucast ?c AND 127)
       in if ?c AND 128 = 0 then Some (OkStatus, result, b1) else ReadVarintFallback_loop left (k + 1) ?c result b1)"
    using r d by (simp add: Let_def)
  show ?case
  proof (cases "n < 128")
    case True
    then have "?c = word_of_nat n" "varint n = [?c]" by (simp_all add: varint.simps [of n])
    moreover have "(word_of_nat n :: byte) AND 128 = 0" using True and_128_of_nat [where 'a = 8, of n] by simp
    moreover have "ucast (word_of_nat n :: byte) AND 127 = (word_of_nat n :: 'a word)"
      using True by (simp add: ucast_byte_of_nat and_127_of_nat)
    ultimately show ?thesis using step r(2) by simp
  next
    case False
    then have c: "?c = word_of_nat (n mod 128 + 128)" "varint n = ?c # varint (n div 128)"
      by (simp_all add: varint.simps [of n])
    have "(n mod 128 + 128) div 128 = 1" by (simp add: div_nat_eqI)
    then have hi: "?c AND 128 \<noteq> 0" unfolding c(1) using and_128_of_nat [where 'a = 8, of "n mod 128 + 128"] by simp
    have lo: "ucast ?c AND 127 = (word_of_nat (n mod 128) :: 'a word)"
      unfolding c(1) by (subst ucast_byte_of_nat) (simp_all add: and_127_of_nat del: of_nat_add)
    have "drop (p + 1) bs = varint (n div 128) @ rest" "n div 128 < 128 ^ left"
      using d1 c(2) Suc.prems(3) by (simp_all add: div_less_iff_less_mult mult.commute) (metis list.sel(3))
    moreover have "0 < left" using False Suc.prems(3) by (cases left) auto
    ultimately obtain b' where "ReadVarintFallback_loop left (k + 1) ?c (result OR push_bit (7 * k) (word_of_nat (n mod 128))) b1 =
        Some (OkStatus, (result OR push_bit (7 * k) (word_of_nat (n mod 128))) OR push_bit (7 * (k + 1)) (word_of_nat (n div 128)), b')"
      "input_over bs b' (p + 1 + length (varint (n div 128)))"
      using Suc.IH [OF r(2), of "n div 128" "k + 1" ?c "result OR push_bit (7 * k) (word_of_nat (n mod 128))"] by blast
    moreover have "push_bit (7 * k) (word_of_nat n :: 'a word) =
        push_bit (7 * k) (word_of_nat (n mod 128)) OR push_bit (7 * (k + 1)) (word_of_nat (n div 128))"
      by (subst varint_step) (simp add: push_bit_or add.commute)
    moreover have "length (varint n) = 1 + length (varint (n div 128))" using c(2) by (metis length_Cons plus_1_eq_Suc)
    ultimately show ?thesis using step hi lo by (simp add: or.assoc add.assoc)
  qed
qed

lemma rest_varint:
  assumes "input_at bs b p q" "drop p bs = varint n @ rest" "length (varint n) \<le> ib_remain b"
  obtains rest' where "ib_rest b = varint n @ rest'" "ib_remain b = length (varint n) + length rest'"
proof -
  have "ib_rest b = varint n @ take (ib_remain b - length (varint n)) rest"
    using input_at_rest(1) [OF assms(1)] assms(2,3) by simp
  moreover have "length (ib_rest b) = ib_remain b" by (simp add: ib_rest_def)
  ultimately show ?thesis using that by (metis length_append)
qed

lemma read_varint32_law:
  assumes "input_over bs b p" "drop p bs = EncodeVarint32 v @ rest"
  shows "\<exists>b'. ReadVarint32 r b = Some (OkStatus, v, b') \<and> input_over bs b' (p + length (EncodeVarint32 v))"
proof -
  obtain q where b: "input_at bs b p q" using assms(1) by (auto simp: input_over_def)
  have d: "drop p bs = varint (unat v) @ rest" using assms(2) by (simp add: EncodeVarint32_varint)
  have len: "length (varint (unat v)) \<le> 5" using length_EncodeVarint_bounds(1) [of v] by (simp add: EncodeVarint32_varint)
  show ?thesis
  proof (cases "ib_pos b + kMaxVarint32Bytes \<le> length (ib_buf b)")
    case True
    then have "length (varint (unat v)) \<le> ib_remain b" using len by (simp add: kMaxVarint32Bytes_def)
    then obtain rest' where r: "ib_rest b = varint (unat v) @ rest'" "ib_remain b = length (varint (unat v)) + length rest'"
      using rest_varint [OF b d] by blast
    have "length (ib_buf b) - length rest' = ib_pos b + length (varint (unat v))" using r(2) True by linarith
    moreover have "GetVarint32Ptr (ib_rest b) = Some (v, rest')"
      using GetVarint32Ptr_EncodeVarint32 [of v rest'] r(1) by (simp add: EncodeVarint32_varint)
    ultimately have "ReadVarint32 r b = Some (OkStatus, v, b\<lparr>ib_pos := ib_pos b + length (varint (unat v))\<rparr>)"
      using True by (simp add: ReadVarint32_def)
    then show ?thesis
      using input_at_advance(2) [OF b, of "length (varint (unat v))"] r(2) by (auto simp: input_over_def EncodeVarint32_varint)
  next
    case False
    have "unat v < 128 ^ 5" using unat_u32_less [of v] by simp
    then obtain b' where "ReadVarintFallback_loop 5 0 0 0 b = Some (OkStatus, v, b')" "input_over bs b' (p + length (varint (unat v)))"
      using ReadVarintFallback_loop_varint [OF assms(1) d, where 'a = 32, of 5 0 0 0] by auto
    then show ?thesis
      using False by (simp add: ReadVarint32_def ReadVarint32Fallback_def ReadVarintFallback_def kMaxVarint32Bytes_def EncodeVarint32_varint)
  qed
qed

lemma read_varint64_law:
  assumes "input_over bs b p" "drop p bs = EncodeVarint64 v @ rest"
  shows "\<exists>b'. ReadVarint64 r b = Some (OkStatus, v, b') \<and> input_over bs b' (p + length (EncodeVarint64 v))"
proof -
  obtain q where b: "input_at bs b p q" using assms(1) by (auto simp: input_over_def)
  have d: "drop p bs = varint (unat v) @ rest" using assms(2) by (simp add: EncodeVarint64_varint)
  have len: "length (varint (unat v)) \<le> 10" using length_EncodeVarint_bounds(2) [of v] by (simp add: EncodeVarint64_varint)
  show ?thesis
  proof (cases "ib_pos b + kMaxVarint64Bytes \<le> length (ib_buf b)")
    case True
    then have "length (varint (unat v)) \<le> ib_remain b" using len by (simp add: kMaxVarint64Bytes_def)
    then obtain rest' where r: "ib_rest b = varint (unat v) @ rest'" "ib_remain b = length (varint (unat v)) + length rest'"
      using rest_varint [OF b d] by blast
    have "length (ib_buf b) - length rest' = ib_pos b + length (varint (unat v))" using r(2) True by linarith
    moreover have "GetVarint64Ptr (ib_rest b) = Some (v, rest')"
      using GetVarint64Ptr_EncodeVarint64 [of v rest'] r(1) by (simp add: EncodeVarint64_varint)
    ultimately have "ReadVarint64 r b = Some (OkStatus, v, b\<lparr>ib_pos := ib_pos b + length (varint (unat v))\<rparr>)"
      using True by (simp add: ReadVarint64_def)
    then show ?thesis
      using input_at_advance(2) [OF b, of "length (varint (unat v))"] r(2) by (auto simp: input_over_def EncodeVarint64_varint)
  next
    case False
    have "unat v < 128 ^ 10" using unat_u64_less [of v] by simp
    then obtain b' where "ReadVarintFallback_loop 10 0 0 0 b = Some (OkStatus, v, b')" "input_over bs b' (p + length (varint (unat v)))"
      using ReadVarintFallback_loop_varint [OF assms(1) d, where 'a = 64, of 10 0 0 0] by auto
    then show ?thesis
      using False by (simp add: ReadVarint64_def ReadVarint64Fallback_def ReadVarintFallback_def kMaxVarint64Bytes_def EncodeVarint64_varint)
  qed
qed

section \<open>Properties\<close>

text \<open>The class does not derive from the stream interface, but it has the methods of one, with \<open>Seek(0)\<close>
  for \<open>Reset\<close>.\<close>

definition input_buffer_ops :: "input_buffer stream_ops" where
  "input_buffer_ops = \<lparr>op_ReadNBytes = \<lambda>n result b. InputBuffer_ReadNBytes n b, op_SkipNBytes = InputBuffer_SkipNBytes,
     op_Tell = InputBuffer_Tell, op_Reset = InputBuffer_Seek 0\<rparr>"

interpretation inbuf: input_stream input_buffer_ops input_over
proof (unfold_locales, goal_cases)
  case (1 bs b p)
  then show ?case by (auto simp: input_over_def input_at_def)
next
  case (2 bs b p n result)
  then show ?case using input_read_law by (simp add: input_buffer_ops_def InputBuffer_ReadNBytes_def)
next
  case (3 bs b p n)
  then show ?case using input_skip_law by (simp add: input_buffer_ops_def)
next
  case (4 bs b p n result)
  then show ?case by (simp add: input_buffer_ops_def InputBuffer_ReadNBytes_def)
next
  case (5 bs b p n)
  then show ?case by (simp add: input_buffer_ops_def InputBuffer_SkipNBytes_def)
next
  case (6 bs b p)
  then show ?case using input_tell_law by (simp add: input_buffer_ops_def)
next
  case (7 bs b p)
  then show ?case using input_seek_law [OF 7, of 0] by (simp add: input_buffer_ops_def)
qed

lemma input_fresh:
  assumes "file_has file bs" "0 < buffer_bytes"
  shows "input_over bs (InputBuffer file buffer_bytes) 0"
  using assms by (auto simp: input_over_def input_at_def InputBuffer_def)

text \<open>On an \<open>InputBuffer\<close>, from any state of the buffer, \<open>Seek\<close> to a position of the file and a \<open>Hint\<close> of
  any size are not seen by the reads that follow: they return the bytes at that position, advance \<open>Tell\<close> by
  their number and report \<open>OUT_OF_RANGE\<close> exactly when the file ends before.\<close>

theorem input_buffer_seek_hint_read:
  assumes "input_over bs b p" "position \<le> length bs"
  shows "\<exists>b1. InputBuffer_Seek (int position) b = (OkStatus, b1) \<and>
    (\<exists>s b2. InputBuffer_ReadNBytes (int n) (snd (Hint h b1)) = Some (s, take n (drop position bs), b2) \<and>
      input_over bs b2 (min (position + n) (length bs)) \<and> InputBuffer_Tell b2 = int (min (position + n) (length bs)) \<and>
      (if position + n \<le> length bs then s = OkStatus else IsOutOfRange s))"
proof -
  obtain b1 where b1: "InputBuffer_Seek (int position) b = (OkStatus, b1)" "input_over bs b1 position"
    using input_seek_law [OF assms(1), of "int position"] assms(2) by auto
  have h: "input_over bs (snd (Hint h b1)) position" using input_hint_law [OF b1(2)] .
  obtain s b2 where r: "InputBuffer_ReadNBytes (int n) (snd (Hint h b1)) = Some (s, take n (drop position bs), b2)"
    "input_over bs b2 (min (position + n) (length bs))" "if position + n \<le> length bs then s = OkStatus else IsOutOfRange s"
    using input_read_law [OF h, of "int n"] by (auto simp: InputBuffer_ReadNBytes_def moved_def move_status_def)
  show ?thesis using b1(1) r input_tell_law [OF r(2)] by blast
qed

lemma input_buffer_seek_hint_read_witness:
  "\<exists>b1. InputBuffer_Seek (int 1) (InputBuffer (byte_file [1, 2, 3]) 2) = (OkStatus, b1) \<and>
    (\<exists>b2. InputBuffer_ReadNBytes (int 2) (snd (Hint 2 b1)) = Some (OkStatus, [2, 3], b2))"
proof -
  have "input_over [1, 2, 3] (InputBuffer (byte_file [1, 2, 3]) 2) 0" by (rule input_fresh [OF file_has_byte_file]) simp
  from input_buffer_seek_hint_read [OF this, of 1 2 2] show ?thesis by auto
qed

text \<open>A varint is read back as it was written, whether all of it is in the buffer, so that the fast path
  parses it there, or it is split between buffers and read byte by byte.\<close>

theorem read_varint_roundtrip:
  assumes "input_over bs b p"
  shows "(drop p bs = PutVarint32 [] v @ rest \<longrightarrow>
      (\<exists>b'. ReadVarint32 r b = Some (OkStatus, v, b') \<and> input_over bs b' (length bs - length rest))) \<and>
    (drop p bs = PutVarint64 [] w @ rest \<longrightarrow>
      (\<exists>b'. ReadVarint64 r' b = Some (OkStatus, w, b') \<and> input_over bs b' (length bs - length rest)))"
proof -
  have p: "length bs - length rest = p + length xs" if d: "drop p bs = xs @ rest" for xs
  proof -
    have "length bs - p = length xs + length rest" using arg_cong [OF d, of length] by simp
    moreover have "p \<le> length bs" using inbuf.over_le [OF assms] .
    ultimately show ?thesis by linarith
  qed
  show ?thesis
    using read_varint32_law [OF assms, of v rest r] read_varint64_law [OF assms, of w rest r'] p
    by (simp add: PutVarint32_def PutVarint64_def)
qed

lemma read_varint_roundtrip_witness:
  "input_over (PutVarint32 [] 300 @ [7]) (InputBuffer (byte_file (PutVarint32 [] 300 @ [7])) 1) 0 \<and>
   (\<exists>b'. ReadVarint32 0 (InputBuffer (byte_file (PutVarint32 [] 300 @ [7])) 1) = Some (OkStatus, 300, b'))"
proof -
  let ?bs = "PutVarint32 [] 300 @ [7]"
  have i: "input_over ?bs (InputBuffer (byte_file ?bs) 1) 0" by (rule input_fresh [OF file_has_byte_file]) simp
  have d: "drop 0 ?bs = ?bs" by (rule drop_0)
  show ?thesis using i read_varint_roundtrip [OF i, of 300 "[7]" 0] d by metis
qed

text \<open>\<open>ReadLine\<close> of \<open>InputBuffer\<close> returns the bytes up to the next newline less one carriage return at their
  end, and leaves the reader after the newline.  On a line with no other carriage return this is what
  \<open>ReadLine\<close> of a buffered stream at the same position returns; the two stop at the same place on every line.\<close>

theorem line_readers_agree:
  assumes "input_over bs b p" "buffered_over random_over bs b' p"
  shows "\<exists>s line b1. InputBuffer_ReadLine b = Some (s, line, b1) \<and>
    line = strip_cr (takeWhile (\<lambda>c. c \<noteq> 10) (drop p bs)) \<and>
    (if 10 \<in> set (drop p bs) \<or> line \<noteq> [] then s = OkStatus else IsOutOfRange s) \<and>
    input_over bs b1 (p + line_end (drop p bs)) \<and>
    (\<exists>s' line' b2. Buffered_ReadLine random_ops b' = Some (s', line', b2) \<and>
      buffered_over random_over bs b2 (p + line_end (drop p bs)) \<and>
      (13 \<notin> set line \<longrightarrow> line' = line \<and> (ok s \<longleftrightarrow> ok s')))"
proof -
  let ?t = "takeWhile (\<lambda>c. c \<noteq> 10) (drop p bs)"
  obtain q where "input_at bs b p q" using assms(1) by (auto simp: input_over_def)
  from InputBuffer_line_loop_law [OF this, of "[]"] obtain s b1 where l:
    "InputBuffer_ReadLine b = Some (s, strip_cr ?t, b1)" "input_over bs b1 (p + line_end (drop p bs))"
    "if 10 \<in> set (drop p bs) \<or> strip_cr ?t \<noteq> [] then s = OkStatus else IsOutOfRange s"
    by (auto simp: InputBuffer_ReadLine_def line_status_def)
  obtain s' b2 where r: "Buffered_ReadLine random_ops b' = Some (s', line_of (drop p bs), b2)"
    "buffered_over random_over bs b2 (p + line_end (drop p bs))" "line_status (line_of (drop p bs)) (drop p bs) s'"
    using random.read_line_law [OF assms(2), of False] by (auto simp: Buffered_ReadLine_def line_text_def)
  have same: "line_of (drop p bs) = strip_cr ?t" if "13 \<notin> set (strip_cr ?t)"
    unfolding line_of_def by (rule filter_cr [OF that])
  have "ok s \<longleftrightarrow> ok s'" if no: "13 \<notin> set (strip_cr ?t)"
    using l(3) r(3) unfolding same [OF no] by (auto simp: line_status_def ok_iff split: if_splits)
  then show ?thesis using same l(2,3) r(2) by (simp add: l(1) r(1))
qed

lemma line_readers_agree_witness:
  "\<exists>s line b1. InputBuffer_ReadLine (InputBuffer (byte_file [65, 13, 10, 66]) 2) = Some (s, line, b1) \<and> line = [65] \<and> s = OkStatus"
proof -
  let ?bs = "[65, 13, 10, 66] :: bytes"
  have i: "input_over ?bs (InputBuffer (byte_file ?bs) 2) 0" by (rule input_fresh [OF file_has_byte_file]) simp
  have b: "buffered_over random_over ?bs (BufferedInputStream (RandomAccessInputStream (byte_file ?bs)) 2) 0"
    using buffered_fresh [OF file_has_byte_file, of 2] unfolding buffered_over_def by auto
  show ?thesis using line_readers_agree [OF i b] by (auto simp: strip_cr_def)
qed

end
