(* ===== verification/Table_Iterator.thy ===== *)
theory Table_Iterator
  imports Prelude
begin

text \<open>
  The iterator interface of \<open>tsl/lib/io/iterator.h\<close>, its empty implementation and the
  cleanup list of \<open>iterator.cc\<close>.

  The locale \<open>table_iterator\<close> states the documented contract of the interface: an iterator over a
  sorted sequence of entries is positioned at one of them or past the last one.  Operations that
  read memory or loop return an option, \<open>None\<close> standing for a read outside the block or a loop
  that does not end; the contract requires them to return.  The block iterator, the empty iterator
  and the two-level iterator of a table are shown to satisfy it.
\<close>

type_synonym entry = "bytes \<times> bytes"

section \<open>The empty iterator\<close>

record empty_iterator =
  ei_status :: status

definition NewEmptyIterator :: empty_iterator where
  "NewEmptyIterator = \<lparr>ei_status = OkStatus\<rparr>"

definition NewErrorIterator :: "status \<Rightarrow> empty_iterator" where
  "NewErrorIterator s = \<lparr>ei_status = s\<rparr>"

section \<open>Cleanup functions\<close>

text \<open>The first registered function is stored in the iterator itself, later ones are linked in
  right behind it.  Destroying the iterator calls them in list order.\<close>

fun RegisterCleanup :: "'c list \<Rightarrow> 'c \<Rightarrow> 'c list" where
  "RegisterCleanup [] c = [c]"
| "RegisterCleanup (c0 # cs) c = c0 # c # cs"

fun run_cleanup :: "('c \<Rightarrow> 's \<Rightarrow> 's) \<Rightarrow> 'c list \<Rightarrow> 's \<Rightarrow> 's" where
  "run_cleanup call [] s = s"
| "run_cleanup call (c # cs) s = run_cleanup call cs (call c s)"

lemma RegisterCleanup_foldl:
  "foldl RegisterCleanup [] (c # cs) = c # rev cs"
proof -
  have "foldl RegisterCleanup (c # ds) cs = c # rev cs @ ds" for ds
    by (induction cs arbitrary: ds) simp_all
  then show ?thesis by simp
qed

section \<open>Sorted sequences of entries\<close>

abbreviation sorted_entries :: "entry list \<Rightarrow> bool" where
  "sorted_entries es \<equiv> sorted_wrt (\<lambda>a b. fst a < fst b) es"

text \<open>The position of the first key at or past a target.\<close>

definition lower_bound :: "entry list \<Rightarrow> bytes \<Rightarrow> nat" where
  "lower_bound es target = length (takeWhile (\<lambda>e. fst e < target) es)"

lemma lower_bound_le: "lower_bound es t \<le> length es"
  by (simp add: lower_bound_def length_takeWhile_le)

lemma lower_bound_before: "i < lower_bound es t \<Longrightarrow> fst (es ! i) < t"
  unfolding lower_bound_def by (metis nth_mem set_takeWhileD takeWhile_nth)

lemma lower_bound_at: "lower_bound es t < length es \<Longrightarrow> t \<le> fst (es ! lower_bound es t)"
  unfolding lower_bound_def by (metis nth_length_takeWhile not_less)

lemma sorted_entries_nth:
  "sorted_entries es \<Longrightarrow> i < j \<Longrightarrow> j < length es \<Longrightarrow> fst (es ! i) < fst (es ! j)"
  by (simp add: sorted_wrt_iff_nth_less)

lemma sorted_entries_last: "sorted_entries es \<Longrightarrow> e \<in> set es \<Longrightarrow> fst e \<le> fst (last es)"
  by (cases es rule: rev_cases) (auto simp: sorted_wrt_append intro: less_imp_le)

lemma lower_bound_eqI:
  assumes "sorted_entries es" "k \<le> length es" "\<And>i. i < k \<Longrightarrow> fst (es ! i) < t"
    "k < length es \<Longrightarrow> t \<le> fst (es ! k)"
  shows "lower_bound es t = k"
proof (rule antisym)
  show "lower_bound es t \<le> k"
  proof (rule ccontr)
    assume "\<not> lower_bound es t \<le> k"
    then show False
      using assms(4) lower_bound_before [of k es t] lower_bound_le [of es t] by auto
  qed
  show "k \<le> lower_bound es t"
  proof (rule ccontr)
    assume "\<not> k \<le> lower_bound es t"
    then show False
      using assms(2) assms(3) [of "lower_bound es t"] lower_bound_at [of es t] by auto
  qed
qed

lemma lower_bound_append:
  assumes "\<And>e. e \<in> set es \<Longrightarrow> fst e < t"
  shows "lower_bound (es @ fs) t = length es + lower_bound fs t"
  using assms by (simp add: lower_bound_def takeWhile_append2)

lemma lower_bound_append_le:
  "lower_bound es t < length es \<Longrightarrow> lower_bound (es @ fs) t = lower_bound es t"
  unfolding lower_bound_def by (metis nth_length_takeWhile nth_mem takeWhile_append1)

lemma map_of_sorted_entries:
  assumes "sorted_entries es"
  shows "map_of es k =
    (if lower_bound es k < length es \<and> fst (es ! lower_bound es k) = k
     then Some (snd (es ! lower_bound es k)) else None)"
proof -
  have dist: "distinct (map fst es)"
    using assms by (auto simp: distinct_conv_nth) (metis nat_neq_iff sorted_entries_nth order_less_irrefl)
  show ?thesis
  proof (cases "k \<in> fst ` set es")
    case True
    then obtain i where i: "i < length es" "fst (es ! i) = k" by (auto simp: in_set_conv_nth)
    then have "lower_bound es k = i"
      using assms by (intro lower_bound_eqI) (auto dest: sorted_entries_nth)
    moreover have "map_of es k = Some (snd (es ! i))"
      using dist i by (metis map_of_is_SomeI nth_mem prod.collapse)
    ultimately show ?thesis using i by simp
  next
    case False
    then have "map_of es k = None" by (simp add: map_of_eq_None_iff)
    moreover have "fst (es ! i) \<noteq> k" if "i < length es" for i
      using False that by (metis imageI nth_mem)
    ultimately show ?thesis by simp
  qed
qed

section \<open>The contract\<close>

text \<open>\<open>scan\<close> is the client loop that visits at most \<open>n\<close> entries from the current position on.\<close>

fun scan :: "('it \<Rightarrow> bool) \<Rightarrow> ('it \<Rightarrow> bytes option) \<Rightarrow> ('it \<Rightarrow> bytes option) \<Rightarrow> ('it \<Rightarrow> 'it option) \<Rightarrow>
    nat \<Rightarrow> 'it \<Rightarrow> entry list option" where
  "scan valid key val nxt 0 it = Some []"
| "scan valid key val nxt (Suc n) it =
     (if \<not> valid it then Some []
      else case key it of None \<Rightarrow> None | Some k \<Rightarrow>
        (case val it of None \<Rightarrow> None | Some v \<Rightarrow>
          (case nxt it of None \<Rightarrow> None | Some it' \<Rightarrow>
            map_option ((#) (k, v)) (scan valid key val nxt n it'))))"

locale table_iterator =
  fixes valid :: "'it \<Rightarrow> bool"
    and key :: "'it \<Rightarrow> bytes option"
    and val :: "'it \<Rightarrow> bytes option"
    and status_of :: "'it \<Rightarrow> status"
    and nxt :: "'it \<Rightarrow> 'it option"
    and seek :: "'it \<Rightarrow> bytes \<Rightarrow> 'it option"
    and seek_to_first :: "'it \<Rightarrow> 'it option"
    and over :: "entry list \<Rightarrow> 'it \<Rightarrow> bool"
    and pos :: "entry list \<Rightarrow> 'it \<Rightarrow> nat \<Rightarrow> bool"
  assumes over_sorted: "over es it \<Longrightarrow> sorted_entries es"
    and pos_over: "pos es it i \<Longrightarrow> over es it \<and> i \<le> length es"
    and pos_valid: "pos es it i \<Longrightarrow> valid it \<longleftrightarrow> i < length es"
    and pos_entry: "pos es it i \<Longrightarrow> i < length es \<Longrightarrow> key it = Some (fst (es ! i)) \<and> val it = Some (snd (es ! i))"
    and pos_status: "pos es it i \<Longrightarrow> status_of it = OkStatus"
    and pos_nxt: "pos es it i \<Longrightarrow> i < length es \<Longrightarrow> \<exists>it'. nxt it = Some it' \<and> pos es it' (Suc i)"
    and over_seek: "over es it \<Longrightarrow> \<exists>it'. seek it t = Some it' \<and> pos es it' (lower_bound es t)"
    and over_seek_to_first: "over es it \<Longrightarrow> \<exists>it'. seek_to_first it = Some it' \<and> pos es it' 0"
begin

lemma scan_pos: "pos es it i \<Longrightarrow> scan valid key val nxt n it = Some (take n (drop i es))"
proof (induction n arbitrary: it i)
  case (Suc n)
  show ?case
  proof (cases "i < length es")
    case True
    then obtain it' where "nxt it = Some it'" "pos es it' (Suc i)"
      using pos_nxt [OF Suc.prems] by blast
    moreover have "drop i es = es ! i # drop (Suc i) es" using True by (simp add: Cons_nth_drop_Suc)
    ultimately show ?thesis
      using True pos_valid [OF Suc.prems] pos_entry [OF Suc.prems True] Suc.IH by simp
  qed (use pos_valid [OF Suc.prems] in simp)
qed simp

lemma scan_all:
  assumes "over es it" "length es \<le> n"
  shows "Option.bind (seek_to_first it) (scan valid key val nxt n) = Some es"
  using over_seek_to_first [OF assms(1)] assms(2) scan_pos by fastforce

lemma scan_from:
  assumes "over es it" "length es \<le> n"
  shows "Option.bind (seek it t) (scan valid key val nxt n) = Some (filter (\<lambda>e. t \<le> fst e) es)"
proof -
  obtain it' where it': "seek it t = Some it'" "pos es it' (lower_bound es t)"
    using over_seek [OF assms(1)] by blast
  have srt: "sorted_entries es" using assms(1) by (rule over_sorted)
  have "filter (\<lambda>e. t \<le> fst e) es = drop (lower_bound es t) es"
  proof -
    have "filter (\<lambda>e. t \<le> fst e) (takeWhile (\<lambda>e. fst e < t) es) = []"
      by (auto simp: filter_empty_conv dest!: set_takeWhileD)
    moreover have "filter (\<lambda>e. t \<le> fst e) (dropWhile (\<lambda>e. fst e < t) es) = dropWhile (\<lambda>e. fst e < t) es"
    proof (cases "dropWhile (\<lambda>e. fst e < t) es")
      case (Cons a rest)
      then have "t \<le> fst a" by (metis dropWhile_eq_Cons_conv not_less)
      moreover have "sorted_entries (a # rest)"
        using srt Cons by (metis sorted_wrt_append takeWhile_dropWhile_id)
      ultimately show ?thesis using Cons by (auto simp: filter_id_conv)
    next
      case Nil
      then show ?thesis by (simp only: filter.simps)
    qed
    ultimately show ?thesis
      by (metis append_Nil dropWhile_eq_drop filter_append lower_bound_def takeWhile_dropWhile_id)
  qed
  then show ?thesis
    using it' scan_pos [OF it'(2), of n] assms(2) by simp
qed

lemma seek_get:
  assumes "over es it" "seek it t = Some it'"
  shows "map_of es t = (if valid it' \<and> key it' = Some t then val it' else None)"
proof -
  have p: "pos es it' (lower_bound es t)" using over_seek [OF assms(1), of t] assms(2) by simp
  have s: "sorted_entries es" using assms(1) by (rule over_sorted)
  show ?thesis
    unfolding map_of_sorted_entries [OF s] using pos_valid [OF p] pos_entry [OF p] by auto
qed

end

interpretation empty: table_iterator
  "\<lambda>it. False" "\<lambda>it. Some []" "\<lambda>it. Some []" ei_status "\<lambda>it. Some it" "\<lambda>it t. Some it" "\<lambda>it. Some it"
  "\<lambda>es it. es = [] \<and> it = NewEmptyIterator" "\<lambda>es it i. es = [] \<and> it = NewEmptyIterator \<and> i = 0"
  by unfold_locales (auto simp: NewEmptyIterator_def lower_bound_def)

end
