(* ===== verification/Block.thy ===== *)
theory Block
  imports Coding Table_Iterator
begin

text \<open>
  The prefix-compressed block of \<open>tsl/lib/io\<close>: the builder of \<open>block_builder.cc\<close> and the
  reader of \<open>block.cc\<close>.

  Pointers into the block are offsets from \<open>data_\<close>; \<open>uint32\<close> fields are 32-bit words, so every
  narrowing and every wrap-around of the code is in the definitions.  A \<open>CHECK\<close> that fails and a
  read outside the block are the value \<open>None\<close>, as is a search loop that never ends; an \<open>assert\<close>
  is compiled out of release builds and appears as a hypothesis where a theorem needs it.

  The specification is \<open>layout\<close>: a byte string holds a sequence of entries, each compressed
  against its predecessor, and an array of restart points.  What the builder emits has this
  layout, and on such a block the iterator visits exactly the entries that were added and \<open>Seek\<close>
  finds the first key at or past its target.
\<close>

section \<open>Options\<close>

datatype CompressionType = kNoCompression | kSnappyCompression

record options =
  block_size :: nat
  block_restart_interval :: int
  compression :: CompressionType

section \<open>The builder\<close>

record block_builder =
  bb_buffer :: bytes
  bb_restarts :: "u32 list"
  bb_counter :: int
  bb_finished :: bool
  bb_last_key :: bytes

definition BlockBuilder :: block_builder where
  "BlockBuilder = \<lparr>bb_buffer = [], bb_restarts = [0], bb_counter = 0, bb_finished = False, bb_last_key = []\<rparr>"

definition BlockBuilder_Reset :: "block_builder \<Rightarrow> block_builder" where
  "BlockBuilder_Reset b =
     b\<lparr>bb_buffer := [], bb_restarts := [0], bb_counter := 0, bb_finished := False, bb_last_key := []\<rparr>"

definition BlockBuilder_empty :: "block_builder \<Rightarrow> bool" where
  "BlockBuilder_empty b \<longleftrightarrow> bb_buffer b = []"

definition CurrentSizeEstimate :: "block_builder \<Rightarrow> nat" where
  "CurrentSizeEstimate b = length (bb_buffer b) + length (bb_restarts b) * 4 + 4"

definition BlockBuilder_Finish :: "block_builder \<Rightarrow> (bytes \<times> block_builder) option" where
  "BlockBuilder_Finish b =
     (if length (bb_restarts b) > UINT32_MAX then None
      else
        let buffer = foldl PutFixed32 (bb_buffer b) (bb_restarts b);
            buffer = PutFixed32 buffer (word_of_nat (length (bb_restarts b)))
        in Some (buffer, b\<lparr>bb_buffer := buffer, bb_finished := True\<rparr>))"

text \<open>The loop that advances \<open>shared\<close> while both keys have the same byte there.\<close>

fun shared_prefix :: "bytes \<Rightarrow> bytes \<Rightarrow> nat" where
  "shared_prefix (x # xs) (y # ys) = (if x = y then Suc (shared_prefix xs ys) else 0)"
| "shared_prefix _ _ = 0"

definition BlockBuilder_Add :: "options \<Rightarrow> block_builder \<Rightarrow> bytes \<Rightarrow> bytes \<Rightarrow> block_builder option" where
  "BlockBuilder_Add opt b key val =
     (let compress = bb_counter b < block_restart_interval opt;
          shared = (if compress then shared_prefix (bb_last_key b) key else 0);
          b = (if compress then b
               else b\<lparr>bb_restarts := bb_restarts b @ [word_of_nat (length (bb_buffer b))], bb_counter := 0\<rparr>);
          non_shared = length key - shared
      in if (\<not> compress \<and> length (bb_buffer b) > UINT32_MAX) \<or> shared > UINT32_MAX
            \<or> non_shared > UINT32_MAX \<or> length val > UINT32_MAX
         then None
         else
           let buffer = PutVarint32 (bb_buffer b) (word_of_nat shared);
               buffer = PutVarint32 buffer (word_of_nat non_shared);
               buffer = PutVarint32 buffer (word_of_nat (length val));
               buffer = buffer @ drop shared key;
               buffer = buffer @ val
           in Some (b\<lparr>bb_buffer := buffer,
                      bb_last_key := take shared (bb_last_key b) @ drop shared key,
                      bb_counter := bb_counter b + 1\<rparr>))"

section \<open>The block\<close>

record block =
  blk_data :: bytes
  blk_size :: nat
  blk_restart_offset :: u32

definition NumRestarts :: "bytes \<Rightarrow> nat \<Rightarrow> u32" where
  "NumRestarts data sz = DecodeFixed32 (drop (sz - 4) data)"

definition Block :: "bytes \<Rightarrow> block" where
  "Block contents =
     (let sz = length contents; error = \<lparr>blk_data = contents, blk_size = 0, blk_restart_offset = 0\<rparr> in
      if sz < 4 then error
      else
        let max_restarts_allowed = (sz - 4) div 4; n = NumRestarts contents sz in
        if unat n > max_restarts_allowed then error
        else \<lparr>blk_data = contents, blk_size = sz,
              blk_restart_offset = word_of_nat (sz - unat (1 + n) * 4)\<rparr>)"

text \<open>\<open>DecodeEntry\<close> decodes the entry header at offset \<open>p\<close> and returns the three lengths and the
  offset of the key delta.  The sum of the two lengths is a \<open>uint32\<close> sum.\<close>

definition DecodeEntry :: "bytes \<Rightarrow> nat \<Rightarrow> nat \<Rightarrow> (u32 \<times> u32 \<times> u32 \<times> nat) option" where
  "DecodeEntry data p limit =
     (if limit < p + 3 then None
      else
        let s = take (limit - p) (drop p data);
            shared = ucast (s ! 0) :: u32; non_shared = ucast (s ! 1) :: u32; value_length = ucast (s ! 2) :: u32;
            decoded =
              (if shared OR non_shared OR value_length < 128
               then Some (shared, non_shared, value_length, drop 3 s)
               else case GetVarint32Ptr s of None \<Rightarrow> None | Some (shared, s) \<Rightarrow>
                 (case GetVarint32Ptr s of None \<Rightarrow> None | Some (non_shared, s) \<Rightarrow>
                   (case GetVarint32Ptr s of None \<Rightarrow> None | Some (value_length, s) \<Rightarrow>
                     Some (shared, non_shared, value_length, s))))
        in case decoded of None \<Rightarrow> None | Some (shared, non_shared, value_length, s) \<Rightarrow>
             if word_of_nat (length s) < non_shared + value_length then None
             else Some (shared, non_shared, value_length, limit - length s))"

text \<open>A read of \<open>n\<close> bytes at an offset.\<close>

definition read_at :: "bytes \<Rightarrow> nat \<Rightarrow> nat \<Rightarrow> bytes option" where
  "read_at data off n = (if off + n \<le> length data then Some (take n (drop off data)) else None)"

section \<open>The block iterator\<close>

text \<open>\<open>value_\<close> is the offset and the length of the slice, \<open>None\<close> the null slice.\<close>

record iter =
  it_data :: bytes
  it_restarts :: u32
  it_num_restarts :: u32
  it_current :: u32
  it_restart_index :: u32
  it_key :: bytes
  it_value :: "(nat \<times> nat) option"
  it_status :: status

definition NextEntryOffset :: "iter \<Rightarrow> u32 option" where
  "NextEntryOffset it = map_option (\<lambda>(off, n). word_of_nat (off + n)) (it_value it)"

definition GetRestartPoint :: "iter \<Rightarrow> u32 \<Rightarrow> u32 option" where
  "GetRestartPoint it index =
     map_option DecodeFixed32 (read_at (it_data it) (unat (it_restarts it) + unat index * 4) 4)"

definition SeekToRestartPoint :: "iter \<Rightarrow> u32 \<Rightarrow> iter option" where
  "SeekToRestartPoint it index =
     map_option (\<lambda>offset. it\<lparr>it_key := [], it_restart_index := index, it_value := Some (unat offset, 0)\<rparr>)
       (GetRestartPoint it index)"

definition Iter :: "bytes \<Rightarrow> u32 \<Rightarrow> u32 \<Rightarrow> iter" where
  "Iter data restarts num_restarts =
     \<lparr>it_data = data, it_restarts = restarts, it_num_restarts = num_restarts, it_current = restarts,
      it_restart_index = num_restarts, it_key = [], it_value = None, it_status = OkStatus\<rparr>"

definition Iter_Valid :: "iter \<Rightarrow> bool" where
  "Iter_Valid it \<longleftrightarrow> it_current it < it_restarts it"

definition Iter_key :: "iter \<Rightarrow> bytes option" where
  "Iter_key it = Some (it_key it)"

definition Iter_value :: "iter \<Rightarrow> bytes option" where
  "Iter_value it = (case it_value it of None \<Rightarrow> Some [] | Some (off, n) \<Rightarrow> read_at (it_data it) off n)"

definition CorruptionError :: "iter \<Rightarrow> iter" where
  "CorruptionError it =
     it\<lparr>it_current := it_restarts it, it_restart_index := it_num_restarts it,
        it_status := Error DATA_LOSS ''bad entry in block'', it_key := [], it_value := None\<rparr>"

text \<open>The loop that moves \<open>restart_index_\<close> up to the restart block of \<open>current_\<close>.\<close>

function advance_restart_index :: "iter \<Rightarrow> iter option" where
  "advance_restart_index it =
     (if it_restart_index it + 1 < it_num_restarts it then
        (case GetRestartPoint it (it_restart_index it + 1) of
           None \<Rightarrow> None
         | Some r \<Rightarrow>
             if r < it_current it
             then advance_restart_index (it\<lparr>it_restart_index := it_restart_index it + 1\<rparr>)
             else Some it)
      else Some it)"
  by pat_completeness auto
termination
proof (relation "measure (\<lambda>it. if it_restart_index it = - 1 then Suc (unat (it_num_restarts it))
    else unat (it_num_restarts it) - unat (it_restart_index it))", goal_cases)
  case (2 it r)
  have "unat (it_restart_index it + 1) = Suc (unat (it_restart_index it))" if "it_restart_index it \<noteq> - 1"
    using that by (rule unat_Suc_word)
  moreover have "it_restart_index it + 1 \<noteq> - 1" using 2(1) word_order.extremum_strict by metis
  ultimately show ?case using 2 by (auto simp: word_less_nat_alt)
qed simp

declare advance_restart_index.simps [simp del]

definition ParseNextKey :: "iter \<Rightarrow> (bool \<times> iter) option" where
  "ParseNextKey it =
     (case NextEntryOffset it of
        None \<Rightarrow> None
      | Some current \<Rightarrow>
          let it = it\<lparr>it_current := current\<rparr>;
              p = unat current; limit = unat (it_restarts it)
          in if p \<ge> limit
             then Some (False, it\<lparr>it_current := it_restarts it, it_restart_index := it_num_restarts it\<rparr>)
             else
               case DecodeEntry (it_data it) p limit of
                 None \<Rightarrow> Some (False, CorruptionError it)
               | Some (shared, non_shared, value_length, p) \<Rightarrow>
                   if length (it_key it) < unat shared then Some (False, CorruptionError it)
                   else
                     case read_at (it_data it) p (unat non_shared) of
                       None \<Rightarrow> None
                     | Some delta \<Rightarrow>
                         map_option (Pair True) (advance_restart_index
                           (it\<lparr>it_key := take (unat shared) (it_key it) @ delta,
                               it_value := Some (p + unat non_shared, unat value_length)\<rparr>)))"

definition Iter_Next :: "iter \<Rightarrow> iter option" where
  "Iter_Next it = map_option snd (ParseNextKey it)"

text \<open>The two loops of \<open>Seek\<close>.  The binary search returns the restart index it ends at,
  \<open>Some None\<close> when it meets a corrupted entry.\<close>

partial_function (option) Seek_bsearch :: "iter \<Rightarrow> bytes \<Rightarrow> u32 \<Rightarrow> u32 \<Rightarrow> u32 option option" where
  "Seek_bsearch it target left right =
     (if left < right then
        let mid = left + (right - left + 1) div 2 in
        Option.bind (GetRestartPoint it mid) (\<lambda>region_offset.
          case DecodeEntry (it_data it) (unat region_offset) (unat (it_restarts it)) of
            None \<Rightarrow> Some None
          | Some (shared, non_shared, value_length, key_ptr) \<Rightarrow>
              if shared \<noteq> 0 then Some None
              else
                Option.bind (read_at (it_data it) key_ptr (unat non_shared)) (\<lambda>mid_key.
                  if mid_key < target then Seek_bsearch it target mid right
                  else Seek_bsearch it target left (mid - 1)))
      else Some (Some left))"

partial_function (option) Seek_linear :: "iter \<Rightarrow> bytes \<Rightarrow> iter option" where
  "Seek_linear it target =
     Option.bind (ParseNextKey it) (\<lambda>(found, it).
       if \<not> found then Some it
       else if target \<le> it_key it then Some it
       else Seek_linear it target)"

definition Iter_Seek :: "iter \<Rightarrow> bytes \<Rightarrow> iter option" where
  "Iter_Seek it target =
     Option.bind (Seek_bsearch it target 0 (it_num_restarts it - 1)) (\<lambda>r.
       case r of
         None \<Rightarrow> Some (CorruptionError it)
       | Some left \<Rightarrow> Option.bind (SeekToRestartPoint it left) (\<lambda>it. Seek_linear it target))"

definition Iter_SeekToFirst :: "iter \<Rightarrow> iter option" where
  "Iter_SeekToFirst it = Option.bind (SeekToRestartPoint it 0) (\<lambda>it. map_option snd (ParseNextKey it))"

section \<open>Iterators over a block\<close>

text \<open>What \<open>NewIterator\<close> returns: the iterator above or an empty one.\<close>

datatype block_iterator = BlockIter iter | NoEntries empty_iterator

definition Block_NewIterator :: "block \<Rightarrow> block_iterator" where
  "Block_NewIterator b =
     (if blk_size b < 4 then NoEntries (NewErrorIterator (Error DATA_LOSS ''bad block contents''))
      else
        let num_restarts = NumRestarts (blk_data b) (blk_size b) in
        if num_restarts = 0 then NoEntries NewEmptyIterator
        else BlockIter (Iter (blk_data b) (blk_restart_offset b) num_restarts))"

fun Iterator_Valid :: "block_iterator \<Rightarrow> bool" where
  "Iterator_Valid (BlockIter it) = Iter_Valid it"
| "Iterator_Valid (NoEntries e) = False"

fun Iterator_key :: "block_iterator \<Rightarrow> bytes option" where
  "Iterator_key (BlockIter it) = Iter_key it"
| "Iterator_key (NoEntries e) = Some []"

fun Iterator_value :: "block_iterator \<Rightarrow> bytes option" where
  "Iterator_value (BlockIter it) = Iter_value it"
| "Iterator_value (NoEntries e) = Some []"

fun Iterator_status :: "block_iterator \<Rightarrow> status" where
  "Iterator_status (BlockIter it) = it_status it"
| "Iterator_status (NoEntries e) = ei_status e"

fun Iterator_Next :: "block_iterator \<Rightarrow> block_iterator option" where
  "Iterator_Next (BlockIter it) = map_option BlockIter (Iter_Next it)"
| "Iterator_Next (NoEntries e) = Some (NoEntries e)"

fun Iterator_Seek :: "block_iterator \<Rightarrow> bytes \<Rightarrow> block_iterator option" where
  "Iterator_Seek (BlockIter it) t = map_option BlockIter (Iter_Seek it t)"
| "Iterator_Seek (NoEntries e) t = Some (NoEntries e)"

fun Iterator_SeekToFirst :: "block_iterator \<Rightarrow> block_iterator option" where
  "Iterator_SeekToFirst (BlockIter it) = map_option BlockIter (Iter_SeekToFirst it)"
| "Iterator_SeekToFirst (NoEntries e) = Some (NoEntries e)"

section \<open>Specification: the layout of a block\<close>

definition entry_code :: "nat \<Rightarrow> entry \<Rightarrow> bytes" where
  "entry_code s e =
     EncodeVarint32 (word_of_nat s) @ EncodeVarint32 (word_of_nat (length (fst e) - s)) @
     EncodeVarint32 (word_of_nat (length (snd e))) @ drop s (fst e) @ snd e"

definition entries_code :: "nat list \<Rightarrow> entry list \<Rightarrow> bytes" where
  "entries_code ss es = concat (map2 entry_code ss es)"

definition entry_offset :: "nat list \<Rightarrow> entry list \<Rightarrow> nat \<Rightarrow> nat" where
  "entry_offset ss es i = length (entries_code (take i ss) (take i es))"

text \<open>\<open>ss\<close> gives for every entry how many bytes of its key are taken from the key before it,
  \<open>rs\<close> the positions of the entries that are restart points.\<close>

definition shares_ok :: "nat list \<Rightarrow> entry list \<Rightarrow> bool" where
  "shares_ok ss es \<longleftrightarrow> length ss = length es \<and>
     (\<forall>i < length es. ss ! i \<le> length (fst (es ! i)) \<and>
        (if i = 0 then ss ! i = 0
         else ss ! i \<le> length (fst (es ! (i - 1))) \<and>
              take (ss ! i) (fst (es ! (i - 1))) = take (ss ! i) (fst (es ! i))))"

definition restarts_ok :: "nat list \<Rightarrow> nat list \<Rightarrow> bool" where
  "restarts_ok rs ss \<longleftrightarrow> rs \<noteq> [] \<and> rs ! 0 = 0 \<and>
     (\<forall>j < length rs. 0 < j \<longrightarrow> rs ! j < length ss \<and> ss ! (rs ! j) = 0)"

definition layout :: "bytes \<Rightarrow> entry list \<Rightarrow> nat list \<Rightarrow> nat list \<Rightarrow> bool" where
  "layout d es ss rs \<longleftrightarrow> shares_ok ss es \<and> restarts_ok rs ss \<and> length d < 2 ^ 32 \<and>
     d = entries_code ss es @ concat (map (\<lambda>r. EncodeFixed32 (word_of_nat (entry_offset ss es r))) rs) @
         EncodeFixed32 (word_of_nat (length rs))"

section \<open>The builder emits the layout\<close>

definition built :: "block_builder \<Rightarrow> entry list \<Rightarrow> bool" where
  "built b es \<longleftrightarrow> (\<exists>ss rs. shares_ok ss es \<and> restarts_ok rs ss \<and> bb_buffer b = entries_code ss es \<and>
     bb_restarts b = map (\<lambda>r. word_of_nat (entry_offset ss es r)) rs \<and> length rs \<le> Suc (length es) \<and>
     bb_last_key b = (if es = [] then [] else fst (last es)))"

lemma entries_code_append:
  "length ss = length es \<Longrightarrow> entries_code (ss @ ss') (es @ es') = entries_code ss es @ entries_code ss' es'"
  by (simp add: entries_code_def)

lemma entry_offset_append:
  "length ss = length es \<Longrightarrow> i \<le> length es \<Longrightarrow> entry_offset (ss @ ss') (es @ es') i = entry_offset ss es i"
  by (simp add: entry_offset_def)

lemma entry_offset_end: "length ss = length es \<Longrightarrow> entry_offset ss es (length es) = length (entries_code ss es)"
  by (simp add: entry_offset_def)

lemma shared_prefix_le: "shared_prefix xs ys \<le> length xs" "shared_prefix xs ys \<le> length ys"
  by (induction xs ys rule: shared_prefix.induct) auto

lemma shared_prefix_take: "take (shared_prefix xs ys) xs = take (shared_prefix xs ys) ys"
  by (induction xs ys rule: shared_prefix.induct) auto

lemma built_BlockBuilder: "built BlockBuilder []"
  unfolding built_def
  by (intro exI [of _ "[]"] exI [of _ "[0]"])
     (simp add: BlockBuilder_def shares_ok_def restarts_ok_def entries_code_def entry_offset_def)

lemma shares_ok_snoc:
  assumes "shares_ok ss es" "s \<le> length (fst e)"
    and "es = [] \<Longrightarrow> s = 0"
    and "es \<noteq> [] \<Longrightarrow> s \<le> length (fst (last es)) \<and> take s (fst (last es)) = take s (fst e)"
  shows "shares_ok (ss @ [s]) (es @ [e])"
  using assms by (auto simp: shares_ok_def nth_append less_Suc_eq last_conv_nth)

lemma restarts_ok_mono:
  "restarts_ok rs ss \<Longrightarrow> restarts_ok rs (ss @ [s])"
  by (auto simp: restarts_ok_def nth_append)

lemma restarts_ok_snoc:
  "restarts_ok rs ss \<Longrightarrow> restarts_ok (rs @ [length ss]) (ss @ [0])"
  by (auto simp: restarts_ok_def nth_append less_Suc_eq)

lemma restarts_ok_le: "restarts_ok rs ss \<Longrightarrow> r \<in> set rs \<Longrightarrow> r \<le> length ss"
  by (fastforce simp: restarts_ok_def in_set_conv_nth)

definition add_shared :: "options \<Rightarrow> block_builder \<Rightarrow> bytes \<Rightarrow> nat" where
  "add_shared opt b k = (if bb_counter b < block_restart_interval opt then shared_prefix (bb_last_key b) k else 0)"

lemma Add_SomeD:
  assumes "BlockBuilder_Add opt b k v = Some b'"
  shows "bb_buffer b' = bb_buffer b @ entry_code (add_shared opt b k) (k, v)"
    "bb_last_key b' = take (add_shared opt b k) (bb_last_key b) @ drop (add_shared opt b k) k"
    "bb_restarts b' = bb_restarts b @
       (if bb_counter b < block_restart_interval opt then [] else [word_of_nat (length (bb_buffer b))])"
  using assms unfolding BlockBuilder_Add_def Let_def add_shared_def
  by (auto simp: entry_code_def PutVarint32_def split: if_splits)

lemma built_Add:
  assumes "built b es" "BlockBuilder_Add opt b k v = Some b'"
  shows "built b' (es @ [(k, v)])"
proof -
  from assms(1) obtain ss rs where b: "shares_ok ss es" "restarts_ok rs ss"
    "bb_buffer b = entries_code ss es" "bb_restarts b = map (\<lambda>r. word_of_nat (entry_offset ss es r)) rs"
    "length rs \<le> Suc (length es)" "bb_last_key b = (if es = [] then [] else fst (last es))"
    unfolding built_def by blast
  then have len: "length ss = length es" by (simp add: shares_ok_def)
  have offs: "map (\<lambda>r. word_of_nat (entry_offset (ss @ [s]) (es @ [(k, v)]) r)) rs = (bb_restarts b :: u32 list)" for s
    using restarts_ok_le [OF b(2)] len by (simp add: b(4) entry_offset_append)
  define compress where "compress \<longleftrightarrow> bb_counter b < block_restart_interval opt"
  define s where "s = add_shared opt b k"
  define rs' where "rs' = (if compress then rs else rs @ [length es])"
  note b' = Add_SomeD [OF assms(2), folded compress_def s_def]
  have pre: "s \<le> length k" "s \<le> length (bb_last_key b)" "take s (bb_last_key b) = take s k"
    using shared_prefix_le [of "bb_last_key b" k] shared_prefix_take [of "bb_last_key b" k] by (simp_all add: s_def add_shared_def)
  have "shares_ok (ss @ [s]) (es @ [(k, v)])"
    using b(1,6) pre by (intro shares_ok_snoc) auto
  moreover have "restarts_ok rs' (ss @ [s])"
    using restarts_ok_mono [OF b(2), of s] restarts_ok_snoc [OF b(2)] len
    by (cases compress) (simp_all add: rs'_def s_def add_shared_def compress_def)
  moreover have "bb_restarts b' = map (\<lambda>r. word_of_nat (entry_offset (ss @ [s]) (es @ [(k, v)]) r)) rs'"
    using offs [of s] len entry_offset_append [of ss es "length es" "[s]" "[(k, v)]"] b(3)
    by (simp add: b'(3) rs'_def entry_offset_end)
  moreover have "bb_buffer b' = entries_code (ss @ [s]) (es @ [(k, v)])"
    using len by (simp add: b' b(3) entries_code_append, simp add: entries_code_def)
  moreover have "bb_last_key b' = k" using pre by (simp add: b')
  moreover have "length rs' \<le> Suc (length (es @ [(k, v)]))" using b(5) by (simp add: rs'_def)
  ultimately show ?thesis unfolding built_def by (intro exI [of _ "ss @ [s]"] exI [of _ rs']) simp
qed

text \<open>A client adds the entries in order and finishes the block.\<close>

fun add_entries :: "options \<Rightarrow> block_builder \<Rightarrow> entry list \<Rightarrow> block_builder option" where
  "add_entries opt b [] = Some b"
| "add_entries opt b ((k, v) # es) = Option.bind (BlockBuilder_Add opt b k v) (\<lambda>b. add_entries opt b es)"

definition build_block :: "options \<Rightarrow> entry list \<Rightarrow> bytes option" where
  "build_block opt es =
     Option.bind (add_entries opt BlockBuilder es) (\<lambda>b. map_option fst (BlockBuilder_Finish b))"

lemma built_add_entries:
  "built b fs \<Longrightarrow> add_entries opt b es = Some b' \<Longrightarrow> built b' (fs @ es)"
proof (induction opt b es arbitrary: fs rule: add_entries.induct)
  case (2 opt b k v es)
  then obtain b1 where "BlockBuilder_Add opt b k v = Some b1" "add_entries opt b1 es = Some b'"
    by (auto split: bind_splits)
  with 2 built_Add show ?case by fastforce
qed simp

lemma foldl_PutFixed32: "foldl PutFixed32 buf rs = buf @ concat (map EncodeFixed32 rs)"
  by (induction rs arbitrary: buf) (simp_all add: PutFixed32_def)

lemma built_Finish:
  assumes "built b es" "BlockBuilder_Finish b = Some (d, b')" "length d < 2 ^ 32"
  shows "\<exists>ss rs. layout d es ss rs"
proof -
  from assms(1) obtain ss rs where b: "shares_ok ss es" "restarts_ok rs ss"
    "bb_buffer b = entries_code ss es" "bb_restarts b = map (\<lambda>r. word_of_nat (entry_offset ss es r)) rs"
    unfolding built_def by blast
  then show ?thesis
    using assms(2,3)
    by (intro exI [of _ ss] exI [of _ rs])
       (auto simp: layout_def BlockBuilder_Finish_def Let_def foldl_PutFixed32 PutFixed32_def comp_def
         split: if_splits)
qed

text \<open>Adding and finishing succeed as long as the block stays below four gigabytes.\<close>

definition block_bound :: "entry list \<Rightarrow> nat" where
  "block_bound es = 8 + sum_list (map (\<lambda>(k, v). length k + length v + 19) es)"

lemma length_entry_code: "length (entry_code s e) \<le> length (fst e) + length (snd e) + 15"
  using length_EncodeVarint_bounds(1) [of "word_of_nat s"]
    length_EncodeVarint_bounds(1) [of "word_of_nat (length (fst e) - s)"]
    length_EncodeVarint_bounds(1) [of "word_of_nat (length (snd e))"]
  by (simp add: entry_code_def) linarith

lemma Add_total:
  assumes "length (bb_buffer b) < 2 ^ 32" "length k < 2 ^ 32" "length v < 2 ^ 32"
  obtains b' where "BlockBuilder_Add opt b k v = Some b'"
    "length (bb_buffer b') \<le> length (bb_buffer b) + length k + length v + 15"
    "length (bb_restarts b') \<le> Suc (length (bb_restarts b))"
proof -
  have sp: "shared_prefix (bb_last_key b) k < 2 ^ 32"
    using shared_prefix_le(2) [of "bb_last_key b" k] assms(2) by simp
  have "BlockBuilder_Add opt b k v \<noteq> None"
    using assms sp by (simp add: BlockBuilder_Add_def Let_def) linarith
  then obtain b' where b': "BlockBuilder_Add opt b k v = Some b'" by blast
  then show ?thesis
    using that length_entry_code [of "add_shared opt b k" "(k, v)"] by (auto simp: Add_SomeD [OF b'])
qed

lemma add_entries_total:
  assumes "length (bb_buffer b) + 4 * length (bb_restarts b) + block_bound es < 2 ^ 32"
  shows "\<exists>b'. add_entries opt b es = Some b' \<and>
    length (bb_buffer b') + 4 * length (bb_restarts b') + 8 \<le> length (bb_buffer b) + 4 * length (bb_restarts b) + block_bound es"
  using assms
proof (induction opt b es rule: add_entries.induct)
  case (2 opt b k v es)
  obtain b1 where b1: "BlockBuilder_Add opt b k v = Some b1"
    "length (bb_buffer b1) \<le> length (bb_buffer b) + length k + length v + 15"
    "length (bb_restarts b1) \<le> Suc (length (bb_restarts b))"
    by (rule Add_total [of b k v opt]) (use "2.prems" in \<open>simp_all add: block_bound_def\<close>)
  with 2(1) [OF b1(1)] 2(2) show ?case by (fastforce simp: block_bound_def)
qed (simp add: block_bound_def)

lemma build_block_layout:
  assumes "block_bound es + 4 < 2 ^ 32"
  obtains d ss rs where "build_block opt es = Some d" "layout d es ss rs" "length d \<le> block_bound es"
proof -
  from add_entries_total [of BlockBuilder es opt] assms obtain b where
    b: "add_entries opt BlockBuilder es = Some b" "length (bb_buffer b) + 4 * length (bb_restarts b) + 4 \<le> block_bound es"
    by (auto simp: BlockBuilder_def)
  then have "\<not> UINT32_MAX < length (bb_restarts b)" using assms by simp
  then obtain d b' where d: "BlockBuilder_Finish b = Some (d, b')"
    by (auto simp: BlockBuilder_Finish_def Let_def)
  then have "length d = length (bb_buffer b) + 4 * length (bb_restarts b) + 4"
    by (auto simp: BlockBuilder_Finish_def Let_def foldl_PutFixed32 PutFixed32_def length_concat comp_def
        sum_list_triv split: if_splits)
  moreover have "built b es" using built_add_entries [OF built_BlockBuilder b(1)] by simp
  ultimately show ?thesis
    using that b d built_Finish [of b es d b'] assms by (fastforce simp: build_block_def)
qed

section \<open>Decoding an entry\<close>

lemma or_less_128: "(a OR b :: u32) < 128 \<longleftrightarrow> a < 128 \<and> b < 128"
proof -
  have small: "w < 128 \<longleftrightarrow> drop_bit 7 w = 0" for w :: u32
    by (simp add: word_less_nat_alt word_unat_eq_iff unat_drop_bit div_eq_0_iff)
  show ?thesis unfolding small by (simp add: drop_bit_or or_eq_0_iff)
qed

lemma GetVarint32Ptr_small: "ucast b < (128 :: u32) \<Longrightarrow> GetVarint32Ptr (b # q) = Some (ucast b, q)"
proof -
  assume "ucast b < (128 :: u32)"
  then have "unat b < 128"
    by (simp add: word_less_nat_alt unsigned_ucast_eq take_bit_nat_eq_self order.strict_trans [OF unat_byte_less])
  then have "ucast b AND (128 :: u32) = 0"
    using and_128_of_nat [of "unat b", where 'a = 32] by simp
  then show ?thesis by (simp add: GetVarint32Ptr_def)
qed

text \<open>The three-byte fast path agrees with the three varint reads.\<close>

lemma DecodeEntry_varints:
  assumes "p + 3 \<le> limit" "limit \<le> length data"
  shows "DecodeEntry data p limit =
    (case GetVarint32Ptr (take (limit - p) (drop p data)) of None \<Rightarrow> None | Some (shared, s) \<Rightarrow>
      (case GetVarint32Ptr s of None \<Rightarrow> None | Some (non_shared, s) \<Rightarrow>
        (case GetVarint32Ptr s of None \<Rightarrow> None | Some (value_length, s) \<Rightarrow>
          if word_of_nat (length s) < non_shared + value_length then None
          else Some (shared, non_shared, value_length, limit - length s))))"
proof -
  have "3 \<le> length (take (limit - p) (drop p data))" using assms by simp
  moreover have "\<exists>a b c r. xs = a # b # c # r" if "3 \<le> length xs" for xs :: bytes
    using that by (auto simp: numeral_3_eq_3 Suc_le_length_iff)
  ultimately obtain a b c r where s: "take (limit - p) (drop p data) = a # b # c # r"
    by blast
  show ?thesis
  proof (cases "ucast a OR ucast b OR ucast c < (128 :: u32)")
    case True
    then have "ucast a < (128 :: u32)" "ucast b < (128 :: u32)" "ucast c < (128 :: u32)"
      by (simp_all add: or_less_128)
    with True assms s show ?thesis
      by (simp add: DecodeEntry_def GetVarint32Ptr_small Let_def)
  next
    case False
    with assms s show ?thesis
      by (simp add: DecodeEntry_def Let_def split: option.split)
  qed
qed

definition header_length :: "nat \<Rightarrow> entry \<Rightarrow> nat" where
  "header_length s e = length (EncodeVarint32 (word_of_nat s)) +
     length (EncodeVarint32 (word_of_nat (length (fst e) - s))) + length (EncodeVarint32 (word_of_nat (length (snd e))))"

lemma length_entry_code_eq:
  "length (entry_code s e) = header_length s e + (length (fst e) - s) + length (snd e)"
  by (simp add: entry_code_def header_length_def)

lemma unat_of_nat_u32: "n < 2 ^ 32 \<Longrightarrow> unat (word_of_nat n :: u32) = n"
  by (simp add: unat_of_nat)

lemma header_length_ge: "3 \<le> header_length s e"
  using length_EncodeVarint_bounds(1) [of "word_of_nat s"]
    length_EncodeVarint_bounds(1) [of "word_of_nat (length (fst e) - s)"]
    length_EncodeVarint_bounds(1) [of "word_of_nat (length (snd e))"]
  by (simp add: header_length_def)

lemma DecodeEntry_entry_code:
  assumes data: "data = pre @ entry_code s e @ post" and p: "p = length pre"
    and limit: "p + length (entry_code s e) \<le> limit" "limit \<le> length data" "limit < 2 ^ 32"
  shows "DecodeEntry data p limit =
      Some (word_of_nat s, word_of_nat (length (fst e) - s), word_of_nat (length (snd e)), p + header_length s e)"
    and "read_at data (p + header_length s e) (length (fst e) - s) = Some (drop s (fst e))"
    and "read_at data (p + header_length s e + (length (fst e) - s)) (length (snd e)) = Some (snd e)"
proof -
  let ?n = "length (fst e) - s" and ?m = "length (snd e)" and ?L = "length (entry_code s e)"
  define q where "q = take (limit - p - ?L) post"
  have L: "?L = header_length s e + ?n + ?m" by (rule length_entry_code_eq)
  have s: "take (limit - p) (drop p data) = entry_code s e @ q"
    using limit by (simp add: data p q_def)
  have q: "length q = limit - p - ?L" using limit by (simp add: data p q_def)
  have "?n + ?m < 2 ^ 32" using limit L by linarith
  then have "unat (word_of_nat ?n + word_of_nat ?m :: u32) = ?n + ?m"
    using unat_of_nat_u32 [of "?n + ?m"] by simp
  moreover have "unat (word_of_nat (?n + (?m + length q)) :: u32) = ?n + (?m + length q)"
    using limit q L by (intro unat_of_nat_u32) linarith
  ultimately have "\<not> (word_of_nat (?n + (?m + length q)) :: u32) < word_of_nat ?n + word_of_nat ?m"
    by (simp only: word_less_nat_alt)
  moreover have "p + 3 \<le> limit" using limit L header_length_ge [of s e] by linarith
  moreover have "limit - (?n + (?m + length q)) = p + header_length s e"
    using limit q L by linarith
  ultimately show "DecodeEntry data p limit =
      Some (word_of_nat s, word_of_nat ?n, word_of_nat ?m, p + header_length s e)"
    using limit(2)
    by (simp add: DecodeEntry_varints s entry_code_def del: of_nat_add)
  show "read_at data (p + header_length s e) ?n = Some (drop s (fst e))"
    by (simp add: read_at_def data p entry_code_def header_length_def)
  show "read_at data (p + header_length s e + ?n) ?m = Some (snd e)"
    by (simp add: read_at_def data p entry_code_def header_length_def)
qed
section \<open>Reading a block with the layout\<close>

lemma entries_code_split:
  assumes "length ss = length es" "i < length es"
  shows "entries_code ss es = entries_code (take i ss) (take i es) @ entry_code (ss ! i) (es ! i) @
    entries_code (drop (Suc i) ss) (drop (Suc i) es)"
proof -
  have "ss = take i ss @ ss ! i # drop (Suc i) ss" "es = take i es @ es ! i # drop (Suc i) es"
    using assms by (simp_all add: id_take_nth_drop)
  then have "entries_code ss es = entries_code (take i ss @ ss ! i # drop (Suc i) ss) (take i es @ es ! i # drop (Suc i) es)"
    by simp
  then show ?thesis using assms by (simp add: entries_code_append) (simp add: entries_code_def)
qed

lemma entry_offset_Suc:
  "length ss = length es \<Longrightarrow> i < length es \<Longrightarrow>
   entry_offset ss es (Suc i) = entry_offset ss es i + length (entry_code (ss ! i) (es ! i))"
  by (simp add: entry_offset_def take_Suc_conv_app_nth entries_code_append) (simp add: entries_code_def)

lemma entry_offset_mono:
  "length ss = length es \<Longrightarrow> i \<le> j \<Longrightarrow> j \<le> length es \<Longrightarrow> entry_offset ss es i \<le> entry_offset ss es j"
proof -
  assume len: "length ss = length es" and ij: "i \<le> j"
  from ij show "j \<le> length es \<Longrightarrow> entry_offset ss es i \<le> entry_offset ss es j"
    by (induction rule: dec_induct) (simp_all add: entry_offset_Suc len)
qed

lemma key_length_le:
  assumes "shares_ok ss es" "i < length es"
  shows "length (fst (es ! i)) \<le> entry_offset ss es (Suc i)"
  using assms(2)
proof (induction i)
  case 0
  then show ?case
    using assms(1) by (simp add: shares_ok_def entry_offset_Suc length_entry_code_eq)
next
  case (Suc i)
  then have "ss ! Suc i \<le> length (fst (es ! i))"
    using assms(1) unfolding shares_ok_def by (metis diff_Suc_1 nat.distinct(1))
  moreover have "length (fst (es ! i)) \<le> entry_offset ss es (Suc i)" using Suc by simp
  moreover have "entry_offset ss es (Suc (Suc i)) = entry_offset ss es (Suc i) + length (entry_code (ss ! Suc i) (es ! Suc i))"
    using Suc.prems assms(1) by (simp add: entry_offset_Suc shares_ok_def)
  ultimately show ?case by (simp add: length_entry_code_eq)
qed

lemma layout_length:
  assumes "layout d es ss rs"
  shows "length d = entry_offset ss es (length es) + 4 * length rs + 4" "length ss = length es"
    "length d < 2 ^ 32" "0 < length rs" "r \<in> set rs \<Longrightarrow> r \<le> length es"
  using assms restarts_ok_le [of rs ss]
  by (auto simp: layout_def shares_ok_def restarts_ok_def entry_offset_end length_concat comp_def sum_list_triv)

lemma layout_restart:
  "layout d es ss rs \<Longrightarrow> 0 < j \<Longrightarrow> j < length rs \<Longrightarrow> rs ! j < length es \<and> ss ! (rs ! j) = 0"
  unfolding layout_def restarts_ok_def shares_ok_def by auto

lemma layout_entry:
  assumes "layout d es ss rs" "i < length es"
  obtains pre post where "d = pre @ entry_code (ss ! i) (es ! i) @ post" "length pre = entry_offset ss es i"
proof -
  from assms have d: "d = entries_code ss es @ concat (map (\<lambda>r. EncodeFixed32 (word_of_nat (entry_offset ss es r))) rs) @
      EncodeFixed32 (word_of_nat (length rs))" "length ss = length es"
    by (simp_all add: layout_def shares_ok_def)
  show ?thesis
    by (rule that [of "entries_code (take i ss) (take i es)"])
       (subst d(1), subst entries_code_split [OF d(2) assms(2)], simp_all add: entry_offset_def)
qed

lemma layout_DecodeEntry:
  assumes "layout d es ss rs" "i < length es"
  defines "p \<equiv> entry_offset ss es i" and "s \<equiv> ss ! i" and "e \<equiv> es ! i"
  shows "DecodeEntry d p (entry_offset ss es (length es)) =
      Some (word_of_nat s, word_of_nat (length (fst e) - s), word_of_nat (length (snd e)), p + header_length s e)"
    and "read_at d (p + header_length s e) (length (fst e) - s) = Some (drop s (fst e))"
    and "read_at d (p + header_length s e + (length (fst e) - s)) (length (snd e)) = Some (snd e)"
    and "p + header_length s e + (length (fst e) - s) + length (snd e) = entry_offset ss es (Suc i)"
proof -
  obtain pre post where d: "d = pre @ entry_code s e @ post" "p = length pre"
    using layout_entry [OF assms(1,2)] by (metis p_def s_def e_def)
  note len = layout_length [OF assms(1)]
  have "p + length (entry_code s e) = entry_offset ss es (Suc i)"
    using len(2) assms(2) by (simp add: entry_offset_Suc p_def s_def e_def)
  moreover have "entry_offset ss es (Suc i) \<le> entry_offset ss es (length es)"
    using len(2) assms(2) by (intro entry_offset_mono) simp_all
  moreover have lim: "entry_offset ss es (length es) \<le> length d" "entry_offset ss es (length es) < 2 ^ 32"
    using len by simp_all
  ultimately have p: "p + length (entry_code s e) \<le> entry_offset ss es (length es)"
     "p + length (entry_code s e) = entry_offset ss es (Suc i)" by simp_all
  note * = DecodeEntry_entry_code [OF d p(1) lim]
  show "DecodeEntry d p (entry_offset ss es (length es)) =
      Some (word_of_nat s, word_of_nat (length (fst e) - s), word_of_nat (length (snd e)), p + header_length s e)"
    by (rule *)
  show "read_at d (p + header_length s e) (length (fst e) - s) = Some (drop s (fst e))" by (rule *)
  show "read_at d (p + header_length s e + (length (fst e) - s)) (length (snd e)) = Some (snd e)" by (rule *)
  show "p + header_length s e + (length (fst e) - s) + length (snd e) = entry_offset ss es (Suc i)"
    using p(2) by (simp add: length_entry_code_eq)
qed

lemma read_at_concat:
  assumes "\<And>x. x \<in> set xs \<Longrightarrow> length (f x) = m" "j < length xs"
  shows "read_at (pre @ concat (map f xs) @ post) (length pre + j * m) m = Some (f (xs ! j))"
proof -
  have "xs = take j xs @ xs ! j # drop (Suc j) xs" using assms(2) by (rule id_take_nth_drop)
  then have c: "concat (map f xs) = concat (map f (take j xs)) @ f (xs ! j) @ concat (map f (drop (Suc j) xs))"
    by (metis concat.simps(2) concat_append list.simps(9) map_append)
  have "length (concat (map f (take j xs))) = sum_list (map (\<lambda>x. m) (take j xs))"
    using assms(1) by (auto simp: length_concat comp_def intro!: arg_cong [where f = sum_list] map_cong dest: in_set_takeD)
  then have "length (concat (map f (take j xs))) = j * m" using assms(2) by (simp add: sum_list_triv)
  moreover have "length (f (xs ! j)) = m" using assms by simp
  ultimately show ?thesis by (simp add: read_at_def c)
qed

lemma layout_NumRestarts:
  assumes "layout d es ss rs"
  shows "NumRestarts d (length d) = word_of_nat (length rs)" "unat (word_of_nat (length rs) :: u32) = length rs"
proof -
  show "NumRestarts d (length d) = word_of_nat (length rs)"
    using assms DecodeFixed_EncodeFixed(2) [of "word_of_nat (length rs)" "[]"]
    by (auto simp: layout_def NumRestarts_def)
  show "unat (word_of_nat (length rs) :: u32) = length rs"
    using layout_length [OF assms] by (intro unat_of_nat_u32) simp
qed

lemma layout_Block:
  assumes "layout d es ss rs"
  shows "Block d = \<lparr>blk_data = d, blk_size = length d, blk_restart_offset = word_of_nat (entry_offset ss es (length es))\<rparr>"
proof -
  note len = layout_length [OF assms] and nr = layout_NumRestarts [OF assms]
  have "unat (1 + word_of_nat (length rs) :: u32) = Suc (length rs)"
    using len unat_of_nat_u32 [of "Suc (length rs)"] by (simp add: add.commute)
  then show ?thesis
    using len nr by (simp add: Block_def Let_def)
qed

section \<open>The iterator over a layout\<close>

definition iter_over :: "entry list \<Rightarrow> nat list \<Rightarrow> nat list \<Rightarrow> iter \<Rightarrow> bool" where
  "iter_over es ss rs it \<longleftrightarrow> layout (it_data it) es ss rs \<and>
     it_restarts it = word_of_nat (entry_offset ss es (length es)) \<and>
     it_num_restarts it = word_of_nat (length rs) \<and> it_status it = OkStatus"

definition iter_pos :: "entry list \<Rightarrow> nat list \<Rightarrow> nat list \<Rightarrow> iter \<Rightarrow> nat \<Rightarrow> bool" where
  "iter_pos es ss rs it i \<longleftrightarrow> iter_over es ss rs it \<and> i \<le> length es \<and>
     it_current it = word_of_nat (entry_offset ss es i) \<and>
     (i < length es \<longrightarrow> it_key it = fst (es ! i) \<and>
        it_value it = Some (entry_offset ss es (Suc i) - length (snd (es ! i)), length (snd (es ! i))))"

text \<open>The state in which the next call of \<open>ParseNextKey\<close> yields entry \<open>i\<close>.\<close>

definition iter_ready :: "entry list \<Rightarrow> nat list \<Rightarrow> nat list \<Rightarrow> iter \<Rightarrow> nat \<Rightarrow> bool" where
  "iter_ready es ss rs it i \<longleftrightarrow> iter_over es ss rs it \<and> i \<le> length es \<and>
     NextEntryOffset it = Some (word_of_nat (entry_offset ss es i)) \<and>
     (i < length es \<longrightarrow> ss ! i \<le> length (it_key it) \<and> take (ss ! i) (it_key it) = take (ss ! i) (fst (es ! i)))"

lemma unat_entry_offset:
  assumes "iter_over es ss rs it" "i \<le> length es"
  shows "unat (word_of_nat (entry_offset ss es i) :: u32) = entry_offset ss es i"
proof (rule unat_of_nat_u32)
  from assms have lay: "layout (it_data it) es ss rs" by (simp add: iter_over_def)
  have "entry_offset ss es i \<le> entry_offset ss es (length es)"
    using assms(2) layout_length [OF lay] by (intro entry_offset_mono) simp_all
  then show "entry_offset ss es i < 2 ^ 32" using layout_length [OF lay] by linarith
qed

lemma iter_over_GetRestartPoint:
  assumes "iter_over es ss rs it" "unat j < length rs"
  shows "GetRestartPoint it j = Some (word_of_nat (entry_offset ss es (rs ! unat j)))"
proof -
  let ?f = "\<lambda>r. EncodeFixed32 (word_of_nat (entry_offset ss es r))"
  have lay: "layout (it_data it) es ss rs" using assms(1) by (simp add: iter_over_def)
  then have d: "it_data it = entries_code ss es @ concat (map ?f rs) @ EncodeFixed32 (word_of_nat (length rs))"
    by (simp add: layout_def)
  have "unat (it_restarts it) = length (entries_code ss es)"
    using unat_entry_offset [OF assms(1) order.refl] layout_length(2) [OF lay] assms(1)
    by (simp add: iter_over_def entry_offset_end)
  moreover have "read_at (it_data it) (length (entries_code ss es) + unat j * 4) 4 = Some (?f (rs ! unat j))"
    unfolding d by (rule read_at_concat) (simp_all add: assms(2))
  ultimately show ?thesis
    using DecodeFixed_EncodeFixed(2) [of "word_of_nat (entry_offset ss es (rs ! unat j))" "[]"]
    by (simp add: GetRestartPoint_def)
qed

lemma advance_restart_index_over:
  "iter_over es ss rs it \<Longrightarrow> \<exists>ri. advance_restart_index it = Some (it\<lparr>it_restart_index := ri\<rparr>)"
proof (induction it rule: advance_restart_index.induct)
  case (1 it)
  let ?i = "it_restart_index it + 1"
  show ?case
  proof (cases "?i < it_num_restarts it")
    case True
    then have "unat ?i < length rs"
      using 1(2) layout_NumRestarts by (auto simp: iter_over_def word_less_nat_alt)
    then obtain r where r: "GetRestartPoint it ?i = Some r"
      using iter_over_GetRestartPoint [OF 1(2)] by blast
    have "iter_over es ss rs (it\<lparr>it_restart_index := ?i\<rparr>)" using 1(2) by (simp add: iter_over_def)
    with 1(1) [OF True r] r True show ?thesis
      by (cases "r < it_current it") (simp_all add: advance_restart_index.simps [of it], metis iter.surjective iter.update_convs(5))
  next
    case False
    then show ?thesis
      by (intro exI [of _ "it_restart_index it"]) (simp add: advance_restart_index.simps [of it])
  qed
qed

lemma ParseNextKey_ready:
  assumes "iter_ready es ss rs it i"
  shows "\<exists>it'. ParseNextKey it = Some (i < length es, it') \<and> iter_pos es ss rs it' i"
proof -
  have over: "iter_over es ss rs it" and i: "i \<le> length es"
    and next_off: "NextEntryOffset it = Some (word_of_nat (entry_offset ss es i))"
    using assms by (simp_all add: iter_ready_def)
  have lay: "layout (it_data it) es ss rs" using over by (simp add: iter_over_def)
  note len = layout_length [OF lay]
  have u: "unat (it_restarts it) = entry_offset ss es (length es)"
    using unat_entry_offset [OF over order.refl] over by (simp add: iter_over_def)
  note ui = unat_entry_offset [OF over i]
  show ?thesis
  proof (cases "i < length es")
    case False
    then have "i = length es" using i by simp
    then show ?thesis
      using next_off u ui over by (auto simp: ParseNextKey_def Let_def iter_pos_def iter_over_def)
  next
    case True
    define s k v where "s = ss ! i" and "k = fst (es ! i)" and "v = snd (es ! i)"
    define m where "m = length k - s"
    note dec = layout_DecodeEntry [OF lay True, folded s_def k_def v_def, folded m_def]
    have less: "entry_offset ss es i < entry_offset ss es (length es)"
      using entry_offset_mono [of ss es "Suc i" "length es"] dec(4) header_length_ge [of s "es ! i"] len(2) True by simp
    have le_end: "entry_offset ss es (Suc i) \<le> entry_offset ss es (length es)"
      using entry_offset_mono [of ss es "Suc i" "length es"] len(2) True by simp
    then have small: "unat (word_of_nat m :: u32) = m" "unat (word_of_nat (length v) :: u32) = length v"
      using dec(4) len(1,3) by (intro unat_of_nat_u32; linarith)+
    have s: "s \<le> length (it_key it)" "take s (it_key it) = take s k" "s \<le> length k"
      using assms True lay by (auto simp: iter_ready_def s_def k_def layout_def shares_ok_def)
    have "length k \<le> entry_offset ss es (Suc i)"
      using key_length_le [of ss es i] lay True by (simp add: k_def layout_def)
    then have us: "unat (word_of_nat s :: u32) = s"
      using s(3) le_end len(1,3) by (intro unat_of_nat_u32) linarith
    let ?p = "entry_offset ss es i + header_length s (es ! i)"
    let ?it = "it\<lparr>it_current := word_of_nat (entry_offset ss es i), it_key := k,
       it_value := Some (?p + m, length v)\<rparr>"
    obtain ri where "advance_restart_index ?it = Some (?it\<lparr>it_restart_index := ri\<rparr>)"
      using advance_restart_index_over [of es ss rs ?it] over by (auto simp: iter_over_def)
    moreover have "take s (it_key it) @ drop s k = k" using s by simp
    ultimately have "ParseNextKey it = Some (True, ?it\<lparr>it_restart_index := ri\<rparr>)"
      using next_off less s dec(1,2) small
      by (simp add: ParseNextKey_def Let_def u ui us)
    moreover have "iter_pos es ss rs (?it\<lparr>it_restart_index := ri\<rparr>) i"
      using over True dec(4) by (simp add: iter_pos_def iter_over_def k_def v_def)
    ultimately show ?thesis using True by simp
  qed
qed

lemma iter_pos_ready:
  assumes "iter_pos es ss rs it i" "i < length es"
  shows "iter_ready es ss rs it (Suc i)"
proof -
  have lay: "layout (it_data it) es ss rs" and over: "iter_over es ss rs it"
    using assms(1) by (simp_all add: iter_pos_def iter_over_def)
  have "length (snd (es ! i)) \<le> entry_offset ss es (Suc i)"
    using layout_DecodeEntry(4) [OF lay assms(2)] by linarith
  then have "NextEntryOffset it = Some (word_of_nat (entry_offset ss es (Suc i)))"
    using assms by (simp add: NextEntryOffset_def iter_pos_def del: of_nat_diff of_nat_add)
  moreover have "ss ! Suc i \<le> length (it_key it) \<and> take (ss ! Suc i) (it_key it) = take (ss ! Suc i) (fst (es ! Suc i))"
    if "Suc i < length es"
    using that lay assms unfolding layout_def shares_ok_def iter_pos_def by (metis diff_Suc_1 nat.distinct(1))
  ultimately show ?thesis using assms(2) over by (simp add: iter_ready_def)
qed

lemma iter_over_Seek_linear:
  assumes "sorted_entries es" "iter_ready es ss rs it i" "\<And>j. j < i \<Longrightarrow> fst (es ! j) < t"
  shows "\<exists>it'. Seek_linear it t = Some it' \<and> iter_pos es ss rs it' (lower_bound es t)"
  using assms(2,3)
proof (induction "length es - i" arbitrary: i it rule: less_induct)
  case less
  obtain it' where it': "ParseNextKey it = Some (i < length es, it')" "iter_pos es ss rs it' i"
    using ParseNextKey_ready [OF less.prems(1)] by blast
  have i: "i \<le> length es" using less.prems(1) by (simp add: iter_ready_def)
  show ?case
  proof (cases "i < length es \<and> fst (es ! i) < t")
    case True
    then have "\<exists>it''. Seek_linear it' t = Some it'' \<and> iter_pos es ss rs it'' (lower_bound es t)"
      using less.prems(2)
      by (intro less.hyps [of "Suc i"] iter_pos_ready [OF it'(2)]) (auto simp: less_Suc_eq)
    moreover have "Seek_linear it t = Seek_linear it' t"
      using True it' leD [of t "fst (es ! i)"] by (subst Seek_linear.simps) (auto simp: iter_pos_def)
    ultimately show ?thesis by simp
  next
    case False
    then have "lower_bound es t = i"
      using assms(1) i less.prems(2) by (intro lower_bound_eqI) auto
    moreover have "Seek_linear it t = Some it'"
      using False it' i by (subst Seek_linear.simps) (auto simp: iter_pos_def not_less)
    ultimately show ?thesis using it'(2) by simp
  qed
qed

lemma unat_mid:
  assumes "left < right" "right \<noteq> - 1"
  shows "unat (left + (right - left + 1) div 2) = unat left + (unat right - unat left + 1) div 2"
    and "unat left < unat (left + (right - left + 1) div 2 :: u32)"
    and "unat (left + (right - left + 1) div 2) \<le> unat right"
    and "unat (left + (right - left + 1) div 2 - 1) = unat (left + (right - left + 1) div 2) - 1"
proof -
  let ?m = "unat left + (unat right - unat left + 1) div 2"
  have lr: "unat left < unat right" using assms(1) by (simp add: word_less_nat_alt)
  have d: "unat (right - left) = unat right - unat left" using assms(1) by (intro unat_sub) simp
  have "right - left \<noteq> - 1"
  proof
    assume "right - left = - 1"
    then have "unat right - unat left = 2 ^ 32 - 1" using d by (simp add: unsigned_minus_1_eq_mask mask_eq_exp_minus_1)
    then have "unat right = 2 ^ 32 - 1" using unat_u32_less [of right] by linarith
    then show False using assms(2) by (simp add: word_unat_eq_iff unsigned_minus_1_eq_mask mask_eq_exp_minus_1)
  qed
  then have s: "unat ((right - left + 1) div 2) = (unat right - unat left + 1) div 2"
    by (simp add: unat_div unat_Suc_word d)
  have bounds: "unat left < ?m" "?m \<le> unat right" using lr by linarith+
  show m: "unat (left + (right - left + 1) div 2) = ?m"
    using bounds s unat_u32_less [of right] by (subst unat_add_lem [THEN iffD1]) simp_all
  show "unat left < unat (left + (right - left + 1) div 2)" "unat (left + (right - left + 1) div 2) \<le> unat right"
    unfolding m by (rule bounds)+
  show "unat (left + (right - left + 1) div 2 - 1) = unat (left + (right - left + 1) div 2) - 1"
    using m bounds by (intro unat_minus_one) (metis gr_implies_not0 unat_0)
qed

lemma iter_over_Seek_bsearch:
  assumes over: "iter_over es ss rs it"
    and "left \<le> right" "unat right < length rs" "left = 0 \<or> fst (es ! (rs ! unat left)) < t"
  shows "\<exists>l. Seek_bsearch it t left right = Some (Some l) \<and> unat l < length rs \<and>
     (l = 0 \<or> fst (es ! (rs ! unat l)) < t)"
  using assms(2-4)
proof (induction "unat right - unat left" arbitrary: left right rule: less_induct)
  case less
  show ?case
  proof (cases "left < right")
    case False
    then have "Seek_bsearch it t left right = Some (Some left)"
      by (subst Seek_bsearch.simps) simp
    moreover have "left = right" using False less.prems(1) by simp
    ultimately show ?thesis using less.prems by simp
  next
    case True
    define mid where "mid = left + (right - left + 1) div 2"
    have lay: "layout (it_data it) es ss rs" using over by (simp add: iter_over_def)
    have "right \<noteq> - 1"
      using less.prems(2) layout_length [OF lay] by (auto simp: unsigned_minus_1_eq_mask mask_eq_exp_minus_1)
    note mid = unat_mid [OF True this, folded mid_def]
    have lt: "unat left < unat right" using True by (simp add: word_less_nat_alt)
    have m: "unat mid < length rs" "0 < unat mid" using mid less.prems(2) by linarith+
    then have r: "rs ! unat mid < length es" "ss ! (rs ! unat mid) = 0"
      using layout_restart [OF lay] by blast+
    let ?i = "rs ! unat mid"
    have "Seek_bsearch it t left right =
      (if fst (es ! ?i) < t then Seek_bsearch it t mid right else Seek_bsearch it t left (mid - 1))"
    proof -
      define off where "off = entry_offset ss es ?i"
      define n where "n = length (fst (es ! ?i))"
      have lim: "unat (it_restarts it) = entry_offset ss es (length es)"
        using unat_entry_offset [OF over order.refl] over by (simp add: iter_over_def)
      have off: "unat (word_of_nat off :: u32) = off"
        using unat_entry_offset [OF over, of ?i] r(1) by (simp add: off_def)
      note dec = layout_DecodeEntry [OF lay r(1), unfolded r(2), folded off_def, unfolded diff_zero, folded n_def]
      have "n < 2 ^ 32"
        using key_length_le [of ss es ?i] entry_offset_mono [of ss es "Suc ?i" "length es"] lay layout_length [OF lay] r(1)
        by (simp add: n_def layout_def)
      then have n: "unat (word_of_nat n :: u32) = n" by (rule unat_of_nat_u32)
      have gp: "GetRestartPoint it mid = Some (word_of_nat off)"
        using iter_over_GetRestartPoint [OF over m(1)] by (simp add: off_def)
      show ?thesis
        using True gp dec(1,2) n off lim
        by (subst Seek_bsearch.simps) (simp add: Let_def mid_def [symmetric])
    qed
    moreover have "unat right - unat mid < unat right - unat left" "unat (mid - 1) - unat left < unat right - unat left"
      "mid \<le> right" "left \<le> mid - 1" "unat (mid - 1) < length rs"
      unfolding word_le_nat_alt using mid(2-4) lt m by linarith+
    ultimately show ?thesis
      using less.hyps [of right mid] less.hyps [of "mid - 1" left] less.prems by (cases "fst (es ! ?i) < t") auto
  qed
qed

lemma iter_over_SeekToRestartPoint:
  assumes "iter_over es ss rs it" "unat j < length rs"
  shows "\<exists>it'. SeekToRestartPoint it j = Some it' \<and> iter_ready es ss rs it' (rs ! unat j)"
proof -
  let ?i = "rs ! unat j"
  have lay: "layout (it_data it) es ss rs" using assms(1) by (simp add: iter_over_def)
  have i: "?i \<le> length es" using layout_length(5) [OF lay] assms(2) by simp
  have "ss ! ?i = 0" if "?i < length es"
    using lay assms(2) that unfolding layout_def restarts_ok_def shares_ok_def by (cases "unat j") auto
  then show ?thesis
    using iter_over_GetRestartPoint [OF assms] assms(1) i unat_entry_offset [OF assms(1) i]
    by (simp add: SeekToRestartPoint_def iter_ready_def iter_over_def NextEntryOffset_def)
qed

lemma iter_over_Seek:
  assumes "sorted_entries es" "iter_over es ss rs it"
  shows "\<exists>it'. Iter_Seek it t = Some it' \<and> iter_pos es ss rs it' (lower_bound es t)"
proof -
  have lay: "layout (it_data it) es ss rs" using assms(2) by (simp add: iter_over_def)
  have "unat (it_num_restarts it) = length rs"
    using layout_NumRestarts(2) [OF lay] assms(2) by (simp add: iter_over_def)
  moreover from this have "unat (it_num_restarts it - 1) = unat (it_num_restarts it) - 1"
    using layout_length(4) [OF lay] by (intro unat_minus_one) (metis less_irrefl unat_0)
  ultimately have "unat (it_num_restarts it - 1) < length rs"
    using layout_length(4) [OF lay] by simp
  then obtain l where l: "Seek_bsearch it t 0 (it_num_restarts it - 1) = Some (Some l)" "unat l < length rs"
    "l = 0 \<or> fst (es ! (rs ! unat l)) < t"
    using iter_over_Seek_bsearch [OF assms(2), of 0 "it_num_restarts it - 1" t] by auto
  obtain it' where it': "SeekToRestartPoint it l = Some it'" "iter_ready es ss rs it' (rs ! unat l)"
    using iter_over_SeekToRestartPoint [OF assms(2) l(2)] by blast
  have "fst (es ! j) < t" if "j < rs ! unat l" for j
  proof -
    have "l \<noteq> 0" using that lay by (auto simp: layout_def restarts_ok_def)
    then have "0 < unat l" by (simp add: unat_gt_0)
    with l(2) have "rs ! unat l < length es" using layout_restart [OF lay] by blast
    then have "fst (es ! j) < fst (es ! (rs ! unat l))" by (rule sorted_entries_nth [OF assms(1) that])
    with l(3) \<open>l \<noteq> 0\<close> show ?thesis by (auto intro: order.strict_trans)
  qed
  from iter_over_Seek_linear [OF assms(1) it'(2) this] show ?thesis
    by (simp add: Iter_Seek_def l(1) it'(1))
qed

lemma iter_over_SeekToFirst:
  assumes "iter_over es ss rs it"
  shows "\<exists>it'. Iter_SeekToFirst it = Some it' \<and> iter_pos es ss rs it' 0"
proof -
  have lay: "layout (it_data it) es ss rs" using assms by (simp add: iter_over_def)
  have "rs ! 0 = 0" using lay by (simp add: layout_def restarts_ok_def)
  then obtain it1 where "SeekToRestartPoint it 0 = Some it1" "iter_ready es ss rs it1 0"
    using iter_over_SeekToRestartPoint [OF assms, of 0] layout_length(4) [OF lay] by auto
  with ParseNextKey_ready show ?thesis by (fastforce simp: Iter_SeekToFirst_def)
qed

text \<open>The iterator returned by \<open>NewIterator\<close> meets the contract of the interface.\<close>

fun block_over :: "entry list \<Rightarrow> block_iterator \<Rightarrow> bool" where
  "block_over es (BlockIter it) \<longleftrightarrow> sorted_entries es \<and> (\<exists>ss rs. iter_over es ss rs it)"
| "block_over es (NoEntries e) \<longleftrightarrow> False"

fun block_pos :: "entry list \<Rightarrow> block_iterator \<Rightarrow> nat \<Rightarrow> bool" where
  "block_pos es (BlockIter it) i \<longleftrightarrow> sorted_entries es \<and> (\<exists>ss rs. iter_pos es ss rs it i)"
| "block_pos es (NoEntries e) i \<longleftrightarrow> False"

lemma iter_pos_Valid: "iter_pos es ss rs it i \<Longrightarrow> Iter_Valid it \<longleftrightarrow> i < length es"
proof -
  assume p: "iter_pos es ss rs it i"
  then have over: "iter_over es ss rs it" and i: "i \<le> length es" by (simp_all add: iter_pos_def)
  have lay: "layout (it_data it) es ss rs" using over by (simp add: iter_over_def)
  have "entry_offset ss es i < entry_offset ss es (length es)" if "i < length es"
    using layout_DecodeEntry(4) [OF lay that] header_length_ge [of "ss ! i" "es ! i"]
      entry_offset_mono [of ss es "Suc i" "length es"] layout_length(2) [OF lay] that by simp
  then show ?thesis
    using p i unat_entry_offset [OF over i] unat_entry_offset [OF over order.refl]
    by (cases "i < length es") (auto simp: Iter_Valid_def iter_pos_def iter_over_def word_less_nat_alt)
qed

lemma iter_pos_entry:
  assumes "iter_pos es ss rs it i" "i < length es"
  shows "Iter_key it = Some (fst (es ! i))" "Iter_value it = Some (snd (es ! i))"
proof -
  have lay: "layout (it_data it) es ss rs" using assms(1) by (simp add: iter_pos_def iter_over_def)
  note dec = layout_DecodeEntry [OF lay assms(2)]
  show "Iter_key it = Some (fst (es ! i))" using assms by (simp add: Iter_key_def iter_pos_def)
  show "Iter_value it = Some (snd (es ! i))"
    using assms dec(3) by (simp add: Iter_value_def iter_pos_def flip: dec(4))
qed

interpretation block: table_iterator
  Iterator_Valid Iterator_key Iterator_value Iterator_status Iterator_Next Iterator_Seek Iterator_SeekToFirst
  block_over block_pos
proof (unfold_locales, goal_cases)
  case (1 es it)
  then show ?case by (cases it) auto
next
  case (2 es it i)
  then show ?case by (cases it) (auto simp: iter_pos_def)
next
  case (3 es it i)
  then show ?case by (cases it) (auto simp: iter_pos_Valid)
next
  case (4 es it i)
  then show ?case by (cases it) (auto simp: iter_pos_entry)
next
  case (5 es it i)
  then show ?case by (cases it) (auto simp: iter_pos_def iter_over_def)
next
  case (6 es it i)
  then obtain b ss rs where it: "it = BlockIter b" "iter_pos es ss rs b i" "sorted_entries es" by (cases it) auto
  with ParseNextKey_ready [OF iter_pos_ready [OF it(2) 6(2)]] show ?case by (fastforce simp: Iter_Next_def)
next
  case (7 es it t)
  then show ?case using iter_over_Seek by (cases it) fastforce+
next
  case (8 es it)
  then show ?case using iter_over_SeekToFirst by (cases it) fastforce+
qed

lemma NewIterator_over:
  assumes "layout d es ss rs" "sorted_entries es"
  shows "block_over es (Block_NewIterator (Block d))"
proof -
  note len = layout_length [OF assms(1)] and nr = layout_NumRestarts [OF assms(1)]
  have "(word_of_nat (length rs) :: u32) \<noteq> 0"
    using nr(2) len(4) by (metis less_irrefl unat_0)
  then show ?thesis
    using len nr assms
    by (auto simp: Block_NewIterator_def Let_def layout_Block [OF assms(1)] Iter_def iter_over_def)
qed

lemma GetVarint32Ptr_shorter: "GetVarint32Ptr p = Some (v, q) \<Longrightarrow> length q < length p"
  by (auto elim!: GetVarint32Ptr_suffix)

section \<open>Properties\<close>

text \<open>A finished block gives back exactly the entries that were added: for strictly increasing
  keys and any restart interval, as long as the block stays below four gigabytes, building
  succeeds and iterating from \<open>SeekToFirst\<close> with \<open>Next\<close> visits every entry in order and then
  becomes invalid.\<close>

theorem block_iterates:
  assumes "sorted_entries es" "block_bound es + 4 < 2 ^ 32"
  shows "\<exists>d. build_block opt es = Some d \<and>
    Option.bind (Iterator_SeekToFirst (Block_NewIterator (Block d)))
      (scan Iterator_Valid Iterator_key Iterator_value Iterator_Next (Suc (length es))) = Some es"
proof -
  obtain d ss rs where "build_block opt es = Some d" "layout d es ss rs"
    using build_block_layout [OF assms(2), of opt] by blast
  with block.scan_all [OF NewIterator_over [OF _ assms(1)]] show ?thesis by fastforce
qed

theorem block_iterates_witness:
  defines "es \<equiv> [([1], [7]), ([1, 2], [8]), ([3], [])]"
    and "opt \<equiv> \<lparr>block_size = 100, block_restart_interval = 2, compression = kNoCompression\<rparr>"
  shows "sorted_entries es \<and> block_bound es + 4 < 2 ^ 32 \<and>
   (\<exists>d. build_block opt es = Some d \<and>
    Option.bind (Iterator_SeekToFirst (Block_NewIterator (Block d)))
      (scan Iterator_Valid Iterator_key Iterator_value Iterator_Next (Suc (length es))) = Some es)"
  by (intro conjI block_iterates) (simp_all add: es_def block_bound_def)

text \<open>(C17) \<open>Seek\<close> on a finished block: the binary search over the restart points followed by the
  linear scan stops at the first key at or past the target, the entries from there on are those
  with keys not below the target, and a key is present exactly if \<open>Seek\<close> stops at it, with its
  value.\<close>

theorem block_seek:
  assumes "sorted_entries es" "block_bound es + 4 < 2 ^ 32"
  shows "\<exists>d it. build_block opt es = Some d \<and> Iterator_Seek (Block_NewIterator (Block d)) t = Some it \<and>
    Iterator_status it = OkStatus \<and>
    scan Iterator_Valid Iterator_key Iterator_value Iterator_Next (Suc (length es)) it = Some (filter (\<lambda>e. t \<le> fst e) es) \<and>
    map_of es t = (if Iterator_Valid it \<and> Iterator_key it = Some t then Iterator_value it else None)"
proof -
  obtain d ss rs where d: "build_block opt es = Some d" "layout d es ss rs"
    using build_block_layout [OF assms(2), of opt] by blast
  note over = NewIterator_over [OF d(2) assms(1)]
  obtain it where it: "Iterator_Seek (Block_NewIterator (Block d)) t = Some it" "block_pos es it (lower_bound es t)"
    using block.over_seek [OF over] by blast
  show ?thesis
    using d(1) it block.pos_status [OF it(2)] block.scan_from [OF over, of "Suc (length es)" t]
      block.seek_get [OF over it(1)] by auto
qed

theorem block_seek_witness:
  defines "es \<equiv> [([1], [7]), ([1, 2], [8]), ([3], [])]"
    and "opt \<equiv> \<lparr>block_size = 100, block_restart_interval = 2, compression = kNoCompression\<rparr>"
    and "t \<equiv> [1, 2]"
  shows "sorted_entries es \<and> block_bound es + 4 < 2 ^ 32 \<and>
   (\<exists>d it. build_block opt es = Some d \<and> Iterator_Seek (Block_NewIterator (Block d)) t = Some it \<and>
    Iterator_status it = OkStatus \<and>
    scan Iterator_Valid Iterator_key Iterator_value Iterator_Next (Suc (length es)) it = Some (filter (\<lambda>e. t \<le> fst e) es) \<and>
    map_of es t = (if Iterator_Valid it \<and> Iterator_key it = Some t then Iterator_value it else None))"
  by (intro conjI block_seek) (simp_all add: es_def block_bound_def)

text \<open>Bounds of \<open>DecodeEntry\<close> on arbitrary bytes: when the two lengths it returns do not
  overflow their 32-bit sum, the key delta and the value lie between the returned offset and
  \<open>limit\<close>, so the reads that follow stay inside the block.\<close>

theorem DecodeEntry_bounds:
  assumes "DecodeEntry data p limit = Some (shared, non_shared, value_length, q)"
    and "limit \<le> length data" "limit < 2 ^ 32" "unat non_shared + unat value_length < 2 ^ 32"
  shows "p < q \<and> q + unat non_shared + unat value_length \<le> limit \<and>
    read_at data q (unat non_shared) \<noteq> None \<and> read_at data (q + unat non_shared) (unat value_length) \<noteq> None"
proof -
  have p: "p + 3 \<le> limit" using assms(1) by (simp add: DecodeEntry_def split: if_splits)
  then obtain s s1 s2 where s: "GetVarint32Ptr (take (limit - p) (drop p data)) = Some (shared, s1)"
    "GetVarint32Ptr s1 = Some (non_shared, s2)" "GetVarint32Ptr s2 = Some (value_length, s)"
    "\<not> word_of_nat (length s) < non_shared + value_length" "q = limit - length s"
    using assms(1) unfolding DecodeEntry_varints [OF p assms(2)]
    by (auto split: option.splits prod.splits if_splits)
  have len: "length s < limit - p"
    using GetVarint32Ptr_shorter [OF s(1)] GetVarint32Ptr_shorter [OF s(2)] GetVarint32Ptr_shorter [OF s(3)] by simp
  have "unat (non_shared + value_length) = unat non_shared + unat value_length"
    using assms(4) by (subst unat_add_lem [THEN iffD1]) simp_all
  moreover have "unat (word_of_nat (length s) :: u32) = length s"
    using len assms(3) by (intro unat_of_nat_u32) linarith
  ultimately have "unat non_shared + unat value_length \<le> length s"
    using s(4) by (simp add: word_less_nat_alt not_less)
  then show ?thesis using s(5) len assms(2) by (auto simp: read_at_def)
qed

theorem DecodeEntry_bounds_witness:
  "DecodeEntry [0, 1, 1, 5, 6] 0 5 = Some (0, 1, 1, 3) \<and>
   (0 :: nat) < 3 \<and> 3 + unat (1 :: u32) + unat (1 :: u32) \<le> 5 \<and>
   read_at [0, 1, 1, 5, 6] 3 (unat (1 :: u32)) \<noteq> None \<and> read_at [0, 1, 1, 5, 6] (3 + unat (1 :: u32)) (unat (1 :: u32)) \<noteq> None"
proof -
  have "DecodeEntry [0, 1, 1, 5, 6] 0 5 = Some (0, 1, 1, 3)"
    by (simp add: DecodeEntry_def Let_def word_less_nat_alt)
  with DecodeEntry_bounds [OF this] show ?thesis by simp
qed

lemma advance_restart_index_keeps:
  "advance_restart_index it = Some it' \<Longrightarrow> it_data it' = it_data it \<and> it_value it' = it_value it"
proof (induction it rule: advance_restart_index.induct)
  case (1 it)
  then show ?case by (subst (asm) (2) advance_restart_index.simps) (auto split: if_splits option.splits)
qed

text \<open>(C37) The length check of \<open>DecodeEntry\<close> compares modulo \<open>2 ^ 32\<close>.  The entry that is encoded before the bytes \<open>rest\<close> is
  accepted exactly when the 32-bit sum of its two lengths is at most their number; so an entry with lengths that add up to
  \<open>2 ^ 32\<close> or more can be accepted, although it cannot lie in a block of less than 4 GiB.  Then the iterator reads
  the key outside the block, or it stops at the entry and its value lies outside.\<close>

theorem DecodeEntry_overflow:
  assumes data: "data = pre @ EncodeVarint32 shared @ EncodeVarint32 non_shared @ EncodeVarint32 value_length @ rest @ post"
    and len: "length data < 2 ^ 32" and limit: "limit = length data - length post"
  shows "DecodeEntry data (length pre) limit =
      (if (unat non_shared + unat value_length) mod 2 ^ 32 \<le> length rest
       then Some (shared, non_shared, value_length, limit - length rest) else None) \<and>
    (2 ^ 32 \<le> unat non_shared + unat value_length \<longrightarrow> (unat non_shared + unat value_length) mod 2 ^ 32 \<le> length rest \<longrightarrow>
     it_data it = data \<longrightarrow> it_restarts it = word_of_nat limit \<longrightarrow> it_value it = Some (length pre, 0) \<longrightarrow> unat shared \<le> length (it_key it) \<longrightarrow>
       (case ParseNextKey it of None \<Rightarrow> True | Some (found, it') \<Rightarrow> found \<and> Iter_value it' = None))"
proof -
  let ?p = "length pre" and ?q = "limit - length rest" and ?n = "unat non_shared" and ?m = "unat value_length"
  note hd = length_EncodeVarint_bounds(1) [of shared] length_EncodeVarint_bounds(1) [of non_shared] length_EncodeVarint_bounds(1) [of value_length]
  have s: "take (limit - ?p) (drop ?p data) = EncodeVarint32 shared @ EncodeVarint32 non_shared @ EncodeVarint32 value_length @ rest"
    unfolding limit by (simp add: data)
  have p: "?p + 3 \<le> limit" "limit \<le> length data" "length rest < 2 ^ 32" using hd len by (simp_all add: data limit)
  have "unat (word_of_nat (length rest) :: u32) = length rest" using p(3) by (rule unat_of_nat_u32)
  moreover have "unat (non_shared + value_length) = (?n + ?m) mod 2 ^ 32" by (simp add: unat_word_ariths)
  ultimately have "word_of_nat (length rest) < non_shared + value_length \<longleftrightarrow> \<not> (?n + ?m) mod 2 ^ 32 \<le> length rest"
    by (simp only: word_less_nat_alt not_le)
  then have dec: "DecodeEntry data ?p limit =
      (if (?n + ?m) mod 2 ^ 32 \<le> length rest then Some (shared, non_shared, value_length, ?q) else None)"
    unfolding DecodeEntry_varints [OF p(1,2)] s by simp
  have "case ParseNextKey it of None \<Rightarrow> True | Some (found, it') \<Rightarrow> found \<and> Iter_value it' = None"
    if *: "2 ^ 32 \<le> ?n + ?m" "(?n + ?m) mod 2 ^ 32 \<le> length rest" "it_data it = data" "it_restarts it = word_of_nat limit"
      "it_value it = Some (?p, 0)" "unat shared \<le> length (it_key it)"
  proof (cases "ParseNextKey it")
    case (Some r)
    have u: "unat (word_of_nat ?p :: u32) = ?p" "unat (word_of_nat limit :: u32) = limit" using p len by (simp_all add: unat_of_nat_u32)
    have "read_at data (?q + ?n) ?m = None" using *(1) len by (simp add: read_at_def)
    then show ?thesis
      using Some dec *(2-6) p(1) advance_restart_index_keeps
      by (auto simp: ParseNextKey_def NextEntryOffset_def Let_def u Iter_value_def split: option.splits if_splits)
  qed simp
  then show ?thesis using dec by blast
qed

theorem DecodeEntry_overflow_witness:
  "let data = [0, 255, 255, 255, 255, 15, 2, 0] @ [0, 0, 0, 0, 1, 0, 0, 0];
       it = \<lparr>it_data = data, it_restarts = 8, it_num_restarts = 1, it_current = 8, it_restart_index = 0,
             it_key = [], it_value = Some (0, 0), it_status = OkStatus\<rparr>
   in DecodeEntry data 0 8 = Some (0, - 1, 2, 7) \<and> (case ParseNextKey it of None \<Rightarrow> True | Some (found, it') \<Rightarrow> found \<and> Iter_value it' = None)"
proof -
  let ?d = "[0, 255, 255, 255, 255, 15, 2, 0] @ [0, 0, 0, 0, 1, 0, 0, 0] :: bytes"
  have "EncodeVarint32 0 = [0]" "EncodeVarint32 (- 1) = [255, 255, 255, 255, 15]" "EncodeVarint32 2 = [2]" by code_simp+
  then have "?d = [] @ EncodeVarint32 0 @ EncodeVarint32 (- 1) @ EncodeVarint32 2 @ [0] @ [0, 0, 0, 0, 1, 0, 0, 0]" by simp
  moreover have "unat (- 1 :: u32) = 2 ^ 32 - 1" by (simp add: unsigned_minus_1_eq_mask mask_eq_exp_minus_1)
  ultimately show ?thesis
    using DecodeEntry_overflow [of ?d "[]" 0 "- 1" 2 "[0]" "[0, 0, 0, 0, 1, 0, 0, 0]" 8
        "\<lparr>it_data = ?d, it_restarts = 8, it_num_restarts = 1, it_current = 8, it_restart_index = 0,
             it_key = [], it_value = Some (0, 0), it_status = OkStatus\<rparr>"] by (simp add: Let_def)
qed

end
