(* ===== verification/Table_Format.thy ===== *)
theory Table_Format
  imports Block Crc32c
begin

text \<open>
  The on-disk format of a table (\<open>tsl/lib/io/format.h\<close>, \<open>format.cc\<close>) and the part of
  \<open>table_builder.cc\<close> that writes a block: block handles, the footer, the trailer of a stored
  block with its type and masked checksum, and \<open>ReadBlock\<close>.

  A file to read is a function \<open>read\<close> from an offset and a length to a status, the bytes and
  whether they are in the caller's buffer (\<open>RandomAccessFile::Read\<close>); \<open>file_holds\<close> states its
  documented behaviour for a file with given contents.  The Snappy library is a record of its
  three functions, and \<open>snappy_ok\<close> states that decompression inverts compression.
\<close>

section \<open>Handles and footer\<close>

record block_handle =
  bh_offset :: u64
  bh_size :: u64

definition BlockHandle :: block_handle where
  "BlockHandle = \<lparr>bh_offset = NOT 0, bh_size = NOT 0\<rparr>"

definition kMaxEncodedLength :: nat where "kMaxEncodedLength = 10 + 10"

definition BlockHandle_EncodeTo :: "block_handle \<Rightarrow> bytes \<Rightarrow> bytes" where
  "BlockHandle_EncodeTo h dst = PutVarint64 (PutVarint64 dst (bh_offset h)) (bh_size h)"

text \<open>\<open>DecodeFrom\<close> returns the status, the handle and the input after it; a failure of the
  second varint leaves the offset already set.\<close>

definition BlockHandle_DecodeFrom :: "block_handle \<Rightarrow> bytes \<Rightarrow> status \<times> block_handle \<times> bytes" where
  "BlockHandle_DecodeFrom h input =
     (case GetVarint64 input of
        None \<Rightarrow> (Error DATA_LOSS ''bad block handle'', h, input)
      | Some (offset, input) \<Rightarrow>
          (case GetVarint64 input of
             None \<Rightarrow> (Error DATA_LOSS ''bad block handle'', h\<lparr>bh_offset := offset\<rparr>, input)
           | Some (sz, input) \<Rightarrow> (OkStatus, h\<lparr>bh_offset := offset, bh_size := sz\<rparr>, input)))"

record footer =
  ft_metaindex_handle :: block_handle
  ft_index_handle :: block_handle

definition kEncodedLength :: nat where "kEncodedLength = 2 * kMaxEncodedLength + 8"
definition kTableMagicNumber :: u64 where "kTableMagicNumber = 0xdb4775248b80fb57"
definition kBlockTrailerSize :: nat where "kBlockTrailerSize = 5"

text \<open>\<open>std::string::resize\<close> cuts the string or pads it with null characters.\<close>

definition resize :: "nat \<Rightarrow> bytes \<Rightarrow> bytes" where
  "resize n s = take n s @ replicate (n - length s) 0"

definition Footer_EncodeTo :: "footer \<Rightarrow> bytes \<Rightarrow> bytes" where
  "Footer_EncodeTo f dst =
     (let dst = BlockHandle_EncodeTo (ft_metaindex_handle f) dst;
          dst = BlockHandle_EncodeTo (ft_index_handle f) dst;
          dst = resize (2 * kMaxEncodedLength) dst;
          dst = PutFixed32 dst (ucast (kTableMagicNumber AND 0xffffffff))
      in PutFixed32 dst (ucast (drop_bit 32 kTableMagicNumber)))"

text \<open>The magic number is read at a fixed distance from the start of the input; an input that
  is too short for it is read past its end (\<open>None\<close>).\<close>

definition Footer_DecodeFrom :: "footer \<Rightarrow> bytes \<Rightarrow> (status \<times> footer \<times> bytes) option" where
  "Footer_DecodeFrom f input =
     (if length input < kEncodedLength then None
      else
        let magic_ptr = drop (kEncodedLength - 8) input;
            magic_lo = DecodeFixed32 magic_ptr;
            magic_hi = DecodeFixed32 (drop 4 magic_ptr);
            magic = push_bit 32 (ucast magic_hi) OR ucast magic_lo :: u64
        in if magic \<noteq> kTableMagicNumber
           then Some (Error DATA_LOSS ''not an sstable (bad magic number)'', f, input)
           else
             let (result, h1, input1) = BlockHandle_DecodeFrom (ft_metaindex_handle f) input;
                 f = f\<lparr>ft_metaindex_handle := h1\<rparr>
             in if \<not> ok result then Some (result, f, input1)
                else
                  let (result, h2, input2) = BlockHandle_DecodeFrom (ft_index_handle f) input1;
                      f = f\<lparr>ft_index_handle := h2\<rparr>
                  in if \<not> ok result then Some (result, f, input2)
                     else Some (result, f, drop 8 magic_ptr))"

section \<open>Stored blocks\<close>

record snappy =
  Snappy_Compress :: "bytes \<Rightarrow> bytes option"
  Snappy_GetUncompressedLength :: "bytes \<Rightarrow> nat option"
  Snappy_Uncompress :: "bytes \<Rightarrow> bytes option"

definition snappy_ok :: "snappy \<Rightarrow> bool" where
  "snappy_ok sn \<longleftrightarrow> (\<forall>raw c. Snappy_Compress sn raw = Some c \<longrightarrow>
     Snappy_GetUncompressedLength sn c = Some (length raw) \<and> Snappy_Uncompress sn c = Some raw)"

fun compression_byte :: "CompressionType \<Rightarrow> byte" where
  "compression_byte kNoCompression = 0"
| "compression_byte kSnappyCompression = 1"

text \<open>The compression step of \<open>WriteBlock\<close>: what is stored, and the type in its trailer.\<close>

definition compress_block :: "snappy \<Rightarrow> CompressionType \<Rightarrow> bytes \<Rightarrow> bytes \<times> CompressionType" where
  "compress_block sn ctype raw =
     (case ctype of
        kNoCompression \<Rightarrow> (raw, kNoCompression)
      | kSnappyCompression \<Rightarrow>
          (case Snappy_Compress sn raw of
             Some compressed \<Rightarrow>
               if length compressed < length raw - length raw div 8 then (compressed, kSnappyCompression)
               else (raw, kNoCompression)
           | None \<Rightarrow> (raw, kNoCompression)))"

definition block_trailer :: "bytes \<Rightarrow> CompressionType \<Rightarrow> bytes" where
  "block_trailer block_contents ctype =
     (let crc = Value block_contents;
          crc = Extend 0 crc [compression_byte ctype]
      in compression_byte ctype # EncodeFixed32 (Mask crc))"

record block_contents =
  bc_data :: bytes
  bc_cacheable :: bool
  bc_heap_allocated :: bool

type_synonym file_reader = "u64 \<Rightarrow> nat \<Rightarrow> status \<times> bytes \<times> bool"

definition ReadBlock :: "snappy \<Rightarrow> file_reader \<Rightarrow> block_handle \<Rightarrow> status \<times> block_contents" where
  "ReadBlock sn read handle =
     (let result = \<lparr>bc_data = [], bc_cacheable = False, bc_heap_allocated = False\<rparr>;
          n = unat (bh_size handle)
      in if kBlockTrailerSize > SIZE_MAX - n then (Error DATA_LOSS ''handle.size() too big'', result)
         else
           let (s, contents, in_buf) = read (bh_offset handle) (n + kBlockTrailerSize) in
           if \<not> ok s then (s, result)
           else if length contents \<noteq> n + kBlockTrailerSize
           then (Error DATA_LOSS ''truncated block read'', result)
           else
             let crc = Unmask (DecodeFixed32 (drop (n + 1) contents));
                 actual = Value (take (n + 1) contents)
             in if actual \<noteq> crc then (Error DATA_LOSS ''block checksum mismatch'', result)
                else if contents ! n = compression_byte kNoCompression
                then (OkStatus, \<lparr>bc_data = take n contents, bc_cacheable = in_buf, bc_heap_allocated = in_buf\<rparr>)
                else if contents ! n = compression_byte kSnappyCompression
                then (case Snappy_GetUncompressedLength sn (take n contents) of
                        None \<Rightarrow> (Error DATA_LOSS ''corrupted compressed block contents'', result)
                      | Some ulength \<Rightarrow>
                          (case Snappy_Uncompress sn (take n contents) of
                             None \<Rightarrow> (Error DATA_LOSS ''corrupted compressed block contents'', result)
                           | Some ubuf \<Rightarrow>
                               (OkStatus, \<lparr>bc_data = take ulength ubuf, bc_cacheable = True, bc_heap_allocated = True\<rparr>)))
                else (Error DATA_LOSS ''bad block type'', result))"

section \<open>Round trips\<close>

text \<open>The documented behaviour of reading a file that holds given bytes.\<close>

definition file_holds :: "file_reader \<Rightarrow> bytes \<Rightarrow> bool" where
  "file_holds read bs \<longleftrightarrow> (\<forall>off n. if unat off + n \<le> length bs
     then \<exists>b. read off n = (OkStatus, take n (drop (unat off) bs), b)
     else \<not> ok (fst (read off n)))"

lemma BlockHandle_roundtrip:
  "BlockHandle_DecodeFrom h' (BlockHandle_EncodeTo h [] @ rest) = (OkStatus, h, rest)"
  by (simp add: BlockHandle_DecodeFrom_def BlockHandle_EncodeTo_def PutVarint64_def)

lemma BlockHandle_EncodeTo_append: "BlockHandle_EncodeTo h dst = dst @ BlockHandle_EncodeTo h []"
  by (simp add: BlockHandle_EncodeTo_def PutVarint64_def)

lemma length_BlockHandle_EncodeTo: "length (BlockHandle_EncodeTo h []) \<le> kMaxEncodedLength"
  using length_EncodeVarint_bounds(2) [of "bh_offset h"] length_EncodeVarint_bounds(2) [of "bh_size h"]
  by (simp add: BlockHandle_EncodeTo_def PutVarint64_def kMaxEncodedLength_def)

lemma length_Footer_EncodeTo: "length (Footer_EncodeTo f []) = kEncodedLength"
  by (simp add: Footer_EncodeTo_def Let_def resize_def PutFixed32_def kEncodedLength_def kMaxEncodedLength_def)

lemma Footer_roundtrip:
  "Footer_DecodeFrom f' (Footer_EncodeTo f [] @ rest) = Some (OkStatus, f, rest)"
proof -
  let ?m = "BlockHandle_EncodeTo (ft_metaindex_handle f) []" and ?i = "BlockHandle_EncodeTo (ft_index_handle f) []"
  let ?lo = "0x8b80fb57 :: u32" and ?hi = "0xdb477524 :: u32"
  obtain pad where pad: "resize 40 (?m @ ?i) = ?m @ ?i @ pad" "length (?m @ ?i @ pad) = 40"
    using length_BlockHandle_EncodeTo [of "ft_metaindex_handle f"] length_BlockHandle_EncodeTo [of "ft_index_handle f"]
    by (simp add: resize_def kMaxEncodedLength_def)
  have enc: "Footer_EncodeTo f [] = (?m @ ?i @ pad) @ EncodeFixed32 ?lo @ EncodeFixed32 ?hi"
    using pad BlockHandle_EncodeTo_append [of "ft_index_handle f" ?m]
    by (simp add: Footer_EncodeTo_def Let_def kMaxEncodedLength_def PutFixed32_def kTableMagicNumber_def)
  have dr: "drop 40 (Footer_EncodeTo f [] @ rest) = EncodeFixed32 ?lo @ EncodeFixed32 ?hi @ rest"
    unfolding enc using pad(2) by simp
  have len: "\<not> length (Footer_EncodeTo f [] @ rest) < kEncodedLength" by (simp add: length_Footer_EncodeTo)
  have d1: "BlockHandle_DecodeFrom h (Footer_EncodeTo f [] @ rest) =
      (OkStatus, ft_metaindex_handle f, ?i @ pad @ EncodeFixed32 ?lo @ EncodeFixed32 ?hi @ rest)" for h
    unfolding enc by (simp add: BlockHandle_roundtrip)
  have k: "kEncodedLength - 8 = 40" by (simp add: kEncodedLength_def kMaxEncodedLength_def)
  show ?thesis
    unfolding Footer_DecodeFrom_def k Let_def if_not_P [OF len] dr d1
    by (simp add: kTableMagicNumber_def BlockHandle_roundtrip)
qed

text \<open>A file holds under a handle a block that decodes to \<open>d\<close>.\<close>

definition stored_block :: "snappy \<Rightarrow> bytes \<Rightarrow> block_handle \<Rightarrow> bytes \<Rightarrow> bool" where
  "stored_block sn bs h d \<longleftrightarrow> (\<exists>payload ctype pre post.
     bs = pre @ payload @ block_trailer payload ctype @ post \<and>
     length bs < 2 ^ 64 \<and> bh_offset h = word_of_nat (length pre) \<and> bh_size h = word_of_nat (length payload) \<and>
     (case ctype of kNoCompression \<Rightarrow> payload = d
      | kSnappyCompression \<Rightarrow> Snappy_GetUncompressedLength sn payload = Some (length d) \<and>
          Snappy_Uncompress sn payload = Some d))"

lemma unat_of_nat_u64: "n < 2 ^ 64 \<Longrightarrow> unat (word_of_nat n :: u64) = n"
  by (simp add: unat_of_nat)

lemma length_block_trailer [simp]: "length (block_trailer p ty) = 5"
  by (simp add: block_trailer_def Let_def)

lemma stored_block_append:
  assumes "stored_block sn bs h d" "length (bs @ x) < 2 ^ 64"
  shows "stored_block sn (bs @ x) h d"
proof -
  from assms(1) obtain payload ctype pre post where *:
    "bs = pre @ payload @ block_trailer payload ctype @ post"
    "bh_offset h = word_of_nat (length pre)" "bh_size h = word_of_nat (length payload)"
    "case ctype of kNoCompression \<Rightarrow> payload = d
      | kSnappyCompression \<Rightarrow> Snappy_GetUncompressedLength sn payload = Some (length d) \<and>
          Snappy_Uncompress sn payload = Some d"
    unfolding stored_block_def by blast
  then show ?thesis unfolding stored_block_def using assms(2)
    by (intro exI [of _ payload] exI [of _ ctype] exI [of _ pre] exI [of _ "post @ x"]) simp
qed

lemma stored_block_new:
  assumes "snappy_ok sn" "compress_block sn ty raw = (payload, ctype)"
    and "length (bs @ payload @ block_trailer payload ctype) < 2 ^ 64"
  shows "stored_block sn (bs @ payload @ block_trailer payload ctype)
    \<lparr>bh_offset = word_of_nat (length bs), bh_size = word_of_nat (length payload)\<rparr> raw"
proof -
  have "case ctype of kNoCompression \<Rightarrow> payload = raw
      | kSnappyCompression \<Rightarrow> Snappy_GetUncompressedLength sn payload = Some (length raw) \<and>
          Snappy_Uncompress sn payload = Some raw"
    using assms(1,2) unfolding compress_block_def snappy_ok_def
    by (auto split: CompressionType.splits option.splits if_splits)
  with assms(3) show ?thesis unfolding stored_block_def
    by (intro exI [of _ payload] exI [of _ ctype] exI [of _ bs] exI [of _ "[]"]) simp
qed

lemma compress_block_length: "length (fst (compress_block sn ty raw)) \<le> length raw"
  by (auto simp: compress_block_def split: CompressionType.split option.split)

lemma ReadBlock_checked:
  assumes "file_holds read bs" "length bs < 2 ^ 64"
    and "bs = pre @ payload @ [ty] @ c @ post" "length c = 4"
    and "bh_offset h = word_of_nat (length pre)" "bh_size h = word_of_nat (length payload)"
  obtains b where "ReadBlock sn read h =
    (if Value (payload @ [ty]) \<noteq> Unmask (DecodeFixed32 c)
     then (Error DATA_LOSS ''block checksum mismatch'',
           \<lparr>bc_data = [], bc_cacheable = False, bc_heap_allocated = False\<rparr>)
     else if ty = 0 then (OkStatus, \<lparr>bc_data = payload, bc_cacheable = b, bc_heap_allocated = b\<rparr>)
     else if ty = 1
     then (case Snappy_GetUncompressedLength sn payload of
             None \<Rightarrow> (Error DATA_LOSS ''corrupted compressed block contents'',
                      \<lparr>bc_data = [], bc_cacheable = False, bc_heap_allocated = False\<rparr>)
           | Some ulength \<Rightarrow>
               (case Snappy_Uncompress sn payload of
                  None \<Rightarrow> (Error DATA_LOSS ''corrupted compressed block contents'',
                           \<lparr>bc_data = [], bc_cacheable = False, bc_heap_allocated = False\<rparr>)
                | Some ubuf \<Rightarrow>
                    (OkStatus, \<lparr>bc_data = take ulength ubuf, bc_cacheable = True, bc_heap_allocated = True\<rparr>)))
     else (Error DATA_LOSS ''bad block type'',
           \<lparr>bc_data = [], bc_cacheable = False, bc_heap_allocated = False\<rparr>))"
proof -
  have n: "unat (bh_size h) = length payload" and off: "unat (bh_offset h) = length pre"
    using assms(2,3) unfolding assms(5,6) by (intro unat_of_nat_u64; simp)+
  have fit: "\<not> SIZE_MAX - length payload < kBlockTrailerSize"
    using assms(2-4) by (simp add: kBlockTrailerSize_def)
  have "unat (bh_offset h) + (length payload + kBlockTrailerSize) \<le> length bs"
    using assms(3,4) off by (simp add: kBlockTrailerSize_def)
  then obtain b where "read (bh_offset h) (length payload + kBlockTrailerSize) =
      (OkStatus, take (length payload + kBlockTrailerSize) (drop (length pre) bs), b)"
    using assms(1) off unfolding file_holds_def by metis
  moreover have "take (length payload + kBlockTrailerSize) (drop (length pre) bs) = payload @ [ty] @ c"
    using assms(3,4) by (simp add: kBlockTrailerSize_def)
  ultimately have rd: "read (bh_offset h) (length payload + kBlockTrailerSize) = (OkStatus, payload @ [ty] @ c, b)"
    by simp
  show ?thesis
    by (rule that [of b], unfold ReadBlock_def Let_def n rd)
       (use fit assms(4) in \<open>simp add: kBlockTrailerSize_def nth_append split: option.split\<close>)
qed

lemma block_trailer_checks:
  "\<exists>c. block_trailer payload ctype = [compression_byte ctype] @ c \<and> length c = 4 \<and>
     Unmask (DecodeFixed32 c) = Value (payload @ [compression_byte ctype])"
  using DecodeFixed_EncodeFixed(2) [of _ "[]"]
  by (simp add: block_trailer_def Let_def Unmask_Mask Value_reference Extend_reference crc32c_reference_append)

lemma ReadBlock_stored:
  assumes "file_holds read bs" "stored_block sn bs h d"
  shows "\<exists>c. ReadBlock sn read h = (OkStatus, c) \<and> bc_data c = d"
proof -
  from assms(2) obtain payload ctype pre post where *:
    "bs = pre @ payload @ block_trailer payload ctype @ post" "length bs < 2 ^ 64"
    "bh_offset h = word_of_nat (length pre)" "bh_size h = word_of_nat (length payload)"
    "case ctype of kNoCompression \<Rightarrow> payload = d
      | kSnappyCompression \<Rightarrow> Snappy_GetUncompressedLength sn payload = Some (length d) \<and>
          Snappy_Uncompress sn payload = Some d"
    unfolding stored_block_def by blast
  obtain c where c: "block_trailer payload ctype = [compression_byte ctype] @ c" "length c = 4"
     "Unmask (DecodeFixed32 c) = Value (payload @ [compression_byte ctype])"
    using block_trailer_checks by blast
  have "bs = pre @ payload @ [compression_byte ctype] @ c @ post" using *(1) c(1) by simp
  then show ?thesis
  proof (rule ReadBlock_checked [OF assms(1) *(2) _ c(2) *(3,4), where sn = sn], goal_cases)
    case (1 b)
    then show ?thesis using c(3) *(5) by - (cases ctype, auto)
  qed
qed

section \<open>Properties\<close>

text \<open>Handles and footers round-trip: a decoded handle or footer is the one that was encoded,
  whatever the object held before, with the rest of the input; an encoded footer has exactly
  \<open>kEncodedLength\<close> bytes.\<close>

theorem footer_roundtrip:
  "BlockHandle_DecodeFrom h' (BlockHandle_EncodeTo h [] @ rest) = (OkStatus, h, rest) \<and>
   Footer_DecodeFrom f' (Footer_EncodeTo f [] @ rest) = Some (OkStatus, f, rest) \<and>
   length (Footer_EncodeTo f []) = kEncodedLength"
  by (simp add: BlockHandle_roundtrip Footer_roundtrip length_Footer_EncodeTo)

text \<open>Writing a block and reading it back: a block appended to a file in the form the table
  builder gives it (compressed when that pays off, then type and masked checksum) is returned
  unchanged by \<open>ReadBlock\<close>, also when more is appended later, for any file implementation and any
  compression library that behave as documented.\<close>

theorem ReadBlock_written:
  assumes "snappy_ok sn" "compress_block sn ctype raw = (payload, stored)"
    and "file_holds read (bs @ payload @ block_trailer payload stored @ later)"
    and "length (bs @ payload @ block_trailer payload stored @ later) < 2 ^ 64"
  shows "\<exists>c. ReadBlock sn read \<lparr>bh_offset = word_of_nat (length bs), bh_size = word_of_nat (length payload)\<rparr> =
    (OkStatus, c) \<and> bc_data c = raw"
proof -
  have "length (bs @ payload @ block_trailer payload stored) < 2 ^ 64" using assms(4) by simp
  from stored_block_new [OF assms(1,2) this] assms(3,4) show ?thesis
    by (intro ReadBlock_stored [OF assms(3)] stored_block_append [of _ "bs @ payload @ block_trailer payload stored" _ _ later, simplified])
       simp_all
qed

definition mem_reader :: "bytes \<Rightarrow> file_reader" where
  "mem_reader bs off n =
     (if unat off + n \<le> length bs then (OkStatus, take n (drop (unat off) bs), True)
      else (Error OUT_OF_RANGE ''eof'', drop (unat off) bs, True))"

definition no_snappy :: snappy where
  "no_snappy = \<lparr>Snappy_Compress = \<lambda>raw. None, Snappy_GetUncompressedLength = \<lambda>c. None,
     Snappy_Uncompress = \<lambda>c. None\<rparr>"

lemma file_holds_mem_reader: "file_holds (mem_reader bs) bs"
  by (auto simp: file_holds_def mem_reader_def)

lemma snappy_ok_no_snappy: "snappy_ok no_snappy"
  by (simp add: snappy_ok_def no_snappy_def)

theorem ReadBlock_written_witness:
  "\<exists>c. ReadBlock no_snappy (mem_reader ([9] @ [1, 2, 3] @ block_trailer [1, 2, 3] kNoCompression @ []))
     \<lparr>bh_offset = word_of_nat (length [9 :: byte]), bh_size = word_of_nat (length [1, 2, 3 :: byte])\<rparr> =
    (OkStatus, c) \<and> bc_data c = [1, 2, 3]"
  by (rule ReadBlock_written [OF snappy_ok_no_snappy, where ctype = kSnappyCompression and later = "[]"])
     (rule file_holds_mem_reader | simp add: compress_block_def no_snappy_def)+

text \<open>A byte of the contents or the type byte was changed.\<close>

lemma damaged_contents:
  assumes c: "length c = 4" "Unmask (DecodeFixed32 c) = Value w" and w: "w = payload @ [t]" and i: "i < length w" "w ! i \<noteq> b"
    and holds: "file_holds read (pre @ w[i := b] @ c @ post)" and len: "length (pre @ w @ c @ post) < 2 ^ 64"
  shows "fst (ReadBlock sn read \<lparr>bh_offset = word_of_nat (length pre), bh_size = word_of_nat (length payload)\<rparr>) =
    Error DATA_LOSS ''block checksum mismatch''"
proof -
  obtain p' t' where w': "w[i := b] = p' @ [t']" and len': "length p' = length payload" unfolding w
    by (metis append_butlast_last_id length_append_singleton length_butlast length_list_update
        list.size(3) nat.distinct(1) diff_Suc_1)
  have "w = take i w @ w ! i # drop (Suc i) w" "w[i := b] = take i w @ b # drop (Suc i) w"
    using i(1) by (intro id_take_nth_drop upd_conv_take_nth_drop; simp)+
  then have "Value (p' @ [t']) \<noteq> Unmask (DecodeFixed32 c)"
    unfolding c(2) w' [symmetric] Value_reference using crc32c_single_byte [OF i(2), of 0] by metis
  moreover have holds': "file_holds read (pre @ p' @ [t'] @ c @ post)" using holds by (simp add: w')
  have "length (pre @ p' @ [t'] @ c @ post) < 2 ^ 64" using len len' w by simp
  note ReadBlock_checked [OF holds' this refl c(1), of "\<lparr>bh_offset = word_of_nat (length pre), bh_size = word_of_nat (length payload)\<rparr>" sn]
  ultimately show ?thesis using len' by fastforce
qed

text \<open>A byte of the stored checksum was changed.\<close>

lemma damaged_checksum:
  assumes c: "length c = 4" "Unmask (DecodeFixed32 c) = Value (payload @ [t])" and i: "i < 4" "c ! i \<noteq> b"
    and holds: "file_holds read (pre @ payload @ [t] @ c[i := b] @ post)" and len: "length (pre @ payload @ [t] @ c @ post) < 2 ^ 64"
  shows "fst (ReadBlock sn read \<lparr>bh_offset = word_of_nat (length pre), bh_size = word_of_nat (length payload)\<rparr>) =
    Error DATA_LOSS ''block checksum mismatch''"
proof -
  let ?c = "c[i := b]"
  have "?c \<noteq> c" using i c(1) by (metis nth_list_update_eq)
  then have "DecodeFixed32 ?c \<noteq> DecodeFixed32 c" using EncodeFixed32_DecodeFixed32 [of ?c] EncodeFixed32_DecodeFixed32 [OF c(1)] c(1) by auto
  then have "Value (payload @ [t]) \<noteq> Unmask (DecodeFixed32 ?c)" unfolding c(2) [symmetric] by (metis Mask_Unmask)
  moreover have "length (pre @ payload @ [t] @ ?c @ post) < 2 ^ 64" "length ?c = 4" using len c(1) by simp_all
  note ReadBlock_checked [OF holds this(1) refl this(2), of "\<lparr>bh_offset = word_of_nat (length pre), bh_size = word_of_nat (length payload)\<rparr>" sn]
  ultimately show ?thesis by fastforce
qed

text \<open>(C28) A stored block with one damaged byte is never accepted: if one byte of the contents, the type byte or one of the four bytes
  of the stored checksum differs from what was written, \<open>ReadBlock\<close> reports a checksum mismatch.\<close>

theorem ReadBlock_detects_damage:
  assumes "block = payload @ block_trailer payload stored" "i < length block" "block ! i \<noteq> b"
    and "file_holds read (pre @ block[i := b] @ post)" "length (pre @ block @ post) < 2 ^ 64"
  shows "fst (ReadBlock sn read \<lparr>bh_offset = word_of_nat (length pre), bh_size = word_of_nat (length payload)\<rparr>) =
    Error DATA_LOSS ''block checksum mismatch''"
proof -
  let ?t = "compression_byte stored"
  obtain c where c: "block_trailer payload stored = [?t] @ c" "length c = 4" "Unmask (DecodeFixed32 c) = Value (payload @ [?t])"
    using block_trailer_checks by blast
  have block: "block = (payload @ [?t]) @ c" by (simp add: assms(1) c(1))
  show ?thesis
  proof (cases "i < length (payload @ [?t])")
    case True
    then have "block[i := b] = (payload @ [?t])[i := b] @ c" "(payload @ [?t]) ! i \<noteq> b"
      using assms(3) list_update_append1 [OF True] nth_append_left [OF True] unfolding block by metis+
    then show ?thesis using damaged_contents [OF c(2,3) refl True] assms(4,5) by (simp add: block)
  next
    case False
    let ?j = "i - length (payload @ [?t])"
    have "block[i := b] = (payload @ [?t]) @ c[?j := b]" "c ! ?j \<noteq> b"
      using assms(3) False list_update_append [of "payload @ [?t]" c i b] nth_append [of "payload @ [?t]" c i] unfolding block by metis+
    moreover have "?j < 4" using assms(2) False c(2) by (simp add: block)
    ultimately show ?thesis using damaged_checksum [OF c(2,3), of ?j b read pre post sn] assms(4,5) by (simp add: block)
  qed
qed

theorem ReadBlock_detects_damage_witness:
  "fst (ReadBlock no_snappy (mem_reader ([] @ ([1, 2] @ block_trailer [1, 2] kNoCompression)[1 := 7] @ []))
     \<lparr>bh_offset = word_of_nat (length ([] :: bytes)), bh_size = word_of_nat (length [1, 2 :: byte])\<rparr>) =
    Error DATA_LOSS ''block checksum mismatch'' \<and>
   fst (ReadBlock no_snappy (mem_reader ([] @ ([1, 2] @ block_trailer [1, 2] kNoCompression)[6 := ([1, 2] @ block_trailer [1, 2] kNoCompression) ! 6 + 1] @ []))
     \<lparr>bh_offset = word_of_nat (length ([] :: bytes)), bh_size = word_of_nat (length [1, 2 :: byte])\<rparr>) =
    Error DATA_LOSS ''block checksum mismatch''"
proof (rule conjI; rule ReadBlock_detects_damage [OF refl _ _ file_holds_mem_reader])
qed (simp_all add: block_trailer_def Let_def)

end
