(* ===== verification/Snappy_Stream.thy ===== *)
theory Snappy_Stream
  imports Streams Table_Format
begin

text \<open>
  \<open>tsl/lib/io/snappy/snappy_inputstream.cc\<close> and \<open>snappy_outputbuffer.cc\<close>: a file that compresses what
  is appended to it in blocks, and the stream that reads it.

  The snappy library is the parameter \<open>sn\<close> of \<open>Table_Format\<close>.  Of the arrays the records keep the
  bytes that count: those not yet read, not yet compressed and not yet written.  \<open>None\<close> stands for a
  call that does not return: a loop without end, a failed allocation, or a write outside an array.
\<close>

section \<open>Reading\<close>

text \<open>The contents of memory that the code does not initialise.\<close>

record uninitialised =
  ui_bytes :: "nat \<Rightarrow> bytes"
  ui_u32 :: u32

record 's snappy_stream =
  si_input_stream :: 's
  si_output_buffer_bytes :: nat
  si_bytes_read :: int
  si_avail :: bytes

definition SnappyInputStream :: "'s \<Rightarrow> nat \<Rightarrow> 's snappy_stream" where
  "SnappyInputStream stream output_buffer_bytes =
     \<lparr>si_input_stream = stream, si_output_buffer_bytes = output_buffer_bytes, si_bytes_read = 0, si_avail = []\<rparr>"

definition ReadBytesFromCache :: "nat \<Rightarrow> 's snappy_stream \<Rightarrow> bytes \<times> 's snappy_stream" where
  "ReadBytesFromCache bytes_to_read st =
     (let can_read_bytes = min bytes_to_read (length (si_avail st))
      in (take can_read_bytes (si_avail st),
          st\<lparr>si_avail := drop can_read_bytes (si_avail st), si_bytes_read := si_bytes_read st + int can_read_bytes\<rparr>))"

text \<open>The length of a block from its four bytes; the variable it is assembled in is not initialised.\<close>

definition block_length :: "u32 \<Rightarrow> bytes \<Rightarrow> u32" where
  "block_length w ts = foldl (\<lambda>l b. push_bit 8 l OR ucast b) w (take 4 ts)"

definition Inflate ::
  "uninitialised \<Rightarrow> snappy \<Rightarrow> 's stream_ops \<Rightarrow> 's snappy_stream \<Rightarrow> (status \<times> 's snappy_stream) option" where
  "Inflate ui sn ops st =
     (case op_ReadNBytes ops 4 [] (si_input_stream st) of
        None \<Rightarrow> None
      | Some (s, compressed_block_length_ts, input) \<Rightarrow>
          let st = st\<lparr>si_input_stream := input\<rparr> in
          if \<not> ok s then Some (s, st)
          else
            let compressed_block_length = block_length (ui_u32 ui) compressed_block_length_ts in
            (case op_ReadNBytes ops (int (unat compressed_block_length)) (ui_bytes ui (unat compressed_block_length)) input of
               None \<Rightarrow> None
             | Some (s, compressed_block, input) \<Rightarrow>
                 let st = st\<lparr>si_input_stream := input\<rparr> in
                 if IsOutOfRange s
                 then Some (Error DATA_LOSS ''Failed to read bytes from file. Possible data corruption.'', st)
                 else if \<not> ok s then Some (s, st)
                 else
                   (case Snappy_GetUncompressedLength sn compressed_block of
                      None \<Rightarrow> Some (Error DATA_LOSS ''Parsing error in Snappy_GetUncompressedLength'', st)
                    | Some uncompressed_length \<Rightarrow>
                        if si_output_buffer_bytes st < uncompressed_length
                        then Some (Error RESOURCE_EXHAUSTED ''Output buffer too small.'', st)
                        else
                          (case Snappy_Uncompress sn compressed_block of
                             None \<Rightarrow> Some (Error DATA_LOSS ''Snappy_Uncompress failed.'', st)
                           | Some data \<Rightarrow>
                               Some (OkStatus, st\<lparr>si_avail := take (length (si_avail st) + uncompressed_length) data\<rparr>)))))"

text \<open>The loop of \<open>ReadNBytes\<close>; \<open>result\<close> are the bytes before \<open>result_ptr\<close>.\<close>

partial_function (option) Snappy_read_loop ::
  "uninitialised \<Rightarrow> snappy \<Rightarrow> 's stream_ops \<Rightarrow> nat \<Rightarrow> bytes \<Rightarrow> 's snappy_stream \<Rightarrow> (status \<times> bytes \<times> 's snappy_stream) option" where
  "Snappy_read_loop ui sn ops bytes_to_read result st =
     (if bytes_to_read > 0 then
        (case Inflate ui sn ops st of
           None \<Rightarrow> None
         | Some (s, st) \<Rightarrow>
             if \<not> ok s then Some (s, result @ drop (length result) (ui_bytes ui (length result + bytes_to_read)), st)
             else
               let (data, st) = ReadBytesFromCache bytes_to_read st
               in Snappy_read_loop ui sn ops (bytes_to_read - length data) (result @ data) st)
      else Some (OkStatus, result, st))"

definition Snappy_ReadNBytes ::
  "uninitialised \<Rightarrow> snappy \<Rightarrow> 's stream_ops \<Rightarrow> int \<Rightarrow> bytes \<Rightarrow> 's snappy_stream \<Rightarrow> (status \<times> bytes \<times> 's snappy_stream) option" where
  "Snappy_ReadNBytes ui sn ops bytes_to_read result st =
     (if bytes_to_read < 0 then None
      else
        let (data, st) = ReadBytesFromCache (nat bytes_to_read) st
        in Snappy_read_loop ui sn ops (nat bytes_to_read - length data) data st)"

definition Snappy_Tell :: "'s snappy_stream \<Rightarrow> int" where
  "Snappy_Tell st = si_bytes_read st"

definition Snappy_Reset :: "'s stream_ops \<Rightarrow> 's snappy_stream \<Rightarrow> status \<times> 's snappy_stream" where
  "Snappy_Reset ops st =
     (let (s, input) = op_Reset ops (si_input_stream st); st = st\<lparr>si_input_stream := input\<rparr> in
      if \<not> ok s then (s, st) else (OkStatus, st\<lparr>si_avail := [], si_bytes_read := 0\<rparr>))"

text \<open>\<open>SkipNBytes\<close> is inherited: it calls the other methods of the class.\<close>

definition snappy_base_ops :: "uninitialised \<Rightarrow> snappy \<Rightarrow> 's stream_ops \<Rightarrow> 's snappy_stream stream_ops" where
  "snappy_base_ops ui sn ops = \<lparr>op_ReadNBytes = Snappy_ReadNBytes ui sn ops, op_SkipNBytes = \<lambda>n st. None,
     op_Tell = Snappy_Tell, op_Reset = Snappy_Reset ops\<rparr>"

definition snappy_ops :: "uninitialised \<Rightarrow> snappy \<Rightarrow> 's stream_ops \<Rightarrow> 's snappy_stream stream_ops" where
  "snappy_ops ui sn ops =
     (snappy_base_ops ui sn ops)\<lparr>op_SkipNBytes := InputStreamInterface_SkipNBytes (snappy_base_ops ui sn ops)\<rparr>"

section \<open>Writing\<close>

record 'f snappy_output =
  so_file :: 'f
  so_input_buffer_capacity :: nat
  so_in :: bytes
  so_output_buffer_capacity :: nat
  so_out :: bytes

definition SnappyOutputBuffer :: "'f \<Rightarrow> nat \<Rightarrow> nat \<Rightarrow> 'f snappy_output" where
  "SnappyOutputBuffer file input_buffer_bytes output_buffer_bytes =
     \<lparr>so_file = file, so_input_buffer_capacity = input_buffer_bytes, so_in = [],
      so_output_buffer_capacity = output_buffer_bytes, so_out = []\<rparr>"

text \<open>\<open>static_cast<int32>\<close> of a \<open>size_t\<close>.\<close>

definition to_int32 :: "nat \<Rightarrow> int" where
  "to_int32 n = sint (word_of_nat n :: u32)"

definition AvailableInputSpace :: "'f snappy_output \<Rightarrow> int" where
  "AvailableInputSpace o' = sint (word_of_nat (so_input_buffer_capacity o') - word_of_nat (length (so_in o')) :: u32)"

text \<open>The bytes at \<open>next_in_\<close> are moved to the front of the buffer when the new ones do not fit behind them; \<open>None\<close> is a
  copy past the end of the buffer.\<close>

definition AddToInputBuffer :: "bytes \<Rightarrow> 'f snappy_output \<Rightarrow> 'f snappy_output option" where
  "AddToInputBuffer data o' =
     (if length (so_in o') + length data > so_input_buffer_capacity o' then None
      else Some (o'\<lparr>so_in := so_in o' @ data\<rparr>))"

definition FlushOutputBufferToFile :: "'f appender \<Rightarrow> 'f snappy_output \<Rightarrow> status \<times> 'f snappy_output" where
  "FlushOutputBufferToFile app o' =
     (if so_out o' \<noteq> [] then
        let (s, f) = app (so_file o') (so_out o'); o' = o'\<lparr>so_file := f\<rparr>
        in (s, if ok s then o'\<lparr>so_out := []\<rparr> else o')
      else (OkStatus, o'))"

partial_function (option) AddToOutputBuffer :: "'f appender \<Rightarrow> bytes \<Rightarrow> 'f snappy_output \<Rightarrow> (status \<times> 'f snappy_output) option" where
  "AddToOutputBuffer app data o' =
     (if data \<noteq> [] then
        let bytes_to_copy = min (length data) (so_output_buffer_capacity o' - length (so_out o'));
            o' = o'\<lparr>so_out := so_out o' @ take bytes_to_copy data\<rparr>;
            data = drop bytes_to_copy data
        in if so_output_buffer_capacity o' - length (so_out o') = 0 then
             let (s, o') = FlushOutputBufferToFile app o' in
             if \<not> ok s then Some (s, o') else AddToOutputBuffer app data o'
           else AddToOutputBuffer app data o'
      else Some (OkStatus, o'))"

text \<open>The four bytes before a block.\<close>

definition compressed_length_array :: "nat \<Rightarrow> bytes" where
  "compressed_length_array n = map (\<lambda>i. word_of_nat (n div 2 ^ (8 * (3 - i)))) [0..<4]"

definition Deflate :: "snappy \<Rightarrow> 'f appender \<Rightarrow> 'f snappy_output \<Rightarrow> (status \<times> 'f snappy_output) option" where
  "Deflate sn app o' =
     (if so_in o' = [] then Some (OkStatus, o')
      else
        (case Snappy_Compress sn (so_in o') of
           None \<Rightarrow> Some (Error DATA_LOSS ''Snappy_Compress failed'', o')
         | Some compressed \<Rightarrow>
             (case AddToOutputBuffer app (compressed_length_array (length compressed)) o' of
                None \<Rightarrow> None
              | Some (s, o') \<Rightarrow>
                  if \<not> ok s then Some (s, o')
                  else
                    (case AddToOutputBuffer app compressed o' of
                       None \<Rightarrow> None
                     | Some (s, o') \<Rightarrow> if \<not> ok s then Some (s, o') else Some (OkStatus, o'\<lparr>so_in := []\<rparr>)))))"

definition DeflateBuffered :: "snappy \<Rightarrow> 'f appender \<Rightarrow> 'f snappy_output \<Rightarrow> (status \<times> 'f snappy_output) option" where
  "DeflateBuffered sn app o' = Deflate sn app o'"

definition Snappy_Write :: "snappy \<Rightarrow> 'f appender \<Rightarrow> bytes \<Rightarrow> 'f snappy_output \<Rightarrow> (status \<times> 'f snappy_output) option" where
  "Snappy_Write sn app data o' =
     (let bytes_to_write = length data in
      if to_int32 bytes_to_write \<le> AvailableInputSpace o' then map_option (Pair OkStatus) (AddToInputBuffer data o')
      else
        (case DeflateBuffered sn app o' of
           None \<Rightarrow> None
         | Some (s, o') \<Rightarrow>
             if \<not> ok s then Some (s, o')
             else if to_int32 bytes_to_write \<le> AvailableInputSpace o'
             then map_option (Pair OkStatus) (AddToInputBuffer data o')
             else Deflate sn app (o'\<lparr>so_in := data\<rparr>)))"

definition Snappy_Append :: "snappy \<Rightarrow> 'f appender \<Rightarrow> bytes \<Rightarrow> 'f snappy_output \<Rightarrow> (status \<times> 'f snappy_output) option" where
  "Snappy_Append sn app data o' = Snappy_Write sn app data o'"

definition Snappy_Flush :: "snappy \<Rightarrow> 'f appender \<Rightarrow> 'f snappy_output \<Rightarrow> (status \<times> 'f snappy_output) option" where
  "Snappy_Flush sn app o' =
     (case DeflateBuffered sn app o' of
        None \<Rightarrow> None
      | Some (s, o') \<Rightarrow> if \<not> ok s then Some (s, o') else Some (FlushOutputBufferToFile app o'))"

definition Snappy_Close :: "snappy \<Rightarrow> 'f appender \<Rightarrow> 'f snappy_output \<Rightarrow> (status \<times> 'f snappy_output) option" where
  "Snappy_Close sn app o' = Snappy_Flush sn app o'"

text \<open>\<open>Sync\<close> and \<open>Tell\<close> go on to the file.\<close>

definition Snappy_Sync :: "snappy \<Rightarrow> 'f appender \<Rightarrow> ('f \<Rightarrow> status \<times> 'f) \<Rightarrow> 'f snappy_output \<Rightarrow> (status \<times> 'f snappy_output) option" where
  "Snappy_Sync sn app sync o' =
     (case Snappy_Flush sn app o' of
        None \<Rightarrow> None
      | Some (s, o') \<Rightarrow> if \<not> ok s then Some (s, o') else (let (s, f) = sync (so_file o') in Some (s, o'\<lparr>so_file := f\<rparr>)))"

section \<open>The format\<close>

text \<open>Snappy compresses every input up to the size of an \<open>int32\<close>, to at most the size of a \<open>uint32\<close>.\<close>

definition snappy_total :: "snappy \<Rightarrow> bool" where
  "snappy_total sn \<longleftrightarrow> (\<forall>raw. length raw < 2 ^ 31 \<longrightarrow> (\<exists>c. Snappy_Compress sn raw = Some c \<and> length c < 2 ^ 32))"

definition frame_of :: "snappy \<Rightarrow> bytes \<Rightarrow> bytes" where
  "frame_of sn b = (case Snappy_Compress sn b of None \<Rightarrow> [] | Some c \<Rightarrow> compressed_length_array (length c) @ c)"

definition framed :: "snappy \<Rightarrow> bytes list \<Rightarrow> bytes" where
  "framed sn Bs = concat (map (frame_of sn) Bs)"

definition good_block :: "snappy \<Rightarrow> nat \<Rightarrow> bytes \<Rightarrow> bool" where
  "good_block sn cap b \<longleftrightarrow> length b \<le> cap \<and> (\<exists>c. Snappy_Compress sn b = Some c \<and> length c < 2 ^ 32)"

lemma framed_simps [simp]:
  "framed sn [] = []" "framed sn (b # Bs) = frame_of sn b @ framed sn Bs" "framed sn (Bs @ Cs) = framed sn Bs @ framed sn Cs"
  by (simp_all add: framed_def)

lemma compressed_length_array_eq:
  "compressed_length_array n = [word_of_nat (n div 2 ^ 24), word_of_nat (n div 2 ^ 16), word_of_nat (n div 2 ^ 8), word_of_nat n]"
proof -
  have "[0..<4] = [0, 1, 2, 3 :: nat]" by (simp add: upt_conv_Cons)
  then show ?thesis by (simp add: compressed_length_array_def)
qed

lemma length_compressed_length_array [simp]: "length (compressed_length_array n) = 4"
  by (simp add: compressed_length_array_def)

text \<open>The four bytes are the big-endian digits of the length, and what was in the variable is shifted out.\<close>

lemma push_bit_or_byte: "push_bit 8 (word_of_nat m :: u32) OR ucast (b :: byte) = word_of_nat (256 * m + unat b)"
  using byte_or_push_bit [of b m, where 'a = 32] by (simp add: or.commute add.commute)

lemma block_length_bytes:
  "block_length w [a, b, c, d] = word_of_nat (256 * (256 * (256 * unat a + unat b) + unat c) + unat (d :: byte))"
proof -
  have w: "w = word_of_nat (unat w)" by simp
  have "block_length w [a, b, c, d] =
      word_of_nat (256 * (256 * (256 * (256 * unat w + unat a) + unat b) + unat c) + unat d)"
  proof -
    have "take 4 [a, b, c, d] = [a, b, c, d]" by simp
    then show ?thesis
      unfolding block_length_def by (subst w) (simp only: foldl_Cons foldl_Nil push_bit_or_byte)
  qed
  also have "\<dots> = word_of_nat (2 ^ 32 * unat w + (256 * (256 * (256 * unat a + unat b) + unat c) + unat d))"
    by (simp add: algebra_simps)
  also have "\<dots> = word_of_nat (256 * (256 * (256 * unat a + unat b) + unat c) + unat d)"
  proof -
    have "(word_of_nat (2 ^ 32) :: u32) = 0" by (simp only: word_of_nat_eq_0_iff) simp
    then show ?thesis by (simp only: of_nat_add of_nat_mult mult_zero_left add_0)
  qed
  finally show ?thesis .
qed

lemma block_length_array: "n < 2 ^ 32 \<Longrightarrow> unat (block_length w (compressed_length_array n)) = n"
proof -
  assume n: "n < 2 ^ 32"
  have b: "unat (word_of_nat m :: byte) = m mod 256" for m by (simp add: unat_of_nat)
  have q: "n div 2 ^ 24 = n div 2 ^ 16 div 256" "n div 2 ^ 16 = n div 2 ^ 8 div 256" "n div 2 ^ 8 = n div 256"
    by (simp_all add: div_mult2_eq [symmetric])
  have "n div 2 ^ 24 < 256" using n by (simp add: div_less_iff_less_mult)
  then have top: "n div 2 ^ 24 mod 256 = n div 2 ^ 24" by (rule mod_less)
  have "block_length w (compressed_length_array n) = word_of_nat n"
    unfolding compressed_length_array_eq block_length_bytes b top by (simp only: q mult_div_mod_eq)
  then show ?thesis using n by (simp add: unat_of_nat)
qed

section \<open>Reading a framed file\<close>

text \<open>The stream has passed the blocks \<open>Bs\<close>; the end of the last of them is still to be read.\<close>

definition snappy_at :: "snappy \<Rightarrow> (bytes \<Rightarrow> 's \<Rightarrow> nat \<Rightarrow> bool) \<Rightarrow> bytes list \<Rightarrow> bytes list \<Rightarrow> 's snappy_stream \<Rightarrow> nat \<Rightarrow> bool" where
  "snappy_at sn over Bs Cs st p \<longleftrightarrow> snappy_ok sn \<and>
     (\<forall>b \<in> set (Bs @ Cs). good_block sn (si_output_buffer_bytes st) b) \<and>
     over (framed sn (Bs @ Cs)) (si_input_stream st) (length (framed sn Bs)) \<and>
     p \<le> length (concat Bs) \<and> si_avail st = drop p (concat Bs) \<and> si_bytes_read st = int p"

definition snappy_over :: "snappy \<Rightarrow> (bytes \<Rightarrow> 's \<Rightarrow> nat \<Rightarrow> bool) \<Rightarrow> bytes \<Rightarrow> 's snappy_stream \<Rightarrow> nat \<Rightarrow> bool" where
  "snappy_over sn over bs st p \<longleftrightarrow> (\<exists>Bs Cs. bs = concat (Bs @ Cs) \<and> snappy_at sn over Bs Cs st p)"

lemma cache_law:
  assumes "snappy_at sn over Bs Cs st p"
  obtains st' where "ReadBytesFromCache n st = (take n (drop p (concat Bs)), st')"
    "snappy_at sn over Bs Cs st' (min (p + n) (length (concat Bs)))" "si_avail st' = drop n (drop p (concat Bs))"
proof -
  let ?k = "min n (length (concat Bs) - p)"
  have a: "p \<le> length (concat Bs)" "si_avail st = drop p (concat Bs)" using assms by (simp_all add: snappy_at_def)
  let ?st = "st\<lparr>si_avail := drop ?k (drop p (concat Bs)), si_bytes_read := si_bytes_read st + int ?k\<rparr>"
  have k: "min (p + n) (length (concat Bs)) = p + ?k" using a(1) by simp
  have t: "take ?k (drop p (concat Bs)) = take n (drop p (concat Bs))" "drop ?k (drop p (concat Bs)) = drop n (drop p (concat Bs))"
    by (cases "n \<le> length (concat Bs) - p"; simp)+
  have "ReadBytesFromCache n st = (take n (drop p (concat Bs)), ?st)"
    using a(2) t by (simp add: ReadBytesFromCache_def Let_def)
  moreover have "snappy_at sn over Bs Cs ?st (min (p + n) (length (concat Bs)))"
    using assms a(1) unfolding k snappy_at_def by (auto simp: add.commute)
  ultimately show ?thesis using t(2) by (intro that [of ?st]) simp_all
qed

context read_source
begin

lemma Inflate_law:
  assumes "snappy_at sn over Bs (C # Cs) st p" "si_avail st = []"
  shows "\<exists>st'. Inflate ui sn ops st = Some (OkStatus, st') \<and> snappy_at sn over (Bs @ [C]) Cs st' p \<and> si_avail st' = C"
proof -
  let ?cs = "framed sn (Bs @ C # Cs)" and ?q = "length (framed sn Bs)"
  have a: "snappy_ok sn" "over ?cs (si_input_stream st) ?q" "good_block sn (si_output_buffer_bytes st) C"
    using assms(1) by (simp_all add: snappy_at_def)
  have p: "p = length (concat Bs)" using assms by (simp add: snappy_at_def)
  obtain c where c: "Snappy_Compress sn C = Some c" "length c < 2 ^ 32" "length C \<le> si_output_buffer_bytes st"
    using a(3) by (auto simp: good_block_def)
  have f: "frame_of sn C = compressed_length_array (length c) @ c" using c(1) by (simp add: frame_of_def)
  have u: "Snappy_GetUncompressedLength sn c = Some (length C)" "Snappy_Uncompress sn c = Some C"
    using a(1) c(1) by (simp_all add: snappy_ok_def)
  obtain i1 where i1: "op_ReadNBytes ops 4 [] (si_input_stream st) = Some (OkStatus, compressed_length_array (length c), i1)"
    "over ?cs i1 (?q + 4)"
    using read_ok [OF a(2), of 4 "[]"] f by auto
  obtain i2 where i2: "op_ReadNBytes ops (int (length c)) (ui_bytes ui (length c)) i1 = Some (OkStatus, c, i2)"
    "over ?cs i2 (?q + 4 + length c)"
    using read_ok [OF i1(2), of "length c" "ui_bytes ui (length c)"] f by auto
  have l: "unat (block_length (ui_u32 ui) (compressed_length_array (length c))) = length c" by (rule block_length_array [OF c(2)])
  then have l': "uint (block_length (ui_u32 ui) (compressed_length_array (length c))) = int (length c)"
    by (simp only: uint_nat)
  let ?st = "st\<lparr>si_input_stream := i2, si_avail := C\<rparr>"
  have "Inflate ui sn ops st = Some (OkStatus, ?st)"
    using i1(1) i2(1) u c(3) assms(2) by (simp add: Inflate_def Let_def l l')
  moreover have "snappy_at sn over (Bs @ [C]) Cs ?st p"
    using assms(1) i2(2) f p by (auto simp: snappy_at_def add.assoc)
  ultimately show ?thesis by simp
qed

lemma Inflate_end:
  assumes "snappy_at sn over Bs [] st p" "si_avail st = []"
  shows "\<exists>s st'. Inflate ui sn ops st = Some (s, st') \<and> IsOutOfRange s \<and> snappy_at sn over Bs [] st' p"
proof -
  have a: "over (framed sn Bs) (si_input_stream st) (length (framed sn Bs))" using assms(1) by (simp add: snappy_at_def)
  obtain s r i1 where i1: "op_ReadNBytes ops 4 [] (si_input_stream st) = Some (s, r, i1)" "over (framed sn Bs) i1 (length (framed sn Bs))"
    "IsOutOfRange s"
    using read_short [OF a, of 4 "[]"] by auto
  have "\<not> ok s" using i1(3) by (cases s) auto
  then show ?thesis using i1 assms(1) by (auto simp: Inflate_def snappy_at_def)
qed

lemma Snappy_read_loop_law:
  assumes "snappy_at sn over Bs Cs st p" "n > 0 \<longrightarrow> si_avail st = []"
  shows "if p + n \<le> length (concat (Bs @ Cs))
    then \<exists>st'. Snappy_read_loop ui sn ops n result st = Some (OkStatus, result @ take n (drop p (concat (Bs @ Cs))), st') \<and>
      snappy_over sn over (concat (Bs @ Cs)) st' (p + n)
    else \<exists>s r st'. Snappy_read_loop ui sn ops n result st = Some (s, r, st') \<and>
      snappy_over sn over (concat (Bs @ Cs)) st' (length (concat (Bs @ Cs))) \<and> IsOutOfRange s"
  using assms
proof (induction Cs arbitrary: Bs st p n result)
  case Nil
  show ?case
  proof (cases "n > 0")
    case True
    then have av: "si_avail st = []" using Nil.prems(2) by simp
    then have p: "p = length (concat Bs)" using Nil.prems(1) by (simp add: snappy_at_def)
    obtain s st' where i: "Inflate ui sn ops st = Some (s, st')" "IsOutOfRange s" "snappy_at sn over Bs [] st' p"
      using Inflate_end [OF Nil.prems(1) av] by blast
    have "\<not> ok s" using i(2) by (cases s) auto
    moreover have "snappy_over sn over (concat Bs) st' (length (concat Bs))"
      using i(3) p unfolding snappy_over_def by (intro exI [of _ Bs] exI [of _ "[]"]) simp
    ultimately show ?thesis using True i p by (subst (1 2) Snappy_read_loop.simps) (auto simp: p)
  next
    case False
    moreover have "p \<le> length (concat Bs)" using Nil.prems(1) by (simp add: snappy_at_def)
    moreover have "snappy_over sn over (concat Bs) st p"
      using Nil.prems(1) unfolding snappy_over_def by (intro exI [of _ Bs] exI [of _ "[]"]) simp
    ultimately show ?thesis by (subst (1 2) Snappy_read_loop.simps) simp
  qed
next
  case (Cons C Cs)
  let ?bs = "concat (Bs @ C # Cs)"
  show ?case
  proof (cases "n > 0")
    case False
    moreover have "p \<le> length ?bs" using Cons.prems(1) by (simp add: snappy_at_def)
    moreover have "snappy_over sn over ?bs st p"
      using Cons.prems(1) unfolding snappy_over_def by blast
    ultimately show ?thesis by (subst (1 2) Snappy_read_loop.simps) simp
  next
    case True
    then have av: "si_avail st = []" using Cons.prems(2) by simp
    then have p: "p = length (concat Bs)" using Cons.prems(1) by (simp add: snappy_at_def)
    obtain st1 where i: "Inflate ui sn ops st = Some (OkStatus, st1)" "snappy_at sn over (Bs @ [C]) Cs st1 p" "si_avail st1 = C"
      using Inflate_law [OF Cons.prems(1) av] by blast
    obtain st2 where c: "ReadBytesFromCache n st1 = (take n (drop p (concat (Bs @ [C]))), st2)"
      "snappy_at sn over (Bs @ [C]) Cs st2 (min (p + n) (length (concat (Bs @ [C]))))" "si_avail st2 = drop n (drop p (concat (Bs @ [C])))"
      by (rule cache_law [OF i(2)])
    define k where "k = min n (length C)"
    have e: "take n (drop p (concat (Bs @ [C]))) = take k C" "min (p + n) (length (concat (Bs @ [C]))) = p + k"
      by (auto simp: p k_def min_def)
    have step: "Snappy_read_loop ui sn ops n result st = Snappy_read_loop ui sn ops (n - k) (result @ take k C) st2"
      using True i(1) c(1) unfolding e by (subst Snappy_read_loop.simps) (simp add: k_def)
    have d: "take k C @ take (n - k) (drop (p + k) ?bs) = take n (drop p ?bs)"
      by (cases "n \<le> length C") (simp_all add: k_def p)
    have pk: "p + k + (n - k) = p + n" by (simp add: k_def)
    have "n - k > 0 \<longrightarrow> si_avail st2 = []" using c(3) by (simp add: p k_def)
    from Cons.IH [OF c(2) [unfolded e] this, of "result @ take k C"] show ?thesis
      unfolding step pk append_assoc append_Cons append_Nil d .
  qed
qed

lemma snappy_read_law:
  assumes "snappy_over sn over bs st p"
  shows "if p + n \<le> length bs
    then \<exists>st'. Snappy_ReadNBytes ui sn ops (int n) result st = Some (OkStatus, take n (drop p bs), st') \<and> snappy_over sn over bs st' (p + n)
    else \<exists>s r st'. Snappy_ReadNBytes ui sn ops (int n) result st = Some (s, r, st') \<and>
      snappy_over sn over bs st' (length bs) \<and> IsOutOfRange s"
proof -
  obtain Bs Cs where bs: "bs = concat (Bs @ Cs)" and at: "snappy_at sn over Bs Cs st p"
    using assms by (auto simp: snappy_over_def)
  have le: "p \<le> length (concat Bs)" using at by (simp add: snappy_at_def)
  obtain st1 where c: "ReadBytesFromCache n st = (take n (drop p (concat Bs)), st1)"
    "snappy_at sn over Bs Cs st1 (min (p + n) (length (concat Bs)))" "si_avail st1 = drop n (drop p (concat Bs))"
    by (rule cache_law [OF at])
  let ?d = "take n (drop p (concat Bs))" and ?q = "min (p + n) (length (concat Bs))"
  have step: "Snappy_ReadNBytes ui sn ops (int n) result st = Snappy_read_loop ui sn ops (n - length ?d) ?d st1"
    using c(1) by (simp add: Snappy_ReadNBytes_def)
  have q: "?q + (n - length ?d) = p + n" using le by auto
  have d: "?d @ take (n - length ?d) (drop ?q bs) = take n (drop p bs)"
    using le by (cases "p + n \<le> length (concat Bs)") (auto simp: bs)
  have "n - length ?d > 0 \<longrightarrow> si_avail st1 = []" using c(3) by auto
  from Snappy_read_loop_law [OF c(2) this, of ui ?d] show ?thesis
    unfolding step q bs [symmetric] d .
qed

text \<open>The stream keeps the contract of reads when the stream below does; its \<open>SkipNBytes\<close> is the inherited one.\<close>

lemma snappy_read_source: "read_source (snappy_base_ops ui sn ops) (snappy_over sn over)"
proof (unfold_locales, goal_cases)
  case (1 bs st p)
  then show ?case by (auto simp: snappy_over_def snappy_at_def)
next
  case (2 bs st p n result)
  then show ?case using snappy_read_law [of sn bs st p n ui result] by (simp add: snappy_base_ops_def)
next
  case (3 bs st p n result)
  then show ?case using snappy_read_law [of sn bs st p n ui result] by (simp add: snappy_base_ops_def)
qed

end

context byte_source
begin

lemma snappy_byte_source: "byte_source (snappy_ops ui sn ops) (snappy_over sn over)"
proof (unfold_locales, goal_cases)
  case (1 bs st p)
  then show ?case by (rule read_source.over_le [OF snappy_read_source])
next
  case (2 bs st p n result)
  then show ?case using read_source.read_ok [OF snappy_read_source, of sn bs st p n ui result]
    by (simp add: snappy_ops_def)
next
  case (3 bs st p n result)
  then show ?case using read_source.read_short [OF snappy_read_source, of sn bs st p n ui result]
    by (simp add: snappy_ops_def)
next
  case (4 bs st p n)
  then show ?case using read_source.default_skip_law [OF snappy_read_source, of sn bs st p n ui]
    by (simp add: snappy_ops_def)
next
  case (5 bs st p)
  then show ?case by (auto simp: snappy_ops_def snappy_base_ops_def Snappy_Tell_def snappy_over_def snappy_at_def)
next
  case (6 bs st p)
  then obtain Bs Cs where bs: "bs = concat (Bs @ Cs)" and at: "snappy_at sn over Bs Cs st p" by (auto simp: snappy_over_def)
  obtain i where "op_Reset ops (si_input_stream st) = (OkStatus, i)" "over (framed sn (Bs @ Cs)) i 0"
    using reset_law [of "framed sn (Bs @ Cs)" "si_input_stream st"] at unfolding snappy_at_def by blast
  moreover from this at have "snappy_at sn over [] (Bs @ Cs) (st\<lparr>si_input_stream := i, si_avail := [], si_bytes_read := 0\<rparr>) 0"
    by (simp add: snappy_at_def)
  then have "snappy_over sn over bs (st\<lparr>si_input_stream := i, si_avail := [], si_bytes_read := 0\<rparr>) 0"
    unfolding snappy_over_def bs by (intro exI [of _ "[]"] exI [of _ "Bs @ Cs"]) simp
  ultimately show ?case by (simp add: snappy_ops_def snappy_base_ops_def Snappy_Reset_def)
qed

end

text \<open>A block that is larger than the buffer of the reader cannot be read.\<close>

lemma large_block_unreadable:
  assumes "snappy_ok sn" "Snappy_Compress sn C = Some c" "length c < 2 ^ 32" "si_output_buffer_bytes st < length C"
    and "read_source ops over" "over (frame_of sn C) (si_input_stream st) 0"
  shows "\<exists>st'. Inflate ui sn ops st = Some (Error RESOURCE_EXHAUSTED ''Output buffer too small.'', st')"
proof -
  have f: "frame_of sn C = compressed_length_array (length c) @ c" using assms(2) by (simp add: frame_of_def)
  have u: "Snappy_GetUncompressedLength sn c = Some (length C)" using assms(1,2) by (simp add: snappy_ok_def)
  obtain i1 where i1: "op_ReadNBytes ops 4 [] (si_input_stream st) = Some (OkStatus, compressed_length_array (length c), i1)"
    "over (frame_of sn C) i1 4"
    using read_source.read_ok [OF assms(5,6), of 4 "[]"] f by auto
  obtain i2 where i2: "op_ReadNBytes ops (int (length c)) (ui_bytes ui (length c)) i1 = Some (OkStatus, c, i2)"
    using read_source.read_ok [OF assms(5) i1(2), of "length c" "ui_bytes ui (length c)"] f by auto
  have l: "unat (block_length (ui_u32 ui) (compressed_length_array (length c))) = length c" by (rule block_length_array [OF assms(3)])
  then have l': "uint (block_length (ui_u32 ui) (compressed_length_array (length c))) = int (length c)"
    by (simp only: uint_nat)
  show ?thesis using i1(1) i2 u assms(4) by (simp add: Inflate_def Let_def l l')
qed

section \<open>Writing a framed file\<close>

text \<open>What has been appended: the blocks in the file and in the output buffer, and the rest in the input buffer.\<close>

definition snappy_holds :: "snappy \<Rightarrow> 'f appender \<Rightarrow> ('f \<Rightarrow> bytes) \<Rightarrow> bytes \<Rightarrow> 'f snappy_output \<Rightarrow> bool" where
  "snappy_holds sn app contents xs o' \<longleftrightarrow> appends app contents \<and> snappy_total sn \<and>
     so_input_buffer_capacity o' < 2 ^ 31 \<and> length (so_in o') \<le> so_input_buffer_capacity o' \<and>
     length (so_out o') < so_output_buffer_capacity o' \<and>
     (\<exists>Bs. contents (so_file o') @ so_out o' = framed sn Bs \<and> concat Bs @ so_in o' = xs \<and>
        (\<forall>b \<in> set Bs. good_block sn (so_input_buffer_capacity o') b))"

lemma AddToOutputBuffer_law:
  assumes "appends app contents" "length (so_out o') < so_output_buffer_capacity o'"
  shows "\<exists>f out. AddToOutputBuffer app data o' = Some (OkStatus, o'\<lparr>so_file := f, so_out := out\<rparr>) \<and>
    contents f @ out = contents (so_file o') @ so_out o' @ data \<and> length out < so_output_buffer_capacity o'"
  using assms(2)
proof (induction "length data" arbitrary: data o' rule: less_induct)
  case less
  show ?case
  proof (cases "data = []")
    case True
    then show ?thesis
      using less.prems by (subst AddToOutputBuffer.simps) (auto intro!: exI [of _ "so_file o'"] exI [of _ "so_out o'"])
  next
    case False
    define k where "k = min (length data) (so_output_buffer_capacity o' - length (so_out o'))"
    have k: "0 < k" using False less.prems by (simp add: k_def)
    let ?out = "so_out o' @ take k data"
    have dec: "length (drop k data) < length data" using k False by simp
    show ?thesis
    proof (cases "so_output_buffer_capacity o' - length ?out = 0")
      case True
      obtain f where f: "app (so_file o') ?out = (OkStatus, f)" "contents f = contents (so_file o') @ ?out"
        using appendsE [OF assms(1)] by blast
      let ?o = "o'\<lparr>so_file := f, so_out := []\<rparr>"
      have ne: "?out \<noteq> []" using k False by auto
      have step: "AddToOutputBuffer app data o' = AddToOutputBuffer app (drop k data) ?o"
        using False True f(1) ne
        by (subst AddToOutputBuffer.simps) (simp add: k_def [symmetric] Let_def FlushOutputBufferToFile_def)
      have "length (so_out ?o) < so_output_buffer_capacity ?o" using less.prems by simp
      from less.hyps [OF dec this] show ?thesis unfolding step using f(2) by auto
    next
      case no: False
      let ?o = "o'\<lparr>so_out := ?out\<rparr>"
      have step: "AddToOutputBuffer app data o' = AddToOutputBuffer app (drop k data) ?o"
        using False no by (subst AddToOutputBuffer.simps) (simp add: k_def [symmetric] Let_def)
      have "length (so_out ?o) < so_output_buffer_capacity ?o" using no by simp
      from less.hyps [OF dec this] show ?thesis unfolding step by auto
    qed
  qed
qed

lemma Deflate_law:
  assumes "snappy_holds sn app contents xs o'"
  shows "\<exists>o1. Deflate sn app o' = Some (OkStatus, o1) \<and> snappy_holds sn app contents xs o1 \<and> so_in o1 = [] \<and>
    so_input_buffer_capacity o1 = so_input_buffer_capacity o'"
proof (cases "so_in o' = []")
  case True
  then show ?thesis using assms by (simp add: Deflate_def)
next
  case False
  have a: "appends app contents" "snappy_total sn" "so_input_buffer_capacity o' < 2 ^ 31" "length (so_in o') \<le> so_input_buffer_capacity o'"
    "length (so_out o') < so_output_buffer_capacity o'"
    using assms by (simp_all add: snappy_holds_def)
  obtain Bs where Bs: "contents (so_file o') @ so_out o' = framed sn Bs" "concat Bs @ so_in o' = xs"
    "\<forall>b \<in> set Bs. good_block sn (so_input_buffer_capacity o') b"
    using assms by (auto simp: snappy_holds_def)
  obtain c where c: "Snappy_Compress sn (so_in o') = Some c" "length c < 2 ^ 32"
    using a(2-4) unfolding snappy_total_def by (meson le_less_trans)
  let ?h = "compressed_length_array (length c)"
  obtain f1 out1 where 1: "AddToOutputBuffer app ?h o' = Some (OkStatus, o'\<lparr>so_file := f1, so_out := out1\<rparr>)"
    "contents f1 @ out1 = contents (so_file o') @ so_out o' @ ?h" "length out1 < so_output_buffer_capacity o'"
    using AddToOutputBuffer_law [OF a(1,5)] by blast
  let ?o1 = "o'\<lparr>so_file := f1, so_out := out1\<rparr>"
  obtain f2 out2 where 2: "AddToOutputBuffer app c ?o1 = Some (OkStatus, o'\<lparr>so_file := f2, so_out := out2\<rparr>)"
    "contents f2 @ out2 = contents f1 @ out1 @ c" "length out2 < so_output_buffer_capacity o'"
    using AddToOutputBuffer_law [OF a(1), of ?o1 c] 1(3) by auto
  let ?o2 = "o'\<lparr>so_file := f2, so_out := out2, so_in := []\<rparr>"
  have "contents f2 @ out2 = framed sn (Bs @ [so_in o'])"
    using 1(2) 2(2) Bs(1) c(1) by (simp add: frame_of_def)
  moreover have "good_block sn (so_input_buffer_capacity o') (so_in o')" using c a(4) by (simp add: good_block_def)
  ultimately have "snappy_holds sn app contents xs ?o2"
    using a Bs(2,3) 2(3) unfolding snappy_holds_def by (auto intro!: exI [of _ "Bs @ [so_in o']"])
  moreover have "Deflate sn app o' = Some (OkStatus, ?o2)"
    using False c(1) 1(1) 2(1) by (simp add: Deflate_def)
  ultimately show ?thesis by simp
qed

lemma sint_u32_small:
  assumes "n < 2 ^ 31"
  shows "sint (word_of_nat n :: u32) = int n"
proof -
  have "sint (word_of_nat n :: u32) = signed_take_bit 31 (int n)" by (simp add: signed_of_nat)
  also have "int n < int (2 ^ 31)" using assms by (simp only: of_nat_less_iff)
  then have "signed_take_bit 31 (int n) = int n" by (intro signed_take_bit_int_eq_self) simp_all
  finally show ?thesis .
qed

lemma AvailableInputSpace_eq:
  assumes "so_input_buffer_capacity o' < 2 ^ 31" "length (so_in o') \<le> so_input_buffer_capacity o'"
  shows "AvailableInputSpace o' = int (so_input_buffer_capacity o' - length (so_in o'))"
proof -
  have "(word_of_nat (so_input_buffer_capacity o') - word_of_nat (length (so_in o')) :: u32) =
      word_of_nat (so_input_buffer_capacity o' - length (so_in o'))"
    using assms(2) by (simp add: of_nat_diff)
  then show ?thesis unfolding AvailableInputSpace_def using assms by (simp only: sint_u32_small)
qed

lemma AddToInputBuffer_law:
  assumes "snappy_holds sn app contents xs o'" "length (so_in o') + length data \<le> so_input_buffer_capacity o'"
  shows "\<exists>o1. AddToInputBuffer data o' = Some o1 \<and> snappy_holds sn app contents (xs @ data) o1 \<and>
    so_input_buffer_capacity o1 = so_input_buffer_capacity o'"
  using assms unfolding snappy_holds_def AddToInputBuffer_def by auto

lemma snappy_append_law:
  assumes "snappy_holds sn app contents xs o'" "length data \<le> so_input_buffer_capacity o'"
  shows "\<exists>o1. Snappy_Append sn app data o' = Some (OkStatus, o1) \<and> snappy_holds sn app contents (xs @ data) o1 \<and>
    so_input_buffer_capacity o1 = so_input_buffer_capacity o'"
proof -
  have a: "so_input_buffer_capacity o' < 2 ^ 31" "length (so_in o') \<le> so_input_buffer_capacity o'"
    using assms(1) by (simp_all add: snappy_holds_def)
  have n: "to_int32 (length data) = int (length data)" using assms(2) a(1) by (simp add: to_int32_def sint_u32_small)
  show ?thesis
  proof (cases "length (so_in o') + length data \<le> so_input_buffer_capacity o'")
    case True
    then have "to_int32 (length data) \<le> AvailableInputSpace o'" unfolding n AvailableInputSpace_eq [OF a] by simp
    then show ?thesis
      using AddToInputBuffer_law [OF assms(1) True] by (auto simp: Snappy_Append_def Snappy_Write_def)
  next
    case False
    then have no: "\<not> to_int32 (length data) \<le> AvailableInputSpace o'" unfolding n AvailableInputSpace_eq [OF a] using a(2) by simp
    obtain o1 where o1: "Deflate sn app o' = Some (OkStatus, o1)" "snappy_holds sn app contents xs o1" "so_in o1 = []"
      "so_input_buffer_capacity o1 = so_input_buffer_capacity o'"
      using Deflate_law [OF assms(1)] by blast
    have "AvailableInputSpace o1 = int (so_input_buffer_capacity o')"
      using AvailableInputSpace_eq [of o1] o1(3,4) a(1) by simp
    then have yes: "to_int32 (length data) \<le> AvailableInputSpace o1" unfolding n using assms(2) by simp
    have "length (so_in o1) + length data \<le> so_input_buffer_capacity o1" using o1(3,4) assms(2) by simp
    from AddToInputBuffer_law [OF o1(2) this] show ?thesis
      using no yes o1(1,4) by (auto simp: Snappy_Append_def Snappy_Write_def DeflateBuffered_def)
  qed
qed

lemma snappy_close_law:
  assumes "snappy_holds sn app contents xs o'"
  shows "\<exists>o1 Bs. Snappy_Close sn app o' = Some (OkStatus, o1) \<and> contents (so_file o1) = framed sn Bs \<and> concat Bs = xs \<and>
    (\<forall>b \<in> set Bs. good_block sn (so_input_buffer_capacity o') b)"
proof -
  obtain o1 where o1: "Deflate sn app o' = Some (OkStatus, o1)" "snappy_holds sn app contents xs o1" "so_in o1 = []"
    "so_input_buffer_capacity o1 = so_input_buffer_capacity o'"
    using Deflate_law [OF assms] by blast
  obtain Bs where Bs: "contents (so_file o1) @ so_out o1 = framed sn Bs" "concat Bs = xs"
    "\<forall>b \<in> set Bs. good_block sn (so_input_buffer_capacity o') b"
    using o1(2-4) by (auto simp: snappy_holds_def)
  have app: "appends app contents" using assms by (simp add: snappy_holds_def)
  obtain f where f: "app (so_file o1) (so_out o1) = (OkStatus, f)" "contents f = contents (so_file o1) @ so_out o1"
    using appendsE [OF app] by blast
  show ?thesis
  proof (cases "so_out o1 = []")
    case True
    then show ?thesis using o1(1) Bs
      by (auto simp: Snappy_Close_def Snappy_Flush_def DeflateBuffered_def FlushOutputBufferToFile_def intro!: exI [of _ Bs])
  next
    case False
    then show ?thesis using o1(1) Bs f
      by (auto simp: Snappy_Close_def Snappy_Flush_def DeflateBuffered_def FlushOutputBufferToFile_def intro!: exI [of _ Bs])
  qed
qed

lemma snappy_fresh_holds:
  assumes "appends app contents" "snappy_total sn" "contents f = []" "m < 2 ^ 31" "0 < n"
  shows "snappy_holds sn app contents [] (SnappyOutputBuffer f m n)"
  using assms by (auto simp: snappy_holds_def SnappyOutputBuffer_def intro!: exI [of _ "[]"])

text \<open>A piece of \<open>2 ^ 31\<close> bytes or more has a negative \<open>int32\<close> size: it passes the test for free space and is copied past
  the end of the input buffer.\<close>

lemma write_past_input_buffer:
  assumes "2 ^ 31 \<le> length data" "length data < 2 ^ 32" "so_input_buffer_capacity o' < 2 ^ 31"
    and "length (so_in o') \<le> so_input_buffer_capacity o'"
  shows "Snappy_Append sn app data o' = None"
proof -
  have "int (2 ^ 31) \<le> int (length data)" "int (length data) < int (2 ^ 32)"
    using assms(1,2) by (simp_all only: of_nat_le_iff of_nat_less_iff)
  then have i: "2 ^ 31 \<le> int (length data)" "int (length data) < 2 ^ 32" by simp_all
  have "to_int32 (length data) = signed_take_bit 31 (int (length data))" by (simp add: to_int32_def signed_of_nat)
  moreover have "signed_take_bit 31 (int (length data)) \<le> int (length data) - 2 ^ 32"
    using signed_take_bit_int_less_eq [OF i(1)] by simp
  ultimately have "to_int32 (length data) < 0" using i(2) by linarith
  then have "to_int32 (length data) \<le> AvailableInputSpace o'" unfolding AvailableInputSpace_eq [OF assms(3,4)] by simp
  then show ?thesis using assms by (simp add: Snappy_Append_def Snappy_Write_def AddToInputBuffer_def)
qed

end
