(* ===== verification/Record_Writer.thy ===== *)
theory Record_Writer
  imports Snappy_Stream
begin

text \<open>
  \<open>tsl/lib/io/record_writer.cc\<close>, \<open>record_writer.h\<close> and the options of the record files in
  \<open>compression.cc\<close> and \<open>zlib_compression_options.*\<close>.

  The writer works on any destination with the methods of \<open>WritableFile\<close>; the constructor chooses it:
  the file itself, a snappy buffer on it, or a zlib buffer, which is a parameter, as are the file and
  the constants of \<open>zlib.h\<close>.  The locale \<open>record_sink\<close> states what the writer relies on.  \<open>None\<close> is a call
  that does not return, as in \<open>Snappy_Stream\<close>.
\<close>

section \<open>Options\<close>

definition kNone :: string where "kNone = ''''"
definition kGzip :: string where "kGzip = ''GZIP''"
definition kSnappy :: string where "kSnappy = ''SNAPPY''"
definition kZlib :: string where "kZlib = ''ZLIB''"

record zlib_constants =
  Z_NO_FLUSH :: int
  MAX_WBITS :: int
  Z_DEFAULT_COMPRESSION :: int
  Z_DEFLATED :: int
  Z_DEFAULT_STRATEGY :: int

record zlib_options =
  flush_mode :: int
  zlib_input_buffer_size :: int
  zlib_output_buffer_size :: int
  window_bits :: int
  compression_level :: int
  compression_method :: int
  mem_level :: int
  compression_strategy :: int
  soft_fail_on_error :: bool

definition ZlibCompressionOptions :: "zlib_constants \<Rightarrow> zlib_options" where
  "ZlibCompressionOptions z =
     \<lparr>flush_mode = Z_NO_FLUSH z, zlib_input_buffer_size = push_bit 10 256, zlib_output_buffer_size = push_bit 10 256,
      window_bits = MAX_WBITS z, compression_level = Z_DEFAULT_COMPRESSION z, compression_method = Z_DEFLATED z,
      mem_level = 9, compression_strategy = Z_DEFAULT_STRATEGY z, soft_fail_on_error = False\<rparr>"

definition DEFAULT :: "zlib_constants \<Rightarrow> zlib_options" where
  "DEFAULT z = ZlibCompressionOptions z"

definition RAW :: "zlib_constants \<Rightarrow> zlib_options" where
  "RAW z = (let options = ZlibCompressionOptions z in options\<lparr>window_bits := - window_bits options\<rparr>)"

definition GZIP :: "zlib_constants \<Rightarrow> zlib_options" where
  "GZIP z = (let options = ZlibCompressionOptions z in options\<lparr>window_bits := window_bits options + 16\<rparr>)"

record snappy_options =
  snappy_input_buffer_size :: int
  snappy_output_buffer_size :: int

definition SnappyCompressionOptions :: snappy_options where
  "SnappyCompressionOptions = \<lparr>snappy_input_buffer_size = push_bit 10 256, snappy_output_buffer_size = push_bit 10 256\<rparr>"

datatype record_compression = NONE | ZLIB_COMPRESSION | SNAPPY_COMPRESSION

record writer_options =
  wo_compression_type :: record_compression
  wo_zlib_options :: zlib_options
  wo_snappy_options :: snappy_options

definition RecordWriterOptions :: "zlib_constants \<Rightarrow> writer_options" where
  "RecordWriterOptions z = \<lparr>wo_compression_type = NONE, wo_zlib_options = ZlibCompressionOptions z,
     wo_snappy_options = SnappyCompressionOptions\<rparr>"

text \<open>An unknown name is logged and means no compression.\<close>

definition CreateRecordWriterOptions :: "zlib_constants \<Rightarrow> string \<Rightarrow> writer_options" where
  "CreateRecordWriterOptions z compression_type =
     (let options = RecordWriterOptions z in
      if compression_type = kZlib
      then options\<lparr>wo_compression_type := ZLIB_COMPRESSION, wo_zlib_options := DEFAULT z\<rparr>
      else if compression_type = kGzip
      then options\<lparr>wo_compression_type := ZLIB_COMPRESSION, wo_zlib_options := GZIP z\<rparr>
      else if compression_type = kSnappy
      then options\<lparr>wo_compression_type := SNAPPY_COMPRESSION\<rparr>
      else options)"

definition IsZlibCompressed :: "writer_options \<Rightarrow> bool" where
  "IsZlibCompressed options \<longleftrightarrow> wo_compression_type options = ZLIB_COMPRESSION"

definition IsSnappyCompressed :: "writer_options \<Rightarrow> bool" where
  "IsSnappyCompressed options \<longleftrightarrow> wo_compression_type options = SNAPPY_COMPRESSION"

section \<open>The destinations of a writer\<close>

record 'd file_ops =
  op_Append :: "'d \<Rightarrow> bytes \<Rightarrow> (status \<times> 'd) option"
  op_Flush :: "'d \<Rightarrow> (status \<times> 'd) option"
  op_Close :: "'d \<Rightarrow> (status \<times> 'd) option"

record 'f writable_file =
  wf_Append :: "'f appender"
  wf_Flush :: "'f \<Rightarrow> status \<times> 'f"
  wf_Close :: "'f \<Rightarrow> status \<times> 'f"

text \<open>The classes a \<open>WritableFile\<close> pointer of a writer can have, and the calls through it.\<close>

datatype ('f, 'z) destination = PlainFile 'f | SnappyFile "'f snappy_output" | ZlibFile 'z

definition on_destination :: "('a \<Rightarrow> 'd) \<Rightarrow> (status \<times> 'a) option \<Rightarrow> (status \<times> 'd) option" where
  "on_destination C r = map_option (map_prod id C) r"

fun destination_Append ::
  "snappy \<Rightarrow> 'f writable_file \<Rightarrow> 'z file_ops \<Rightarrow> ('f, 'z) destination \<Rightarrow> bytes \<Rightarrow> (status \<times> ('f, 'z) destination) option" where
  "destination_Append sn wfile zops (PlainFile f) data = on_destination PlainFile (Some (wf_Append wfile f data))"
| "destination_Append sn wfile zops (SnappyFile f) data = on_destination SnappyFile (Snappy_Append sn (wf_Append wfile) data f)"
| "destination_Append sn wfile zops (ZlibFile f) data = on_destination ZlibFile (op_Append zops f data)"

fun destination_Flush ::
  "snappy \<Rightarrow> 'f writable_file \<Rightarrow> 'z file_ops \<Rightarrow> ('f, 'z) destination \<Rightarrow> (status \<times> ('f, 'z) destination) option" where
  "destination_Flush sn wfile zops (PlainFile f) = on_destination PlainFile (Some (wf_Flush wfile f))"
| "destination_Flush sn wfile zops (SnappyFile f) = on_destination SnappyFile (Snappy_Flush sn (wf_Append wfile) f)"
| "destination_Flush sn wfile zops (ZlibFile f) = on_destination ZlibFile (op_Flush zops f)"

fun destination_Close ::
  "snappy \<Rightarrow> 'f writable_file \<Rightarrow> 'z file_ops \<Rightarrow> ('f, 'z) destination \<Rightarrow> (status \<times> ('f, 'z) destination) option" where
  "destination_Close sn wfile zops (PlainFile f) = on_destination PlainFile (Some (wf_Close wfile f))"
| "destination_Close sn wfile zops (SnappyFile f) = on_destination SnappyFile (Snappy_Close sn (wf_Append wfile) f)"
| "destination_Close sn wfile zops (ZlibFile f) = on_destination ZlibFile (op_Close zops f)"

definition destination_ops :: "snappy \<Rightarrow> 'f writable_file \<Rightarrow> 'z file_ops \<Rightarrow> ('f, 'z) destination file_ops" where
  "destination_ops sn wfile zops = \<lparr>op_Append = destination_Append sn wfile zops, op_Flush = destination_Flush sn wfile zops,
     op_Close = destination_Close sn wfile zops\<rparr>"

section \<open>The writer\<close>

text \<open>\<open>None\<close> is the null pointer of a writer that was closed.\<close>

record 'd record_writer =
  rw_dest :: "'d option"
  rw_options :: writer_options

text \<open>The constructor; \<open>zlib_buffer\<close> makes a \<open>ZlibOutputBuffer\<close> and initialises it, and a failure there ends the
  program.  The sizes of the snappy buffers are narrowed to \<open>int32_t\<close>.\<close>

definition int32_size :: "int \<Rightarrow> nat" where
  "int32_size n = nat (sint (word_of_int n :: u32))"

definition RecordWriter ::
  "('f \<Rightarrow> zlib_options \<Rightarrow> 'z option) \<Rightarrow> 'f \<Rightarrow> writer_options \<Rightarrow> ('f, 'z) destination record_writer option" where
  "RecordWriter zlib_buffer dest options =
     (if IsZlibCompressed options then
        map_option (\<lambda>f. \<lparr>rw_dest = Some (ZlibFile f), rw_options = options\<rparr>) (zlib_buffer dest (wo_zlib_options options))
      else if IsSnappyCompressed options then
        Some \<lparr>rw_dest = Some (SnappyFile (SnappyOutputBuffer dest
                (int32_size (snappy_input_buffer_size (wo_snappy_options options)))
                (int32_size (snappy_output_buffer_size (wo_snappy_options options))))), rw_options = options\<rparr>
      else Some \<lparr>rw_dest = Some (PlainFile dest), rw_options = options\<rparr>)"

definition kHeaderSize :: nat where "kHeaderSize = 8 + 4"
definition kFooterSize :: nat where "kFooterSize = 4"

definition MaskedCrc :: "bytes \<Rightarrow> u32" where
  "MaskedCrc data = Mask (Value data)"

definition PopulateHeader :: "bytes \<Rightarrow> bytes" where
  "PopulateHeader data =
     (let header = EncodeFixed64 (word_of_nat (length data)) in header @ EncodeFixed32 (MaskedCrc header))"

definition PopulateFooter :: "bytes \<Rightarrow> bytes" where
  "PopulateFooter data = EncodeFixed32 (MaskedCrc data)"

abbreviation writer_closed :: status where
  "writer_closed \<equiv> Error FAILED_PRECONDITION ''Writer not initialized or previously closed''"

definition WriteRecord :: "'d file_ops \<Rightarrow> bytes \<Rightarrow> 'd record_writer \<Rightarrow> (status \<times> 'd record_writer) option" where
  "WriteRecord fops data w =
     (case rw_dest w of
        None \<Rightarrow> Some (writer_closed, w)
      | Some dest \<Rightarrow>
          let header = PopulateHeader data;
              footer = PopulateFooter data
          in (case op_Append fops dest header of
                None \<Rightarrow> None
              | Some (s, dest) \<Rightarrow>
                  if \<not> ok s then Some (s, w\<lparr>rw_dest := Some dest\<rparr>)
                  else
                    (case op_Append fops dest data of
                       None \<Rightarrow> None
                     | Some (s, dest) \<Rightarrow>
                         if \<not> ok s then Some (s, w\<lparr>rw_dest := Some dest\<rparr>)
                         else map_option (\<lambda>(s, dest). (s, w\<lparr>rw_dest := Some dest\<rparr>)) (op_Append fops dest footer))))"

text \<open>\<open>Close\<close> deletes a buffer that compresses; its last state, with the file below it, is returned beside the writer.\<close>

definition RecordWriter_Close :: "'d file_ops \<Rightarrow> 'd record_writer \<Rightarrow> (status \<times> 'd option \<times> 'd record_writer) option" where
  "RecordWriter_Close fops w =
     (case rw_dest w of
        None \<Rightarrow> Some (OkStatus, None, w)
      | Some dest \<Rightarrow>
          if IsZlibCompressed (rw_options w) \<or> IsSnappyCompressed (rw_options w)
          then map_option (\<lambda>(s, dest). (s, Some dest, w\<lparr>rw_dest := None\<rparr>)) (op_Close fops dest)
          else Some (OkStatus, None, w))"

definition RecordWriter_Flush :: "'d file_ops \<Rightarrow> 'd record_writer \<Rightarrow> (status \<times> 'd record_writer) option" where
  "RecordWriter_Flush fops w =
     (case rw_dest w of
        None \<Rightarrow> Some (writer_closed, w)
      | Some dest \<Rightarrow> map_option (\<lambda>(s, dest). (s, w\<lparr>rw_dest := Some dest\<rparr>)) (op_Flush fops dest))"

text \<open>The destructor closes the writer and only logs a failure.\<close>

definition RecordWriter_destroy :: "'d file_ops \<Rightarrow> 'd record_writer \<Rightarrow> ('d option \<times> 'd record_writer) option" where
  "RecordWriter_destroy fops w =
     (if rw_dest w \<noteq> None then map_option snd (RecordWriter_Close fops w) else Some (None, w))"

section \<open>The format of a record\<close>

definition record_bytes :: "bytes \<Rightarrow> bytes" where
  "record_bytes data = PopulateHeader data @ data @ PopulateFooter data"

definition record_file :: "bytes list \<Rightarrow> bytes" where
  "record_file ds = concat (map record_bytes ds)"

lemma length_PopulateHeader [simp]: "length (PopulateHeader data) = 12"
  by (simp add: PopulateHeader_def Let_def)

lemma length_PopulateFooter [simp]: "length (PopulateFooter data) = 4"
  by (simp add: PopulateFooter_def)

lemma length_record_bytes [simp]: "length (record_bytes data) = length data + 16"
  by (simp add: record_bytes_def)

text \<open>A checksummed field: bytes followed by their masked checksum.\<close>

definition checksummed :: "bytes \<Rightarrow> bytes" where
  "checksummed data = data @ EncodeFixed32 (MaskedCrc data)"

lemma length_checksummed [simp]: "length (checksummed data) = length data + 4"
  by (simp add: checksummed_def)

lemma record_bytes_checksummed:
  "record_bytes data = checksummed (EncodeFixed64 (word_of_nat (length data))) @ checksummed data"
  by (simp add: record_bytes_def PopulateHeader_def PopulateFooter_def checksummed_def Let_def)

lemma record_file_simps [simp]:
  "record_file [] = []" "record_file (d # ds) = record_bytes d @ record_file ds"
  "record_file (xs @ ys) = record_file xs @ record_file ys"
  by (simp_all add: record_file_def)

lemma length_record_file: "length (record_file ds) = sum_list (map length ds) + 16 * length ds"
  by (induction ds) (auto simp: record_file_def)

text \<open>The masked checksum of a field determines it: what is checked is what is stored.\<close>

lemma checksum_matches_iff:
  assumes "length xs = n + 4"
  shows "Unmask (DecodeFixed32 (drop n xs)) = Value (take n xs) \<longleftrightarrow> xs = checksummed (take n xs)"
proof
  assume l: "Unmask (DecodeFixed32 (drop n xs)) = Value (take n xs)"
  have "Mask (Value (take n xs)) = DecodeFixed32 (drop n xs)" unfolding l [symmetric] by (simp add: Mask_Unmask)
  then have "EncodeFixed32 (MaskedCrc (take n xs)) = EncodeFixed32 (DecodeFixed32 (drop n xs))" by (simp add: MaskedCrc_def)
  also have "\<dots> = drop n xs" using assms by (simp add: EncodeFixed32_DecodeFixed32)
  finally show "xs = checksummed (take n xs)" by (simp add: checksummed_def)
next
  assume x: "xs = checksummed (take n xs)"
  have "length (take n xs) = n" using assms by simp
  then have "drop n xs = EncodeFixed32 (MaskedCrc (take n xs))" using x unfolding checksummed_def
    by (metis append_eq_conv_conj)
  then have "DecodeFixed32 (drop n xs) = MaskedCrc (take n xs)"
    using DecodeFixed_EncodeFixed(2) [of "MaskedCrc (take n xs)" "[]"] by simp
  then show "Unmask (DecodeFixed32 (drop n xs)) = Value (take n xs)" by (simp add: MaskedCrc_def Unmask_Mask)
qed

text \<open>One byte of a checksummed field cannot change without the checksum failing.\<close>

lemma checksummed_byte:
  assumes "xs = checksummed data" "i < length xs" "c \<noteq> xs ! i"
  shows "xs[i := c] \<noteq> checksummed (take (length data) (xs[i := c]))"
proof (cases "i < length data")
  case True
  let ?d = "data[i := c]"
  have x: "xs[i := c] = ?d @ EncodeFixed32 (MaskedCrc data)" using True assms(1) by (simp add: checksummed_def list_update_append)
  have "c \<noteq> data ! i" using assms(1,3) True by (simp add: checksummed_def nth_append)
  then have "Value (take i data @ c # drop (Suc i) data) \<noteq> Value (take i data @ data ! i # drop (Suc i) data)"
    by (simp add: Value_reference crc32c_single_byte)
  then have "Value ?d \<noteq> Value data" using True by (simp add: upd_conv_take_nth_drop id_take_nth_drop [symmetric])
  then have "MaskedCrc ?d \<noteq> MaskedCrc data" unfolding MaskedCrc_def by (metis Unmask_Mask)
  then have "EncodeFixed32 (MaskedCrc ?d) \<noteq> EncodeFixed32 (MaskedCrc data)"
    by (metis DecodeFixed_EncodeFixed(2) append_Nil2)
  then show ?thesis unfolding x by (simp add: checksummed_def)
next
  case False
  have "take (length data) (xs[i := c]) = data" using False assms(1) by (simp add: checksummed_def)
  moreover have "xs[i := c] \<noteq> xs" using assms(2,3) by (metis nth_list_update_eq)
  ultimately show ?thesis using assms(1) by simp
qed

section \<open>Writing records\<close>

text \<open>What the writer relies on: a destination takes pieces that fit, one after another.\<close>

locale record_sink =
  fixes fops :: "'d file_ops" and holds :: "bytes \<Rightarrow> 'd \<Rightarrow> bool" and fits :: "bytes \<Rightarrow> bool"
  assumes append_law: "holds xs d \<Longrightarrow> fits data \<Longrightarrow> \<exists>d'. op_Append fops d data = Some (OkStatus, d') \<and> holds (xs @ data) d'"
begin

lemma WriteRecord_law:
  assumes "rw_dest w = Some d" "holds xs d" "fits (PopulateHeader data)" "fits data" "fits (PopulateFooter data)"
  shows "\<exists>d'. WriteRecord fops data w = Some (OkStatus, w\<lparr>rw_dest := Some d'\<rparr>) \<and> holds (xs @ record_bytes data) d'"
proof -
  obtain d1 where d1: "op_Append fops d (PopulateHeader data) = Some (OkStatus, d1)" "holds (xs @ PopulateHeader data) d1"
    using append_law [OF assms(2,3)] by blast
  obtain d2 where d2: "op_Append fops d1 data = Some (OkStatus, d2)" "holds ((xs @ PopulateHeader data) @ data) d2"
    using append_law [OF d1(2) assms(4)] by blast
  obtain d3 where d3: "op_Append fops d2 (PopulateFooter data) = Some (OkStatus, d3)"
    "holds (((xs @ PopulateHeader data) @ data) @ PopulateFooter data) d3"
    using append_law [OF d2(2) assms(5)] by blast
  show ?thesis
    using d1(1) d2(1) d3 assms(1) by (intro exI [of _ d3]) (simp add: WriteRecord_def record_bytes_def)
qed

end

text \<open>Many records.\<close>

fun write_records :: "'d file_ops \<Rightarrow> bytes list \<Rightarrow> 'd record_writer \<Rightarrow> (status list \<times> 'd record_writer) option" where
  "write_records fops [] w = Some ([], w)"
| "write_records fops (d # ds) w =
     (case WriteRecord fops d w of
        None \<Rightarrow> None
      | Some (s, w) \<Rightarrow> map_option (\<lambda>(ss, w). (s # ss, w)) (write_records fops ds w))"

context record_sink
begin

lemma write_records_law:
  assumes "rw_dest w = Some d" "holds xs d" "\<And>data. length data \<le> 12 \<Longrightarrow> fits data" "\<And>data. data \<in> set ds \<Longrightarrow> fits data"
  shows "\<exists>d'. write_records fops ds w = Some (replicate (length ds) OkStatus, w\<lparr>rw_dest := Some d'\<rparr>) \<and>
    holds (xs @ record_file ds) d'"
  using assms
proof (induction ds arbitrary: w d xs)
  case Nil
  then have "w\<lparr>rw_dest := Some d\<rparr> = w" by simp
  with Nil show ?case by (auto simp: record_file_def intro!: exI [of _ d])
next
  case (Cons x ds)
  obtain d1 where d1: "WriteRecord fops x w = Some (OkStatus, w\<lparr>rw_dest := Some d1\<rparr>)" "holds (xs @ record_bytes x) d1"
    using WriteRecord_law [OF Cons.prems(1,2), of x] Cons.prems(3,4) by auto
  obtain d' where "write_records fops ds (w\<lparr>rw_dest := Some d1\<rparr>) = Some (replicate (length ds) OkStatus, w\<lparr>rw_dest := Some d'\<rparr>)"
    "holds ((xs @ record_bytes x) @ record_file ds) d'"
    using Cons.IH [OF _ d1(2), of "w\<lparr>rw_dest := Some d1\<rparr>"] Cons.prems(3,4) by auto
  then show ?case using d1(1) by auto
qed

end

text \<open>A file that accepts its appends.\<close>

definition plain_holds :: "'f writable_file \<Rightarrow> ('f \<Rightarrow> bytes) \<Rightarrow> bytes \<Rightarrow> ('f, 'z) destination \<Rightarrow> bool" where
  "plain_holds wfile contents xs d \<longleftrightarrow> appends (wf_Append wfile) contents \<and> (\<exists>f. d = PlainFile f \<and> contents f = xs)"

interpretation plain: record_sink "destination_ops sn wfile zops" "plain_holds wfile contents" "\<lambda>data. True"
  for sn wfile zops contents
proof (unfold_locales, goal_cases)
  case (1 xs d data)
  then obtain f where f: "appends (wf_Append wfile) contents" "d = PlainFile f" "contents f = xs" by (auto simp: plain_holds_def)
  obtain f' where "wf_Append wfile f data = (OkStatus, f')" "contents f' = contents f @ data" by (rule appendsE [OF f(1)])
  then show ?case using f by (simp add: destination_ops_def on_destination_def plain_holds_def)
qed

text \<open>A snappy buffer on such a file; pieces fit that are no longer than its input buffer.\<close>

definition squeezed_holds :: "snappy \<Rightarrow> 'f writable_file \<Rightarrow> ('f \<Rightarrow> bytes) \<Rightarrow> nat \<Rightarrow> bytes \<Rightarrow> ('f, 'z) destination \<Rightarrow> bool" where
  "squeezed_holds sn wfile contents cap xs d \<longleftrightarrow>
     (\<exists>f. d = SnappyFile f \<and> snappy_holds sn (wf_Append wfile) contents xs f \<and> so_input_buffer_capacity f = cap)"

interpretation squeezed: record_sink "destination_ops sn wfile zops" "squeezed_holds sn wfile contents cap" "\<lambda>data. length data \<le> cap"
  for sn wfile zops contents cap
proof (unfold_locales, goal_cases)
  case (1 xs d data)
  then obtain f where f: "d = SnappyFile f" "snappy_holds sn (wf_Append wfile) contents xs f" "so_input_buffer_capacity f = cap"
    by (auto simp: squeezed_holds_def)
  obtain f' where "Snappy_Append sn (wf_Append wfile) data f = Some (OkStatus, f')"
    "snappy_holds sn (wf_Append wfile) contents (xs @ data) f'" "so_input_buffer_capacity f' = cap"
    using snappy_append_law [OF f(2)] 1(2) f(3) by auto
  then show ?case using f(1) by (simp add: destination_ops_def on_destination_def squeezed_holds_def)
qed

lemma int32_size_eq: "0 \<le> n \<Longrightarrow> n < 2 ^ 31 \<Longrightarrow> int32_size n = nat n"
  by (simp add: int32_size_def signed_of_int signed_take_bit_int_eq_self)

end
