(* ===== verification/Record_Reader.thy ===== *)
theory Record_Reader
  imports Buffered_Stream Record_Writer
begin

text \<open>
  \<open>tsl/lib/io/record_reader.cc\<close> and \<open>record_reader.h\<close>: the reader of record files and its
  sequential front end.

  A reader works on any input stream.  Its methods take the operations of the stream, and the
  constructor chooses the stream: the file, a buffered stream over it, a snappy stream over either, or
  a zlib stream, which is a parameter.  \<open>size_t\<close>, \<open>uint64\<close> and \<open>int64_t\<close> values are 64-bit words with the wrap-around
  and the conversions to signed of the code.  Error messages leave out the numbers.
\<close>

section \<open>The streams of a reader\<close>

record reader_options =
  ro_compression_type :: record_compression
  ro_buffer_size :: int
  ro_zlib_options :: zlib_options
  ro_snappy_options :: snappy_options

definition RecordReaderOptions :: "zlib_constants \<Rightarrow> reader_options" where
  "RecordReaderOptions z = \<lparr>ro_compression_type = NONE, ro_buffer_size = 0, ro_zlib_options = ZlibCompressionOptions z,
     ro_snappy_options = SnappyCompressionOptions\<rparr>"

definition CreateRecordReaderOptions :: "zlib_constants \<Rightarrow> string \<Rightarrow> reader_options" where
  "CreateRecordReaderOptions z compression_type =
     (let options = RecordReaderOptions z in
      if compression_type = kZlib
      then options\<lparr>ro_compression_type := ZLIB_COMPRESSION, ro_zlib_options := DEFAULT z\<rparr>
      else if compression_type = kGzip
      then options\<lparr>ro_compression_type := ZLIB_COMPRESSION, ro_zlib_options := GZIP z\<rparr>
      else if compression_type = kSnappy
      then options\<lparr>ro_compression_type := SNAPPY_COMPRESSION\<rparr>
      else options)"

text \<open>The classes an \<open>InputStreamInterface\<close> pointer of a reader can have, and the calls through it: first the streams that
  do not decompress.\<close>

datatype base_stream = FileStream random_stream | BufferedStream "random_stream buffered_stream"

fun base_ReadNBytes :: "int \<Rightarrow> bytes \<Rightarrow> base_stream \<Rightarrow> (status \<times> bytes \<times> base_stream) option" where
  "base_ReadNBytes n r (FileStream st) = map_option (\<lambda>(s, r, st). (s, r, FileStream st)) (op_ReadNBytes random_ops n r st)"
| "base_ReadNBytes n r (BufferedStream st) =
     map_option (\<lambda>(s, r, st). (s, r, BufferedStream st)) (op_ReadNBytes (buffered_ops random_ops) n r st)"

fun base_SkipNBytes :: "int \<Rightarrow> base_stream \<Rightarrow> (status \<times> base_stream) option" where
  "base_SkipNBytes n (FileStream st) = map_option (\<lambda>(s, st). (s, FileStream st)) (op_SkipNBytes random_ops n st)"
| "base_SkipNBytes n (BufferedStream st) =
     map_option (\<lambda>(s, st). (s, BufferedStream st)) (op_SkipNBytes (buffered_ops random_ops) n st)"

fun base_Tell :: "base_stream \<Rightarrow> int" where
  "base_Tell (FileStream st) = op_Tell random_ops st"
| "base_Tell (BufferedStream st) = op_Tell (buffered_ops random_ops) st"

fun base_Reset :: "base_stream \<Rightarrow> status \<times> base_stream" where
  "base_Reset (FileStream st) = map_prod id FileStream (op_Reset random_ops st)"
| "base_Reset (BufferedStream st) = map_prod id BufferedStream (op_Reset (buffered_ops random_ops) st)"

definition base_ops :: "base_stream stream_ops" where
  "base_ops = \<lparr>op_ReadNBytes = base_ReadNBytes, op_SkipNBytes = base_SkipNBytes, op_Tell = base_Tell, op_Reset = base_Reset\<rparr>"

text \<open>Then all of them; a zlib stream is a parameter.\<close>

datatype 'z reader_stream = Base base_stream | Snappy "base_stream snappy_stream" | Zlib 'z

record 'z stream_classes =
  rc_uninitialised :: uninitialised
  rc_snappy :: snappy
  rc_zlib :: "'z stream_ops"

abbreviation rc_snappy_ops :: "'z stream_classes \<Rightarrow> base_stream snappy_stream stream_ops" where
  "rc_snappy_ops rc \<equiv> snappy_ops (rc_uninitialised rc) (rc_snappy rc) base_ops"

fun reader_ReadNBytes :: "'z stream_classes \<Rightarrow> int \<Rightarrow> bytes \<Rightarrow> 'z reader_stream \<Rightarrow> (status \<times> bytes \<times> 'z reader_stream) option" where
  "reader_ReadNBytes rc n r (Base st) = map_option (\<lambda>(s, r, st). (s, r, Base st)) (op_ReadNBytes base_ops n r st)"
| "reader_ReadNBytes rc n r (Snappy st) = map_option (\<lambda>(s, r, st). (s, r, Snappy st)) (op_ReadNBytes (rc_snappy_ops rc) n r st)"
| "reader_ReadNBytes rc n r (Zlib st) = map_option (\<lambda>(s, r, st). (s, r, Zlib st)) (op_ReadNBytes (rc_zlib rc) n r st)"

fun reader_SkipNBytes :: "'z stream_classes \<Rightarrow> int \<Rightarrow> 'z reader_stream \<Rightarrow> (status \<times> 'z reader_stream) option" where
  "reader_SkipNBytes rc n (Base st) = map_option (\<lambda>(s, st). (s, Base st)) (op_SkipNBytes base_ops n st)"
| "reader_SkipNBytes rc n (Snappy st) = map_option (\<lambda>(s, st). (s, Snappy st)) (op_SkipNBytes (rc_snappy_ops rc) n st)"
| "reader_SkipNBytes rc n (Zlib st) = map_option (\<lambda>(s, st). (s, Zlib st)) (op_SkipNBytes (rc_zlib rc) n st)"

fun reader_Tell :: "'z stream_classes \<Rightarrow> 'z reader_stream \<Rightarrow> int" where
  "reader_Tell rc (Base st) = op_Tell base_ops st"
| "reader_Tell rc (Snappy st) = op_Tell (rc_snappy_ops rc) st"
| "reader_Tell rc (Zlib st) = op_Tell (rc_zlib rc) st"

fun reader_Reset :: "'z stream_classes \<Rightarrow> 'z reader_stream \<Rightarrow> status \<times> 'z reader_stream" where
  "reader_Reset rc (Base st) = map_prod id Base (op_Reset base_ops st)"
| "reader_Reset rc (Snappy st) = map_prod id Snappy (op_Reset (rc_snappy_ops rc) st)"
| "reader_Reset rc (Zlib st) = map_prod id Zlib (op_Reset (rc_zlib rc) st)"

definition reader_ops :: "'z stream_classes \<Rightarrow> 'z reader_stream stream_ops" where
  "reader_ops rc = \<lparr>op_ReadNBytes = reader_ReadNBytes rc, op_SkipNBytes = reader_SkipNBytes rc,
     op_Tell = reader_Tell rc, op_Reset = reader_Reset rc\<rparr>"

section \<open>The reader\<close>

record record_stats =
  st_file_size :: int
  st_data_size :: int
  st_entries :: int

record 's record_reader =
  rr_input_stream :: 's
  rr_last_read_failed :: bool
  rr_cached_metadata :: "record_stats option"

text \<open>The constructor; \<open>zlib\<close> makes a zlib stream.\<close>

definition RecordReader ::
  "(base_stream \<Rightarrow> zlib_options \<Rightarrow> 'z) \<Rightarrow> random_file \<Rightarrow> reader_options \<Rightarrow> 'z reader_stream record_reader" where
  "RecordReader zlib file options =
     (let stream = RandomAccessInputStream file;
          stream = (if ro_buffer_size options > 0
                    then BufferedStream (BufferedInputStream stream (nat (ro_buffer_size options)))
                    else FileStream stream);
          stream = (case ro_compression_type options of
                      ZLIB_COMPRESSION \<Rightarrow> Zlib (zlib stream (ro_zlib_options options))
                    | SNAPPY_COMPRESSION \<Rightarrow>
                        Snappy (SnappyInputStream stream (nat (snappy_output_buffer_size (ro_snappy_options options))))
                    | NONE \<Rightarrow> Base stream)
      in \<lparr>rr_input_stream = stream, rr_last_read_failed = False, rr_cached_metadata = None\<rparr>)"

definition GetChecksumErrorSuffix :: "u64 \<Rightarrow> string" where
  "GetChecksumErrorSuffix offset = (if offset = 0 then '' (Is this even a TFRecord file?)'' else '''')"

definition ReadChecksummed ::
  "'s stream_ops \<Rightarrow> u64 \<Rightarrow> u64 \<Rightarrow> bytes \<Rightarrow> 's record_reader \<Rightarrow> (status \<times> bytes \<times> 's record_reader) option" where
  "ReadChecksummed ops offset n result rr =
     (if n \<ge> - 1 - 4 then Some (Error DATA_LOSS (''record size too large'' @ GetChecksumErrorSuffix offset), result, rr)
      else
        let expected = n + 4 in
        (case op_ReadNBytes ops (sint expected) result (rr_input_stream rr) of
           None \<Rightarrow> None
         | Some (s, result, st) \<Rightarrow>
             let rr = rr\<lparr>rr_input_stream := st\<rparr> in
             if \<not> ok s then Some (s, result, rr)
             else if length result \<noteq> unat expected then
               if result = [] then Some (Error OUT_OF_RANGE (''eof'' @ GetChecksumErrorSuffix offset), result, rr)
               else Some (Error DATA_LOSS (''truncated record at '' @ GetChecksumErrorSuffix offset), result, rr)
             else
               let masked_crc = DecodeFixed32 (drop (unat n) result) in
               if Unmask masked_crc \<noteq> Value (take (unat n) result)
               then Some (Error DATA_LOSS (''corrupted record at '' @ GetChecksumErrorSuffix offset), result, rr)
               else Some (OkStatus, take (unat n) result, rr)))"

text \<open>The loop of \<open>GetMetadata\<close> returns the totals at the end of the file.\<close>

partial_function (option) metadata_loop ::
  "'s stream_ops \<Rightarrow> u64 \<Rightarrow> u64 \<Rightarrow> u64 \<Rightarrow> bytes \<Rightarrow> 's record_reader \<Rightarrow> (status \<times> u64 \<times> u64 \<times> 's record_reader) option" where
  "metadata_loop ops offset data_size entries record rr =
     (case ReadChecksummed ops offset 8 record rr of
        None \<Rightarrow> None
      | Some (s, record, rr) \<Rightarrow>
          if \<not> ok s then Some (if IsOutOfRange s then OkStatus else s, data_size, entries, rr)
          else
            let length = DecodeFixed64 record in
            (case op_SkipNBytes ops (sint (length + word_of_nat kFooterSize)) (rr_input_stream rr) of
               None \<Rightarrow> None
             | Some (s, st) \<Rightarrow>
                 let rr = rr\<lparr>rr_input_stream := st\<rparr> in
                 if \<not> ok s then Some (s, data_size, entries, rr)
                 else metadata_loop ops (offset + (word_of_nat kHeaderSize + length + word_of_nat kFooterSize))
                        (data_size + length) (entries + 1) record rr))"

text \<open>\<open>md\<close> is \<open>None\<close> for a null pointer; the statistics it holds afterwards are returned.\<close>

definition GetMetadata ::
  "'s stream_ops \<Rightarrow> record_stats option \<Rightarrow> 's record_reader \<Rightarrow> (status \<times> record_stats option \<times> 's record_reader) option" where
  "GetMetadata ops md rr =
     (if md = None then Some (Error INVALID_ARGUMENT ''Metadata object call to GetMetadata() was null'', md, rr)
      else
        (case rr_cached_metadata rr of
           Some stats \<Rightarrow> Some (OkStatus, Some stats, rr)
         | None \<Rightarrow>
             let (s, st) = op_Reset ops (rr_input_stream rr); rr = rr\<lparr>rr_input_stream := st\<rparr> in
             if \<not> ok s then Some (s, md, rr)
             else
               (case metadata_loop ops 0 0 0 [] rr of
                  None \<Rightarrow> None
                | Some (s, data_size, entries, rr) \<Rightarrow>
                    if \<not> ok s then Some (s, md, rr)
                    else
                      let stats = \<lparr>st_file_size = sint (data_size + word_of_nat (kHeaderSize + kFooterSize) * entries),
                                   st_data_size = sint data_size, st_entries = sint entries\<rparr>
                      in Some (OkStatus, Some stats, rr\<lparr>rr_cached_metadata := Some stats\<rparr>))))"

definition PositionInputStream :: "'s stream_ops \<Rightarrow> u64 \<Rightarrow> 's record_reader \<Rightarrow> (status \<times> 's record_reader) option" where
  "PositionInputStream ops offset rr =
     (let curr_pos = op_Tell ops (rr_input_stream rr); desired_pos = sint offset in
      if curr_pos > desired_pos \<or> curr_pos < 0 \<or> curr_pos = desired_pos \<and> rr_last_read_failed rr then
        let (s, st) = op_Reset ops (rr_input_stream rr);
            rr = rr\<lparr>rr_last_read_failed := False, rr_input_stream := st\<rparr>
        in if \<not> ok s then Some (s, rr)
           else map_option (\<lambda>(s, st). (s, rr\<lparr>rr_input_stream := st\<rparr>)) (op_SkipNBytes ops desired_pos st)
      else if curr_pos < desired_pos then
        map_option (\<lambda>(s, st). (s, rr\<lparr>rr_input_stream := st\<rparr>)) (op_SkipNBytes ops (desired_pos - curr_pos) (rr_input_stream rr))
      else Some (OkStatus, rr))"

definition truncated_record :: "status \<Rightarrow> status" where
  "truncated_record s =
     (if IsOutOfRange s then Error DATA_LOSS (''truncated record at '' @ ''' failed with '' @ error_message s) else s)"

text \<open>\<open>*offset\<close> and \<open>*record\<close> are returned.\<close>

definition ReadRecord ::
  "'s stream_ops \<Rightarrow> u64 \<Rightarrow> bytes \<Rightarrow> 's record_reader \<Rightarrow> (status \<times> u64 \<times> bytes \<times> 's record_reader) option" where
  "ReadRecord ops offset record rr =
     (case PositionInputStream ops offset rr of
        None \<Rightarrow> None
      | Some (s, rr) \<Rightarrow>
          if \<not> ok s then Some (s, offset, record, rr)
          else
            (case ReadChecksummed ops offset 8 record rr of
               None \<Rightarrow> None
             | Some (s, record, rr) \<Rightarrow>
                 if \<not> ok s then Some (s, offset, record, rr\<lparr>rr_last_read_failed := True\<rparr>)
                 else
                   let length = DecodeFixed64 record in
                   (case ReadChecksummed ops (offset + word_of_nat kHeaderSize) length record rr of
                      None \<Rightarrow> None
                    | Some (s, record, rr) \<Rightarrow>
                        if \<not> ok s then Some (truncated_record s, offset, record, rr\<lparr>rr_last_read_failed := True\<rparr>)
                        else Some (OkStatus, offset + (word_of_nat kHeaderSize + length + word_of_nat kFooterSize), record, rr))))"

text \<open>The loop of \<open>SkipRecords\<close> has the number of records still to skip.\<close>

fun skip_records_loop ::
  "'s stream_ops \<Rightarrow> nat \<Rightarrow> u64 \<Rightarrow> int \<Rightarrow> bytes \<Rightarrow> 's record_reader \<Rightarrow> (status \<times> u64 \<times> int \<times> 's record_reader) option" where
  "skip_records_loop ops 0 offset num_skipped record rr = Some (OkStatus, offset, num_skipped, rr)"
| "skip_records_loop ops (Suc left) offset num_skipped record rr =
     (case ReadChecksummed ops offset 8 record rr of
        None \<Rightarrow> None
      | Some (s, record, rr) \<Rightarrow>
          if \<not> ok s then Some (s, offset, num_skipped, rr\<lparr>rr_last_read_failed := True\<rparr>)
          else
            let length = DecodeFixed64 record in
            (case op_SkipNBytes ops (sint (length + word_of_nat kFooterSize)) (rr_input_stream rr) of
               None \<Rightarrow> None
             | Some (s, st) \<Rightarrow>
                 let rr = rr\<lparr>rr_input_stream := st\<rparr> in
                 if \<not> ok s then Some (truncated_record s, offset, num_skipped, rr\<lparr>rr_last_read_failed := True\<rparr>)
                 else skip_records_loop ops left (offset + (word_of_nat kHeaderSize + length + word_of_nat kFooterSize))
                        (num_skipped + 1) record rr))"

definition SkipRecords ::
  "'s stream_ops \<Rightarrow> u64 \<Rightarrow> int \<Rightarrow> int \<Rightarrow> 's record_reader \<Rightarrow> (status \<times> u64 \<times> int \<times> 's record_reader) option" where
  "SkipRecords ops offset num_to_skip num_skipped rr =
     (case PositionInputStream ops offset rr of
        None \<Rightarrow> None
      | Some (s, rr) \<Rightarrow>
          if \<not> ok s then Some (s, offset, num_skipped, rr)
          else skip_records_loop ops (nat num_to_skip) offset 0 [] rr)"

section \<open>The sequential reader\<close>

record 's sequential_reader =
  sr_underlying :: "'s record_reader"
  sr_offset :: u64

definition SequentialRecordReader ::
  "(base_stream \<Rightarrow> zlib_options \<Rightarrow> 'z) \<Rightarrow> random_file \<Rightarrow> reader_options \<Rightarrow> 'z reader_stream sequential_reader" where
  "SequentialRecordReader zlib file options =
     \<lparr>sr_underlying = RecordReader zlib file options, sr_offset = 0\<rparr>"

definition Sequential_ReadRecord ::
  "'s stream_ops \<Rightarrow> bytes \<Rightarrow> 's sequential_reader \<Rightarrow> (status \<times> bytes \<times> 's sequential_reader) option" where
  "Sequential_ReadRecord ops record sr =
     map_option (\<lambda>(s, offset, record, rr). (s, record, \<lparr>sr_underlying = rr, sr_offset = offset\<rparr>))
       (ReadRecord ops (sr_offset sr) record (sr_underlying sr))"

definition Sequential_SkipRecords ::
  "'s stream_ops \<Rightarrow> int \<Rightarrow> int \<Rightarrow> 's sequential_reader \<Rightarrow> (status \<times> int \<times> 's sequential_reader) option" where
  "Sequential_SkipRecords ops num_to_skip num_skipped sr =
     map_option (\<lambda>(s, offset, num_skipped, rr). (s, num_skipped, \<lparr>sr_underlying = rr, sr_offset = offset\<rparr>))
       (SkipRecords ops (sr_offset sr) num_to_skip num_skipped (sr_underlying sr))"

definition TellOffset :: "'s sequential_reader \<Rightarrow> u64" where
  "TellOffset sr = sr_offset sr"

definition SeekOffset :: "u64 \<Rightarrow> 's sequential_reader \<Rightarrow> status \<times> 's sequential_reader" where
  "SeekOffset offset sr =
     (if offset < sr_offset sr then (Error INVALID_ARGUMENT ''Trying to seek offset: '', sr)
      else (OkStatus, sr\<lparr>sr_offset := offset\<rparr>))"

section \<open>What a reader finds at an offset\<close>

lemma sint_u64_small:
  assumes "unat (w :: u64) < 2 ^ 63"
  shows "sint w = int (unat w)"
proof -
  have "int (unat w) < int (2 ^ 63)" using assms by (simp only: of_nat_less_iff)
  then have "uint w < 2 ^ 63" by (simp only: uint_nat) simp
  moreover have "- (2 ^ 63) \<le> uint w" by (rule order.trans [of _ 0]) simp_all
  ultimately have "signed_take_bit 63 (uint w) = uint w" by (intro signed_take_bit_int_eq_self)
  then have "sint w = uint w" by (simp add: sint_uint)
  then show ?thesis by (simp only: uint_nat)
qed

lemma sint_u64_big:
  assumes "2 ^ 63 \<le> unat (w :: u64)"
  shows "sint w < 0"
proof -
  have "int (2 ^ 63) \<le> int (unat w)" "int (unat w) < int (2 ^ 64)"
    using assms unat_u64_less [of w] by (simp_all only: of_nat_le_iff of_nat_less_iff)
  then have "2 ^ 63 \<le> uint w" "uint w < 2 ^ 64" by (simp_all only: uint_nat) simp_all
  moreover have "sint w = signed_take_bit 63 (uint w)" by (simp add: sint_uint)
  moreover have "signed_take_bit 63 (uint w) \<le> uint w - 2 ^ 64"
    using signed_take_bit_int_less_eq [OF calculation(1)] by simp
  ultimately show ?thesis by linarith
qed

text \<open>The reference: the data of the record at \<open>off\<close>, if its header and its data are there and both checksums hold.\<close>

definition header_at :: "bytes \<Rightarrow> nat \<Rightarrow> bool" where
  "header_at bs off \<longleftrightarrow> off + 12 \<le> length bs \<and> take 12 (drop off bs) = checksummed (take 8 (drop off bs))"

definition length_at :: "bytes \<Rightarrow> nat \<Rightarrow> nat" where
  "length_at bs off = unat (DecodeFixed64 (take 8 (drop off bs)))"

definition payload_at :: "bytes \<Rightarrow> nat \<Rightarrow> nat \<Rightarrow> bool" where
  "payload_at bs p m \<longleftrightarrow> p + m + 4 \<le> length bs \<and> take (m + 4) (drop p bs) = checksummed (take m (drop p bs))"

definition record_at :: "bytes \<Rightarrow> nat \<Rightarrow> bytes option" where
  "record_at bs off =
     (if header_at bs off \<and> payload_at bs (off + 12) (length_at bs off)
      then Some (take (length_at bs off) (drop (off + 12) bs)) else None)"

text \<open>The status when there is none; a length that is no \<open>int64_t\<close> is an error of the stream.\<close>

definition no_record_status :: "bytes \<Rightarrow> nat \<Rightarrow> status \<Rightarrow> bool" where
  "no_record_status bs off s \<longleftrightarrow>
     (if length bs < off + 12 then IsOutOfRange s
      else if header_at bs off \<and> 2 ^ 63 \<le> length_at bs off + 4 then \<not> ok s \<and> \<not> IsOutOfRange s
      else IsDataLoss s)"

lemma DataLoss_not_ok: "IsDataLoss s \<Longrightarrow> \<not> ok s"
  by (cases s) auto

lemma OutOfRange_not_ok: "IsOutOfRange s \<Longrightarrow> \<not> ok s"
  by (cases s) auto

lemma header_payload: "header_at bs off \<longleftrightarrow> payload_at bs off 8"
  by (simp add: header_at_def payload_at_def add.commute)

lemma EncodeFixed64_DecodeFixed64: "length h = 8 \<Longrightarrow> EncodeFixed64 (DecodeFixed64 h) = h"
  using memcpy_out_in [of h] by (simp add: EncodeFixed64_def DecodeFixed64_def kLittleEndian_def)

text \<open>The reference accepts what the writer writes and nothing else.\<close>

lemma record_at_iff:
  assumes "length bs < 2 ^ 63"
  shows "record_at bs off = Some d \<longleftrightarrow> off + length d + 16 \<le> length bs \<and> take (length d + 16) (drop off bs) = record_bytes d"
proof
  assume "record_at bs off = Some d"
  then have h: "off + 12 \<le> length bs" "take 12 (drop off bs) = checksummed (take 8 (drop off bs))"
    and m: "off + 12 + length_at bs off + 4 \<le> length bs"
      "take (length_at bs off + 4) (drop (off + 12) bs) = checksummed (take (length_at bs off) (drop (off + 12) bs))"
    and d: "d = take (length_at bs off) (drop (off + 12) bs)"
    by (auto simp: record_at_def header_at_def payload_at_def split: if_splits)
  have len: "length d = length_at bs off" using d m(1) by simp
  have "word_of_nat (length d) = DecodeFixed64 (take 8 (drop off bs))" by (simp add: len length_at_def)
  then have e: "EncodeFixed64 (word_of_nat (length d)) = take 8 (drop off bs)"
    using EncodeFixed64_DecodeFixed64 [of "take 8 (drop off bs)"] h(1) by simp
  have "take (12 + (length d + 4)) (drop off bs) = take 12 (drop off bs) @ take (length d + 4) (drop (off + 12) bs)"
    by (simp only: take_add drop_drop add.commute)
  also have "\<dots> = record_bytes d" unfolding record_bytes_checksummed e h(2) using m(2) d len by simp
  finally show "off + length d + 16 \<le> length bs \<and> take (length d + 16) (drop off bs) = record_bytes d"
    using m(1) len by (simp add: add.commute)
next
  assume a: "off + length d + 16 \<le> length bs \<and> take (length d + 16) (drop off bs) = record_bytes d"
  let ?h = "EncodeFixed64 (word_of_nat (length d))"
  have x: "drop off bs = checksummed ?h @ checksummed d @ drop (off + length d + 16) bs"
    using a append_take_drop_id [of "length d + 16" "drop off bs"]
    by (simp add: record_bytes_checksummed add.commute [of "length d + 16"] add.assoc [of off])
  have c: "take 8 (drop off bs) = ?h" "take 12 (drop off bs) = checksummed ?h" unfolding x by (simp_all add: checksummed_def)
  have y: "drop (off + 12) bs = checksummed d @ drop (off + length d + 16) bs"
    using arg_cong [OF x, of "drop 12"] by (simp add: add.commute)
  have "length d < 2 ^ 64" using a assms by simp
  then have l: "length_at bs off = length d"
    using DecodeFixed_EncodeFixed(3) [of "word_of_nat (length d)" "[]"] unfolding length_at_def c by (simp add: unat_of_nat)
  have z: "take (length d + 4) (drop (off + 12) bs) = checksummed d" "take (length d) (drop (off + 12) bs) = d"
    unfolding y by (simp_all add: checksummed_def)
  show "record_at bs off = Some d"
    using a unfolding record_at_def header_at_def payload_at_def l c z by simp
qed

lemma record_at_drop: "off \<le> length bs \<Longrightarrow> record_at bs off = record_at (drop off bs) 0"
  by (auto simp: record_at_def header_at_def payload_at_def length_at_def add.commute)

lemma record_at_header:
  assumes "record_at bs off = Some d"
  shows "payload_at bs off 8" "length_at bs off = length d" "off + length d + 16 \<le> length bs"
  using assms by (auto simp: record_at_def header_payload payload_at_def split: if_splits)

lemma record_at_append:
  assumes "length (xs @ record_bytes d @ ys) < 2 ^ 63"
  shows "record_at (xs @ record_bytes d @ ys) (length xs) = Some d"
  using assms by (subst record_at_iff) simp_all

lemma no_header_at_end: "length bs < off + 12 \<Longrightarrow> \<not> payload_at bs off 8"
  by (simp add: payload_at_def)

lemma unat_word_of_nat_u64: "n < 2 ^ 64 \<Longrightarrow> unat (word_of_nat n :: u64) = n"
  by (simp add: unat_of_nat)

text \<open>Reading many records.\<close>

fun read_records ::
  "'s stream_ops \<Rightarrow> nat \<Rightarrow> bytes \<Rightarrow> 's sequential_reader \<Rightarrow> ((status \<times> bytes) list \<times> 's sequential_reader) option" where
  "read_records ops 0 buf sr = Some ([], sr)"
| "read_records ops (Suc n) buf sr =
     (case Sequential_ReadRecord ops buf sr of
        None \<Rightarrow> None
      | Some (s, d, sr) \<Rightarrow> map_option (\<lambda>(rs, sr). ((s, d) # rs, sr)) (read_records ops n d sr))"

definition reads_after :: "(bytes \<Rightarrow> 's \<Rightarrow> nat \<Rightarrow> bool) \<Rightarrow> bytes list \<Rightarrow> bytes list \<Rightarrow> 's sequential_reader \<Rightarrow> bool" where
  "reads_after over xs ys sr \<longleftrightarrow> sr_offset sr = word_of_nat (length (record_file xs)) \<and>
     (\<exists>p. over (record_file (xs @ ys)) (rr_input_stream (sr_underlying sr)) p)"

context byte_source
begin

lemma ReadChecksummed_law:
  assumes "over bs (rr_input_stream rr) p" "unat n + 4 < 2 ^ 63"
  shows "\<exists>s r st p'. ReadChecksummed ops offset n result rr = Some (s, r, rr\<lparr>rr_input_stream := st\<rparr>) \<and> over bs st p' \<and>
    (if payload_at bs p (unat n) then s = OkStatus \<and> r = take (unat n) (drop p bs) \<and> p' = p + unat n + 4
     else if p + unat n + 4 \<le> length bs then IsDataLoss s
     else IsOutOfRange s \<and> p' = length bs)"
proof -
  have n: "\<not> n \<ge> - 1 - 4" using assms(2) by (simp add: word_le_nat_alt)
  have e: "unat (n + 4) = unat n + 4" using assms(2) by (simp add: unat_word_ariths)
  have si: "sint (n + 4) = int (unat n + 4)" using assms(2) e by (simp add: sint_u64_small)
  let ?st = "rr_input_stream rr"
  show ?thesis
  proof (cases "p + unat n + 4 \<le> length bs")
    case fits: True
    let ?x = "take (unat n + 4) (drop p bs)"
    obtain st where r: "op_ReadNBytes ops (int (unat n + 4)) result ?st = Some (OkStatus, ?x, st)" "over bs st (p + (unat n + 4))"
      using read_ok [OF assms(1), of "unat n + 4" result] fits by (auto simp del: of_nat_add)
    have len: "length ?x = unat n + 4" using fits by simp
    have "Unmask (DecodeFixed32 (drop (unat n) ?x)) = Value (take (unat n) ?x) \<longleftrightarrow> ?x = checksummed (take (unat n) ?x)"
      using checksum_matches_iff [OF len] .
    moreover have "take (unat n) ?x = take (unat n) (drop p bs)" by (simp add: min_def)
    ultimately show ?thesis
      using n r si len e fits
      by (cases "payload_at bs p (unat n)")
         (simp_all add: ReadChecksummed_def Let_def payload_at_def add.assoc del: length_take take_take, blast+)
  next
    case False
    then have "length bs < p + (unat n + 4)" by simp
    from read_short [OF assms(1) this, of result] obtain s r st where r:
      "op_ReadNBytes ops (int (unat n + 4)) result ?st = Some (s, r, st)" "over bs st (length bs)" "IsOutOfRange s"
      by (auto simp del: of_nat_add)
    have "\<not> ok s" using r(3) by (cases s) auto
    then show ?thesis using n r si False by (auto simp: ReadChecksummed_def Let_def payload_at_def)
  qed
qed

lemma PositionInputStream_law:
  assumes "over bs (rr_input_stream rr) p" "length bs < 2 ^ 63" "off \<le> length bs"
  shows "\<exists>rr'. PositionInputStream ops (word_of_nat off) rr = Some (OkStatus, rr') \<and> over bs (rr_input_stream rr') off \<and>
    rr_cached_metadata rr' = rr_cached_metadata rr"
proof -
  let ?st = "rr_input_stream rr"
  have t: "op_Tell ops ?st = int p" using tell_law [OF assms(1)] .
  have o: "sint (word_of_nat off :: u64) = int off"
    using assms(2,3) by (subst sint_u64_small) (simp_all add: unat_word_of_nat_u64)
  have skip: "\<exists>st'. op_SkipNBytes ops (int off - int q) st = Some (OkStatus, st') \<and> over bs st' off"
    if q: "over bs st q" "q \<le> off" for st q
  proof -
    have "int q + (int off - int q) \<le> INT64_MAX" "0 \<le> int off - int q" "q + nat (int off - int q) = off"
      using assms(2,3) q(2) by simp_all
    then show ?thesis using skip_law [OF q(1), of "int off - int q"] assms(3) by (auto simp: moved_def move_status_def)
  qed
  consider (reset) "int p > int off \<or> int p < 0 \<or> int p = int off \<and> rr_last_read_failed rr"
    | (forward) "\<not> (int p > int off \<or> int p < 0 \<or> int p = int off \<and> rr_last_read_failed rr)" "int p < int off"
    | (here) "\<not> (int p > int off \<or> int p < 0 \<or> int p = int off \<and> rr_last_read_failed rr)" "p = off"
    by linarith
  then show ?thesis
  proof cases
    case reset
    obtain st where r: "op_Reset ops ?st = (OkStatus, st)" "over bs st 0" using reset_law [OF assms(1)] by blast
    obtain st' where "op_SkipNBytes ops (int off) st = Some (OkStatus, st')" "over bs st' off" using skip [OF r(2)] by auto
    with reset r(1) show ?thesis by (simp add: PositionInputStream_def Let_def t o)
  next
    case forward
    obtain st' where "op_SkipNBytes ops (int off - int p) ?st = Some (OkStatus, st')" "over bs st' off"
      using skip [OF assms(1)] forward(2) by auto
    with forward show ?thesis by (simp add: PositionInputStream_def Let_def t o)
  next
    case here
    with assms(1) show ?thesis by (simp add: PositionInputStream_def Let_def t o)
  qed
qed

text \<open>\<open>ReadRecord\<close> finds the record of the reference and nothing else, from any position of its stream.  A header with a
  length that is no \<open>int64_t\<close> is left to the stream.\<close>

lemma ReadRecord_gen:
  assumes "over bs (rr_input_stream rr) p" "length bs < 2 ^ 63" "off \<le> length bs"
    and big: "\<And>rr' p' o' r n. over bs (rr_input_stream rr') p' \<Longrightarrow> header_at bs off \<Longrightarrow> unat n = length_at bs off \<Longrightarrow> 2 ^ 63 \<le> unat n + 4 \<Longrightarrow>
      \<exists>s r' st q. ReadChecksummed ops o' n r rr' = Some (s, r', rr'\<lparr>rr_input_stream := st\<rparr>) \<and> over bs st q \<and> \<not> ok s"
  shows "\<exists>s off' r rr' p'. ReadRecord ops (word_of_nat off) buf rr = Some (s, off', r, rr') \<and> over bs (rr_input_stream rr') p' \<and>
    (case record_at bs off of
       Some d \<Rightarrow> s = OkStatus \<and> off' = word_of_nat (off + length d + 16) \<and> r = d
     | None \<Rightarrow> off' = word_of_nat off \<and> no_record_status bs off s)"
proof -
  let ?o = "word_of_nat off :: u64"
  obtain rr1 where r1: "PositionInputStream ops ?o rr = Some (OkStatus, rr1)" "over bs (rr_input_stream rr1) off"
    using PositionInputStream_law [OF assms(1-3)] by blast
  have eight: "unat (8 :: u64) = 8" by simp
  obtain s2 h st2 p2 where r2: "ReadChecksummed ops ?o 8 buf rr1 = Some (s2, h, rr1\<lparr>rr_input_stream := st2\<rparr>)" "over bs st2 p2"
    "if payload_at bs off 8 then s2 = OkStatus \<and> h = take 8 (drop off bs) \<and> p2 = off + 8 + 4
     else if off + 8 + 4 \<le> length bs then IsDataLoss s2 else IsOutOfRange s2 \<and> p2 = length bs"
    using ReadChecksummed_law [OF r1(2), of 8 ?o buf] unfolding eight by auto
  show ?thesis
  proof (cases "payload_at bs off 8")
    case False
    then have n: "record_at bs off = None" "\<not> ok s2"
      using r2(3) by (auto simp: record_at_def header_payload dest: DataLoss_not_ok OutOfRange_not_ok split: if_splits)
    have "no_record_status bs off s2"
      using r2(3) False by (auto simp: no_record_status_def header_payload split: if_splits)
    then show ?thesis using r1(1) r2(1,2) n by (auto simp: ReadRecord_def)
  next
    case True
    then have h: "s2 = OkStatus" "h = take 8 (drop off bs)" "over bs st2 (off + 12)" using r2(2,3) by (simp_all add: add.commute)
    let ?rr2 = "rr1\<lparr>rr_input_stream := st2\<rparr>"
    define n where "n = DecodeFixed64 h"
    have n: "unat n = length_at bs off" by (simp add: n_def length_at_def h(2))
    have at: "over bs (rr_input_stream ?rr2) (off + 12)" using h(3) by simp
    obtain s3 r st3 p3 where r3: "ReadChecksummed ops (?o + word_of_nat kHeaderSize) n h ?rr2 = Some (s3, r, rr1\<lparr>rr_input_stream := st3\<rparr>)"
      "over bs st3 p3"
      "if payload_at bs (off + 12) (length_at bs off)
       then s3 = OkStatus \<and> r = take (length_at bs off) (drop (off + 12) bs) \<and> p3 = off + 12 + length_at bs off + 4
       else if off + 12 + length_at bs off + 4 \<le> length bs then IsDataLoss s3
       else \<not> ok s3 \<and> (length_at bs off + 4 < 2 ^ 63 \<longrightarrow> IsOutOfRange s3)"
    proof (cases "unat n + 4 < 2 ^ 63")
      case small: True
      from ReadChecksummed_law [OF at small, of "?o + word_of_nat kHeaderSize" h]
      obtain s3 r st3 p3 where q: "ReadChecksummed ops (?o + word_of_nat kHeaderSize) n h ?rr2 = Some (s3, r, ?rr2\<lparr>rr_input_stream := st3\<rparr>)"
        "over bs st3 p3"
        "if payload_at bs (off + 12) (length_at bs off)
         then s3 = OkStatus \<and> r = take (length_at bs off) (drop (off + 12) bs) \<and> p3 = off + 12 + length_at bs off + 4
         else if off + 12 + length_at bs off + 4 \<le> length bs then IsDataLoss s3 else IsOutOfRange s3 \<and> p3 = length bs"
        unfolding n by blast
      show ?thesis
        by (rule that [of s3 r st3 p3]) (use q in \<open>auto dest: OutOfRange_not_ok split: if_splits\<close>)
    next
      case False
      then have no: "\<not> payload_at bs (off + 12) (length_at bs off)" "\<not> off + 12 + length_at bs off + 4 \<le> length bs" "\<not> length_at bs off + 4 < 2 ^ 63"
        using assms(2) n by (auto simp: payload_at_def)
      have "header_at bs off" "2 ^ 63 \<le> unat n + 4" using True False by (simp_all add: header_payload)
      from big [OF at this(1) n this(2), of "?o + word_of_nat kHeaderSize" h]
      obtain s3 r st3 p3 where q: "ReadChecksummed ops (?o + word_of_nat kHeaderSize) n h ?rr2 = Some (s3, r, ?rr2\<lparr>rr_input_stream := st3\<rparr>)"
        "over bs st3 p3" "\<not> ok s3"
        by blast
      show ?thesis by (rule that [of s3 r st3 p3]) (use q no in auto)
    qed
    show ?thesis
    proof (cases "payload_at bs (off + 12) (length_at bs off)")
      case pay: True
      let ?d = "take (length_at bs off) (drop (off + 12) bs)"
      have "length_at bs off \<le> length bs - (off + 12)" using pay unfolding payload_at_def by linarith
      then have len: "length ?d = length_at bs off" by simp
      have "record_at bs off = Some ?d" using True pay by (simp add: record_at_def header_payload)
      moreover have "?o + (word_of_nat kHeaderSize + n + word_of_nat kFooterSize) = word_of_nat (off + length ?d + 16)"
        unfolding len by (simp add: kHeaderSize_def kFooterSize_def flip: n)
      ultimately show ?thesis
        using r1(1) r2(1) h(1) r3 pay by (auto simp: ReadRecord_def n_def [symmetric])
    next
      case bad: False
      have none: "record_at bs off = None" using bad by (simp add: record_at_def)
      have s3: "\<not> ok s3" using r3(3) bad by (auto dest: DataLoss_not_ok split: if_splits)
      have le: "off + 12 \<le> length bs" using True by (simp add: payload_at_def)
      have "no_record_status bs off (truncated_record s3)"
      proof (cases "off + 12 + length_at bs off + 4 \<le> length bs")
        case fits: True
        then have "IsDataLoss s3" using r3(3) bad by simp
        moreover have "length_at bs off + 4 < 2 ^ 63" using fits assms(2) by simp
        ultimately show ?thesis using le by (cases s3) (auto simp: no_record_status_def truncated_record_def)
      next
        case short: False
        then show ?thesis
          using r3(3) bad s3 le True by (cases s3) (auto simp: no_record_status_def truncated_record_def header_payload not_less)
      qed
      then show ?thesis using r1(1) r2(1) h(1) r3(1,2) s3 none by (auto simp: ReadRecord_def n_def [symmetric])
    qed
  qed
qed

text \<open>One record of a file is passed: the header is read, and the data is skipped.\<close>

lemma pass_record:
  assumes "over bs (rr_input_stream rr) off" "length bs < 2 ^ 63" "record_at bs off = Some d"
  obtains h st1 st2 where "ReadChecksummed ops o' 8 buf rr = Some (OkStatus, h, rr\<lparr>rr_input_stream := st1\<rparr>)"
    "DecodeFixed64 h = word_of_nat (length d)"
    "op_SkipNBytes ops (sint (DecodeFixed64 h + word_of_nat kFooterSize)) st1 = Some (OkStatus, st2)"
    "over bs st2 (off + length d + 16)"
proof -
  note r = record_at_header [OF assms(3)]
  have eight: "unat (8 :: u64) = 8" by simp
  obtain s h st1 p1 where 1: "ReadChecksummed ops o' 8 buf rr = Some (s, h, rr\<lparr>rr_input_stream := st1\<rparr>)" "over bs st1 p1"
    "s = OkStatus" "h = take 8 (drop off bs)" "p1 = off + 8 + 4"
    using ReadChecksummed_law [OF assms(1), of 8 o' buf] r(1) unfolding eight by auto
  have d: "DecodeFixed64 h = word_of_nat (length d)" by (simp add: 1(4) r(2) [symmetric] length_at_def)
  have u: "unat (word_of_nat (length d) + word_of_nat kFooterSize :: u64) = length d + 4"
    using r(3) assms(2) unfolding of_nat_add [symmetric] by (subst unat_word_of_nat_u64) (simp_all add: kFooterSize_def)
  have s: "sint (DecodeFixed64 h + word_of_nat kFooterSize) = int (length d + 4)"
    unfolding d using u r(3) assms(2) by (subst sint_u64_small) simp_all
  have "over bs st1 (off + 12)" using 1(2,5) by (simp add: add.commute)
  from skip_law [OF this, of "int (length d + 4)"]
  obtain s' st2 where 2: "op_SkipNBytes ops (int (length d + 4)) st1 = Some (s', st2)" "over bs st2 (off + length d + 16)" "s' = OkStatus"
    using r(3) assms(2) by (auto simp: moved_def move_status_def nat_add_distrib add_ac)
  show ?thesis using 1(1,3) d 2 unfolding s by (intro that [OF _ d, unfolded s]) simp_all
qed

lemma no_header:
  assumes "over bs (rr_input_stream rr) (length bs)"
  obtains s h st where "ReadChecksummed ops o' 8 buf rr = Some (s, h, rr\<lparr>rr_input_stream := st\<rparr>)" "IsOutOfRange s" "over bs st (length bs)"
  using ReadChecksummed_law [OF assms, of 8 o' buf] by (auto simp: payload_at_def)

lemma skip_records_loop_law:
  assumes "over (record_file (xs @ ys)) (rr_input_stream rr) (length (record_file xs))" "length (record_file (xs @ ys)) < 2 ^ 63"
  shows "\<exists>s rr' p'. skip_records_loop ops n (word_of_nat (length (record_file xs))) k buf rr =
      Some (s, word_of_nat (length (record_file (xs @ take n ys))), k + int (min n (length ys)), rr') \<and>
    over (record_file (xs @ ys)) (rr_input_stream rr') p' \<and>
    (if n \<le> length ys then s = OkStatus else IsOutOfRange s)"
  using assms
proof (induction n arbitrary: xs ys rr k buf)
  case 0
  then show ?case by (auto simp del: record_file_simps(3))
next
  case (Suc n)
  show ?case
  proof (cases ys)
    case Nil
    then have "over (record_file xs) (rr_input_stream rr) (length (record_file xs))" using Suc.prems by simp
    from no_header [OF this] obtain s h st where r:
      "ReadChecksummed ops (word_of_nat (length (record_file xs))) 8 buf rr = Some (s, h, rr\<lparr>rr_input_stream := st\<rparr>)"
      "IsOutOfRange s" "over (record_file xs) st (length (record_file xs))" by blast
    have "\<not> ok s" using r(2) by (cases s) auto
    then show ?thesis using r Nil by auto
  next
    case (Cons d zs)
    let ?bs = "record_file (xs @ ys)" and ?o = "length (record_file xs)"
    have at: "record_at ?bs ?o = Some d"
      using record_at_append [of "record_file xs" d "record_file zs"] Suc.prems(2) Cons by simp
    obtain h st1 st2 where p: "ReadChecksummed ops (word_of_nat ?o) 8 buf rr = Some (OkStatus, h, rr\<lparr>rr_input_stream := st1\<rparr>)"
      "DecodeFixed64 h = word_of_nat (length d)"
      "op_SkipNBytes ops (sint (DecodeFixed64 h + word_of_nat kFooterSize)) st1 = Some (OkStatus, st2)"
      "over ?bs st2 (?o + length d + 16)"
      by (rule pass_record [OF Suc.prems at])
    have o: "word_of_nat ?o + (word_of_nat kHeaderSize + DecodeFixed64 h + word_of_nat kFooterSize) =
        (word_of_nat (length (record_file (xs @ [d]))) :: u64)"
      unfolding p(2) by (simp add: kHeaderSize_def kFooterSize_def)
    let ?rr = "rr\<lparr>rr_input_stream := st2\<rparr>"
    have step: "skip_records_loop ops (Suc n) (word_of_nat ?o) k buf rr =
        skip_records_loop ops n (word_of_nat (length (record_file (xs @ [d])))) (k + 1) h ?rr"
      using p(1,3) o by (simp add: Let_def)
    have "over (record_file ((xs @ [d]) @ zs)) (rr_input_stream ?rr) (length (record_file (xs @ [d])))"
      "length (record_file ((xs @ [d]) @ zs)) < 2 ^ 63"
      using p(4) Suc.prems(2) Cons by (simp_all add: add.assoc)
    moreover have "k + 1 + int (min n (length zs)) = k + int (min (Suc n) (length ys))"
      "(xs @ [d]) @ take n zs = xs @ take (Suc n) ys" "n \<le> length zs \<longleftrightarrow> Suc n \<le> length ys" "(xs @ [d]) @ zs = xs @ ys"
      using Cons by simp_all
    ultimately show ?thesis using Suc.IH [of "xs @ [d]" zs ?rr "k + 1" h] unfolding step by metis
  qed
qed

lemma metadata_loop_law:
  assumes "over (record_file (xs @ ys)) (rr_input_stream rr) (length (record_file xs))" "length (record_file (xs @ ys)) < 2 ^ 63"
  shows "\<exists>rr'. metadata_loop ops o' sz k buf rr =
      Some (OkStatus, sz + word_of_nat (sum_list (map length ys)), k + word_of_nat (length ys), rr') \<and>
    over (record_file (xs @ ys)) (rr_input_stream rr') (length (record_file (xs @ ys)))"
  using assms
proof (induction ys arbitrary: xs rr o' sz k buf)
  case Nil
  then have "over (record_file xs) (rr_input_stream rr) (length (record_file xs))" by simp
  from no_header [OF this, of o' buf] obtain s h st where r:
    "ReadChecksummed ops o' 8 buf rr = Some (s, h, rr\<lparr>rr_input_stream := st\<rparr>)"
    "IsOutOfRange s" "over (record_file xs) st (length (record_file xs))" by blast
  have "\<not> ok s" using r(2) by (cases s) auto
  then show ?case using r by (subst metadata_loop.simps) simp
next
  case (Cons d zs)
  let ?bs = "record_file (xs @ d # zs)" and ?o = "length (record_file xs)"
  have at: "record_at ?bs ?o = Some d"
    using record_at_append [of "record_file xs" d "record_file zs"] Cons.prems(2) by simp
  obtain h st1 st2 where p: "ReadChecksummed ops o' 8 buf rr = Some (OkStatus, h, rr\<lparr>rr_input_stream := st1\<rparr>)"
    "DecodeFixed64 h = word_of_nat (length d)"
    "op_SkipNBytes ops (sint (DecodeFixed64 h + word_of_nat kFooterSize)) st1 = Some (OkStatus, st2)"
    "over ?bs st2 (?o + length d + 16)"
    by (rule pass_record [OF Cons.prems at])
  let ?rr = "rr\<lparr>rr_input_stream := st2\<rparr>"
  let ?o' = "o' + (word_of_nat kHeaderSize + DecodeFixed64 h + word_of_nat kFooterSize)"
  have step: "metadata_loop ops o' sz k buf rr = metadata_loop ops ?o' (sz + DecodeFixed64 h) (k + 1) h ?rr"
    using p(1,3) by (subst metadata_loop.simps) (simp add: Let_def)
  have "over (record_file ((xs @ [d]) @ zs)) (rr_input_stream ?rr) (length (record_file (xs @ [d])))"
    "length (record_file ((xs @ [d]) @ zs)) < 2 ^ 63"
    using p(4) Cons.prems(2) by (simp_all add: add.assoc)
  from Cons.IH [OF this, of ?o' "sz + DecodeFixed64 h" "k + 1" h] show ?case
    unfolding step unfolding p(2) by (simp add: add.assoc del: record_file_simps(3))
qed

lemma GetMetadata_law:
  assumes "over (record_file ds) (rr_input_stream rr) p" "length (record_file ds) < 2 ^ 63" "rr_cached_metadata rr = None"
  shows "\<exists>rr'. GetMetadata ops (Some md) rr =
      Some (OkStatus, Some \<lparr>st_file_size = int (length (record_file ds)), st_data_size = int (sum_list (map length ds)),
        st_entries = int (length ds)\<rparr>, rr') \<and>
    over (record_file ds) (rr_input_stream rr') (length (record_file ds))"
proof -
  obtain st where st: "op_Reset ops (rr_input_stream rr) = (OkStatus, st)" "over (record_file ds) st 0"
    using reset_law [OF assms(1)] by blast
  let ?rr = "rr\<lparr>rr_input_stream := st\<rparr>"
  let ?sz = "sum_list (map length ds)"
  obtain rr' where l: "metadata_loop ops 0 0 0 [] ?rr = Some (OkStatus, word_of_nat ?sz, word_of_nat (length ds), rr')"
    "over (record_file ds) (rr_input_stream rr') (length (record_file ds))"
    using metadata_loop_law [of "[]" ds ?rr 0 0 0 "[]"] st(2) assms(2) by auto
  have b: "?sz + 16 * length ds < 2 ^ 63" using assms(2) by (simp add: length_record_file)
  have small: "sint (word_of_nat n :: u64) = int n" if "n < 2 ^ 63" for n
    using that by (subst sint_u64_small) (simp_all add: unat_word_of_nat_u64)
  have "word_of_nat ?sz + word_of_nat (kHeaderSize + kFooterSize) * word_of_nat (length ds) = (word_of_nat (?sz + 16 * length ds) :: u64)"
    by (simp add: kHeaderSize_def kFooterSize_def)
  then have "sint (word_of_nat ?sz + word_of_nat (kHeaderSize + kFooterSize) * word_of_nat (length ds) :: u64) = int (length (record_file ds))"
    using small [OF b] by (simp only: length_record_file)
  moreover have "sint (word_of_nat ?sz :: u64) = int ?sz" "sint (word_of_nat (length ds) :: u64) = int (length ds)"
    using b by (intro small, simp)+
  ultimately show ?thesis
    using assms(3) st(1) l by (simp add: GetMetadata_def Let_def del: of_nat_add of_nat_mult)
qed

text \<open>A sequential reader between the records \<open>xs\<close> and \<open>ys\<close> of a file.\<close>

lemma sequential_read:
  assumes "reads_after over xs ys sr" "length (record_file (xs @ ys)) < 2 ^ 63"
  shows "ys = d # zs \<Longrightarrow> \<exists>sr'. Sequential_ReadRecord ops buf sr = Some (OkStatus, d, sr') \<and> reads_after over (xs @ [d]) zs sr'"
    and "ys = [] \<Longrightarrow> \<exists>s r sr'. Sequential_ReadRecord ops buf sr = Some (s, r, sr') \<and> IsOutOfRange s \<and> reads_after over xs ys sr'"
proof -
  let ?bs = "record_file (xs @ ys)" and ?o = "length (record_file xs)"
  obtain p where p: "over ?bs (rr_input_stream (sr_underlying sr)) p" and o: "sr_offset sr = word_of_nat ?o"
    using assms(1) by (auto simp: reads_after_def)
  have le: "?o \<le> length ?bs" by simp
  have at: "record_at ?bs ?o = Some x" if "ys = x # us" for x us
    using record_at_append [of "record_file xs" x "record_file us"] assms(2) that by simp
  have small: "length_at ?bs ?o + 4 < 2 ^ 63" if h: "header_at ?bs ?o"
  proof (cases ys)
    case Nil
    then show ?thesis using h by (simp add: header_at_def)
  next
    case (Cons x us)
    then show ?thesis using record_at_header(2,3) [OF at [OF Cons]] assms(2) by simp
  qed
  have "\<exists>s off' r rr' p'. ReadRecord ops (word_of_nat ?o) buf (sr_underlying sr) = Some (s, off', r, rr') \<and>
    over ?bs (rr_input_stream rr') p' \<and>
    (case record_at ?bs ?o of Some d \<Rightarrow> s = OkStatus \<and> off' = word_of_nat (?o + length d + 16) \<and> r = d
     | None \<Rightarrow> off' = word_of_nat ?o \<and> no_record_status ?bs ?o s)"
    by (rule ReadRecord_gen [OF p assms(2) le]) (use small in \<open>simp add: not_less [symmetric]\<close>)
  then obtain s off' r rr' p' where r: "ReadRecord ops (word_of_nat ?o) buf (sr_underlying sr) = Some (s, off', r, rr')"
    "over ?bs (rr_input_stream rr') p'"
    "case record_at ?bs ?o of Some d \<Rightarrow> s = OkStatus \<and> off' = word_of_nat (?o + length d + 16) \<and> r = d
     | None \<Rightarrow> off' = word_of_nat ?o \<and> no_record_status ?bs ?o s"
    by blast
  show "\<exists>sr'. Sequential_ReadRecord ops buf sr = Some (OkStatus, d, sr') \<and> reads_after over (xs @ [d]) zs sr'"
    if ys: "ys = d # zs"
    using r at [OF ys] ys by (auto simp: Sequential_ReadRecord_def reads_after_def o add.assoc)
  show "\<exists>s r sr'. Sequential_ReadRecord ops buf sr = Some (s, r, sr') \<and> IsOutOfRange s \<and> reads_after over xs ys sr'"
    if ys: "ys = []"
  proof -
    have "record_at ?bs ?o = None" "length ?bs < ?o + 12" using ys by (simp_all add: record_at_def header_at_def)
    then show ?thesis using r by (auto simp: Sequential_ReadRecord_def reads_after_def o no_record_status_def)
  qed
qed

lemma read_records_law:
  assumes "reads_after over xs ys sr" "length (record_file (xs @ ys)) < 2 ^ 63"
  shows "\<exists>sr'. read_records ops (length ys) buf sr = Some (map (Pair OkStatus) ys, sr') \<and> reads_after over (xs @ ys) [] sr'"
  using assms
proof (induction ys arbitrary: xs sr buf)
  case (Cons d zs)
  obtain sr1 where 1: "Sequential_ReadRecord ops buf sr = Some (OkStatus, d, sr1)" "reads_after over (xs @ [d]) zs sr1"
    using sequential_read(1) [OF Cons.prems refl] by blast
  obtain sr' where "read_records ops (length zs) d sr1 = Some (map (Pair OkStatus) zs, sr')" "reads_after over (xs @ d # zs) [] sr'"
    using Cons.IH [OF 1(2), of d] Cons.prems(2) by auto
  with 1(1) show ?case by simp
qed simp

lemma read_all_records:
  assumes "reads_after over [] ds sr" "length (record_file ds) < 2 ^ 63"
  shows "\<exists>sr'. read_records ops (length ds) [] sr = Some (map (Pair OkStatus) ds, sr') \<and>
    TellOffset sr' = word_of_nat (length (record_file ds)) \<and>
    (\<exists>s r sr''. Sequential_ReadRecord ops [] sr' = Some (s, r, sr'') \<and> IsOutOfRange s)"
proof -
  obtain sr' where r: "read_records ops (length ds) [] sr = Some (map (Pair OkStatus) ds, sr')" "reads_after over ds [] sr'"
    using read_records_law [OF assms(1), of "[]"] assms(2) by auto
  have "length (record_file (ds @ [])) < 2 ^ 63" using assms(2) by simp
  from sequential_read(2) [OF r(2) this refl, of "[]"] show ?thesis using r by (auto simp: TellOffset_def reads_after_def)
qed

end

text \<open>On streams that reject negative counts, nothing is left open.\<close>

context input_stream
begin

lemma ReadChecksummed_big:
  assumes "over bs (rr_input_stream rr) p" "2 ^ 63 \<le> unat n + 4"
  shows "\<exists>s r st q. ReadChecksummed ops offset n result rr = Some (s, r, rr\<lparr>rr_input_stream := st\<rparr>) \<and> over bs st q \<and> \<not> ok s"
proof (cases "n \<ge> - 1 - 4")
  case True
  then have "ReadChecksummed ops offset n result rr =
      Some (Error DATA_LOSS (''record size too large'' @ GetChecksumErrorSuffix offset), result, rr\<lparr>rr_input_stream := rr_input_stream rr\<rparr>)"
    by (simp add: ReadChecksummed_def)
  moreover have "\<not> ok (Error DATA_LOSS (''record size too large'' @ GetChecksumErrorSuffix offset))" by simp
  ultimately show ?thesis using assms(1) by blast
next
  case False
  then have "unat n < 2 ^ 64 - 5" by (simp add: word_le_nat_alt not_le)
  then have "unat (n + 4) = unat n + 4" by (simp add: unat_word_ariths)
  then have si: "sint (n + 4) < 0" using assms(2) by (simp add: sint_u64_big)
  from negative_law [OF assms(1) si, of result] obtain s r st where
    "op_ReadNBytes ops (sint (n + 4)) result (rr_input_stream rr) = Some (s, r, st)" "over bs st p" "\<not> ok s" by blast
  then show ?thesis
    using False by (intro exI [of _ s] exI [of _ r] exI [of _ st] exI [of _ p]) (simp add: ReadChecksummed_def Let_def)
qed

lemma ReadRecord_law:
  assumes "over bs (rr_input_stream rr) p" "length bs < 2 ^ 63" "off \<le> length bs"
  shows "\<exists>s off' r rr' p'. ReadRecord ops (word_of_nat off) buf rr = Some (s, off', r, rr') \<and> over bs (rr_input_stream rr') p' \<and>
    (case record_at bs off of
       Some d \<Rightarrow> s = OkStatus \<and> off' = word_of_nat (off + length d + 16) \<and> r = d
     | None \<Rightarrow> off' = word_of_nat off \<and> no_record_status bs off s)"
  by (rule src.ReadRecord_gen [OF assms]) (rule ReadChecksummed_big)

end

section \<open>Readers on files\<close>

fun base_over :: "bytes \<Rightarrow> base_stream \<Rightarrow> nat \<Rightarrow> bool" where
  "base_over bs (FileStream st) p = random_over bs st p"
| "base_over bs (BufferedStream st) p = buffered_over random_over bs st p"

interpretation base: input_stream base_ops base_over
proof (unfold_locales, goal_cases)
  case (1 bs st p)
  then show ?case by (cases st) (use random.over_le buffered.over_le in \<open>auto\<close>)
next
  case (2 bs st p n result)
  then show ?case
    by (cases st) (use random.read_law [of bs _ p n result] buffered.read_law [of bs _ p n result] in
        \<open>fastforce simp: base_ops_def\<close>)+
next
  case (3 bs st p n)
  then show ?case
    by (cases st) (use random.skip_law [of bs _ p n] buffered.skip_law [of bs _ p n] in \<open>fastforce simp: base_ops_def\<close>)+
next
  case (4 bs st p n result)
  then show ?case
    by (cases st) (use random.negative_law [of bs _ p n result] buffered.negative_law [of bs _ p n result] in
        \<open>fastforce simp: base_ops_def\<close>)+
next
  case (5 bs st p n)
  then show ?case
    by (cases st) (use random.negative_skip_law [of bs _ p n] buffered.negative_skip_law [of bs _ p n] in
        \<open>fastforce simp: base_ops_def\<close>)+
next
  case (6 bs st p)
  then show ?case by (cases st) (use random.tell_law buffered.tell_law in \<open>auto simp: base_ops_def\<close>)
next
  case (7 bs st p)
  then show ?case
    by (cases st) (use random.reset_law [of bs _ p] buffered.reset_law [of bs _ p] in \<open>fastforce simp: base_ops_def\<close>)+
qed

interpretation snappy_file: byte_source "rc_snappy_ops rc" "snappy_over (rc_snappy rc) base_over" for rc
  by (rule base.src.snappy_byte_source)

text \<open>Readers without compression: the file itself, or a buffer over it.\<close>

fun file_over :: "bytes \<Rightarrow> 'z reader_stream \<Rightarrow> nat \<Rightarrow> bool" where
  "file_over bs (Base st) p = base_over bs st p"
| "file_over bs (Snappy st) p = False"
| "file_over bs (Zlib st) p = False"

interpretation reader: input_stream "reader_ops rc" file_over for rc
proof (unfold_locales, goal_cases)
  case (1 bs st p)
  then show ?case by (cases st) (use base.over_le in \<open>auto\<close>)
next
  case (2 bs st p n result)
  then show ?case by (cases st) (use base.read_law [of bs _ p n result] in \<open>fastforce simp: reader_ops_def\<close>)+
next
  case (3 bs st p n)
  then show ?case by (cases st) (use base.skip_law [of bs _ p n] in \<open>fastforce simp: reader_ops_def\<close>)+
next
  case (4 bs st p n result)
  then show ?case by (cases st) (use base.negative_law [of bs _ p n result] in \<open>fastforce simp: reader_ops_def\<close>)+
next
  case (5 bs st p n)
  then show ?case by (cases st) (use base.negative_skip_law [of bs _ p n] in \<open>fastforce simp: reader_ops_def\<close>)+
next
  case (6 bs st p)
  then show ?case by (cases st) (use base.tell_law in \<open>auto simp: reader_ops_def\<close>)
next
  case (7 bs st p)
  then show ?case by (cases st) (use base.reset_law [of bs _ p] in \<open>fastforce simp: reader_ops_def\<close>)+
qed

text \<open>Readers of files that were compressed with snappy.\<close>

fun compressed_over :: "'z stream_classes \<Rightarrow> bytes \<Rightarrow> 'z reader_stream \<Rightarrow> nat \<Rightarrow> bool" where
  "compressed_over rc bs (Base st) p = False"
| "compressed_over rc bs (Snappy st) p = snappy_over (rc_snappy rc) base_over bs st p"
| "compressed_over rc bs (Zlib st) p = False"

interpretation compressed: byte_source "reader_ops rc" "compressed_over rc" for rc
proof (unfold_locales, goal_cases)
  case (1 bs st p)
  then show ?case by (cases st) (use snappy_file.over_le in \<open>auto\<close>)
next
  case (2 bs st p n result)
  then show ?case by (cases st) (use snappy_file.read_ok [of rc bs _ p n result] in \<open>fastforce simp: reader_ops_def\<close>)+
next
  case (3 bs st p n result)
  then show ?case by (cases st) (use snappy_file.read_short [of rc bs _ p n result] in \<open>fastforce simp: reader_ops_def\<close>)+
next
  case (4 bs st p n)
  then show ?case by (cases st) (use snappy_file.skip_law [of rc bs _ p n] in \<open>fastforce simp: reader_ops_def\<close>)+
next
  case (5 bs st p)
  then show ?case by (cases st) (use snappy_file.tell_law in \<open>auto simp: reader_ops_def\<close>)
next
  case (6 bs st p)
  then show ?case by (cases st) (use snappy_file.reset_law [of rc bs _ p] in \<open>fastforce simp: reader_ops_def\<close>)+
qed

text \<open>What the constructors make.\<close>

lemma base_fresh:
  assumes "file_has file bs"
  shows "base_over bs (if ro_buffer_size options > 0
      then BufferedStream (BufferedInputStream (RandomAccessInputStream file) (nat (ro_buffer_size options)))
      else FileStream (RandomAccessInputStream file)) 0"
  using assms buffered_fresh [OF assms, of "nat (ro_buffer_size options)"]
  by (auto simp: buffered_over_def random_over_def RandomAccessInputStream_def)

lemma RecordReader_over:
  assumes "file_has file bs" "ro_compression_type options = NONE"
  shows "file_over bs (rr_input_stream (RecordReader zlib file options)) 0"
  using base_fresh [OF assms(1), of options] assms(2) by (simp add: RecordReader_def Let_def)

lemma RecordReader_over_snappy:
  assumes "file_has file (framed (rc_snappy rc) Bs)" "ro_compression_type options = SNAPPY_COMPRESSION" "snappy_ok (rc_snappy rc)"
    and "\<forall>b \<in> set Bs. good_block (rc_snappy rc) (nat (snappy_output_buffer_size (ro_snappy_options options))) b"
  shows "compressed_over rc (concat Bs) (rr_input_stream (RecordReader zlib file options)) 0"
proof -
  let ?st = "SnappyInputStream (if ro_buffer_size options > 0
      then BufferedStream (BufferedInputStream (RandomAccessInputStream file) (nat (ro_buffer_size options)))
      else FileStream (RandomAccessInputStream file)) (nat (snappy_output_buffer_size (ro_snappy_options options)))"
  have "snappy_at (rc_snappy rc) base_over [] Bs ?st 0"
    using base_fresh [OF assms(1), of options] assms(3,4) by (simp add: snappy_at_def SnappyInputStream_def)
  then have "snappy_over (rc_snappy rc) base_over (concat Bs) ?st 0"
    unfolding snappy_over_def by (intro exI [of _ "[]"] exI [of _ Bs]) simp
  then show ?thesis using assms(2) by (simp add: RecordReader_def Let_def)
qed

text \<open>What the reference finds where one byte of a record was changed.\<close>

lemma corrupted_header:
  assumes "drop off bs = (record_bytes data)[i := c] @ post" "i < 12" "c \<noteq> record_bytes data ! i"
  shows "\<not> header_at bs off"
proof -
  let ?h = "EncodeFixed64 (word_of_nat (length data))"
  have u: "(record_bytes data)[i := c] = (checksummed ?h)[i := c] @ checksummed data"
    unfolding record_bytes_checksummed using assms(2) by (simp add: list_update_append)
  have "take 12 (drop off bs) = (checksummed ?h)[i := c]" "take 8 (drop off bs) = take 8 ((checksummed ?h)[i := c])"
    unfolding assms(1) u by simp_all
  moreover have "c \<noteq> checksummed ?h ! i" using assms(2,3) by (simp add: record_bytes_checksummed nth_append)
  then have "(checksummed ?h)[i := c] \<noteq> checksummed (take 8 ((checksummed ?h)[i := c]))"
    using checksummed_byte [OF refl, of i ?h c] assms(2) by simp
  ultimately show ?thesis by (simp add: header_at_def)
qed

lemma corrupted_payload:
  assumes "drop off bs = (record_bytes data)[i := c] @ post" "12 \<le> i" "i < length (record_bytes data)" "c \<noteq> record_bytes data ! i"
    and "length data < 2 ^ 64"
  shows "length_at bs off = length data" "\<not> payload_at bs (off + 12) (length data)"
proof -
  let ?h = "EncodeFixed64 (word_of_nat (length data))"
  define j where "j = i - 12"
  have u: "(record_bytes data)[i := c] = checksummed ?h @ (checksummed data)[j := c]"
    unfolding record_bytes_checksummed j_def using assms(2) by (simp add: list_update_append)
  have "take 8 (drop off bs) = ?h" unfolding assms(1) u by (simp add: checksummed_def)
  then show "length_at bs off = length data"
    using DecodeFixed_EncodeFixed(3) [of "word_of_nat (length data)" "[]"] assms(5)
    by (simp add: length_at_def unat_word_of_nat_u64)
  have "drop (off + 12) bs = drop 12 (drop off bs)" by (simp add: add.commute)
  also have "\<dots> = (checksummed data)[j := c] @ post" unfolding assms(1) u by simp
  finally have d: "take (length data + 4) (drop (off + 12) bs) = (checksummed data)[j := c]"
    "take (length data) (drop (off + 12) bs) = take (length data) ((checksummed data)[j := c])" by simp_all
  have "c \<noteq> checksummed data ! j" "j < length (checksummed data)"
    using assms(2-4) unfolding record_bytes_checksummed by (simp_all add: nth_append j_def)
  from checksummed_byte [OF refl this(2,1)] show "\<not> payload_at bs (off + 12) (length data)"
    by (simp only: payload_at_def d) simp
qed

lemma corrupted_reference:
  assumes "bs = pre @ (record_bytes data)[i := c] @ post" "i < length (record_bytes data)" "c \<noteq> record_bytes data ! i"
    and "length bs < 2 ^ 63"
  shows "record_at bs (length pre) = None" "header_at bs (length pre) \<longrightarrow> length_at bs (length pre) = length data"
proof -
  have d: "drop (length pre) bs = (record_bytes data)[i := c] @ post" using assms(1) by simp
  have l: "length data < 2 ^ 64" using assms(1,4) by simp
  show "record_at bs (length pre) = None" "header_at bs (length pre) \<longrightarrow> length_at bs (length pre) = length data"
    using corrupted_header [OF d _ assms(3)] corrupted_payload [OF d _ assms(2,3) l]
    by (cases "i < 12"; auto simp: record_at_def)+
qed

section \<open>Properties\<close>

text \<open>(C5) Records come back as they were written: a writer without compression on an empty file that accepts
  its appends reports success for every record, and a sequential reader of that file, buffered or not,
  returns the same records in order, each with status OK, then \<open>OUT_OF_RANGE\<close>, at an offset that is the
  length of the file.\<close>

theorem record_roundtrip:
  assumes "appends (wf_Append wfile) contents" "contents f = []"
    and "RecordWriter zlib_buffer f wopts = Some w" "wo_compression_type wopts = NONE"
    and "length (record_file ds) < 2 ^ 63" "ro_compression_type ropts = NONE"
  shows "\<exists>w' f'. write_records (destination_ops sn wfile zops) ds w = Some (replicate (length ds) OkStatus, w') \<and>
    rw_dest w' = Some (PlainFile f') \<and>
    (\<forall>file. file_has file (contents f') \<longrightarrow>
      (\<exists>sr. read_records (reader_ops rc) (length ds) [] (SequentialRecordReader zlib file ropts) = Some (map (Pair OkStatus) ds, sr) \<and>
        TellOffset sr = word_of_nat (length (contents f')) \<and>
        (\<exists>s r sr'. Sequential_ReadRecord (reader_ops rc) [] sr = Some (s, r, sr') \<and> IsOutOfRange s)))"
proof -
  have "rw_dest w = Some (PlainFile f)"
    using assms(3,4) by (auto simp: RecordWriter_def IsZlibCompressed_def IsSnappyCompressed_def)
  moreover have "plain_holds wfile contents [] (PlainFile f)" using assms(1,2) by (simp add: plain_holds_def)
  ultimately obtain f' where w: "write_records (destination_ops sn wfile zops) ds w =
      Some (replicate (length ds) OkStatus, w\<lparr>rw_dest := Some (PlainFile f')\<rparr>)" and f': "contents f' = record_file ds"
    using plain.write_records_law [of w "PlainFile f" wfile contents "[]" ds sn zops] by (auto simp: plain_holds_def)
  have "\<exists>sr. read_records (reader_ops rc) (length ds) [] (SequentialRecordReader zlib file ropts) = Some (map (Pair OkStatus) ds, sr) \<and>
      TellOffset sr = word_of_nat (length (contents f')) \<and>
      (\<exists>s r sr'. Sequential_ReadRecord (reader_ops rc) [] sr = Some (s, r, sr') \<and> IsOutOfRange s)"
    if has: "file_has file (contents f')" for "file"
  proof -
    have "reads_after file_over [] ds (SequentialRecordReader zlib file ropts)"
      using RecordReader_over [OF _ assms(6), of "file" "record_file ds"] has f'
      by (auto simp: reads_after_def SequentialRecordReader_def)
    from reader.src.read_all_records [OF this assms(5)] show ?thesis unfolding f' .
  qed
  then show ?thesis using w(1) f'(1) by auto
qed

text \<open>Concrete parameters: a file that is its contents, a codec that stores its input, and the constants of zlib.\<close>

definition byte_sink :: "bytes writable_file" where
  "byte_sink = \<lparr>wf_Append = \<lambda>f b. (OkStatus, f @ b), wf_Flush = Pair OkStatus, wf_Close = Pair OkStatus\<rparr>"

definition stored :: snappy where
  "stored = \<lparr>Snappy_Compress = Some, Snappy_GetUncompressedLength = \<lambda>c. Some (length c), Snappy_Uncompress = Some\<rparr>"

definition plain_zlib :: zlib_constants where
  "plain_zlib = \<lparr>Z_NO_FLUSH = 0, MAX_WBITS = 15, Z_DEFAULT_COMPRESSION = - 1, Z_DEFLATED = 8, Z_DEFAULT_STRATEGY = 0\<rparr>"

definition plain_classes :: "random_stream stream_classes" where
  "plain_classes = \<lparr>rc_uninitialised = \<lparr>ui_bytes = \<lambda>n. replicate n 0, ui_u32 = 7\<rparr>, rc_snappy = stored, rc_zlib = random_ops\<rparr>"

definition no_zlib :: "bytes file_ops" where
  "no_zlib = \<lparr>op_Append = \<lambda>f b. None, op_Flush = \<lambda>f. None, op_Close = \<lambda>f. None\<rparr>"

lemma byte_sink_appends: "appends (wf_Append byte_sink) (\<lambda>f. f)"
  by (simp add: appends_def byte_sink_def)

lemma record_roundtrip_witness:
  "\<exists>sr. read_records (reader_ops plain_classes) 2 []
      (SequentialRecordReader (\<lambda>s o'. RandomAccessInputStream (byte_file [])) (byte_file (record_file [[1, 2], []]))
        (RecordReaderOptions plain_zlib)) =
    Some ([(OkStatus, [1, 2]), (OkStatus, [])], sr)"
proof -
  define ds :: "bytes list" where "ds = [[1, 2], []]"
  have ds: "length ds = 2" "map (Pair OkStatus) ds = [(OkStatus, [1, 2]), (OkStatus, [])]" by (simp_all add: ds_def)
  let ?w = "\<lparr>rw_dest = Some (PlainFile []), rw_options = RecordWriterOptions plain_zlib\<rparr>"
  have w: "RecordWriter (\<lambda>f o'. Some f) [] (RecordWriterOptions plain_zlib) = Some ?w"
    by (simp add: RecordWriter_def IsZlibCompressed_def IsSnappyCompressed_def RecordWriterOptions_def)
  have len: "length (record_file ds) < 2 ^ 63" by (simp add: length_record_file ds_def)
  have none: "wo_compression_type (RecordWriterOptions plain_zlib) = NONE" "ro_compression_type (RecordReaderOptions plain_zlib) = NONE"
    by (simp_all add: RecordWriterOptions_def RecordReaderOptions_def)
  obtain w' f' where r: "write_records (destination_ops stored byte_sink no_zlib) ds ?w = Some (replicate 2 OkStatus, w')"
    "rw_dest w' = Some (PlainFile f')"
    "\<forall>file. file_has file f' \<longrightarrow> (\<exists>sr. read_records (reader_ops plain_classes) 2 []
        (SequentialRecordReader (\<lambda>s o'. RandomAccessInputStream (byte_file [])) file (RecordReaderOptions plain_zlib)) =
        Some ([(OkStatus, [1, 2]), (OkStatus, [])], sr))"
    using record_roundtrip [OF byte_sink_appends refl w none(1) len none(2), of stored no_zlib plain_classes
        "\<lambda>s o'. RandomAccessInputStream (byte_file [])"] unfolding ds by blast
  have "f' = record_file ds"
    using plain.write_records_law [of ?w "PlainFile []" byte_sink "\<lambda>f. f" "[]" ds stored no_zlib] r(1,2)
    by (auto simp: plain_holds_def byte_sink_appends)
  then show ?thesis using r(3) file_has_byte_file unfolding ds_def by blast
qed

text \<open>(C40) The same through snappy: the writer compresses what it is given in blocks, \<open>Close\<close> writes the last of them, and
  a reader whose output buffer is at least as large as the input buffer of the writer returns the
  records, provided that no record is longer than that buffer.\<close>

theorem snappy_record_roundtrip:
  assumes "appends (wf_Append wfile) contents" "contents f = []" "snappy_ok (rc_snappy rc)" "snappy_total (rc_snappy rc)"
    and "RecordWriter zlib_buffer f wopts = Some w" "wo_compression_type wopts = SNAPPY_COMPRESSION"
    and "snappy_input_buffer_size (wo_snappy_options wopts) = cap" "12 \<le> cap" "cap < 2 ^ 31"
    and "0 < snappy_output_buffer_size (wo_snappy_options wopts)" "snappy_output_buffer_size (wo_snappy_options wopts) < 2 ^ 31"
    and "\<forall>d \<in> set ds. int (length d) \<le> cap" "length (record_file ds) < 2 ^ 63"
    and "ro_compression_type ropts = SNAPPY_COMPRESSION" "cap \<le> snappy_output_buffer_size (ro_snappy_options ropts)"
  shows "\<exists>w1 o' w2. write_records (destination_ops (rc_snappy rc) wfile zops) ds w = Some (replicate (length ds) OkStatus, w1) \<and>
    RecordWriter_Close (destination_ops (rc_snappy rc) wfile zops) w1 = Some (OkStatus, Some (SnappyFile o'), w2) \<and>
    (\<forall>file. file_has file (contents (so_file o')) \<longrightarrow>
      (\<exists>sr. read_records (reader_ops rc) (length ds) [] (SequentialRecordReader zlib file ropts) = Some (map (Pair OkStatus) ds, sr) \<and>
        TellOffset sr = word_of_nat (length (record_file ds)) \<and>
        (\<exists>s r sr'. Sequential_ReadRecord (reader_ops rc) [] sr = Some (s, r, sr') \<and> IsOutOfRange s)))"
proof -
  let ?sn = "rc_snappy rc" and ?ops = "destination_ops (rc_snappy rc) wfile zops"
  let ?o = "SnappyOutputBuffer f (nat cap) (nat (snappy_output_buffer_size (wo_snappy_options wopts)))"
  have w: "w = \<lparr>rw_dest = Some (SnappyFile ?o), rw_options = wopts\<rparr>"
    using assms(5-11) by (auto simp: RecordWriter_def IsZlibCompressed_def IsSnappyCompressed_def int32_size_eq)
  have o: "squeezed_holds ?sn wfile contents (nat cap) [] (SnappyFile ?o)"
    using snappy_fresh_holds [OF assms(1,4,2), of "nat cap"] assms(8-10)
    by (simp add: squeezed_holds_def SnappyOutputBuffer_def)
  have fits: "length d \<le> nat cap" if "d \<in> set ds \<or> length d \<le> 12" for d using that assms(8,12) by fastforce
  obtain o1 where o1: "write_records ?ops ds w = Some (replicate (length ds) OkStatus, w\<lparr>rw_dest := Some (SnappyFile o1)\<rparr>)"
    "snappy_holds ?sn (wf_Append wfile) contents (record_file ds) o1" "so_input_buffer_capacity o1 = nat cap"
    using squeezed.write_records_law [OF _ o, of w ds zops] fits w by (auto simp: squeezed_holds_def)
  obtain o2 Bs where o2: "Snappy_Close ?sn (wf_Append wfile) o1 = Some (OkStatus, o2)" "contents (so_file o2) = framed ?sn Bs"
    "concat Bs = record_file ds" "\<forall>b \<in> set Bs. good_block ?sn (nat cap) b"
    using snappy_close_law [OF o1(2)] o1(3) by auto
  have close: "RecordWriter_Close ?ops (w\<lparr>rw_dest := Some (SnappyFile o1)\<rparr>) = Some (OkStatus, Some (SnappyFile o2), w\<lparr>rw_dest := None\<rparr>)"
    using o2(1) w assms(6) by (simp add: RecordWriter_Close_def IsSnappyCompressed_def destination_ops_def on_destination_def)
  have good: "\<forall>b \<in> set Bs. good_block ?sn (nat (snappy_output_buffer_size (ro_snappy_options ropts))) b"
    using o2(4) assms(15) by (auto simp: good_block_def intro: order.trans)
  have "\<exists>sr. read_records (reader_ops rc) (length ds) [] (SequentialRecordReader zlib file ropts) = Some (map (Pair OkStatus) ds, sr) \<and>
      TellOffset sr = word_of_nat (length (record_file ds)) \<and>
      (\<exists>s r sr'. Sequential_ReadRecord (reader_ops rc) [] sr = Some (s, r, sr') \<and> IsOutOfRange s)"
    if has: "file_has file (contents (so_file o2))" for "file"
  proof -
    have "reads_after (compressed_over rc) [] ds (SequentialRecordReader zlib file ropts)"
      using RecordReader_over_snappy [OF _ assms(14,3) good, of "file"] has o2(2,3)
      by (auto simp: reads_after_def SequentialRecordReader_def)
    from compressed.read_all_records [OF this assms(13)] show ?thesis .
  qed
  then show ?thesis using o1(1) close by blast
qed

lemma snappy_record_roundtrip_witness:
  "\<exists>w w1 o' w2. RecordWriter (\<lambda>f o'. Some f) [] (CreateRecordWriterOptions plain_zlib ''SNAPPY'') = Some w \<and>
    write_records (destination_ops stored byte_sink no_zlib) [[1, 2], []] w = Some ([OkStatus, OkStatus], w1) \<and>
    RecordWriter_Close (destination_ops stored byte_sink no_zlib) w1 = Some (OkStatus, Some (SnappyFile o'), w2) \<and>
    (\<exists>sr. read_records (reader_ops plain_classes) 2 []
        (SequentialRecordReader (\<lambda>s o'. RandomAccessInputStream (byte_file [])) (byte_file (so_file o'))
          (CreateRecordReaderOptions plain_zlib ''SNAPPY'')) =
      Some ([(OkStatus, [1, 2]), (OkStatus, [])], sr))"
proof -
  define ds :: "bytes list" where "ds = [[1, 2], []]"
  have ds: "length ds = 2" "map (Pair OkStatus) ds = [(OkStatus, [1, 2]), (OkStatus, [])]" "replicate 2 OkStatus = [OkStatus, OkStatus]"
    by (simp_all add: ds_def numeral_2_eq_2)
  let ?wopts = "CreateRecordWriterOptions plain_zlib ''SNAPPY''" and ?ropts = "CreateRecordReaderOptions plain_zlib ''SNAPPY''"
  have o: "wo_compression_type ?wopts = SNAPPY_COMPRESSION" "wo_snappy_options ?wopts = SnappyCompressionOptions"
    "ro_compression_type ?ropts = SNAPPY_COMPRESSION" "ro_snappy_options ?ropts = SnappyCompressionOptions"
    by (simp_all add: CreateRecordWriterOptions_def RecordWriterOptions_def CreateRecordReaderOptions_def RecordReaderOptions_def
        Let_def kZlib_def kGzip_def kSnappy_def)
  have s: "snappy_input_buffer_size SnappyCompressionOptions = 262144" "snappy_output_buffer_size SnappyCompressionOptions = 262144"
    by (simp_all add: SnappyCompressionOptions_def push_bit_eq_mult)
  have sn: "rc_snappy plain_classes = stored" "snappy_ok stored" "snappy_total stored"
    by (auto simp: plain_classes_def snappy_ok_def snappy_total_def stored_def)
  obtain w where w: "RecordWriter (\<lambda>f o'. Some f) ([] :: bytes) ?wopts = Some w" using o(1) by (simp add: RecordWriter_def IsZlibCompressed_def IsSnappyCompressed_def)
  have len: "length (record_file ds) < 2 ^ 63" by (simp add: length_record_file ds_def)
  have small: "\<forall>d \<in> set ds. int (length d) \<le> 262144" by (simp add: ds_def)
  have "\<exists>w1 o' w2. write_records (destination_ops stored byte_sink no_zlib) ds w = Some ([OkStatus, OkStatus], w1) \<and>
    RecordWriter_Close (destination_ops stored byte_sink no_zlib) w1 = Some (OkStatus, Some (SnappyFile o'), w2) \<and>
    (\<forall>file. file_has file (so_file o') \<longrightarrow> (\<exists>sr. read_records (reader_ops plain_classes) 2 []
        (SequentialRecordReader (\<lambda>s o'. RandomAccessInputStream (byte_file [])) file ?ropts) = Some ([(OkStatus, [1, 2]), (OkStatus, [])], sr) \<and>
      TellOffset sr = word_of_nat (length (record_file ds)) \<and>
      (\<exists>s r sr'. Sequential_ReadRecord (reader_ops plain_classes) [] sr = Some (s, r, sr') \<and> IsOutOfRange s)))"
    by (rule snappy_record_roundtrip [where contents = "\<lambda>f. f" and ds = ds and zops = no_zlib and rc = plain_classes and
        zlib = "\<lambda>s o'. RandomAccessInputStream (byte_file [])" and ropts = ?ropts and wfile = byte_sink,
        OF byte_sink_appends refl _ _ w o(1) _ _ _ _ _ small len o(3), unfolded sn o s ds]) (simp_all add: sn)
  then show ?thesis using w file_has_byte_file unfolding ds_def by blast
qed

text \<open>(C18) \<open>ReadRecord\<close> accepts at an offset exactly the bytes that \<open>WriteRecord\<close> writes: it returns OK and \<open>d\<close>
  if and only if the file has the header, the data and the footer of \<open>d\<close> there, whatever the
  reader did before; the offset moves past the record on success and stays otherwise.\<close>

theorem read_record_exact:
  assumes "file_over bs (rr_input_stream rr) p" "length bs < 2 ^ 63" "off \<le> length bs"
  shows "\<exists>s off' r rr'. ReadRecord (reader_ops rc) (word_of_nat off) buf rr = Some (s, off', r, rr') \<and>
    (\<exists>p'. file_over bs (rr_input_stream rr') p') \<and>
    (\<forall>d. ok s \<and> r = d \<longleftrightarrow> off + length d + 16 \<le> length bs \<and> take (length d + 16) (drop off bs) = record_bytes d) \<and>
    off' = word_of_nat (if ok s then off + length r + 16 else off)"
proof -
  obtain s off' r rr' p' where r: "ReadRecord (reader_ops rc) (word_of_nat off) buf rr = Some (s, off', r, rr')"
    "file_over bs (rr_input_stream rr') p'"
    "case record_at bs off of Some d \<Rightarrow> s = OkStatus \<and> off' = word_of_nat (off + length d + 16) \<and> r = d
     | None \<Rightarrow> off' = word_of_nat off \<and> no_record_status bs off s"
    using reader.ReadRecord_law [OF assms, of rc buf] by blast
  have no: "\<not> ok s" if "no_record_status bs off s"
    using that by (cases s) (auto simp: no_record_status_def split: if_splits)
  have "(ok s \<and> r = d \<longleftrightarrow> record_at bs off = Some d)" for d
    using r(3) no by (auto split: option.splits)
  then have "ok s \<and> r = d \<longleftrightarrow> off + length d + 16 \<le> length bs \<and> take (length d + 16) (drop off bs) = record_bytes d" for d
    using record_at_iff [OF assms(2)] by simp
  moreover have "off' = word_of_nat (if ok s then off + length r + 16 else off)"
    using r(3) no by (auto split: option.splits)
  ultimately show ?thesis using r(1,2) by blast
qed

lemma read_record_exact_witness:
  "\<exists>s off' r rr'. ReadRecord (reader_ops plain_classes) (word_of_nat 0) []
      \<lparr>rr_input_stream = Base (FileStream (RandomAccessInputStream (byte_file (record_bytes [5])))), rr_last_read_failed = True,
       rr_cached_metadata = None\<rparr> = Some (s, off', r, rr') \<and> ok s \<and> r = [5]"
proof -
  let ?rr = "\<lparr>rr_input_stream = Base (FileStream (RandomAccessInputStream (byte_file (record_bytes [5])))), rr_last_read_failed = True,
    rr_cached_metadata = None\<rparr>"
  have "file_over (record_bytes [5]) (rr_input_stream ?rr) 0"
    by (simp add: random_over_def RandomAccessInputStream_def file_has_byte_file)
  then obtain s off' r rr' where "ReadRecord (reader_ops plain_classes) (word_of_nat 0) [] ?rr = Some (s, off', r, rr')"
    "\<forall>d. ok s \<and> r = d \<longleftrightarrow> 0 + length d + 16 \<le> length (record_bytes [5]) \<and> take (length d + 16) (drop 0 (record_bytes [5])) = record_bytes d"
    using read_record_exact [of "record_bytes [5]" ?rr 0 0 plain_classes "[]"] by auto
  moreover from this(2) have "ok s \<and> r = [5]" by simp
  ultimately show ?thesis by blast
qed

text \<open>(C24) A record in which one byte was changed, in the length, in the data or in a checksum, is never returned: the
  read reports \<open>DATA_LOSS\<close> and the offset stays.\<close>

theorem corrupted_record:
  assumes "bs = pre @ (record_bytes data)[i := c] @ post" "i < length (record_bytes data)" "c \<noteq> record_bytes data ! i"
    and "file_over bs (rr_input_stream rr) p" "length bs < 2 ^ 63"
  shows "\<exists>s r rr'. ReadRecord (reader_ops rc) (word_of_nat (length pre)) buf rr = Some (s, word_of_nat (length pre), r, rr') \<and>
    IsDataLoss s"
proof -
  let ?o = "length pre"
  have le: "?o \<le> length bs" using assms(1) by simp
  note bad = corrupted_reference [OF assms(1-3,5)]
  obtain s off' r rr' where r: "ReadRecord (reader_ops rc) (word_of_nat ?o) buf rr = Some (s, off', r, rr')"
    "off' = word_of_nat ?o" "no_record_status bs ?o s"
    using reader.ReadRecord_law [OF assms(4,5) le, of rc buf] bad(1) by auto
  have "IsDataLoss s"
    using r(3) bad(2) assms(1,5) by (auto simp: no_record_status_def split: if_splits)
  then show ?thesis using r(1,2) by blast
qed

lemma corrupted_record_witness:
  "\<exists>s r rr'. ReadRecord (reader_ops plain_classes) (word_of_nat 0) []
      \<lparr>rr_input_stream = Base (FileStream (RandomAccessInputStream (byte_file ((record_bytes [5])[12 := 6])))), rr_last_read_failed = False,
       rr_cached_metadata = None\<rparr> = Some (s, word_of_nat 0, r, rr') \<and> IsDataLoss s"
proof -
  let ?bs = "(record_bytes [5])[12 := 6]"
  let ?rr = "\<lparr>rr_input_stream = Base (FileStream (RandomAccessInputStream (byte_file ?bs))), rr_last_read_failed = False,
    rr_cached_metadata = None\<rparr>"
  have "record_bytes [5] ! 12 = 5" by (simp add: record_bytes_def nth_append)
  moreover have "file_over ?bs (rr_input_stream ?rr) 0"
    by (simp add: random_over_def RandomAccessInputStream_def file_has_byte_file)
  ultimately show ?thesis
    using corrupted_record [of ?bs "[]" "[5]" 12 6 "[]" ?rr 0 plain_classes "[]"] by simp
qed

text \<open>(C36) A file that ends inside a record: when the cut is in the data the read reports \<open>DATA_LOSS\<close>, but when it is in
  the twelve bytes of the header the read reports \<open>OUT_OF_RANGE\<close>, as it does at the end of a complete file.\<close>

theorem truncated_record_status:
  assumes "bs = pre @ take k (record_bytes data)" "k < length (record_bytes data)" "length pre + length (record_bytes data) < 2 ^ 63"
    and "file_over bs (rr_input_stream rr) p"
  shows "\<exists>s r rr'. ReadRecord (reader_ops rc) (word_of_nat (length pre)) buf rr = Some (s, word_of_nat (length pre), r, rr') \<and>
    (if k < 12 then IsOutOfRange s else IsDataLoss s)"
proof -
  let ?o = "length pre" and ?h = "EncodeFixed64 (word_of_nat (length data))"
  have l: "length bs = ?o + k" using assms(1,2) by simp
  have le: "?o \<le> length bs" "length bs < 2 ^ 63" using l assms(2,3) by simp_all
  have m: "length_at bs ?o = length data" if "12 \<le> k"
  proof -
    have "take 8 (drop ?o bs) = take 8 (record_bytes data)" using that assms(1) by (simp add: min_def)
    also have "\<dots> = ?h" unfolding record_bytes_checksummed by (simp add: checksummed_def)
    finally show ?thesis
      using DecodeFixed_EncodeFixed(3) [of "word_of_nat (length data)" "[]"] assms(3)
      by (simp add: length_at_def unat_word_of_nat_u64)
  qed
  then have "record_at bs ?o = None" using l assms(2) by (auto simp: record_at_def header_at_def payload_at_def)
  then obtain s off' r rr' where r: "ReadRecord (reader_ops rc) (word_of_nat ?o) buf rr = Some (s, off', r, rr')"
    "off' = word_of_nat ?o" "no_record_status bs ?o s"
    using reader.ReadRecord_law [OF assms(4) le(2,1), of rc buf] by auto
  have "if k < 12 then IsOutOfRange s else IsDataLoss s"
    using r(3) l m assms(3) by (auto simp: no_record_status_def split: if_splits)
  then show ?thesis using r(1,2) by blast
qed

lemma truncated_record_status_witness:
  "\<exists>s r rr'. ReadRecord (reader_ops plain_classes) (word_of_nat 0) []
      \<lparr>rr_input_stream = Base (FileStream (RandomAccessInputStream (byte_file (take 5 (record_bytes [5]))))), rr_last_read_failed = False,
       rr_cached_metadata = None\<rparr> = Some (s, word_of_nat 0, r, rr') \<and> IsOutOfRange s"
proof -
  let ?bs = "take 5 (record_bytes [5])"
  let ?rr = "\<lparr>rr_input_stream = Base (FileStream (RandomAccessInputStream (byte_file ?bs))), rr_last_read_failed = False,
    rr_cached_metadata = None\<rparr>"
  have "file_over ?bs (rr_input_stream ?rr) 0"
    by (simp add: random_over_def RandomAccessInputStream_def file_has_byte_file)
  then show ?thesis using truncated_record_status [of ?bs "[]" 5 "[5]" ?rr 0 plain_classes "[]"] by simp
qed

text \<open>\<open>SkipRecords\<close> passes the records that \<open>ReadRecord\<close> would return: after \<open>n\<close> records the offset is that of
  the next one, and when the file has fewer the status is \<open>OUT_OF_RANGE\<close>, with the number that were
  there and the offset of the end.\<close>

theorem skip_records_counts:
  assumes "file_over (record_file (xs @ ys)) (rr_input_stream rr) p" "length (record_file (xs @ ys)) < 2 ^ 63" "0 \<le> n"
  shows "\<exists>s rr'. SkipRecords (reader_ops rc) (word_of_nat (length (record_file xs))) n k rr =
      Some (s, word_of_nat (length (record_file (xs @ take (nat n) ys))), min n (int (length ys)), rr') \<and>
    (\<exists>p'. file_over (record_file (xs @ ys)) (rr_input_stream rr') p') \<and>
    (if n \<le> int (length ys) then s = OkStatus else IsOutOfRange s)"
proof -
  let ?o = "length (record_file xs)"
  have le: "?o \<le> length (record_file (xs @ ys))" by simp
  obtain rr1 where p: "PositionInputStream (reader_ops rc) (word_of_nat ?o) rr = Some (OkStatus, rr1)"
    "file_over (record_file (xs @ ys)) (rr_input_stream rr1) ?o"
    using reader.src.PositionInputStream_law [OF assms(1,2) le] by blast
  from reader.src.skip_records_loop_law [OF p(2) assms(2), of rc "nat n" 0 "[]"]
  obtain s rr' p' where r: "skip_records_loop (reader_ops rc) (nat n) (word_of_nat ?o) 0 [] rr1 =
      Some (s, word_of_nat (length (record_file (xs @ take (nat n) ys))), int (min (nat n) (length ys)), rr')"
    "file_over (record_file (xs @ ys)) (rr_input_stream rr') p'" "if nat n \<le> length ys then s = OkStatus else IsOutOfRange s"
    by auto
  have e: "int (min (nat n) (length ys)) = min n (int (length ys))" "nat n \<le> length ys \<longleftrightarrow> n \<le> int (length ys)"
    using assms(3) by auto
  have "SkipRecords (reader_ops rc) (word_of_nat ?o) n k rr =
      Some (s, word_of_nat (length (record_file (xs @ take (nat n) ys))), min n (int (length ys)), rr')"
    unfolding e(1) [symmetric] using p(1) r(1) by (simp add: SkipRecords_def)
  then show ?thesis using r(2,3) unfolding e(2) by blast
qed

lemma skip_records_counts_witness:
  "\<exists>s rr'. SkipRecords (reader_ops plain_classes) (word_of_nat 0) 3 0
      \<lparr>rr_input_stream = Base (FileStream (RandomAccessInputStream (byte_file (record_file [[1], [2, 3]])))), rr_last_read_failed = False,
       rr_cached_metadata = None\<rparr> = Some (s, word_of_nat (length (record_file [[1], [2, 3]])), 2, rr') \<and> IsOutOfRange s"
proof -
  let ?bs = "record_file [[1], [2, 3]]"
  let ?rr = "\<lparr>rr_input_stream = Base (FileStream (RandomAccessInputStream (byte_file ?bs))), rr_last_read_failed = False,
    rr_cached_metadata = None\<rparr>"
  have "file_over (record_file ([] @ [[1], [2, 3]])) (rr_input_stream ?rr) 0"
    by (simp add: random_over_def RandomAccessInputStream_def file_has_byte_file)
  moreover have "length (record_file ([] @ [[1], [2, 3]])) < 2 ^ 63" by (simp add: length_record_file)
  ultimately show ?thesis
    using skip_records_counts [of "[]" "[[1], [2, 3]]" ?rr 0 3 plain_classes 0] by auto
qed

text \<open>\<open>GetMetadata\<close> reports the number of records of a file, the sum of their lengths, and as \<open>file_size\<close> the size
  of the file, without reading the data, and leaves the reader usable.\<close>

theorem metadata_counts:
  assumes "file_over (record_file ds) (rr_input_stream rr) p" "length (record_file ds) < 2 ^ 63" "rr_cached_metadata rr = None"
  shows "\<exists>rr'. GetMetadata (reader_ops rc) (Some md) rr =
      Some (OkStatus, Some \<lparr>st_file_size = int (length (record_file ds)), st_data_size = int (sum_list (map length ds)),
        st_entries = int (length ds)\<rparr>, rr') \<and>
    file_over (record_file ds) (rr_input_stream rr') (length (record_file ds))"
  by (rule reader.src.GetMetadata_law [OF assms])

lemma metadata_counts_witness:
  "\<exists>rr'. GetMetadata (reader_ops plain_classes) (Some \<lparr>st_file_size = - 1, st_data_size = - 1, st_entries = - 1\<rparr>)
      \<lparr>rr_input_stream = Base (FileStream (RandomAccessInputStream (byte_file (record_file [[1], [2, 3]])))), rr_last_read_failed = False,
       rr_cached_metadata = None\<rparr> =
    Some (OkStatus, Some \<lparr>st_file_size = 35, st_data_size = 3, st_entries = 2\<rparr>, rr')"
proof -
  let ?bs = "record_file [[1], [2, 3]]"
  let ?rr = "\<lparr>rr_input_stream = Base (FileStream (RandomAccessInputStream (byte_file ?bs))), rr_last_read_failed = False,
    rr_cached_metadata = None\<rparr>"
  have "file_over ?bs (rr_input_stream ?rr) 0"
    by (simp add: random_over_def RandomAccessInputStream_def file_has_byte_file)
  moreover have len: "length ?bs = 35" by (simp add: length_record_file)
  moreover have "length ?bs < 2 ^ 63" unfolding len by simp
  ultimately show ?thesis
    using metadata_counts [of "[[1], [2, 3]]" ?rr 0 plain_classes "\<lparr>st_file_size = - 1, st_data_size = - 1, st_entries = - 1\<rparr>"]
    unfolding len by auto
qed

end
