(* ===== verification/Numbers.thy ===== *)
theory Numbers
  imports Prelude "HOL-Library.Signed_Division"
begin

text \<open>
  The conversions between integers and text of \<open>tsl/platform/numbers.cc\<close>, with which shapes,
  slices and error messages are printed and slice specifications are read.  A text is a list of
  characters; a reader returns \<open>None\<close> where the code returns \<open>false\<close>, and the buffer a writer
  fills is what it returns, without the terminating zero.  The conversions of floating-point
  numbers, which go through \<open>double-conversion\<close> and \<open>snprintf\<close>, are left out.

  The readers accept exactly the decimal numerals in the range of their type, with white space on
  both sides, and read back what the writers print.
\<close>

section \<open>Characters\<close>

text \<open>\<open>isspace\<close> and \<open>isdigit\<close> of the C locale.\<close>

definition isspace :: "char \<Rightarrow> bool" where
  "isspace c \<longleftrightarrow> c = CHR '' '' \<or> 9 \<le> (of_char c :: nat) \<and> (of_char c :: nat) \<le> 13"

definition isdigit :: "char \<Rightarrow> bool" where
  "isdigit c \<longleftrightarrow> 48 \<le> (of_char c :: nat) \<and> (of_char c :: nat) \<le> 57"

definition digit :: "char \<Rightarrow> int" where
  "digit c = int (of_char c) - 48"

fun SafeFirstChar :: "string \<Rightarrow> char" where
  "SafeFirstChar [] = CHR 0x00"
| "SafeFirstChar (c # str) = c"

fun SkipSpaces :: "string \<Rightarrow> string" where
  "SkipSpaces [] = []"
| "SkipSpaces (c # str) = (if isspace c then SkipSpaces str else c # str)"

text \<open>\<open>absl::ConsumePrefix\<close> with the prefix \<open>-\<close>: whether it was there, and the rest.\<close>

fun ConsumeMinus :: "string \<Rightarrow> bool \<times> string" where
  "ConsumeMinus (c # str) = (if c = CHR ''-'' then (True, str) else (False, c # str))"
| "ConsumeMinus [] = (False, [])"

section \<open>Printing\<close>

text \<open>The digits in the order the loop produces them, the last one first.\<close>

fun digits_loop :: "nat \<Rightarrow> string" where
  "digits_loop i = char_of (i mod 10 + 48) # (if i div 10 > 0 then digits_loop (i div 10) else [])"

declare digits_loop.simps [simp del]

definition FastUInt32ToBufferLeft :: "u32 \<Rightarrow> string" where
  "FastUInt32ToBufferLeft i = rev (digits_loop (unat i))"

definition FastInt32ToBufferLeft :: "int \<Rightarrow> string" where
  "FastInt32ToBufferLeft i =
     (let u = word_of_int i :: u32 in
      if i < 0 then CHR ''-'' # FastUInt32ToBufferLeft (0 - u) else FastUInt32ToBufferLeft u)"

definition FastUInt64ToBufferLeft :: "u64 \<Rightarrow> string" where
  "FastUInt64ToBufferLeft i = rev (digits_loop (unat i))"

definition FastInt64ToBufferLeft :: "int \<Rightarrow> string" where
  "FastInt64ToBufferLeft i =
     (let u = word_of_int i :: u64 in
      if i < 0 then CHR ''-'' # FastUInt64ToBufferLeft (0 - u) else FastUInt64ToBufferLeft u)"

section \<open>Reading\<close>

text \<open>
  The digit loops of the readers, from a result so far: the text after the digits with the result,
  \<open>None\<close> where the loop returns \<open>false\<close>.  \<open>limit\<close> is the bound the loop tests against; the division
  is the one of C++, which rounds towards zero.
\<close>

fun strto64_pos_loop :: "int \<Rightarrow> int \<Rightarrow> string \<Rightarrow> (string \<times> int) option" where
  "strto64_pos_loop vlimit result (c # str) =
     (if isdigit c then
        if (vlimit - digit c) sdiv 10 < result then None
        else strto64_pos_loop vlimit (result * 10 + digit c) str
      else Some (c # str, result))"
| "strto64_pos_loop vlimit result [] = Some ([], result)"

fun strto64_neg_loop :: "int \<Rightarrow> int \<Rightarrow> string \<Rightarrow> (string \<times> int) option" where
  "strto64_neg_loop vlimit result (c # str) =
     (if isdigit c then
        if result < (vlimit + digit c) sdiv 10 then None
        else strto64_neg_loop vlimit (result * 10 - digit c) str
      else Some (c # str, result))"
| "strto64_neg_loop vlimit result [] = Some ([], result)"

fun strto32_loop :: "int \<Rightarrow> int \<Rightarrow> string \<Rightarrow> (string \<times> int) option" where
  "strto32_loop vmax result (c # str) =
     (if isdigit c then
        let result = result * 10 + digit c in
        if result > vmax then None else strto32_loop vmax result str
      else Some (c # str, result))"
| "strto32_loop vmax result [] = Some ([], result)"

text \<open>What follows the loop: white space to the end of the text.\<close>

definition at_end :: "(string \<times> int) option \<Rightarrow> int option" where
  "at_end r = (case r of None \<Rightarrow> None | Some (str, result) \<Rightarrow> if SkipSpaces str \<noteq> [] then None else Some result)"

definition safe_strto64 :: "string \<Rightarrow> int option" where
  "safe_strto64 str =
     (let (neg, str) = ConsumeMinus (SkipSpaces str) in
      if \<not> isdigit (SafeFirstChar str) then None
      else at_end (if neg then strto64_neg_loop (- (2 ^ 63)) 0 str else strto64_pos_loop (2 ^ 63 - 1) 0 str))"

definition safe_strtou64 :: "string \<Rightarrow> int option" where
  "safe_strtou64 str =
     (let str = SkipSpaces str in
      if \<not> isdigit (SafeFirstChar str) then None else at_end (strto64_pos_loop (2 ^ 64 - 1) 0 str))"

definition safe_strto32 :: "string \<Rightarrow> int option" where
  "safe_strto32 str =
     (let (neg, str) = ConsumeMinus (SkipSpaces str) in
      if \<not> isdigit (SafeFirstChar str) then None
      else map_option (\<lambda>result. if neg then - result else result)
        (at_end (strto32_loop (if neg then 2 ^ 31 else 2 ^ 31 - 1) 0 str)))"

definition safe_strtou32 :: "string \<Rightarrow> int option" where
  "safe_strtou32 str =
     (let str = SkipSpaces str in
      if \<not> isdigit (SafeFirstChar str) then None else at_end (strto32_loop (2 ^ 32 - 1) 0 str))"

section \<open>Hexadecimal\<close>

definition hexdigits :: string where "hexdigits = ''0123456789abcdef''"

text \<open>The loop fills the buffer from its last place; \<open>n\<close> digits are left to write in front of \<open>buf\<close>.\<close>

fun Uint64ToHex_loop :: "nat \<Rightarrow> u64 \<Rightarrow> string \<Rightarrow> string" where
  "Uint64ToHex_loop 0 v buf = buf"
| "Uint64ToHex_loop (Suc n) v buf =
     Uint64ToHex_loop n (drop_bit 4 v) (hexdigits ! unat (v AND 0xf) # buf)"

definition Uint64ToHexString :: "u64 \<Rightarrow> string" where
  "Uint64ToHexString v = Uint64ToHex_loop 16 v []"

definition hex_value :: "char \<Rightarrow> u64 option" where
  "hex_value c =
     (let n = of_char c :: nat in
      if 48 \<le> n \<and> n \<le> 57 then Some (word_of_nat (n - 48))
      else if 97 \<le> n \<and> n \<le> 102 then Some (10 + word_of_nat (n - 97))
      else if 65 \<le> n \<and> n \<le> 70 then Some (10 + word_of_nat (n - 65))
      else None)"

fun HexString_loop :: "u64 \<Rightarrow> string \<Rightarrow> u64 option" where
  "HexString_loop v [] = Some v"
| "HexString_loop v (c # s) =
     (case hex_value c of None \<Rightarrow> None | Some d \<Rightarrow> HexString_loop (push_bit 4 v + d) s)"

definition HexStringToUint64 :: "string \<Rightarrow> u64 option" where
  "HexStringToUint64 s = (if s = [] then None else HexString_loop 0 s)"

section \<open>Decimal numerals\<close>

text \<open>The value of a text of digits, and the form the readers accept: white space, a sign where \<open>neg\<close>
  is set, digits, white space.\<close>

definition decimal_value :: "string \<Rightarrow> int" where
  "decimal_value ds = foldl (\<lambda>v c. v * 10 + digit c) 0 ds"

definition decimal_text :: "bool \<Rightarrow> string \<Rightarrow> string \<Rightarrow> bool" where
  "decimal_text neg ds s \<longleftrightarrow> ds \<noteq> [] \<and> list_all isdigit ds \<and>
     (\<exists>a b. s = a @ (if neg then ''-'' else '''') @ ds @ b \<and> list_all isspace a \<and> list_all isspace b)"

definition bounded_loop :: "int \<Rightarrow> int \<Rightarrow> string \<Rightarrow> (string \<times> int) option" where
  "bounded_loop m r s =
     (let v = foldl (\<lambda>v c. v * 10 + digit c) r (takeWhile isdigit s) in
      if v \<le> m then Some (dropWhile isdigit s, v) else None)"

lemma digit_range: "isdigit c \<Longrightarrow> 0 \<le> digit c \<and> digit c \<le> 9"
  by (simp add: isdigit_def digit_def del: of_nat_of_char)

lemma space_not_digit: "isspace c \<Longrightarrow> \<not> isdigit c \<and> c \<noteq> CHR ''-''"
  by (auto simp: isspace_def isdigit_def)

lemma digit_not_minus: "isdigit c \<Longrightarrow> c \<noteq> CHR ''-'' \<and> \<not> isspace c"
  using space_not_digit by (auto simp: isdigit_def)

lemma foldl_digits_ge:
  "0 \<le> r \<Longrightarrow> list_all isdigit ds \<Longrightarrow> r \<le> foldl (\<lambda>v c. v * 10 + digit c) r ds"
proof (induction ds arbitrary: r)
  case (Cons c ds)
  have "r \<le> r * 10 + digit c" using Cons.prems digit_range [of c] by simp
  also have "\<dots> \<le> foldl (\<lambda>v c. v * 10 + digit c) (r * 10 + digit c) ds"
    using Cons.prems digit_range [of c] by (intro Cons.IH) auto
  finally show ?case by simp
qed simp

lemma list_all_takeWhile: "list_all P (takeWhile P s)"
  by (auto simp: list_all_iff dest: set_takeWhileD)

lemma sdiv_10_bound: "(x sdiv 10 < r) = (x < 10 * r)" if "0 \<le> x" for x r :: int
  using that by (cases "x = 0") (auto simp: signed_divide_int_def)

lemma pos_loop_bounded: "0 \<le> r \<Longrightarrow> r \<le> m \<Longrightarrow> 9 \<le> m \<Longrightarrow> strto64_pos_loop m r s = bounded_loop m r s"
proof (induction s arbitrary: r)
  case (Cons c s)
  show ?case
  proof (cases "isdigit c")
    case True
    have d: "0 \<le> digit c" "digit c \<le> 9" using digit_range [OF True] by auto
    show ?thesis
    proof (cases "r * 10 + digit c \<le> m")
      case True
      with Cons d \<open>isdigit c\<close> show ?thesis
        by (simp add: sdiv_10_bound bounded_loop_def Let_def)
    next
      case False
      then have "\<not> foldl (\<lambda>v c. v * 10 + digit c) (r * 10 + digit c) (takeWhile isdigit s) \<le> m"
        using foldl_digits_ge [OF _ list_all_takeWhile, of "r * 10 + digit c" s] Cons.prems d by linarith
      with False Cons d \<open>isdigit c\<close> show ?thesis
        by (simp add: sdiv_10_bound bounded_loop_def Let_def)
    qed
  qed (use Cons.prems in \<open>simp add: bounded_loop_def\<close>)
qed (simp add: bounded_loop_def)

lemma strto32_loop_bounded: "0 \<le> r \<Longrightarrow> r \<le> m \<Longrightarrow> strto32_loop m r s = bounded_loop m r s"
proof (induction s arbitrary: r)
  case (Cons c s)
  show ?case
  proof (cases "isdigit c")
    case True
    have d: "0 \<le> digit c" using digit_range [OF True] by auto
    show ?thesis
      using Cons foldl_digits_ge [OF _ list_all_takeWhile, of "r * 10 + digit c" s] d \<open>isdigit c\<close>
      by (cases "r * 10 + digit c \<le> m") (auto simp: bounded_loop_def Let_def)
  qed (use Cons.prems in \<open>simp add: bounded_loop_def\<close>)
qed (simp add: bounded_loop_def)

lemma neg_loop_pos:
  "9 \<le> m \<Longrightarrow> strto64_neg_loop (- m) (- r) s = map_option (apsnd uminus) (strto64_pos_loop m r s)"
proof (induction s arbitrary: r)
  case (Cons c s)
  have "(- m + digit c) sdiv 10 = - ((m - digit c) sdiv 10)" if "isdigit c"
    using digit_range [OF that] Cons.prems by (simp add: signed_divide_int_def sgn_if)
  then show ?case using Cons.IH [of "r * 10 + digit c"] Cons.prems by auto
qed simp

lemma SkipSpaces_eq: "SkipSpaces s = dropWhile isspace s"
  by (induction s) auto

lemma SkipSpaces_empty: "SkipSpaces s = [] \<longleftrightarrow> list_all isspace s"
  by (simp add: SkipSpaces_eq dropWhile_eq_Nil_conv list_all_iff)

lemma SafeFirstChar_digit: "isdigit (SafeFirstChar s) \<longleftrightarrow> takeWhile isdigit s \<noteq> []"
  by (cases s) (auto simp: isdigit_def)

lemma takeWhile_digits: "list_all isdigit ds \<Longrightarrow> list_all isspace b \<Longrightarrow> takeWhile isdigit (ds @ b) = ds"
  by (cases b) (auto simp: list_all_iff takeWhile_append dest: space_not_digit)

lemma dropWhile_digits: "list_all isdigit ds \<Longrightarrow> list_all isspace b \<Longrightarrow> dropWhile isdigit (ds @ b) = b"
  by (cases b) (auto simp: list_all_iff dropWhile_append dest: space_not_digit)

text \<open>What a reader makes of the text after the sign.\<close>

lemma at_end_bounded:
  "isdigit (SafeFirstChar s) \<and> at_end (bounded_loop m 0 s) = Some v \<longleftrightarrow>
   (\<exists>ds b. s = ds @ b \<and> ds \<noteq> [] \<and> list_all isdigit ds \<and> list_all isspace b \<and> v = decimal_value ds \<and> v \<le> m)"
  (is "?l \<longleftrightarrow> ?r")
proof
  assume ?l
  then show ?r
    by (intro exI [of _ "takeWhile isdigit s"] exI [of _ "dropWhile isdigit s"])
      (auto simp: SafeFirstChar_digit at_end_def bounded_loop_def Let_def SkipSpaces_empty decimal_value_def
        list_all_takeWhile split: if_splits)
next
  assume ?r
  then show ?l
    by (auto simp: SafeFirstChar_digit at_end_def bounded_loop_def Let_def SkipSpaces_empty decimal_value_def
        takeWhile_digits dropWhile_digits)
qed

lemma after_spaces:
  assumes "t = [] \<or> \<not> isspace (hd t)"
  shows "SkipSpaces s = t \<longleftrightarrow> (\<exists>a. s = a @ t \<and> list_all isspace a)"
proof
  assume "SkipSpaces s = t"
  then show "\<exists>a. s = a @ t \<and> list_all isspace a"
    unfolding SkipSpaces_eq by (metis takeWhile_dropWhile_id list_all_takeWhile)
next
  assume "\<exists>a. s = a @ t \<and> list_all isspace a"
  with assms show "SkipSpaces s = t"
    by (cases t) (auto simp: SkipSpaces_eq dropWhile_append list_all_iff dropWhile_eq_Nil_conv)
qed

lemma decimal_textE:
  "decimal_text neg ds s \<longleftrightarrow> ds \<noteq> [] \<and> list_all isdigit ds \<and>
     (\<exists>b. SkipSpaces s = (if neg then ''-'' else '''') @ ds @ b \<and> list_all isspace b)" (is "?l = ?r")
proof -
  define p where "p = (if neg then ''-'' else '''')"
  have "(\<exists>a b. s = a @ p @ ds @ b \<and> list_all isspace a \<and> list_all isspace b) \<longleftrightarrow>
      (\<exists>b. SkipSpaces s = p @ ds @ b \<and> list_all isspace b)" if "ds \<noteq> []" "list_all isdigit ds"
  proof -
    have "p @ ds @ b = [] \<or> \<not> isspace (hd (p @ ds @ b))" for b
      using that digit_not_minus [of "hd ds"] by (cases ds) (auto simp: isspace_def p_def)
    note after_spaces [OF this, of s]
    then show ?thesis by auto
  qed
  then show ?thesis unfolding decimal_text_def p_def by blast
qed

text \<open>The common form of the readers: a bound for each sign.\<close>

definition read_signed :: "int \<Rightarrow> int \<Rightarrow> string \<Rightarrow> int option" where
  "read_signed lo hi s =
     (let (neg, str) = ConsumeMinus (SkipSpaces s) in
      if \<not> isdigit (SafeFirstChar str) then None
      else map_option (\<lambda>v. if neg then - v else v) (at_end (bounded_loop (if neg then lo else hi) 0 str)))"

lemma at_end_map: "at_end (map_option (apsnd f) r) = map_option f (at_end r)"
  by (auto simp: at_end_def split: option.splits)

lemma safe_strto64_signed: "safe_strto64 s = read_signed (2 ^ 63) (2 ^ 63 - 1) s"
  unfolding safe_strto64_def read_signed_def Let_def
  using neg_loop_pos [of "2 ^ 63" 0]
  by (auto split: prod.splits simp: pos_loop_bounded at_end_map option.map_id0 [unfolded id_def])

lemma safe_strto32_signed: "safe_strto32 s = read_signed (2 ^ 31) (2 ^ 31 - 1) s"
  unfolding safe_strto32_def read_signed_def Let_def
  by (auto split: prod.splits simp: strto32_loop_bounded)

lemma read_signed_exact:
  "read_signed lo hi s = Some v \<longleftrightarrow>
   (\<exists>ds. decimal_text False ds s \<and> v = decimal_value ds \<and> v \<le> hi) \<or>
   (\<exists>ds. decimal_text True ds s \<and> v = - decimal_value ds \<and> - lo \<le> v)"
proof (cases "\<exists>t. SkipSpaces s = CHR ''-'' # t")
  case True
  then obtain t where t: "SkipSpaces s = CHR ''-'' # t" by blast
  have "\<not> decimal_text False ds s" for ds
    using t digit_not_minus by (cases ds) (auto simp: decimal_textE)
  moreover have "read_signed lo hi s = Some v \<longleftrightarrow> isdigit (SafeFirstChar t) \<and> at_end (bounded_loop lo 0 t) = Some (- v)"
    using t by (auto simp: read_signed_def)
  ultimately show ?thesis
    using t unfolding at_end_bounded by (fastforce simp: decimal_textE)
next
  case False
  then have "ConsumeMinus (SkipSpaces s) = (False, SkipSpaces s)" by (cases "SkipSpaces s") auto
  then have "read_signed lo hi s = Some v \<longleftrightarrow>
      isdigit (SafeFirstChar (SkipSpaces s)) \<and> at_end (bounded_loop hi 0 (SkipSpaces s)) = Some v"
    by (auto simp: read_signed_def option.map_id0 [unfolded id_def])
  moreover have "\<not> decimal_text True ds s" for ds
    using False by (auto simp: decimal_textE)
  ultimately show ?thesis
    unfolding at_end_bounded by (fastforce simp: decimal_textE)
qed

lemma read_unsigned_exact:
  "(isdigit (SafeFirstChar (SkipSpaces s)) \<and> at_end (bounded_loop m 0 (SkipSpaces s)) = Some v) \<longleftrightarrow>
   (\<exists>ds. decimal_text False ds s \<and> v = decimal_value ds \<and> v \<le> m)"
  unfolding at_end_bounded by (fastforce simp: decimal_textE)

text \<open>The four readers of integers accept exactly the decimal numerals whose value is in the range of their type,
  with white space around them and a minus sign only for the signed ones, and return that value.\<close>

theorem readers_exact:
  "(safe_strto64 s = Some v \<longleftrightarrow> (\<exists>neg ds. decimal_text neg ds s \<and> v = (if neg then - decimal_value ds else decimal_value ds) \<and>
      - (2 ^ 63) \<le> v \<and> v < 2 ^ 63)) \<and>
   (safe_strto32 s = Some v \<longleftrightarrow> (\<exists>neg ds. decimal_text neg ds s \<and> v = (if neg then - decimal_value ds else decimal_value ds) \<and>
      - (2 ^ 31) \<le> v \<and> v < 2 ^ 31)) \<and>
   (safe_strtou64 s = Some v \<longleftrightarrow> (\<exists>ds. decimal_text False ds s \<and> v = decimal_value ds \<and> v < 2 ^ 64)) \<and>
   (safe_strtou32 s = Some v \<longleftrightarrow> (\<exists>ds. decimal_text False ds s \<and> v = decimal_value ds \<and> v < 2 ^ 32))"
proof -
  have nonneg: "0 \<le> decimal_value ds" if "decimal_text neg ds s" for neg ds
    using foldl_digits_ge [of 0 ds] that by (simp add: decimal_value_def decimal_text_def)
  have signed: "read_signed m (m - 1) s = Some v \<longleftrightarrow>
      (\<exists>neg ds. decimal_text neg ds s \<and> v = (if neg then - decimal_value ds else decimal_value ds) \<and> - m \<le> v \<and> v < m)"
    if "0 < m" for m
    unfolding read_signed_exact using nonneg that by (fastforce split: if_splits)
  have u64: "safe_strtou64 s = Some v \<longleftrightarrow>
      isdigit (SafeFirstChar (SkipSpaces s)) \<and> at_end (bounded_loop (2 ^ 64 - 1) 0 (SkipSpaces s)) = Some v"
    by (simp add: safe_strtou64_def Let_def pos_loop_bounded)
  have u32: "safe_strtou32 s = Some v \<longleftrightarrow>
      isdigit (SafeFirstChar (SkipSpaces s)) \<and> at_end (bounded_loop (2 ^ 32 - 1) 0 (SkipSpaces s)) = Some v"
    by (simp add: safe_strtou32_def Let_def strto32_loop_bounded)
  show ?thesis
    unfolding safe_strto64_signed safe_strto32_signed u64 u32 read_unsigned_exact zle_diff1_eq
    using signed [of "2 ^ 63"] signed [of "2 ^ 31"] by simp
qed

section \<open>Printed numbers\<close>

lemma isdigit_char: "d < 10 \<Longrightarrow> isdigit (char_of (d + 48)) \<and> digit (char_of (d + 48 :: nat)) = int d"
  by (simp add: isdigit_def digit_def of_char_of del: of_nat_of_char)

lemma digits_loop_spec:
  "digits_loop n \<noteq> [] \<and> list_all isdigit (digits_loop n) \<and> decimal_value (rev (digits_loop n)) = int n"
proof (induction n rule: digits_loop.induct)
  case (1 n)
  have d: "isdigit (char_of (n mod 10 + 48))" "digit (char_of (n mod 10 + 48)) = int (n mod 10)"
    using isdigit_char [of "n mod 10"] by auto
  show ?case
  proof (cases "0 < n div 10")
    case True
    with 1 d show ?thesis
      by (subst (1 2 3) digits_loop.simps) (simp add: decimal_value_def zdiv_int zmod_int)
  next
    case False
    then have "n mod 10 = n" by simp
    with False d show ?thesis
      by (subst (1 2 3) digits_loop.simps) (simp add: decimal_value_def)
  qed
qed

lemma length_digits_loop: "n < 10 ^ k \<Longrightarrow> 0 < k \<Longrightarrow> length (digits_loop n) \<le> k"
proof (induction n arbitrary: k rule: digits_loop.induct)
  case (1 n)
  show ?case
  proof (cases "0 < n div 10")
    case True
    obtain j where k: "k = Suc j" using 1(3) by (cases k) auto
    have "n div 10 < 10 ^ j" using 1(2) by (simp add: k div_less_iff_less_mult mult.commute)
    moreover have "0 < j" using \<open>n div 10 < 10 ^ j\<close> True by (cases j) auto
    ultimately have "length (digits_loop (n div 10)) \<le> j" using 1(1) [OF True] by blast
    with True k show ?thesis by (subst digits_loop.simps) simp
  next
    case False
    with 1(3) show ?thesis by (subst digits_loop.simps) simp
  qed
qed

lemma uint_word_of_int_64: "- (2 ^ 63) \<le> i \<Longrightarrow> i < 2 ^ 63 \<Longrightarrow>
  int (unat (if i < 0 then 0 - word_of_int i else word_of_int i :: u64)) = \<bar>i\<bar>"
  by (simp add: uint_word_of_int uint_word_ariths mod_minus_eq)

lemma uint_word_of_int_32: "- (2 ^ 31) \<le> i \<Longrightarrow> i < 2 ^ 31 \<Longrightarrow>
  int (unat (if i < 0 then 0 - word_of_int i else word_of_int i :: u32)) = \<bar>i\<bar>"
  by (simp add: uint_word_of_int uint_word_ariths mod_minus_eq)

lemma FastInt_text:
  assumes "- (2 ^ 63) \<le> i" "i < 2 ^ 63"
  shows "\<exists>ds. ds \<noteq> [] \<and> list_all isdigit ds \<and> decimal_value ds = \<bar>i\<bar> \<and>
    FastInt64ToBufferLeft i = (if i < 0 then ''-'' else '''') @ ds"
  using digits_loop_spec [of "unat (if i < 0 then 0 - word_of_int i else word_of_int i :: u64)"] uint_word_of_int_64 [OF assms]
  by (intro exI [of _ "rev (digits_loop (unat (if i < 0 then 0 - word_of_int i else word_of_int i :: u64)))"])
    (auto simp: FastInt64ToBufferLeft_def FastUInt64ToBufferLeft_def list_all_iff Let_def)

lemma FastInt32_text:
  assumes "- (2 ^ 31) \<le> i" "i < 2 ^ 31"
  shows "\<exists>ds. ds \<noteq> [] \<and> list_all isdigit ds \<and> decimal_value ds = \<bar>i\<bar> \<and>
    FastInt32ToBufferLeft i = (if i < 0 then ''-'' else '''') @ ds"
  using digits_loop_spec [of "unat (if i < 0 then 0 - word_of_int i else word_of_int i :: u32)"] uint_word_of_int_32 [OF assms]
  by (intro exI [of _ "rev (digits_loop (unat (if i < 0 then 0 - word_of_int i else word_of_int i :: u32)))"])
    (auto simp: FastInt32ToBufferLeft_def FastUInt32ToBufferLeft_def list_all_iff Let_def)

lemma decimal_text_plain: "ds \<noteq> [] \<Longrightarrow> list_all isdigit ds \<Longrightarrow> decimal_text neg ds ((if neg then ''-'' else '''') @ ds)"
  by (auto simp: decimal_text_def intro!: exI [of _ "[]"])

lemma safe_strto64_print:
  assumes "- (2 ^ 63) \<le> i" "i < 2 ^ 63"
  shows "safe_strto64 (FastInt64ToBufferLeft i) = Some i"
proof -
  obtain ds where ds: "ds \<noteq> []" "list_all isdigit ds" "decimal_value ds = \<bar>i\<bar>"
    "FastInt64ToBufferLeft i = (if i < 0 then ''-'' else '''') @ ds" using FastInt_text [OF assms] by blast
  have "decimal_text (i < 0) ds (FastInt64ToBufferLeft i)" unfolding ds(4) by (rule decimal_text_plain [OF ds(1,2)])
  then show ?thesis unfolding safe_strto64_signed read_signed_exact
    using assms ds(3) by (cases "i < 0") (auto simp: zle_diff1_eq intro!: exI [of _ ds])
qed

lemma safe_strto32_print:
  assumes "- (2 ^ 31) \<le> i" "i < 2 ^ 31"
  shows "safe_strto32 (FastInt32ToBufferLeft i) = Some i"
proof -
  obtain ds where ds: "ds \<noteq> []" "list_all isdigit ds" "decimal_value ds = \<bar>i\<bar>"
    "FastInt32ToBufferLeft i = (if i < 0 then ''-'' else '''') @ ds" using FastInt32_text [OF assms] by blast
  have "decimal_text (i < 0) ds (FastInt32ToBufferLeft i)" unfolding ds(4) by (rule decimal_text_plain [OF ds(1,2)])
  then show ?thesis unfolding safe_strto32_signed read_signed_exact
    using assms ds(3) by (cases "i < 0") (auto simp: zle_diff1_eq intro!: exI [of _ ds])
qed

text \<open>The longest texts, which the buffers of \<open>kFastToBufferSize\<close> bytes must hold with their terminating zero.\<close>

lemma FastInt64_length: "length (FastInt64ToBufferLeft i) \<le> 21"
proof -
  have "unat (w :: u64) < 10 ^ 20" for w using unat_u64_less [of w] by simp
  then have *: "length (digits_loop (unat (w :: u64))) \<le> 20" for w by (intro length_digits_loop) auto
  have **: "length (digits_loop (unat (w :: u64))) \<le> 21" for w by (rule le_trans [OF *]) simp
  from * ** show ?thesis by (simp add: FastInt64ToBufferLeft_def FastUInt64ToBufferLeft_def Let_def)
qed

text \<open>The characters of a printed number.\<close>

lemma FastInt64_chars:
  assumes "- (2 ^ 63) \<le> i" "i < 2 ^ 63" "c \<in> set (FastInt64ToBufferLeft i)"
  shows "isdigit c \<or> c = CHR ''-''"
  using FastInt_text [OF assms(1,2)] assms(3) by (auto simp: list_all_iff split: if_splits)

lemma FastInt64_nonempty: "FastInt64ToBufferLeft i \<noteq> []"
  using digits_loop_spec by (simp add: FastInt64ToBufferLeft_def FastUInt64ToBufferLeft_def Let_def)

lemma FastInt64_inject:
  "- (2 ^ 63) \<le> i \<Longrightarrow> i < 2 ^ 63 \<Longrightarrow> - (2 ^ 63) \<le> j \<Longrightarrow> j < 2 ^ 63 \<Longrightarrow>
   FastInt64ToBufferLeft i = FastInt64ToBufferLeft j \<longleftrightarrow> i = j"
  by (metis safe_strto64_print option.inject)

section \<open>Hexadecimal numbers\<close>

lemma hex_value_digit: "unat v < 16 \<Longrightarrow> hex_value (hexdigits ! unat v) = Some (v :: u64)"
proof -
  assume "unat v < 16"
  moreover have "\<forall>n \<in> set [0..<16]. hex_value (hexdigits ! n) = Some (word_of_nat n)"
    by (code_simp)
  ultimately show ?thesis by auto
qed

lemma push_take_bit_add:
  "push_bit 4 (take_bit n (drop_bit 4 v)) + take_bit 4 v = take_bit (n + 4) (v :: u64)"
proof -
  have "take_bit 4 v + push_bit 4 (take_bit n (drop_bit 4 v)) = take_bit 4 v OR push_bit 4 (take_bit n (drop_bit 4 v))"
    by (rule or_push_bit_add [symmetric]) simp
  also have "\<dots> = take_bit (n + 4) v"
    by (rule bit_word_eqI) (auto simp: bit_simps)
  finally show ?thesis by (simp add: add.commute)
qed

lemma HexString_loop_print:
  "HexString_loop w (Uint64ToHex_loop n v buf) = HexString_loop (push_bit (4 * n) w + take_bit (4 * n) v) buf"
proof (induction n arbitrary: w v buf)
  case (Suc n)
  have and15: "v AND 0xf = take_bit 4 v" by (simp add: take_bit_eq_mask mask_numeral)
  have "unat (take_bit 4 v) < 16" using unat_take_bit_less [of 4 v] by simp
  note h = hex_value_digit [OF this]
  have "push_bit 4 (push_bit (4 * n) w + take_bit (4 * n) (drop_bit 4 v)) + take_bit 4 v =
      push_bit (4 * n + 4) w + (push_bit 4 (take_bit (4 * n) (drop_bit 4 v)) + take_bit 4 v)"
    by (simp add: push_bit_add add.assoc add.commute [of 4])
  also have "\<dots> = push_bit (4 * Suc n) w + take_bit (4 * Suc n) v"
    unfolding push_take_bit_add by (simp add: add.commute)
  finally show ?case using Suc h by (simp add: and15)
qed simp

lemma length_Uint64ToHex_loop: "length (Uint64ToHex_loop n v buf) = n + length buf"
  by (induction n arbitrary: v buf) auto

lemma HexString_roundtrip: "HexStringToUint64 (Uint64ToHexString w) = Some w"
proof -
  have "Uint64ToHex_loop 16 w [] \<noteq> []" using length_Uint64ToHex_loop [of 16 w "[]"] by auto
  moreover have "take_bit 64 w = w" using take_bit_length_eq [of w] by simp
  ultimately show ?thesis by (simp add: HexStringToUint64_def Uint64ToHexString_def HexString_loop_print)
qed

text \<open>Every 64-bit and 32-bit number is read back from its decimal text, and every 64-bit word from its hexadecimal
  text; a decimal text has at most 21 characters, so that it fits a buffer of \<open>kFastToBufferSize\<close> bytes.\<close>

theorem print_read_roundtrip:
  "(- (2 ^ 63) \<le> i \<and> i < 2 ^ 63 \<longrightarrow> safe_strto64 (FastInt64ToBufferLeft i) = Some i) \<and>
   (- (2 ^ 31) \<le> i \<and> i < 2 ^ 31 \<longrightarrow> safe_strto32 (FastInt32ToBufferLeft i) = Some i) \<and>
   HexStringToUint64 (Uint64ToHexString w) = Some w \<and> length (FastInt64ToBufferLeft i) \<le> 21"
  using safe_strto64_print safe_strto32_print FastInt64_length HexString_roundtrip by blast

lemma print_read_roundtrip_witness:
  "safe_strto64 (FastInt64ToBufferLeft (- 9223372036854775808)) = Some (- 9223372036854775808) \<and>
   HexStringToUint64 (Uint64ToHexString 0xdeadbeef) = Some 0xdeadbeef"
  using print_read_roundtrip [of "- 9223372036854775808" "0xdeadbeef"] by simp

text \<open>\<open>HexStringToUint64\<close> has no bound on the number of digits: the leading ones are shifted out.\<close>

lemma hex_overflow: "HexStringToUint64 ''10000000000000001'' = Some 1"
  by code_simp

end
