(* ===== verification/Tensor_Shape.thy ===== *)
theory Tensor_Shape
  imports Numbers
begin

text \<open>
  The shapes of tensors: \<open>core/framework/tensor_shape.h\<close> and \<open>tensor_shape.cc\<close>, with the checked
  multiplication of \<open>core/util/overflow.h\<close>.  A shape is packed into sixteen bytes: up to six
  16-bit or three 32-bit dimensions, or a pointer to a vector of 64-bit ones, then the data type
  (byte 13), the number of dimensions (byte 14) and the tag of the representation (byte 15).
  \<open>TensorShape\<close> and \<open>PartialTensorShape\<close>, where a dimension or the rank may be unknown, are the
  two instances of one class template; its parameter \<open>kIsPartial\<close> is the first argument \<open>p\<close> here.

  The operations are \<open>None\<close> where a \<open>CHECK\<close> ends the process or a loop does not end.  The theory
  shows that each of them acts on the packed bytes as the same operation on the list of
  dimensions, keeps the data type, and rejects what cannot be represented.
\<close>

section \<open>Checked multiplication\<close>

definition MultiplyWithoutOverflow :: "int \<Rightarrow> int \<Rightarrow> int" where
  "MultiplyWithoutOverflow x y =
     (if x < 0 then -1
      else if y < 0 then -1
      else if x = 0 then 0
      else
        let ux = word_of_int x :: u64; uy = word_of_int y; uxy = ux * uy in
        if drop_bit 32 (ux OR uy) \<noteq> 0 \<and> uxy div ux \<noteq> uy then -1
        else sint uxy)"

section \<open>The packed representation\<close>

text \<open>
  \<open>sr_buf\<close> is the buffer of the union and \<open>sr_dims64\<close> the vector that its first eight bytes point to
  when the tag is \<open>REP_OUT_OF_LINE\<close>; it is empty when there is none.
\<close>

record shape_rep =
  sr_buf :: bytes
  sr_dims64 :: "int list"
  sr_num_elements :: int

definition MaxDimensions :: int where "MaxDimensions = 254"
definition kMaxRep16 :: int where "kMaxRep16 = 2 ^ 16 - 2"
definition kMaxRep32 :: int where "kMaxRep32 = 2 ^ 32 - 2"
definition kUnknownRep16 :: nat where "kUnknownRep16 = 2 ^ 16 - 1"
definition kUnknownRep32 :: nat where "kUnknownRep32 = 2 ^ 32 - 1"
definition kUnknownRank :: byte where "kUnknownRank = 255"

definition REP16 :: byte where "REP16 = 0"
definition REP32 :: byte where "REP32 = 1"
definition REP_OUT_OF_LINE :: byte where "REP_OUT_OF_LINE = 2"

definition DT_INVALID :: byte where "DT_INVALID = 0"

definition as16 :: "shape_rep \<Rightarrow> nat \<Rightarrow> nat" where
  "as16 s d = unat (sr_buf s ! (2 * d)) + 256 * unat (sr_buf s ! (2 * d + 1))"

definition set16 :: "nat \<Rightarrow> nat \<Rightarrow> shape_rep \<Rightarrow> shape_rep" where
  "set16 d v s = s\<lparr>sr_buf := (sr_buf s)[2 * d := word_of_nat v, 2 * d + 1 := word_of_nat (v div 256)]\<rparr>"

definition as32 :: "shape_rep \<Rightarrow> nat \<Rightarrow> nat" where
  "as32 s d = unat (sr_buf s ! (4 * d)) + 2 ^ 8 * unat (sr_buf s ! (4 * d + 1)) +
     2 ^ 16 * unat (sr_buf s ! (4 * d + 2)) + 2 ^ 24 * unat (sr_buf s ! (4 * d + 3))"

definition set32 :: "nat \<Rightarrow> nat \<Rightarrow> shape_rep \<Rightarrow> shape_rep" where
  "set32 d v s = s\<lparr>sr_buf := (sr_buf s)[4 * d := word_of_nat v, 4 * d + 1 := word_of_nat (v div 2 ^ 8),
     4 * d + 2 := word_of_nat (v div 2 ^ 16), 4 * d + 3 := word_of_nat (v div 2 ^ 24)]\<rparr>"

definition data_type :: "shape_rep \<Rightarrow> byte" where "data_type s = sr_buf s ! 13"
definition set_data_type :: "byte \<Rightarrow> shape_rep \<Rightarrow> shape_rep" where
  "set_data_type dt s = s\<lparr>sr_buf := (sr_buf s)[13 := dt]\<rparr>"

definition ndims_byte :: "shape_rep \<Rightarrow> byte" where "ndims_byte s = sr_buf s ! 14"
definition set_ndims_byte :: "byte \<Rightarrow> shape_rep \<Rightarrow> shape_rep" where
  "set_ndims_byte nd s = s\<lparr>sr_buf := (sr_buf s)[14 := nd]\<rparr>"

definition tag :: "shape_rep \<Rightarrow> byte" where "tag s = sr_buf s ! 15"
definition set_tag :: "byte \<Rightarrow> shape_rep \<Rightarrow> shape_rep" where
  "set_tag t s = s\<lparr>sr_buf := (sr_buf s)[15 := t]\<rparr>"

definition set_num_elements :: "int \<Rightarrow> shape_rep \<Rightarrow> shape_rep" where
  "set_num_elements n s = s\<lparr>sr_num_elements := n\<rparr>"

definition unknown_rank :: "bool \<Rightarrow> shape_rep \<Rightarrow> bool" where
  "unknown_rank p s \<longleftrightarrow> p \<and> ndims_byte s = kUnknownRank"

definition dims :: "bool \<Rightarrow> shape_rep \<Rightarrow> int" where
  "dims p s = (if p \<and> ndims_byte s = kUnknownRank then -1 else int (unat (ndims_byte s)))"

definition dim_size :: "bool \<Rightarrow> shape_rep \<Rightarrow> nat \<Rightarrow> int" where
  "dim_size p s d =
     (if unknown_rank p s then -1
      else if tag s = REP16 then (if p \<and> as16 s d = kUnknownRep16 then -1 else int (as16 s d))
      else if tag s = REP32 then (if p \<and> as32 s d = kUnknownRep32 then -1 else int (as32 s d))
      else sr_dims64 s ! d)"

definition IsFullyDefined :: "bool \<Rightarrow> shape_rep \<Rightarrow> bool" where
  "IsFullyDefined p s \<longleftrightarrow> \<not> p \<or> sr_num_elements s \<noteq> -1"

text \<open>The value of an \<open>int\<close>, as a counter wraps and as an \<open>int64_t\<close> is converted to it.\<close>

definition cast_int :: "int \<Rightarrow> int" where
  "cast_int x = signed_take_bit 31 x"

text \<open>
  The range loop over a shape: the iterator, an \<open>int\<close>, counts from 0 until it equals the end, which
  is -1 for an unknown rank.
\<close>

definition iter_end :: "bool \<Rightarrow> shape_rep \<Rightarrow> int" where
  "iter_end p s = (if unknown_rank p s then -1 else dims p s)"

partial_function (option) iterate :: "bool \<Rightarrow> shape_rep \<Rightarrow> int \<Rightarrow> int list option" where
  "iterate p s d =
     (if d = iter_end p s then Some []
      else Option.bind (iterate p s (cast_int (d + 1))) (\<lambda>ds. Some (dim_size p s (nat d) # ds)))"


definition AppendTo :: "bool \<Rightarrow> shape_rep \<Rightarrow> int list \<Rightarrow> int list option" where
  "AppendTo p s vals = Option.bind (iterate p s 0) (\<lambda>ds. Some (vals @ ds))"

section \<open>Construction\<close>

definition ClearAllButDataType :: "shape_rep \<Rightarrow> shape_rep" where
  "ClearAllButDataType s =
     (let s = (if tag s = REP_OUT_OF_LINE then s\<lparr>sr_dims64 := []\<rparr> else s) in
      set_num_elements 1 (set_ndims_byte 0 (set_tag REP16 s)))"

definition Clear :: "shape_rep \<Rightarrow> shape_rep" where
  "Clear s = set_data_type DT_INVALID (ClearAllButDataType s)"

text \<open>\<open>raw\<close> is the object before its constructor runs: its bytes have no particular value.\<close>

definition TensorShapeBase :: "bool \<Rightarrow> shape_rep \<Rightarrow> shape_rep" where
  "TensorShapeBase p raw =
     (let s = set_data_type DT_INVALID (set_tag REP16 raw) in
      if p then set_num_elements (-1) (set_ndims_byte kUnknownRank s)
      else set_num_elements 1 (set_ndims_byte 0 s))"

definition cast16 :: "bool \<Rightarrow> int \<Rightarrow> nat" where
  "cast16 p sz = (if p \<and> sz < 0 then kUnknownRep16 else nat (sz mod 2 ^ 16))"

definition cast32 :: "bool \<Rightarrow> int \<Rightarrow> nat" where
  "cast32 p sz = (if p \<and> sz < 0 then kUnknownRep32 else nat (sz mod 2 ^ 32))"

fun set_dims32 :: "bool \<Rightarrow> nat \<Rightarrow> int list \<Rightarrow> shape_rep \<Rightarrow> shape_rep" where
  "set_dims32 p d [] s = s"
| "set_dims32 p d (v # vals) s = set_dims32 p (Suc d) vals (set32 d (cast32 p v) s)"

definition UnsafeAddDim :: "bool \<Rightarrow> int \<Rightarrow> int \<Rightarrow> shape_rep \<Rightarrow> shape_rep option" where
  "UnsafeAddDim p sz new_num_elements s =
     (let nd = unat (ndims_byte s) in
      map_option (\<lambda>s. set_num_elements new_num_elements (set_ndims_byte (word_of_nat (nd + 1)) s))
        (if tag s = REP16 \<and> nd < 6 \<and> sz < kMaxRep16 then Some (set16 nd (cast16 p sz) s)
         else if tag s = REP32 \<and> nd < 3 \<and> sz < kMaxRep32 then Some (set32 nd (cast32 p sz) s)
         else if tag s = REP_OUT_OF_LINE then Some (s\<lparr>sr_dims64 := sr_dims64 s @ [sz]\<rparr>)
         else
           (case AppendTo p s [] of
              None \<Rightarrow> None
            | Some vals \<Rightarrow>
                let vals = vals @ [sz] in
                if length vals \<le> 3 \<and> list_all (\<lambda>v. v < kMaxRep32) vals
                then Some (set_dims32 p 0 vals (set_tag REP32 s))
                else Some ((set_tag REP_OUT_OF_LINE s)\<lparr>sr_dims64 := vals\<rparr>))))"

definition AddDim :: "bool \<Rightarrow> int \<Rightarrow> shape_rep \<Rightarrow> shape_rep option" where
  "AddDim p sz s =
     (if \<not> p \<and> sz < 0 then None
      else if unknown_rank p s then Some s
      else if \<not> int (unat (ndims_byte s)) < MaxDimensions then None
      else if p \<and> (sr_num_elements s < 0 \<or> sz < 0) then UnsafeAddDim p sz (-1) s
      else
        let new_num_elements = MultiplyWithoutOverflow (sr_num_elements s) sz in
        if new_num_elements < 0 then None else UnsafeAddDim p sz new_num_elements s)"

abbreviation num :: "int \<Rightarrow> string" where "num \<equiv> FastInt64ToBufferLeft"

definition AddDimWithStatus :: "bool \<Rightarrow> int \<Rightarrow> shape_rep \<Rightarrow> (status \<times> shape_rep) option" where
  "AddDimWithStatus p sz s =
     (if \<not> p \<and> sz < 0 then Some (Error INVALID_ARGUMENT (''Expected a non-negative size, got '' @ num sz), s)
      else if unknown_rank p s then Some (OkStatus, s)
      else if int (unat (ndims_byte s)) \<ge> MaxDimensions
      then Some (Error INVALID_ARGUMENT ''Too many dimensions in tensor'', s)
      else if p \<and> (sr_num_elements s < 0 \<or> sz < 0)
      then map_option (Pair OkStatus) (UnsafeAddDim p sz (-1) s)
      else
        let new_num_elements = MultiplyWithoutOverflow (sr_num_elements s) sz in
        if new_num_elements < 0
        then Some (Error INVALID_ARGUMENT (''Encountered overflow when multiplying '' @ num (sr_num_elements s) @
               '' with '' @ num sz @ '', result: '' @ num new_num_elements), s)
        else map_option (Pair OkStatus) (UnsafeAddDim p sz new_num_elements s))"

text \<open>The loops that add dimensions one after the other, with and without a status.\<close>

fun AddDims :: "bool \<Rightarrow> int list \<Rightarrow> shape_rep \<Rightarrow> shape_rep option" where
  "AddDims p [] s = Some s"
| "AddDims p (d # ds) s = Option.bind (AddDim p d s) (AddDims p ds)"

fun AddDimsWithStatus :: "bool \<Rightarrow> int list \<Rightarrow> shape_rep \<Rightarrow> (status \<times> shape_rep) option" where
  "AddDimsWithStatus p [] s = Some (OkStatus, s)"
| "AddDimsWithStatus p (d # ds) s =
     (case AddDimWithStatus p d s of
        None \<Rightarrow> None
      | Some (st, s) \<Rightarrow> if \<not> ok st then Some (st, s) else AddDimsWithStatus p ds s)"

definition Set16 :: "bool \<Rightarrow> nat \<Rightarrow> int \<Rightarrow> shape_rep \<Rightarrow> bool \<times> shape_rep" where
  "Set16 p d val s =
     (if p \<and> val < 0 then (True, set16 d (2 ^ 16 - 1) s) else (False, set16 d (nat (val mod 2 ^ 16)) s))"

definition kMaxSmall :: int where "kMaxSmall = 0xd744"

definition InitDims :: "bool \<Rightarrow> int list \<Rightarrow> shape_rep \<Rightarrow> (status \<times> shape_rep) option" where
  "InitDims p szs s =
     (let large_size = list_ex (\<lambda>s. s > kMaxSmall) szs;
          slow = AddDimsWithStatus p szs (set_num_elements 1 (set_ndims_byte 0 s))
      in
      case (if \<not> p \<and> \<not> large_size then find (\<lambda>s. s < 0) szs else None) of
        Some d \<Rightarrow> Some (Error INVALID_ARGUMENT (''Expected shape dimensions to be non-negative, got '' @ num d), s)
      | None \<Rightarrow>
          if large_size then slow
          else
            (case szs of
               [size0] \<Rightarrow>
                 let s = set_ndims_byte 1 s;
                     (neg, s) = Set16 p 0 size0 s
                 in Some (OkStatus, set_num_elements (if neg then -1 else size0) s)
             | [size0, size1] \<Rightarrow>
                 let s = set_ndims_byte 2 s;
                     (neg0, s) = Set16 p 0 size0 s;
                     (neg1, s) = Set16 p 1 size1 s
                 in Some (OkStatus, set_num_elements (if neg0 \<or> neg1 then -1 else size0 * size1) s)
             | [size0, size1, size2] \<Rightarrow>
                 let s = set_ndims_byte 3 s;
                     (neg0, s) = Set16 p 0 size0 s;
                     (neg1, s) = Set16 p 1 size1 s;
                     (neg2, s) = Set16 p 2 size2 s
                 in Some (OkStatus, set_num_elements (if neg0 \<or> neg1 \<or> neg2 then -1 else size0 * size1 * size2) s)
             | [size0, size1, size2, size3] \<Rightarrow>
                 let s = set_ndims_byte 4 s;
                     (neg0, s) = Set16 p 0 size0 s;
                     (neg1, s) = Set16 p 1 size1 s;
                     (neg2, s) = Set16 p 2 size2 s;
                     (neg3, s) = Set16 p 3 size3 s
                 in Some (OkStatus, set_num_elements
                      (if neg0 \<or> neg1 \<or> neg2 \<or> neg3 then -1 else size0 * size1 * size2 * size3) s)
             | _ \<Rightarrow> slow))"

definition BuildTensorShapeBase :: "bool \<Rightarrow> int list \<Rightarrow> shape_rep \<Rightarrow> (status \<times> shape_rep) option" where
  "BuildTensorShapeBase p szs out = InitDims p szs (set_data_type DT_INVALID (set_tag REP16 out))"

definition TensorShapeBase_dims :: "bool \<Rightarrow> int list \<Rightarrow> shape_rep \<Rightarrow> shape_rep option" where
  "TensorShapeBase_dims p szs raw =
     (case InitDims p szs (set_data_type DT_INVALID (set_tag REP16 raw)) of
        None \<Rightarrow> None
      | Some (st, s) \<Rightarrow> if ok st then Some s else None)"

definition TensorShapeBase_dtype :: "byte \<Rightarrow> shape_rep \<Rightarrow> shape_rep" where
  "TensorShapeBase_dtype dt raw =
     set_num_elements 0 (set16 0 0 (set_ndims_byte 1 (set_data_type dt (set_tag REP16 raw))))"

section \<open>Text\<close>

text \<open>
  A printed shape is read as a partial one, so that the unknown value of each width prints as a
  question mark.
\<close>

definition DebugString :: "shape_rep \<Rightarrow> string" where
  "DebugString s =
     (if unknown_rank True s then ''<unknown>''
      else
        ''['' @ concat (map (\<lambda>i. (if i > 0 then '','' else '''') @
            (let d = dim_size True s i in if d < 0 then ''?'' else num d)) [0..<nat (dims True s)]) @ '']'')"

section \<open>Changing a shape\<close>

text \<open>The loop of \<open>RecomputeNumElements\<close>: \<open>None\<close> is the overflow.\<close>

fun recompute_loop :: "bool \<Rightarrow> int \<Rightarrow> int list \<Rightarrow> int option" where
  "recompute_loop p n [] = Some n"
| "recompute_loop p n (d # ds) =
     (if p \<and> d < 0 then Some (-1)
      else
        let n = MultiplyWithoutOverflow n d in
        if n < 0 then None else recompute_loop p n ds)"

definition RecomputeNumElements :: "bool \<Rightarrow> shape_rep \<Rightarrow> (status \<times> shape_rep) option" where
  "RecomputeNumElements p s =
     (if unknown_rank p s then Some (OkStatus, set_num_elements (-1) s)
      else
        (case iterate p s 0 of
           None \<Rightarrow> None
         | Some ds \<Rightarrow>
             Some (case recompute_loop p 1 ds of
                 None \<Rightarrow> (Error INVALID_ARGUMENT (''Shape '' @ DebugString s @
                     '' results in overflow when computing number of elements''), s)
               | Some n \<Rightarrow> (OkStatus, set_num_elements n s))))"



definition InsertDim :: "bool \<Rightarrow> int \<Rightarrow> int \<Rightarrow> shape_rep \<Rightarrow> shape_rep option" where
  "InsertDim p d sz s =
     (if d < 0 \<or> d > dims p s \<or> \<not> p \<and> sz < 0 \<or> \<not> dims p s < MaxDimensions then None
      else
        (case AppendTo p s [] of
           None \<Rightarrow> None
         | Some vals \<Rightarrow> AddDims p (take (nat d) vals @ sz # drop (nat d) vals) (ClearAllButDataType s)))"

definition InsertDimWithStatus :: "bool \<Rightarrow> int \<Rightarrow> int \<Rightarrow> shape_rep \<Rightarrow> (status \<times> shape_rep) option" where
  "InsertDimWithStatus p d sz s =
     (if \<not> p \<and> sz < 0 then Some (Error INVALID_ARGUMENT (''Expected a non-negative size, got '' @ num sz), s)
      else if d < 0 then Some (Error INTERNAL (''The insertion index must be non-negative, got '' @ num d), s)
      else if d > dims p s
      then Some (Error INTERNAL (''The insertion index must be at most '' @ num (dims p s) @ '' got '' @ num d), s)
      else if dims p s \<ge> MaxDimensions
      then Some (Error INTERNAL (''Shape has '' @ num (dims p s) @ '' dimensions which is the maximum allowed''), s)
      else
        (case AppendTo p s [] of
           None \<Rightarrow> None
         | Some vals \<Rightarrow> AddDimsWithStatus p (take (nat d) vals @ sz # drop (nat d) vals) (ClearAllButDataType s)))"

definition set_dim :: "bool \<Rightarrow> int \<Rightarrow> int \<Rightarrow> shape_rep \<Rightarrow> shape_rep option" where
  "set_dim p d sz s =
     (if d < 0 \<or> \<not> d < dims p s \<or> \<not> p \<and> sz < 0 then None
      else
        (case
           (if tag s = REP16 \<and> sz < kMaxRep16 then Some (set16 (nat d) (cast16 p sz) s)
            else if tag s = REP32 \<and> sz < kMaxRep32 then Some (set32 (nat d) (cast32 p sz) s)
            else if tag s = REP_OUT_OF_LINE then Some (s\<lparr>sr_dims64 := (sr_dims64 s)[nat d := sz]\<rparr>)
            else Option.bind (AppendTo p s []) (\<lambda>vals. AddDims p (vals[nat d := sz]) (ClearAllButDataType s)))
         of
           None \<Rightarrow> None
         | Some s \<Rightarrow>
             (case RecomputeNumElements p s of
                None \<Rightarrow> None
              | Some (st, s) \<Rightarrow> if ok st then Some s else None)))"

definition SetDimWithStatus :: "bool \<Rightarrow> int \<Rightarrow> int \<Rightarrow> shape_rep \<Rightarrow> (status \<times> shape_rep) option" where
  "SetDimWithStatus p d sz s =
     (if d < 0 then Some (Error INVALID_ARGUMENT (''Index must be non-negative, got '' @ num d), s)
      else if d \<ge> dims p s
      then Some (Error INVALID_ARGUMENT (''Index must be less than '' @ num (dims p s) @ '', got '' @ num d), s)
      else if \<not> p \<and> sz < 0
      then Some (Error INVALID_ARGUMENT (''Expected a non-negative size, got '' @ num sz), s)
      else if tag s = REP16 \<and> sz < kMaxRep16 then RecomputeNumElements p (set16 (nat d) (cast16 p sz) s)
      else if tag s = REP32 \<and> sz < kMaxRep32 then RecomputeNumElements p (set32 (nat d) (cast32 p sz) s)
      else if tag s = REP_OUT_OF_LINE then RecomputeNumElements p (s\<lparr>sr_dims64 := (sr_dims64 s)[nat d := sz]\<rparr>)
      else
        (case AppendTo p s [] of
           None \<Rightarrow> None
         | Some vals \<Rightarrow>
             (case AddDimsWithStatus p (vals[nat d := sz]) (ClearAllButDataType s) of
                None \<Rightarrow> None
              | Some (st, s) \<Rightarrow> if \<not> ok st then Some (st, s) else RecomputeNumElements p s)))"

text \<open>A negative bound counts from the end, as in Python.\<close>

definition range_bound :: "bool \<Rightarrow> int \<Rightarrow> shape_rep \<Rightarrow> int" where
  "range_bound p b s = (if b < 0 then dims p s + b + 1 else b)"

definition RemoveDimRange :: "bool \<Rightarrow> int \<Rightarrow> int \<Rightarrow> shape_rep \<Rightarrow> shape_rep option" where
  "RemoveDimRange p b e s =
     (if unknown_rank p s then Some s
      else
        let b = range_bound p b s; e = range_bound p e s in
        if b < 0 \<or> b > dims p s \<or> e < 0 \<or> e > dims p s then None
        else if b \<ge> e then Some s
        else
          (case AppendTo p s [] of
             None \<Rightarrow> None
           | Some vals \<Rightarrow>
               (case AddDims p (take (nat b) vals @ drop (nat e) vals) (ClearAllButDataType s) of
                  None \<Rightarrow> None
                | Some s \<Rightarrow>
                    (case RecomputeNumElements p s of
                       None \<Rightarrow> None
                     | Some (st, s) \<Rightarrow> if ok st then Some s else None))))"

definition RemoveDimRangeWithStatus :: "bool \<Rightarrow> int \<Rightarrow> int \<Rightarrow> shape_rep \<Rightarrow> (status \<times> shape_rep) option" where
  "RemoveDimRangeWithStatus p b e s =
     (if unknown_rank p s then Some (OkStatus, s)
      else
        let b = range_bound p b s; e = range_bound p e s in
        if b < 0 then Some (Error INTERNAL (''Start index must be non-negative, got '' @ num b), s)
        else if b > dims p s
        then Some (Error INTERNAL (''Start index must be less than '' @ num (dims p s) @ '', got '' @ num b), s)
        else if e < 0 then Some (Error INTERNAL (''End index must be non-negative, got '' @ num e), s)
        else if e > dims p s
        then Some (Error INTERNAL (''End index must be less than '' @ num (dims p s) @ '', got '' @ num e), s)
        else if b \<ge> e then Some (OkStatus, s)
        else
          (case AppendTo p s [] of
             None \<Rightarrow> None
           | Some vals \<Rightarrow>
               (case AddDimsWithStatus p (take (nat b) vals @ drop (nat e) vals) (ClearAllButDataType s) of
                  None \<Rightarrow> None
                | Some (st, s) \<Rightarrow> if \<not> ok st then Some (st, s) else RecomputeNumElements p s)))"

definition RemoveDim :: "bool \<Rightarrow> int \<Rightarrow> shape_rep \<Rightarrow> shape_rep option" where
  "RemoveDim p d s = (if d < 0 then None else RemoveDimRange p d (d + 1) s)"

definition RemoveDimWithStatus :: "bool \<Rightarrow> int \<Rightarrow> shape_rep \<Rightarrow> (status \<times> shape_rep) option" where
  "RemoveDimWithStatus p d s =
     (if d < 0 then Some (Error INTERNAL (''Expected dimension index to be non-negative, got '' @ num d), s)
      else RemoveDimRangeWithStatus p (cast_int d) (cast_int (d + 1)) s)"

definition RemoveLastDims :: "bool \<Rightarrow> int \<Rightarrow> shape_rep \<Rightarrow> shape_rep option" where
  "RemoveLastDims p n s = (if n > dims p s then None else RemoveDimRange p (dims p s - n) (dims p s) s)"

definition RemoveLastDimsWithStatus :: "bool \<Rightarrow> int \<Rightarrow> shape_rep \<Rightarrow> (status \<times> shape_rep) option" where
  "RemoveLastDimsWithStatus p n s =
     (if n < dims p s
      then Some (Error INTERNAL (''Expected dimension index to be at most '' @ num (dims p s) @ '' got '' @ num n), s)
      else RemoveDimRangeWithStatus p (cast_int (dims p s - n)) (dims p s) s)"

section \<open>Protocol buffers and validity\<close>

text \<open>The message \<open>TensorShapeProto\<close>: the sizes of its \<open>dim\<close> entries and the flag \<open>unknown_rank\<close>.\<close>

record shape_proto =
  sp_dim :: "int list"
  sp_unknown_rank :: bool

fun proto_sizes :: "bool \<Rightarrow> int list \<Rightarrow> string" where
  "proto_sizes first [] = ''''"
| "proto_sizes first (d # ds) =
     (if first then '''' else '','') @ (if d = -1 then ''?'' else num d) @ proto_sizes False ds"

definition proto_DebugString :: "shape_proto \<Rightarrow> string" where
  "proto_DebugString proto =
     (if sp_unknown_rank proto \<and> sp_dim proto = [] then ''<unknown>''
      else (if sp_unknown_rank proto then ''<unknown>'' else '''') @ ''['' @ proto_sizes True (sp_dim proto) @ '']'')"

fun valid_loop :: "bool \<Rightarrow> int \<Rightarrow> int list \<Rightarrow> bool" where
  "valid_loop p n [] \<longleftrightarrow> True"
| "valid_loop p n (d # ds) \<longleftrightarrow>
     (if d < (if p then -1 else 0) then False
      else if d = -1 then valid_loop p (-1) ds
      else if \<not> p \<or> n \<ge> 0 then
        (let n = MultiplyWithoutOverflow n d in if n < 0 then False else valid_loop p n ds)
      else valid_loop p n ds)"


definition proto_IsValid :: "bool \<Rightarrow> shape_proto \<Rightarrow> bool" where
  "proto_IsValid p proto \<longleftrightarrow>
     (if p \<and> sp_unknown_rank proto then sp_dim proto = []
      else if int (length (sp_dim proto)) > MaxDimensions then False
      else valid_loop p 1 (sp_dim proto))"

fun valid_status_loop :: "bool \<Rightarrow> string \<Rightarrow> int \<Rightarrow> int list \<Rightarrow> status" where
  "valid_status_loop p text n [] = OkStatus"
| "valid_status_loop p text n (d # ds) =
     (if d < (if p then -1 else 0) then
        (if p then Error INVALID_ARGUMENT (''Shape '' @ text @ '' has dimensions with values below -1 (where -1 means unknown)'')
         else Error INVALID_ARGUMENT (''Shape '' @ text @ '' is not fully defined''))
      else if d = -1 then valid_status_loop p text (-1) ds
      else if \<not> p \<or> n \<ge> 0 then
        (let n = MultiplyWithoutOverflow n d in
         if n < 0 then Error INVALID_ARGUMENT (''Shape '' @ text @ '' is too large (more than 2**63 - 1 entries)'')
         else valid_status_loop p text n ds)
      else valid_status_loop p text n ds)"

definition IsValidShape :: "bool \<Rightarrow> shape_proto \<Rightarrow> status" where
  "IsValidShape p proto =
     (if p \<and> sp_unknown_rank proto then
        (if sp_dim proto \<noteq> [] then Error INVALID_ARGUMENT ''An unknown shape must not have any dimensions set.'' else OkStatus)
      else if int (length (sp_dim proto)) > MaxDimensions
      then Error INVALID_ARGUMENT (''Shape '' @ proto_DebugString proto @ '' has too many dimensions'')
      else valid_status_loop p (proto_DebugString proto) 1 (sp_dim proto))"

definition TensorShapeBase_proto :: "bool \<Rightarrow> shape_proto \<Rightarrow> shape_rep \<Rightarrow> shape_rep option" where
  "TensorShapeBase_proto p proto raw =
     (let s = set_data_type DT_INVALID (set_tag REP16 raw) in
      if p \<and> sp_unknown_rank proto then Some (set_num_elements (-1) (set_ndims_byte kUnknownRank s))
      else AddDims p (sp_dim proto) (set_num_elements 1 (set_ndims_byte 0 s)))"

fun build_proto_loop :: "bool \<Rightarrow> int \<Rightarrow> int list \<Rightarrow> shape_rep \<Rightarrow> (status \<times> shape_rep) option" where
  "build_proto_loop p nz [] out = Some (OkStatus, out)"
| "build_proto_loop p nz (d # ds) out =
     (case AddDimWithStatus p d out of
        None \<Rightarrow> None
      | Some (s, out) \<Rightarrow>
          if \<not> ok s then Some (s, out)
          else if d > 0 then
            (let nz = MultiplyWithoutOverflow nz d in
             if nz < 0
             then Some (Error INVALID_ARGUMENT ''Encountered overflow when multiplying shape dimensions'', out)
             else build_proto_loop p nz ds out)
          else build_proto_loop p nz ds out)"

definition BuildTensorShapeBase_proto :: "bool \<Rightarrow> shape_proto \<Rightarrow> shape_rep \<Rightarrow> (status \<times> shape_rep) option" where
  "BuildTensorShapeBase_proto p proto out =
     (let out = set_data_type DT_INVALID (set_tag REP16 out) in
      if p \<and> sp_unknown_rank proto
      then Some (OkStatus, set_num_elements (-1) (set_ndims_byte kUnknownRank out))
      else build_proto_loop p 1 (sp_dim proto) (set_num_elements 1 (set_ndims_byte 0 out)))"

definition AsProto :: "bool \<Rightarrow> shape_rep \<Rightarrow> shape_proto" where
  "AsProto p s =
     (if unknown_rank p s then \<lparr>sp_dim = [], sp_unknown_rank = True\<rparr>
      else \<lparr>sp_dim = map (dim_size p s) [0..<nat (dims p s)], sp_unknown_rank = False\<rparr>)"

section \<open>Comparisons and utilities\<close>

definition IsSameSize :: "shape_rep \<Rightarrow> shape_rep \<Rightarrow> bool" where
  "IsSameSize s b \<longleftrightarrow> dims False b = dims False s \<and>
     list_all (\<lambda>d. dim_size False s d = dim_size False b d) [0..<nat (dims False s)]"

definition StartsWith :: "shape_rep \<Rightarrow> shape_rep \<Rightarrow> bool" where
  "StartsWith shape prefix \<longleftrightarrow> \<not> dims False shape < dims False prefix \<and>
     list_all (\<lambda>i. dim_size False shape i = dim_size False prefix i) [0..<nat (dims False prefix)]"

definition EndsWith :: "shape_rep \<Rightarrow> shape_rep \<Rightarrow> bool" where
  "EndsWith shape suffix \<longleftrightarrow> \<not> dims False shape < dims False suffix \<and>
     list_all (\<lambda>i. dim_size False shape (nat (dims False shape - dims False suffix) + i) = dim_size False suffix i)
       [0..<nat (dims False suffix)]"

fun make_shape_loop :: "bool \<Rightarrow> int list \<Rightarrow> int list \<Rightarrow> shape_rep \<Rightarrow> (status \<times> shape_rep) option" where
  "make_shape_loop p all [] out = Some (OkStatus, out)"
| "make_shape_loop p all (d # ds) out =
     (if d < 0 then
        if \<not> p then Some (Error INVALID_ARGUMENT (''Dimension '' @ num d @ '' must be >= 0''), out)
        else if d < -1 then Some (Error INVALID_ARGUMENT (''Dimension '' @ num d @ '' must be >= -1''), out)
        else Option.bind (UnsafeAddDim p (-1) (-1) out) (make_shape_loop p all ds)
      else if sr_num_elements out < 0 then Option.bind (UnsafeAddDim p d (-1) out) (make_shape_loop p all ds)
      else
        (let n = MultiplyWithoutOverflow (sr_num_elements out) d in
         if n < 0
         then Some (Error INVALID_ARGUMENT (''Shape '' @ proto_DebugString \<lparr>sp_dim = all, sp_unknown_rank = False\<rparr> @
                '' would have more than 2**63 - 1 elements''), out)
         else Option.bind (UnsafeAddDim p d n out) (make_shape_loop p all ds)))"

text \<open>\<open>ds\<close> is what \<open>dims\<close> points to, of which the first \<open>n\<close> are read.\<close>

definition MakeShapeHelper :: "bool \<Rightarrow> int list \<Rightarrow> int \<Rightarrow> shape_rep \<Rightarrow> (status \<times> shape_rep) option" where
  "MakeShapeHelper p ds n out =
     (let out = Clear out in
      if n > MaxDimensions then Some (Error INVALID_ARGUMENT ''Too many dimensions'', out)
      else if n < 0 then Some (Error INVALID_ARGUMENT (''Negative number of dimensions '' @ num n), out)
      else make_shape_loop p (take (nat n) ds) (take (nat n) ds) out)"

definition NumElements :: "int list \<Rightarrow> int option" where
  "NumElements shape =
     foldl (\<lambda>n d. Option.bind n (\<lambda>n. let n = MultiplyWithoutOverflow n d in if n < 0 then None else Some n)) (Some 1) shape"

fun list_string :: "bool \<Rightarrow> shape_rep list \<Rightarrow> string" where
  "list_string first [] = '''' "
| "list_string first (s # ss) = (if first then '''' else '', '') @ DebugString s @ list_string False ss"

definition ShapeListString :: "shape_rep list \<Rightarrow> string" where
  "ShapeListString shapes = ''['' @ list_string True shapes @ '']''"

section \<open>Partial shapes\<close>

definition Concatenate_dim :: "int \<Rightarrow> shape_rep \<Rightarrow> shape_rep option" where
  "Concatenate_dim sz s = AddDim True sz s"

text \<open>
  The two methods that return a status take a pointer \<open>out\<close>, which they then set to \<open>this\<close>: what
  they change is the shape they are called on.  The results are that shape and the one \<open>out\<close>
  pointed to.
\<close>

definition ConcatenateWithStatus_dim :: "int \<Rightarrow> shape_rep \<Rightarrow> shape_rep \<Rightarrow> (status \<times> shape_rep \<times> shape_rep) option" where
  "ConcatenateWithStatus_dim sz s out = map_option (\<lambda>(st, s). (st, s, out)) (AddDimWithStatus True sz s)"

definition Concatenate :: "shape_rep \<Rightarrow> shape_rep \<Rightarrow> shape_rep \<Rightarrow> shape_rep option" where
  "Concatenate raw shape s =
     (if unknown_rank True s \<or> unknown_rank True shape then Some (TensorShapeBase True raw)
      else Option.bind (iterate True shape 0) (\<lambda>ds. AddDims True ds s))"

definition ConcatenateWithStatus ::
    "shape_rep \<Rightarrow> shape_rep \<Rightarrow> shape_rep \<Rightarrow> shape_rep \<Rightarrow> (status \<times> shape_rep \<times> shape_rep) option" where
  "ConcatenateWithStatus raw shape s out =
     (if unknown_rank True s \<or> unknown_rank True shape then Some (OkStatus, s, TensorShapeBase True raw)
      else Option.bind (iterate True shape 0) (\<lambda>ds. map_option (\<lambda>(st, s). (st, s, out)) (AddDimsWithStatus True ds s)))"

fun merge_loop :: "string \<Rightarrow> (int \<times> int) list \<Rightarrow> shape_rep \<Rightarrow> (status \<times> shape_rep) option" where
  "merge_loop text [] result = Some (OkStatus, result)"
| "merge_loop text ((dim0, dim1) # ds) result =
     (if dim0 \<ge> 0 \<and> dim1 \<ge> 0 \<and> dim0 \<noteq> dim1
      then Some (Error INVALID_ARGUMENT (''PartialTensorShape: Incompatible shapes during merge: '' @ text), result)
      else
        (case AddDimWithStatus True (if dim0 \<ge> 0 then dim0 else dim1) result of
           None \<Rightarrow> None
         | Some (st, result) \<Rightarrow> if \<not> ok st then Some (st, result) else merge_loop text ds result))"

text \<open>\<open>result\<close> is an object other than the two shapes, unless \<open>aliased\<close>, when it is the first of them.\<close>

definition MergeWith :: "shape_rep \<Rightarrow> bool \<Rightarrow> shape_rep \<Rightarrow> shape_rep \<Rightarrow> (status \<times> shape_rep) option" where
  "MergeWith shape aliased result s =
     (if unknown_rank True s then Some (OkStatus, shape)
      else if unknown_rank True shape then Some (OkStatus, s)
      else if dims True s \<noteq> dims True shape
      then Some (Error INVALID_ARGUMENT (''PartialTensorShape: Incompatible ranks during merge: '' @
             num (dims True s) @ '' vs. '' @ num (dims True shape)), result)
      else if aliased
      then Some (Error INTERNAL ''PartialTensorShape::MergeWith: cannot merge shape with itself'', result)
      else merge_loop (DebugString s @ '' vs. '' @ DebugString shape)
             (map (\<lambda>i. (dim_size True s i, dim_size True shape i)) [0..<nat (dims True s)]) (Clear result))"

definition AsTensorShape :: "shape_rep \<Rightarrow> shape_rep option" where
  "AsTensorShape s = (if IsFullyDefined True s then Some s else None)"

definition IsIdenticalTo :: "shape_rep \<Rightarrow> shape_rep \<Rightarrow> bool" where
  "IsIdenticalTo shape s \<longleftrightarrow>
     (if unknown_rank True s \<or> unknown_rank True shape then unknown_rank True s = unknown_rank True shape
      else dims True s = dims True shape \<and>
        list_all (\<lambda>i. dim_size True s i = dim_size True shape i) [0..<nat (dims True s)])"

definition IsCompatibleWith :: "shape_rep \<Rightarrow> shape_rep \<Rightarrow> bool" where
  "IsCompatibleWith shape s \<longleftrightarrow>
     (if unknown_rank True s \<or> unknown_rank True shape then True
      else dims True s = dims True shape \<and>
        list_all (\<lambda>i. \<not> (dim_size True s i \<ge> 0 \<and> dim_size True shape i \<ge> 0 \<and> dim_size True s i \<noteq> dim_size True shape i))
          [0..<nat (dims True s)])"

definition AreCompatible :: "shape_rep list \<Rightarrow> shape_rep list \<Rightarrow> bool" where
  "AreCompatible shapes0 shapes1 \<longleftrightarrow> length shapes0 = length shapes1 \<and> list_all2 (\<lambda>a b. IsCompatibleWith b a) shapes0 shapes1"

definition AreIdentical :: "shape_rep list \<Rightarrow> shape_rep list \<Rightarrow> bool" where
  "AreIdentical shapes0 shapes1 \<longleftrightarrow> length shapes0 = length shapes1 \<and> list_all2 (\<lambda>a b. IsIdenticalTo b a) shapes0 shapes1"

section \<open>Checked multiplication is exact\<close>

lemma drop_or_zero:
  assumes "drop_bit 32 (x OR y) = (0 :: u64)"
  shows "unat x < 2 ^ 32 \<and> unat y < 2 ^ 32"
proof -
  have "drop_bit 32 x = 0" "drop_bit 32 y = 0"
    using assms by (auto simp: drop_bit_or or_eq_0_iff)
  then have "unat x div 2 ^ 32 = 0" "unat y div 2 ^ 32 = 0"
    using unat_drop_bit [of 32 x] unat_drop_bit [of 32 y] by auto
  then show ?thesis by (auto simp: div_eq_0_iff)
qed

lemma MultiplyWithoutOverflow_exact:
  assumes "0 \<le> x" "x < 2 ^ 63" "0 \<le> y" "y < 2 ^ 63"
  shows "if x * y < 2 ^ 63 then MultiplyWithoutOverflow x y = x * y else MultiplyWithoutOverflow x y < 0"
proof (cases "x = 0")
  case False
  let ?ux = "word_of_int x :: u64" and ?uy = "word_of_int y :: u64"
  define n m where "n = nat x" and "m = nat y"
  have xy: "x = int n" "y = int m" "n < 2 ^ 63" "m < 2 ^ 63" "0 < n"
    using assms False by (auto simp: n_def m_def nat_less_iff)
  have u: "unat ?ux = n" "unat ?uy = m"
    using xy by (auto simp: unat_of_nat)
  have p: "unat (?ux * ?uy) = n * m mod 2 ^ 64" by (simp add: unat_word_ariths u)
  have s: "sint (?ux * ?uy) = int (n * m)" if "n * m < 2 ^ 63"
    using that p unfolding sint_u64 by simp
  have neg: "sint (?ux * ?uy) < 0" if "n * m < 2 ^ 64" "\<not> n * m < 2 ^ 63"
    using that p unfolding sint_u64 by (simp del: of_nat_mult of_nat_unat)
  have div: "?ux * ?uy div ?ux = ?uy \<longleftrightarrow> n * m < 2 ^ 64"
  proof -
    have "?ux * ?uy div ?ux = ?uy \<longleftrightarrow> n * m mod 2 ^ 64 div n = m"
      unfolding word_unat_eq_iff by (simp add: unat_div p u)
    also have "\<dots> \<longleftrightarrow> n * m < 2 ^ 64"
    proof
      assume "n * m mod 2 ^ 64 div n = m"
      then have "m * n \<le> n * m mod 2 ^ 64" using div_times_less_eq_dividend [of "n * m mod 2 ^ 64" n] by simp
      then show "n * m < 2 ^ 64" using mod_less_divisor [of "2 ^ 64" "n * m"] by (simp add: mult.commute)
    qed (use xy in simp)
    finally show ?thesis .
  qed
  have small: "n * m < 2 ^ 64" if "drop_bit 32 (?ux OR ?uy) = 0"
  proof -
    have "n < 2 ^ 32" "m < 2 ^ 32" using drop_or_zero [OF that] u by auto
    then have "n * m < 2 ^ 32 * 2 ^ 32" by (intro mult_strict_mono) auto
    then show ?thesis by simp
  qed
  have def: "MultiplyWithoutOverflow x y =
      (if drop_bit 32 (?ux OR ?uy) \<noteq> 0 \<and> ?ux * ?uy div ?ux \<noteq> ?uy then -1 else sint (?ux * ?uy))"
    using assms False by (simp add: MultiplyWithoutOverflow_def Let_def)
  have i: "x * y < 2 ^ 63 \<longleftrightarrow> n * m < 2 ^ 63" unfolding xy by (simp flip: of_nat_mult)
  have j: "x * y = int (n * m)" unfolding xy by simp
  show ?thesis
  proof (cases "n * m < 2 ^ 63")
    case True
    then have "?ux * ?uy div ?ux = ?uy" using div by simp
    then have "MultiplyWithoutOverflow x y = int (n * m)" using s [OF True] by (simp add: def)
    with True show ?thesis unfolding i j by (simp del: of_nat_mult)
  next
    case f: False
    have "MultiplyWithoutOverflow x y < 0"
    proof (cases "n * m < 2 ^ 64")
      case True
      then show ?thesis using neg [OF True f] by (simp add: def)
    next
      case False
      then show ?thesis using small div by (auto simp: def)
    qed
    with f show ?thesis unfolding i by simp
  qed
qed (use assms in \<open>simp add: MultiplyWithoutOverflow_def\<close>)

section \<open>The bytes of a shape\<close>

lemmas cells = as16_def set16_def as32_def set32_def data_type_def set_data_type_def ndims_byte_def set_ndims_byte_def
  tag_def set_tag_def set_num_elements_def

lemmas reps = REP16_def REP32_def REP_OUT_OF_LINE_def

lemma setters_buf [simp]:
  "length (sr_buf (set16 d v s)) = length (sr_buf s)" "length (sr_buf (set32 d v s)) = length (sr_buf s)"
  "length (sr_buf (set_data_type t s)) = length (sr_buf s)" "length (sr_buf (set_ndims_byte t s)) = length (sr_buf s)"
  "length (sr_buf (set_tag t s)) = length (sr_buf s)" "length (sr_buf (set_num_elements n s)) = length (sr_buf s)"
  by (simp_all add: cells)

lemma setters_dims64 [simp]:
  "sr_dims64 (set16 d v s) = sr_dims64 s" "sr_dims64 (set32 d v s) = sr_dims64 s"
  "sr_dims64 (set_data_type t s) = sr_dims64 s" "sr_dims64 (set_ndims_byte t s) = sr_dims64 s"
  "sr_dims64 (set_tag t s) = sr_dims64 s" "sr_dims64 (set_num_elements n s) = sr_dims64 s"
  by (simp_all add: cells)

lemma setters_num [simp]:
  "sr_num_elements (set16 d v s) = sr_num_elements s" "sr_num_elements (set32 d v s) = sr_num_elements s"
  "sr_num_elements (set_data_type t s) = sr_num_elements s" "sr_num_elements (set_ndims_byte t s) = sr_num_elements s"
  "sr_num_elements (set_tag t s) = sr_num_elements s" "sr_num_elements (set_num_elements n s) = n"
  by (simp_all add: cells)

lemma getters_other [simp]:
  "as16 (set_num_elements n s) d = as16 s d" "as32 (set_num_elements n s) d = as32 s d"
  "data_type (set_num_elements n s) = data_type s" "ndims_byte (set_num_elements n s) = ndims_byte s"
  "tag (set_num_elements n s) = tag s"
  "as16 (s\<lparr>sr_dims64 := x\<rparr>) d = as16 s d" "as32 (s\<lparr>sr_dims64 := x\<rparr>) d = as32 s d"
  "data_type (s\<lparr>sr_dims64 := x\<rparr>) = data_type s" "ndims_byte (s\<lparr>sr_dims64 := x\<rparr>) = ndims_byte s"
  "tag (s\<lparr>sr_dims64 := x\<rparr>) = tag s"
  by (simp_all add: cells)

text \<open>The cells of a buffer of sixteen bytes do not overlap.\<close>

lemma header_cells [simp]:
  assumes "length (sr_buf s) = 16"
  shows "data_type (set_data_type t s) = t" "data_type (set_ndims_byte n s) = data_type s" "data_type (set_tag g s) = data_type s"
    "ndims_byte (set_data_type t s) = ndims_byte s" "ndims_byte (set_ndims_byte n s) = n" "ndims_byte (set_tag g s) = ndims_byte s"
    "tag (set_data_type t s) = tag s" "tag (set_ndims_byte n s) = tag s" "tag (set_tag g s) = g"
  using assms by (simp_all add: cells)

lemma dims_header_cells [simp]:
  assumes "d < 6"
  shows "as16 (set_data_type t s) d = as16 s d" "as16 (set_ndims_byte n s) d = as16 s d" "as16 (set_tag g s) d = as16 s d"
    "data_type (set16 d v s) = data_type s" "ndims_byte (set16 d v s) = ndims_byte s" "tag (set16 d v s) = tag s"
  using assms by (simp_all add: cells)

lemma dims32_header_cells [simp]:
  assumes "d < 3"
  shows "as32 (set_data_type t s) d = as32 s d" "as32 (set_ndims_byte n s) d = as32 s d" "as32 (set_tag g s) d = as32 s d"
    "data_type (set32 d v s) = data_type s" "ndims_byte (set32 d v s) = ndims_byte s" "tag (set32 d v s) = tag s"
  using assms by (simp_all add: cells)

lemma as16_set16:
  assumes "length (sr_buf s) = 16" "d < 6" "e < 6" "v < 2 ^ 16"
  shows "as16 (set16 d v s) e = (if d = e then v else as16 s e)"
proof -
  have "2 * d \<noteq> 2 * e + 1" "2 * e \<noteq> 2 * d + 1" by presburger+
  then show ?thesis using assms
    by (cases "d = e") (simp_all add: as16_def set16_def unat_of_nat nth_list_update)
qed

lemma byte_digits: "n < 2 ^ 32 \<Longrightarrow> n mod 256 + 256 * (n div 256 mod 256) + 65536 * (n div 65536 mod 256) +
    16777216 * (n div 16777216 mod 256) = (n :: nat)"
proof -
  assume "n < 2 ^ 32"
  have "n div 16777216 < 256" using \<open>n < 2 ^ 32\<close> by (simp add: div_less_iff_less_mult)
  then have "n = 16777216 * (n div 16777216 mod 256) + n mod 16777216" by simp
  moreover have "n mod 16777216 = 65536 * (n div 65536 mod 256) + n mod 65536"
    using mod_mult2_eq [of n 65536 256] by simp
  moreover have "n mod 65536 = 256 * (n div 256 mod 256) + n mod 256"
    using mod_mult2_eq [of n 256 256] by simp
  ultimately show ?thesis by linarith
qed

lemma as32_set32:
  assumes "length (sr_buf s) = 16" "d < 3" "e < 3" "v < 2 ^ 32"
  shows "as32 (set32 d v s) e = (if d = e then v else as32 s e)"
proof (cases "d = e")
  case True
  then show ?thesis using assms byte_digits [OF assms(4)]
    by (simp add: as32_def set32_def unat_of_nat nth_list_update)
next
  case False
  then have "4 * d + i \<noteq> 4 * e + j" if "i < 4" "j < 4" for i j using that by presburger
  from this [of 0] this [of 1] this [of 2] this [of 3] False show ?thesis
    by (simp add: as32_def set32_def)
qed

section \<open>Well-formed shapes and the dimensions they hold\<close>

text \<open>
  The smallest size of a dimension; the dimensions a shape of known rank holds; the number of
  elements, which is -1 when a dimension is unknown.
\<close>

abbreviation ndims :: "shape_rep \<Rightarrow> nat" where "ndims s \<equiv> unat (ndims_byte s)"

definition least_size :: "bool \<Rightarrow> int" where "least_size p = (if p then -1 else 0)"

definition shape_list :: "bool \<Rightarrow> shape_rep \<Rightarrow> int list" where
  "shape_list p s = map (dim_size p s) [0..<ndims s]"

definition elements :: "int list \<Rightarrow> int" where
  "elements ds = (if list_ex (\<lambda>d. d < 0) ds then -1 else prod_list ds)"

text \<open>
  A well-formed representation: a known tag, no more dimensions than fit, and the value that means
  unknown kept out of the complete shapes.
\<close>

definition rep_ok :: "bool \<Rightarrow> shape_rep \<Rightarrow> bool" where
  "rep_ok p s \<longleftrightarrow> length (sr_buf s) = 16 \<and>
     (unknown_rank p s \<or>
      ndims s \<le> 254 \<and>
      (tag s = REP16 \<and> ndims s \<le> 6 \<and> (p \<or> (\<forall>d < ndims s. as16 s d < kUnknownRep16)) \<or>
       tag s = REP32 \<and> ndims s \<le> 3 \<and> (p \<or> (\<forall>d < ndims s. as32 s d < kUnknownRep32)) \<or>
       tag s = REP_OUT_OF_LINE \<and> length (sr_dims64 s) = ndims s \<and>
         (\<forall>d \<in> set (sr_dims64 s). least_size p \<le> d \<and> d < 2 ^ 63)))"

text \<open>
  The lists of dimensions that a shape can have: the number of elements of every prefix fits, since
  it is computed from the first dimension to the last.
\<close>

definition representable :: "bool \<Rightarrow> int list \<Rightarrow> bool" where
  "representable p ds \<longleftrightarrow> length ds \<le> 254 \<and> list_all (\<lambda>d. least_size p \<le> d \<and> d < 2 ^ 63) ds \<and>
     list_all (\<lambda>n. elements (take n ds) < 2 ^ 63) [0..<Suc (length ds)]"

definition shape_ok :: "bool \<Rightarrow> shape_rep \<Rightarrow> bool" where
  "shape_ok p s \<longleftrightarrow> rep_ok p s \<and>
     (if unknown_rank p s then sr_num_elements s = -1
      else representable p (shape_list p s) \<and> sr_num_elements s = elements (shape_list p s))"

text \<open>A well-formed shape of known rank with the dimensions \<open>ds\<close>.\<close>

definition holds :: "bool \<Rightarrow> shape_rep \<Rightarrow> int list \<Rightarrow> bool" where
  "holds p s ds \<longleftrightarrow> shape_ok p s \<and> \<not> unknown_rank p s \<and> shape_list p s = ds"

lemma reps_distinct [simp]: "REP16 \<noteq> REP32" "REP32 \<noteq> REP16" "REP16 \<noteq> REP_OUT_OF_LINE" "REP_OUT_OF_LINE \<noteq> REP16"
  "REP32 \<noteq> REP_OUT_OF_LINE" "REP_OUT_OF_LINE \<noteq> REP32"
  by (simp_all add: reps)

lemma length_shape_list [simp]: "length (shape_list p s) = ndims s"
  by (simp add: shape_list_def)

lemma dims_known: "\<not> unknown_rank p s \<Longrightarrow> dims p s = int (ndims s)"
  by (auto simp: dims_def unknown_rank_def)

lemma nat_dims [simp]: "\<not> unknown_rank p s \<Longrightarrow> nat (dims p s) = ndims s"
  by (simp add: dims_known)

lemma unknown_rank_False [simp]: "\<not> unknown_rank False s"
  by (simp add: unknown_rank_def)

lemma unknown_rank_ndims: "ndims s \<le> 254 \<Longrightarrow> \<not> unknown_rank p s"
  by (auto simp: unknown_rank_def kUnknownRank_def)

lemma as16_less: "as16 s d < 2 ^ 16"
  using unat_byte_less [of "sr_buf s ! (2 * d)"] unat_byte_less [of "sr_buf s ! (2 * d + 1)"] by (simp add: as16_def)

lemma as32_less: "as32 s d < 2 ^ 32"
  using unat_byte_less [of "sr_buf s ! (4 * d)"] unat_byte_less [of "sr_buf s ! (4 * d + 1)"]
    unat_byte_less [of "sr_buf s ! (4 * d + 2)"] unat_byte_less [of "sr_buf s ! (4 * d + 3)"] by (simp add: as32_def)

lemma shape_list_range:
  assumes "rep_ok p s" "\<not> unknown_rank p s" "x \<in> set (shape_list p s)"
  shows "least_size p \<le> x \<and> x < 2 ^ 63"
proof -
  obtain d where d: "d < ndims s" "x = dim_size p s d" using assms(3) by (auto simp: shape_list_def)
  show ?thesis
    using assms(1,2) d as16_less [of s d] as32_less [of s d] unfolding rep_ok_def
    by (auto simp: dim_size_def least_size_def)
qed

lemma cast_int_id: "- (2 ^ 31) \<le> x \<Longrightarrow> x < 2 ^ 31 \<Longrightarrow> cast_int x = x"
  unfolding cast_int_def by (rule signed_take_bit_int_eq_self) simp_all

text \<open>
  Iterating over a shape of known rank gives its dimensions.  Over one of unknown rank the counter
  reaches -1 only after it has wrapped.
\<close>

lemma iterate_known:
  assumes "\<not> unknown_rank p s" "d \<le> ndims s"
  shows "iterate p s (int d) = Some (map (dim_size p s) [d..<ndims s])"
  using assms(2)
proof (induction "ndims s - d" arbitrary: d)
  case 0
  then show ?case using assms(1) by (subst iterate.simps) (simp add: iter_end_def dims_known)
next
  case (Suc k)
  then have d: "d < ndims s" by simp
  have e: "cast_int (int d + 1) = int (Suc d)" using d unat_byte_less [of "ndims_byte s"] by (subst cast_int_id) simp_all
  have "iterate p s (int (Suc d)) = Some (map (dim_size p s) [Suc d..<ndims s])"
    using Suc by (intro Suc.hyps(1)) auto
  with d assms(1) show ?case
    by (subst iterate.simps, subst e) (simp add: iter_end_def dims_known upt_conv_Cons del: of_nat_Suc of_nat_unat)
qed

lemma iterate_list [simp]: "\<not> unknown_rank p s \<Longrightarrow> iterate p s 0 = Some (shape_list p s)"
  using iterate_known [of p s 0] by (simp add: shape_list_def)

lemma AppendTo_list [simp]: "\<not> unknown_rank p s \<Longrightarrow> AppendTo p s vals = Some (vals @ shape_list p s)"
  by (simp add: AppendTo_def)






section \<open>Adding a dimension\<close>

lemma shape_listI:
  "ndims s = length xs \<Longrightarrow> (\<And>d. d < length xs \<Longrightarrow> dim_size p s d = xs ! d) \<Longrightarrow> shape_list p s = xs"
  by (rule nth_equalityI) (auto simp: shape_list_def)

lemma shape_list_nth: "d < ndims s \<Longrightarrow> shape_list p s ! d = dim_size p s d"
  by (simp add: shape_list_def)

text \<open>How a size is stored in 16 and 32 bits and read back.\<close>

definition read16 :: "bool \<Rightarrow> nat \<Rightarrow> int" where
  "read16 p v = (if p \<and> v = kUnknownRep16 then -1 else int v)"

definition read32 :: "bool \<Rightarrow> nat \<Rightarrow> int" where
  "read32 p v = (if p \<and> v = kUnknownRep32 then -1 else int v)"

lemma cast16_read:
  "least_size p \<le> sz \<Longrightarrow> sz < kMaxRep16 \<Longrightarrow>
   cast16 p sz < 2 ^ 16 \<and> read16 p (cast16 p sz) = sz \<and> (\<not> p \<longrightarrow> cast16 p sz < kUnknownRep16)"
  by (cases "sz < 0") (auto simp: cast16_def read16_def kUnknownRep16_def kMaxRep16_def least_size_def)

lemma cast32_read:
  "least_size p \<le> sz \<Longrightarrow> sz < kMaxRep32 \<Longrightarrow>
   cast32 p sz < 2 ^ 32 \<and> read32 p (cast32 p sz) = sz \<and> (\<not> p \<longrightarrow> cast32 p sz < kUnknownRep32)"
  by (cases "sz < 0") (auto simp: cast32_def read32_def kUnknownRep32_def kMaxRep32_def least_size_def)

lemma dim_size_reps:
  assumes "\<not> unknown_rank p s"
  shows "tag s = REP16 \<Longrightarrow> dim_size p s d = read16 p (as16 s d)"
    and "tag s = REP32 \<Longrightarrow> dim_size p s d = read32 p (as32 s d)"
    and "tag s = REP_OUT_OF_LINE \<Longrightarrow> dim_size p s d = sr_dims64 s ! d"
  using assms by (simp_all add: dim_size_def read16_def read32_def)

lemma set_dims32_header:
  "d + length vals \<le> 3 \<Longrightarrow> length (sr_buf (set_dims32 p d vals s)) = length (sr_buf s) \<and>
   sr_num_elements (set_dims32 p d vals s) = sr_num_elements s \<and>
   data_type (set_dims32 p d vals s) = data_type s \<and> ndims_byte (set_dims32 p d vals s) = ndims_byte s \<and>
   tag (set_dims32 p d vals s) = tag s"
  by (induction vals arbitrary: d s) auto

lemma as32_set_dims32:
  assumes "length (sr_buf s) = 16" "d + length vals \<le> 3" "\<forall>v \<in> set vals. cast32 p v < 2 ^ 32" "e < 3"
  shows "as32 (set_dims32 p d vals s) e = (if d \<le> e \<and> e < d + length vals then cast32 p (vals ! (e - d)) else as32 s e)"
  using assms
proof (induction vals arbitrary: d s)
  case (Cons v vals)
  have "as32 (set_dims32 p d (v # vals) s) e =
      (if Suc d \<le> e \<and> e < Suc d + length vals then cast32 p (vals ! (e - Suc d)) else as32 (set32 d (cast32 p v) s) e)"
    using Cons by simp
  moreover have "as32 (set32 d (cast32 p v) s) e = (if d = e then cast32 p v else as32 s e)"
    using Cons.prems by (intro as32_set32) auto
  ultimately show ?case
    by (auto simp: nth_Cons' Suc_le_eq)
qed simp

lemma set_ndims_word: "n \<le> 255 \<Longrightarrow> unat (word_of_nat n :: byte) = n"
  by (simp add: unat_of_nat)

text \<open>The result of \<open>UnsafeAddDim\<close> in each representation: what is written, then the number of dimensions.\<close>

definition dim_added :: "bool \<Rightarrow> int \<Rightarrow> int \<Rightarrow> shape_rep \<Rightarrow> shape_rep \<Rightarrow> bool" where
  "dim_added p sz n s s' \<longleftrightarrow> rep_ok p s' \<and> \<not> unknown_rank p s' \<and> shape_list p s' = shape_list p s @ [sz] \<and>
     sr_num_elements s' = n \<and> data_type s' = data_type s"

definition counted :: "int \<Rightarrow> nat \<Rightarrow> shape_rep \<Rightarrow> shape_rep" where
  "counted n nd s = set_num_elements n (set_ndims_byte (word_of_nat nd) s)"

lemma counted_simps [simp]:
  "length (sr_buf (counted n nd s)) = length (sr_buf s)" "sr_dims64 (counted n nd s) = sr_dims64 s"
  "sr_num_elements (counted n nd s) = n"
  "d < 6 \<Longrightarrow> as16 (counted n nd s) d = as16 s d" "d < 3 \<Longrightarrow> as32 (counted n nd s) d = as32 s d"
  "length (sr_buf s) = 16 \<Longrightarrow> data_type (counted n nd s) = data_type s"
  "length (sr_buf s) = 16 \<Longrightarrow> tag (counted n nd s) = tag s"
  by (simp_all add: counted_def)

lemma ndims_counted: "length (sr_buf s) = 16 \<Longrightarrow> nd \<le> 255 \<Longrightarrow> ndims (counted n nd s) = nd"
  by (simp add: counted_def set_ndims_word)

lemma UnsafeAddDim_eq:
  "UnsafeAddDim p sz n s = map_option (counted n (ndims s + 1))
     (if tag s = REP16 \<and> ndims s < 6 \<and> sz < kMaxRep16 then Some (set16 (ndims s) (cast16 p sz) s)
      else if tag s = REP32 \<and> ndims s < 3 \<and> sz < kMaxRep32 then Some (set32 (ndims s) (cast32 p sz) s)
      else if tag s = REP_OUT_OF_LINE then Some (s\<lparr>sr_dims64 := sr_dims64 s @ [sz]\<rparr>)
      else Option.bind (AppendTo p s []) (\<lambda>vals.
        if length (vals @ [sz]) \<le> 3 \<and> list_all (\<lambda>v. v < kMaxRep32) (vals @ [sz])
        then Some (set_dims32 p 0 (vals @ [sz]) (set_tag REP32 s))
        else Some ((set_tag REP_OUT_OF_LINE s)\<lparr>sr_dims64 := vals @ [sz]\<rparr>)))"
  unfolding UnsafeAddDim_def Let_def counted_def [abs_def] by (simp split: option.split)

lemma dim_added16:
  assumes "rep_ok p s" "\<not> unknown_rank p s" "tag s = REP16" "ndims s < 6" "least_size p \<le> sz" "sz < kMaxRep16"
  shows "dim_added p sz n s (counted n (ndims s + 1) (set16 (ndims s) (cast16 p sz) s))" (is "dim_added p sz n s ?s")
proof -
  have len: "length (sr_buf s) = 16" using assms(1) by (simp add: rep_ok_def)
  note c = cast16_read [OF assms(5,6)]
  have nd: "ndims ?s = Suc (ndims s)" using assms(4) len by (simp add: ndims_counted)
  have unk: "\<not> unknown_rank p ?s" using nd assms(4) by (intro unknown_rank_ndims) simp
  have tag: "tag ?s = REP16" using assms(3,4) len by simp
  have d: "as16 ?s e = (if ndims s = e then cast16 p sz else as16 s e)" if "e < Suc (ndims s)" for e
    using that assms(4) len c as16_set16 [of s "ndims s" e "cast16 p sz"] by simp
  have "shape_list p ?s = shape_list p s @ [sz]"
  proof (rule shape_listI)
    fix e assume "e < length (shape_list p s @ [sz])"
    then show "dim_size p ?s e = (shape_list p s @ [sz]) ! e"
      using d [of e] c dim_size_reps(1) [OF unk tag, of e] dim_size_reps(1) [OF assms(2,3), of e]
      by (cases "e = ndims s") (auto simp: nth_append shape_list_nth)
  qed (use nd in simp)
  moreover have "rep_ok p ?s"
    using assms(1-4) len tag unk nd d c unfolding rep_ok_def by auto
  ultimately show ?thesis using unk assms(4) len by (simp add: dim_added_def)
qed

lemma dim_added32:
  assumes "rep_ok p s" "\<not> unknown_rank p s" "tag s = REP32" "ndims s < 3" "least_size p \<le> sz" "sz < kMaxRep32"
  shows "dim_added p sz n s (counted n (ndims s + 1) (set32 (ndims s) (cast32 p sz) s))" (is "dim_added p sz n s ?s")
proof -
  have len: "length (sr_buf s) = 16" using assms(1) by (simp add: rep_ok_def)
  note c = cast32_read [OF assms(5,6)]
  have nd: "ndims ?s = Suc (ndims s)" using assms(4) len by (simp add: ndims_counted)
  have unk: "\<not> unknown_rank p ?s" using nd assms(4) by (intro unknown_rank_ndims) simp
  have tag: "tag ?s = REP32" using assms(3,4) len by simp
  have d: "as32 ?s e = (if ndims s = e then cast32 p sz else as32 s e)" if "e < Suc (ndims s)" for e
    using that assms(4) len c as32_set32 [of s "ndims s" e "cast32 p sz"] by simp
  have "shape_list p ?s = shape_list p s @ [sz]"
  proof (rule shape_listI)
    fix e assume "e < length (shape_list p s @ [sz])"
    then show "dim_size p ?s e = (shape_list p s @ [sz]) ! e"
      using d [of e] c dim_size_reps(2) [OF unk tag, of e] dim_size_reps(2) [OF assms(2,3), of e]
      by (cases "e = ndims s") (auto simp: nth_append shape_list_nth)
  qed (use nd in simp)
  moreover have "rep_ok p ?s"
    using assms(1-4) len tag unk nd d c unfolding rep_ok_def by auto
  ultimately show ?thesis using unk assms(4) len by (simp add: dim_added_def)
qed

text \<open>A list of dimensions written as a whole, in 32 bits or out of line.\<close>

lemma written32:
  assumes "length (sr_buf s) = 16" "length vals \<le> 3" "\<forall>v \<in> set vals. least_size p \<le> v \<and> v < kMaxRep32"
  shows "rep_ok p (counted n (length vals) (set_dims32 p 0 vals (set_tag REP32 s)))" (is "rep_ok p ?s")
    and "shape_list p (counted n (length vals) (set_dims32 p 0 vals (set_tag REP32 s))) = vals"
    and "\<not> unknown_rank p (counted n (length vals) (set_dims32 p 0 vals (set_tag REP32 s)))"
    and "data_type (counted n (length vals) (set_dims32 p 0 vals (set_tag REP32 s))) = data_type s"
proof -
  note h = set_dims32_header [of 0 vals p "set_tag REP32 s"]
  have c: "cast32 p v < 2 ^ 32 \<and> read32 p (cast32 p v) = v \<and> (\<not> p \<longrightarrow> cast32 p v < kUnknownRep32)" if "v \<in> set vals" for v
    using assms(3) that by (intro cast32_read) auto
  have nd: "ndims ?s = length vals" using assms h by (simp add: ndims_counted)
  show unk: "\<not> unknown_rank p ?s" using nd assms(2) by (intro unknown_rank_ndims) simp
  have tag: "tag ?s = REP32" using assms(1,2) h by simp
  have d: "as32 ?s e = cast32 p (vals ! e)" if "e < length vals" for e
    using that assms(1,2) c as32_set_dims32 [of "set_tag REP32 s" 0 vals p e] by simp
  show "shape_list p ?s = vals"
    by (rule shape_listI) (use nd d c in \<open>auto simp: dim_size_reps(2) [OF unk tag]\<close>)
  show "rep_ok p ?s"
    using assms(1,2) h tag unk nd d c unfolding rep_ok_def by auto
  show "data_type ?s = data_type s" using assms(1,2) h by simp
qed

lemma written64:
  assumes "length (sr_buf s) = 16" "length vals \<le> 254" "\<forall>v \<in> set vals. least_size p \<le> v \<and> v < 2 ^ 63" "tag s = REP_OUT_OF_LINE"
  shows "rep_ok p (counted n (length vals) (s\<lparr>sr_dims64 := vals\<rparr>))" (is "rep_ok p ?s")
    and "shape_list p (counted n (length vals) (s\<lparr>sr_dims64 := vals\<rparr>)) = vals"
    and "\<not> unknown_rank p (counted n (length vals) (s\<lparr>sr_dims64 := vals\<rparr>))"
    and "data_type (counted n (length vals) (s\<lparr>sr_dims64 := vals\<rparr>)) = data_type s"
proof -
  have nd: "ndims ?s = length vals" using assms by (simp add: ndims_counted)
  show unk: "\<not> unknown_rank p ?s" using nd assms(2) by (intro unknown_rank_ndims) simp
  have tag: "tag ?s = REP_OUT_OF_LINE" using assms by simp
  show "shape_list p ?s = vals"
    by (rule shape_listI) (use nd in \<open>auto simp: dim_size_reps(3) [OF unk tag]\<close>)
  show "rep_ok p ?s" using assms tag nd unfolding rep_ok_def by auto
  show "data_type ?s = data_type s" using assms by simp
qed

lemma shape_list64:
  "\<not> unknown_rank p s \<Longrightarrow> tag s = REP_OUT_OF_LINE \<Longrightarrow> rep_ok p s \<Longrightarrow> shape_list p s = sr_dims64 s"
  by (rule shape_listI) (auto simp: rep_ok_def dim_size_reps)

lemma UnsafeAddDim_law:
  assumes "rep_ok p s" "\<not> unknown_rank p s" "ndims s < 254" "least_size p \<le> sz" "sz < 2 ^ 63"
  shows "\<exists>s'. UnsafeAddDim p sz n s = Some s' \<and> dim_added p sz n s s'"
proof -
  let ?vals = "shape_list p s @ [sz]"
  have len: "length (sr_buf s) = 16" using assms(1) by (simp add: rep_ok_def)
  have range: "least_size p \<le> v \<and> v < 2 ^ 63" if "v \<in> set ?vals" for v
    using that assms shape_list_range [OF assms(1,2)] by auto
  have lv: "length ?vals = ndims s + 1" by simp
  consider "tag s = REP16" "ndims s < 6" "sz < kMaxRep16" | "tag s = REP32" "ndims s < 3" "sz < kMaxRep32"
    | "tag s = REP_OUT_OF_LINE"
    | "tag s \<noteq> REP_OUT_OF_LINE" "\<not> (tag s = REP16 \<and> ndims s < 6 \<and> sz < kMaxRep16)"
      "\<not> (tag s = REP32 \<and> ndims s < 3 \<and> sz < kMaxRep32)"
    by blast
  then show ?thesis
  proof cases
    case 1
    with dim_added16 [OF assms(1,2) 1(1,2) assms(4) 1(3)] show ?thesis by (simp add: UnsafeAddDim_eq)
  next
    case 2
    with dim_added32 [OF assms(1,2) 2(1,2) assms(4) 2(3)] show ?thesis by (simp add: UnsafeAddDim_eq)
  next
    case 3
    have "sr_dims64 s @ [sz] = ?vals" using shape_list64 [OF assms(2) 3 assms(1)] by simp
    with 3 written64 [of s ?vals p n] len range assms(3) show ?thesis
      by (auto simp: UnsafeAddDim_eq dim_added_def)
  next
    case 4
    show ?thesis
    proof (cases "length ?vals \<le> 3 \<and> list_all (\<lambda>v. v < kMaxRep32) ?vals")
      case True
      then have "\<forall>v \<in> set ?vals. least_size p \<le> v \<and> v < kMaxRep32" using range by (auto simp: list_all_iff)
      with 4 True written32 [of s ?vals p n] len assms(2) lv show ?thesis
        by (auto simp: UnsafeAddDim_eq dim_added_def)
    next
      case False
      with 4 written64 [of "set_tag REP_OUT_OF_LINE s" ?vals p n] len range assms(2,3) show ?thesis
        by (auto simp: UnsafeAddDim_eq dim_added_def)
    qed
  qed
qed

section \<open>The operations that add dimensions\<close>

lemma prod_list_nonneg: "\<not> list_ex (\<lambda>d. d < 0) ds \<Longrightarrow> 0 \<le> prod_list (ds :: int list)"
  by (induction ds) auto

lemma elements_neg: "elements ds < 0 \<longleftrightarrow> list_ex (\<lambda>d. d < 0) ds"
  using prod_list_nonneg [of ds] by (auto simp: elements_def)

lemma elements_Nil [simp]: "elements [] = 1"
  by (simp add: elements_def)

lemma elements_snoc: "elements (ds @ [e]) = (if elements ds < 0 \<or> e < 0 then -1 else elements ds * e)"
  unfolding elements_neg by (simp add: elements_def)

lemma representable_Nil [simp]: "representable p []"
  by (simp add: representable_def)

lemma representable_snoc:
  "representable p (ds @ [e]) \<longleftrightarrow> representable p ds \<and> length ds < 254 \<and> least_size p \<le> e \<and> e < 2 ^ 63 \<and>
   elements (ds @ [e]) < 2 ^ 63"
proof -
  have "list_all (\<lambda>n. elements (take n (ds @ [e])) < 2 ^ 63) [0..<Suc (length ds)] \<longleftrightarrow>
      list_all (\<lambda>n. elements (take n ds) < 2 ^ 63) [0..<Suc (length ds)]"
    by (auto simp: list_all_iff)
  then show ?thesis by (auto simp: representable_def)
qed

lemma representable_append: "representable p (ds @ es) \<Longrightarrow> representable p ds"
  by (induction es rule: rev_induct) (auto simp: representable_snoc simp flip: append_assoc)

lemma representable_prefix: "representable p (ds @ e # es) \<Longrightarrow> representable p (ds @ [e])"
  using representable_append [of p "ds @ [e]" es] by simp

lemma representable_elements: "representable p ds \<Longrightarrow> elements ds < 2 ^ 63"
  by (cases ds rule: rev_cases) (auto simp: representable_snoc)

lemma representable_range: "representable p ds \<Longrightarrow> d \<in> set ds \<Longrightarrow> least_size p \<le> d \<and> d < 2 ^ 63"
  by (auto simp: representable_def list_all_iff)

lemma representable_nonneg: "representable False ds \<Longrightarrow> 0 \<le> elements ds"
  using elements_neg [of ds] by (fastforce simp: representable_def list_all_iff list_ex_iff least_size_def)

lemma holdsE:
  assumes "holds p s ds"
  shows "rep_ok p s" "\<not> unknown_rank p s" "shape_list p s = ds" "representable p ds" "sr_num_elements s = elements ds"
    "ndims s = length ds" "length (sr_buf s) = 16"
  using assms length_shape_list [of p s] by (auto simp: holds_def shape_ok_def rep_ok_def simp del: length_shape_list)

lemma holds_dim_added:
  "dim_added p sz (elements (ds @ [sz])) s s' \<Longrightarrow> holds p s ds \<Longrightarrow> representable p (ds @ [sz]) \<Longrightarrow>
   holds p s' (ds @ [sz]) \<and> data_type s' = data_type s"
  by (auto simp: dim_added_def holds_def shape_ok_def)

text \<open>The outcome of the two ways to add a dimension, by the list that the shape then holds.\<close>

lemma AddDim_law:
  assumes "holds p s ds" "- (2 ^ 63) \<le> sz" "sz < 2 ^ 63" "p \<Longrightarrow> -1 \<le> sz"
  shows "if representable p (ds @ [sz])
    then \<exists>s'. AddDim p sz s = Some s' \<and> AddDimWithStatus p sz s = Some (OkStatus, s') \<and> holds p s' (ds @ [sz]) \<and> data_type s' = data_type s
    else AddDim p sz s = None \<and> (\<exists>m. AddDimWithStatus p sz s = Some (Error INVALID_ARGUMENT m, s))"
proof -
  note h = holdsE [OF assms(1)]
  have max: "int (ndims s) < MaxDimensions \<longleftrightarrow> length ds < 254" unfolding h(6) by (simp add: MaxDimensions_def)
  consider "\<not> p" "sz < 0" | "least_size p \<le> sz" "\<not> length ds < 254"
    | "p" "elements ds < 0 \<or> sz < 0" "least_size p \<le> sz" "length ds < 254"
    | "\<not> (p \<and> (elements ds < 0 \<or> sz < 0))" "least_size p \<le> sz" "length ds < 254"
    using assms(4) by (cases p; cases "length ds < 254"; cases "sz < 0"; cases "elements ds < 0") (auto simp: least_size_def not_less)
  then show ?thesis
  proof cases
    case 1
    then show ?thesis by (simp add: AddDim_def AddDimWithStatus_def representable_snoc least_size_def)
  next
    case 2
    with h(2) max show ?thesis
      by (auto simp: AddDim_def AddDimWithStatus_def representable_snoc least_size_def)
  next
    case 3
    have e: "elements (ds @ [sz]) = -1" using 3(2) by (simp add: elements_snoc)
    then have r: "representable p (ds @ [sz])" using 3 h(4) assms(3) by (simp add: representable_snoc)
    obtain s' where s': "UnsafeAddDim p sz (-1) s = Some s'" "dim_added p sz (-1) s s'"
      using UnsafeAddDim_law [OF h(1,2) _ 3(3) assms(3), of "-1"] 3(4) h(6) by auto
    have "AddDim p sz s = Some s'" "AddDimWithStatus p sz s = Some (OkStatus, s')"
      using 3 h(2,5) max s'(1) by (auto simp: AddDim_def AddDimWithStatus_def)
    with r holds_dim_added [OF _ assms(1) r, of s'] s'(2) e show ?thesis by simp
  next
    case 4
    have nn: "0 \<le> elements ds" "0 \<le> sz" using 4 representable_nonneg h(4) by (cases p; auto simp: least_size_def)+
    then have e: "elements (ds @ [sz]) = elements ds * sz" by (simp add: elements_snoc)
    then have r: "representable p (ds @ [sz]) \<longleftrightarrow> elements ds * sz < 2 ^ 63" using 4 h(4) assms(3) by (simp add: representable_snoc)
    note mul = MultiplyWithoutOverflow_exact [OF nn(1) representable_elements [OF h(4)] nn(2) assms(3)]
    show ?thesis
    proof (cases "elements ds * sz < 2 ^ 63")
      case True
      obtain s' where s': "UnsafeAddDim p sz (elements ds * sz) s = Some s'" "dim_added p sz (elements ds * sz) s s'"
        using UnsafeAddDim_law [OF h(1,2) _ 4(2) assms(3)] 4(3) h(6) by auto
      have nl: "(elements ds * sz < 0) = False" using nn by (simp add: mult_less_0_iff)
      have "AddDim p sz s = Some s'" "AddDimWithStatus p sz s = Some (OkStatus, s')"
        using 4 h(2,5) max s'(1) mul True nn by (auto simp: AddDim_def AddDimWithStatus_def Let_def nl)
      with r True holds_dim_added [OF _ assms(1), of sz s'] s'(2) e show ?thesis by simp
    next
      case False
      with r mul 4 h(2,5) max nn show ?thesis by (auto simp: AddDim_def AddDimWithStatus_def Let_def)
    qed
  qed
qed

text \<open>Sizes that the callers may pass: 64-bit numbers, and for partial shapes no less than -1.\<close>

definition sizes_ok :: "bool \<Rightarrow> int list \<Rightarrow> bool" where
  "sizes_ok p es \<longleftrightarrow> list_all (\<lambda>e. (if p then -1 else - (2 ^ 63)) \<le> e \<and> e < 2 ^ 63) es"

lemma AddDims_law:
  assumes "holds p s ds" "sizes_ok p es"
  shows "if representable p (ds @ es)
    then \<exists>s'. AddDims p es s = Some s' \<and> AddDimsWithStatus p es s = Some (OkStatus, s') \<and> holds p s' (ds @ es) \<and> data_type s' = data_type s
    else AddDims p es s = None \<and> (\<exists>m s'. AddDimsWithStatus p es s = Some (Error INVALID_ARGUMENT m, s'))"
  using assms
proof (induction es arbitrary: ds s)
  case Nil
  then show ?case using holdsE(4) [OF Nil.prems(1)] by simp
next
  case (Cons e es)
  have e: "- (2 ^ 63) \<le> e" "e < 2 ^ 63" "p \<Longrightarrow> -1 \<le> e" "sizes_ok p es"
    using Cons.prems(2) by (auto simp: sizes_ok_def split: if_splits)
  note law = AddDim_law [OF Cons.prems(1) e(1,2,3)]
  show ?case
  proof (cases "representable p (ds @ [e])")
    case True
    then obtain s' where s': "AddDim p e s = Some s'" "AddDimWithStatus p e s = Some (OkStatus, s')" "holds p s' (ds @ [e])"
      "data_type s' = data_type s" using law by auto
    show ?thesis using Cons.IH [OF s'(3) e(4)] s' by (auto split: if_splits)
  next
    case False
    then have "\<not> representable p (ds @ e # es)" using representable_prefix by blast
    with False law show ?thesis by auto
  qed
qed

section \<open>Construction from a list of sizes\<close>

lemma holds_empty:
  assumes "length (sr_buf s) = 16" "tag s = REP16"
  shows "holds p (set_num_elements 1 (set_ndims_byte 0 s)) []"
  using assms unknown_rank_ndims [of "set_num_elements 1 (set_ndims_byte 0 s)" p]
  by (auto simp: holds_def shape_ok_def rep_ok_def shape_list_def)

lemma ClearAllButDataType_law:
  "length (sr_buf s) = 16 \<Longrightarrow> holds p (ClearAllButDataType s) [] \<and> data_type (ClearAllButDataType s) = data_type s"
  by (auto simp: ClearAllButDataType_def Let_def intro: holds_empty)

lemma header_dims: "length (sr_buf s) = 16 \<Longrightarrow> holds p (set_data_type t s) ds \<longleftrightarrow> holds p s ds"
proof -
  assume l: "length (sr_buf s) = 16"
  have u: "unknown_rank p (set_data_type t s) = unknown_rank p s" using l by (simp add: unknown_rank_def)
  have r: "rep_ok p (set_data_type t s) = rep_ok p s" using l u by (auto simp: rep_ok_def)
  have "shape_list p (set_data_type t s) = shape_list p s" if "rep_ok p s" "\<not> unknown_rank p s"
  proof (rule shape_listI)
    fix d assume "d < length (shape_list p s)"
    with that l u show "dim_size p (set_data_type t s) d = shape_list p s ! d"
      unfolding rep_ok_def by (auto simp: shape_list_nth dim_size_def)
  qed (use l in simp)
  with u r show ?thesis by (auto simp: holds_def shape_ok_def)
qed

lemma Clear_law: "length (sr_buf s) = 16 \<Longrightarrow> holds p (Clear s) [] \<and> data_type (Clear s) = DT_INVALID"
  using ClearAllButDataType_law [of s p] holdsE(7) [of p "ClearAllButDataType s"] by (auto simp: Clear_def header_dims)

text \<open>The fast paths of \<open>InitDims\<close> write up to four small sizes in 16 bits.\<close>

fun set_dims16 :: "bool \<Rightarrow> nat \<Rightarrow> int list \<Rightarrow> shape_rep \<Rightarrow> shape_rep" where
  "set_dims16 p d [] s = s"
| "set_dims16 p d (v # vals) s = set_dims16 p (Suc d) vals (set16 d (cast16 p v) s)"

lemma Set16_eq: "Set16 p d v s = (p \<and> v < 0, set16 d (cast16 p v) s)"
  by (simp add: Set16_def cast16_def kUnknownRep16_def)

lemma set_dims16_header:
  "d + length vals \<le> 6 \<Longrightarrow> length (sr_buf (set_dims16 p d vals s)) = length (sr_buf s) \<and>
   data_type (set_dims16 p d vals s) = data_type s \<and> ndims_byte (set_dims16 p d vals s) = ndims_byte s \<and>
   tag (set_dims16 p d vals s) = tag s"
  by (induction vals arbitrary: d s) auto

lemma as16_set_dims16:
  assumes "length (sr_buf s) = 16" "d + length vals \<le> 6" "\<forall>v \<in> set vals. cast16 p v < 2 ^ 16" "e < 6"
  shows "as16 (set_dims16 p d vals s) e = (if d \<le> e \<and> e < d + length vals then cast16 p (vals ! (e - d)) else as16 s e)"
  using assms
proof (induction vals arbitrary: d s)
  case (Cons v vals)
  have "as16 (set_dims16 p d (v # vals) s) e =
      (if Suc d \<le> e \<and> e < Suc d + length vals then cast16 p (vals ! (e - Suc d)) else as16 (set16 d (cast16 p v) s) e)"
    using Cons by simp
  moreover have "as16 (set16 d (cast16 p v) s) e = (if d = e then cast16 p v else as16 s e)"
    using Cons.prems by (intro as16_set16) auto
  ultimately show ?case
    by (auto simp: nth_Cons' Suc_le_eq)
qed simp

lemma written16:
  fixes s p vals
  defines "s' \<equiv> set_num_elements (elements vals) (set_dims16 p 0 vals (set_ndims_byte (word_of_nat (length vals)) s))"
  assumes "length (sr_buf s) = 16" "tag s = REP16" "length vals \<le> 6" "\<forall>v \<in> set vals. least_size p \<le> v \<and> v < kMaxRep16"
    and "representable p vals"
  shows "holds p s' vals \<and> data_type s' = data_type s"
proof -
  note h = set_dims16_header [of 0 vals p "set_ndims_byte (word_of_nat (length vals)) s"]
  have c: "cast16 p v < 2 ^ 16 \<and> read16 p (cast16 p v) = v \<and> (\<not> p \<longrightarrow> cast16 p v < kUnknownRep16)" if "v \<in> set vals" for v
    using assms(5) that by (intro cast16_read) auto
  have nd: "ndims s' = length vals" using assms(2-4) h by (simp add: set_ndims_word s'_def)
  have unk: "\<not> unknown_rank p s'" using nd assms(4) by (intro unknown_rank_ndims) simp
  have tag: "tag s' = REP16" using assms(2-4) h by (simp add: s'_def)
  have d: "as16 s' e = cast16 p (vals ! e)" if "e < length vals" for e
    using that assms(2-4) c as16_set_dims16 [of "set_ndims_byte (word_of_nat (length vals)) s" 0 vals p e] by (simp add: s'_def)
  have l: "shape_list p s' = vals"
    by (rule shape_listI) (use nd d c in \<open>auto simp: dim_size_reps(1) [OF unk tag]\<close>)
  have len: "length (sr_buf s') = 16" using assms(2,4) h by (simp add: s'_def)
  have "rep_ok p s'" using len assms(4) tag unk nd d c unfolding rep_ok_def by auto
  then show ?thesis using l unk assms(2-4,6) h by (simp add: holds_def shape_ok_def s'_def)
qed

lemma elements_small:
  "list_all (\<lambda>d. d \<le> kMaxSmall) ds \<Longrightarrow> \<not> list_ex (\<lambda>d. d < 0) ds \<Longrightarrow> prod_list ds \<le> kMaxSmall ^ length ds"
proof (induction ds)
  case (Cons d ds)
  then have "0 \<le> prod_list ds" "prod_list ds \<le> kMaxSmall ^ length ds" "0 \<le> d" "d \<le> kMaxSmall"
    using prod_list_nonneg by auto
  then show ?case by (simp add: mult_mono kMaxSmall_def)
qed simp

lemma representable_small:
  assumes "list_all (\<lambda>d. d \<le> kMaxSmall) ds" "list_all (\<lambda>d. least_size p \<le> d) ds" "length ds \<le> 4"
  shows "representable p ds"
  using assms
proof (induction ds rule: rev_induct)
  case (snoc d ds)
  have "elements (ds @ [d]) \<le> kMaxSmall ^ length (ds @ [d])"
  proof (cases "list_ex (\<lambda>d. d < 0) (ds @ [d])")
    case True
    then have "elements (ds @ [d]) = -1" by (simp add: elements_def)
    moreover have "0 \<le> kMaxSmall ^ length (ds @ [d])" by (simp add: kMaxSmall_def)
    ultimately show ?thesis by linarith
  next
    case False
    then show ?thesis using elements_small [OF snoc.prems(1)] by (simp add: elements_def)
  qed
  also have "\<dots> \<le> kMaxSmall ^ 4" using snoc.prems(3) by (intro power_increasing) (auto simp: kMaxSmall_def)
  also have "\<dots> < 2 ^ 63" by (simp add: kMaxSmall_def)
  finally have "elements (ds @ [d]) < 2 ^ 63" .
  with snoc show ?case by (auto simp: representable_snoc kMaxSmall_def)
qed simp


lemma elements_flag:
  "(\<not> p \<Longrightarrow> \<not> list_ex (\<lambda>d. d < 0) ds) \<Longrightarrow> (if list_ex (\<lambda>d. p \<and> d < 0) ds then -1 else prod_list ds) = elements ds"
  by (cases p) (auto simp: elements_def list_ex_iff)

text \<open>\<open>InitDims\<close> in two cases: its fast paths are one, and the loop the other.\<close>

lemma InitDims_fast:
  assumes "\<not> list_ex (\<lambda>s. s > kMaxSmall) szs" "length szs \<in> {1, 2, 3, 4}" "\<not> p \<Longrightarrow> \<not> list_ex (\<lambda>d. d < 0) szs"
  shows "InitDims p szs s =
    Some (OkStatus, set_num_elements (elements szs) (set_dims16 p 0 szs (set_ndims_byte (word_of_nat (length szs)) s)))"
proof -
  have nf: "(if \<not> p \<and> \<not> list_ex (\<lambda>s. s > kMaxSmall) szs then find (\<lambda>s. s < 0) szs else None) = None"
    using assms by (auto simp: find_None_iff list_ex_iff)
  consider (1) a where "szs = [a]" | (2) a b where "szs = [a, b]" | (3) a b c where "szs = [a, b, c]"
    | (4) a b c d where "szs = [a, b, c, d]"
    using assms(2) by (auto simp: length_Suc_conv numeral_eq_Suc)
  then have "InitDims p szs s = Some (OkStatus, set_num_elements (if list_ex (\<lambda>d. p \<and> d < 0) szs then -1 else prod_list szs)
      (set_dims16 p 0 szs (set_ndims_byte (word_of_nat (length szs)) s)))"
    unfolding InitDims_def Let_def nf option.case(1) if_not_P [OF assms(1)]
    by cases (simp_all add: Set16_eq mult.assoc eval_nat_numeral)
  then show ?thesis using elements_flag [of p szs] assms(3) by simp
qed

lemma InitDims_slow:
  assumes "list_ex (\<lambda>s. s > kMaxSmall) szs \<or> length szs \<notin> {1, 2, 3, 4}"
    and "list_ex (\<lambda>s. s > kMaxSmall) szs \<or> p \<or> find (\<lambda>s. s < 0) szs = None"
  shows "InitDims p szs s = AddDimsWithStatus p szs (set_num_elements 1 (set_ndims_byte 0 s))"
proof -
  have nf: "(if \<not> p \<and> \<not> list_ex (\<lambda>s. s > kMaxSmall) szs then find (\<lambda>s. s < 0) szs else None) = None"
    using assms(2) by auto
  show ?thesis
    unfolding InitDims_def Let_def nf option.case(1) using assms(1) by (auto split: list.split)
qed

lemma InitDims_law:
  assumes "length (sr_buf s) = 16" "tag s = REP16" "sizes_ok p szs"
  shows "if representable p szs
    then \<exists>s'. InitDims p szs s = Some (OkStatus, s') \<and> holds p s' szs \<and> data_type s' = data_type s
    else \<exists>m s'. InitDims p szs s = Some (Error INVALID_ARGUMENT m, s')"
proof -
  have neg: "\<not> representable p szs" if "\<not> p" "list_ex (\<lambda>d. d < 0) szs"
    using that representable_range [of p szs] by (force simp: list_ex_iff least_size_def)
  consider (negative) "\<not> p" "list_ex (\<lambda>d. d < 0) szs" "\<not> list_ex (\<lambda>s. s > kMaxSmall) szs"
    | (fast) "\<not> list_ex (\<lambda>s. s > kMaxSmall) szs" "length szs \<in> {1, 2, 3, 4}" "\<not> p \<Longrightarrow> \<not> list_ex (\<lambda>d. d < 0) szs"
    | (slow) "list_ex (\<lambda>s. s > kMaxSmall) szs \<or> length szs \<notin> {1, 2, 3, 4}"
      "list_ex (\<lambda>s. s > kMaxSmall) szs \<or> p \<or> \<not> list_ex (\<lambda>d. d < 0) szs"
    by blast
  then show ?thesis
  proof cases
    case negative
    then obtain d where "find (\<lambda>s. s < 0) szs = Some d"
      by (cases "find (\<lambda>s. s < 0) szs") (auto simp: find_None_iff list_ex_iff)
    with negative neg show ?thesis by (simp add: InitDims_def Let_def)
  next
    case fast
    have small: "list_all (\<lambda>d. d \<le> kMaxSmall) szs" using fast(1) by (auto simp: list_all_iff list_ex_iff)
    have least: "list_all (\<lambda>d. least_size p \<le> d) szs"
      using fast(3) assms(3) by (cases p) (auto simp: list_all_iff list_ex_iff least_size_def sizes_ok_def)
    have r: "representable p szs" using representable_small [OF small least] fast(2) by auto
    have "\<forall>v \<in> set szs. least_size p \<le> v \<and> v < kMaxRep16"
      using small least by (fastforce simp: list_all_iff kMaxSmall_def kMaxRep16_def)
    moreover have "length szs \<le> 6" using fast(2) by auto
    ultimately show ?thesis using r written16 [OF assms(1,2) _ _ r] InitDims_fast [OF fast, where s = s] by simp
  next
    case slow
    then have "InitDims p szs s = AddDimsWithStatus p szs (set_num_elements 1 (set_ndims_byte 0 s))"
      by (intro InitDims_slow) (auto simp: find_None_iff list_ex_iff)
    then show ?thesis using AddDims_law [OF holds_empty [OF assms(1,2)] assms(3)] assms(1) by (auto split: if_splits)
  qed
qed

section \<open>The operations that edit a shape\<close>

lemma representable_unknown:
  assumes "representable True ds" "e < 0" "length (ds @ e # es) \<le> 254" "\<forall>x \<in> set (e # es). -1 \<le> x \<and> x < 2 ^ 63"
  shows "representable True (ds @ e # es) \<and> elements (ds @ e # es) = -1"
  using assms(3,4)
proof (induction es rule: rev_induct)
  case Nil
  then show ?case using assms(1,2) by (simp add: representable_snoc elements_snoc least_size_def)
next
  case (snoc x es)
  then have "representable True ((ds @ e # es) @ [x]) \<and> elements ((ds @ e # es) @ [x]) = -1"
    unfolding representable_snoc elements_snoc by (simp add: least_size_def)
  then show ?case by simp
qed

lemma recompute_loop_law:
  assumes "representable p ds" "0 \<le> elements ds" "length (ds @ es) \<le> 254" "\<forall>x \<in> set es. least_size p \<le> x \<and> x < 2 ^ 63"
  shows "recompute_loop p (elements ds) es = (if representable p (ds @ es) then Some (elements (ds @ es)) else None)"
  using assms
proof (induction es arbitrary: ds)
  case (Cons e es)
  have e: "least_size p \<le> e" "e < 2 ^ 63" using Cons.prems(4) by auto
  show ?case
  proof (cases "p \<and> e < 0")
    case True
    then show ?thesis using representable_unknown [of ds e es] Cons.prems by (simp add: least_size_def)
  next
    case False
    then have nn: "0 \<le> e" using e by (cases p) (auto simp: least_size_def)
    then have el: "elements (ds @ [e]) = elements ds * e" using Cons.prems(2) by (simp add: elements_snoc)
    note mul = MultiplyWithoutOverflow_exact [OF Cons.prems(2) representable_elements [OF Cons.prems(1)] nn e(2)]
    show ?thesis
    proof (cases "elements ds * e < 2 ^ 63")
      case True
      then have "representable p (ds @ [e])" using Cons.prems e el by (simp add: representable_snoc)
      moreover have nl: "0 \<le> elements ds * e" using Cons.prems(2) nn by simp
      ultimately have "recompute_loop p (elements (ds @ [e])) es =
          (if representable p ((ds @ [e]) @ es) then Some (elements ((ds @ [e]) @ es)) else None)"
        using Cons.prems el by (intro Cons.IH) auto
      then show ?thesis using False True mul nl by (auto simp: el Let_def not_less [symmetric])
    next
      case f: False
      then have "\<not> representable p (ds @ e # es)"
        using representable_prefix [of p ds e es] el by (auto simp: representable_snoc)
      with False f mul show ?thesis by auto
    qed
  qed
qed simp

lemma RecomputeNumElements_law:
  assumes "rep_ok p s" "\<not> unknown_rank p s"
  shows "if representable p (shape_list p s)
    then RecomputeNumElements p s = Some (OkStatus, set_num_elements (elements (shape_list p s)) s)
    else \<exists>m. RecomputeNumElements p s = Some (Error INVALID_ARGUMENT m, s)"
proof -
  have "ndims s \<le> 254" using assms by (auto simp: rep_ok_def)
  then have "recompute_loop p 1 (shape_list p s) = (if representable p (shape_list p s) then Some (elements (shape_list p s)) else None)"
    using recompute_loop_law [of p "[]" "shape_list p s"] shape_list_range [OF assms] by auto
  then show ?thesis using assms(2) by (auto simp: RecomputeNumElements_def)
qed

lemma set_num_elements_view [simp]:
  "unknown_rank p (set_num_elements n s) = unknown_rank p s" "rep_ok p (set_num_elements n s) = rep_ok p s"
  "dim_size p (set_num_elements n s) = dim_size p s" "shape_list p (set_num_elements n s) = shape_list p s"
  by (auto simp: unknown_rank_def rep_ok_def dim_size_def shape_list_def fun_eq_iff)

lemma recomputed_holds:
  assumes "rep_ok p s" "\<not> unknown_rank p s" "shape_list p s = ds" "data_type s = t"
  shows "if representable p ds
    then \<exists>s'. RecomputeNumElements p s = Some (OkStatus, s') \<and> holds p s' ds \<and> data_type s' = t
    else \<exists>m. RecomputeNumElements p s = Some (Error INVALID_ARGUMENT m, s)"
  using RecomputeNumElements_law [OF assms(1,2)] assms by (auto simp: holds_def shape_ok_def)

text \<open>Writing one dimension in place, in each representation.\<close>

definition dim_set :: "bool \<Rightarrow> nat \<Rightarrow> int \<Rightarrow> shape_rep \<Rightarrow> shape_rep \<Rightarrow> bool" where
  "dim_set p d sz s s' \<longleftrightarrow> rep_ok p s' \<and> \<not> unknown_rank p s' \<and> shape_list p s' = (shape_list p s)[d := sz] \<and>
     data_type s' = data_type s"

lemma dim_set16:
  assumes "rep_ok p s" "\<not> unknown_rank p s" "tag s = REP16" "d < ndims s" "least_size p \<le> sz" "sz < kMaxRep16"
  shows "dim_set p d sz s (set16 d (cast16 p sz) s)" (is "dim_set p d sz s ?s")
proof -
  have len: "length (sr_buf s) = 16" and nd: "ndims s \<le> 6" using assms(1-3) by (auto simp: rep_ok_def)
  note c = cast16_read [OF assms(5,6)]
  have "d < 6" using assms(4) nd by simp
  note cells = dims_header_cells(4-6) [OF this]
  have unk: "\<not> unknown_rank p ?s" using assms(2) by (simp add: unknown_rank_def cells)
  have v: "as16 ?s e = (if d = e then cast16 p sz else as16 s e)" if "e < ndims s" for e
    using that nd len c \<open>d < 6\<close> by (intro as16_set16) auto
  have "shape_list p ?s = (shape_list p s)[d := sz]"
  proof (rule shape_listI)
    fix e assume "e < length ((shape_list p s)[d := sz])"
    then show "dim_size p ?s e = (shape_list p s)[d := sz] ! e"
      using v [of e] c assms(3) by (auto simp: dim_size_reps(1) [OF unk] dim_size_reps(1) [OF assms(2)] cells nth_list_update shape_list_nth)
  qed (simp add: cells)
  moreover have "rep_ok p ?s" using assms(1-3) len unk v c by (auto simp: rep_ok_def cells)
  ultimately show ?thesis using unk by (simp add: dim_set_def cells)
qed

lemma dim_set32:
  assumes "rep_ok p s" "\<not> unknown_rank p s" "tag s = REP32" "d < ndims s" "least_size p \<le> sz" "sz < kMaxRep32"
  shows "dim_set p d sz s (set32 d (cast32 p sz) s)" (is "dim_set p d sz s ?s")
proof -
  have len: "length (sr_buf s) = 16" and nd: "ndims s \<le> 3" using assms(1-3) by (auto simp: rep_ok_def)
  note c = cast32_read [OF assms(5,6)]
  have "d < 3" using assms(4) nd by simp
  note cells = dims32_header_cells(4-6) [OF this]
  have unk: "\<not> unknown_rank p ?s" using assms(2) by (simp add: unknown_rank_def cells)
  have v: "as32 ?s e = (if d = e then cast32 p sz else as32 s e)" if "e < ndims s" for e
    using that nd len c \<open>d < 3\<close> by (intro as32_set32) auto
  have "shape_list p ?s = (shape_list p s)[d := sz]"
  proof (rule shape_listI)
    fix e assume "e < length ((shape_list p s)[d := sz])"
    then show "dim_size p ?s e = (shape_list p s)[d := sz] ! e"
      using v [of e] c assms(3) by (auto simp: dim_size_reps(2) [OF unk] dim_size_reps(2) [OF assms(2)] cells nth_list_update shape_list_nth)
  qed (simp add: cells)
  moreover have "rep_ok p ?s" using assms(1-3) len unk v c by (auto simp: rep_ok_def cells)
  ultimately show ?thesis using unk by (simp add: dim_set_def cells)
qed

lemma dim_set64:
  assumes "rep_ok p s" "\<not> unknown_rank p s" "tag s = REP_OUT_OF_LINE" "least_size p \<le> sz" "sz < 2 ^ 63"
  shows "dim_set p d sz s (s\<lparr>sr_dims64 := (sr_dims64 s)[d := sz]\<rparr>)" (is "dim_set p d sz s ?s")
proof -
  have unk: "\<not> unknown_rank p ?s" using assms(2) by (simp add: unknown_rank_def)
  have r: "rep_ok p ?s"
    using assms set_update_subset_insert [of "sr_dims64 s" d sz] unk by (fastforce simp: rep_ok_def)
  have "shape_list p ?s = (shape_list p s)[d := sz]"
    using shape_list64 [OF assms(2,3,1)] shape_list64 [OF unk _ r] assms(3) by simp
  with r unk show ?thesis by (simp add: dim_set_def)
qed

text \<open>The list after each edit, where the edit is possible.\<close>

lemma SetDim_law:
  assumes "holds p s ds" "- (2 ^ 63) \<le> sz" "sz < 2 ^ 63" "p \<Longrightarrow> -1 \<le> sz"
  shows "if 0 \<le> d \<and> d < int (length ds) \<and> representable p (ds[nat d := sz])
    then \<exists>s'. set_dim p d sz s = Some s' \<and> SetDimWithStatus p d sz s = Some (OkStatus, s') \<and> holds p s' (ds[nat d := sz]) \<and>
      data_type s' = data_type s
    else set_dim p d sz s = None \<and> (\<exists>m s'. SetDimWithStatus p d sz s = Some (Error INVALID_ARGUMENT m, s'))"
proof -
  note h = holdsE [OF assms(1)]
  have dims: "dims p s = int (length ds)" using dims_known [OF h(2)] h(6) by simp
  show ?thesis
  proof (cases "0 \<le> d \<and> d < int (length ds) \<and> least_size p \<le> sz")
    case False
    have "\<not> representable p (ds[nat d := sz])" if "0 \<le> d" "d < int (length ds)" "\<not> least_size p \<le> sz"
      using that representable_range [of p "ds[nat d := sz]" sz] set_update_memI [of "nat d" ds sz] by auto
    moreover have "\<not> p \<and> sz < 0" if "\<not> least_size p \<le> sz" using that assms(4) by (cases p) (auto simp: least_size_def)
    ultimately have bad: "d < 0 \<or> d \<ge> int (length ds) \<or> \<not> p \<and> sz < 0"
      and nr: "\<not> (0 \<le> d \<and> d < int (length ds) \<and> representable p (ds[nat d := sz]))"
      using False by auto
    from bad have "set_dim p d sz s = None" by (simp add: set_dim_def dims not_less)
    moreover from bad have "\<exists>m s'. SetDimWithStatus p d sz s = Some (Error INVALID_ARGUMENT m, s')"
      by (cases "d < 0"; cases "d \<ge> int (length ds)") (simp_all add: SetDimWithStatus_def dims)
    ultimately show ?thesis using nr by simp
  next
    case True
    then have d: "nat d < ndims s" "0 \<le> d" "d < dims p s" using h(6) dims by auto
    have nneg: "\<not> (\<not> p \<and> sz < 0)" using True by (auto simp: least_size_def)
    have inplace: ?thesis if "dim_set p (nat d) sz s s1"
      "SetDimWithStatus p d sz s = RecomputeNumElements p s1"
      "set_dim p d sz s = (case RecomputeNumElements p s1 of None \<Rightarrow> None | Some (st, s) \<Rightarrow> if ok st then Some s else None)" for s1
    proof -
      have "rep_ok p s1" "\<not> unknown_rank p s1" "shape_list p s1 = ds[nat d := sz]" "data_type s1 = data_type s"
        using that(1) h(3) by (simp_all add: dim_set_def)
      from recomputed_holds [OF this] True show ?thesis unfolding that(2,3) by (cases "representable p (ds[nat d := sz])") auto
    qed
    consider (1) "tag s = REP16" "sz < kMaxRep16" | (2) "tag s = REP32" "sz < kMaxRep32" | (3) "tag s = REP_OUT_OF_LINE"
      | (4) "tag s \<noteq> REP_OUT_OF_LINE" "\<not> (tag s = REP16 \<and> sz < kMaxRep16)" "\<not> (tag s = REP32 \<and> sz < kMaxRep32)"
      by blast
    then show ?thesis
    proof cases
      case 1
      show ?thesis
        by (rule inplace [OF dim_set16 [OF h(1,2) 1(1) d(1) _ 1(2)]]) (use 1 d nneg True in \<open>auto simp: SetDimWithStatus_def set_dim_def\<close>)
    next
      case 2
      show ?thesis
        by (rule inplace [OF dim_set32 [OF h(1,2) 2(1) d(1) _ 2(2)]]) (use 2 d nneg True in \<open>auto simp: SetDimWithStatus_def set_dim_def\<close>)
    next
      case 3
      show ?thesis
        by (rule inplace [OF dim_set64 [OF h(1,2) 3 _ assms(3), of "nat d"]]) (use 3 d nneg True in \<open>auto simp: SetDimWithStatus_def set_dim_def\<close>)
    next
      case 4
      let ?vals = "ds[nat d := sz]"
      have "sizes_ok p ?vals"
        using representable_range [OF h(4)] assms(2-4) set_update_subset_insert [of ds "nat d" sz]
        by (fastforce simp: sizes_ok_def list_all_iff least_size_def)
      note add = AddDims_law [OF conjunct1 [OF ClearAllButDataType_law [OF h(7)]] this, unfolded append_Nil]
      have st: "SetDimWithStatus p d sz s = (case AddDimsWithStatus p ?vals (ClearAllButDataType s) of
          None \<Rightarrow> None | Some (st, s) \<Rightarrow> if \<not> ok st then Some (st, s) else RecomputeNumElements p s)"
        using 4 d nneg h(2,3) by (auto simp: SetDimWithStatus_def)
      have sd: "set_dim p d sz s = Option.bind (AddDims p ?vals (ClearAllButDataType s)) (\<lambda>s.
          case RecomputeNumElements p s of None \<Rightarrow> None | Some (st, s) \<Rightarrow> if ok st then Some s else None)"
        using 4 d nneg h(2,3) by (auto simp: set_dim_def split: option.splits)
      show ?thesis
      proof (cases "representable p ?vals")
        case rep: True
        then obtain s' where s': "AddDims p ?vals (ClearAllButDataType s) = Some s'"
          "AddDimsWithStatus p ?vals (ClearAllButDataType s) = Some (OkStatus, s')" "holds p s' ?vals" "data_type s' = data_type s"
          using add ClearAllButDataType_law [OF h(7)] by auto
        note h' = holdsE [OF s'(3)]
        show ?thesis using recomputed_holds [OF h'(1,2,3) s'(4)] rep True s'(1,2) by (auto simp: st sd)
      next
        case False
        then show ?thesis using add by (auto simp: st sd)
      qed
    qed
  qed
qed

lemma sizes_ok_held: "holds p s ds \<Longrightarrow> set es \<subseteq> set ds \<Longrightarrow> sizes_ok p es"
  using representable_range [OF holdsE(4)] by (fastforce simp: sizes_ok_def list_all_iff least_size_def)

lemma sizes_ok_append [simp]: "sizes_ok p (xs @ ys) \<longleftrightarrow> sizes_ok p xs \<and> sizes_ok p ys"
  by (simp add: sizes_ok_def)

text \<open>Clearing a shape and adding other dimensions, which is how dimensions are inserted and removed.\<close>

lemma rebuild_law:
  assumes "holds p s ds" "sizes_ok p es"
  shows "if representable p es
    then \<exists>s'. AddDims p es (ClearAllButDataType s) = Some s' \<and> AddDimsWithStatus p es (ClearAllButDataType s) = Some (OkStatus, s') \<and>
      holds p s' es \<and> data_type s' = data_type s
    else AddDims p es (ClearAllButDataType s) = None \<and>
      (\<exists>m s'. AddDimsWithStatus p es (ClearAllButDataType s) = Some (Error INVALID_ARGUMENT m, s'))"
  using AddDims_law [OF conjunct1 [OF ClearAllButDataType_law [OF holdsE(7) [OF assms(1)]]] assms(2)]
    ClearAllButDataType_law [OF holdsE(7) [OF assms(1)], of p] by (simp split: if_splits)

lemma InsertDim_law:
  assumes "holds p s ds" "sizes_ok p [sz]"
  shows "if 0 \<le> d \<and> d \<le> int (length ds) \<and> representable p (take (nat d) ds @ sz # drop (nat d) ds)
    then \<exists>s'. InsertDim p d sz s = Some s' \<and> InsertDimWithStatus p d sz s = Some (OkStatus, s') \<and>
      holds p s' (take (nat d) ds @ sz # drop (nat d) ds) \<and> data_type s' = data_type s
    else InsertDim p d sz s = None \<and> (\<exists>c m s'. InsertDimWithStatus p d sz s = Some (Error c m, s'))"
proof -
  note h = holdsE [OF assms(1)]
  let ?es = "take (nat d) ds @ sz # drop (nat d) ds"
  have dims: "dims p s = int (length ds)" using dims_known [OF h(2)] h(6) by simp
  have ok: "sizes_ok p ?es"
    using assms(2) sizes_ok_held [OF assms(1) set_take_subset, of "nat d"] sizes_ok_held [OF assms(1) set_drop_subset, of "nat d"]
    by (simp add: sizes_ok_def)
  have bad: "\<not> representable p ?es" if "\<not> p \<and> sz < 0 \<or> \<not> int (length ds) < MaxDimensions" "0 \<le> d" "d \<le> int (length ds)"
    using that representable_range [of p ?es sz] by (auto simp: representable_def least_size_def MaxDimensions_def)
  show ?thesis
  proof (cases "d < 0 \<or> d > int (length ds) \<or> \<not> p \<and> sz < 0 \<or> \<not> int (length ds) < MaxDimensions")
    case True
    then have "InsertDim p d sz s = None" by (simp add: InsertDim_def dims)
    moreover have "\<exists>c m s'. InsertDimWithStatus p d sz s = Some (Error c m, s')"
      using True by (cases "d < 0"; cases "d > int (length ds)"; cases "\<not> p \<and> sz < 0") (auto simp: InsertDimWithStatus_def dims)
    moreover have "\<not> (0 \<le> d \<and> d \<le> int (length ds) \<and> representable p ?es)" using True bad by auto
    ultimately show ?thesis by simp
  next
    case False
    then have "InsertDim p d sz s = AddDims p ?es (ClearAllButDataType s)"
      "InsertDimWithStatus p d sz s = AddDimsWithStatus p ?es (ClearAllButDataType s)"
      using h(2,3) by (auto simp: InsertDim_def InsertDimWithStatus_def dims)
    with False rebuild_law [OF assms(1) ok] show ?thesis by (simp split: if_splits) blast
  qed
qed

lemma rebuild_recompute:
  assumes "holds p s ds" "sizes_ok p es" "representable p es"
  shows "\<exists>s' s''. AddDims p es (ClearAllButDataType s) = Some s' \<and> AddDimsWithStatus p es (ClearAllButDataType s) = Some (OkStatus, s') \<and>
    RecomputeNumElements p s' = Some (OkStatus, s'') \<and> holds p s'' es \<and> data_type s'' = data_type s"
proof -
  obtain s' where s': "AddDims p es (ClearAllButDataType s) = Some s'"
    "AddDimsWithStatus p es (ClearAllButDataType s) = Some (OkStatus, s')" "holds p s' es" "data_type s' = data_type s"
    using rebuild_law [OF assms(1,2)] assms(3) by auto
  show ?thesis using recomputed_holds [OF holdsE(1-3) [OF s'(3)] s'(4)] assms(3) s'(1,2) by auto
qed

lemma RemoveDimRange_law:
  fixes b e :: int
  assumes "holds p s ds" "0 \<le> b" "b \<le> int (length ds)" "0 \<le> e" "e \<le> int (length ds)"
  defines "es \<equiv> (if b < e then take (nat b) ds @ drop (nat e) ds else ds)"
  shows "if representable p es
    then \<exists>s'. RemoveDimRange p b e s = Some s' \<and> RemoveDimRangeWithStatus p b e s = Some (OkStatus, s') \<and> holds p s' es \<and>
      data_type s' = data_type s
    else RemoveDimRange p b e s = None \<and> (\<exists>m s'. RemoveDimRangeWithStatus p b e s = Some (Error INVALID_ARGUMENT m, s'))"
proof -
  note h = holdsE [OF assms(1)]
  have dims: "dims p s = int (length ds)" using dims_known [OF h(2)] h(6) by simp
  have rb: "range_bound p b s = b" "range_bound p e s = e" using assms(2,4) by (auto simp: range_bound_def)
  show ?thesis
  proof (cases "b < e")
    case False
    then show ?thesis using assms h(2,4) by (simp add: RemoveDimRange_def RemoveDimRangeWithStatus_def rb dims)
  next
    case True
    then have es: "es = take (nat b) ds @ drop (nat e) ds" by (simp add: es_def)
    have ok: "sizes_ok p es"
      using sizes_ok_held [OF assms(1) set_take_subset] sizes_ok_held [OF assms(1) set_drop_subset] by (simp add: es)
    have r: "RemoveDimRange p b e s = Option.bind (AddDims p es (ClearAllButDataType s)) (\<lambda>s.
        case RecomputeNumElements p s of None \<Rightarrow> None | Some (st, s) \<Rightarrow> if ok st then Some s else None)"
      "RemoveDimRangeWithStatus p b e s = (case AddDimsWithStatus p es (ClearAllButDataType s) of
        None \<Rightarrow> None | Some (st, s) \<Rightarrow> if \<not> ok st then Some (st, s) else RecomputeNumElements p s)"
      using True assms(2-5) h(2,3)
      by (simp_all add: RemoveDimRange_def RemoveDimRangeWithStatus_def rb dims es Let_def split: option.split)
    show ?thesis
    proof (cases "representable p es")
      case True
      then show ?thesis using rebuild_recompute [OF assms(1) ok True] by (auto simp: r)
    next
      case False
      then show ?thesis using rebuild_law [OF assms(1) ok] by (auto simp: r)
    qed
  qed
qed

text \<open>(C13) On well-formed shapes the operations that add, insert, set and remove dimensions do to the packed bytes what the
  list operation of the same name does to the list of dimensions, keep the data type, and succeed
  exactly when the resulting list can be represented; the variant with a \<open>CHECK\<close> and the one that
  returns a status agree.\<close>

theorem shape_edits_refine_lists:
  assumes "holds p s ds" "sizes_ok p [sz]"
  shows "(if representable p (ds @ [sz])
      then \<exists>s'. AddDim p sz s = Some s' \<and> AddDimWithStatus p sz s = Some (OkStatus, s') \<and> holds p s' (ds @ [sz]) \<and>
        data_type s' = data_type s
      else AddDim p sz s = None \<and> (\<exists>m. AddDimWithStatus p sz s = Some (Error INVALID_ARGUMENT m, s))) \<and>
    (if 0 \<le> d \<and> d \<le> int (length ds) \<and> representable p (take (nat d) ds @ sz # drop (nat d) ds)
      then \<exists>s'. InsertDim p d sz s = Some s' \<and> InsertDimWithStatus p d sz s = Some (OkStatus, s') \<and>
        holds p s' (take (nat d) ds @ sz # drop (nat d) ds) \<and> data_type s' = data_type s
      else InsertDim p d sz s = None \<and> (\<exists>c m s'. InsertDimWithStatus p d sz s = Some (Error c m, s'))) \<and>
    (if 0 \<le> d \<and> d < int (length ds) \<and> representable p (ds[nat d := sz])
      then \<exists>s'. set_dim p d sz s = Some s' \<and> SetDimWithStatus p d sz s = Some (OkStatus, s') \<and> holds p s' (ds[nat d := sz]) \<and>
        data_type s' = data_type s
      else set_dim p d sz s = None \<and> (\<exists>m s'. SetDimWithStatus p d sz s = Some (Error INVALID_ARGUMENT m, s'))) \<and>
    (\<forall>e. 0 \<le> d \<and> d < e \<and> e \<le> int (length ds) \<longrightarrow>
      (if representable p (take (nat d) ds @ drop (nat e) ds)
       then \<exists>s'. RemoveDimRange p d e s = Some s' \<and> RemoveDimRangeWithStatus p d e s = Some (OkStatus, s') \<and>
         holds p s' (take (nat d) ds @ drop (nat e) ds) \<and> data_type s' = data_type s
       else RemoveDimRange p d e s = None \<and> (\<exists>m s'. RemoveDimRangeWithStatus p d e s = Some (Error INVALID_ARGUMENT m, s'))))"
proof -
  have sz: "- (2 ^ 63) \<le> sz" "sz < 2 ^ 63" "p \<Longrightarrow> -1 \<le> sz" using assms(2) by (auto simp: sizes_ok_def split: if_splits)
  have "if representable p (take (nat d) ds @ drop (nat e) ds)
       then \<exists>s'. RemoveDimRange p d e s = Some s' \<and> RemoveDimRangeWithStatus p d e s = Some (OkStatus, s') \<and>
         holds p s' (take (nat d) ds @ drop (nat e) ds) \<and> data_type s' = data_type s
       else RemoveDimRange p d e s = None \<and> (\<exists>m s'. RemoveDimRangeWithStatus p d e s = Some (Error INVALID_ARGUMENT m, s'))"
    if "0 \<le> d" "d < e" "e \<le> int (length ds)" for e
    using RemoveDimRange_law [OF assms(1), of d e, unfolded if_P [OF that(2)]] that by simp
  then show ?thesis using AddDim_law [OF assms(1) sz] InsertDim_law [OF assms, of d] SetDim_law [OF assms(1) sz, of d] by blast
qed

text \<open>A shape of unspecified bytes, and the scalar shape.\<close>

definition raw_shape :: shape_rep where
  "raw_shape = \<lparr>sr_buf = replicate 16 7, sr_dims64 = [], sr_num_elements = 5\<rparr>"

lemma holds_TensorShape: "length (sr_buf raw) = 16 \<Longrightarrow> holds False (TensorShapeBase False raw) []"
  by (simp add: TensorShapeBase_def holds_empty)

lemma shape_edits_refine_lists_witness:
  "\<exists>s'. AddDim False 70000 (TensorShapeBase False raw_shape) = Some s' \<and> holds False s' [70000]"
proof -
  have h: "holds False (TensorShapeBase False raw_shape) []" by (rule holds_TensorShape) (simp add: raw_shape_def)
  have "representable False ([] @ [70000])" unfolding representable_snoc elements_snoc by (simp add: least_size_def)
  moreover have "sizes_ok False [70000]" by (simp add: sizes_ok_def)
  ultimately show ?thesis using shape_edits_refine_lists [OF h, of 70000 0] by auto
qed

section \<open>The ways to build a shape agree\<close>

abbreviation int64s :: "int list \<Rightarrow> bool" where
  "int64s ds \<equiv> list_all (\<lambda>d. - (2 ^ 63) \<le> d \<and> d < 2 ^ 63) ds"

lemma make_shape_loop_law:
  assumes "holds p out es" "int64s ds" "length (es @ ds) \<le> 254"
  shows "if representable p (es @ ds)
    then \<exists>s'. make_shape_loop p all ds out = Some (OkStatus, s') \<and> holds p s' (es @ ds) \<and> data_type s' = data_type out
    else \<exists>m s'. make_shape_loop p all ds out = Some (Error INVALID_ARGUMENT m, s')"
  using assms
proof (induction ds arbitrary: es out)
  case Nil
  then show ?case using holdsE(4) [OF Nil.prems(1)] by simp
next
  case (Cons d ds)
  note h = holdsE [OF Cons.prems(1)]
  have d: "- (2 ^ 63) \<le> d" "d < 2 ^ 63" "int64s ds" "length ((es @ [d]) @ ds) \<le> 254" "length es < 254" using Cons.prems by auto
  have go: ?case if loop: "make_shape_loop p all (d # ds) out = Option.bind (UnsafeAddDim p d (elements (es @ [d])) out) (make_shape_loop p all ds)"
    and r: "representable p (es @ [d])"
  proof -
    have "least_size p \<le> d" using r by (simp add: representable_snoc)
    then obtain s' where s': "UnsafeAddDim p d (elements (es @ [d])) out = Some s'" "dim_added p d (elements (es @ [d])) out s'"
      using UnsafeAddDim_law [OF h(1,2) _ _ d(2), of "elements (es @ [d])"] d(5) h(6) by auto
    have s'': "holds p s' (es @ [d])" "data_type s' = data_type out" using holds_dim_added [OF s'(2) Cons.prems(1) r] by auto
    show ?thesis unfolding loop using Cons.IH [OF s''(1) d(3,4)] s'(1) s''(2) by (simp split: if_splits)
  qed
  have stop: ?case if "\<not> representable p (es @ [d])" "\<exists>m s'. make_shape_loop p all (d # ds) out = Some (Error INVALID_ARGUMENT m, s')"
    using that representable_prefix [of p es d ds] by auto
  consider (neg) "d < 0" "\<not> (p \<and> d = -1)" | (unknown) "p" "d = -1" | (skip) "0 \<le> d" "elements es < 0" | (mul) "0 \<le> d" "0 \<le> elements es"
    by linarith
  then show ?case
  proof cases
    case neg
    then show ?thesis by (intro stop) (auto simp: representable_snoc least_size_def)
  next
    case unknown
    then have "elements (es @ [d]) = -1" by (simp add: elements_snoc)
    with unknown show ?thesis by (intro go) (use h(4) d in \<open>auto simp: representable_snoc least_size_def\<close>)
  next
    case skip
    then have e: "elements (es @ [d]) = -1" by (simp add: elements_snoc)
    moreover have "representable p (es @ [d])" using h(4) d skip e by (auto simp: representable_snoc least_size_def)
    ultimately show ?thesis using skip h(5) by (intro go) auto
  next
    case mul
    then have e: "elements (es @ [d]) = elements es * d" by (simp add: elements_snoc)
    then have r: "representable p (es @ [d]) \<longleftrightarrow> elements es * d < 2 ^ 63"
      using h(4) d mul by (auto simp: representable_snoc least_size_def)
    note m = MultiplyWithoutOverflow_exact [OF mul(2) representable_elements [OF h(4)] mul(1) d(2)]
    have nl: "(elements es * d < 0) = False" using mul by (simp add: mult_less_0_iff)
    show ?thesis
    proof (cases "elements es * d < 2 ^ 63")
      case True
      then show ?thesis using m r mul h(5) by (intro go) (auto simp: Let_def e nl)
    next
      case False
      then show ?thesis using m r mul h(5) by (intro stop) (auto simp: Let_def)
    qed
  qed
qed

lemma MakeShapeHelper_law:
  assumes "length (sr_buf raw) = 16" "int64s ds"
  shows "if representable p ds
    then \<exists>s'. MakeShapeHelper p ds (int (length ds)) raw = Some (OkStatus, s') \<and> holds p s' ds
    else \<exists>m s'. MakeShapeHelper p ds (int (length ds)) raw = Some (Error INVALID_ARGUMENT m, s')"
proof (cases "length ds \<le> 254")
  case True
  then show ?thesis
    using make_shape_loop_law [OF conjunct1 [OF Clear_law [OF assms(1)]] assms(2), of p ds]
    by (auto simp: MakeShapeHelper_def MaxDimensions_def Let_def split: if_splits)
next
  case False
  then show ?thesis by (auto simp: MakeShapeHelper_def MaxDimensions_def Let_def representable_def)
qed

lemma valid_loop_law:
  assumes "representable p es" "int64s ds" "length (es @ ds) \<le> 254"
  shows "valid_loop p (elements es) ds \<longleftrightarrow> representable p (es @ ds)"
  using assms
proof (induction ds arbitrary: es)
  case (Cons d ds)
  have d: "- (2 ^ 63) \<le> d" "d < 2 ^ 63" "int64s ds" "length ((es @ [d]) @ ds) \<le> 254" using Cons.prems by auto
  have IH: "representable p (es @ [d]) \<Longrightarrow> valid_loop p (elements (es @ [d])) ds \<longleftrightarrow> representable p (es @ d # ds)"
    using Cons.IH [OF _ d(3,4)] by simp
  have no: "\<not> representable p (es @ [d]) \<Longrightarrow> \<not> representable p (es @ d # ds)" using representable_prefix by blast
  have snoc: "representable p (es @ [d]) \<longleftrightarrow> least_size p \<le> d \<and> elements (es @ [d]) < 2 ^ 63"
    using Cons.prems d by (auto simp: representable_snoc)
  consider (neg) "d < least_size p" | (unknown) "p" "d = -1" | (skip) "0 \<le> d" "elements es < 0" | (mul) "0 \<le> d" "0 \<le> elements es"
    by (cases p; cases "d < -1"; cases "d < 0"; cases "elements es < 0") (auto simp: least_size_def)
  then show ?case
  proof cases
    case neg
    then show ?thesis using no snoc by (simp add: least_size_def split: if_splits)
  next
    case unknown
    then have "elements (es @ [d]) = -1" by (simp add: elements_snoc)
    then show ?thesis using unknown IH snoc by (simp add: least_size_def)
  next
    case skip
    then have "elements (es @ [d]) = -1" by (simp add: elements_snoc)
    moreover have "p" using skip(2) representable_nonneg [of es] Cons.prems(1) by (cases p) auto
    moreover have "elements es = -1" using skip(2) by (simp add: elements_neg) (simp add: elements_def)
    ultimately show ?thesis using skip IH snoc by (simp add: least_size_def)
  next
    case mul
    then have e: "elements (es @ [d]) = elements es * d" by (simp add: elements_snoc)
    note m = MultiplyWithoutOverflow_exact [OF mul(2) representable_elements [OF Cons.prems(1)] mul(1) d(2)]
    have nl: "(elements es * d < 0) = False" using mul by (simp add: mult_less_0_iff)
    show ?thesis
      using m mul IH no snoc by (cases "elements es * d < 2 ^ 63") (auto simp: Let_def e nl least_size_def)
  qed
qed simp

lemma valid_status_loop_ok: "ok (valid_status_loop p text n ds) \<longleftrightarrow> valid_loop p n ds"
  by (induction p n ds rule: valid_loop.induct) (auto simp: Let_def)

text \<open>The extra condition of \<open>BuildTensorShapeBase\<close> on a message: the product without the empty dimensions fits.\<close>

definition nonzero_product :: "int list \<Rightarrow> int" where
  "nonzero_product ds = prod_list (filter (\<lambda>d. d > 0) ds)"

lemma nonzero_product_pos: "1 \<le> nonzero_product ds"
proof (induction ds)
  case (Cons d ds)
  then have "1 \<le> prod_list (filter (\<lambda>d. d > 0) ds)" by (simp add: nonzero_product_def)
  moreover have "1 \<le> d * prod_list (filter (\<lambda>d. d > 0) ds)" if "0 < d" using that calculation
    using mult_mono [of 1 d 1 "prod_list (filter (\<lambda>d. d > 0) ds)"] by simp
  ultimately show ?case by (simp add: nonzero_product_def)
qed (simp add: nonzero_product_def)

lemma nonzero_product_Cons: "nonzero_product (d # ds) = (if 0 < d then d * nonzero_product ds else nonzero_product ds)"
  by (simp add: nonzero_product_def)

lemma build_proto_loop_law:
  assumes "holds p out es" "sizes_ok p ds" "0 < nz" "nz < 2 ^ 63"
  shows "if representable p (es @ ds) \<and> nz * nonzero_product ds < 2 ^ 63
    then \<exists>s'. build_proto_loop p nz ds out = Some (OkStatus, s') \<and> holds p s' (es @ ds) \<and> data_type s' = data_type out
    else \<exists>m s'. build_proto_loop p nz ds out = Some (Error INVALID_ARGUMENT m, s')"
  using assms
proof (induction ds arbitrary: es out nz)
  case Nil
  then show ?case using holdsE(4) [OF Nil.prems(1)] by (simp add: nonzero_product_def)
next
  case (Cons d ds)
  have d: "- (2 ^ 63) \<le> d" "d < 2 ^ 63" "p \<Longrightarrow> -1 \<le> d" "sizes_ok p ds"
    using Cons.prems(2) by (auto simp: sizes_ok_def split: if_splits)
  note law = AddDim_law [OF Cons.prems(1) d(1-3)]
  show ?case
  proof (cases "representable p (es @ [d])")
    case False
    then show ?thesis using law representable_prefix [of p es d ds] by auto
  next
    case True
    then obtain s' where s': "AddDimWithStatus p d out = Some (OkStatus, s')" "holds p s' (es @ [d])" "data_type s' = data_type out"
      using law by auto
    show ?thesis
    proof (cases "0 < d")
      case False
      then show ?thesis using Cons.IH [OF s'(2) d(4) Cons.prems(3,4)] s' by (auto simp: nonzero_product_Cons split: if_splits)
    next
      case pos: True
      note m = MultiplyWithoutOverflow_exact [of nz d] Cons.prems(3,4) pos d(2)
      have np: "nz * nonzero_product (d # ds) = nz * d * nonzero_product ds" using pos by (simp add: nonzero_product_Cons)
      have gt: "nz * d \<le> nz * d * nonzero_product ds"
        using mult_left_mono [OF nonzero_product_pos [of ds], of "nz * d"] pos Cons.prems(3) by simp
      have p0: "0 < nz * d" using pos Cons.prems(3) by simp
      show ?thesis
      proof (cases "nz * d < 2 ^ 63")
        case True
        then have "MultiplyWithoutOverflow nz d = nz * d" using m by simp
        with Cons.IH [OF s'(2) d(4) p0 True] s' pos p0 show ?thesis by (auto simp: np Let_def not_less [symmetric] less_asym split: if_splits)
      next
        case False
        then have "MultiplyWithoutOverflow nz d < 0" using m by simp
        with False s' pos gt show ?thesis by (auto simp: np Let_def)
      qed
    qed
  qed
qed

text \<open>Every way to build a shape accepts the same lists of sizes: at most 254 dimensions, none negative (-1 in a partial
  shape), and no prefix with 2^63 elements or more.  The four fast paths of the constructor give
  what adding the dimensions one by one gives, and the two tests for validity agree with the
  constructors; only \<open>BuildTensorShapeBase\<close> on a message also asks that the product without the empty
  dimensions fits.\<close>

theorem shape_builders_agree:
  assumes "length (sr_buf raw) = 16" "sizes_ok p ds"
  defines "proto \<equiv> \<lparr>sp_dim = ds, sp_unknown_rank = False\<rparr>"
  shows "if representable p ds
    then (\<exists>s. BuildTensorShapeBase p ds raw = Some (OkStatus, s) \<and> holds p s ds \<and> data_type s = DT_INVALID) \<and>
      (\<exists>s. TensorShapeBase_dims p ds raw = Some s \<and> holds p s ds) \<and>
      (\<exists>s. MakeShapeHelper p ds (int (length ds)) raw = Some (OkStatus, s) \<and> holds p s ds) \<and>
      (\<exists>s. TensorShapeBase_proto p proto raw = Some s \<and> holds p s ds) \<and>
      proto_IsValid p proto \<and> ok (IsValidShape p proto) \<and>
      (if nonzero_product ds < 2 ^ 63 then \<exists>s. BuildTensorShapeBase_proto p proto raw = Some (OkStatus, s) \<and> holds p s ds
       else \<exists>m s. BuildTensorShapeBase_proto p proto raw = Some (Error INVALID_ARGUMENT m, s))
    else (\<exists>m s. BuildTensorShapeBase p ds raw = Some (Error INVALID_ARGUMENT m, s)) \<and> TensorShapeBase_dims p ds raw = None \<and>
      (\<exists>m s. MakeShapeHelper p ds (int (length ds)) raw = Some (Error INVALID_ARGUMENT m, s)) \<and>
      TensorShapeBase_proto p proto raw = None \<and> \<not> proto_IsValid p proto \<and> \<not> ok (IsValidShape p proto) \<and>
      (\<exists>m s. BuildTensorShapeBase_proto p proto raw = Some (Error INVALID_ARGUMENT m, s))"
proof -
  let ?s = "set_data_type DT_INVALID (set_tag REP16 raw)" and ?e = "set_num_elements 1 (set_ndims_byte 0 (set_data_type DT_INVALID (set_tag REP16 raw)))"
  have s: "length (sr_buf ?s) = 16" "tag ?s = REP16" "data_type ?s = DT_INVALID" using assms(1) by simp_all
  have e: "holds p ?e []" by (rule holds_empty [OF s(1,2)])
  have i64: "int64s ds" using assms(2) by (auto simp: sizes_ok_def list_all_iff split: if_splits)
  have valid: "proto_IsValid p proto \<longleftrightarrow> representable p ds" "ok (IsValidShape p proto) \<longleftrightarrow> representable p ds"
    using valid_loop_law [of p "[]" ds] i64
    by (auto simp: proto_IsValid_def IsValidShape_def proto_def MaxDimensions_def valid_status_loop_ok representable_def)
  have init: "BuildTensorShapeBase p ds raw = InitDims p ds ?s"
    "TensorShapeBase_dims p ds raw = (case InitDims p ds ?s of None \<Rightarrow> None | Some (st, s) \<Rightarrow> if ok st then Some s else None)"
    by (simp_all add: BuildTensorShapeBase_def TensorShapeBase_dims_def)
  have prot: "TensorShapeBase_proto p proto raw = AddDims p ds ?e" "BuildTensorShapeBase_proto p proto raw = build_proto_loop p 1 ds ?e"
    by (simp_all add: TensorShapeBase_proto_def BuildTensorShapeBase_proto_def proto_def Let_def)
  note laws = InitDims_law [OF s(1,2) assms(2)] AddDims_law [OF e assms(2)] MakeShapeHelper_law [OF assms(1) i64, of p]
    build_proto_loop_law [OF e assms(2), of 1]
  show ?thesis
    using laws s(3) unfolding init prot valid by (cases "representable p ds") auto
qed

lemma shape_builders_agree_witness:
  "(\<exists>s. BuildTensorShapeBase False [3, 0, 65535] raw_shape = Some (OkStatus, s) \<and> holds False s [3, 0, 65535]) \<and>
   (\<exists>m s. BuildTensorShapeBase_proto False \<lparr>sp_dim = [0, 2 ^ 40, 2 ^ 40], sp_unknown_rank = False\<rparr> raw_shape =
      Some (Error INVALID_ARGUMENT m, s))"
proof -
  have "representable False [3, 0, 65535]" "representable False [0, 2 ^ 40, 2 ^ 40]" by code_simp+
  moreover have "sizes_ok False [3, 0, 65535]" "sizes_ok False [0, 2 ^ 40, 2 ^ 40]" "length (sr_buf raw_shape) = 16"
    "\<not> nonzero_product [0, 2 ^ 40, 2 ^ 40] < 2 ^ 63"
    by (simp_all add: sizes_ok_def raw_shape_def nonzero_product_def)
  ultimately show ?thesis
    using shape_builders_agree [of raw_shape False "[3, 0, 65535]"] shape_builders_agree [of raw_shape False "[0, 2 ^ 40, 2 ^ 40]"] by auto
qed

section \<open>Unknown ranks\<close>




section \<open>Comparisons, and the conversion between complete and partial shapes\<close>

lemma held_nth: "holds p s ds \<Longrightarrow> i < length ds \<Longrightarrow> dim_size p s i = ds ! i"
  using holdsE(3,6) [of p s ds] shape_list_nth [of i s p] by auto

lemma held_dims:
  assumes "holds p s ds"
  shows "dims p s = int (length ds)"
  using dims_known [OF holdsE(2) [OF assms]] holdsE(6) [OF assms] by simp

lemma upt_all_nth: "length xs = length ys \<Longrightarrow> list_all (\<lambda>i. xs ! i = ys ! i) [0..<length xs] \<longleftrightarrow> xs = ys"
  using nth_equalityI [of xs ys] by (auto simp: list_all_iff)

lemma IsSameSize_iff:
  assumes "holds False a xs" "holds False b ys"
  shows "IsSameSize a b \<longleftrightarrow> xs = ys"
proof -
  have "list_all (\<lambda>i. dim_size False a i = dim_size False b i) [0..<length xs] \<longleftrightarrow> list_all (\<lambda>i. xs ! i = ys ! i) [0..<length xs]"
    if "length ys = length xs"
    using that by (auto simp: list_all_iff held_nth [OF assms(1)] held_nth [OF assms(2)])
  then show ?thesis
    unfolding IsSameSize_def held_dims [OF assms(1)] held_dims [OF assms(2)] using upt_all_nth [of xs ys]
    by (metis nat_int of_nat_eq_iff)
qed

text \<open>Two partial shapes are compatible when they have a common complete instance.\<close>

definition dim_instance :: "int \<Rightarrow> int \<Rightarrow> bool" where
  "dim_instance d x \<longleftrightarrow> 0 \<le> x \<and> (d = -1 \<or> d = x)"

lemma held_least: "holds True s ds \<Longrightarrow> d \<in> set ds \<Longrightarrow> -1 \<le> d"
  using representable_range [OF holdsE(4)] by (fastforce simp: least_size_def)

lemma IsCompatibleWith_nth:
  assumes "holds True s xs" "holds True t ys"
  shows "IsCompatibleWith t s \<longleftrightarrow> length xs = length ys \<and> (\<forall>i < length xs. \<not> (xs ! i \<ge> 0 \<and> ys ! i \<ge> 0 \<and> xs ! i \<noteq> ys ! i))"
  using assms holdsE(2) [OF assms(1)] holdsE(2) [OF assms(2)]
  by (auto simp: IsCompatibleWith_def held_dims list_all_iff held_nth [OF assms(1)] held_nth [OF assms(2)])

lemma IsCompatibleWith_iff:
  assumes "holds True s xs" "holds True t ys"
  shows "IsCompatibleWith t s \<longleftrightarrow> (\<exists>zs. list_all2 dim_instance xs zs \<and> list_all2 dim_instance ys zs)"
proof -
  note c = IsCompatibleWith_nth [OF assms]
  show ?thesis
  proof
    assume l: "IsCompatibleWith t s"
    define zs where "zs = map (\<lambda>i. if xs ! i \<ge> 0 then xs ! i else if ys ! i \<ge> 0 then ys ! i else 0) [0..<length xs]"
    have neg: "xs ! i = -1 \<or> xs ! i \<ge> 0" "ys ! i = -1 \<or> ys ! i \<ge> 0" if "i < length xs" for i
      using that l c held_least [OF assms(1), of "xs ! i"] held_least [OF assms(2), of "ys ! i"] by fastforce+
    have "list_all2 dim_instance xs zs" "list_all2 dim_instance ys zs"
      using l neg unfolding c by (force simp: list_all2_conv_all_nth zs_def dim_instance_def)+
    then show "\<exists>zs. list_all2 dim_instance xs zs \<and> list_all2 dim_instance ys zs" by blast
  next
    assume "\<exists>zs. list_all2 dim_instance xs zs \<and> list_all2 dim_instance ys zs"
    then show "IsCompatibleWith t s" unfolding c by (force simp: list_all2_conv_all_nth dim_instance_def)
  qed
qed

text \<open>Merging gives a shape whose instances are the common instances of the two.\<close>

definition merged :: "int \<Rightarrow> int \<Rightarrow> int" where
  "merged a b = (if 0 \<le> a then a else b)"

definition clash :: "int \<Rightarrow> int \<Rightarrow> bool" where
  "clash a b \<longleftrightarrow> a \<ge> 0 \<and> b \<ge> 0 \<and> a \<noteq> b"

lemma merge_loop_Cons:
  "merge_loop text ((a, b) # ps) r =
     (if clash a b then Some (Error INVALID_ARGUMENT (''PartialTensorShape: Incompatible shapes during merge: '' @ text), r)
      else (case AddDimWithStatus True (merged a b) r of
           None \<Rightarrow> None
         | Some (st, result) \<Rightarrow> if \<not> ok st then Some (st, result) else merge_loop text ps result))"
  by (simp add: clash_def merged_def)

lemma merge_loop_law:
  assumes "holds True r es" "\<forall>(a, b) \<in> set ps. -1 \<le> a \<and> a < 2 ^ 63 \<and> -1 \<le> b \<and> b < 2 ^ 63"
  shows "if list_all (\<lambda>(a, b). \<not> clash a b) ps \<and> representable True (es @ map (\<lambda>(a, b). merged a b) ps)
    then \<exists>r'. merge_loop text ps r = Some (OkStatus, r') \<and> holds True r' (es @ map (\<lambda>(a, b). merged a b) ps)
    else \<exists>m r'. merge_loop text ps r = Some (Error INVALID_ARGUMENT m, r')"
  using assms
proof (induction ps arbitrary: r es)
  case Nil
  then show ?case using holdsE(4) [OF Nil.prems(1)] by simp
next
  case (Cons ab ps)
  obtain a b where ab: "ab = (a, b)" by (cases ab)
  have m: "- (2 ^ 63) \<le> merged a b" "merged a b < 2 ^ 63" "-1 \<le> merged a b" using Cons.prems(2) by (auto simp: ab merged_def)
  note law = AddDim_law [OF Cons.prems(1) m(1,2) m(3)]
  show ?case
  proof (cases "\<not> clash a b \<and> representable True (es @ [merged a b])")
    case True
    then obtain r' where r': "AddDimWithStatus True (merged a b) r = Some (OkStatus, r')" "holds True r' (es @ [merged a b])"
      using law by auto
    have "merge_loop text (ab # ps) r = merge_loop text ps r'" using True r'(1) by (simp add: ab merge_loop_Cons del: merge_loop.simps)
    then show ?thesis using Cons.IH [OF r'(2)] Cons.prems(2) True by (auto simp: ab simp del: merge_loop.simps split: if_splits)
  next
    case False
    then have "\<exists>m r'. merge_loop text (ab # ps) r = Some (Error INVALID_ARGUMENT m, r')"
      using law by (auto simp: ab merge_loop_Cons simp del: merge_loop.simps)
    moreover have "\<not> (list_all (\<lambda>(a, b). \<not> clash a b) (ab # ps) \<and>
        representable True (es @ map (\<lambda>(a, b). merged a b) (ab # ps)))"
      using False representable_prefix [of True es "merged a b" "map (\<lambda>(a, b). merged a b) ps"] by (auto simp: ab)
    ultimately show ?thesis by presburger
  qed
qed

lemma merged_instance:
  "-1 \<le> a \<Longrightarrow> -1 \<le> b \<Longrightarrow> \<not> clash a b \<Longrightarrow>
   dim_instance (merged a b) x \<longleftrightarrow> dim_instance a x \<and> dim_instance b x"
  by (auto simp: dim_instance_def clash_def merged_def)

lemma merged_instances:
  assumes "length xs = length ys" "list_all (\<lambda>(a, b). \<not> clash a b) (zip xs ys)"
    "\<forall>(a, b) \<in> set (zip xs ys). -1 \<le> a \<and> a < 2 ^ 63 \<and> -1 \<le> b \<and> b < 2 ^ 63"
  shows "list_all2 dim_instance (map2 merged xs ys) zs \<longleftrightarrow> list_all2 dim_instance xs zs \<and> list_all2 dim_instance ys zs"
proof -
  have "dim_instance (merged (xs ! i) (ys ! i)) (zs ! i) \<longleftrightarrow> dim_instance (xs ! i) (zs ! i) \<and> dim_instance (ys ! i) (zs ! i)"
    if "i < length xs" for i
  proof (rule merged_instance)
    have "(xs ! i, ys ! i) \<in> set (zip xs ys)" using that assms(1) by (auto simp: set_zip)
    then show "-1 \<le> xs ! i" "-1 \<le> ys ! i" "\<not> clash (xs ! i) (ys ! i)"
      using assms(2,3) by (auto simp: list_all_iff)
  qed
  then show ?thesis using assms(1) by (auto simp: list_all2_conv_all_nth)
qed

text \<open>(C35) \<open>MergeWith\<close> of two partial shapes of known rank succeeds exactly when they are compatible and the list of merged sizes,
  each the known one of the two, is representable: at most 254 dimensions and fewer than \<open>2 ^ 63\<close>
  elements.  The result then holds these sizes, and its complete instances are exactly the common
  instances of the two shapes.\<close>

theorem merge_is_meet:
  assumes "holds True s xs" "holds True t ys" "length (sr_buf r) = 16"
  shows "\<exists>st r'. MergeWith t False r s = Some (st, r') \<and>
    (ok st \<longleftrightarrow> IsCompatibleWith t s \<and> representable True (map2 merged xs ys)) \<and>
    (ok st \<longrightarrow> holds True r' (map2 merged xs ys) \<and>
      (\<forall>zs. list_all2 dim_instance (map2 merged xs ys) zs \<longleftrightarrow> list_all2 dim_instance xs zs \<and> list_all2 dim_instance ys zs))"
proof -
  note hs = holdsE [OF assms(1)] and ht = holdsE [OF assms(2)]
  have c: "IsCompatibleWith t s \<longleftrightarrow> length xs = length ys \<and> list_all (\<lambda>(a, b). \<not> clash a b) (zip xs ys)"
    unfolding IsCompatibleWith_nth [OF assms(1,2)] by (rule conj_cong) (auto simp: list_all_length clash_def)
  show ?thesis
  proof (cases "length xs = length ys")
    case False
    then show ?thesis using hs(2) ht(2)
      by (auto simp: MergeWith_def held_dims [OF assms(1)] held_dims [OF assms(2)] c)
  next
    case True
    let ?ds = "map (\<lambda>(a, b). merged a b) (zip xs ys)"
    have zip: "map (\<lambda>i. (dim_size True s i, dim_size True t i)) [0..<length xs] = zip xs ys"
      using True by (intro nth_equalityI) (auto simp: held_nth [OF assms(1)] held_nth [OF assms(2)])
    have eq: "MergeWith t False r s = merge_loop (DebugString s @ '' vs. '' @ DebugString t) (zip xs ys) (Clear r)"
      using hs(2) ht(2) True zip by (simp add: MergeWith_def held_dims [OF assms(1)] held_dims [OF assms(2)])
    have range: "\<forall>(a, b) \<in> set (zip xs ys). -1 \<le> a \<and> a < 2 ^ 63 \<and> -1 \<le> b \<and> b < 2 ^ 63"
      using representable_range [OF hs(4)] representable_range [OF ht(4)]
      by (auto simp: least_size_def dest: set_zip_leftD set_zip_rightD)
    note law = merge_loop_law [OF conjunct1 [OF Clear_law [OF assms(3)]] range, of "DebugString s @ '' vs. '' @ DebugString t", unfolded append_Nil]
    note inst = merged_instances [OF True _ range]
    show ?thesis
    proof (cases "list_all (\<lambda>(a, b). \<not> clash a b) (zip xs ys) \<and> representable True ?ds")
      case True
      then obtain r' where "MergeWith t False r s = Some (OkStatus, r')" "holds True r' ?ds" using law eq by auto
      then show ?thesis using inst True c \<open>length xs = length ys\<close> by auto
    next
      case False
      then obtain m r' where "MergeWith t False r s = Some (Error INVALID_ARGUMENT m, r')" using law eq by auto
      then show ?thesis using False c by auto
    qed
  qed
qed

lemma merge_is_meet_witness:
  "(\<exists>s t r'. holds True s [-1, 3] \<and> holds True t [2, -1] \<and> MergeWith t False raw_shape s = Some (OkStatus, r') \<and> holds True r' [2, 3]) \<and>
   (\<exists>s t st r'. holds True s [2 ^ 40, -1] \<and> holds True t [-1, 2 ^ 40] \<and> IsCompatibleWith t s \<and>
      MergeWith t False raw_shape s = Some (st, r') \<and> \<not> ok st)"
proof -
  have raw: "length (sr_buf raw_shape) = 16" by (simp add: raw_shape_def)
  have mk: "\<exists>s. holds True s ds" if "representable True ds" for ds
    using that representable_range [OF that] MakeShapeHelper_law [OF raw, of ds True] by (fastforce simp: list_all_iff least_size_def)
  have rep: "representable True [-1, 3]" "representable True [2, -1]" "representable True [2, 3]"
    "representable True [2 ^ 40, -1]" "representable True [-1, 2 ^ 40]" "\<not> representable True [2 ^ 40, 2 ^ 40]"
    by code_simp+
  obtain s t u v where h: "holds True s [-1, 3]" "holds True t [2, -1]" "holds True u [2 ^ 40, -1]" "holds True v [-1, 2 ^ 40]"
    using rep mk by meson
  have m: "map2 merged [-1, 3] [2, -1] = [2, 3]" "map2 merged [2 ^ 40, -1] [-1, 2 ^ 40] = [2 ^ 40, 2 ^ 40]"
    by (simp_all add: merged_def)
  have "IsCompatibleWith t s" "IsCompatibleWith v u"
    unfolding IsCompatibleWith_iff [OF h(1,2)] IsCompatibleWith_iff [OF h(3,4)]
    by (rule exI [of _ "[2, 3]"], simp add: dim_instance_def) (rule exI [of _ "[2 ^ 40, 2 ^ 40]"], simp add: dim_instance_def)
  then show ?thesis
    using merge_is_meet [OF h(1,2) raw] merge_is_meet [OF h(3,4) raw] h rep(3,6) unfolding m by (metis ok_iff)
qed

text \<open>(C39) \<open>RemoveLastDimsWithStatus\<close> refuses every number of dimensions below the rank, which \<open>RemoveLastDims\<close> accepts: its guard is the
  wrong way round.  For a number above the rank the negative start is read as a position from the
  end, and the call succeeds.\<close>

theorem remove_last_dims_guard:
  assumes "holds p s ds" "0 < n" "n < int (length ds)"
  shows "\<exists>m. RemoveLastDimsWithStatus p n s = Some (Error INTERNAL m, s) \<and>
    (representable p (take (length ds - nat n) ds) \<longrightarrow>
      (\<exists>s'. RemoveLastDims p n s = Some s' \<and> holds p s' (take (length ds - nat n) ds)))"
proof -
  have "RemoveLastDims p n s = RemoveDimRange p (int (length ds) - n) (int (length ds)) s"
    using assms by (simp add: RemoveLastDims_def held_dims [OF assms(1)])
  moreover have "nat (int (length ds) - n) = length ds - nat n" using assms(2,3) by auto
  ultimately have "representable p (take (length ds - nat n) ds) \<longrightarrow>
      (\<exists>s'. RemoveLastDims p n s = Some s' \<and> holds p s' (take (length ds - nat n) ds))"
    using RemoveDimRange_law [OF assms(1), of "int (length ds) - n" "int (length ds)"] assms(2,3) by (auto split: if_splits)
  then show ?thesis using assms by (simp add: RemoveLastDimsWithStatus_def held_dims [OF assms(1)])
qed

lemma remove_last_dims_guard_witness:
  "\<exists>s s' m. holds False s [2, 3] \<and> RemoveLastDimsWithStatus False 1 s = Some (Error INTERNAL m, s) \<and>
     RemoveLastDims False 1 s = Some s' \<and> holds False s' [2]"
proof -
  have raw: "length (sr_buf raw_shape) = 16" by (simp add: raw_shape_def)
  have "representable False [2, 3]" "representable False [2]" by code_simp+
  then obtain s where "holds False s [2, 3]"
    using MakeShapeHelper_law [OF raw, of "[2, 3]" False] by auto
  then show ?thesis using remove_last_dims_guard [of False s "[2, 3]" 1] \<open>representable False [2]\<close> by auto
qed

lemma remove_more_than_all:
  assumes "holds p s ds" "j \<le> length ds" "representable p (take (length ds - j) ds)"
  shows "\<exists>s'. RemoveLastDimsWithStatus p (int (length ds) + 1 + int j) s = Some (OkStatus, s') \<and> holds p s' (take (length ds - j) ds)"
proof -
  note h = holdsE [OF assms(1)]
  let ?b = "int (length ds) - int j"
  have len: "length ds \<le> 254" using h(4) by (simp add: representable_def)
  have "cast_int (dims p s - (int (length ds) + 1 + int j)) = - (1 + int j)"
    using assms(2) len by (subst cast_int_id) (auto simp: held_dims [OF assms(1)])
  then have "RemoveLastDimsWithStatus p (int (length ds) + 1 + int j) s = RemoveDimRangeWithStatus p (- (1 + int j)) (int (length ds)) s"
    by (simp add: RemoveLastDimsWithStatus_def held_dims [OF assms(1)])
  also have "\<dots> = RemoveDimRangeWithStatus p ?b (int (length ds)) s"
    using assms(2) by (simp add: RemoveDimRangeWithStatus_def range_bound_def held_dims [OF assms(1)] Let_def)
  finally have eq: "RemoveLastDimsWithStatus p (int (length ds) + 1 + int j) s = RemoveDimRangeWithStatus p ?b (int (length ds)) s" .
  have "nat ?b = length ds - j" by simp
  then have "(if ?b < int (length ds) then take (nat ?b) ds @ drop (nat (int (length ds))) ds else ds) = take (length ds - j) ds"
    by simp
  from RemoveDimRange_law [OF assms(1), of ?b "int (length ds)", unfolded this] assms(2,3) eq show ?thesis by auto
qed

text \<open>The methods of partial shapes that return a status extend the shape they are called on and leave \<open>out\<close> as it was.\<close>

lemma concatenate_changes_this:
  assumes "holds True s ds" "sizes_ok True [sz]" "representable True (ds @ [sz])"
  shows "\<exists>s'. ConcatenateWithStatus_dim sz s out = Some (OkStatus, s', out) \<and> holds True s' (ds @ [sz])"
  using AddDim_law [OF assms(1), of sz] assms(2,3) by (auto simp: ConcatenateWithStatus_dim_def sizes_ok_def)

end
