(* ===== verification/Tensor_Slice.thy ===== *)
theory Tensor_Slice
  imports Tensor_Shape
begin

text \<open>
  Slices of tensors: \<open>core/framework/tensor_slice.cc\<close> and \<open>tensor_slice.h\<close>.  A slice gives a start and
  a length for every dimension; start 0 with length -1 (\<open>kFullExtent\<close>) means the whole dimension.
  A checkpoint stores a tensor as disjoint slices, and a reader puts the slice it wants together
  from them.

  A slice stands for the set of index vectors it contains.  The theory shows that the operations on
  slices are the operations on these sets: \<open>Intersect\<close> is the intersection, \<open>UpdateToCover\<close> the
  least slice around two, \<open>ComputeRelative\<close> the change of origin, and that the shape of a slice
  has as many elements as the slice has index vectors.
\<close>

section \<open>The data\<close>

record tensor_slice =
  ts_starts :: "int list"
  ts_lengths :: "int list"

definition kFullExtent :: int where "kFullExtent = -1"

text \<open>\<open>int64_t\<close> arithmetic, which wraps on the machines TensorFlow runs on.\<close>

definition wrap64 :: "int \<Rightarrow> int" where
  "wrap64 x = signed_take_bit 63 x"

definition slice_dims :: "tensor_slice \<Rightarrow> nat" where "slice_dims s = length (ts_starts s)"

definition start :: "tensor_slice \<Rightarrow> nat \<Rightarrow> int" where "start s d = ts_starts s ! d"
definition slength :: "tensor_slice \<Rightarrow> nat \<Rightarrow> int" where "slength s d = ts_lengths s ! d"

definition send :: "tensor_slice \<Rightarrow> nat \<Rightarrow> int" where
  "send s d = wrap64 (start s d + slength s d)"

definition set_start :: "nat \<Rightarrow> int \<Rightarrow> tensor_slice \<Rightarrow> tensor_slice" where
  "set_start d x s = s\<lparr>ts_starts := (ts_starts s)[d := x]\<rparr>"

definition set_length :: "nat \<Rightarrow> int \<Rightarrow> tensor_slice \<Rightarrow> tensor_slice" where
  "set_length d x s = s\<lparr>ts_lengths := (ts_lengths s)[d := x]\<rparr>"

definition IsFullAt :: "tensor_slice \<Rightarrow> nat \<Rightarrow> bool" where
  "IsFullAt s d \<longleftrightarrow> ts_lengths s ! d = kFullExtent \<and> ts_starts s ! d = 0"

definition IsFull :: "tensor_slice \<Rightarrow> bool" where
  "IsFull s \<longleftrightarrow> list_all (IsFullAt s) [0..<slice_dims s]"

definition slice_Clear :: "tensor_slice \<Rightarrow> tensor_slice" where
  "slice_Clear s = s\<lparr>ts_starts := [], ts_lengths := []\<rparr>"

text \<open>A negative \<open>dim\<close> leaves the loop at once.\<close>

definition SetFullSlice :: "int \<Rightarrow> tensor_slice \<Rightarrow> tensor_slice" where
  "SetFullSlice dim s = (slice_Clear s)\<lparr>ts_starts := replicate (nat dim) 0, ts_lengths := replicate (nat dim) kFullExtent\<rparr>"

definition TensorSlice :: tensor_slice where
  "TensorSlice = \<lparr>ts_starts = [], ts_lengths = []\<rparr>"

definition TensorSlice_dim :: "int \<Rightarrow> tensor_slice" where
  "TensorSlice_dim dim = SetFullSlice dim TensorSlice"

definition TensorSlice_extents :: "(int \<times> int) list \<Rightarrow> tensor_slice" where
  "TensorSlice_extents es = \<lparr>ts_starts = map fst es, ts_lengths = map snd es\<rparr>"

definition slice_Extend :: "nat \<Rightarrow> tensor_slice \<Rightarrow> tensor_slice" where
  "slice_Extend dim s =
     (let old_dim = slice_dims s in
      s\<lparr>ts_starts := take dim (ts_starts s) @ replicate (dim - old_dim) 0,
        ts_lengths := take dim (ts_lengths s) @ replicate (dim - old_dim) kFullExtent\<rparr>)"

section \<open>Protocol buffers\<close>

text \<open>The message \<open>TensorSliceProto\<close>: an extent has a start and a length that may be missing.\<close>

record extent_proto =
  ex_start :: int
  ex_length :: "int option"

type_synonym slice_proto = "extent_proto list"

definition HasExtentLength :: "extent_proto \<Rightarrow> bool" where
  "HasExtentLength e \<longleftrightarrow> ex_length e \<noteq> None"

definition GetExtentLength :: "extent_proto \<Rightarrow> int" where
  "GetExtentLength e = (case ex_length e of None \<Rightarrow> -1 | Some l \<Rightarrow> l)"

definition TensorSlice_proto :: "slice_proto \<Rightarrow> tensor_slice" where
  "TensorSlice_proto proto = \<lparr>ts_starts = map ex_start proto, ts_lengths = map GetExtentLength proto\<rparr>"

text \<open>\<open>text\<close> is the debug text of an extent, which comes from the protocol buffer library.\<close>

fun build_slice_loop :: "(extent_proto \<Rightarrow> string) \<Rightarrow> slice_proto \<Rightarrow> tensor_slice \<Rightarrow> status \<times> tensor_slice" where
  "build_slice_loop text [] out = (OkStatus, out)"
| "build_slice_loop text (e # es) out =
     (let l = GetExtentLength e in
      if (ex_start e \<noteq> 0 \<or> l \<noteq> kFullExtent) \<and> (ex_start e < 0 \<or> l \<le> 0)
      then (Error INVALID_ARGUMENT (''Expected non-negative start and positive length but got start = '' @
              num (ex_start e) @ '', length = '' @ num l @ '': extent = '' @ text e), out)
      else if (ex_start e \<noteq> 0 \<or> l \<noteq> kFullExtent) \<and>
        unat ((word_of_int (ex_start e) :: u64) + word_of_int (case ex_length e of None \<Rightarrow> 0 | Some l \<Rightarrow> l)) > 2 ^ 63 - 1
      then (Error INVALID_ARGUMENT (''Extent end exceeds the maximum possible size: extent = '' @ text e), out)
      else build_slice_loop text es
             (out\<lparr>ts_starts := ts_starts out @ [ex_start e], ts_lengths := ts_lengths out @ [l]\<rparr>))"

definition BuildTensorSlice :: "(extent_proto \<Rightarrow> string) \<Rightarrow> slice_proto \<Rightarrow> tensor_slice \<Rightarrow> status \<times> tensor_slice" where
  "BuildTensorSlice text proto out = build_slice_loop text proto (slice_Clear out)"

definition slice_AsProto :: "tensor_slice \<Rightarrow> slice_proto \<Rightarrow> slice_proto" where
  "slice_AsProto s proto =
     proto @ map (\<lambda>d. if \<not> IsFullAt s d then \<lparr>ex_start = start s d, ex_length = Some (slength s d)\<rparr>
                    else \<lparr>ex_start = 0, ex_length = None\<rparr>) [0..<slice_dims s]"

section \<open>Text\<close>

text \<open>\<open>split\<close> is \<open>absl::StrSplit\<close> at a character; \<open>SkipEmpty\<close> drops the empty pieces.\<close>

type_synonym splitter = "char \<Rightarrow> string \<Rightarrow> string list"

definition Split :: "splitter \<Rightarrow> string \<Rightarrow> char \<Rightarrow> string list" where
  "Split split text delim = (if text = [] then [] else split delim text)"

definition Split_SkipEmpty :: "splitter \<Rightarrow> string \<Rightarrow> char \<Rightarrow> string list" where
  "Split_SkipEmpty split text delim = (if text = [] then [] else filter (\<lambda>x. x \<noteq> []) (split delim text))"

fun parse_loop :: "splitter \<Rightarrow> string \<Rightarrow> string list \<Rightarrow> tensor_slice \<Rightarrow> status \<times> tensor_slice" where
  "parse_loop split str [] sl = (OkStatus, sl)"
| "parse_loop split str (x # items) sl =
     (if x = ''-'' then
        parse_loop split str items
          (sl\<lparr>ts_starts := ts_starts sl @ [0], ts_lengths := ts_lengths sl @ [kFullExtent]\<rparr>)
      else
        (case map safe_strto64 (Split_SkipEmpty split x (CHR '','')) of
           [Some s, Some l] \<Rightarrow>
             if s < 0 \<or> l \<le> 0
             then (Error INVALID_ARGUMENT (''Expected non-negative start and positive length but got start = '' @
                     num s @ '', length = '' @ num l @ '': string = '' @ str), sl)
             else parse_loop split str items
                    (sl\<lparr>ts_starts := ts_starts sl @ [s], ts_lengths := ts_lengths sl @ [l]\<rparr>)
         | _ \<Rightarrow> (Error INVALID_ARGUMENT (''Expected a pair of numbers or '' @ [CHR 0x27, CHR ''-'', CHR 0x27] @ '' but got '' @
                  [CHR 0x27] @ x @ [CHR 0x27] @ '': string = '' @ str), sl)))"

definition Parse :: "splitter \<Rightarrow> string \<Rightarrow> tensor_slice \<Rightarrow> status \<times> tensor_slice" where
  "Parse split str sl = parse_loop split str (Split_SkipEmpty split str (CHR '':'')) sl"

definition ParseOrDie :: "splitter \<Rightarrow> string \<Rightarrow> tensor_slice option" where
  "ParseOrDie split str = (let (s, ret) = Parse split str TensorSlice in if \<not> ok s then None else Some ret)"

definition extent_text :: "tensor_slice \<Rightarrow> nat \<Rightarrow> string" where
  "extent_text s d = (if IsFullAt s d then ''-'' else num (start s d) @ '','' @ num (slength s d))"

fun debug_loop :: "tensor_slice \<Rightarrow> bool \<Rightarrow> nat list \<Rightarrow> string" where
  "debug_loop s first [] = ''''"
| "debug_loop s first (d # ds) = (if \<not> first then '':'' else '''') @ extent_text s d @ debug_loop s False ds"

definition slice_DebugString :: "tensor_slice \<Rightarrow> string" where
  "slice_DebugString s = debug_loop s True [0..<slice_dims s]"

section \<open>Operations on slices\<close>

text \<open>\<open>result\<close> is \<open>None\<close> for a null pointer.\<close>

fun intersect_loop :: "tensor_slice \<Rightarrow> tensor_slice \<Rightarrow> nat list \<Rightarrow> tensor_slice option \<Rightarrow> bool \<times> tensor_slice option" where
  "intersect_loop s other [] result = (True, result)"
| "intersect_loop s other (d # ds) result =
     (if IsFullAt s d then
        intersect_loop s other ds (map_option (\<lambda>r. set_length d (slength other d) (set_start d (start other d) r)) result)
      else if IsFullAt other d then
        intersect_loop s other ds (map_option (\<lambda>r. set_length d (slength s d) (set_start d (start s d) r)) result)
      else
        let st = max (start s d) (start other d);
            l = wrap64 (min (send s d) (send other d) - st)
        in if l > 0
           then intersect_loop s other ds (map_option (\<lambda>r. set_length d l (set_start d st r)) result)
           else (False, map_option slice_Clear result))"

definition Intersect :: "tensor_slice \<Rightarrow> tensor_slice option \<Rightarrow> tensor_slice \<Rightarrow> bool \<times> tensor_slice option" where
  "Intersect other result s =
     (if slice_dims s \<noteq> slice_dims other then (False, result)
      else intersect_loop s other [0..<slice_dims s] (map_option (SetFullSlice (int (slice_dims s))) result))"

definition Overlaps :: "tensor_slice \<Rightarrow> tensor_slice \<Rightarrow> bool" where
  "Overlaps other s = fst (Intersect other None s)"

definition slice_eq :: "tensor_slice \<Rightarrow> tensor_slice \<Rightarrow> bool" where
  "slice_eq s other \<longleftrightarrow> slice_dims s = slice_dims other \<and> ts_starts s = ts_starts other \<and> ts_lengths s = ts_lengths other"

fun relative_loop :: "tensor_slice \<Rightarrow> tensor_slice \<Rightarrow> nat list \<Rightarrow> tensor_slice \<Rightarrow> tensor_slice" where
  "relative_loop s sub [] relative = relative"
| "relative_loop s sub (d # ds) relative =
     (if IsFullAt s d then relative_loop s sub ds (set_length d (slength sub d) (set_start d (start sub d) relative))
      else relative_loop s sub ds (set_length d (slength sub d) (set_start d (wrap64 (start sub d - start s d)) relative)))"

definition ComputeRelative :: "tensor_slice \<Rightarrow> tensor_slice \<Rightarrow> tensor_slice \<Rightarrow> tensor_slice" where
  "ComputeRelative sub relative s = relative_loop s sub [0..<slice_dims s] (SetFullSlice (int (slice_dims s)) relative)"

fun cover_loop :: "tensor_slice \<Rightarrow> nat list \<Rightarrow> tensor_slice \<Rightarrow> tensor_slice" where
  "cover_loop other [] s = s"
| "cover_loop other (d # ds) s =
     cover_loop other ds
       (if \<not> IsFullAt s d then
          if IsFullAt other d then s\<lparr>ts_starts := (ts_starts s)[d := 0], ts_lengths := (ts_lengths s)[d := kFullExtent]\<rparr>
          else
            let new_end = max (send s d) (send other d);
                s = set_start d (min (start s d) (start other d)) s
            in set_length d (wrap64 (new_end - start s d)) s
        else s)"

definition UpdateToCover :: "tensor_slice \<Rightarrow> tensor_slice \<Rightarrow> tensor_slice" where
  "UpdateToCover other s = cover_loop other [0..<slice_dims s] s"

text \<open>The result shape is cleared first, and again when the slice does not fit.\<close>

fun slice_shape_loop ::
    "tensor_slice \<Rightarrow> shape_rep \<Rightarrow> nat list \<Rightarrow> shape_rep \<Rightarrow> (status \<times> shape_rep) option" where
  "slice_shape_loop s shape [] result = Some (OkStatus, result)"
| "slice_shape_loop s shape (d # ds) result =
     (if IsFullAt s d then Option.bind (AddDim False (dim_size False shape d) result) (slice_shape_loop s shape ds)
      else if send s d \<le> dim_size False shape d
      then Option.bind (AddDim False (slength s d) result) (slice_shape_loop s shape ds)
      else Some (Error INTERNAL (''Extent in dimension '' @ num (int d) @ '' out of bounds: shape = '' @ DebugString shape @
             '', slice = '' @ slice_DebugString s), Clear result))"

definition SliceTensorShape :: "shape_rep \<Rightarrow> shape_rep \<Rightarrow> tensor_slice \<Rightarrow> (status \<times> shape_rep) option" where
  "SliceTensorShape shape result s =
     (let result = Clear result in
      if dims False shape \<noteq> int (slice_dims s)
      then Some (Error INTERNAL (''Mismatching ranks: shape = '' @ DebugString shape @ '', slice = '' @ slice_DebugString s), result)
      else slice_shape_loop s shape [0..<slice_dims s] result)"

text \<open>The indices and sizes that Eigen takes, padded to \<open>nd\<close> dimensions.\<close>

definition FillIndicesAndSizes :: "nat \<Rightarrow> shape_rep \<Rightarrow> tensor_slice \<Rightarrow> (int list \<times> int list) option" where
  "FillIndicesAndSizes nd shape s =
     (if dims False shape \<noteq> int (slice_dims s) \<or> nd < slice_dims s then None
      else Some (map (\<lambda>d. if IsFullAt s d then 0 else start s d) [0..<slice_dims s] @ replicate (nd - slice_dims s) 0,
                 map (\<lambda>d. if IsFullAt s d then dim_size False shape d else slength s d) [0..<slice_dims s] @
                 replicate (nd - slice_dims s) 1))"

section \<open>The index vectors of a slice\<close>

text \<open>
  \<open>covers s d i\<close>: the extent of \<open>s\<close> in dimension \<open>d\<close> has the index \<open>i\<close>; \<open>contains s is\<close>: the index
  vector \<open>is\<close> is in the slice.  A well-formed slice has, in each dimension that is not full, a start
  that is not negative, a positive length, and an end that does not overflow.
\<close>

definition covers :: "tensor_slice \<Rightarrow> nat \<Rightarrow> int \<Rightarrow> bool" where
  "covers s d i \<longleftrightarrow> 0 \<le> i \<and> (IsFullAt s d \<or> start s d \<le> i \<and> i < start s d + slength s d)"

definition contains :: "tensor_slice \<Rightarrow> int list \<Rightarrow> bool" where
  "contains s is \<longleftrightarrow> length is = slice_dims s \<and> (\<forall>d < slice_dims s. covers s d (is ! d))"

definition extent_ok :: "int \<Rightarrow> int \<Rightarrow> bool" where
  "extent_ok st l \<longleftrightarrow> st = 0 \<and> l = kFullExtent \<or> 0 \<le> st \<and> 0 < l \<and> st + l < 2 ^ 63"

definition slice_ok :: "tensor_slice \<Rightarrow> bool" where
  "slice_ok s \<longleftrightarrow> length (ts_lengths s) = length (ts_starts s) \<and> list_all2 extent_ok (ts_starts s) (ts_lengths s)"

lemma slice_okD:
  assumes "slice_ok s" "d < slice_dims s"
  shows "IsFullAt s d \<or> 0 \<le> start s d \<and> 0 < slength s d \<and> start s d + slength s d < 2 ^ 63"
proof -
  have "extent_ok (ts_starts s ! d) (ts_lengths s ! d)"
    using assms list_all2_nthD [of extent_ok "ts_starts s" "ts_lengths s" d] by (simp add: slice_ok_def slice_dims_def)
  then show ?thesis by (auto simp: extent_ok_def IsFullAt_def start_def slength_def)
qed

lemma slice_ok_lengths: "slice_ok s \<Longrightarrow> length (ts_lengths s) = slice_dims s"
  by (simp add: slice_ok_def slice_dims_def)

lemma length_starts: "length (ts_starts s) = slice_dims s"
  by (simp add: slice_dims_def)

lemma wrap64_id: "- (2 ^ 63) \<le> x \<Longrightarrow> x < 2 ^ 63 \<Longrightarrow> wrap64 x = x"
  unfolding wrap64_def by (rule signed_take_bit_int_eq_self) simp_all

lemma send_eq: "slice_ok s \<Longrightarrow> d < slice_dims s \<Longrightarrow> \<not> IsFullAt s d \<Longrightarrow> send s d = start s d + slength s d"
  using slice_okD [of s d] by (auto simp: send_def intro!: wrap64_id)

lemma covers_full: "IsFullAt s d \<Longrightarrow> covers s d i \<longleftrightarrow> 0 \<le> i"
  by (simp add: covers_def)

lemma covers_part: "slice_ok s \<Longrightarrow> d < slice_dims s \<Longrightarrow> \<not> IsFullAt s d \<Longrightarrow> covers s d i \<longleftrightarrow> start s d \<le> i \<and> i < send s d"
  using slice_okD [of s d] by (auto simp: covers_def send_eq)

lemma slice_okI:
  "length (ts_lengths s) = slice_dims s \<Longrightarrow>
   (\<And>d. d < slice_dims s \<Longrightarrow> IsFullAt s d \<or> 0 \<le> start s d \<and> 0 < slength s d \<and> start s d + slength s d < 2 ^ 63) \<Longrightarrow> slice_ok s"
  by (fastforce simp: slice_ok_def list_all2_conv_all_nth extent_ok_def IsFullAt_def start_def slength_def slice_dims_def)

text \<open>Writing an extent, and slices given by their extents.\<close>

abbreviation put :: "nat \<Rightarrow> int \<times> int \<Rightarrow> tensor_slice \<Rightarrow> tensor_slice" where
  "put d e s \<equiv> set_length d (snd e) (set_start d (fst e) s)"

definition slice_of :: "nat \<Rightarrow> (nat \<Rightarrow> int \<times> int) \<Rightarrow> tensor_slice" where
  "slice_of n e = \<lparr>ts_starts = map (fst \<circ> e) [0..<n], ts_lengths = map (snd \<circ> e) [0..<n]\<rparr>"

lemma slice_of_simps [simp]:
  "slice_dims (slice_of n e) = n" "length (ts_lengths (slice_of n e)) = n"
  "d < n \<Longrightarrow> start (slice_of n e) d = fst (e d)" "d < n \<Longrightarrow> slength (slice_of n e) d = snd (e d)"
  "d < n \<Longrightarrow> IsFullAt (slice_of n e) d \<longleftrightarrow> e d = (0, kFullExtent)"
  by (auto simp: slice_of_def slice_dims_def start_def slength_def IsFullAt_def prod_eq_iff)

lemma slice_of_self: "length (ts_lengths s) = slice_dims s \<Longrightarrow> slice_of (slice_dims s) (\<lambda>d. (start s d, slength s d)) = s"
  by (auto simp: slice_of_def slice_dims_def start_def slength_def intro!: nth_equalityI tensor_slice.equality)

lemma slice_of_cong: "(\<And>d. d < n \<Longrightarrow> e d = f d) \<Longrightarrow> slice_of n e = slice_of n f"
  by (simp add: slice_of_def)

lemma put_slice_of: "d < n \<Longrightarrow> put d x (slice_of n e) = slice_of n (e(d := x))"
  by (auto simp: slice_of_def set_start_def set_length_def nth_list_update intro!: nth_equalityI)

lemma fold_put: "set ds \<subseteq> {..<n} \<Longrightarrow> fold (\<lambda>d. put d (f d)) ds (slice_of n e) = slice_of n (\<lambda>d. if d \<in> set ds then f d else e d)"
proof (induction ds arbitrary: e)
  case (Cons d ds)
  then have "fold (\<lambda>d. put d (f d)) (d # ds) (slice_of n e) = slice_of n (\<lambda>x. if x \<in> set ds then f x else (e(d := f d)) x)"
    by (simp add: put_slice_of)
  also have "\<dots> = slice_of n (\<lambda>x. if x \<in> set (d # ds) then f x else e x)" by (rule slice_of_cong) auto
  finally show ?case .
qed simp

lemma SetFullSlice_of: "SetFullSlice (int n) r = slice_of n (\<lambda>d. (0, kFullExtent))"
  by (simp add: SetFullSlice_def slice_Clear_def slice_of_def map_replicate_const comp_def)

lemma slice_Clear_eq [simp]: "slice_Clear = (\<lambda>r. TensorSlice)"
  by (simp add: slice_Clear_def TensorSlice_def fun_eq_iff)

section \<open>Intersection\<close>

definition inter_extent :: "tensor_slice \<Rightarrow> tensor_slice \<Rightarrow> nat \<Rightarrow> (int \<times> int) option" where
  "inter_extent s other d =
     (if IsFullAt s d then Some (start other d, slength other d)
      else if IsFullAt other d then Some (start s d, slength s d)
      else
        let st = max (start s d) (start other d); l = wrap64 (min (send s d) (send other d) - st) in
        if l > 0 then Some (st, l) else None)"

lemma intersect_loop_eq:
  "intersect_loop s other ds result =
     (if \<forall>d \<in> set ds. inter_extent s other d \<noteq> None
      then (True, map_option (fold (\<lambda>d. put d (the (inter_extent s other d))) ds) result)
      else (False, map_option (\<lambda>r. TensorSlice) result))"
proof (induction ds arbitrary: result)
  case (Cons d ds)
  show ?case
  proof (cases "inter_extent s other d")
    case None
    then show ?thesis by (auto simp: inter_extent_def Let_def option.map_comp comp_def split: if_splits)
  next
    case (Some e)
    then have "intersect_loop s other (d # ds) result = intersect_loop s other ds (map_option (put d e) result)"
      by (auto simp: inter_extent_def Let_def split: if_splits)
    then show ?thesis using Cons Some by (simp add: option.map_comp comp_def)
  qed
qed (simp add: option.map_id0)

lemma Intersect_eq:
  assumes "slice_dims s = slice_dims other"
  shows "Intersect other result s =
    (if \<forall>d < slice_dims s. inter_extent s other d \<noteq> None
     then (True, map_option (\<lambda>r. slice_of (slice_dims s) (the \<circ> inter_extent s other)) result)
     else (False, map_option (\<lambda>r. TensorSlice) result))"
proof -
  have "fold (\<lambda>d. put d (the (inter_extent s other d))) [0..<n] (slice_of n e) = slice_of n (the \<circ> inter_extent s other)" for n e
    by (subst fold_put) (auto intro: slice_of_cong)
  then show ?thesis using assms by (simp add: Intersect_def intersect_loop_eq SetFullSlice_of option.map_comp comp_def)
qed

lemma inter_extent_full: "IsFullAt s d \<Longrightarrow> inter_extent s other d = Some (start other d, slength other d)"
  "\<not> IsFullAt s d \<Longrightarrow> IsFullAt other d \<Longrightarrow> inter_extent s other d = Some (start s d, slength s d)"
  by (simp_all add: inter_extent_def)

lemma inter_extent_part:
  assumes "slice_ok s" "slice_ok other" "d < slice_dims s" "d < slice_dims other" "\<not> IsFullAt s d" "\<not> IsFullAt other d"
  defines "st \<equiv> max (start s d) (start other d)" and "en \<equiv> min (send s d) (send other d)"
  shows "inter_extent s other d = (if st < en then Some (st, en - st) else None)"
proof -
  have "wrap64 (en - st) = en - st"
    using slice_okD [OF assms(1,3)] slice_okD [OF assms(2,4)] assms(5,6) send_eq [OF assms(1,3,5)] send_eq [OF assms(2,4,6)]
    by (intro wrap64_id) (auto simp: st_def en_def)
  then show ?thesis using assms(5,6) by (simp add: inter_extent_def st_def en_def Let_def)
qed

text \<open>In one dimension: the extent of the intersection has the indices that both extents have, and there is none when they have
  none in common.\<close>

lemma inter_extent_covers:
  assumes "slice_ok s" "slice_ok other" "d < slice_dims s" "d < slice_dims other"
  shows "case inter_extent s other d of
      None \<Rightarrow> \<not> (\<exists>i. covers s d i \<and> covers other d i)
    | Some (st, l) \<Rightarrow> extent_ok st l \<and>
        (\<forall>i. 0 \<le> i \<and> ((st, l) = (0, kFullExtent) \<or> st \<le> i \<and> i < st + l) \<longleftrightarrow> covers s d i \<and> covers other d i) \<and>
        (\<exists>i. covers s d i \<and> covers other d i)"
proof -
  note s = slice_okD [OF assms(1,3)] and t = slice_okD [OF assms(2,4)]
  consider (1) "IsFullAt s d" | (2) "\<not> IsFullAt s d" "IsFullAt other d" | (3) "\<not> IsFullAt s d" "\<not> IsFullAt other d" by blast
  then show ?thesis
  proof cases
    case 1
    have e: "(start other d, slength other d) = (0, kFullExtent) \<longleftrightarrow> IsFullAt other d" by (auto simp: IsFullAt_def start_def slength_def)
    have "\<exists>i. covers other d i" using t by (intro exI [of _ "start other d"]) (auto simp: covers_def IsFullAt_def start_def)
    then show ?thesis using 1 t e by (auto simp: inter_extent_full covers_def extent_ok_def)
  next
    case 2
    have e: "\<not> (start s d = 0 \<and> slength s d = kFullExtent)" using 2 by (auto simp: IsFullAt_def start_def slength_def)
    have "covers s d (start s d) \<and> covers other d (start s d)" using s 2 by (auto simp: covers_def)
    then show ?thesis using 2 s e by (auto simp: inter_extent_full covers_def extent_ok_def)
  next
    case 3
    let ?st = "max (start s d) (start other d)" and ?en = "min (send s d) (send other d)"
    have c: "covers s d i \<and> covers other d i \<longleftrightarrow> ?st \<le> i \<and> i < ?en" for i
      using covers_part [OF assms(1,3) 3(1)] covers_part [OF assms(2,4) 3(2)] by auto
    have "0 \<le> ?st" "?en < 2 ^ 63" using s t 3 send_eq [OF assms(1,3) 3(1)] by auto
    moreover have "\<exists>i. ?st \<le> i \<and> i < ?en" if "?st < ?en" using that by blast
    ultimately show ?thesis
      unfolding inter_extent_part [OF assms 3] c by (cases "?st < ?en") (auto simp: extent_ok_def kFullExtent_def simp del: max_less_iff_conj min_less_iff_conj)
  qed
qed

lemma covers_slice_of: "d < n \<Longrightarrow> covers (slice_of n e) d i \<longleftrightarrow> 0 \<le> i \<and> (e d = (0, kFullExtent) \<or> fst (e d) \<le> i \<and> i < fst (e d) + snd (e d))"
  by (simp add: covers_def)

lemma slice_ok_slice_of: "slice_ok (slice_of n e) \<longleftrightarrow> (\<forall>d < n. extent_ok (fst (e d)) (snd (e d)))"
  by (simp add: slice_ok_def slice_of_def list_all2_conv_all_nth)

lemma Intersect_law:
  assumes "slice_ok s" "slice_ok other" "slice_dims s = slice_dims other"
  shows "if \<exists>is. contains s is \<and> contains other is
    then \<exists>r'. Intersect other result s = (True, map_option (\<lambda>r. r') result) \<and> slice_ok r' \<and> slice_dims r' = slice_dims s \<and>
      (\<forall>is. contains r' is \<longleftrightarrow> contains s is \<and> contains other is)
    else Intersect other result s = (False, map_option (\<lambda>r. TensorSlice) result)"
proof (cases "\<forall>d < slice_dims s. inter_extent s other d \<noteq> None")
  case True
  let ?r = "slice_of (slice_dims s) (the \<circ> inter_extent s other)"
  have d: "extent_ok (fst (the (inter_extent s other d))) (snd (the (inter_extent s other d))) \<and>
      (\<forall>i. covers ?r d i \<longleftrightarrow> covers s d i \<and> covers other d i) \<and> (\<exists>i. covers s d i \<and> covers other d i)" if "d < slice_dims s" for d
    using inter_extent_covers [OF assms(1,2) that] that assms(3) True
    by (auto simp: covers_slice_of split: option.splits)
  then have c: "contains ?r is \<longleftrightarrow> contains s is \<and> contains other is" for "is"
    using assms(3) by (auto simp: contains_def)
  have "\<exists>f. \<forall>d < slice_dims s. covers s d (f d) \<and> covers other d (f d)" using d by metis
  then obtain f where f: "\<forall>d < slice_dims s. covers s d (f d) \<and> covers other d (f d)" by blast
  have "contains s (map f [0..<slice_dims s]) \<and> contains other (map f [0..<slice_dims s])" using f assms(3) by (simp add: contains_def)
  then have "\<exists>is. contains s is \<and> contains other is" by blast
  moreover have "slice_ok ?r" using d by (simp add: slice_ok_slice_of)
  ultimately show ?thesis using c Intersect_eq [OF assms(3), of result] True by (auto intro!: exI [of _ ?r])
next
  case False
  then obtain d where d: "d < slice_dims s" "inter_extent s other d = None" by blast
  then have "\<not> (covers s d i \<and> covers other d i)" for i
    using inter_extent_covers [OF assms(1,2) d(1)] assms(3) by simp
  then have "\<not> (\<exists>is. contains s is \<and> contains other is)" using d(1) assms(3) by (auto simp: contains_def)
  then show ?thesis using Intersect_eq [OF assms(3), of result] False by auto
qed
lemma Overlaps_iff:
  assumes "slice_ok s" "slice_ok other" "slice_dims s = slice_dims other"
  shows "Overlaps other s \<longleftrightarrow> (\<exists>is. contains s is \<and> contains other is)"
  using Intersect_law [OF assms, of None] by (auto simp: Overlaps_def split: if_splits)

text \<open>The operations read slices through their extents only.\<close>

lemma extents_eq:
  "length (ts_lengths s) = slice_dims s \<Longrightarrow> slice_dims s = n \<Longrightarrow> (\<And>d. d < n \<Longrightarrow> (start s d, slength s d) = e d) \<Longrightarrow> s = slice_of n e"
  using slice_of_self [of s] slice_of_cong [of n "\<lambda>d. (start s d, slength s d)" e] by auto

section \<open>The cover of two slices\<close>

definition cover_extent :: "tensor_slice \<Rightarrow> tensor_slice \<Rightarrow> nat \<Rightarrow> int \<times> int" where
  "cover_extent s other d =
     (if IsFullAt s d then (start s d, slength s d)
      else if IsFullAt other d then (0, kFullExtent)
      else
        let st = min (start s d) (start other d) in (st, wrap64 (max (send s d) (send other d) - st)))"

lemma put_simps:
  "slice_dims (put d e s) = slice_dims s" "length (ts_lengths (put d e s)) = length (ts_lengths s)"
  "d' \<noteq> d \<Longrightarrow> start (put d e s) d' = start s d'" "d' \<noteq> d \<Longrightarrow> slength (put d e s) d' = slength s d'"
  "d' \<noteq> d \<Longrightarrow> IsFullAt (put d e s) d' = IsFullAt s d'" "d' \<noteq> d \<Longrightarrow> send (put d e s) d' = send s d'"
  by (simp_all add: set_start_def set_length_def slice_dims_def start_def slength_def IsFullAt_def send_def)

lemma put_same: "d < slice_dims s \<Longrightarrow> length (ts_lengths s) = slice_dims s \<Longrightarrow> start (put d e s) d = fst e \<and> slength (put d e s) d = snd e"
  by (simp add: set_start_def set_length_def slice_dims_def start_def slength_def)

lemma put_own: "d < slice_dims s \<Longrightarrow> length (ts_lengths s) = slice_dims s \<Longrightarrow> put d (start s d, slength s d) s = s"
  by (simp add: set_start_def set_length_def slice_dims_def start_def slength_def)

lemma cover_step:
  assumes "d < slice_dims s" "length (ts_lengths s) = slice_dims s"
  shows "cover_loop other (d # ds) s = cover_loop other ds (put d (cover_extent s other d) s)"
proof -
  have "start (set_start d x s) d = x" for x using assms(1) by (simp add: set_start_def start_def slice_dims_def)
  moreover have "s\<lparr>ts_starts := (ts_starts s)[d := a], ts_lengths := (ts_lengths s)[d := b]\<rparr> = put d (a, b) s" for a b
    by (simp add: set_start_def set_length_def)
  ultimately show ?thesis using put_own [OF assms] by (simp add: cover_extent_def Let_def)
qed

lemma cover_loop_dims:
  assumes "set ds \<subseteq> {..<slice_dims s}" "length (ts_lengths s) = slice_dims s"
  shows "slice_dims (cover_loop other ds s) = slice_dims s \<and> length (ts_lengths (cover_loop other ds s)) = slice_dims s"
  using assms
proof (induction ds arbitrary: s)
  case (Cons d ds)
  then have step: "cover_loop other (d # ds) s = cover_loop other ds (put d (cover_extent s other d) s)" by (intro cover_step) auto
  show ?case unfolding step using Cons.IH [of "put d (cover_extent s other d) s"] Cons.prems by (simp add: put_simps)
qed simp

lemma cover_loop_extents:
  assumes "set ds \<subseteq> {..<slice_dims s}" "distinct ds" "length (ts_lengths s) = slice_dims s" "d < slice_dims s"
  shows "(start (cover_loop other ds s) d, slength (cover_loop other ds s) d) =
      (if d \<in> set ds then cover_extent s other d else (start s d, slength s d))"
  using assms
proof (induction ds arbitrary: s)
  case (Cons d' ds)
  let ?s = "put d' (cover_extent s other d') s"
  have step: "cover_loop other (d' # ds) s = cover_loop other ds ?s"
    using Cons.prems by (intro cover_step) auto
  have "cover_extent ?s other x = cover_extent s other x" if "x \<noteq> d'" for x
    using that by (simp add: cover_extent_def put_simps)
  then show ?case
    unfolding step using Cons.IH [of ?s] Cons.prems put_same [of d' s "cover_extent s other d'"]
    by (cases "d = d'") (auto simp: put_simps)
qed simp

lemma UpdateToCover_eq:
  assumes "length (ts_lengths s) = slice_dims s"
  shows "UpdateToCover other s = slice_of (slice_dims s) (cover_extent s other)"
proof (rule extents_eq)
  have r: "set [0..<slice_dims s] \<subseteq> {..<slice_dims s}" by auto
  show "length (ts_lengths (UpdateToCover other s)) = slice_dims (UpdateToCover other s)"
    "slice_dims (UpdateToCover other s) = slice_dims s"
    using cover_loop_dims [OF r assms, of other] by (simp_all add: UpdateToCover_def)
  show "(start (UpdateToCover other s) d, slength (UpdateToCover other s) d) = cover_extent s other d" if "d < slice_dims s" for d
    using cover_loop_extents [OF r _ assms that, of other] that by (simp add: UpdateToCover_def)
qed

text \<open>In one dimension the cover has the indices between two that one of the extents has.\<close>

lemma cover_extent_covers:
  assumes "slice_ok s" "slice_ok other" "d < slice_dims s" "d < slice_dims other"
  shows "extent_ok (fst (cover_extent s other d)) (snd (cover_extent s other d)) \<and>
    (\<forall>i. covers (slice_of (slice_dims s) (cover_extent s other)) d i \<longleftrightarrow>
      (\<exists>a b. a \<le> i \<and> i \<le> b \<and> (covers s d a \<or> covers other d a) \<and> (covers s d b \<or> covers other d b)))"
proof -
  note s = slice_okD [OF assms(1,3)] and t = slice_okD [OF assms(2,4)]
  consider (1) "IsFullAt s d" | (2) "\<not> IsFullAt s d" "IsFullAt other d" | (3) "\<not> IsFullAt s d" "\<not> IsFullAt other d" by blast
  then show ?thesis
  proof cases
    case 1
    then have "start s d = 0" "slength s d = kFullExtent" by (auto simp: IsFullAt_def start_def slength_def)
    with 1 assms(3) show ?thesis by (auto simp: cover_extent_def covers_def extent_ok_def)
  next
    case 2
    with assms(3) show ?thesis by (auto simp: cover_extent_def covers_def extent_ok_def)
  next
    case 3
    let ?st = "min (start s d) (start other d)" and ?en = "max (send s d) (send other d)"
    have se: "send s d = start s d + slength s d" "send other d = start other d + slength other d"
      using send_eq assms 3 by auto
    have e: "cover_extent s other d = (?st, ?en - ?st)"
      using 3 s t se by (auto simp: cover_extent_def Let_def intro!: wrap64_id)
    have bnd: "0 \<le> ?st" "?st < ?en" "?en < 2 ^ 63" using s t 3 se by auto
    have cv: "covers s d i \<longleftrightarrow> start s d \<le> i \<and> i < send s d" "covers other d i \<longleftrightarrow> start other d \<le> i \<and> i < send other d" for i
      using covers_part [OF assms(1,3) 3(1)] covers_part [OF assms(2,4) 3(2)] by auto
    have ends: "covers s d ?st \<or> covers other d ?st" "covers s d (?en - 1) \<or> covers other d (?en - 1)"
      using s t 3 se by (auto simp: cv min_def max_def)
    have c: "covers (slice_of (slice_dims s) (cover_extent s other)) d i \<longleftrightarrow> ?st \<le> i \<and> i < ?en" for i
      using bnd unfolding covers_slice_of [OF assms(3)] e by (auto simp: kFullExtent_def)
    have "?st \<le> i \<and> i < ?en \<longleftrightarrow>
        (\<exists>a b. a \<le> i \<and> i \<le> b \<and> (covers s d a \<or> covers other d a) \<and> (covers s d b \<or> covers other d b))" for i
    proof
      assume "?st \<le> i \<and> i < ?en"
      then have "?st \<le> i" "i \<le> ?en - 1" by auto
      then show "\<exists>a b. a \<le> i \<and> i \<le> b \<and> (covers s d a \<or> covers other d a) \<and> (covers s d b \<or> covers other d b)"
        using ends by blast
    qed (auto simp: cv)
    moreover have "extent_ok ?st (?en - ?st)" using bnd by (simp add: extent_ok_def)
    ultimately show ?thesis unfolding c e by simp
  qed
qed

lemma UpdateToCover_law:
  assumes "slice_ok s" "slice_ok other" "slice_dims s = slice_dims other"
  shows "slice_ok (UpdateToCover other s) \<and> slice_dims (UpdateToCover other s) = slice_dims s \<and>
    (\<forall>is. contains (UpdateToCover other s) is \<longleftrightarrow> length is = slice_dims s \<and>
      (\<forall>d < slice_dims s. \<exists>a b. a \<le> is ! d \<and> is ! d \<le> b \<and> (covers s d a \<or> covers other d a) \<and> (covers s d b \<or> covers other d b)))"
proof -
  have u: "UpdateToCover other s = slice_of (slice_dims s) (cover_extent s other)"
    by (rule UpdateToCover_eq) (rule slice_ok_lengths [OF assms(1)])
  have c: "extent_ok (fst (cover_extent s other d)) (snd (cover_extent s other d)) \<and>
    (\<forall>i. covers (slice_of (slice_dims s) (cover_extent s other)) d i \<longleftrightarrow>
      (\<exists>a b. a \<le> i \<and> i \<le> b \<and> (covers s d a \<or> covers other d a) \<and> (covers s d b \<or> covers other d b)))" if "d < slice_dims s" for d
    using cover_extent_covers [OF assms(1,2) that] that assms(3) by simp
  then show ?thesis unfolding u by (auto simp: contains_def slice_ok_slice_of)
qed

lemma UpdateToCover_contains:
  assumes "slice_ok s" "slice_ok other" "slice_dims s = slice_dims other" "contains s is \<or> contains other is"
  shows "contains (UpdateToCover other s) is"
proof -
  have "length is = slice_dims s" "\<forall>d < slice_dims s. covers s d (is ! d) \<or> covers other d (is ! d)"
    using assms(3,4) by (auto simp: contains_def)
  then have "length is = slice_dims s \<and> (\<forall>d < slice_dims s. \<exists>a b. a \<le> is ! d \<and> is ! d \<le> b \<and>
      (covers s d a \<or> covers other d a) \<and> (covers s d b \<or> covers other d b))"
    by (metis order_refl)
  then show ?thesis using UpdateToCover_law [OF assms(1-3)] by simp
qed
section \<open>Slices relative to a slice\<close>

definition relative_extent :: "tensor_slice \<Rightarrow> tensor_slice \<Rightarrow> nat \<Rightarrow> int \<times> int" where
  "relative_extent s sub d =
     (if IsFullAt s d then (start sub d, slength sub d) else (wrap64 (start sub d - start s d), slength sub d))"

lemma relative_loop_eq: "relative_loop s sub ds r = fold (\<lambda>d. put d (relative_extent s sub d)) ds r"
  by (induction ds arbitrary: r) (simp_all add: relative_extent_def)

lemma ComputeRelative_eq: "ComputeRelative sub r s = slice_of (slice_dims s) (relative_extent s sub)"
  unfolding ComputeRelative_def relative_loop_eq SetFullSlice_of by (subst fold_put) (auto intro: slice_of_cong)

text \<open>The origin of a slice in each dimension.\<close>

definition origin :: "tensor_slice \<Rightarrow> nat \<Rightarrow> int" where
  "origin s d = (if IsFullAt s d then 0 else start s d)"

text \<open>A slice inside another, dimension by dimension.\<close>

definition inside :: "tensor_slice \<Rightarrow> tensor_slice \<Rightarrow> bool" where
  "inside sub s \<longleftrightarrow> slice_dims sub = slice_dims s \<and> (\<forall>d < slice_dims s. \<forall>i. covers sub d i \<longrightarrow> covers s d i)"

lemma inside_extent:
  assumes "slice_ok s" "slice_ok sub" "inside sub s" "d < slice_dims s" "\<not> IsFullAt s d"
  shows "\<not> IsFullAt sub d" "start s d \<le> start sub d" "start sub d + slength sub d \<le> start s d + slength s d"
proof -
  have ds: "d < slice_dims sub" using assms(3,4) by (simp add: inside_def)
  have sub: "covers sub d i \<Longrightarrow> covers s d i" for i using assms(3,4) by (auto simp: inside_def)
  note cs = covers_part [OF assms(1,4,5)] and es = send_eq [OF assms(1,4,5)]
  show nf: "\<not> IsFullAt sub d"
  proof
    assume "IsFullAt sub d"
    then have "covers s d (max 0 (send s d))" by (intro sub) (simp add: covers_def)
    then show False by (auto simp: cs)
  qed
  note csub = covers_part [OF assms(2) ds nf] and esub = send_eq [OF assms(2) ds nf]
  have "covers sub d (start sub d)" "covers sub d (start sub d + slength sub d - 1)"
    using slice_okD [OF assms(2) ds] nf by (auto simp: csub esub)
  from this [THEN sub] show "start s d \<le> start sub d" "start sub d + slength sub d \<le> start s d + slength s d"
    by (auto simp: cs es)
qed

lemma relative_extent_covers:
  assumes "slice_ok s" "slice_ok sub" "inside sub s" "d < slice_dims s"
  shows "extent_ok (fst (relative_extent s sub d)) (snd (relative_extent s sub d))"
    and "0 \<le> i \<Longrightarrow> covers (ComputeRelative sub r s) d i \<longleftrightarrow> covers sub d (i + origin s d)"
proof -
  have ds: "d < slice_dims sub" using assms(3,4) by (simp add: inside_def)
  note o = slice_okD [OF assms(1,4)] slice_okD [OF assms(2) ds]
  have c: "covers (ComputeRelative sub r s) d i \<longleftrightarrow> 0 \<le> i \<and> (relative_extent s sub d = (0, kFullExtent) \<or>
      fst (relative_extent s sub d) \<le> i \<and> i < fst (relative_extent s sub d) + snd (relative_extent s sub d))" for i
    unfolding ComputeRelative_eq covers_slice_of [OF assms(4)] ..
  show "extent_ok (fst (relative_extent s sub d)) (snd (relative_extent s sub d))"
  proof (cases "IsFullAt s d")
    case True
    then show ?thesis using o(2) by (auto simp: relative_extent_def extent_ok_def IsFullAt_def start_def slength_def)
  next
    case False
    note i = inside_extent [OF assms False]
    have "wrap64 (start sub d - start s d) = start sub d - start s d" using o i False by (intro wrap64_id) auto
    then show ?thesis using False o i by (auto simp: relative_extent_def extent_ok_def)
  qed
  show "covers (ComputeRelative sub r s) d i \<longleftrightarrow> covers sub d (i + origin s d)" if "0 \<le> i"
  proof (cases "IsFullAt s d")
    case True
    then show ?thesis using that unfolding c
      by (auto simp: relative_extent_def covers_def origin_def IsFullAt_def start_def slength_def)
  next
    case False
    note ie = inside_extent [OF assms False]
    have w: "wrap64 (start sub d - start s d) = start sub d - start s d" using o ie False by (intro wrap64_id) auto
    have "slength sub d \<noteq> kFullExtent" using o(2) ie(1) by (auto simp: kFullExtent_def)
    then show ?thesis using False that o ie(1) unfolding c by (auto simp: relative_extent_def w covers_def origin_def)
  qed
qed

lemma ComputeRelative_law:
  assumes "slice_ok s" "slice_ok sub" "inside sub s"
  shows "slice_ok (ComputeRelative sub r s) \<and> slice_dims (ComputeRelative sub r s) = slice_dims s \<and>
    (\<forall>is. length is = slice_dims s \<and> list_all (\<lambda>i. 0 \<le> i) is \<longrightarrow>
      contains (ComputeRelative sub r s) is = contains sub (map2 (+) is (map (origin s) [0..<slice_dims s])))"
proof (intro conjI allI impI; (elim conjE)?)
  show "slice_ok (ComputeRelative sub r s)"
    unfolding ComputeRelative_eq slice_ok_slice_of using relative_extent_covers(1) [OF assms] by blast
  show dims: "slice_dims (ComputeRelative sub r s) = slice_dims s" by (simp add: ComputeRelative_eq)
  fix "is" :: "int list" assume l: "length is = slice_dims s" and nn: "list_all (\<lambda>i. 0 \<le> i) is"
  have sd: "slice_dims sub = slice_dims s" using assms(3) by (simp add: inside_def)
  have "covers (ComputeRelative sub r s) d (is ! d) \<longleftrightarrow> covers sub d (is ! d + origin s d)" if "d < slice_dims s" for d
    using relative_extent_covers(2) [OF assms that] nn that l by (simp add: list_all_length)
  then show "contains (ComputeRelative sub r s) is = contains sub (map2 (+) is (map (origin s) [0..<slice_dims s]))"
    using l sd by (simp add: contains_def dims)
qed
section \<open>The shape of a slice\<close>

text \<open>
  \<open>fits ds s\<close>: every extent of the slice ends within a tensor with the dimensions \<open>ds\<close>.  \<open>cells ds s\<close>
  are the index vectors of the slice in such a tensor.
\<close>

definition fits :: "int list \<Rightarrow> tensor_slice \<Rightarrow> bool" where
  "fits ds s \<longleftrightarrow> slice_dims s = length ds \<and> list_all (\<lambda>d. IsFullAt s d \<or> send s d \<le> ds ! d) [0..<length ds]"

definition slice_size :: "int list \<Rightarrow> tensor_slice \<Rightarrow> nat \<Rightarrow> int" where
  "slice_size ds s d = (if IsFullAt s d then ds ! d else slength s d)"

definition slice_sizes :: "int list \<Rightarrow> tensor_slice \<Rightarrow> int list" where
  "slice_sizes ds s = map (slice_size ds s) [0..<length ds]"

definition cells :: "int list \<Rightarrow> tensor_slice \<Rightarrow> int list set" where
  "cells ds s = {is. contains s is \<and> list_all2 (<) is ds}"

text \<open>A list of sizes that is nowhere larger than one that a shape can hold is itself one.\<close>

lemma prod_list_le: "list_all2 (\<lambda>a b. 0 \<le> a \<and> a \<le> b) xs ys \<Longrightarrow> 0 \<le> prod_list xs \<and> prod_list xs \<le> prod_list (ys :: int list)"
proof (induction rule: list_all2_induct)
  case (Cons x xs y ys)
  then have "x * prod_list xs \<le> y * prod_list ys" by (intro mult_mono) auto
  with Cons show ?case by simp
qed simp

lemma elements_le:
  assumes "list_all2 (\<lambda>a b. 0 \<le> a \<and> a \<le> b) xs ys"
  shows "elements xs \<le> elements ys"
proof -
  have "\<not> list_ex (\<lambda>d. d < 0) xs" "\<not> list_ex (\<lambda>d. d < 0) ys"
    using assms by (fastforce simp: list_all2_conv_all_nth list_ex_iff in_set_conv_nth)+
  then show ?thesis using prod_list_le [OF assms] by (simp add: elements_def)
qed

lemma representable_le:
  assumes "representable False ys" "list_all2 (\<lambda>a b. 0 \<le> a \<and> a \<le> b) xs ys"
  shows "representable False xs"
proof -
  have l: "length xs = length ys" using assms(2) by (rule list_all2_lengthD)
  have "elements (take n xs) \<le> elements (take n ys)" for n by (rule elements_le) (rule list_all2_takeI [OF assms(2)])
  moreover have "elements (take n ys) < 2 ^ 63" if "n \<le> length ys" for n
    using assms(1) that by (auto simp: representable_def list_all_iff)
  ultimately have "elements (take n xs) < 2 ^ 63" if "n \<le> length ys" for n using that le_less_trans by blast
  moreover have "0 \<le> xs ! i \<and> xs ! i < 2 ^ 63" if "i < length xs" for i
  proof -
    have "0 \<le> xs ! i" "xs ! i \<le> ys ! i" using list_all2_nthD [OF assms(2) that] by auto
    moreover have "ys ! i < 2 ^ 63" using representable_range [OF assms(1), of "ys ! i"] that l by simp
    ultimately show ?thesis by linarith
  qed
  then have "\<forall>x \<in> set xs. 0 \<le> x \<and> x < 2 ^ 63" by (metis in_set_conv_nth)
  moreover have "length xs \<le> 254" using assms(1) l by (simp add: representable_def)
  ultimately show ?thesis unfolding representable_def list_all_iff least_size_def l by auto
qed

lemma slice_sizes_le:
  assumes "slice_ok s" "fits ds s" "representable False ds"
  shows "list_all2 (\<lambda>a b. 0 \<le> a \<and> a \<le> b) (slice_sizes ds s) ds"
proof (rule list_all2_all_nthI)
  show "length (slice_sizes ds s) = length ds" by (simp add: slice_sizes_def)
  fix d assume d: "d < length (slice_sizes ds s)"
  then have dl: "d < length ds" "d < slice_dims s" using assms(2) by (auto simp: slice_sizes_def fits_def)
  have "0 \<le> ds ! d" using assms(3) dl(1) by (auto simp: representable_def list_all_iff least_size_def)
  then show "0 \<le> slice_sizes ds s ! d \<and> slice_sizes ds s ! d \<le> ds ! d"
    using dl slice_okD [OF assms(1) dl(2)] send_eq [OF assms(1) dl(2)] assms(2)
    by (auto simp: slice_sizes_def slice_size_def fits_def list_all_iff)
qed

lemma slice_sizes_take: "slice_size ds s d = slice_sizes ds s ! d" if "d < length ds"
  using that by (simp add: slice_sizes_def)

lemma IsFullAt_alt: "IsFullAt s d \<longleftrightarrow> start s d = 0 \<and> slength s d = kFullExtent"
  by (auto simp: IsFullAt_def start_def slength_def)

lemma fits_dim:
  assumes "list_all (\<lambda>d. IsFullAt s d \<or> send s d \<le> ds ! d) [0..<k]" "k \<le> slice_dims s" "slice_dims s = length ds"
    "slice_ok s" "representable False ds"
  shows "representable False (map (slice_size ds s) [0..<k])"
proof -
  let ?s = "slice_of k (\<lambda>d. (start s d, slength s d))"
  have full: "IsFullAt ?s d = IsFullAt s d" if "d < k" for d
    using that by (auto simp: slice_of_def IsFullAt_def start_def slength_def)
  have ok: "slice_ok ?s"
    unfolding slice_ok_slice_of extent_ok_def using slice_okD [OF assms(4)] assms(2) IsFullAt_alt [of s] by (metis fst_conv less_le_trans snd_conv)
  have f: "fits (take k ds) ?s" using assms(1-3) full by (auto simp: fits_def list_all_iff send_def)
  have r: "representable False (take k ds)" using representable_append [of False "take k ds" "drop k ds"] assms(5) by simp
  have "slice_sizes (take k ds) ?s = map (slice_size ds s) [0..<k]"
    using assms(2,3) full by (auto simp: slice_sizes_def slice_size_def)
  then show ?thesis using representable_le [OF r slice_sizes_le [OF ok f r]] by simp
qed

lemma slice_shape_loop_law:
  assumes "slice_ok s" "holds False shape ds" "slice_dims s = length ds" "k \<le> length ds"
    "list_all (\<lambda>d. IsFullAt s d \<or> send s d \<le> ds ! d) [0..<k]" "holds False result (map (slice_size ds s) [0..<k])"
  shows "if fits ds s
    then \<exists>r. slice_shape_loop s shape [k..<length ds] result = Some (OkStatus, r) \<and> holds False r (slice_sizes ds s)
    else \<exists>m r. slice_shape_loop s shape [k..<length ds] result = Some (Error INTERNAL m, r) \<and> holds False r []"
  using assms(4-6)
proof (induction "length ds - k" arbitrary: k result)
  case 0
  then have k: "k = length ds" by simp
  then show ?case using 0 assms(3) by (simp add: fits_def slice_sizes_def)
next
  case (Suc m)
  note h = holdsE [OF assms(2)]
  have k: "k < length ds" using Suc.hyps(2) by simp
  have ks: "k < slice_dims s" using k assms(3) by simp
  have split: "[k..<length ds] = k # [Suc k..<length ds]" using k by (simp add: upt_conv_Cons)
  have dk: "dim_size False shape k = ds ! k" by (rule held_nth [OF assms(2) k])
  show ?case
  proof (cases "IsFullAt s k \<or> send s k \<le> ds ! k")
    case True
    have ok: "list_all (\<lambda>d. IsFullAt s d \<or> send s d \<le> ds ! d) [0..<Suc k]" using Suc.prems(2) True by simp
    have rep: "representable False (map (slice_size ds s) [0..<k] @ [slice_size ds s k])"
      using fits_dim [OF ok _ assms(3,1) h(4)] ks by simp
    then have "0 \<le> slice_size ds s k" "slice_size ds s k < 2 ^ 63" by (simp_all add: representable_snoc least_size_def)
    then obtain r where r: "AddDim False (slice_size ds s k) result = Some r" "holds False r (map (slice_size ds s) [0..<Suc k])"
      using AddDim_law [OF Suc.prems(3), of "slice_size ds s k"] rep by auto
    have "slice_shape_loop s shape [k..<length ds] result = slice_shape_loop s shape [Suc k..<length ds] r"
      unfolding split using True r(1) dk by (auto simp: slice_size_def split: if_splits)
    moreover have "m = length ds - Suc k" "Suc k \<le> length ds" using Suc.hyps(2) by simp_all
    ultimately show ?thesis using Suc.hyps(1) [OF _ _ ok r(2)] by simp
  next
    case False
    then have nf: "\<not> fits ds s" using k by (auto simp: fits_def list_all_iff)
    have "holds False (Clear result) []" using Clear_law holdsE(7) [OF Suc.prems(3)] by blast
    then show ?thesis using False nf dk unfolding split by simp
  qed
qed

text \<open>The number of index vectors of a box is the product of its sizes.\<close>

definition box :: "(int \<times> int) list \<Rightarrow> int list set" where
  "box es = {is. list_all2 (\<lambda>i e. fst e \<le> i \<and> i < fst e + snd e) is es}"

lemma box_Nil: "box [] = {[]}"
  by (auto simp: box_def)

lemma box_Cons: "box (e # es) = (\<lambda>(i, is). i # is) ` ({fst e ..< fst e + snd e} \<times> box es)"
proof (intro set_eqI iffI)
  fix x assume "x \<in> box (e # es)"
  then show "x \<in> (\<lambda>(i, is). i # is) ` ({fst e ..< fst e + snd e} \<times> box es)"
    by (cases x) (auto simp: box_def image_iff)
qed (auto simp: box_def)

lemma card_box: "list_all (\<lambda>e. 0 \<le> snd e) es \<Longrightarrow> finite (box es) \<and> int (card (box es)) = prod_list (map snd es)"
proof (induction es)
  case (Cons e es)
  have "inj_on (\<lambda>(i, is). i # is) ({fst e ..< fst e + snd e} \<times> box es)" by (auto simp: inj_on_def)
  then show ?case using Cons by (simp add: box_Cons card_image card_cartesian_product)
qed (simp add: box_Nil)

lemma cells_box:
  assumes "slice_ok s" "fits ds s"
  shows "cells ds s = box (map (\<lambda>d. (origin s d, slice_size ds s d)) [0..<length ds])"
proof -
  have "covers s d i \<and> i < ds ! d \<longleftrightarrow> origin s d \<le> i \<and> i < origin s d + slice_size ds s d" if "d < length ds" for d i
  proof -
    have d: "d < slice_dims s" using that assms(2) by (simp add: fits_def)
    show ?thesis
      using slice_okD [OF assms(1) d] send_eq [OF assms(1) d] assms(2) that
      by (auto simp: covers_def origin_def slice_size_def fits_def list_all_iff)
  qed
  then have "(\<forall>d < length ds. covers s d (is ! d) \<and> is ! d < ds ! d) \<longleftrightarrow>
      (\<forall>d < length ds. origin s d \<le> is ! d \<and> is ! d < origin s d + slice_size ds s d)" for "is"
    by simp
  then show ?thesis
    using assms(2) unfolding cells_def box_def contains_def list_all2_conv_all_nth fits_def by fastforce
qed

lemma card_cells:
  assumes "slice_ok s" "fits ds s" "representable False ds"
  shows "finite (cells ds s)" "int (card (cells ds s)) = elements (slice_sizes ds s)"
proof -
  have nn: "\<forall>x \<in> set (slice_sizes ds s). 0 \<le> x"
    using slice_sizes_le [OF assms] by (fastforce simp: list_all2_conv_all_nth in_set_conv_nth)
  have "\<not> list_ex (\<lambda>d. d < 0) (slice_sizes ds s)" using nn by (auto simp: list_ex_iff)
  then have e: "elements (slice_sizes ds s) = prod_list (slice_sizes ds s)" by (simp add: elements_def)
  have nn': "list_all (\<lambda>e. 0 \<le> snd e) (map (\<lambda>d. (origin s d, slice_size ds s d)) [0..<length ds])"
    using nn by (auto simp: list_all_iff slice_sizes_def)
  have m: "map snd (map (\<lambda>d. (origin s d, slice_size ds s d)) [0..<length ds]) = slice_sizes ds s"
    by (simp add: slice_sizes_def comp_def)
  show "finite (cells ds s)" "int (card (cells ds s)) = elements (slice_sizes ds s)"
    using card_box [OF nn'] unfolding cells_box [OF assms(1,2)] e m by simp_all
qed

lemma SliceTensorShape_law:
  assumes "slice_ok s" "holds False shape ds" "length (sr_buf result) = 16"
  shows "if fits ds s
    then \<exists>r. SliceTensorShape shape result s = Some (OkStatus, r) \<and> holds False r (slice_sizes ds s)
    else \<exists>m r. SliceTensorShape shape result s = Some (Error INTERNAL m, r) \<and> holds False r []"
proof (cases "slice_dims s = length ds")
  case True
  have c: "holds False (Clear result) (map (slice_size ds s) [0..<0])" using Clear_law [OF assms(3)] by simp
  show ?thesis using slice_shape_loop_law [OF assms(1,2) True _ _ c] True
    by (simp add: SliceTensorShape_def held_dims [OF assms(2)] Let_def)
next
  case False
  then show ?thesis using Clear_law [OF assms(3)]
    by (auto simp: SliceTensorShape_def held_dims [OF assms(2)] fits_def Let_def)
qed

section \<open>Reading what was printed\<close>

text \<open>
  What \<open>absl::StrSplit\<close> documents for one character: the pieces between its occurrences, in order,
  the empty ones included.  \<open>join_with\<close> puts pieces together.
\<close>

fun join_with :: "char \<Rightarrow> string list \<Rightarrow> string" where
  "join_with c [] = []"
| "join_with c [p] = p"
| "join_with c (p # ps) = p @ c # join_with c ps"

definition splits_at :: "splitter \<Rightarrow> bool" where
  "splits_at split \<longleftrightarrow> (\<forall>c ps. ps \<noteq> [] \<and> (\<forall>p \<in> set ps. c \<notin> set p) \<longrightarrow> split c (join_with c ps) = ps)"

text \<open>A splitter that does this.\<close>

fun char_split :: "char \<Rightarrow> string \<Rightarrow> string list" where
  "char_split c [] = [[]]"
| "char_split c (x # xs) = (if x = c then [] # char_split c xs else (case char_split c xs of [] \<Rightarrow> [[x]] | p # ps \<Rightarrow> (x # p) # ps))"

lemma char_split_append: "c \<notin> set p \<Longrightarrow> char_split c (p @ xs) = (case char_split c xs of [] \<Rightarrow> [p] | q # qs \<Rightarrow> (p @ q) # qs)"
proof (induction p)
  case Nil
  have "char_split c xs \<noteq> []" by (cases xs) (auto split: list.splits)
  then show ?case by (auto split: list.splits)
qed (auto split: list.splits)

lemma splits_at_char_split: "splits_at char_split"
proof -
  have "char_split c (join_with c ps) = ps" if "ps \<noteq> []" "\<forall>p \<in> set ps. c \<notin> set p" for c ps
    using that
  proof (induction c ps rule: join_with.induct)
    case (2 c p)
    then show ?case using char_split_append [of c p "[]"] by simp
  next
    case (3 c p q ps)
    then show ?case using char_split_append [of c p "c # join_with c (q # ps)"] by simp
  qed simp
  then show ?thesis by (simp add: splits_at_def)
qed

lemma splits_atD: "splits_at split \<Longrightarrow> ps \<noteq> [] \<Longrightarrow> (\<And>p. p \<in> set ps \<Longrightarrow> c \<notin> set p) \<Longrightarrow> split c (join_with c ps) = ps"
  by (simp add: splits_at_def)

lemma join_nonempty: "p \<in> set ps \<Longrightarrow> p \<noteq> [] \<Longrightarrow> join_with c ps \<noteq> []"
  by (induction c ps rule: join_with.induct) auto

lemma debug_loop_join:
  "debug_loop s True ds = join_with (CHR '':'') (map (extent_text s) ds)"
  "ds \<noteq> [] \<Longrightarrow> debug_loop s False ds = CHR '':'' # join_with (CHR '':'') (map (extent_text s) ds)"
proof -
  have *: "debug_loop s False ds = (if ds = [] then [] else CHR '':'' # join_with (CHR '':'') (map (extent_text s) ds))" for ds
  proof (induction ds)
    case (Cons d ds)
    then show ?case by (cases ds) auto
  qed simp
  show "debug_loop s True ds = join_with (CHR '':'') (map (extent_text s) ds)" by (cases ds) (auto simp: * neq_Nil_conv)
  show "ds \<noteq> [] \<Longrightarrow> debug_loop s False ds = CHR '':'' # join_with (CHR '':'') (map (extent_text s) ds)" by (simp add: *)
qed

text \<open>The text of one extent.\<close>

lemma num_chars: "- (2 ^ 63) \<le> i \<Longrightarrow> i < 2 ^ 63 \<Longrightarrow> \<not> isdigit c \<Longrightarrow> c \<noteq> CHR ''-'' \<Longrightarrow> c \<notin> set (num i)"
  using FastInt64_chars by blast

lemma separators: "\<not> isdigit (CHR '':'')" "\<not> isdigit (CHR '','')" "\<not> isdigit (CHR '' '')"
  by (simp_all add: isdigit_def)

lemma extent_text_piece:
  assumes "slice_ok s" "d < slice_dims s"
  shows "CHR '':'' \<notin> set (extent_text s d) \<and> extent_text s d \<noteq> []"
  using slice_okD [OF assms] num_chars separators by (auto simp: extent_text_def)

lemma extent_text_pair:
  assumes "splits_at split" "slice_ok s" "d < slice_dims s" "\<not> IsFullAt s d"
  shows "map safe_strto64 (Split_SkipEmpty split (extent_text s d) (CHR '','')) = [Some (start s d), Some (slength s d)]"
    "extent_text s d \<noteq> ''-''"
proof -
  have r: "0 \<le> start s d" "start s d < 2 ^ 63" "0 < slength s d" "slength s d < 2 ^ 63"
    using slice_okD [OF assms(2,3)] assms(4) by auto
  have t: "extent_text s d = join_with (CHR '','') [num (start s d), num (slength s d)]" using assms(4) by (simp add: extent_text_def)
  have "split (CHR '','') (extent_text s d) = [num (start s d), num (slength s d)]"
    unfolding t using r num_chars separators by (intro splits_atD [OF assms(1)]) auto
  then show "map safe_strto64 (Split_SkipEmpty split (extent_text s d) (CHR '','')) = [Some (start s d), Some (slength s d)]"
    using r FastInt64_nonempty safe_strto64_print by (simp add: Split_SkipEmpty_def t)
  have "CHR '','' \<in> set (extent_text s d)" by (simp add: t)
  then show "extent_text s d \<noteq> ''-''" by auto
qed

lemma parse_loop_texts:
  assumes "splits_at split" "slice_ok s" "set ds \<subseteq> {..<slice_dims s}"
  shows "parse_loop split str (map (extent_text s) ds) sl =
    (OkStatus, sl\<lparr>ts_starts := ts_starts sl @ map (start s) ds, ts_lengths := ts_lengths sl @ map (slength s) ds\<rparr>)"
  using assms(3)
proof (induction ds arbitrary: sl)
  case (Cons d ds)
  then have d: "d < slice_dims s" by simp
  show ?case
  proof (cases "IsFullAt s d")
    case True
    then show ?thesis using Cons by (simp add: extent_text_def IsFullAt_alt)
  next
    case False
    then show ?thesis
      using Cons extent_text_pair [OF assms(1,2) d False] slice_okD [OF assms(2) d] by auto
  qed
qed simp

lemma map_extents: "slice_ok s \<Longrightarrow> map (start s) [0..<slice_dims s] = ts_starts s \<and> map (slength s) [0..<slice_dims s] = ts_lengths s"
  using slice_ok_lengths [of s] by (auto simp: start_def slength_def slice_dims_def intro!: nth_equalityI)

lemma Parse_DebugString:
  assumes "splits_at split" "slice_ok s"
  shows "Parse split (slice_DebugString s) sl =
    (OkStatus, sl\<lparr>ts_starts := ts_starts sl @ ts_starts s, ts_lengths := ts_lengths sl @ ts_lengths s\<rparr>)"
proof -
  let ?ds = "[0..<slice_dims s]"
  let ?ps = "map (extent_text s) ?ds"
  have p: "p \<in> set ?ps \<Longrightarrow> CHR '':'' \<notin> set p \<and> p \<noteq> []" for p using extent_text_piece [OF assms(2)] by auto
  have "Split_SkipEmpty split (slice_DebugString s) (CHR '':'') = ?ps"
  proof (cases "slice_dims s = 0")
    case False
    then have ne: "?ps \<noteq> []" by simp
    then have "join_with (CHR '':'') ?ps \<noteq> []" using p join_nonempty by (metis list.set_sel(1))
    moreover have "split (CHR '':'') (join_with (CHR '':'') ?ps) = ?ps" using p by (intro splits_atD [OF assms(1) ne]) auto
    moreover have "filter (\<lambda>x. x \<noteq> []) ?ps = ?ps" using p by (intro filter_True) blast
    ultimately show ?thesis by (simp add: Split_SkipEmpty_def slice_DebugString_def debug_loop_join)
  qed (simp add: Split_SkipEmpty_def slice_DebugString_def)
  moreover have "set ?ds \<subseteq> {..<slice_dims s}" by auto
  ultimately show ?thesis
    unfolding Parse_def using map_extents [OF assms(2)] by (simp add: parse_loop_texts [OF assms])
qed

text \<open>Different slices print differently.\<close>

lemma DebugString_inject:
  assumes "slice_ok s" "slice_ok t" "slice_DebugString s = slice_DebugString t"
  shows "s = t"
  using Parse_DebugString [OF splits_at_char_split assms(1), of TensorSlice]
    Parse_DebugString [OF splits_at_char_split assms(2), of TensorSlice] assms(3)
  by (simp add: TensorSlice_def)

text \<open>\<open>Parse\<close> lets an extent through whose end overflows, which \<open>BuildTensorSlice\<close> does not.\<close>

lemma Parse_overflow:
  "ParseOrDie char_split ''1,9223372036854775807'' = Some \<lparr>ts_starts = [1], ts_lengths = [2 ^ 63 - 1]\<rparr>"
  "\<exists>m r. BuildTensorSlice text [\<lparr>ex_start = 1, ex_length = Some (2 ^ 63 - 1)\<rparr>] out = (Error INVALID_ARGUMENT m, r)"
  "send \<lparr>ts_starts = [1], ts_lengths = [2 ^ 63 - 1]\<rparr> 0 = - (2 ^ 63)"
  subgoal by code_simp
  subgoal by (simp add: BuildTensorSlice_def GetExtentLength_def kFullExtent_def slice_Clear_def Let_def)
  subgoal by code_simp
  done
section \<open>The cover is the least one\<close>

lemma slice_nonempty:
  assumes "slice_ok s"
  shows "contains s (map (origin s) [0..<slice_dims s])"
  using slice_okD [OF assms] by (fastforce simp: contains_def covers_def origin_def)

lemma contains_update:
  assumes "slice_ok s" "covers s d a"
  shows "contains s ((map (origin s) [0..<slice_dims s])[d := a])"
proof -
  have "covers s i ((map (origin s) [0..<slice_dims s])[d := a] ! i)" if "i < slice_dims s" for i
    using slice_nonempty [OF assms(1)] assms(2) that by (cases "i = d") (auto simp: contains_def)
  then show ?thesis by (simp add: contains_def)
qed

lemma covers_between: "covers s d a \<Longrightarrow> covers s d b \<Longrightarrow> a \<le> i \<Longrightarrow> i \<le> b \<Longrightarrow> covers s d i"
  by (auto simp: covers_def)

lemma cover_least:
  assumes "slice_ok s" "slice_ok other" "slice_dims s = slice_dims other" "slice_ok c"
    "\<forall>is. contains s is \<or> contains other is \<longrightarrow> contains c is" "contains (UpdateToCover other s) is"
  shows "contains c is"
proof -
  have "contains c (map (origin s) [0..<slice_dims s])" using assms(5) slice_nonempty [OF assms(1)] by blast
  then have dc: "slice_dims c = slice_dims s" by (simp add: contains_def)
  have cov: "covers c d a" if "d < slice_dims s" "covers s d a \<or> covers other d a" for d a
  proof -
    have "contains c ((map (origin s) [0..<slice_dims s])[d := a]) \<or> contains c ((map (origin other) [0..<slice_dims s])[d := a])"
      using that(2) contains_update [OF assms(1), of d a] contains_update [OF assms(2), of d a] assms(3,5) by auto
    then obtain v where "contains c (v[d := a])" "length v = slice_dims s" by auto
    then show ?thesis using that(1) dc by (auto simp: contains_def)
  qed
  have e: "length is = slice_dims s" "\<forall>d < slice_dims s. \<exists>a b. a \<le> is ! d \<and> is ! d \<le> b \<and>
      (covers s d a \<or> covers other d a) \<and> (covers s d b \<or> covers other d b)"
    using UpdateToCover_law [OF assms(1-3)] assms(6) by auto
  have "covers c d (is ! d)" if d: "d < slice_dims s" for d
  proof -
    obtain a b where "a \<le> is ! d" "is ! d \<le> b" "covers s d a \<or> covers other d a" "covers s d b \<or> covers other d b"
      using e(2) d by blast
    then show ?thesis using cov [OF d] covers_between by blast
  qed
  then show ?thesis using e(1) by (simp add: contains_def dc)
qed

lemma holds_exists:
  assumes "representable False ds"
  shows "\<exists>s. holds False s ds"
proof -
  have h: "holds False (TensorShapeBase False raw_shape) []" by (rule holds_TensorShape) (simp add: raw_shape_def)
  have "sizes_ok False ds" using representable_range [OF assms] by (fastforce simp: sizes_ok_def list_all_iff least_size_def)
  then show ?thesis using AddDims_law [OF h, of ds] assms by auto
qed
section \<open>Protocol buffers, read and written\<close>

text \<open>The extents of a message are \<open>int64\<close> values.\<close>

definition proto_ok :: "slice_proto \<Rightarrow> bool" where
  "proto_ok proto \<longleftrightarrow>
     list_all (\<lambda>e. - (2 ^ 63) \<le> ex_start e \<and> ex_start e < 2 ^ 63 \<and> - (2 ^ 63) \<le> GetExtentLength e \<and> GetExtentLength e < 2 ^ 63) proto"

lemma end_check:
  assumes "0 \<le> a" "a < 2 ^ 63" "0 \<le> b" "b < 2 ^ 63"
  shows "unat ((word_of_int a :: u64) + word_of_int b) > 2 ^ 63 - 1 \<longleftrightarrow> a + b \<ge> 2 ^ 63"
proof -
  have "uint ((word_of_int a :: u64) + word_of_int b) = (a + b) mod 2 ^ 64"
    by (simp add: uint_word_ariths uint_word_of_int mod_add_eq)
  also have "\<dots> = a + b" using assms by simp
  finally have u: "uint ((word_of_int a :: u64) + word_of_int b) = a + b" .
  define w where "w = (word_of_int a :: u64) + word_of_int b"
  have "unat w > 2 ^ 63 - 1 \<longleftrightarrow> int (unat w) > int (2 ^ 63 - 1)" by (rule of_nat_less_iff [symmetric])
  also have "\<dots> \<longleftrightarrow> a + b \<ge> 2 ^ 63" using u by (auto simp: w_def)
  finally show ?thesis by (simp add: w_def)
qed

lemma build_step:
  assumes "proto_ok [e]"
  shows "if extent_ok (ex_start e) (GetExtentLength e)
    then build_slice_loop text (e # es) out =
      build_slice_loop text es (out\<lparr>ts_starts := ts_starts out @ [ex_start e], ts_lengths := ts_lengths out @ [GetExtentLength e]\<rparr>)
    else \<exists>m. build_slice_loop text (e # es) out = (Error INVALID_ARGUMENT m, out)"
proof (cases "ex_start e \<noteq> 0 \<or> GetExtentLength e \<noteq> kFullExtent")
  case True
  then have nf: "(ex_start e \<noteq> 0 \<or> GetExtentLength e \<noteq> kFullExtent) = True" by simp
  show ?thesis
  proof (cases "ex_start e < 0 \<or> GetExtentLength e \<le> 0")
    case True
    then have "\<not> extent_ok (ex_start e) (GetExtentLength e)" using nf by (auto simp: extent_ok_def)
    then show ?thesis using True nf by (simp add: Let_def)
  next
    case False
    then have l: "(case ex_length e of None \<Rightarrow> 0 | Some l \<Rightarrow> l) = GetExtentLength e"
      by (auto simp: GetExtentLength_def split: option.splits)
    have r: "0 \<le> ex_start e" "ex_start e < 2 ^ 63" "0 \<le> GetExtentLength e" "GetExtentLength e < 2 ^ 63"
      using False assms by (auto simp: proto_ok_def)
    have "extent_ok (ex_start e) (GetExtentLength e) \<longleftrightarrow> \<not> ex_start e + GetExtentLength e \<ge> 2 ^ 63"
      using False nf by (auto simp: extent_ok_def)
    then show ?thesis
      unfolding build_slice_loop.simps l Let_def end_check [OF r] nf using False by simp
  qed
next
  case False
  then have "extent_ok (ex_start e) (GetExtentLength e)" by (simp add: extent_ok_def)
  then show ?thesis using False by (simp add: Let_def)
qed

lemma build_slice_loop_law:
  "proto_ok es \<Longrightarrow>
    if list_all (\<lambda>e. extent_ok (ex_start e) (GetExtentLength e)) es
    then build_slice_loop text es out =
      (OkStatus, out\<lparr>ts_starts := ts_starts out @ map ex_start es, ts_lengths := ts_lengths out @ map GetExtentLength es\<rparr>)
    else \<exists>m r. build_slice_loop text es out = (Error INVALID_ARGUMENT m, r)"
proof (induction es arbitrary: out)
  case (Cons e es)
  then have p: "proto_ok [e]" "proto_ok es" by (simp_all add: proto_ok_def)
  show ?case
  proof (cases "extent_ok (ex_start e) (GetExtentLength e)")
    case True
    then have "build_slice_loop text (e # es) out =
        build_slice_loop text es (out\<lparr>ts_starts := ts_starts out @ [ex_start e], ts_lengths := ts_lengths out @ [GetExtentLength e]\<rparr>)"
      using build_step [OF p(1), of "text" es out] by (simp del: build_slice_loop.simps)
    then show ?thesis
      using Cons.IH [OF p(2), of "out\<lparr>ts_starts := ts_starts out @ [ex_start e], ts_lengths := ts_lengths out @ [GetExtentLength e]\<rparr>"] True
      by (simp del: build_slice_loop.simps split: if_splits)
  next
    case False
    then show ?thesis using build_step [OF p(1), of "text" es out] by (auto simp del: build_slice_loop.simps)
  qed
qed simp

lemma slice_ok_proto: "slice_ok (TensorSlice_proto proto) \<longleftrightarrow> list_all (\<lambda>e. extent_ok (ex_start e) (GetExtentLength e)) proto"
  by (simp add: slice_ok_def TensorSlice_proto_def list_all2_map1 list_all2_map2 list_all2_same list_all_iff)

lemma proto_of_slice:
  assumes "slice_ok s"
  shows "TensorSlice_proto (slice_AsProto s []) = s" "proto_ok (slice_AsProto s [])"
proof -
  let ?e = "\<lambda>d. if \<not> IsFullAt s d then \<lparr>ex_start = start s d, ex_length = Some (slength s d)\<rparr> else \<lparr>ex_start = 0, ex_length = None\<rparr>"
  have "ex_start (?e d) = start s d" "GetExtentLength (?e d) = slength s d" for d
    by (simp_all add: IsFullAt_alt GetExtentLength_def kFullExtent_def)
  then show "TensorSlice_proto (slice_AsProto s []) = s"
    using map_extents [OF assms] by (simp add: TensorSlice_proto_def slice_AsProto_def comp_def del: upt_Suc)
  show "proto_ok (slice_AsProto s [])"
    using slice_okD [OF assms] by (fastforce simp: proto_ok_def slice_AsProto_def list_all_iff GetExtentLength_def IsFullAt_alt kFullExtent_def)
qed

section \<open>The properties of slices\<close>

text \<open>(C14) The operations on slices are the operations on the sets of index vectors that they stand for.
  For two well-formed slices of one rank: \<open>Intersect\<close> returns whether they have an index vector in
  common, and the slice it writes contains exactly the common ones (it clears the result when there
  is none); \<open>Overlaps\<close> says the same; \<open>UpdateToCover\<close> gives the least well-formed slice that contains
  both.  None of these computations overflows.\<close>

theorem slice_operations:
  assumes "slice_ok s" "slice_ok other" "slice_dims s = slice_dims other"
  shows "(Overlaps other s \<longleftrightarrow> (\<exists>is. contains s is \<and> contains other is)) \<and>
    (if Overlaps other s
     then \<exists>r'. Intersect other (Some r) s = (True, Some r') \<and> slice_ok r' \<and> slice_dims r' = slice_dims s \<and>
       (\<forall>is. contains r' is \<longleftrightarrow> contains s is \<and> contains other is)
     else Intersect other (Some r) s = (False, Some TensorSlice)) \<and>
    slice_ok (UpdateToCover other s) \<and>
    (\<forall>is. contains s is \<or> contains other is \<longrightarrow> contains (UpdateToCover other s) is) \<and>
    (\<forall>c. slice_ok c \<and> (\<forall>is. contains s is \<or> contains other is \<longrightarrow> contains c is) \<longrightarrow>
      (\<forall>is. contains (UpdateToCover other s) is \<longrightarrow> contains c is))"
proof (intro conjI allI impI; (elim conjE)?)
  show o: "Overlaps other s \<longleftrightarrow> (\<exists>is. contains s is \<and> contains other is)" by (rule Overlaps_iff [OF assms])
  show "if Overlaps other s
     then \<exists>r'. Intersect other (Some r) s = (True, Some r') \<and> slice_ok r' \<and> slice_dims r' = slice_dims s \<and>
       (\<forall>is. contains r' is \<longleftrightarrow> contains s is \<and> contains other is)
     else Intersect other (Some r) s = (False, Some TensorSlice)"
    using Intersect_law [OF assms, of "Some r"] o by (cases "Overlaps other s") auto
  show "slice_ok (UpdateToCover other s)" using UpdateToCover_law [OF assms] by blast
  show "contains (UpdateToCover other s) is" if "contains s is \<or> contains other is" for "is"
    by (rule UpdateToCover_contains [OF assms that])
  fix c "is" assume c: "slice_ok c" "\<forall>is. contains s is \<or> contains other is \<longrightarrow> contains c is" "contains (UpdateToCover other s) is"
  show "contains c is" by (rule cover_least [OF assms c])
qed

lemma slice_operations_witness:
  "Overlaps (TensorSlice_extents [(2, 3), (0, -1)]) (TensorSlice_extents [(0, 4), (1, 1)]) =
     (\<exists>is. contains (TensorSlice_extents [(0, 4), (1, 1)]) is \<and> contains (TensorSlice_extents [(2, 3), (0, -1)]) is) \<and>
   slice_ok (UpdateToCover (TensorSlice_extents [(2, 3), (0, -1)]) (TensorSlice_extents [(0, 4), (1, 1)]))"
proof -
  have "slice_ok (TensorSlice_extents [(0, 4), (1, 1)])" "slice_ok (TensorSlice_extents [(2, 3), (0, -1)])"
    "slice_dims (TensorSlice_extents [(0, 4), (1, 1)]) = slice_dims (TensorSlice_extents [(2, 3), (0, -1)])"
    by code_simp+
  from slice_operations [OF this] show ?thesis by blast
qed

text \<open>(C31) For a tensor with the dimensions \<open>ds\<close>, \<open>SliceTensorShape\<close> always returns: it gives the sizes of the
  slice when each extent ends within the tensor, and their product, which the shape carries as its
  number of elements, is the number of index vectors of the slice in the tensor; otherwise the status
  is an internal error and the result shape is empty.\<close>

theorem slice_shape_counts:
  assumes "slice_ok s" "holds False shape ds" "length (sr_buf result) = 16"
  shows "if fits ds s
    then \<exists>r. SliceTensorShape shape result s = Some (OkStatus, r) \<and> holds False r (slice_sizes ds s) \<and>
      sr_num_elements r = int (card (cells ds s))
    else \<exists>m r. SliceTensorShape shape result s = Some (Error INTERNAL m, r) \<and> holds False r []"
proof -
  have "sr_num_elements r = int (card (cells ds s))" if "fits ds s" "holds False r (slice_sizes ds s)" for r
    using holdsE(5) [OF that(2)] card_cells(2) [OF assms(1) that(1) holdsE(4) [OF assms(2)]] by simp
  then show ?thesis using SliceTensorShape_law [OF assms] by (auto split: if_splits)
qed

lemma slice_shape_counts_witness:
  "\<exists>shape. holds False shape [5, 7] \<and>
    (\<exists>r. SliceTensorShape shape raw_shape (TensorSlice_extents [(2, 3), (0, -1)]) = Some (OkStatus, r) \<and> holds False r [3, 7] \<and>
      sr_num_elements r = int (card (cells [5, 7] (TensorSlice_extents [(2, 3), (0, -1)]))))"
proof -
  obtain shape where shape: "holds False shape [5, 7]" using holds_exists [of "[5, 7]"] representable_small [of "[5, 7]" False]
    by (auto simp: kMaxSmall_def least_size_def)
  have f: "slice_ok (TensorSlice_extents [(2, 3), (0, -1)])" "fits [5, 7] (TensorSlice_extents [(2, 3), (0, -1)])"
    "slice_sizes [5, 7] (TensorSlice_extents [(2, 3), (0, -1)]) = [3, 7]" "length (sr_buf raw_shape) = 16"
    by code_simp+
  from slice_shape_counts [OF f(1) shape f(4)] shape show ?thesis unfolding if_P [OF f(2)] f(3) by blast
qed
lemma BuildTensorSlice_law:
  assumes "proto_ok proto"
  shows "if slice_ok (TensorSlice_proto proto) then BuildTensorSlice text proto out = (OkStatus, TensorSlice_proto proto)
    else \<exists>m r. BuildTensorSlice text proto out = (Error INVALID_ARGUMENT m, r)"
  using build_slice_loop_law [OF assms, of "text" TensorSlice]
  unfolding slice_ok_proto BuildTensorSlice_def slice_Clear_eq
  by (cases "list_all (\<lambda>e. extent_ok (ex_start e) (GetExtentLength e)) proto") (auto simp: TensorSlice_proto_def TensorSlice_def)

text \<open>(C32) A slice is read back from its text and from its message.  For every splitter that does what
  \<open>absl::StrSplit\<close> documents, \<open>Parse\<close> of the text that \<open>DebugString\<close> prints for a well-formed slice
  returns the slice, and so does \<open>BuildTensorSlice\<close> of what \<open>AsProto\<close> writes; \<open>BuildTensorSlice\<close> accepts a
  message of \<open>int64\<close> values exactly when it describes a well-formed slice.\<close>

theorem slice_text_and_proto:
  assumes "splits_at split" "slice_ok s" "proto_ok proto"
  shows "Parse split (slice_DebugString s) TensorSlice = (OkStatus, s) \<and>
    BuildTensorSlice text (slice_AsProto s []) out = (OkStatus, s) \<and>
    (if slice_ok (TensorSlice_proto proto) then BuildTensorSlice text proto out = (OkStatus, TensorSlice_proto proto)
     else \<exists>m r. BuildTensorSlice text proto out = (Error INVALID_ARGUMENT m, r))"
proof -
  have "BuildTensorSlice text (slice_AsProto s []) out = (OkStatus, s)"
    using BuildTensorSlice_law [OF proto_of_slice(2) [OF assms(2)]] assms(2) by (simp add: proto_of_slice(1))
  then show ?thesis using Parse_DebugString [OF assms(1,2), of TensorSlice] BuildTensorSlice_law [OF assms(3)] by (simp add: TensorSlice_def)
qed

lemma slice_text_and_proto_witness:
  "Parse char_split (slice_DebugString (TensorSlice_extents [(2, 3), (0, -1)])) TensorSlice = (OkStatus, TensorSlice_extents [(2, 3), (0, -1)]) \<and>
   (\<exists>m r. BuildTensorSlice (\<lambda>e. []) [\<lparr>ex_start = 1, ex_length = Some (2 ^ 63 - 1)\<rparr>] TensorSlice = (Error INVALID_ARGUMENT m, r))"
proof -
  have s: "slice_ok (TensorSlice_extents [(2, 3), (0, -1)])" by code_simp
  have p: "proto_ok [\<lparr>ex_start = 1, ex_length = Some (2 ^ 63 - 1)\<rparr>]" by code_simp
  have n: "\<not> slice_ok (TensorSlice_proto [\<lparr>ex_start = 1, ex_length = Some (2 ^ 63 - 1)\<rparr>])" by code_simp
  show ?thesis using slice_text_and_proto [OF splits_at_char_split s p, of "\<lambda>e. []" TensorSlice] unfolding if_not_P [OF n] by blast
qed

end
