(* ===== verification/Slice_Set.thy ===== *)
theory Slice_Set
  imports Tensor_Slice "HOL-Library.Multiset"
begin

text \<open>
  The slices of a tensor that a checkpoint has: \<open>core/util/tensor_slice_set.cc\<close> and \<open>tensor_slice_set.h\<close>.
  A \<open>TensorSliceSet\<close> keeps the registered slices of one tensor under their text, and the least slice
  around them, and says which of them supply the data of a slice that is asked for.

  The theory shows the invariant that every set reached by \<open>Register\<close> has (the slices are pairwise
  disjoint and within the tensor, the hull is the least slice around them), that \<open>Register\<close> accepts
  exactly the slices that keep it, and that \<open>QueryMeta\<close>, which only compares numbers of elements,
  returns true exactly when the registered slices have every index vector of the slice.

  The slices are in an \<open>unordered_map\<close>, whose order of iteration is not specified: \<open>order\<close> is the order
  in which a map with the given entries is gone through.  \<open>raw\<close> are the bytes a shape on the stack has
  before its constructor runs.
\<close>

section \<open>The data\<close>

record slice_info =
  si_slice :: tensor_slice
  si_tag :: string
  si_num_floats :: int

type_synonym slice_map = "(string \<times> slice_info) list"

type_synonym iteration = "slice_map \<Rightarrow> slice_map"

type_synonym dtype = int

record slice_set =
  tss_shape :: shape_rep
  tss_type :: dtype
  tss_slices :: slice_map
  tss_hull :: tensor_slice

definition TensorSliceSet :: "shape_rep \<Rightarrow> dtype \<Rightarrow> slice_set" where
  "TensorSliceSet shape ty = \<lparr>tss_shape = shape, tss_type = ty, tss_slices = [], tss_hull = TensorSlice\<rparr>"

text \<open>\<open>insert\<close> of a map leaves an entry that is there.\<close>

definition map_insert :: "string \<Rightarrow> slice_info \<Rightarrow> slice_map \<Rightarrow> slice_map" where
  "map_insert k v m = (if map_of m k = None then m @ [(k, v)] else m)"

section \<open>The operations\<close>

fun find_overlap :: "tensor_slice \<Rightarrow> string \<Rightarrow> slice_map \<Rightarrow> status option" where
  "find_overlap sl str [] = None"
| "find_overlap sl str (x # xs) =
     (if Overlaps (si_slice (snd x)) sl
      then Some (Error INTERNAL (''Overlapping slices: existing slice = '' @ fst x @ '', new slice = '' @ str))
      else find_overlap sl str xs)"

definition Register :: "shape_rep \<Rightarrow> iteration \<Rightarrow> tensor_slice \<Rightarrow> string \<Rightarrow> slice_set \<Rightarrow> (status \<times> slice_set) option" where
  "Register raw order sl tg t =
     Option.bind (SliceTensorShape (tss_shape t) (TensorShapeBase False raw) sl) (\<lambda>(s, result_shape).
       if \<not> ok s then Some (s, t)
       else
         let str = slice_DebugString sl;
             add = (\<lambda>t. (OkStatus, t\<lparr>tss_slices := map_insert str
               \<lparr>si_slice = sl, si_tag = tg, si_num_floats = sr_num_elements result_shape\<rparr> (tss_slices t)\<rparr>))
         in if tss_slices t = [] then Some (add (t\<lparr>tss_hull := sl\<rparr>))
            else
              case (if Overlaps sl (tss_hull t) then find_overlap sl str (order (tss_slices t)) else None) of
                Some e \<Rightarrow> Some (e, t)
              | None \<Rightarrow> Some (add (t\<lparr>tss_hull := UpdateToCover sl (tss_hull t)\<rparr>)))"

text \<open>The loop of \<open>QueryMeta\<close>: \<open>None\<close> as its first result when a shape could not be computed, else the size of the overlap.\<close>

fun query_loop ::
    "shape_rep \<Rightarrow> tensor_slice \<Rightarrow> slice_map \<Rightarrow> tensor_slice \<Rightarrow> shape_rep \<Rightarrow> int \<Rightarrow> (tensor_slice \<times> string) list \<Rightarrow>
     (int option \<times> (tensor_slice \<times> string) list) option" where
  "query_loop shape sl [] itc inter_shape overlap_size results = Some (Some overlap_size, results)"
| "query_loop shape sl (x # xs) itc inter_shape overlap_size results =
     (case Intersect (si_slice (snd x)) (Some itc) sl of
        (True, Some itc) \<Rightarrow>
          Option.bind (SliceTensorShape shape inter_shape itc) (\<lambda>(s, inter_shape).
            if \<not> ok s then Some (None, results)
            else query_loop shape sl xs itc inter_shape (wrap64 (overlap_size + sr_num_elements inter_shape))
                   (results @ [(si_slice (snd x), si_tag (snd x))]))
      | (_, itc') \<Rightarrow> query_loop shape sl xs (case itc' of None \<Rightarrow> itc | Some i \<Rightarrow> i) inter_shape overlap_size results)"

definition QueryMeta :: "shape_rep \<Rightarrow> iteration \<Rightarrow> tensor_slice \<Rightarrow> slice_set \<Rightarrow> (bool \<times> (tensor_slice \<times> string) list) option" where
  "QueryMeta raw order sl t =
     (case map_of (tss_slices t) (slice_DebugString sl) of
        Some info \<Rightarrow> Some (True, [(si_slice info, si_tag info)])
      | None \<Rightarrow>
          Option.bind (SliceTensorShape (tss_shape t) (TensorShapeBase False raw) sl) (\<lambda>(s, target_shape).
            if \<not> ok s then Some (False, [])
            else
              Option.bind (query_loop (tss_shape t) sl (order (tss_slices t)) TensorSlice (TensorShapeBase False raw) 0 [])
                (\<lambda>(overlap_size, results).
                   case overlap_size of
                     None \<Rightarrow> Some (False, results)
                   | Some n \<Rightarrow> if sr_num_elements target_shape = n then Some (True, results) else Some (False, []))))"

text \<open>The sets of several tensors; \<open>DataTypeString\<close> is the text of a type.\<close>

definition RegisterTensorSlice ::
    "shape_rep \<Rightarrow> iteration \<Rightarrow> (dtype \<Rightarrow> string) \<Rightarrow> string \<Rightarrow> shape_rep \<Rightarrow> dtype \<Rightarrow> string \<Rightarrow> tensor_slice \<Rightarrow>
     (string \<rightharpoonup> slice_set) \<Rightarrow> (status \<times> (string \<rightharpoonup> slice_set)) option" where
  "RegisterTensorSlice raw order DataTypeString name shape ty tg sl m =
     (let register = (\<lambda>tss. map_option (\<lambda>(s, tss). (s, m(name \<mapsto> tss))) (Register raw order sl tg tss)) in
      case m name of
        None \<Rightarrow> register (TensorSliceSet shape ty)
      | Some tss \<Rightarrow>
          if \<not> IsSameSize shape (tss_shape tss)
          then Some (Error INTERNAL (''Incompatible tensor shapes detected for tensor '' @ name @ '': existing = '' @
                 DebugString (tss_shape tss) @ '', new = '' @ DebugString shape), m)
          else if ty \<noteq> tss_type tss
          then Some (Error INTERNAL (''Incompatible tensor types detected for tensor '' @ name @ '': existing = '' @
                 DataTypeString (tss_type tss) @ '', new = '' @ DataTypeString ty), m)
          else register tss)"

section \<open>The invariant\<close>

definition meets :: "tensor_slice \<Rightarrow> tensor_slice \<Rightarrow> bool" where
  "meets s s' \<longleftrightarrow> (\<exists>is. contains s is \<and> contains s' is)"

definition within :: "tensor_slice \<Rightarrow> tensor_slice \<Rightarrow> bool" where
  "within s s' \<longleftrightarrow> (\<forall>is. contains s is \<longrightarrow> contains s' is)"

text \<open>One entry of the map: the key is the text of the slice, the slice is within the tensor, and the number is that of its elements.\<close>

definition entry_ok :: "int list \<Rightarrow> string \<times> slice_info \<Rightarrow> bool" where
  "entry_ok ds x \<longleftrightarrow> fst x = slice_DebugString (si_slice (snd x)) \<and> slice_ok (si_slice (snd x)) \<and> fits ds (si_slice (snd x)) \<and>
     si_num_floats (snd x) = int (card (cells ds (si_slice (snd x))))"

definition disjoint_slices :: "slice_map \<Rightarrow> bool" where
  "disjoint_slices m \<longleftrightarrow> pairwise (\<lambda>x y. \<not> meets (si_slice (snd x)) (si_slice (snd y))) (set m)"

definition hull_of :: "int list \<Rightarrow> slice_map \<Rightarrow> tensor_slice \<Rightarrow> bool" where
  "hull_of ds m h \<longleftrightarrow> slice_ok h \<and> slice_dims h = length ds \<and> (\<forall>x \<in> set m. within (si_slice (snd x)) h) \<and>
     (\<forall>c. slice_ok c \<and> (\<forall>x \<in> set m. within (si_slice (snd x)) c) \<longrightarrow> within h c)"

definition slice_set_ok :: "int list \<Rightarrow> slice_set \<Rightarrow> bool" where
  "slice_set_ok ds t \<longleftrightarrow> holds False (tss_shape t) ds \<and> distinct (map fst (tss_slices t)) \<and> (\<forall>x \<in> set (tss_slices t). entry_ok ds x) \<and>
     disjoint_slices (tss_slices t) \<and> (tss_slices t \<noteq> [] \<longrightarrow> hull_of ds (tss_slices t) (tss_hull t))"

text \<open>Going through a map gives each entry once.\<close>

definition iterates :: "iteration \<Rightarrow> bool" where
  "iterates order \<longleftrightarrow> (\<forall>m. mset (order m) = mset m)"

lemma iterates_set: "iterates order \<Longrightarrow> set (order m) = set m"
  by (metis iterates_def set_mset_mset)

lemma slice_set_okD:
  assumes "slice_set_ok ds t"
  shows "holds False (tss_shape t) ds" "distinct (map fst (tss_slices t))" "\<And>x. x \<in> set (tss_slices t) \<Longrightarrow> entry_ok ds x"
    "disjoint_slices (tss_slices t)" "tss_slices t \<noteq> [] \<Longrightarrow> hull_of ds (tss_slices t) (tss_hull t)"
  using assms by (auto simp: slice_set_ok_def)

lemma entry_okD:
  assumes "entry_ok ds x"
  shows "fst x = slice_DebugString (si_slice (snd x))" "slice_ok (si_slice (snd x))" "fits ds (si_slice (snd x))"
    "slice_dims (si_slice (snd x)) = length ds"
  using assms by (auto simp: entry_ok_def fits_def)

lemma meets_refl: "slice_ok s \<Longrightarrow> meets s s"
  using slice_nonempty by (auto simp: meets_def)

lemma meets_sym: "meets s s' \<longleftrightarrow> meets s' s"
  by (auto simp: meets_def)

lemma Overlaps_meets: "slice_ok s \<Longrightarrow> slice_ok s' \<Longrightarrow> slice_dims s = slice_dims s' \<Longrightarrow> Overlaps s' s \<longleftrightarrow> meets s s'"
  by (simp add: Overlaps_iff meets_def)

lemma TensorSliceSet_ok: "holds False shape ds \<Longrightarrow> slice_set_ok ds (TensorSliceSet shape ty)"
  by (simp add: slice_set_ok_def TensorSliceSet_def disjoint_slices_def)

lemma length_raw: "length (sr_buf raw) = 16 \<Longrightarrow> length (sr_buf (TensorShapeBase False raw)) = 16"
  using holdsE(7) [OF holds_TensorShape] by blast

text \<open>The search for an overlapping slice.\<close>

lemma find_overlap_law:
  assumes "\<forall>x \<in> set xs. entry_ok ds x" "slice_ok sl" "slice_dims sl = length ds"
  shows "if \<exists>x \<in> set xs. meets sl (si_slice (snd x)) then \<exists>m. find_overlap sl str xs = Some (Error INTERNAL m) else find_overlap sl str xs = None"
  using assms(1)
proof (induction xs)
  case (Cons x xs)
  then have "Overlaps (si_slice (snd x)) sl \<longleftrightarrow> meets sl (si_slice (snd x))"
    using Overlaps_meets [OF assms(2)] entry_okD(2,4) [of ds x] assms(3) by simp
  then show ?case using Cons by (auto split: if_splits)
qed simp

lemma fresh_key:
  assumes "slice_set_ok ds t" "slice_ok sl" "\<forall>x \<in> set (tss_slices t). \<not> meets sl (si_slice (snd x))"
  shows "map_of (tss_slices t) (slice_DebugString sl) = None"
proof (rule ccontr)
  assume "map_of (tss_slices t) (slice_DebugString sl) \<noteq> None"
  then obtain i where i: "(slice_DebugString sl, i) \<in> set (tss_slices t)" using map_of_SomeD by fastforce
  note e = entry_okD [OF slice_set_okD(3) [OF assms(1) i]]
  have "sl = si_slice i" using DebugString_inject [OF assms(2), of "si_slice i"] e(1,2) by simp
  then show False using assms(3) i meets_refl [OF assms(2)] by fastforce
qed

text \<open>The hull after a slice is added, to the empty set and to one that has slices.\<close>

lemma within_refl: "within s s"
  by (simp add: within_def)

lemma hull_of_one: "slice_ok sl \<Longrightarrow> slice_dims sl = length ds \<Longrightarrow> si_slice (snd x) = sl \<Longrightarrow> hull_of ds [x] sl"
  by (auto simp: hull_of_def within_refl)

lemma hull_of_more:
  assumes "hull_of ds m h" "slice_ok sl" "slice_dims sl = length ds" "si_slice (snd x) = sl"
  shows "hull_of ds (m @ [x]) (UpdateToCover sl h)"
proof -
  have h: "slice_ok h" "slice_dims h = slice_dims sl" "slice_dims h = length ds" using assms(1,3) by (auto simp: hull_of_def)
  note law = UpdateToCover_law [OF h(1) assms(2) h(2)]
  have c: "within h (UpdateToCover sl h)" "within sl (UpdateToCover sl h)"
    using UpdateToCover_contains [OF h(1) assms(2) h(2)] by (auto simp: within_def)
  have least: "within (UpdateToCover sl h) c" if "slice_ok c" "within h c" "within sl c" for c
  proof -
    have "\<forall>is. contains h is \<or> contains sl is \<longrightarrow> contains c is" using that(2,3) unfolding within_def by blast
    then show ?thesis unfolding within_def using cover_least [OF h(1) assms(2) h(2) that(1)] by blast
  qed
  have in_cover: "within (si_slice (snd y)) (UpdateToCover sl h)" if "y \<in> set m" for y
    using assms(1) that c(1) unfolding hull_of_def within_def by blast
  have "within h c" if "slice_ok c" "\<forall>y \<in> set m. within (si_slice (snd y)) c" for c
    using assms(1) that unfolding hull_of_def by blast
  then have "within (UpdateToCover sl h) c" if "slice_ok c" "\<forall>y \<in> set (m @ [x]). within (si_slice (snd y)) c" for c
    using assms(4) least [of c] that by simp
  moreover have "\<forall>y \<in> set (m @ [x]). within (si_slice (snd y)) (UpdateToCover sl h)"
    using in_cover c(2) assms(4) by simp
  ultimately show ?thesis unfolding hull_of_def using law h(3) by simp
qed

lemma add_ok:
  assumes "slice_set_ok ds t" "slice_ok sl" "fits ds sl" "\<forall>x \<in> set (tss_slices t). \<not> meets sl (si_slice (snd x))"
    "num_floats = int (card (cells ds sl))" "hull_of ds (tss_slices t @ [(slice_DebugString sl, \<lparr>si_slice = sl, si_tag = tg, si_num_floats = num_floats\<rparr>)]) h"
  shows "slice_set_ok ds (t\<lparr>tss_hull := h, tss_slices := tss_slices t @ [(slice_DebugString sl, \<lparr>si_slice = sl, si_tag = tg, si_num_floats = num_floats\<rparr>)]\<rparr>)"
proof -
  have "slice_DebugString sl \<notin> fst ` set (tss_slices t)" using fresh_key [OF assms(1,2,4)] by (simp add: map_of_eq_None_iff)
  moreover have "entry_ok ds (slice_DebugString sl, \<lparr>si_slice = sl, si_tag = tg, si_num_floats = num_floats\<rparr>)"
    using assms(2,3,5) by (simp add: entry_ok_def)
  moreover have "disjoint_slices (tss_slices t @ [(slice_DebugString sl, \<lparr>si_slice = sl, si_tag = tg, si_num_floats = num_floats\<rparr>)])"
    using slice_set_okD(4) [OF assms(1)] assms(4) meets_sym unfolding disjoint_slices_def
    by (simp add: pairwise_insert)
  ultimately show ?thesis using assms(1,6) by (auto simp: slice_set_ok_def)
qed

lemma Register_law:
  assumes "slice_set_ok ds t" "slice_ok sl" "iterates order" "length (sr_buf raw) = 16"
  shows "if fits ds sl \<and> (\<forall>x \<in> set (tss_slices t). \<not> meets sl (si_slice (snd x)))
    then \<exists>t'. Register raw order sl tg t = Some (OkStatus, t') \<and> slice_set_ok ds t' \<and> tss_shape t' = tss_shape t \<and> tss_type t' = tss_type t \<and>
      tss_slices t' = tss_slices t @ [(slice_DebugString sl, \<lparr>si_slice = sl, si_tag = tg, si_num_floats = int (card (cells ds sl))\<rparr>)]
    else \<exists>m. Register raw order sl tg t = Some (Error INTERNAL m, t)"
proof (cases "fits ds sl")
  case False
  then obtain m r where "SliceTensorShape (tss_shape t) (TensorShapeBase False raw) sl = Some (Error INTERNAL m, r)"
    using SliceTensorShape_law [OF assms(2) slice_set_okD(1) [OF assms(1)] length_raw [OF assms(4)]] by auto
  then show ?thesis using False by (simp add: Register_def)
next
  case True
  note i = slice_set_okD [OF assms(1)]
  define n where "n = int (card (cells ds sl))"
  define e where "e = (slice_DebugString sl, \<lparr>si_slice = sl, si_tag = tg, si_num_floats = n\<rparr>)"
  have dims: "slice_dims sl = length ds" using True by (simp add: fits_def)
  obtain r where r: "SliceTensorShape (tss_shape t) (TensorShapeBase False raw) sl = Some (OkStatus, r)" "holds False r (slice_sizes ds sl)"
    using SliceTensorShape_law [OF assms(2) i(1) length_raw [OF assms(4)]] True by auto
  have n: "sr_num_elements r = n" unfolding n_def using holdsE(5) [OF r(2)] card_cells(2) [OF assms(2) True holdsE(4) [OF i(1)]] by simp
  have "\<forall>x \<in> set (order (tss_slices t)). entry_ok ds x" using i(3) iterates_set [OF assms(3)] by simp
  note fo = find_overlap_law [OF this assms(2) dims, unfolded iterates_set [OF assms(3)]]
  show ?thesis
  proof (cases "\<forall>x \<in> set (tss_slices t). \<not> meets sl (si_slice (snd x))")
    case disj: True
    have fresh: "map_of (tss_slices t) (slice_DebugString sl) = None" by (rule fresh_key [OF assms(1,2) disj])
    have fo: "find_overlap sl (slice_DebugString sl) (order (tss_slices t)) = None" using fo [of "slice_DebugString sl"] disj by (simp split: if_splits)
    define h where "h = (if tss_slices t = [] then sl else UpdateToCover sl (tss_hull t))"
    have "hull_of ds (tss_slices t @ [e]) h"
      using hull_of_one [OF assms(2) dims, of e] hull_of_more [OF i(5) assms(2) dims, of e] by (simp add: h_def e_def)
    then have "slice_set_ok ds (t\<lparr>tss_hull := h, tss_slices := tss_slices t @ [e]\<rparr>)"
      unfolding e_def by (intro add_ok [OF assms(1,2) True disj n_def])
    moreover have "Register raw order sl tg t = Some (OkStatus, t\<lparr>tss_hull := h, tss_slices := tss_slices t @ [e]\<rparr>)"
      using r(1) n fresh fo by (simp add: Register_def Let_def map_insert_def h_def e_def)
    ultimately show ?thesis using True disj by (auto simp: e_def n_def)
  next
    case False
    then obtain x where x: "x \<in> set (tss_slices t)" "meets sl (si_slice (snd x))" by blast
    then have ne: "tss_slices t \<noteq> []" by auto
    note h = i(5) [OF ne, unfolded hull_of_def]
    have "meets (tss_hull t) sl" using x h unfolding meets_def within_def by blast
    then have "Overlaps sl (tss_hull t)" using Overlaps_meets [of "tss_hull t" sl] h assms(2) dims by simp
    moreover obtain m where "find_overlap sl (slice_DebugString sl) (order (tss_slices t)) = Some (Error INTERNAL m)"
      using fo [of "slice_DebugString sl"] False by (auto split: if_splits)
    ultimately show ?thesis using r(1) ne False by (auto simp: Register_def Let_def)
  qed
qed
section \<open>Counting finds a cover\<close>

lemma inter_cells: "(\<And>is. contains r is \<longleftrightarrow> contains s is \<and> contains s' is) \<Longrightarrow> cells ds r = cells ds s \<inter> cells ds s'"
  by (auto simp: cells_def)

text \<open>The intersection of two slices within the tensor is within the tensor.\<close>

lemma inter_extent_end:
  assumes "slice_ok s" "slice_ok other" "fits ds s" "fits ds other" "d < length ds" "inter_extent s other d = Some e"
  shows "e = (0, kFullExtent) \<or> wrap64 (fst e + snd e) \<le> ds ! d"
proof -
  have d: "d < slice_dims s" "d < slice_dims other" using assms(3-5) by (auto simp: fits_def)
  have f: "IsFullAt s d \<or> send s d \<le> ds ! d" "IsFullAt other d \<or> send other d \<le> ds ! d"
    using assms(3-5) by (auto simp: fits_def list_all_iff)
  consider (1) "IsFullAt s d" | (2) "\<not> IsFullAt s d" "IsFullAt other d" | (3) "\<not> IsFullAt s d" "\<not> IsFullAt other d" by blast
  then show ?thesis
  proof cases
    case 1
    then show ?thesis using assms(6) f(2) by (auto simp: inter_extent_full IsFullAt_alt send_def)
  next
    case 2
    then show ?thesis using assms(6) f(1) by (auto simp: inter_extent_full send_def)
  next
    case 3
    have e: "e = (max (start s d) (start other d), min (send s d) (send other d) - max (start s d) (start other d))"
      using inter_extent_part [OF assms(1,2) d 3] assms(6) by (simp split: if_splits)
    have "wrap64 (min (send s d) (send other d)) = min (send s d) (send other d)"
      using slice_okD [OF assms(1) d(1)] slice_okD [OF assms(2) d(2)] send_eq [OF assms(1) d(1)] send_eq [OF assms(2) d(2)] 3
      by (intro wrap64_id) auto
    then show ?thesis using e f 3 by (auto simp: min_le_iff_disj)
  qed
qed

lemma fits_inter:
  assumes "slice_ok s" "slice_ok other" "fits ds s" "fits ds other" "Intersect other (Some i) s = (True, Some r)"
  shows "fits ds r"
proof -
  have dims: "slice_dims s = slice_dims other" "slice_dims s = length ds" using assms(3,4) by (auto simp: fits_def)
  have some: "\<forall>d < slice_dims s. inter_extent s other d \<noteq> None" and r: "r = slice_of (slice_dims s) (the \<circ> inter_extent s other)"
    using assms(5) unfolding Intersect_eq [OF dims(1)] by (auto split: if_splits)
  have "IsFullAt r d \<or> send r d \<le> ds ! d" if d: "d < length ds" for d
  proof -
    obtain e where "inter_extent s other d = Some e" using some d dims(2) by auto
    then show ?thesis using inter_extent_end [OF assms(1-4) d] d dims(2) unfolding r by (auto simp: send_def)
  qed
  then show ?thesis using dims(2) r by (simp add: fits_def list_all_iff)
qed

lemma Intersect_meets:
  assumes "slice_ok s" "slice_ok other" "fits ds s" "fits ds other"
  shows "if meets s other
    then \<exists>r. Intersect other (Some i) s = (True, Some r) \<and> slice_ok r \<and> fits ds r \<and> cells ds r = cells ds s \<inter> cells ds other
    else Intersect other (Some i) s = (False, Some TensorSlice)"
proof -
  have dims: "slice_dims s = slice_dims other" using assms(3,4) by (simp add: fits_def)
  show ?thesis
  proof (cases "meets s other")
    case True
    then obtain r where r: "Intersect other (Some i) s = (True, Some r)" "slice_ok r" "\<forall>is. contains r is \<longleftrightarrow> contains s is \<and> contains other is"
      using Intersect_law [OF assms(1,2) dims, of "Some i"] unfolding meets_def by auto
    then show ?thesis using True fits_inter [OF assms r(1)] inter_cells [of r s other] by auto
  next
    case False
    then show ?thesis using Intersect_law [OF assms(1,2) dims, of "Some i"] unfolding if_not_P [OF False] by (auto simp: meets_def)
  qed
qed

text \<open>What the loop of \<open>QueryMeta\<close> counts.\<close>

definition shared :: "int list \<Rightarrow> tensor_slice \<Rightarrow> slice_map \<Rightarrow> int" where
  "shared ds sl xs = (\<Sum>x \<leftarrow> xs. int (card (cells ds sl \<inter> cells ds (si_slice (snd x)))))"

definition suppliers :: "tensor_slice \<Rightarrow> slice_map \<Rightarrow> (tensor_slice \<times> string) list" where
  "suppliers sl xs = map (\<lambda>x. (si_slice (snd x), si_tag (snd x))) (filter (\<lambda>x. meets sl (si_slice (snd x))) xs)"

lemma not_meets_cells: "\<not> meets s s' \<Longrightarrow> cells ds s \<inter> cells ds s' = {}"
  by (auto simp: meets_def cells_def)

lemma shared_bounds:
  assumes "slice_ok sl" "fits ds sl" "representable False ds" "disjoint_slices xs" "distinct (map fst xs)"
  shows "shared ds sl xs = int (card (cells ds sl \<inter> (\<Union>x \<in> set xs. cells ds (si_slice (snd x)))))"
  using assms(4,5)
proof (induction xs)
  case (Cons x xs)
  have "x \<notin> set xs" using Cons.prems(2) by auto
  then have "\<forall>y \<in> set xs. \<not> meets (si_slice (snd x)) (si_slice (snd y))"
    using Cons.prems(1) by (auto simp: disjoint_slices_def pairwise_def)
  then have "(cells ds sl \<inter> cells ds (si_slice (snd x))) \<inter> (cells ds sl \<inter> (\<Union>y \<in> set xs. cells ds (si_slice (snd y)))) = {}"
    using not_meets_cells by blast
  moreover have "finite (cells ds sl)" by (rule card_cells(1) [OF assms(1-3)])
  ultimately have "card (cells ds sl \<inter> (\<Union>y \<in> set (x # xs). cells ds (si_slice (snd y)))) =
      card (cells ds sl \<inter> cells ds (si_slice (snd x))) + card (cells ds sl \<inter> (\<Union>y \<in> set xs. cells ds (si_slice (snd y))))"
    by (subst card_Un_disjoint [symmetric]) (auto simp: Int_Un_distrib)
  moreover have "disjoint_slices xs" using Cons.prems(1) by (auto simp: disjoint_slices_def pairwise_def)
  ultimately show ?case using Cons by (simp add: shared_def)
qed (simp add: shared_def)
lemma shared_le:
  assumes "slice_ok sl" "fits ds sl" "representable False ds" "disjoint_slices xs" "distinct (map fst xs)"
  shows "0 \<le> shared ds sl xs" "shared ds sl xs \<le> int (card (cells ds sl))"
    "shared ds sl xs = int (card (cells ds sl)) \<longleftrightarrow> cells ds sl \<subseteq> (\<Union>x \<in> set xs. cells ds (si_slice (snd x)))"
proof -
  let ?U = "\<Union>x \<in> set xs. cells ds (si_slice (snd x))"
  have fin: "finite (cells ds sl)" by (rule card_cells(1) [OF assms(1-3)])
  have eq: "shared ds sl xs = int (card (cells ds sl \<inter> ?U))" by (rule shared_bounds [OF assms])
  show "0 \<le> shared ds sl xs" "shared ds sl xs \<le> int (card (cells ds sl))"
    unfolding eq using card_mono [OF fin, of "cells ds sl \<inter> ?U"] by auto
  have "card (cells ds sl \<inter> ?U) = card (cells ds sl) \<longleftrightarrow> cells ds sl \<inter> ?U = cells ds sl"
    using card_subset_eq [OF fin, of "cells ds sl \<inter> ?U"] by auto
  then show "shared ds sl xs = int (card (cells ds sl)) \<longleftrightarrow> cells ds sl \<subseteq> ?U" unfolding eq of_nat_eq_iff by blast
qed

lemma query_loop_law:
  assumes "holds False shape ds" "slice_ok sl" "fits ds sl" "\<forall>x \<in> set xs. entry_ok ds x" "length (sr_buf ish) = 16"
    "0 \<le> n" "n + shared ds sl xs < 2 ^ 63"
  shows "query_loop shape sl xs itc ish n results = Some (Some (n + shared ds sl xs), results @ suppliers sl xs)"
  using assms(4-7)
proof (induction xs arbitrary: itc ish n results)
  case (Cons x xs)
  let ?x = "si_slice (snd x)"
  note e = entry_okD [of ds x]
  have x: "slice_ok ?x" "fits ds ?x" using Cons.prems(1) e by auto
  have nn: "0 \<le> shared ds sl xs" by (auto simp: shared_def intro!: sum_list_nonneg)
  show ?case
  proof (cases "meets sl ?x")
    case True
    then obtain r where r: "Intersect ?x (Some itc) sl = (True, Some r)" "slice_ok r" "fits ds r" "cells ds r = cells ds sl \<inter> cells ds ?x"
      using Intersect_meets [OF assms(2) x(1) assms(3) x(2)] by auto
    obtain q where q: "SliceTensorShape shape ish r = Some (OkStatus, q)" "holds False q (slice_sizes ds r)"
      using SliceTensorShape_law [OF r(2) assms(1) Cons.prems(2)] r(3) by auto
    let ?n = "int (card (cells ds sl \<inter> cells ds ?x))"
    have c: "sr_num_elements q = ?n" using holdsE(5) [OF q(2)] card_cells(2) [OF r(2,3) holdsE(4) [OF assms(1)]] r(4) by simp
    have sum: "shared ds sl (x # xs) = ?n + shared ds sl xs" by (simp add: shared_def)
    have w: "wrap64 (n + ?n) = n + ?n" using Cons.prems(3,4) nn sum by (intro wrap64_id) auto
    have "query_loop shape sl (x # xs) itc ish n results = query_loop shape sl xs r q (n + ?n) (results @ [(?x, si_tag (snd x))])"
      using r(1) q(1) c w by simp
    also have "\<dots> = Some (Some (n + ?n + shared ds sl xs), (results @ [(?x, si_tag (snd x))]) @ suppliers sl xs)"
      using Cons.prems sum holdsE(7) [OF q(2)] by (intro Cons.IH) auto
    finally show ?thesis using True sum by (simp add: suppliers_def)
  next
    case False
    then have "Intersect ?x (Some itc) sl = (False, Some TensorSlice)"
      using Intersect_meets [OF assms(2) x(1) assms(3) x(2), of itc] by simp
    then have "query_loop shape sl (x # xs) itc ish n results = query_loop shape sl xs TensorSlice ish n results" by simp
    moreover have "shared ds sl (x # xs) = shared ds sl xs" using not_meets_cells [OF False] by (simp add: shared_def)
    ultimately show ?thesis using Cons False by (simp add: suppliers_def)
  qed
qed (simp add: shared_def suppliers_def)

text \<open>An exact match: the only supplier is the slice itself.\<close>

lemma exact_match:
  assumes "slice_set_ok ds t" "slice_ok sl" "map_of (tss_slices t) (slice_DebugString sl) = Some i"
  shows "si_slice i = sl" "fits ds sl" "cells ds sl \<subseteq> (\<Union>x \<in> set (tss_slices t). cells ds (si_slice (snd x)))"
    "set (suppliers sl (tss_slices t)) = {(sl, si_tag i)}"
proof -
  have m: "(slice_DebugString sl, i) \<in> set (tss_slices t)" by (rule map_of_SomeD [OF assms(3)])
  note e = entry_okD [OF slice_set_okD(3) [OF assms(1) m]]
  show s: "si_slice i = sl" using DebugString_inject [OF assms(2), of "si_slice i"] e(1,2) by simp
  show "fits ds sl" using e(3) s by simp
  show "cells ds sl \<subseteq> (\<Union>x \<in> set (tss_slices t). cells ds (si_slice (snd x)))" using m s by force
  have "x = (slice_DebugString sl, i)" if "x \<in> set (tss_slices t)" "meets sl (si_slice (snd x))" for x
    using pairwiseD [OF slice_set_okD(4) [OF assms(1), unfolded disjoint_slices_def] that(1) m] that(2) s meets_sym by (metis snd_conv)
  then show "set (suppliers sl (tss_slices t)) = {(sl, si_tag i)}"
    using m s meets_refl [OF assms(2)] unfolding suppliers_def by force
qed

lemma QueryMeta_law:
  assumes "slice_set_ok ds t" "slice_ok sl" "iterates order" "length (sr_buf raw) = 16"
  shows "if fits ds sl \<and> cells ds sl \<subseteq> (\<Union>x \<in> set (tss_slices t). cells ds (si_slice (snd x)))
    then \<exists>results. QueryMeta raw order sl t = Some (True, results) \<and> set results = set (suppliers sl (tss_slices t))
    else QueryMeta raw order sl t = Some (False, [])"
proof (cases "map_of (tss_slices t) (slice_DebugString sl)")
  case (Some i)
  then show ?thesis using exact_match [OF assms(1,2) Some] by (simp add: QueryMeta_def)
next
  case None
  note i = slice_set_okD [OF assms(1)] and law = SliceTensorShape_law [OF assms(2) slice_set_okD(1) [OF assms(1)] length_raw [OF assms(4)]]
  show ?thesis
  proof (cases "fits ds sl")
    case False
    then show ?thesis using law None by (auto simp: QueryMeta_def)
  next
    case True
    let ?xs = "order (tss_slices t)"
    have rep: "representable False ds" by (rule holdsE(4) [OF i(1)])
    have st: "set ?xs = set (tss_slices t)" by (rule iterates_set [OF assms(3)])
    have "mset (map fst ?xs) = mset (map fst (tss_slices t))" using assms(3) by (simp add: iterates_def)
    then have dist: "distinct (map fst ?xs)" using i(2) mset_eq_imp_distinct_iff by blast
    have disj: "disjoint_slices ?xs" using i(4) st by (simp add: disjoint_slices_def)
    note sh = shared_le [OF assms(2) True rep disj dist]
    obtain r where r: "SliceTensorShape (tss_shape t) (TensorShapeBase False raw) sl = Some (OkStatus, r)" "holds False r (slice_sizes ds sl)"
      using law True by auto
    have n: "sr_num_elements r = int (card (cells ds sl))" using holdsE(5) [OF r(2)] card_cells(2) [OF assms(2) True rep] by simp
    have "int (card (cells ds sl)) < 2 ^ 63"
      unfolding card_cells(2) [OF assms(2) True rep] by (rule representable_elements [OF representable_le [OF rep slice_sizes_le [OF assms(2) True rep]]])
    then have q: "query_loop (tss_shape t) sl ?xs TensorSlice (TensorShapeBase False raw) 0 [] = Some (Some (shared ds sl ?xs), suppliers sl ?xs)"
      using query_loop_law [OF i(1) assms(2) True, of ?xs "TensorShapeBase False raw" 0] i(3) st length_raw [OF assms(4)] sh(2) by simp
    have "QueryMeta raw order sl t = (if int (card (cells ds sl)) = shared ds sl ?xs then Some (True, suppliers sl ?xs) else Some (False, []))"
      using None r(1) q n by (simp add: QueryMeta_def)
    moreover have "set (suppliers sl ?xs) = set (suppliers sl (tss_slices t))" by (simp add: suppliers_def st)
    ultimately show ?thesis using sh(3) True unfolding st by (auto split: if_splits)
  qed
qed
section \<open>The properties of slice sets\<close>

text \<open>An example: a tensor of four elements, of which the first two are registered.\<close>

definition first_two :: tensor_slice where "first_two = TensorSlice_extents [(0, 2)]"
definition second_one :: tensor_slice where "second_one = TensorSlice_extents [(1, 1)]"

lemma example_slices: "slice_ok first_two" "slice_ok second_one" "fits [4] first_two" "fits [4] second_one" "length (sr_buf raw_shape) = 16"
  by code_simp+

lemma example_cells: "cells [4] second_one \<subseteq> cells [4] first_two"
proof -
  have "covers second_one 0 i \<longrightarrow> covers first_two 0 i" for i by (auto simp: covers_def first_two_def second_one_def TensorSlice_extents_def
      IsFullAt_def start_def slength_def kFullExtent_def)
  moreover have "slice_dims first_two = 1" "slice_dims second_one = 1" by code_simp+
  ultimately show ?thesis unfolding cells_def contains_def by auto
qed

lemma example_shape: "\<exists>shape. holds False shape [4]"
  using holds_exists [of "[4]"] representable_small [of "[4]" False] by (auto simp: kMaxSmall_def least_size_def)

lemma iterates_rev: "iterates rev"
  by (simp add: iterates_def)

lemma example_register:
  assumes "holds False shape [4]"
  shows "\<exists>t. Register raw_shape rev first_two ''part-0'' (TensorSliceSet shape 1) = Some (OkStatus, t) \<and> slice_set_ok [4] t \<and>
    map (si_slice \<circ> snd) (tss_slices t) = [first_two]"
  using Register_law [OF TensorSliceSet_ok [OF assms, of 1] example_slices(1) iterates_rev example_slices(5), of "''part-0''"] example_slices(3)
  by (auto simp: TensorSliceSet_def)

text \<open>The sets that \<open>Register\<close> makes from the empty one, whatever slices it is given and whatever it answers.\<close>

inductive reachable :: "shape_rep \<Rightarrow> dtype \<Rightarrow> slice_set \<Rightarrow> bool" for shape ty where
  reachable_new: "reachable shape ty (TensorSliceSet shape ty)"
| reachable_Register: "reachable shape ty t \<Longrightarrow> slice_ok sl \<Longrightarrow> iterates order \<Longrightarrow> length (sr_buf raw) = 16 \<Longrightarrow>
    Register raw order sl tg t = Some (s, t') \<Longrightarrow> reachable shape ty t'"

text \<open>(C12) The invariant of slice sets, by rule induction over the sets that \<open>Register\<close> reaches from the empty set of a
  tensor with the dimensions \<open>ds\<close>: the keys are distinct and are the texts of their slices, every slice is well-formed, is
  within the tensor and is recorded with the number of its elements, two slices have no index vector in common, and the
  hull is the least slice around them.  The shape and the type are those of the tensor.\<close>

theorem slice_set_invariant:
  assumes "reachable shape ty t" "holds False shape ds"
  shows "slice_set_ok ds t \<and> tss_shape t = shape \<and> tss_type t = ty"
  using assms(1)
proof (induction rule: reachable.induct)
  case reachable_new
  then show ?case using TensorSliceSet_ok [OF assms(2), of ty] by (simp add: TensorSliceSet_def)
next
  case (reachable_Register t sl order raw tg s t')
  then show ?case using Register_law [of ds t sl order raw tg] by (auto split: if_splits)
qed

lemma slice_set_invariant_witness:
  "\<exists>shape t. reachable shape 1 t \<and> map (si_slice \<circ> snd) (tss_slices t) = [first_two] \<and> slice_set_ok [4] t"
proof -
  obtain shape where shape: "holds False shape [4]" using example_shape by blast
  obtain t where t: "Register raw_shape rev first_two ''part-0'' (TensorSliceSet shape 1) = Some (OkStatus, t)"
    "map (si_slice \<circ> snd) (tss_slices t) = [first_two]" using example_register [OF shape]
    by (elim exE conjE) (rule that; assumption)
  have r: "reachable shape 1 t"
    by (rule reachable_Register [OF reachable_new example_slices(1) iterates_rev example_slices(5) t(1)])
  show ?thesis by (intro exI conjI) (rule r, rule t(2), rule conjunct1 [OF slice_set_invariant [OF r shape]])
qed

text \<open>\<open>Register\<close> always returns.  It accepts a well-formed slice exactly when it is within the tensor and has no
  index vector in common with a registered slice, whatever the order of iteration is and although it first tests the hull only;
  then the slice is added under its text with the number of its elements.  Otherwise the status is an internal error and the set
  is unchanged.\<close>

theorem register_exact:
  assumes "slice_set_ok ds t" "slice_ok sl" "iterates order" "length (sr_buf raw) = 16"
  shows "if fits ds sl \<and> (\<forall>x \<in> set (tss_slices t). \<not> meets sl (si_slice (snd x)))
    then \<exists>t'. Register raw order sl tg t = Some (OkStatus, t') \<and> slice_set_ok ds t' \<and> tss_shape t' = tss_shape t \<and> tss_type t' = tss_type t \<and>
      tss_slices t' = tss_slices t @ [(slice_DebugString sl, \<lparr>si_slice = sl, si_tag = tg, si_num_floats = int (card (cells ds sl))\<rparr>)]
    else \<exists>m. Register raw order sl tg t = Some (Error INTERNAL m, t)"
  by (rule Register_law [OF assms])

lemma register_exact_witness:
  "\<exists>shape t. Register raw_shape rev first_two ''part-0'' (TensorSliceSet shape 1) = Some (OkStatus, t) \<and> slice_set_ok [4] t"
proof -
  obtain shape where shape: "holds False shape [4]" using example_shape by blast
  have "\<forall>x \<in> set (tss_slices (TensorSliceSet shape 1)). \<not> meets first_two (si_slice (snd x))" by (simp add: TensorSliceSet_def)
  then show ?thesis
    using register_exact [OF TensorSliceSet_ok [OF shape, of 1] example_slices(1) iterates_rev example_slices(5), of "''part-0''"]
      example_slices(3) by auto
qed

text \<open>(C11) \<open>QueryMeta\<close> always returns, and returns true exactly when the slice is within the tensor and each of its index
  vectors is in a registered slice, although it only compares numbers of elements; the results are then the registered
  slices that share an index vector with it, each with its tag.  When it returns false the results are empty.\<close>

theorem query_exact:
  assumes "slice_set_ok ds t" "slice_ok sl" "iterates order" "length (sr_buf raw) = 16"
  shows "if fits ds sl \<and> cells ds sl \<subseteq> (\<Union>x \<in> set (tss_slices t). cells ds (si_slice (snd x)))
    then \<exists>results. QueryMeta raw order sl t = Some (True, results) \<and>
      set results = {(si_slice (snd x), si_tag (snd x)) | x. x \<in> set (tss_slices t) \<and> meets sl (si_slice (snd x))}
    else QueryMeta raw order sl t = Some (False, [])"
proof -
  have "set (suppliers sl (tss_slices t)) = {(si_slice (snd x), si_tag (snd x)) | x. x \<in> set (tss_slices t) \<and> meets sl (si_slice (snd x))}"
    unfolding suppliers_def set_map set_filter by blast
  then show ?thesis using QueryMeta_law [OF assms] by (auto split: if_splits)
qed

lemma query_exact_witness:
  "\<exists>t results. slice_set_ok [4] t \<and> QueryMeta raw_shape rev second_one t = Some (True, results)"
proof -
  obtain shape where shape: "holds False shape [4]" using example_shape by blast
  obtain t where t: "slice_set_ok [4] t" "map (si_slice \<circ> snd) (tss_slices t) = [first_two]" using example_register [OF shape]
    by (elim exE conjE) (rule that; assumption)
  have "cells [4] second_one \<subseteq> (\<Union>x \<in> set (tss_slices t). cells [4] (si_slice (snd x)))" using example_cells t(2) by auto
  then show ?thesis using query_exact [OF t(1) example_slices(2) iterates_rev example_slices(5)] example_slices(4) t(1) by auto
qed

text \<open>\<open>RegisterTensorSlice\<close> returns an internal error and leaves the map alone when the tensor is known with another
  shape or type; otherwise the set of the tensor, which is made when there is none, registers the slice.\<close>

theorem register_tensor_slice:
  assumes "\<forall>tss. m name = Some tss \<longrightarrow> slice_set_ok es tss" "holds False shape ds" "slice_ok sl" "iterates order" "length (sr_buf raw) = 16"
  shows "case m name of
      Some tss \<Rightarrow>
        if es \<noteq> ds \<or> tss_type tss \<noteq> ty
        then \<exists>e. RegisterTensorSlice raw order type_text name shape ty tg sl m = Some (Error INTERNAL e, m)
        else \<exists>s tss'. RegisterTensorSlice raw order type_text name shape ty tg sl m = Some (s, m(name \<mapsto> tss')) \<and>
          Register raw order sl tg tss = Some (s, tss') \<and> slice_set_ok ds tss'
    | None \<Rightarrow> \<exists>s tss'. RegisterTensorSlice raw order type_text name shape ty tg sl m = Some (s, m(name \<mapsto> tss')) \<and>
        Register raw order sl tg (TensorSliceSet shape ty) = Some (s, tss') \<and> slice_set_ok ds tss'"
proof -
  have reg: "\<exists>s t'. Register raw order sl tg t = Some (s, t') \<and> slice_set_ok ds t'" if "slice_set_ok ds t" for t
    using Register_law [OF that assms(3-5), of tg] that by (auto split: if_splits)
  show ?thesis
  proof (cases "m name")
    case None
    then show ?thesis using reg [OF TensorSliceSet_ok [OF assms(2), of ty]] by (auto simp: RegisterTensorSlice_def Let_def)
  next
    case (Some tss)
    have h: "holds False (tss_shape tss) es" using assms(1) Some by (simp add: slice_set_ok_def)
    have same: "IsSameSize shape (tss_shape tss) \<longleftrightarrow> es = ds" using IsSameSize_iff [OF assms(2) h] by auto
    show ?thesis
    proof (cases "es = ds \<and> tss_type tss = ty")
      case True
      then show ?thesis using Some same reg [of tss] assms(1) by (auto simp: RegisterTensorSlice_def Let_def)
    next
      case False
      then show ?thesis using Some same by (auto simp: RegisterTensorSlice_def Let_def)
    qed
  qed
qed

lemma register_tensor_slice_witness:
  "\<exists>shape s tss. holds False shape [4] \<and>
    RegisterTensorSlice raw_shape rev (\<lambda>ty. ''float'') ''w'' shape 1 ''part-0'' first_two Map.empty = Some (s, [''w'' \<mapsto> tss]) \<and> slice_set_ok [4] tss"
proof -
  obtain shape where shape: "holds False shape [4]" using example_shape by blast
  have "\<exists>s tss. RegisterTensorSlice raw_shape rev (\<lambda>ty. ''float'') ''w'' shape 1 ''part-0'' first_two Map.empty = Some (s, [''w'' \<mapsto> tss]) \<and>
      slice_set_ok [4] tss"
    using register_tensor_slice [where m = Map.empty and name = "''w''" and es = "[4]" and ty = 1 and type_text = "\<lambda>ty. ''float''" and
        tg = "''part-0''", OF _ shape example_slices(1) iterates_rev example_slices(5)] by auto
  with shape show ?thesis by blast
qed

text \<open>A slice that a new tensor refuses leaves an empty set for the tensor in the map.\<close>

lemma refused_slice_leaves_set:
  assumes "m name = None" "holds False shape ds" "slice_ok sl" "\<not> fits ds sl" "iterates order" "length (sr_buf raw) = 16"
  shows "\<exists>e. RegisterTensorSlice raw order type_text name shape ty tg sl m = Some (Error INTERNAL e, m(name \<mapsto> TensorSliceSet shape ty))"
  using Register_law [OF TensorSliceSet_ok [OF assms(2), of ty] assms(3,5,6), of tg] assms(1,4)
  by (auto simp: RegisterTensorSlice_def Let_def)

end
