(* ===== verification/Ordered_Code.thy ===== *)
theory Ordered_Code
  imports Coding
begin

text \<open>
  The order-preserving encodings of \<open>core/lib/strings/ordered_code.cc\<close>, from which the keys of
  checkpoint tables are built: strings, unsigned and signed 64-bit numbers.  A writer takes the
  destination and returns it extended; a reader takes the source and returns the item with the
  rest of the source, \<open>None\<close> where the code returns \<open>false\<close>.

  For each item type the reader inverts the writer, and the byte order of two encodings is the
  order of the items whatever is appended to them, which is what makes concatenations of
  encodings sort like the sequences of items.
\<close>

section \<open>Strings\<close>

definition kEscape1 :: byte where "kEscape1 = 0x00"
definition kNullCharacter :: byte where "kNullCharacter = 0xff"
definition kSeparator :: byte where "kSeparator = 0x01"
definition kEscape2 :: byte where "kEscape2 = 0xff"
definition kFFCharacter :: byte where "kFFCharacter = 0x00"

lemmas escapes = kEscape1_def kNullCharacter_def kSeparator_def kEscape2_def kFFCharacter_def

definition IsSpecialByte :: "byte \<Rightarrow> bool" where
  "IsSpecialByte c \<longleftrightarrow> c + 1 < 2"

text \<open>The pointer returned by \<open>SkipToNextSpecialByte\<close>, as its distance from \<open>start\<close>.\<close>

fun SkipToNextSpecialByte :: "bytes \<Rightarrow> nat" where
  "SkipToNextSpecialByte [] = 0"
| "SkipToNextSpecialByte (c # p) =
     (if IsSpecialByte c then 0 else Suc (SkipToNextSpecialByte p))"

text \<open>At the head of the loop \<open>copy_start\<close> and \<open>p\<close> coincide; \<open>s\<close> is what lies between \<open>p\<close> and
  \<open>limit\<close>.\<close>

function EncodeStringFragment :: "bytes \<Rightarrow> bytes \<Rightarrow> bytes" where
  "EncodeStringFragment dest s =
     (let n = SkipToNextSpecialByte s in
      if n \<ge> length s then dest @ s
      else if s ! n = kEscape1
      then EncodeStringFragment (dest @ take n s @ [kEscape1, kNullCharacter]) (drop (n + 1) s)
      else EncodeStringFragment (dest @ take n s @ [kEscape2, kFFCharacter]) (drop (n + 1) s))"
  by pat_completeness auto
termination
  by (relation "measure (\<lambda>(dest, s). length s)") auto

declare EncodeStringFragment.simps [simp del]

definition WriteString :: "bytes \<Rightarrow> bytes \<Rightarrow> bytes" where
  "WriteString dest s = EncodeStringFragment dest s @ [kEscape1, kSeparator]"

text \<open>\<open>limit\<close> is one byte before the end of \<open>start\<close>'s bytes, so the byte after a special byte
  can always be read.\<close>

function ReadStringInternal :: "bytes \<Rightarrow> bytes \<Rightarrow> (bytes \<times> bytes) option" where
  "ReadStringInternal start result =
     (let n = SkipToNextSpecialByte (butlast start) in
      if n \<ge> length start - 1 then None
      else
        let c = start ! n; next = start ! (n + 1); result = result @ take n start in
        if c = kEscape1 then
          if next = kSeparator then Some (result, drop (n + 2) start)
          else if next = kNullCharacter
          then ReadStringInternal (drop (n + 2) start) (result @ [0])
          else None
        else
          if next = kFFCharacter
          then ReadStringInternal (drop (n + 2) start) (result @ [0xff])
          else None)"
  by pat_completeness auto
termination
  by (relation "measure (\<lambda>(start, result). length start)") auto

declare ReadStringInternal.simps [simp del]

definition ReadString :: "bytes \<Rightarrow> bytes \<Rightarrow> (bytes \<times> bytes) option" where
  "ReadString src result = ReadStringInternal src result"

section \<open>Unsigned numbers\<close>

lemma drop_bit_8_less: "v > 0 \<Longrightarrow> unat (drop_bit 8 v) < unat (v :: u64)"
  unfolding unat_drop_bit by (simp add: word_less_nat_alt div_less_dividend)

text \<open>The loop that fills \<open>buf\<close> from the right; \<open>buf\<close> is the part already filled.\<close>

function WriteNumIncreasing_loop :: "u64 \<Rightarrow> bytes \<Rightarrow> bytes" where
  "WriteNumIncreasing_loop val buf =
     (if val > 0
      then WriteNumIncreasing_loop (drop_bit 8 val) (ucast (val AND 0xff) # buf)
      else buf)"
  by pat_completeness auto
termination
  by (relation "measure (\<lambda>(val, buf). unat val)") (auto simp: drop_bit_8_less)

declare WriteNumIncreasing_loop.simps [simp del]

definition WriteNumIncreasing :: "bytes \<Rightarrow> u64 \<Rightarrow> bytes" where
  "WriteNumIncreasing dest val =
     (let buf = WriteNumIncreasing_loop val [] in dest @ word_of_nat (length buf) # buf)"

fun ReadNumIncreasing_loop :: "u64 \<Rightarrow> bytes \<Rightarrow> u64" where
  "ReadNumIncreasing_loop tmp [] = tmp"
| "ReadNumIncreasing_loop tmp (b # p) = ReadNumIncreasing_loop (push_bit 8 tmp OR ucast b) p"

definition ReadNumIncreasing :: "bytes \<Rightarrow> (u64 \<times> bytes) option" where
  "ReadNumIncreasing src =
     (case src of
        [] \<Rightarrow> None
      | b # _ \<Rightarrow>
          (let len = unat b in
           if len + 1 > length src \<or> len > 8 then None
           else Some (ReadNumIncreasing_loop 0 (take len (tl src)), drop (len + 1) src)))"

section \<open>Signed numbers\<close>

text \<open>An \<open>int64_t\<close> is a 64-bit word read by \<open>sint\<close>.\<close>

definition kMaxSigned64Length :: nat where "kMaxSigned64Length = 10"

definition kLengthToHeaderBits :: "(byte \<times> byte) list" where
  "kLengthToHeaderBits =
     [(0, 0), (0x80, 0), (0xc0, 0), (0xe0, 0), (0xf0, 0), (0xf8, 0), (0xfc, 0), (0xfe, 0),
      (0xff, 0), (0xff, 0x80), (0xff, 0xc0)]"

definition kLengthToMask :: "u64 list" where
  "kLengthToMask =
     [0, 0x80, 0xc000, 0xe00000, 0xf0000000, 0xf800000000, 0xfc0000000000, 0xfe000000000000,
      0xff00000000000000, 0x8000000000000000, 0]"

definition kBitsToLength :: "nat list" where
  "kBitsToLength =
     [1, 1, 1, 1, 1, 1, 1, 2, 2, 2, 2, 2, 2, 2, 3, 3, 3, 3, 3, 3, 3, 4,
      4, 4, 4, 4, 4, 4, 5, 5, 5, 5, 5, 5, 5, 6, 6, 6, 6, 6, 6, 6, 7, 7,
      7, 7, 7, 7, 7, 8, 8, 8, 8, 8, 8, 8, 9, 9, 9, 9, 9, 9, 9, 10]"

text \<open>The portable logarithm: the loop halves the candidate range for \<open>i\<close> = 4, 3, 2, 1, 0.\<close>

fun Log2Floor32_Portable_loop :: "nat list \<Rightarrow> u32 \<Rightarrow> int \<Rightarrow> int" where
  "Log2Floor32_Portable_loop [] value log = log"
| "Log2Floor32_Portable_loop (i # is) value log =
     (let shift = 2 ^ i; x = drop_bit shift value in
      if x \<noteq> 0 then Log2Floor32_Portable_loop is x (log + int shift)
      else Log2Floor32_Portable_loop is value log)"

definition Log2Floor32_Portable :: "u32 \<Rightarrow> int" where
  "Log2Floor32_Portable n =
     (if n = 0 then -1 else Log2Floor32_Portable_loop [4, 3, 2, 1, 0] n 0)"

definition Log2Floor64 :: "u64 \<Rightarrow> int" where
  "Log2Floor64 n =
     (let topbits = ucast (drop_bit 32 n) :: u32 in
      if topbits = 0 then Log2Floor32_Portable (ucast n)
      else 32 + Log2Floor32_Portable topbits)"

definition SignedEncodingLength :: "u64 \<Rightarrow> nat" where
  "SignedEncodingLength n =
     kBitsToLength ! nat (Log2Floor64 (if sint n < 0 then NOT n else n) + 1)"

definition StoreBigEndian64 :: "u64 \<Rightarrow> bytes" where
  "StoreBigEndian64 v = map (\<lambda>i. ucast (drop_bit (56 - 8 * i) v AND 0xff)) [0..<8]"

definition LoadBigEndian64 :: "bytes \<Rightarrow> u64" where
  "LoadBigEndian64 src =
     fold (\<lambda>i result. result OR push_bit (56 - 8 * i) (ucast (src ! i))) [0..<8] 0"

definition WriteSignedNumIncreasing :: "bytes \<Rightarrow> u64 \<Rightarrow> bytes" where
  "WriteSignedNumIncreasing dest val =
     (let x = (if sint val < 0 then NOT val else val) in
      if x < 64 then dest @ [fst (kLengthToHeaderBits ! 1) XOR ucast val]
      else
        let sign_byte = (if sint val < 0 then 0xff else 0);
            buf = [sign_byte, sign_byte] @ StoreBigEndian64 val;
            len = SignedEncodingLength x;
            begin = drop (length buf - len) buf;
            begin = begin[0 := begin ! 0 XOR fst (kLengthToHeaderBits ! len)];
            begin = begin[1 := begin ! 1 XOR snd (kLengthToHeaderBits ! len)]
        in dest @ begin)"

text \<open>\<open>x = (x << 8) | byte\<close> over the first \<open>len\<close> bytes is the loop of the unsigned reader,
  started from the sign mask.\<close>

definition ReadSignedNumIncreasing :: "bytes \<Rightarrow> (u64 \<times> bytes) option" where
  "ReadSignedNumIncreasing src =
     (if src = [] then None
      else
        let xor_mask = (if src ! 0 AND 0x80 = 0 then NOT 0 else 0) :: u64;
            first_byte = src ! 0 XOR ucast (xor_mask AND 0xff)
        in if first_byte \<noteq> 0xff then
             (let len = nat (7 - Log2Floor64 (ucast (first_byte XOR 0xff))) in
              if length src < len then None
              else Some (ReadNumIncreasing_loop xor_mask (take len src) XOR kLengthToMask ! len,
                         drop len src))
           else if length src < 8 then None
           else
             let second_byte = src ! 1 XOR ucast (xor_mask AND 0xff);
                 third_byte = src ! 2 XOR ucast (xor_mask AND 0xff);
                 len_opt = (if second_byte \<ge> 0x80 then
                              (if second_byte < 0xc0 then Some 9
                               else if second_byte = 0xc0 \<and> third_byte < 0x80 then Some 10
                               else None)
                            else Some 8)
             in case len_opt of
                  None \<Rightarrow> None
                | Some len \<Rightarrow>
                    if length src < len then None
                    else Some (LoadBigEndian64 (drop (len - 8) src) XOR kLengthToMask ! len,
                               drop len src))"

text \<open>The test helper that damages the \<open>k\<close>-th separator of a string.\<close>

fun TEST_Corrupt_loop :: "bytes \<Rightarrow> bytes \<Rightarrow> nat \<Rightarrow> nat \<Rightarrow> bytes" where
  "TEST_Corrupt_loop pre (a # b # str) seen_seps k =
     (if a = kEscape1 \<and> b = kSeparator then
        (if seen_seps + 1 = k then pre @ a # (kSeparator + 1) # str
         else TEST_Corrupt_loop (pre @ [a]) (b # str) (seen_seps + 1) k)
      else TEST_Corrupt_loop (pre @ [a]) (b # str) seen_seps k)"
| "TEST_Corrupt_loop pre str seen_seps k = pre @ str"

definition TEST_Corrupt :: "bytes \<Rightarrow> nat \<Rightarrow> bytes" where
  "TEST_Corrupt str k = TEST_Corrupt_loop [] str 0 k"

section \<open>Strings: the escape code\<close>

definition escape :: "byte \<Rightarrow> bytes" where
  "escape c = (if c = 0 then [0, 0xff] else if c = 0xff then [0xff, 0] else [c])"

definition escapes_of :: "bytes \<Rightarrow> bytes" where
  "escapes_of s = concat (map escape s)"

lemma escapes_of_simps [simp]:
  "escapes_of [] = []" "escapes_of (c # s) = escape c @ escapes_of s"
  "escapes_of (s @ t) = escapes_of s @ escapes_of t"
  by (simp_all add: escapes_of_def)

lemma IsSpecialByte_iff: "IsSpecialByte c \<longleftrightarrow> c = 0 \<or> c = 0xff"
proof -
  have "unat (c + 1) = (unat c + 1) mod 256" by (simp add: unat_word_ariths)
  then have "c + 1 < 2 \<longleftrightarrow> unat c = 0 \<or> unat c = 255"
    using unat_byte_less [of c] by (auto simp: word_less_nat_alt mod_Suc)
  also have "\<dots> \<longleftrightarrow> c = 0 \<or> c = 0xff" by (auto simp: word_unat_eq_iff)
  finally show ?thesis by (simp add: IsSpecialByte_def)
qed

lemma Skip_le [simp]: "SkipToNextSpecialByte s \<le> length s"
  by (induction s) auto

lemma Skip_take: "escapes_of (take (SkipToNextSpecialByte s) s) = take (SkipToNextSpecialByte s) s"
  by (induction s) (auto simp: IsSpecialByte_iff escape_def)

lemma Skip_special:
  "SkipToNextSpecialByte s < length s \<Longrightarrow> s ! SkipToNextSpecialByte s \<in> {0, 0xff}"
  by (induction s) (auto simp: IsSpecialByte_iff)

lemma EncodeStringFragment_escapes: "EncodeStringFragment dest s = dest @ escapes_of s"
proof (induction dest s rule: EncodeStringFragment.induct)
  case (1 dest s)
  let ?n = "SkipToNextSpecialByte s"
  show ?case
  proof (cases "?n \<ge> length s")
    case True
    then show ?thesis
      using Skip_take [of s] by (simp add: EncodeStringFragment.simps [of dest s])
  next
    case False
    then have "s = take ?n s @ s ! ?n # drop (?n + 1) s"
      by (simp add: id_take_nth_drop)
    then have "escapes_of s = take ?n s @ escape (s ! ?n) @ escapes_of (drop (?n + 1) s)"
      by (metis Skip_take escapes_of_simps(2,3))
    with False 1 show ?thesis
      using Skip_special [of s]
      by (auto simp: EncodeStringFragment.simps [of dest s] Let_def escape_def escapes)
  qed
qed

lemma ReadStringInternal_plain:
  "\<not> IsSpecialByte c \<Longrightarrow> ReadStringInternal (c # s) r = ReadStringInternal s (r @ [c])"
  by (subst (1 2) ReadStringInternal.simps) (cases s; auto simp: Let_def)

lemma ReadStringInternal_special:
  "ReadStringInternal (0 # 1 # s) r = Some (r, s)"
  "ReadStringInternal (0 # 0xff # s) r = ReadStringInternal s (r @ [0])"
  "ReadStringInternal (0xff # 0 # s) r = ReadStringInternal s (r @ [0xff])"
  by (simp_all add: ReadStringInternal.simps [of "_ # _"] IsSpecialByte_iff escapes Let_def)

lemma ReadStringInternal_escapes:
  "ReadStringInternal (escapes_of s @ 0 # 1 # rest) r = Some (r @ s, rest)"
  by (induction s arbitrary: r)
     (auto simp: escape_def ReadStringInternal_special ReadStringInternal_plain IsSpecialByte_iff)

lemma WriteString_escapes: "WriteString dest s = dest @ escapes_of s @ [0, 1]"
  by (simp add: WriteString_def EncodeStringFragment_escapes escapes)

lemma escapes_of_less:
  "x < y \<Longrightarrow> escapes_of x @ 0 # 1 # s < escapes_of y @ 0 # 1 # t"
proof (induction x arbitrary: y)
  case Nil
  then show ?case
    by (cases y) (auto simp: escape_def word_gt_0)
next
  case (Cons c x)
  then obtain d y' where y: "y = d # y'" by (cases y) auto
  have head: "\<exists>u. escape e = e # u" for e by (simp add: escape_def)
  show ?case
  proof (cases "c = d")
    case True
    with Cons y show ?thesis by simp
  next
    case False
    with Cons.prems y have "c < d" by simp
    with head [of c] head [of d] y show ?thesis by auto
  qed
qed

section \<open>Big-endian numbers\<close>

fun be_value :: "bytes \<Rightarrow> nat" where
  "be_value [] = 0"
| "be_value (b # bs) = unat b * 256 ^ length bs + be_value bs"

lemma be_value_less: "be_value bs < 256 ^ length bs"
proof (induction bs)
  case (Cons b bs)
  have "Suc (unat b) * 256 ^ length bs \<le> 256 * 256 ^ length bs"
    using unat_byte_less [of b] by (intro mult_le_mono1) simp
  with Cons show ?case
    by (simp only: be_value.simps length_Cons power_Suc mult_Suc)
qed simp

lemma be_value_append: "be_value (xs @ ys) = be_value xs * 256 ^ length ys + be_value ys"
  by (induction xs) (auto simp: algebra_simps power_add)

lemma be_value_less_iff:
  "length xs = length ys \<Longrightarrow> xs < ys \<longleftrightarrow> be_value xs < be_value ys"
proof (induction xs ys rule: list_induct2)
  case (Cons x xs y ys)
  have lt: "a * 256 ^ length zs + be_value zs < b * 256 ^ length zs"
    if "a < b" for a b :: nat and zs
  proof -
    have "Suc a * 256 ^ length zs \<le> b * 256 ^ length zs" using that by (intro mult_le_mono1) simp
    with be_value_less [of zs] show ?thesis by simp
  qed
  from lt [of "unat x" "unat y" xs] lt [of "unat y" "unat x" ys] Cons show ?case
    by (cases "unat x" "unat y" rule: linorder_cases)
       (auto simp: word_less_nat_alt word_unat_eq_iff)
qed simp

lemma be_value_inject:
  "length xs = length ys \<Longrightarrow> be_value xs = be_value ys \<Longrightarrow> xs = ys"
  using be_value_less_iff [of xs ys] be_value_less_iff [of ys xs]
  by (metis less_irrefl linorder_cases)

fun be_digits :: "nat \<Rightarrow> bytes" where
  "be_digits n = (if n = 0 then [] else be_digits (n div 256) @ [word_of_nat n])"

declare be_digits.simps [simp del]

lemma be_digits_0 [simp]: "be_digits 0 = []"
  by (simp add: be_digits.simps)

lemma be_value_be_digits [simp]: "be_value (be_digits n) = n"
proof (induction n rule: be_digits.induct)
  case (1 n)
  then show ?case
    by (cases "n = 0") (simp_all add: be_digits.simps [of n] be_value_append unat_of_nat)
qed

lemma length_be_digits_le_iff: "length (be_digits n) \<le> k \<longleftrightarrow> n < 256 ^ k"
proof (induction k arbitrary: n)
  case 0
  then show ?case by (simp add: be_digits.simps [of n])
next
  case (Suc k)
  show ?case
    using Suc [of "n div 256"]
    by (simp add: be_digits.simps [of n] div_less_iff_less_mult mult.commute)
qed

lemma WriteNumIncreasing_loop_digits:
  "WriteNumIncreasing_loop val buf = be_digits (unat val) @ buf"
proof (induction val buf rule: WriteNumIncreasing_loop.induct)
  case (1 val buf)
  have "ucast (val AND 0xff) = (word_of_nat (unat val) :: byte)"
    by (simp add: ucast_and_255)
  with 1 show ?case
    by (cases "val = 0")
       (simp_all add: WriteNumIncreasing_loop.simps [of val] WriteNumIncreasing_loop.simps [of 0]
         be_digits.simps [of "unat val"] unat_drop_bit word_gt_0 unat_gt_0)
qed

lemma ReadNumIncreasing_loop_value:
  "ReadNumIncreasing_loop (word_of_nat t) bs = word_of_nat (t * 256 ^ length bs + be_value bs)"
proof (induction bs arbitrary: t)
  case (Cons b bs)
  have "push_bit 8 (word_of_nat t) OR ucast b = (word_of_nat (256 * t + unat b) :: u64)"
    using byte_or_push_bit [of b t, where 'a = 64] by (simp add: or.commute add.commute)
  with Cons [of "256 * t + unat b"] show ?case
    by (simp add: algebra_simps del: of_nat_add of_nat_mult)
qed simp

lemma length_be_digits_u64: "length (be_digits (unat (v :: u64))) \<le> 8"
  using unat_u64_less [of v] by (simp add: length_be_digits_le_iff)

lemma ReadNumIncreasing_Write:
  "ReadNumIncreasing (WriteNumIncreasing [] v @ rest) = Some (v, rest)"
proof -
  have "unat (word_of_nat (length (be_digits (unat v))) :: byte) = length (be_digits (unat v))"
    using length_be_digits_u64 [of v] by (simp add: unat_of_nat)
  then show ?thesis
    using length_be_digits_u64 [of v] ReadNumIncreasing_loop_value [of 0 "be_digits (unat v)"]
    by (simp add: ReadNumIncreasing_def WriteNumIncreasing_def WriteNumIncreasing_loop_digits Let_def)
qed

lemma WriteNumIncreasing_less:
  assumes "v < w"
  shows "WriteNumIncreasing [] v @ s < WriteNumIncreasing [] w @ t"
proof -
  let ?v = "be_digits (unat v)" and ?w = "be_digits (unat w)"
  have len: "length ?v \<le> length ?w"
    using assms length_be_digits_le_iff [of "unat v" "length ?w"] length_be_digits_le_iff [of "unat w" "length ?w"]
    by (simp add: word_less_nat_alt)
  have "?v @ s < ?w @ t" if "length ?v = length ?w"
    using be_value_less_iff [OF that] assms that
    by (simp add: less_append_same_length word_less_nat_alt)
  with len show ?thesis
    using length_be_digits_u64 [of v] length_be_digits_u64 [of w]
    by (auto simp: WriteNumIncreasing_def WriteNumIncreasing_loop_digits Let_def word_less_nat_alt
        unat_of_nat)
qed

section \<open>Signed numbers: header bits and payload\<close>

text \<open>The portable logarithm is the position of the highest set bit.\<close>

lemma Log2Floor32_Portable_loop_log:
  assumes "value \<noteq> 0" "unat value < 2 ^ 2 ^ m"
  shows "\<exists>k. Log2Floor32_Portable_loop (rev [0..<m]) value log = log + int k \<and>
           2 ^ k \<le> unat value \<and> unat value < 2 ^ Suc k"
  using assms
proof (induction m arbitrary: "value" log)
  case 0
  have "0 < unat value" using "0.prems"(1) by (simp add: unat_gt_0)
  with "0.prems"(2) have "unat value = 1" by simp
  then show ?case by (intro exI [of _ 0]) simp
next
  case (Suc m)
  let ?s = "2 ^ m :: nat"
  let ?x = "drop_bit ?s value"
  have x: "unat ?x = unat value div 2 ^ ?s" by (rule unat_drop_bit)
  show ?case
  proof (cases "?x = 0")
    case True
    then have "unat value < 2 ^ ?s"
      using x by (metis div_eq_0_iff power_not_zero unat_0 zero_neq_numeral)
    from Suc.IH [OF Suc.prems(1) this] True show ?thesis by simp
  next
    case False
    have "unat value < 2 ^ ?s * 2 ^ ?s"
      using Suc.prems(2) by (simp flip: power_add mult_2)
    then have "unat ?x < 2 ^ ?s"
      unfolding x by (simp add: div_less_iff_less_mult)
    from Suc.IH [OF False this, of "log + int ?s"] obtain k where
      k: "Log2Floor32_Portable_loop (rev [0..<m]) ?x (log + int ?s) = log + int ?s + int k"
      "2 ^ k \<le> unat ?x" "unat ?x < 2 ^ Suc k" by blast
    have "2 ^ (?s + k) \<le> unat value"
      using k(2) unfolding x by (simp add: power_add less_eq_div_iff_mult_less_eq mult.commute)
    moreover have "unat value < 2 ^ Suc (?s + k)"
      using k(3) unfolding x by (simp add: power_add div_less_iff_less_mult mult.commute mult.left_commute)
    ultimately show ?thesis
      using k(1) False by (intro exI [of _ "?s + k"]) (simp add: Let_def)
  qed
qed

lemma Log2Floor32_Portable_log:
  assumes "n \<noteq> 0"
  obtains k where "Log2Floor32_Portable n = int k" "2 ^ k \<le> unat n" "unat n < 2 ^ Suc k"
proof -
  have "unat n < 2 ^ 2 ^ 5" using unat_u32_less [of n] by simp
  from Log2Floor32_Portable_loop_log [OF assms this, of 0] show ?thesis
    using that assms by (auto simp: Log2Floor32_Portable_def upt_rec numeral_eq_Suc)
qed

lemma Log2Floor64_log:
  assumes "n \<noteq> 0"
  obtains k where "Log2Floor64 n = int k" "2 ^ k \<le> unat n" "unat n < 2 ^ Suc k"
proof -
  let ?t = "ucast (drop_bit 32 n) :: u32"
  have "unat n div 2 ^ 32 < 2 ^ 32"
    using unat_u64_less [of n] by (simp add: div_less_iff_less_mult)
  then have t: "unat ?t = unat n div 2 ^ 32"
    by (simp add: unsigned_ucast_eq unat_drop_bit take_bit_nat_eq_self)
  show ?thesis
  proof (cases "?t = 0")
    case True
    then have "unat n < 2 ^ 32" using t by (simp add: div_eq_0_iff)
    then have lo: "unat (ucast n :: u32) = unat n"
      by (simp add: unsigned_ucast_eq take_bit_nat_eq_self)
    with assms have "(ucast n :: u32) \<noteq> 0" by (metis unat_0 unat_eq_zero)
    then obtain k where "Log2Floor32_Portable (ucast n) = int k" "2 ^ k \<le> unat n" "unat n < 2 ^ Suc k"
      by (rule Log2Floor32_Portable_log) (simp_all add: lo)
    with True that show ?thesis by (simp add: Log2Floor64_def Let_def)
  next
    case False
    then obtain k where k: "Log2Floor32_Portable ?t = int k" "2 ^ k \<le> unat n div 2 ^ 32"
      "unat n div 2 ^ 32 < 2 ^ Suc k"
      by (rule Log2Floor32_Portable_log) (simp_all add: t)
    have "2 ^ (32 + k) \<le> unat n"
      using k(2) by (simp add: power_add less_eq_div_iff_mult_less_eq mult.commute)
    moreover have "unat n < 2 ^ Suc (32 + k)"
      using k(3) by (simp add: power_add div_less_iff_less_mult mult.commute mult.left_commute)
    moreover have "Log2Floor64 n = int (32 + k)"
      using False k(1) by (simp add: Log2Floor64_def Let_def)
    ultimately show ?thesis using that by blast
  qed
qed

text \<open>The encoding length of a non-negative number: the number of 7-bit groups that hold it and
  a leading zero bit.\<close>

fun signed_length :: "nat \<Rightarrow> nat" where
  "signed_length v = (if v < 64 then 1 else Suc (signed_length (v div 128)))"

declare signed_length.simps [simp del]

lemma signed_length_pos [simp]: "0 < signed_length v"
  by (simp add: signed_length.simps [of v])

lemma signed_length_bounds:
  "v < 2 ^ (7 * signed_length v - 1) \<and> (v < 64 \<or> 2 ^ (7 * (signed_length v - 1) - 1) \<le> v)"
proof (induction v rule: signed_length.induct)
  case (1 v)
  show ?case
  proof (cases "v < 64")
    case True
    then show ?thesis by (simp add: signed_length.simps [of v])
  next
    case False
    let ?L = "signed_length (v div 128)"
    obtain M where M: "?L = Suc M" using signed_length_pos [of "v div 128"] by (metis gr0_conv_Suc)
    have L: "signed_length v = Suc ?L" using False by (simp add: signed_length.simps [of v])
    have IH: "v div 128 < 2 ^ (7 * M + 6)" "v div 128 < 64 \<or> 2 ^ (7 * M - 1) \<le> v div 128"
      using 1 False by (simp_all add: M add.commute)
    have "v < 2 ^ (7 * M + 13)"
      using IH(1) by (simp add: div_less_iff_less_mult power_add)
    moreover have "2 ^ (7 * M + 6) \<le> v"
    proof (cases "v div 128 < 64")
      case True
      then have "M = 0" using M by (simp add: signed_length.simps [of "v div 128"])
      with False show ?thesis by simp
    next
      case ge: False
      then have "M \<noteq> 0" using M by (auto simp: signed_length.simps [of "v div 128"])
      then have e: "7 * M + 6 = (7 * M - 1) + 7" by simp
      show ?thesis
        using IH(2) ge unfolding e by (simp add: power_add less_eq_div_iff_mult_less_eq)
    qed
    ultimately show ?thesis using L M by (simp add: add.commute)
  qed
qed

lemma signed_length_mono: "v \<le> w \<Longrightarrow> signed_length v \<le> signed_length w"
proof (induction v arbitrary: w rule: signed_length.induct)
  case (1 v)
  have w: "0 < signed_length w" by simp
  show ?case
  proof (cases "v < 64")
    case True
    then show ?thesis using w by (simp add: signed_length.simps [of v] Suc_le_eq)
  next
    case False
    with 1(1) [OF False div_le_mono [OF 1(2)]] 1(2) show ?thesis
      by (simp add: signed_length.simps [of v] signed_length.simps [of w])
  qed
qed

lemma signed_length_log:
  "2 ^ k \<le> v \<Longrightarrow> v < 2 ^ Suc k \<Longrightarrow> signed_length v = Suc k div 7 + 1"
proof (induction v arbitrary: k rule: signed_length.induct)
  case (1 v)
  show ?case
  proof (cases "v < 64")
    case True
    then have "(2 :: nat) ^ k < 2 ^ 6" using "1.prems"(1) by simp
    then have "k < 6" by (rule power_less_imp_less_exp [rotated]) simp
    with True show ?thesis by (simp add: signed_length.simps [of v])
  next
    case False
    then have "(2 :: nat) ^ 6 < 2 ^ Suc k" using "1.prems"(2) by simp
    then have "6 \<le> k" by (metis less_Suc_eq_le one_less_numeral_iff power_less_imp_less_exp semiring_norm(76))
    then consider "k = 6" | j where "k = j + 7"
      by (metis add.commute le_Suc_eq le_iff_add numeral_eq_Suc pred_numeral_simps(3) semiring_norm(28) Suc_numeral order_antisym_conv not_less_eq_eq)
    then show ?thesis
    proof cases
      case 1
      with "1.prems" False show ?thesis
        by (simp add: signed_length.simps [of v] signed_length.simps [of 0])
    next
      case (2 j)
      have "2 ^ j \<le> v div 128"
        using "1.prems"(1) by (simp add: 2 power_add less_eq_div_iff_mult_less_eq)
      moreover have "v div 128 < 2 ^ Suc j"
        using "1.prems"(2) by (simp add: 2 power_add div_less_iff_less_mult)
      ultimately have "signed_length (v div 128) = Suc j div 7 + 1"
        by (rule "1.IH" [OF False])
      with False show ?thesis by (simp add: signed_length.simps [of v] 2)
    qed
  qed
qed

lemma kBitsToLength_map: "kBitsToLength = map (\<lambda>b. b div 7 + 1) [0..<64]"
  by (simp add: kBitsToLength_def upt_rec)

lemma kBitsToLength_nth: "b < 64 \<Longrightarrow> kBitsToLength ! b = b div 7 + 1"
  by (subst kBitsToLength_map) simp

lemma SignedEncodingLength_eq:
  assumes "unat x < 2 ^ 63"
  shows "SignedEncodingLength x = signed_length (unat x)"
proof (cases "x = 0")
  case True
  then show ?thesis
    by (simp add: SignedEncodingLength_def Log2Floor64_def Log2Floor32_Portable_def
        kBitsToLength_def signed_length.simps [of 0])
next
  case False
  then obtain k where k: "Log2Floor64 x = int k" "2 ^ k \<le> unat x" "unat x < 2 ^ Suc k"
    by (rule Log2Floor64_log)
  have "(2 :: nat) ^ k < 2 ^ 63" using k(2) assms by simp
  then have "k < 63" by (rule power_less_imp_less_exp [rotated]) simp
  moreover have "\<not> sint x < 0" using assms by (simp add: sint_nonneg_iff not_less)
  moreover have "nat (1 + int k) = Suc k" by simp
  ultimately show ?thesis
    using k by (simp add: SignedEncodingLength_def kBitsToLength_nth signed_length_log add.commute)
qed

text \<open>The specification of a non-negative number \<open>v\<close> of length \<open>L\<close>: \<open>L\<close> one-bits, then \<open>v\<close> in the
  remaining \<open>7 * L\<close> bits, big-endian.\<close>

definition be_bytes :: "nat \<Rightarrow> nat \<Rightarrow> bytes" where
  "be_bytes k n = rev (le_bytes k n)"

definition signed_header :: "nat \<Rightarrow> nat" where
  "signed_header L = (2 ^ L - 1) * 2 ^ (7 * L)"

definition signed_code :: "nat \<Rightarrow> bytes" where
  "signed_code v = be_bytes (signed_length v) (signed_header (signed_length v) + v)"

lemma length_be_bytes [simp]: "length (be_bytes k n) = k"
  by (simp add: be_bytes_def)

lemma be_value_rev: "be_value (rev bs) = le_value bs"
  by (induction bs) (simp_all add: be_value_append)

lemma be_value_be_bytes: "be_value (be_bytes k n) = n mod 256 ^ k"
  by (simp add: be_bytes_def be_value_rev)

lemma take_le_bytes: "take L (le_bytes (L + k) n) = le_bytes L n"
  by (induction L arbitrary: n) simp_all

lemma drop_le_bytes: "drop k (le_bytes (k + L) n) = le_bytes L (n div 256 ^ k)"
  by (induction k arbitrary: n) (simp_all add: div_mult2_eq)

lemma drop_be_bytes: "drop k (be_bytes (k + L) n) = be_bytes L n"
  using take_le_bytes [of L k n] by (simp add: be_bytes_def drop_rev add.commute)

lemma take_be_bytes: "take L (be_bytes (L + k) n) = be_bytes L (n div 256 ^ k)"
  using drop_le_bytes [of k L n] by (simp add: be_bytes_def take_rev add.commute)

lemma be_bytes_split: "be_bytes (L + k) n = be_bytes L (n div 256 ^ k) @ be_bytes k n"
  by (metis append_take_drop_id take_be_bytes drop_be_bytes add.commute)

lemma StoreBigEndian64_be_bytes: "StoreBigEndian64 v = be_bytes 8 (unat v)"
  by (simp add: be_bytes_def StoreBigEndian64_def memcpy_out_def ucast_and_255 upt_rec
      flip: memcpy_out_le_bytes)

lemma signed_header_bounds:
  assumes "0 < L" "v < 2 ^ (7 * L - 1)"
  shows "signed_header L + v < 2 ^ (8 * L) - 2 ^ (7 * L - 1)"
    and "2 ^ (8 * L) - 2 ^ (7 * L) \<le> signed_header L + v"
proof -
  have h: "signed_header L = 2 ^ (8 * L) - 2 ^ (7 * L)"
    by (simp add: signed_header_def diff_mult_distrib flip: power_add)
  have "(2 :: nat) ^ (7 * L) = 2 ^ (7 * L - 1) + 2 ^ (7 * L - 1)"
    using assms(1) by (simp flip: power_Suc mult_2)
  moreover have "(2 :: nat) ^ (7 * L) \<le> 2 ^ (8 * L)" by (rule power_increasing) simp_all
  ultimately show "signed_header L + v < 2 ^ (8 * L) - 2 ^ (7 * L - 1)"
    using h assms(2) by linarith
  show "2 ^ (8 * L) - 2 ^ (7 * L) \<le> signed_header L + v" using h by simp
qed

lemma power_256: "(256 :: nat) ^ k = 2 ^ (8 * k)"
  by (simp add: power_mult)

lemma be_value_signed_code: "be_value (signed_code v) = signed_header (signed_length v) + v"
proof -
  have "signed_header (signed_length v) + v < 2 ^ (8 * signed_length v)"
    using signed_header_bounds(1) [OF signed_length_pos, of v v] signed_length_bounds [of v]
    by linarith
  then show ?thesis by (simp add: signed_code_def be_value_be_bytes power_256)
qed

lemma signed_code_less:
  assumes "v < w"
  shows "diverge_less (signed_code v) (signed_code w)"
proof -
  let ?L = "signed_length v" and ?K = "signed_length w"
  have v: "signed_header ?L + v < 2 ^ (8 * ?L) - 2 ^ (7 * ?L - 1)"
    using signed_header_bounds(1) signed_length_bounds [of v] signed_length_pos by blast
  have "?L \<le> ?K" using assms by (simp add: signed_length_mono)
  show ?thesis
  proof (cases "?L = ?K")
    case True
    then have "signed_code v < signed_code w"
      using assms by (subst be_value_less_iff) (simp_all add: be_value_signed_code, simp add: signed_code_def)
    with True show ?thesis
      by (intro diverge_less_same_length) (simp_all add: signed_code_def)
  next
    case False
    then obtain k where k: "?K = ?L + Suc k" using \<open>?L \<le> ?K\<close>
      by (metis add_Suc_right less_imp_Suc_add le_neq_implies_less)
    have "2 ^ (8 * ?K) - 2 ^ (7 * ?K) \<le> signed_header ?K + w"
      using signed_header_bounds(2) signed_length_bounds [of w] signed_length_pos by blast
    moreover have "(2 :: nat) ^ (7 * ?K) \<le> 2 ^ (7 * ?L - 1 + 8 * Suc k)"
      by (rule power_increasing) (use k in simp_all)
    moreover have "(2 ^ (8 * ?L) - 2 ^ (7 * ?L - 1)) * (256 :: nat) ^ Suc k =
        2 ^ (8 * ?K) - 2 ^ (7 * ?L - 1 + 8 * Suc k)"
      by (simp only: k power_256 diff_mult_distrib distrib_left power_add)
    ultimately have "(2 ^ (8 * ?L) - 2 ^ (7 * ?L - 1)) * 256 ^ Suc k \<le> signed_header ?K + w"
      by linarith
    then have "2 ^ (8 * ?L) - 2 ^ (7 * ?L - 1) \<le> (signed_header ?K + w) div 256 ^ Suc k"
      by (simp only: less_eq_div_iff_mult_less_eq zero_less_power zero_less_numeral)
    moreover have "be_value (take ?L (signed_code w)) = (signed_header ?K + w) div 256 ^ Suc k"
      using take_be_bytes [of ?L "Suc k" "signed_header ?K + w"] be_value_less [of "signed_code w"]
      unfolding be_value_signed_code
      by (simp add: signed_code_def k be_value_be_bytes div_less_iff_less_mult power_add mult.commute
          mult.left_commute)
    ultimately have "be_value (signed_code v) < be_value (take ?L (signed_code w))"
      using v by (simp add: be_value_signed_code)
    moreover have len: "length (signed_code v) = length (take ?L (signed_code w))"
      by (simp add: signed_code_def k)
    ultimately have "signed_code v < take ?L (signed_code w)"
      by (simp add: be_value_less_iff)
    with len show ?thesis
      by (intro diverge_less_take [OF diverge_less_same_length])
  qed
qed
lemma nat_xor_add: "t < 2 ^ m \<Longrightarrow> (c * 2 ^ m) XOR t = c * 2 ^ m + (t :: nat)"
proof -
  assume t: "t < 2 ^ m"
  have "bit t n \<Longrightarrow> n < m" for n
    using t by (metis bit_take_bit_iff take_bit_nat_eq_self)
  then have "(c * 2 ^ m) AND t = 0"
    by (intro bit_eqI) (auto simp: bit_simps not_le simp flip: push_bit_eq_mult dest!: leD)
  then show ?thesis by (simp add: disjunctive_xor_eq_or disjunctive_add_eq_or)
qed

lemma be_bytes_2: "be_bytes 2 n = [word_of_nat (n div 256), word_of_nat n]"
  by (simp add: be_bytes_def numeral_2_eq_2)

lemma word_of_nat_xor: "word_of_nat (m XOR n) = (word_of_nat m XOR word_of_nat n :: byte)"
  by (simp add: of_nat_xor_eq)

lemma div_256_xor: "(m XOR n) div 256 = (m div 256) XOR (n div 256 :: nat)"
  using drop_bit_xor [of 8 m n] by (simp add: drop_bit_eq_div)

lemma be_bytes_mod: "256 ^ k dvd h \<Longrightarrow> be_bytes k (h + v) = be_bytes k v"
  by (rule be_value_inject) (auto simp: be_value_be_bytes)

lemma kLengthToHeaderBits_bytes:
  assumes "2 \<le> L" "L \<le> 10"
  shows "be_bytes 2 ((2 ^ L - 1) * 2 ^ (16 - L)) =
    [fst (kLengthToHeaderBits ! L), snd (kLengthToHeaderBits ! L)]"
proof -
  have "L \<in> set [2..<11]" using assms by auto
  moreover have "list_all (\<lambda>L. be_bytes 2 ((2 ^ L - 1) * 2 ^ (16 - L)) =
    [fst (kLengthToHeaderBits ! L), snd (kLengthToHeaderBits ! L)]) [2..<11]"
    by (simp add: be_bytes_2 kLengthToHeaderBits_def upt_rec)
  ultimately show ?thesis unfolding list_all_iff by blast
qed

lemma signed_length_le_10: "v < 2 ^ 63 \<Longrightarrow> signed_length v \<le> 10"
  using signed_length_mono [of v "2 ^ 63 - 1"] by (simp add: signed_length.simps)

lemma signed_length_ge_2: "64 \<le> v \<Longrightarrow> 2 \<le> signed_length v"
  by (simp add: signed_length.simps [of v] Suc_le_eq)

definition put_header :: "nat \<Rightarrow> bytes \<Rightarrow> bytes" where
  "put_header L e = (let h = kLengthToHeaderBits ! L; e = e[0 := e ! 0 XOR fst h] in
     e[1 := e ! 1 XOR snd h])"

lemma put_header_NOT:
  "2 \<le> length e \<Longrightarrow> put_header L (map NOT e) = map NOT (put_header L e)"
  by (cases e; cases "tl e") (auto simp: put_header_def Let_def)

lemma WriteSignedNumIncreasing_long:
  assumes "x = (if sint val < 0 then NOT val else val)" "\<not> x < 64"
  shows "WriteSignedNumIncreasing [] val = put_header (SignedEncodingLength x)
    (drop (10 - SignedEncodingLength x)
      ((if sint val < 0 then [0xff, 0xff] else [0, 0]) @ StoreBigEndian64 val))"
proof -
  have len: "length (a @ StoreBigEndian64 val) = length a + 8" for a
    by (simp add: StoreBigEndian64_be_bytes)
  have buf: "[if b then 0xff else 0, if b then 0xff else 0] = (if b then [0xff, 0xff] else [0, 0 :: byte])" for b
    by simp
  show ?thesis
    using assms by (cases "sint val < 0") (simp_all only: WriteSignedNumIncreasing_def put_header_def Let_def
        if_True if_False buf len list.size append_Nil, simp_all)
qed

lemma xor_header:
  fixes k :: nat and v :: nat
  assumes "k \<le> 8" "v < 2 ^ (7 * (k + 2) - 1)"
  shows "be_bytes (k + 2) (signed_header (k + 2) + v) =
    put_header (k + 2) (be_bytes (k + 2) v)"
proof -
  let ?t = "v div 256 ^ k" and ?h = "(2 ^ (k + 2) - 1) * 2 ^ (16 - (k + 2)) :: nat"
  have "7 * (k + 2) = 8 * k + (16 - (k + 2))" using assms(1) by simp
  then have hdr: "signed_header (k + 2) = ?h * 256 ^ k"
    by (simp only: signed_header_def power_256 power_add mult.assoc mult.commute [of "2 ^ (8 * k)"])
  have "7 * (k + 2) - 1 = 8 * k + (15 - (k + 2))" using assms(1) by simp
  then have "v < 2 ^ (8 * k) * 2 ^ (15 - (k + 2))"
    using assms(2) by (simp only: power_add)
  then have "?t < 2 ^ (15 - (k + 2))"
    by (simp only: power_256 div_less_iff_less_mult mult.commute zero_less_power zero_less_numeral)
  also have "(2 :: nat) ^ (15 - (k + 2)) \<le> 2 ^ (16 - (k + 2))" by (rule power_increasing) simp_all
  finally have xor: "?h + ?t = ?h XOR ?t" by (simp only: nat_xor_add)
  have "(signed_header (k + 2) + v) div 256 ^ k = ?h + ?t" unfolding hdr by (rule div_mult_self3) simp
  then have "be_bytes (2 + k) (signed_header (k + 2) + v) = be_bytes 2 (?h XOR ?t) @ be_bytes k v"
    by (simp only: be_bytes_split xor be_bytes_mod [OF dvd_triv_right] hdr)
  moreover have "be_bytes (2 + k) v = be_bytes 2 ?t @ be_bytes k v" by (rule be_bytes_split)
  moreover have "be_bytes 2 (?h XOR ?t) = [word_of_nat (?t div 256) XOR fst (kLengthToHeaderBits ! (k + 2)),
     word_of_nat ?t XOR snd (kLengthToHeaderBits ! (k + 2))]"
    using kLengthToHeaderBits_bytes [of "k + 2"] assms(1)
    by (simp add: be_bytes_2 word_of_nat_xor div_256_xor xor.commute)
  ultimately show ?thesis
    by (simp add: be_bytes_2 add.commute put_header_def Let_def)
qed

lemma Write_signed_nonneg:
  assumes "unat val < 2 ^ 63"
  shows "WriteSignedNumIncreasing [] val = signed_code (unat val)"
proof -
  let ?v = "unat val"
  have pos: "\<not> sint val < 0" using assms by (simp add: sint_nonneg_iff not_less)
  show ?thesis
  proof (cases "?v < 64")
    case True
    have "(1 * 2 ^ 7) XOR ?v = 1 * 2 ^ 7 + ?v" using True by (intro nat_xor_add) simp
    then have "word_of_nat (128 + ?v) = (word_of_nat 128 XOR word_of_nat ?v :: byte)"
      using word_of_nat_xor [of 128 ?v] by (simp del: of_nat_unat of_nat_add of_nat_numeral)
    then show ?thesis
      using True pos by (simp add: WriteSignedNumIncreasing_def word_less_nat_alt signed_code_def
          signed_length.simps [of ?v] be_bytes_def signed_header_def kLengthToHeaderBits_def)
  next
    case False
    then obtain k where k: "signed_length ?v = k + 2"
      using signed_length_ge_2 [of ?v] by (metis le_iff_add add.commute not_less)
    with signed_length_le_10 [OF assms] have "k \<le> 8" by simp
    have "[0, 0] @ StoreBigEndian64 val = be_bytes (2 + 8) ?v"
      using unat_u64_less [of val]
      by (simp only: StoreBigEndian64_be_bytes be_bytes_split be_bytes_2) simp
    moreover have "drop (10 - (k + 2)) (be_bytes (2 + 8) ?v) = be_bytes (k + 2) ?v"
      using drop_be_bytes [of "8 - k" "k + 2" ?v] \<open>k \<le> 8\<close> by simp
    moreover have "?v < 2 ^ (7 * (k + 2) - 1)" using signed_length_bounds [of ?v] k by simp
    ultimately show ?thesis
      using False pos k SignedEncodingLength_eq [OF assms] xor_header [OF \<open>k \<le> 8\<close>, of ?v]
        WriteSignedNumIncreasing_long [of val val]
      by (simp only: signed_code_def if_False word_less_nat_alt) simp
  qed
qed

lemma Write_signed_NOT:
  assumes "sint val < 0"
  shows "WriteSignedNumIncreasing [] val = map NOT (WriteSignedNumIncreasing [] (NOT val))"
proof -
  have pos: "\<not> sint (NOT val) < 0"
    using assms unat_u64_less [of val] by (simp add: not_less sint_nonneg_iff unat_NOT_u64 flip: not_le)
  have s: "StoreBigEndian64 val = map NOT (StoreBigEndian64 (NOT val))"
    by (rule nth_equalityI)
       (auto simp: StoreBigEndian64_def and_255_take_bit intro!: bit_word_eqI, auto simp: bit_simps)
  let ?b = "[0, 0] @ StoreBigEndian64 (NOT val)"
  have buf: "[0xff, 0xff] @ StoreBigEndian64 val = map NOT ?b" by (simp add: s)
  have len: "length ?b = 10" by (simp add: StoreBigEndian64_def)
  show ?thesis
  proof (cases "NOT val < 64")
    case True
    have "ucast val = (NOT (ucast (NOT val)) :: byte)"
      by (rule bit_word_eqI) (auto simp: bit_simps)
    with True assms pos show ?thesis
      by (simp add: WriteSignedNumIncreasing_def)
  next
    case False
    have L: "2 \<le> SignedEncodingLength (NOT val)" "SignedEncodingLength (NOT val) \<le> 10"
      using False pos signed_length_ge_2 [of "unat (NOT val)"] signed_length_le_10 [of "unat (NOT val)"]
      by (simp_all add: SignedEncodingLength_eq not_less sint_nonneg_iff word_le_nat_alt)
    have "WriteSignedNumIncreasing [] val = put_header (SignedEncodingLength (NOT val))
       (drop (10 - SignedEncodingLength (NOT val)) (map NOT ?b))"
      using WriteSignedNumIncreasing_long [of "NOT val" val] False assms by (simp only: buf if_True simp_thms)
    also have "\<dots> = map NOT (put_header (SignedEncodingLength (NOT val))
       (drop (10 - SignedEncodingLength (NOT val)) ?b))"
      unfolding drop_map by (rule put_header_NOT) (use L len in simp)
    finally show ?thesis
      using WriteSignedNumIncreasing_long [of "NOT val" "NOT val"] False pos by (simp only: if_False simp_thms)
  qed
qed

lemma signed_code_hd: "\<exists>b t. signed_code u = b # t \<and> 0x80 \<le> b"
proof -
  obtain k where k: "signed_length u = Suc k" using signed_length_pos [of u] by (metis gr0_conv_Suc)
  have "2 ^ (8 * Suc k) - 2 ^ (7 * Suc k) \<le> signed_header (Suc k) + u"
    using signed_header_bounds(2) [of "Suc k" u] signed_length_bounds [of u] k by simp
  moreover have "(2 :: nat) ^ (7 * Suc k) \<le> 2 ^ (8 * k + 7)" by (rule power_increasing) simp_all
  moreover have "(2 :: nat) ^ (8 * Suc k) = 2 * 2 ^ (8 * k + 7)" "128 * 256 ^ k = (2 :: nat) ^ (8 * k + 7)"
    by (simp_all add: power_add power_256)
  ultimately have "128 * 256 ^ k \<le> signed_header (Suc k) + u" by linarith
  obtain b t where bt: "signed_code u = b # t" using k by (metis length_be_bytes length_Suc_conv signed_code_def)
  then have "length t = k" using k by (metis length_be_bytes length_Cons nat.inject signed_code_def)
  then have "128 * 256 ^ k \<le> unat b * 256 ^ k + be_value t" "be_value t < 256 ^ k"
    using be_value_signed_code [of u] bt be_value_less [of t] k \<open>128 * 256 ^ k \<le> _\<close> by simp_all
  then have "128 * 256 ^ k < Suc (unat b) * 256 ^ k" unfolding mult_Suc by linarith
  then have "128 < Suc (unat b)" by (simp only: mult_less_cancel2)
  then have "128 \<le> unat b" by simp
  then show ?thesis using bt by (simp add: word_le_nat_alt)
qed

lemma Write_signed_less:
  assumes "sint v < sint w"
  shows "diverge_less (WriteSignedNumIncreasing [] v) (WriteSignedNumIncreasing [] w)"
proof -
  note hd = signed_code_hd
  show ?thesis
  proof (cases "sint v < 0")
    case False
    then have pos: "unat v < 2 ^ 63" "unat w < 2 ^ 63"
      using assms sint_nonneg_iff [of v] sint_nonneg_iff [of w] by linarith+
    with assms have "unat v < unat w" by (simp add: sint_u64 del: of_nat_unat)
    with pos show ?thesis by (simp add: Write_signed_nonneg signed_code_less)
  next
    case neg: True
    then have v: "unat (NOT v) < 2 ^ 63" "WriteSignedNumIncreasing [] v = map NOT (signed_code (unat (NOT v)))"
      using sint_nonneg_iff [of v] by (simp_all add: Write_signed_NOT Write_signed_nonneg unat_NOT_u64)
    show ?thesis
    proof (cases "sint w < 0")
      case True
      then have w: "WriteSignedNumIncreasing [] w = map NOT (signed_code (unat (NOT w)))"
        using sint_nonneg_iff [of w] by (simp_all add: Write_signed_NOT Write_signed_nonneg unat_NOT_u64)
      have "unat v < unat w" using assms neg True sint_nonneg_iff [of v] sint_nonneg_iff [of w]
        by (simp add: sint_u64 del: of_nat_unat)
      then have "unat (NOT w) < unat (NOT v)"
        using unat_u64_less [of v] unat_u64_less [of w] by (simp add: unat_NOT_u64)
      then show ?thesis by (simp add: v w diverge_less_NOT signed_code_less)
    next
      case False
      then have "WriteSignedNumIncreasing [] w = signed_code (unat w)"
        using sint_nonneg_iff [of w] by (simp add: Write_signed_nonneg not_less)
      moreover obtain a s b t where "signed_code (unat (NOT v)) = a # s" "0x80 \<le> a"
        "signed_code (unat w) = b # t" "0x80 \<le> b" using hd by metis
      moreover have "NOT a < b" if "0x80 \<le> a" "0x80 \<le> b" for a b :: byte
        using that by (simp add: word_less_nat_alt word_le_nat_alt unat_NOT_byte)
      ultimately show ?thesis using v by simp
    qed
  qed
qed

lemma Log2Floor64_unique:
  assumes "2 ^ k \<le> unat n" "unat n < 2 ^ Suc k"
  shows "Log2Floor64 n = int k"
proof -
  have "n \<noteq> 0" using assms(1) by (auto simp: not_le)
  then obtain j where j: "Log2Floor64 n = int j" "2 ^ j \<le> unat n" "unat n < 2 ^ Suc j"
    by (rule Log2Floor64_log)
  have "(2 :: nat) ^ j < 2 ^ Suc k" "(2 :: nat) ^ k < 2 ^ Suc j" using assms j by linarith+
  then have "j < Suc k" "k < Suc j" by (simp_all only: power_strict_increasing_iff one_less_numeral_iff semiring_norm)
  with j(1) show ?thesis by simp
qed

lemma nth_le_bytes: "i < k \<Longrightarrow> le_bytes k n ! i = word_of_nat (n div 256 ^ i)"
  by (induction k arbitrary: n i) (auto simp: nth_Cons div_mult2_eq split: nat.split)

lemma nth_be_bytes: "i < k \<Longrightarrow> be_bytes k n ! i = word_of_nat (n div 256 ^ (k - Suc i))"
  by (simp add: be_bytes_def rev_nth nth_le_bytes)

lemma xor_255_NOT: "b XOR 0xff = (NOT b :: byte)"
proof -
  have "(0xff :: byte) = NOT 0" by simp
  then show ?thesis by (simp only: bit.xor_compl_right xor.right_neutral)
qed

lemma signed_code_short:
  assumes "signed_length u \<le> 7"
  defines "b \<equiv> signed_code u ! 0"
  shows "b \<noteq> 0xff \<and> Log2Floor64 (ucast (b XOR 0xff)) = 7 - int (signed_length u)"
proof -
  obtain k where k: "signed_length u = Suc k" using signed_length_pos [of u] by (metis gr0_conv_Suc)
  then have k6: "k \<le> 6" using assms by simp
  let ?N = "signed_header (Suc k) + u"
  have N: "?N < 2 ^ (8 * Suc k) - 2 ^ (7 * Suc k - 1)" "2 ^ (8 * Suc k) - 2 ^ (7 * Suc k) \<le> ?N"
    using signed_header_bounds [of "Suc k" u] signed_length_bounds [of u] k by simp_all
  have e: "7 * Suc k - 1 = 8 * k + (6 - k)" "7 * Suc k = 8 * k + (7 - k)" "8 * Suc k = 8 * k + 8"
    using k6 by simp_all
  have "256 ^ k * (256 - 2 ^ (7 - k)) \<le> ?N"
    using N(2) unfolding e(2,3) by (simp only: power_add power_256 diff_mult_distrib2) simp
  moreover have "?N < 256 ^ k * (256 - 2 ^ (6 - k))"
    using N(1) unfolding e(1,3) by (simp only: power_add power_256 diff_mult_distrib2) simp
  ultimately have d: "256 - 2 ^ (7 - k) \<le> ?N div 256 ^ k" "?N div 256 ^ k < 256 - 2 ^ (6 - k)"
    by (simp_all only: less_eq_div_iff_mult_less_eq div_less_iff_less_mult zero_less_power zero_less_numeral mult.commute)
  have "b = word_of_nat (?N div 256 ^ k)"
    unfolding b_def signed_code_def k by (subst nth_be_bytes) simp_all
  then have b: "unat b = ?N div 256 ^ k" using d by (simp add: unat_of_nat)
  have "unat (ucast (b XOR 0xff) :: u64) = 255 - unat b"
    using unat_byte_less [of "NOT b"] 
    by (simp add: unsigned_ucast_eq take_bit_nat_eq_self xor_255_NOT unat_NOT_byte)
  then have "2 ^ (6 - k) \<le> unat (ucast (b XOR 0xff) :: u64)" "unat (ucast (b XOR 0xff) :: u64) < 2 ^ Suc (6 - k)"
    using d k6 by (simp_all add: b flip: Suc_diff_le)
  then have "Log2Floor64 (ucast (b XOR 0xff)) = int (6 - k)"
    by (rule Log2Floor64_unique)
  moreover have "b \<noteq> 0xff"
  proof
    assume "b = 0xff"
    then have "255 < 256 - (2 :: nat) ^ (6 - k)" using d(2) b by simp
    moreover have "0 < (2 :: nat) ^ (6 - k)" by simp
    ultimately show False by linarith
  qed
  ultimately show ?thesis using k k6 by simp
qed

lemma signed_code_long_hd:
  assumes "8 \<le> signed_length u"
  shows "signed_code u ! 0 = 0xff"
proof -
  obtain k where k: "signed_length u = Suc k" "7 \<le> k" using assms by (cases "signed_length u") auto
  let ?N = "signed_header (Suc k) + u"
  have "2 ^ (8 * Suc k) - 2 ^ (7 * Suc k) \<le> ?N" "?N < 2 ^ (8 * Suc k) - 2 ^ (7 * Suc k - 1)"
    using signed_header_bounds [of "Suc k" u] signed_length_bounds [of u] k by simp_all
  moreover have "(2 :: nat) ^ (7 * Suc k) \<le> 2 ^ (8 * k)" using k by (intro power_increasing) simp_all
  moreover have "(2 :: nat) ^ (8 * Suc k) = 256 * 2 ^ (8 * k)" by (simp add: power_add)
  ultimately have "255 * 2 ^ (8 * k) \<le> ?N" "?N < 256 * 2 ^ (8 * k)" by linarith+
  then have "?N div 256 ^ k = 255"
    unfolding power_256 by (intro div_nat_eqI) (simp_all add: mult.commute)
  then show ?thesis
    unfolding signed_code_def k by (subst nth_be_bytes) simp_all
qed

lemma nth_signed_code:
  assumes "i < signed_length u" "D = 256 ^ (signed_length u - Suc i)"
    and "signed_header (signed_length u) = (256 * q + r) * D" "r + u div D < 256"
  shows "unat (signed_code u ! i) = r + u div D"
proof -
  have "0 < D" using assms(2) by simp
  have "unat (signed_code u ! i) = ((256 * q + r) * D + u) div D mod 256"
    unfolding signed_code_def assms(3) nth_be_bytes [OF assms(1)] assms(2) [symmetric]
    by (simp only: unat_of_nat) simp
  also have "((256 * q + r) * D + u) div D = (256 * q + r) + u div D"
    using \<open>0 < D\<close> by simp
  finally show ?thesis using assms(4) by (simp add: add.assoc)
qed

lemma signed_code_8: "signed_length u = 8 \<Longrightarrow> signed_code u ! 1 < 0x80"
proof -
  assume L: "signed_length u = 8"
  then have "u < 2 ^ 55" using signed_length_bounds [of u] by simp
  then have "u div 2 ^ 48 < 128" by (simp add: div_less_iff_less_mult)
  then show ?thesis
    using nth_signed_code [of 1 u "2 ^ 48" 255 0] L by (simp add: signed_header_def word_less_nat_alt)
qed

lemma signed_code_9: "signed_length u = 9 \<Longrightarrow> 0x80 \<le> signed_code u ! 1 \<and> signed_code u ! 1 < 0xc0"
proof -
  assume L: "signed_length u = 9"
  then have "u < 2 ^ 62" using signed_length_bounds [of u] by simp
  then have "u div 2 ^ 56 < 64" by (simp add: div_less_iff_less_mult)
  then show ?thesis
    using nth_signed_code [of 1 u "2 ^ 56" 255 128] L
    by (simp add: signed_header_def word_less_nat_alt word_le_nat_alt)
qed

lemma signed_code_10:
  "signed_length u = 10 \<Longrightarrow> u < 2 ^ 63 \<Longrightarrow> signed_code u ! 1 = 0xc0 \<and> signed_code u ! 2 < 0x80"
proof -
  assume L: "signed_length u = 10" and u: "u < 2 ^ 63"
  then have "u div 2 ^ 64 = 0" "u div 2 ^ 56 < 128" by (simp_all add: div_less_iff_less_mult)
  then have "unat (signed_code u ! 1) = 192" "unat (signed_code u ! 2) < 128"
    using nth_signed_code [of 1 u "2 ^ 64" 255 192] nth_signed_code [of 2 u "2 ^ 56" 65472 0] L
    by (simp_all add: signed_header_def)
  then show ?thesis by (simp add: word_less_nat_alt word_unat_eq_iff)
qed

lemma ReadNumIncreasing_loop_NOT:
  "ReadNumIncreasing_loop (NOT t) (map NOT c) = NOT (ReadNumIncreasing_loop t c)"
proof (induction c arbitrary: t)
  case (Cons b c)
  have "push_bit 8 (NOT t) OR ucast (NOT b) = (NOT (push_bit 8 t OR ucast b) :: u64)"
    by (rule bit_word_eqI) (auto simp: bit_simps dest: bit_byte)
  with Cons show ?case by (simp del: de_Morgan_disj bit.de_Morgan_disj)
qed simp

lemma u64_zero: "(18446744073709551616 :: u64) = 0"
  by (rule word_uint_eqI) simp

lemma LoadBigEndian64_loop:
  assumes "8 \<le> length p"
  shows "LoadBigEndian64 p = ReadNumIncreasing_loop m (take 8 p)"
proof -
  have "LoadBigEndian64 p = ReadNumIncreasing_loop 0 (take 8 p)"
  proof -
    obtain a0 a1 a2 a3 a4 a5 a6 a7 r where "p = [a0, a1, a2, a3, a4, a5, a6, a7] @ r"
      using assms by (auto simp: numeral_eq_Suc Suc_le_length_iff)
    then show ?thesis
      by (simp add: LoadBigEndian64_def upt_rec push_bit_or or.assoc)
  qed
  moreover have "ReadNumIncreasing_loop t (take 8 p) = ReadNumIncreasing_loop 0 (take 8 p)" for t
    using ReadNumIncreasing_loop_value [of "unat t" "take 8 p"] ReadNumIncreasing_loop_value [of 0 "take 8 p"] assms
    by (simp add: u64_zero)
  ultimately show ?thesis by metis
qed

lemma kLengthToMask_header: "L \<le> 10 \<Longrightarrow> 0 < L \<Longrightarrow> kLengthToMask ! L = word_of_nat (signed_header L)"
proof -
  assume "L \<le> 10" "0 < L"
  then have "L \<in> set [1..<11]" by auto
  moreover have "list_all (\<lambda>L. kLengthToMask ! L = word_of_nat (signed_header L)) [1..<11]"
    by (simp add: kLengthToMask_def signed_header_def upt_rec)
  ultimately show ?thesis unfolding list_all_iff by blast
qed

text \<open>\<open>invert n\<close> complements the bytes of negative numbers.\<close>

definition invert :: "bool \<Rightarrow> bytes \<Rightarrow> bytes" where
  "invert n c = (if n then map NOT c else c)"

lemma length_signed_code [simp]: "length (signed_code u) = signed_length u"
  by (simp add: signed_code_def)

lemma loop_signed_code:
  "ReadNumIncreasing_loop (if n then NOT 0 else 0) (invert n (signed_code u)) =
   (if n then NOT (word_of_nat (signed_header (signed_length u) + u))
    else word_of_nat (signed_header (signed_length u) + u))"
  using ReadNumIncreasing_loop_value [of 0 "signed_code u"] ReadNumIncreasing_loop_NOT [of 0 "signed_code u"]
  by (simp add: invert_def be_value_signed_code del: of_nat_add)

lemma unmask_signed:
  assumes "u < 2 ^ 63"
  shows "word_of_nat (signed_header (signed_length u) + u) XOR kLengthToMask ! signed_length u = word_of_nat u"
proof -
  let ?L = "signed_length u"
  have "(7 * ?L - 1) \<le> 7 * ?L" by simp
  then have "(2 :: nat) ^ (7 * ?L - 1) \<le> 2 ^ (7 * ?L)" by (rule power_increasing) simp
  then have "u < 2 ^ (7 * ?L)" using signed_length_bounds [of u] by linarith
  then have "signed_header ?L + u = signed_header ?L XOR u"
    unfolding signed_header_def by (simp only: nat_xor_add)
  moreover have "kLengthToMask ! ?L = word_of_nat (signed_header ?L)"
    using assms by (intro kLengthToMask_header signed_length_le_10) simp_all
  ultimately show ?thesis
    by (simp only: of_nat_xor_eq) (metis bit.xor_left_self xor.commute)
qed

lemma and_128: "b AND 0x80 = 0 \<longleftrightarrow> (b :: byte) < 0x80"
proof -
  have "b AND 2 ^ 7 = 0 \<longleftrightarrow> \<not> bit (unat b) 7"
    by (simp only: and_exp_eq_0_iff_not_bit) (simp add: bit_unsigned_iff)
  also have "bit (unat b) 7 \<longleftrightarrow> odd (unat b div 2 ^ 7)" by (rule bit_iff_odd)
  also have "\<not> odd (unat b div 2 ^ 7) \<longleftrightarrow> unat b < 128"
  proof (cases "unat b < 128")
    case False
    then have "unat b div 2 ^ 7 = 1" using unat_byte_less [of b] by (intro div_nat_eqI) simp_all
    with False show ?thesis by simp
  qed simp
  finally show ?thesis by (simp add: word_less_nat_alt)
qed

lemma ReadNumIncreasing_loop_append:
  "ReadNumIncreasing_loop t (xs @ ys) = ReadNumIncreasing_loop (ReadNumIncreasing_loop t xs) ys"
  by (induction xs arbitrary: t) simp_all

lemma LoadBigEndian64_last:
  assumes "8 \<le> length x"
  shows "LoadBigEndian64 (drop (length x - 8) (x @ rest)) = ReadNumIncreasing_loop t x"
proof -
  let ?k = "length x - 8"
  have "LoadBigEndian64 (drop ?k (x @ rest)) = ReadNumIncreasing_loop (ReadNumIncreasing_loop t (take ?k x)) (drop ?k x)"
    using assms LoadBigEndian64_loop [of "drop ?k (x @ rest)" "ReadNumIncreasing_loop t (take ?k x)"] by simp
  then show ?thesis by (simp flip: ReadNumIncreasing_loop_append)
qed

lemma signed_len_opt:
  assumes "8 \<le> signed_length u" "u < 2 ^ 63"
  shows "(if signed_code u ! 1 \<ge> 0x80 then (if signed_code u ! 1 < 0xc0 then Some 9
          else if signed_code u ! 1 = 0xc0 \<and> signed_code u ! 2 < 0x80 then Some 10 else None) else Some 8) =
     Some (signed_length u)"
proof -
  consider "signed_length u = 8" | "signed_length u = 9" | "signed_length u = 10"
    using assms(1) signed_length_le_10 [OF assms(2)] by linarith
  then show ?thesis
  proof cases
    case 1
    from signed_code_8 [OF 1] 1 show ?thesis by (simp add: not_le [symmetric])
  next
    case 2
    from signed_code_9 [OF 2] 2 show ?thesis by simp
  next
    case 3
    from signed_code_10 [OF 3 assms(2)] 3 show ?thesis by simp
  qed
qed

lemma ReadSigned_invert:
  assumes u: "u < 2 ^ 63"
  shows "ReadSignedNumIncreasing (invert n (signed_code u) @ rest) =
    Some (if n then NOT (word_of_nat u) else word_of_nat u, rest)"
proof -
  let ?L = "signed_length u" and ?c = "signed_code u"
  let ?m = "if n then NOT 0 else 0 :: u64" and ?mb = "if n then 0xff else 0 :: byte"
  let ?src = "invert n ?c @ rest"
  have mb: "ucast (?m AND 0xff) = ?mb" by simp
  have L: "0 < ?L" "?L \<le> 10" using signed_length_le_10 [OF u] by simp_all
  have len: "length (invert n ?c) = ?L" by (simp add: invert_def)
  have nth: "?src ! i XOR ?mb = ?c ! i" if "i < ?L" for i
    using that by (simp add: invert_def nth_append xor_255_NOT)
  have "0x80 \<le> ?c ! 0" using signed_code_hd [of u] by auto
  then have "?src ! 0 AND 0x80 = 0 \<longleftrightarrow> n"
    using L len by (auto simp: nth_append and_128 invert_def word_less_nat_alt word_le_nat_alt unat_NOT_byte)
  then have m: "(if ?src ! 0 AND 0x80 = 0 then NOT 0 else 0) = ?m" by simp
  have res: "ReadNumIncreasing_loop ?m (invert n ?c) XOR kLengthToMask ! ?L = (if n then NOT (word_of_nat u) else word_of_nat u)"
    using unmask_signed [OF u] by (simp add: loop_signed_code del: of_nat_add)
  have ne: "?src \<noteq> []" using L(1) len by (metis append_is_Nil_conv less_irrefl list.size(3))
  show ?thesis
  proof (cases "?L \<le> 7")
    case True
    note s = signed_code_short [OF this]
    show ?thesis
      using s nth [of 0] L ne res len unfolding ReadSignedNumIncreasing_def Let_def m mb by simp
  next
    case False
    then have len_opt: "?c ! 0 = 0xff" using signed_code_long_hd [of u] by simp
    note len_opt = this signed_len_opt [OF _ u]
    have "LoadBigEndian64 (drop (?L - 8) ?src) = ReadNumIncreasing_loop ?m (invert n ?c)"
      using LoadBigEndian64_last [of "invert n ?c" rest ?m] False len by simp
    moreover have "?src ! 0 XOR ?mb = 0xff" "?src ! 1 XOR ?mb = ?c ! 1" "?src ! 2 XOR ?mb = ?c ! 2"
      using False nth [of 0] nth [of 1] nth [of 2] len_opt(1) by simp_all
    ultimately show ?thesis
      unfolding ReadSignedNumIncreasing_def Let_def m mb using ne res len False len_opt(2)
      by (simp only: if_False simp_thms) simp
  qed
qed

lemma ReadSigned_WriteSigned:
  "ReadSignedNumIncreasing (WriteSignedNumIncreasing [] v @ rest) = Some (v, rest)"
proof (cases "sint v < 0")
  case True
  then have "unat (NOT v) < 2 ^ 63" using sint_nonneg_iff [of v] by (simp add: unat_NOT_u64)
  with True show ?thesis
    using ReadSigned_invert [of "unat (NOT v)" True rest]
    by (simp add: Write_signed_NOT Write_signed_nonneg invert_def)
next
  case False
  then have "unat v < 2 ^ 63" using sint_nonneg_iff [of v] by simp
  then show ?thesis
    using ReadSigned_invert [of "unat v" False rest] by (simp add: Write_signed_nonneg invert_def)
qed

section \<open>The three coders as ordered codecs\<close>

lemma Write_dest:
  "WriteString dest s = dest @ WriteString [] s"
  "WriteNumIncreasing dest v = dest @ WriteNumIncreasing [] v"
  "WriteSignedNumIncreasing dest v = dest @ WriteSignedNumIncreasing [] v"
  by (simp_all add: WriteString_escapes WriteNumIncreasing_def WriteSignedNumIncreasing_def Let_def)

interpretation str: ordered_codec "WriteString []" "\<lambda>src. ReadString src []" "(<)"
  by unfold_locales
     (auto simp: WriteString_escapes ReadString_def ReadStringInternal_escapes escapes_of_less)

interpretation num: ordered_codec "WriteNumIncreasing []" ReadNumIncreasing "(<)"
  by unfold_locales (auto simp: ReadNumIncreasing_Write WriteNumIncreasing_less)

interpretation snum: ordered_codec "WriteSignedNumIncreasing []" ReadSignedNumIncreasing "\<lambda>v w. sint v < sint w"
proof unfold_locales
  show "WriteSignedNumIncreasing [] x @ s < WriteSignedNumIncreasing [] y @ t" if "sint x < sint y" for x y s t
    using that by (intro diverge_less_append Write_signed_less)
  show "sint x < sint y \<or> x = y \<or> sint y < sint x" for x y :: u64
    by (metis linorder_less_linear signed_word_eqI)
qed (rule ReadSigned_WriteSigned)

section \<open>Properties\<close>

text \<open>(C25) Strings, unsigned and signed numbers round-trip: each reader returns the item its writer
  appended to any destination and exactly the bytes after it.\<close>

theorem ordered_code_roundtrip:
  "ReadString (drop (length dest) (WriteString dest s) @ rest) [] = Some (s, rest) \<and>
   ReadNumIncreasing (drop (length dest) (WriteNumIncreasing dest v) @ rest) = Some (v, rest) \<and>
   ReadSignedNumIncreasing (drop (length dest) (WriteSignedNumIncreasing dest w) @ rest) = Some (w, rest)"
  by (simp add: Write_dest [of dest] str.dec_enc num.dec_enc snum.dec_enc)

text \<open>(C23) The encodings preserve order under concatenation: an encoded string, unsigned number or
  signed number followed by \<open>a\<close> sorts before another followed by \<open>b\<close> exactly if the item is
  smaller, or the items are equal and \<open>a\<close> sorts before \<open>b\<close>.\<close>

theorem ordered_code_order:
  "(WriteString [] s @ a < WriteString [] t @ b \<longleftrightarrow> s < t \<or> s = t \<and> a < b) \<and>
   (WriteNumIncreasing [] v @ a < WriteNumIncreasing [] w @ b \<longleftrightarrow> v < w \<or> v = w \<and> a < b) \<and>
   (WriteSignedNumIncreasing [] x @ a < WriteSignedNumIncreasing [] y @ b \<longleftrightarrow>
      sint x < sint y \<or> x = y \<and> a < b)"
  using str.enc_less_iff num.enc_less_iff snum.enc_less_iff by blast

end
