(* ===== verification/Checkpoint_Key.thy ===== *)
theory Checkpoint_Key
  imports Slice_Set Ordered_Code
begin

text \<open>
  Keys of checkpoint files: \<open>core/util/saved_tensor_slice_util.cc\<close>.  The data of a slice of a tensor is
  stored in a table under a key that encodes the name of the tensor and the slice with the
  order-preserving code, and an operation that saves or restores a slice is told which by a text with the
  dimensions of the tensor and the slice.

  The theory shows that a key is read back, that keys sort by name, rank and extents (after the key of
  the metadata), and what is read from a text, with the inputs for which the process stops.
\<close>

section \<open>Keys\<close>

definition kSavedTensorSlicesKey :: bytes where "kSavedTensorSlicesKey = []"

definition kint32max :: nat where "kint32max = 0x7fffffff"

fun encode_extents :: "tensor_slice \<Rightarrow> nat list \<Rightarrow> bytes \<Rightarrow> bytes" where
  "encode_extents s [] buffer = buffer"
| "encode_extents s (d # ds) buffer =
     encode_extents s ds (WriteSignedNumIncreasing (WriteSignedNumIncreasing buffer (word_of_int (start s d))) (word_of_int (slength s d)))"

definition EncodeTensorNameSlice :: "bytes \<Rightarrow> tensor_slice \<Rightarrow> bytes" where
  "EncodeTensorNameSlice name s =
     (let buffer = WriteNumIncreasing [] 0;
          buffer = WriteString buffer name;
          buffer = WriteNumIncreasing buffer (word_of_nat (slice_dims s))
      in encode_extents s [0..<slice_dims s] buffer)"

text \<open>The bytes of a string in an error message.\<close>

definition text_of :: "bytes \<Rightarrow> string" where
  "text_of = map (\<lambda>b. char_of (unat b))"

fun decode_extents :: "nat list \<Rightarrow> bytes \<Rightarrow> tensor_slice \<Rightarrow> status \<times> tensor_slice" where
  "decode_extents [] src s = (OkStatus, s)"
| "decode_extents (d # ds) src s =
     (case ReadSignedNumIncreasing src of
        None \<Rightarrow> (Error INTERNAL (''Failed to parse start: src = '' @ text_of src), s)
      | Some (st, src) \<Rightarrow>
          (case ReadSignedNumIncreasing src of
             None \<Rightarrow> (Error INTERNAL (''Failed to parse length: src = '' @ text_of src), s)
           | Some (len, src) \<Rightarrow>
               if sint len \<ge> 0 then decode_extents ds src (set_length d (sint len) (set_start d (sint st) s))
               else decode_extents ds src s))"

text \<open>\<open>None\<close> for the name: only a part of it has been appended.\<close>

definition DecodeTensorNameSlice :: "bytes \<Rightarrow> bytes \<Rightarrow> tensor_slice \<Rightarrow> status \<times> bytes option \<times> tensor_slice" where
  "DecodeTensorNameSlice code name s =
     (case ReadNumIncreasing code of
        None \<Rightarrow> (Error INTERNAL (''Failed to parse the leading number: src = '' @ text_of code), Some name, s)
      | Some (x, src) \<Rightarrow>
          if x \<noteq> 0 then (Error INTERNAL (''The leading number should always be 0 for any valid key: src = '' @ text_of src), Some name, s)
          else
            (case ReadString src name of
               None \<Rightarrow> (Error INTERNAL (''Failed to parse the tensor name: src = '' @ text_of src), None, s)
             | Some (name, src) \<Rightarrow>
                 (case ReadNumIncreasing src of
                    None \<Rightarrow> (Error INTERNAL (''Failed to parse the tensor rank: src = '' @ text_of src), Some name, s)
                  | Some (x, src) \<Rightarrow>
                      if x = 0
                      then (Error INTERNAL (''Expecting positive rank of the tensor, got '' @ FastUInt64ToBufferLeft x @
                             '', src = '' @ text_of src), Some name, s)
                      else if unat x \<ge> kint32max
                      then (Error INTERNAL (''Too many elements '' @ FastUInt64ToBufferLeft x), Some name, s)
                      else
                        (let (st, s) = decode_extents [0..<unat x] src (SetFullSlice (int (unat x)) s) in (st, Some name, s)))))"

section \<open>Texts\<close>

fun parse_dims :: "string \<Rightarrow> string list \<Rightarrow> shape_rep \<Rightarrow> (status \<times> shape_rep) option" where
  "parse_dims str [] shape = Some (OkStatus, shape)"
| "parse_dims str (p # ps) shape =
     (case safe_strto64 p of
        None \<Rightarrow> Some (Error INVALID_ARGUMENT (''Non numerical dimension in shape_and_slice: '' @ str), shape)
      | Some dim \<Rightarrow> Option.bind (AddDim False dim shape) (parse_dims str ps))"

definition ParseShapeAndSlice ::
    "splitter \<Rightarrow> string \<Rightarrow> shape_rep \<Rightarrow> tensor_slice \<Rightarrow> shape_rep \<Rightarrow> (status \<times> shape_rep \<times> tensor_slice \<times> shape_rep) option" where
  "ParseShapeAndSlice split str shape sl shape_slice =
     (if str = [] then None
      else
        let splits = Split split str (CHR '' '') in
        if length splits < 2
        then Some (Error INVALID_ARGUMENT (''Need least two elements in shape_and_slice specification: '' @ str), shape, sl, shape_slice)
        else
          let (s, sl) = Parse split (last splits) (slice_Clear sl) in
          if \<not> ok s then Some (s, shape, sl, shape_slice)
          else
            Option.bind (parse_dims str (butlast splits) (Clear shape)) (\<lambda>(s, shape).
              if \<not> ok s then Some (s, shape, sl, shape_slice)
              else map_option (\<lambda>(s, shape_slice). (s, shape, sl, shape_slice)) (SliceTensorShape shape shape_slice sl)))"

section \<open>Keys are read back and sort by their parts\<close>

text \<open>The numbers of a key, in order.\<close>

definition extent_words :: "tensor_slice \<Rightarrow> nat list \<Rightarrow> u64 list" where
  "extent_words s ds = concat (map (\<lambda>d. [word_of_int (start s d), word_of_int (slength s d)]) ds)"

abbreviation signed_words :: "u64 list \<Rightarrow> bytes" where
  "signed_words ws \<equiv> concat (map (WriteSignedNumIncreasing []) ws)"

lemma encode_extents_eq: "encode_extents s ds buffer = buffer @ signed_words (extent_words s ds)"
proof (induction ds arbitrary: buffer)
  case (Cons d ds)
  have "WriteSignedNumIncreasing (WriteSignedNumIncreasing buffer x) y = buffer @ WriteSignedNumIncreasing [] x @ WriteSignedNumIncreasing [] y" for x y
    by (subst Write_dest(3), subst Write_dest(3)) simp
  then show ?case using Cons by (simp add: extent_words_def)
qed (simp add: extent_words_def)

lemma EncodeTensorNameSlice_eq:
  "EncodeTensorNameSlice name s = WriteNumIncreasing [] 0 @ WriteString [] name @ WriteNumIncreasing [] (word_of_nat (slice_dims s)) @
     signed_words (extent_words s [0..<slice_dims s])"
proof -
  have "WriteNumIncreasing (WriteString (WriteNumIncreasing [] 0) name) r =
      WriteNumIncreasing [] 0 @ WriteString [] name @ WriteNumIncreasing [] r" for r
    by (subst Write_dest(2), subst Write_dest(1)) simp
  then show ?thesis by (simp add: EncodeTensorNameSlice_def encode_extents_eq)
qed

lemma sint_word: "- (2 ^ 63) \<le> i \<Longrightarrow> i < 2 ^ 63 \<Longrightarrow> sint (word_of_int i :: u64) = i"
  by transfer (simp add: signed_take_bit_int_eq_self)

lemma extent_range:
  assumes "slice_ok s" "d < slice_dims s"
  shows "sint (word_of_int (start s d) :: u64) = start s d" "sint (word_of_int (slength s d) :: u64) = slength s d"
  using slice_okD [OF assms] by (auto simp: IsFullAt_alt kFullExtent_def intro!: sint_word)

lemma decode_extents_words:
  assumes "slice_ok s" "set ds \<subseteq> {..<slice_dims s}" "distinct ds" "\<forall>d \<in> set ds. e d = (0, kFullExtent)"
  shows "decode_extents ds (signed_words (extent_words s ds) @ rest) (slice_of (slice_dims s) e) =
    (OkStatus, slice_of (slice_dims s) (\<lambda>d. if d \<in> set ds then (start s d, slength s d) else e d))"
  using assms(2-4)
proof (induction ds arbitrary: e)
  case (Cons d ds)
  let ?n = "slice_dims s" and ?src = "signed_words (extent_words s ds) @ rest"
  have d: "d < ?n" using Cons.prems(1) by simp
  have src: "signed_words (extent_words s (d # ds)) @ rest =
      WriteSignedNumIncreasing [] (word_of_int (start s d)) @ WriteSignedNumIncreasing [] (word_of_int (slength s d)) @ ?src"
    by (simp add: extent_words_def)
  have "decode_extents (d # ds) (signed_words (extent_words s (d # ds)) @ rest) (slice_of ?n e) =
      decode_extents ds ?src (if slength s d \<ge> 0 then put d (start s d, slength s d) (slice_of ?n e) else slice_of ?n e)"
    unfolding src using extent_range [OF assms(1) d] by (simp add: ReadSigned_WriteSigned)
  also have "(if slength s d \<ge> 0 then put d (start s d, slength s d) (slice_of ?n e) else slice_of ?n e) =
      slice_of ?n (e(d := (start s d, slength s d)))"
  proof (cases "IsFullAt s d")
    case True
    then have "e(d := (start s d, slength s d)) = e" "slength s d < 0" using Cons.prems(3) by (auto simp: IsFullAt_alt kFullExtent_def)
    then show ?thesis by simp
  next
    case False
    then have "slength s d \<ge> 0" using slice_okD [OF assms(1) d] by simp
    then show ?thesis using put_slice_of [OF d, of "(start s d, slength s d)" e] by simp
  qed
  also have "decode_extents ds ?src (slice_of ?n (e(d := (start s d, slength s d)))) =
      (OkStatus, slice_of ?n (\<lambda>x. if x \<in> set ds then (start s x, slength s x) else (e(d := (start s d, slength s d))) x))"
    using Cons.prems by (intro Cons.IH) auto
  also have "slice_of ?n (\<lambda>x. if x \<in> set ds then (start s x, slength s x) else (e(d := (start s d, slength s d))) x) =
      slice_of ?n (\<lambda>x. if x \<in> set (d # ds) then (start s x, slength s x) else e x)"
    by (rule slice_of_cong) auto
  finally show ?case .
qed simp

lemma unat_rank: "n < kint32max \<Longrightarrow> unat (word_of_nat n :: u64) = n"
  by (simp add: kint32max_def unat_of_nat)

lemma DecodeTensorNameSlice_Encode:
  assumes "slice_ok s" "slice_dims s < kint32max"
  shows "if slice_dims s = 0
    then \<exists>m. DecodeTensorNameSlice (EncodeTensorNameSlice name s) [] sl = (Error INTERNAL m, Some name, sl)
    else DecodeTensorNameSlice (EncodeTensorNameSlice name s) [] sl = (OkStatus, Some name, s)"
proof -
  have u: "unat (word_of_nat (slice_dims s) :: u64) = slice_dims s"
    by (rule unat_rank [OF assms(2)])
  then have z: "(word_of_nat (slice_dims s) :: u64) = 0 \<longleftrightarrow> slice_dims s = 0" by (metis unat_0 unsigned_eq_0_iff)
  have sub: "set [0..<slice_dims s] \<subseteq> {..<slice_dims s}" by auto
  have "decode_extents [0..<slice_dims s] (signed_words (extent_words s [0..<slice_dims s])) (slice_of (slice_dims s) (\<lambda>d. (0, kFullExtent))) =
      (OkStatus, slice_of (slice_dims s) (\<lambda>d. if d \<in> set [0..<slice_dims s] then (start s d, slength s d) else (0, kFullExtent)))"
    using decode_extents_words [OF assms(1) sub, of "\<lambda>d. (0, kFullExtent)" "[]"] by simp
  also have "slice_of (slice_dims s) (\<lambda>d. if d \<in> set [0..<slice_dims s] then (start s d, slength s d) else (0, kFullExtent)) = s"
    using slice_of_self [OF slice_ok_lengths [OF assms(1)]]
      slice_of_cong [of "slice_dims s" "\<lambda>d. if d \<in> set [0..<slice_dims s] then (start s d, slength s d) else (0, kFullExtent)" "\<lambda>d. (start s d, slength s d)"]
    by auto
  finally have d: "decode_extents [0..<slice_dims s] (signed_words (extent_words s [0..<slice_dims s])) (SetFullSlice (int (slice_dims s)) sl) = (OkStatus, s)"
    by (simp add: SetFullSlice_of)
  show ?thesis
    unfolding EncodeTensorNameSlice_eq DecodeTensorNameSlice_def num.dec_enc str.dec_enc u z option.case prod.case
    using assms(2) d by (auto simp: u)
qed

text \<open>The order of keys.\<close>

definition key_extents :: "tensor_slice \<Rightarrow> int list" where
  "key_extents s = concat (map (\<lambda>d. [start s d, slength s d]) [0..<slice_dims s])"

lemma extent_words_sint:
  assumes "slice_ok s"
  shows "map sint (extent_words s [0..<slice_dims s]) = key_extents s"
  using extent_range [OF assms] by (auto simp: extent_words_def key_extents_def map_concat comp_def intro!: arg_cong [of _ _ concat])

lemma lexord_map: "(\<And>x y. R x y \<longleftrightarrow> f x < f y) \<Longrightarrow> inj f \<Longrightarrow> (xs, ys) \<in> lexord {(x, y). R x y} \<longleftrightarrow> map f xs < (map f ys :: int list)"
proof (induction xs arbitrary: ys)
  case Nil
  then show ?case by (cases ys) auto
next
  case (Cons x xs)
  then show ?case by (cases ys) (auto simp: inj_eq)
qed

lemma inj_sint: "inj (sint :: u64 \<Rightarrow> int)"
  by (auto simp: inj_def intro: signed_word_eqI)

lemma length_extent_words: "length (extent_words s ds) = 2 * length ds"
  by (induction ds) (simp_all add: extent_words_def)
lemma key_less:
  assumes "slice_ok s" "slice_ok s'" "slice_dims s < kint32max" "slice_dims s' < kint32max"
  shows "EncodeTensorNameSlice name s < EncodeTensorNameSlice name' s' \<longleftrightarrow>
    name < name' \<or> name = name' \<and> (slice_dims s < slice_dims s' \<or> slice_dims s = slice_dims s' \<and> key_extents s < key_extents s')"
proof -
  let ?w = "extent_words s [0..<slice_dims s]" and ?w' = "extent_words s' [0..<slice_dims s']"
  have l: "(word_of_nat (slice_dims s) :: u64) < word_of_nat (slice_dims s') \<longleftrightarrow> slice_dims s < slice_dims s'"
    "(word_of_nat (slice_dims s) :: u64) = word_of_nat (slice_dims s') \<longleftrightarrow> slice_dims s = slice_dims s'"
    using unat_rank [OF assms(3)] unat_rank [OF assms(4)] by (simp_all add: word_less_nat_alt) (metis)
  have e: "signed_words ?w < signed_words ?w' \<longleftrightarrow> key_extents s < key_extents s'" if "slice_dims s = slice_dims s'"
  proof -
    have "signed_words ?w @ [] < signed_words ?w' @ [] \<longleftrightarrow> (?w, ?w') \<in> lexord {(x, y). sint x < sint y} \<or> ?w = ?w' \<and> ([] :: bytes) < []"
      by (rule snum.concat_enc_less_iff) (simp add: length_extent_words that)
    also have "(?w, ?w') \<in> lexord {(x, y). sint x < sint y} \<longleftrightarrow> map sint ?w < map sint ?w'"
      by (rule lexord_map [OF refl inj_sint])
    finally show ?thesis by (simp add: extent_words_sint [OF assms(1)] extent_words_sint [OF assms(2)])
  qed
  show ?thesis
    unfolding EncodeTensorNameSlice_eq num.enc_less_iff str.enc_less_iff l using e by auto
qed

section \<open>What is read from a text\<close>

lemma parse_dims_nums:
  assumes "holds False shape es" "int64s ds"
  shows "if representable False (es @ ds) then \<exists>r. parse_dims str (map num ds) shape = Some (OkStatus, r) \<and> holds False r (es @ ds)
    else parse_dims str (map num ds) shape = None"
  using assms
proof (induction ds arbitrary: es shape)
  case Nil
  then show ?case using holdsE(4) [OF Nil.prems(1)] by simp
next
  case (Cons d ds)
  have d: "- (2 ^ 63) \<le> d" "d < 2 ^ 63" "int64s ds" using Cons.prems(2) by auto
  have r: "safe_strto64 (num d) = Some d" by (rule safe_strto64_print [OF d(1,2)])
  note law = AddDim_law [OF Cons.prems(1) d(1,2)]
  show ?case
  proof (cases "representable False (es @ [d])")
    case True
    then obtain q where q: "AddDim False d shape = Some q" "holds False q (es @ [d])" using law by auto
    then have "parse_dims str (map num (d # ds)) shape = parse_dims str (map num ds) q" using r by simp
    then show ?thesis using Cons.IH [OF q(2) d(3), unfolded append_assoc append_Cons append_Nil] by (simp split: if_splits)
  next
    case False
    then have "\<not> representable False (es @ d # ds)" using representable_prefix by blast
    then show ?thesis using False law r by auto
  qed
qed

definition shape_and_slice :: "int list \<Rightarrow> tensor_slice \<Rightarrow> string" where
  "shape_and_slice ds s = join_with (CHR '' '') (map num ds @ [slice_DebugString s])"

lemma slice_text_no_space:
  assumes "slice_ok s"
  shows "CHR '' '' \<notin> set (slice_DebugString s)"
proof -
  have "set (join_with c ps) \<subseteq> insert c (\<Union>p \<in> set ps. set p)" for c ps
    by (induction c ps rule: join_with.induct) auto
  then have sub: "set (join_with (CHR '':'') ps) \<subseteq> insert (CHR '':'') (\<Union>p \<in> set ps. set p)" for ps .
  have "CHR '' '' \<notin> set (extent_text s d)" if "d < slice_dims s" for d
    using slice_okD [OF assms that] num_chars separators by (auto simp: extent_text_def)
  then have "CHR '' '' \<notin> (\<Union>p \<in> set (map (extent_text s) [0..<slice_dims s]). set p)" by simp
  then have "CHR '' '' \<notin> insert (CHR '':'') (\<Union>p \<in> set (map (extent_text s) [0..<slice_dims s]). set p)" by simp
  then show ?thesis unfolding slice_DebugString_def debug_loop_join(1) using sub by blast
qed

lemma split_shape_and_slice:
  assumes "splits_at split" "slice_ok s" "int64s ds"
  shows "split (CHR '' '') (shape_and_slice ds s) = map num ds @ [slice_DebugString s]"
  unfolding shape_and_slice_def
proof (rule splits_atD [OF assms(1)])
  fix p assume "p \<in> set (map num ds @ [slice_DebugString s])"
  then show "CHR '' '' \<notin> set p"
    using slice_text_no_space [OF assms(2)] assms(3) num_chars separators(3) by (auto simp: list_all_iff)
qed simp

lemma ParseShapeAndSlice_law:
  assumes "splits_at split" "slice_ok s" "int64s ds" "ds \<noteq> []" "length (sr_buf shape) = 16" "length (sr_buf shape_slice) = 16"
  shows "if \<not> representable False ds then ParseShapeAndSlice split (shape_and_slice ds s) shape sl shape_slice = None
    else if \<not> fits ds s
    then \<exists>m shape' r. ParseShapeAndSlice split (shape_and_slice ds s) shape sl shape_slice = Some (Error INTERNAL m, shape', s, r)
    else \<exists>shape' r. ParseShapeAndSlice split (shape_and_slice ds s) shape sl shape_slice = Some (OkStatus, shape', s, r) \<and>
      holds False shape' ds \<and> holds False r (slice_sizes ds s)"
proof -
  have ne: "shape_and_slice ds s \<noteq> []"
    unfolding shape_and_slice_def using assms(4) FastInt64_nonempty join_nonempty [of "num (hd ds)"] by simp
  have splits: "Split split (shape_and_slice ds s) (CHR '' '') = map num ds @ [slice_DebugString s]"
    by (simp add: Split_def ne split_shape_and_slice [OF assms(1-3)])
  have parse: "Parse split (slice_DebugString s) TensorSlice = (OkStatus, s)"
    using Parse_DebugString [OF assms(1,2), of TensorSlice] by (simp add: TensorSlice_def)
  have len: "\<not> length (map num ds @ [slice_DebugString s]) < 2" using assms(4) by (cases ds) auto
  have eq: "ParseShapeAndSlice split (shape_and_slice ds s) shape sl shape_slice =
      Option.bind (parse_dims (shape_and_slice ds s) (map num ds) (Clear shape)) (\<lambda>(st, shape).
        if \<not> ok st then Some (st, shape, s, shape_slice)
        else map_option (\<lambda>(st, shape_slice). (st, shape, s, shape_slice)) (SliceTensorShape shape shape_slice s))"
    unfolding ParseShapeAndSlice_def Let_def splits using ne len parse by simp
  have clear: "holds False (Clear shape) []" using Clear_law [OF assms(5)] by blast
  show ?thesis
  proof (cases "representable False ds")
    case True
    then obtain q where q: "parse_dims (shape_and_slice ds s) (map num ds) (Clear shape) = Some (OkStatus, q)" "holds False q ds"
      using parse_dims_nums [OF clear assms(3), of "shape_and_slice ds s"] by auto
    show ?thesis using SliceTensorShape_law [OF assms(2) q(2) assms(6)] q True unfolding eq
      by (cases "fits ds s") auto
  next
    case False
    then show ?thesis using parse_dims_nums [OF clear assms(3), of "shape_and_slice ds s"] unfolding eq by simp
  qed
qed
section \<open>The properties of keys and texts\<close>

text \<open>(C29) A key is read back: for a well-formed slice of at least one dimension \<open>DecodeTensorNameSlice\<close> returns the name and the
  slice that were encoded; the key of a slice without dimensions is refused with an internal error, although
  \<open>EncodeTensorNameSlice\<close> makes one.  The key of the metadata sorts before every other key, and keys sort by the name, then by
  the rank, then by the starts and lengths.\<close>

theorem checkpoint_keys:
  assumes "slice_ok s" "slice_ok s'" "slice_dims s < kint32max" "slice_dims s' < kint32max"
  shows "(if slice_dims s = 0
     then \<exists>m. DecodeTensorNameSlice (EncodeTensorNameSlice name s) [] sl = (Error INTERNAL m, Some name, sl)
     else DecodeTensorNameSlice (EncodeTensorNameSlice name s) [] sl = (OkStatus, Some name, s)) \<and>
    kSavedTensorSlicesKey < EncodeTensorNameSlice name s \<and>
    (EncodeTensorNameSlice name s < EncodeTensorNameSlice name' s' \<longleftrightarrow>
      name < name' \<or> name = name' \<and> (slice_dims s < slice_dims s' \<or> slice_dims s = slice_dims s' \<and> key_extents s < key_extents s'))"
proof (intro conjI)
  show "kSavedTensorSlicesKey < EncodeTensorNameSlice name s"
    by (simp add: kSavedTensorSlicesKey_def EncodeTensorNameSlice_eq WriteNumIncreasing_def Let_def)
qed (rule DecodeTensorNameSlice_Encode [OF assms(1,3)], rule key_less [OF assms])

lemma checkpoint_keys_witness:
  "DecodeTensorNameSlice (EncodeTensorNameSlice [119] second_one) [] first_two = (OkStatus, Some [119], second_one) \<and>
   EncodeTensorNameSlice [119] first_two < EncodeTensorNameSlice [119] second_one"
proof -
  have n: "slice_dims second_one = 1" "slice_dims first_two = 1" "key_extents first_two = [0, 2]" "key_extents second_one = [1, 1]"
    by code_simp+
  then have d: "slice_dims second_one \<noteq> 0" "slice_dims second_one < kint32max" "slice_dims first_two < kint32max"
    "slice_dims first_two = slice_dims second_one" "key_extents first_two < key_extents second_one"
    by (simp_all add: kint32max_def)
  show ?thesis
    using checkpoint_keys [OF example_slices(2,1) d(2,3), of "[119]" first_two "[119]"]
      checkpoint_keys [OF example_slices(1,2) d(3,2), of "[119]" first_two "[119]"] d(1,4,5) by simp
qed

text \<open>(C33) The text with the dimensions \<open>ds\<close> of a tensor and a slice, as \<open>ParseShapeAndSlice\<close> reads it: when a shape can hold the
  dimensions, it returns them with the slice and the shape of the slice, or an internal error when the slice is not
  within the tensor.  When a shape cannot hold them (a negative number, or too many elements), the call does not return: the
  process stops at a failed check.\<close>

theorem parse_shape_and_slice:
  assumes "splits_at split" "slice_ok s" "int64s ds" "ds \<noteq> []" "length (sr_buf shape) = 16" "length (sr_buf shape_slice) = 16"
  shows "if \<not> representable False ds then ParseShapeAndSlice split (shape_and_slice ds s) shape sl shape_slice = None
    else if \<not> fits ds s
    then \<exists>m shape' r. ParseShapeAndSlice split (shape_and_slice ds s) shape sl shape_slice = Some (Error INTERNAL m, shape', s, r)
    else \<exists>shape' r. ParseShapeAndSlice split (shape_and_slice ds s) shape sl shape_slice = Some (OkStatus, shape', s, r) \<and>
      holds False shape' ds \<and> holds False r (slice_sizes ds s)"
  by (rule ParseShapeAndSlice_law [OF assms])

lemma parse_shape_and_slice_witness:
  "shape_and_slice [4] second_one = ''4 1,1'' \<and>
   (\<exists>shape' r. ParseShapeAndSlice char_split (shape_and_slice [4] second_one) raw_shape first_two raw_shape = Some (OkStatus, shape', second_one, r) \<and>
     holds False shape' [4]) \<and>
   ParseShapeAndSlice char_split (shape_and_slice [- 1] second_one) raw_shape first_two raw_shape = None"
proof (intro conjI)
  show "shape_and_slice [4] second_one = ''4 1,1''" by code_simp
  have r: "representable False [4]" using representable_small [of "[4]" False] by (simp add: kMaxSmall_def least_size_def)
  show "\<exists>shape' r. ParseShapeAndSlice char_split (shape_and_slice [4] second_one) raw_shape first_two raw_shape = Some (OkStatus, shape', second_one, r) \<and>
     holds False shape' [4]"
    using parse_shape_and_slice [OF splits_at_char_split example_slices(2), of "[4]" raw_shape raw_shape first_two] r example_slices(4,5) by auto
  have "\<not> representable False [- 1]" by (simp add: representable_def least_size_def)
  then show "ParseShapeAndSlice char_split (shape_and_slice [- 1] second_one) raw_shape first_two raw_shape = None"
    using parse_shape_and_slice [OF splits_at_char_split example_slices(2), of "[- 1]" raw_shape raw_shape first_two] example_slices(5) by simp
qed

end
