(* ===== verification/Slice_Copy.thy ===== *)
theory Slice_Copy
  imports Slice_Set
begin

text \<open>
  Copying between slices: \<open>core/util/tensor_slice_util.h\<close>, with the sizes that \<open>core/framework/tensor_shape.h\<close> makes
  for Eigen.  The data of a slice is an array with an element for each index vector of the slice; the copy moves the elements
  of the index vectors that two slices share from the array of one to the array of the other.

  Eigen is not part of the sources: the place of an element in an array and the copy of a block are parameters, and the
  locale \<open>slice_copier\<close> states what the code relies on.  The nested loops that the code has for strings and halves are
  modelled and shown to meet this contract on row-major arrays.  The theory shows that the copy writes exactly the
  shared elements.
\<close>

section \<open>Sizes for Eigen\<close>

text \<open>The sizes of a shape as \<open>Eigen::DSizes\<close>; \<open>None\<close> is a failed \<open>CHECK\<close>.\<close>

definition CheckDimsEqual :: "int \<Rightarrow> shape_rep \<Rightarrow> unit option" where
  "CheckDimsEqual nd shape = (if nd = dims False shape then Some () else None)"

definition CheckDimsAtMost :: "int \<Rightarrow> shape_rep \<Rightarrow> unit option" where
  "CheckDimsAtMost nd shape = (if nd \<ge> dims False shape then Some () else None)"

definition AsEigenDSizesCopy :: "nat \<Rightarrow> shape_rep \<Rightarrow> int list" where
  "AsEigenDSizesCopy nd shape = map (dim_size False shape) [0..<nd]"

definition AsEigenDSizesCopyAndPad :: "nat \<Rightarrow> shape_rep \<Rightarrow> int list" where
  "AsEigenDSizesCopyAndPad nd shape =
     map (dim_size False shape) [0..<nat (dims False shape)] @ replicate (nd - nat (dims False shape)) 1"

definition AsEigenDSizes :: "nat \<Rightarrow> shape_rep \<Rightarrow> int list option" where
  "AsEigenDSizes nd shape = map_option (\<lambda>_. AsEigenDSizesCopy nd shape) (CheckDimsEqual (int nd) shape)"

definition AsEigenDSizesWithPadding :: "nat \<Rightarrow> shape_rep \<Rightarrow> int list option" where
  "AsEigenDSizesWithPadding nd shape = map_option (\<lambda>_. AsEigenDSizesCopyAndPad nd shape) (CheckDimsAtMost (int nd) shape)"

section \<open>The copy\<close>

definition kTensorSliceMaxRank :: nat where "kTensorSliceMaxRank = 8"

text \<open>
  Eigen: \<open>at ds is\<close> is the place in memory of the element \<open>is\<close> of a row-major \<open>TensorMap\<close> with the sizes
  \<open>ds\<close>.  A copier is \<open>CopyThatWorksWithStringPointer<DstT>::Copy\<close>: sizes and data of the source, start and length of the block,
  sizes of the destination and start of the block there, and the data of the destination, which is what
  it returns; \<open>None\<close> is an access outside an array.
\<close>

type_synonym layout = "int list \<Rightarrow> int list \<Rightarrow> nat"

type_synonym ('a, 'b) copier = "int list \<Rightarrow> 'a list \<Rightarrow> int list \<Rightarrow> int list \<Rightarrow> int list \<Rightarrow> int list \<Rightarrow> 'b list \<Rightarrow> 'b list option"

text \<open>The nested loops of the copiers for strings and for halves, which differ in the conversion \<open>cast\<close> of an element.\<close>

definition copy_element ::
    "layout \<Rightarrow> ('a \<Rightarrow> 'b) \<Rightarrow> int list \<Rightarrow> 'a list \<Rightarrow> int list \<Rightarrow> int list \<Rightarrow> int list \<Rightarrow> int list \<Rightarrow> 'b list \<Rightarrow> 'b list option" where
  "copy_element at cast s_dims s s_start d_dims d_start is d =
     (let p = at s_dims (map2 (+) s_start is); q = at d_dims (map2 (+) d_start is) in
      if p < length s \<and> q < length d then Some (d[q := cast (s ! p)]) else None)"

fun copy_loops :: "(int list \<Rightarrow> 'b list \<Rightarrow> 'b list option) \<Rightarrow> int list \<Rightarrow> int list \<Rightarrow> 'b list \<Rightarrow> 'b list option" where
  "copy_loops body [] is d = body is d"
| "copy_loops body (n # len) is d = fold (\<lambda>i acc. Option.bind acc (\<lambda>d. copy_loops body len (is @ [i]) d)) [0..n - 1] (Some d)"

definition Copy :: "layout \<Rightarrow> ('a \<Rightarrow> 'b) \<Rightarrow> ('a, 'b) copier" where
  "Copy at cast s_dims s s_start len d_dims d_start d =
     copy_loops (copy_element at cast s_dims s s_start d_dims d_start) len [] d"

text \<open>The destination after the call, and whether the slices overlap.\<close>

definition CopyDataFromTensorSliceToTensorSlice ::
    "shape_rep \<Rightarrow> ('a, 'b) copier \<Rightarrow> shape_rep \<Rightarrow> tensor_slice \<Rightarrow> tensor_slice \<Rightarrow> 'a list \<Rightarrow> 'b list \<Rightarrow> (bool \<times> 'b list) option" where
  "CopyDataFromTensorSliceToTensorSlice raw copy shape slice_s slice_d ptr_s ptr_d =
     (if dims False shape > int kTensorSliceMaxRank then None
      else
        case Intersect slice_d (Some TensorSlice) slice_s of
          (True, Some itc) \<Rightarrow>
            Option.bind (SliceTensorShape shape (TensorShapeBase False raw) slice_s) (\<lambda>(s, shp_s).
              if \<not> ok s then Some (False, ptr_d)
              else
                Option.bind (SliceTensorShape shape (TensorShapeBase False raw) slice_d) (\<lambda>(s, shp_d).
                  if \<not> ok s then Some (False, ptr_d)
                  else
                    let rel_s = ComputeRelative itc TensorSlice slice_s;
                        rel_d = ComputeRelative itc TensorSlice slice_d
                    in
                      Option.bind (AsEigenDSizesWithPadding kTensorSliceMaxRank shp_s) (\<lambda>s_dims.
                      Option.bind (AsEigenDSizesWithPadding kTensorSliceMaxRank shp_d) (\<lambda>d_dims.
                      Option.bind (FillIndicesAndSizes kTensorSliceMaxRank shp_s rel_s) (\<lambda>(s_start, s_len).
                      Option.bind (FillIndicesAndSizes kTensorSliceMaxRank shp_d rel_d) (\<lambda>(d_start, d_len).
                      map_option (\<lambda>d. (True, d)) (copy s_dims ptr_s s_start s_len d_dims d_start ptr_d)))))))
        | _ \<Rightarrow> Some (False, ptr_d))"
section \<open>Blocks of a tensor\<close>

definition in_box :: "int list \<Rightarrow> int list \<Rightarrow> bool" where
  "in_box ds is \<longleftrightarrow> list_all2 (\<lambda>i d. 0 \<le> i \<and> i < d) is ds"

text \<open>A block with the given start and length is within a tensor with the sizes \<open>ds\<close>.\<close>

definition block_in :: "int list \<Rightarrow> int list \<Rightarrow> int list \<Rightarrow> bool" where
  "block_in ds st len \<longleftrightarrow> length st = length ds \<and> length len = length ds \<and>
     (\<forall>i < length ds. 0 \<le> st ! i \<and> st ! i + len ! i \<le> ds ! i)"

lemma in_box_length: "in_box ds is \<Longrightarrow> length is = length ds"
  by (simp add: in_box_def list_all2_lengthD)

lemma in_box_nth: "in_box ds is \<longleftrightarrow> length is = length ds \<and> (\<forall>i < length ds. 0 \<le> is ! i \<and> is ! i < ds ! i)"
  by (auto simp: in_box_def list_all2_conv_all_nth)

lemma block_in_box: "block_in ds st len \<Longrightarrow> in_box len is \<Longrightarrow> in_box ds (map2 (+) st is)"
  by (fastforce simp: in_box_nth block_in_def)

text \<open>
  What the copy relies on: Eigen puts different elements in different places within the array, and a
  copier writes the converted elements of the block and nothing else.
\<close>

locale slice_copier =
  fixes at :: layout and copy :: "('a, 'b) copier" and cast :: "'a \<Rightarrow> 'b"
  assumes at_less: "in_box ds is \<Longrightarrow> at ds is < nat (prod_list ds)"
    and at_inject: "in_box ds is \<Longrightarrow> in_box ds js \<Longrightarrow> at ds is = at ds js \<Longrightarrow> is = js"
    and copy_block: "block_in s_dims s_start len \<Longrightarrow> block_in d_dims d_start len \<Longrightarrow> length s = nat (prod_list s_dims) \<Longrightarrow>
      length d = nat (prod_list d_dims) \<Longrightarrow>
      \<exists>d'. copy s_dims s s_start len d_dims d_start d = Some d' \<and> length d' = length d \<and>
        (\<forall>is. in_box len is \<longrightarrow> d' ! at d_dims (map2 (+) d_start is) = cast (s ! at s_dims (map2 (+) s_start is))) \<and>
        (\<forall>q < length d. (\<forall>is. in_box len is \<longrightarrow> q \<noteq> at d_dims (map2 (+) d_start is)) \<longrightarrow> d' ! q = d ! q)"

section \<open>The loops are a copier\<close>

text \<open>The order in which the loops go through a block.\<close>

fun index_vectors :: "int list \<Rightarrow> int list list" where
  "index_vectors [] = [[]]"
| "index_vectors (n # ns) = concat (map (\<lambda>i. map ((#) i) (index_vectors ns)) [0..n - 1])"

lemma set_index_vectors: "v \<in> set (index_vectors ns) \<longleftrightarrow> in_box ns v"
proof (induction ns arbitrary: v)
  case (Cons n ns)
  have "v \<in> set (index_vectors (n # ns)) \<longleftrightarrow> (\<exists>i w. v = i # w \<and> 0 \<le> i \<and> i < n \<and> w \<in> set (index_vectors ns))" by auto
  then show ?case using Cons by (auto simp: in_box_def list_all2_Cons2)
qed (simp add: in_box_def)

lemma fold_bind_None: "fold (\<lambda>i acc. Option.bind acc (f i)) xs None = None"
  by (induction xs) simp_all

lemma fold_bind_concat:
  "fold (\<lambda>i acc. Option.bind acc (\<lambda>d. fold (\<lambda>v acc. Option.bind acc (f v)) (g i) (Some d))) xs acc =
   fold (\<lambda>v acc. Option.bind acc (f v)) (concat (map g xs)) acc"
proof (induction xs arbitrary: acc)
  case (Cons x xs)
  have "Option.bind acc (\<lambda>d. fold (\<lambda>v acc. Option.bind acc (f v)) (g x) (Some d)) = fold (\<lambda>v acc. Option.bind acc (f v)) (g x) acc"
    by (cases acc) (simp_all add: fold_bind_None)
  then show ?case using Cons by simp
qed simp

lemma copy_loops_vectors:
  "copy_loops body ns is d = fold (\<lambda>v acc. Option.bind acc (body (is @ v))) (index_vectors ns) (Some d)"
proof (induction ns arbitrary: "is" d)
  case (Cons n ns)
  have "copy_loops body ns (is @ [i]) = (\<lambda>d. fold (\<lambda>v acc. Option.bind acc (body (is @ v))) (map ((#) i) (index_vectors ns)) (Some d))" for i
    using Cons by (auto simp: fold_map comp_def)
  then have "copy_loops body (n # ns) is d =
      fold (\<lambda>i acc. Option.bind acc (\<lambda>d. fold (\<lambda>v acc. Option.bind acc (body (is @ v))) (map ((#) i) (index_vectors ns)) (Some d))) [0..n - 1] (Some d)"
    by simp
  then show ?case unfolding fold_bind_concat by simp
qed simp

lemma fold_updates:
  assumes "\<forall>v \<in> set vs. q v < length d \<and> p v < length s" "inj_on q (set vs)"
  shows "\<exists>d'. fold (\<lambda>v acc. Option.bind acc (\<lambda>d. if p v < length s \<and> q v < length d then Some (d[q v := x v]) else None)) vs (Some d) = Some d' \<and>
    length d' = length d \<and> (\<forall>v \<in> set vs. d' ! q v = x v) \<and> (\<forall>k < length d. k \<notin> q ` set vs \<longrightarrow> d' ! k = d ! k)"
  using assms
proof (induction vs arbitrary: d)
  case (Cons v vs)
  let ?d = "d[q v := x v]"
  have "\<forall>w \<in> set vs. q w < length ?d \<and> p w < length s" "inj_on q (set vs)" using Cons.prems by auto
  from Cons.IH [OF this] obtain d' where
    d': "fold (\<lambda>v acc. Option.bind acc (\<lambda>d. if p v < length s \<and> q v < length d then Some (d[q v := x v]) else None)) vs (Some ?d) = Some d'"
    "length d' = length d" "\<forall>w \<in> set vs. d' ! q w = x w" "\<forall>k < length d. k \<notin> q ` set vs \<longrightarrow> d' ! k = ?d ! k" by auto
  have v: "q v < length d" "p v < length s" using Cons.prems(1) by auto
  have "d' ! q v = x v"
  proof (cases "v \<in> set vs")
    case False
    then have "q v \<notin> q ` set vs" using Cons.prems(2) by (auto simp: inj_on_def)
    then show ?thesis using d'(4) v(1) by simp
  qed (use d'(3) in simp)
  then show ?case using d' v by (intro exI [of _ d']) auto
qed simp

text \<open>The row-major layout.\<close>

fun row_major :: layout where
  "row_major [] is = 0"
| "row_major (d # ds) is = nat (hd is) * nat (prod_list ds) + row_major ds (tl is)"

lemma in_box_Cons: "in_box (d # ds) (i # is) \<longleftrightarrow> 0 \<le> i \<and> i < d \<and> in_box ds is"
  by (simp add: in_box_def)

lemma in_box_nonneg: "in_box ds is \<Longrightarrow> 0 \<le> prod_list ds"
  by (induction ds arbitrary: "is") (auto simp: in_box_def list_all2_Cons2)

lemma row_major_less: "in_box ds is \<Longrightarrow> row_major ds is < nat (prod_list ds)"
proof (induction ds arbitrary: "is")
  case (Cons d ds)
  then obtain i js where e: "is = i # js" "0 \<le> i" "i < d" "in_box ds js" by (auto simp: in_box_def list_all2_Cons2)
  have "row_major ds js < nat (prod_list ds)" by (rule Cons.IH [OF e(4)])
  then have "nat i * nat (prod_list ds) + row_major ds js < (nat i + 1) * nat (prod_list ds)" by simp
  also have "\<dots> \<le> nat d * nat (prod_list ds)" using e(2,3) by (intro mult_right_mono) auto
  finally show ?case using e by (simp add: nat_mult_distrib)
qed simp

lemma row_major_inject: "in_box ds is \<Longrightarrow> in_box ds js \<Longrightarrow> row_major ds is = row_major ds js \<Longrightarrow> is = js"
proof (induction ds arbitrary: "is" js)
  case Nil
  then show ?case by (simp add: in_box_def)
next
  case (Cons d ds)
  obtain i "is'" where i: "is = i # is'" "0 \<le> i" "i < d" "in_box ds is'" using Cons.prems(1) by (auto simp: in_box_def list_all2_Cons2)
  obtain j js' where j: "js = j # js'" "0 \<le> j" "j < d" "in_box ds js'" using Cons.prems(2) by (auto simp: in_box_def list_all2_Cons2)
  let ?n = "nat (prod_list ds)"
  have less: "row_major ds is' < ?n" "row_major ds js' < ?n" using row_major_less i(4) j(4) by auto
  have eq: "nat i * ?n + row_major ds is' = nat j * ?n + row_major ds js'" using Cons.prems(3) i(1) j(1) by simp
  have "nat i = nat j" using arg_cong [OF eq, of "\<lambda>x. x div ?n"] less by simp
  then show ?case using eq Cons.IH [OF i(4) j(4)] i j by auto
qed

lemma map2_plus_cancel:
  assumes "map2 (+) st v = map2 (+) st w" "length v = length st" "length w = length (st :: int list)"
  shows "v = w"
proof (rule nth_equalityI)
  fix i assume i: "i < length v"
  have "map2 (+) st v ! i = map2 (+) st w ! i" by (simp add: assms(1))
  then show "v ! i = w ! i" using i assms(2,3) by simp
qed (simp add: assms)

lemma Copy_block:
  assumes "block_in s_dims s_start len" "block_in d_dims d_start len" "length s = nat (prod_list s_dims)" "length d = nat (prod_list d_dims)"
  shows "\<exists>d'. Copy row_major cast s_dims s s_start len d_dims d_start d = Some d' \<and> length d' = length d \<and>
    (\<forall>is. in_box len is \<longrightarrow> d' ! row_major d_dims (map2 (+) d_start is) = cast (s ! row_major s_dims (map2 (+) s_start is))) \<and>
    (\<forall>q < length d. (\<forall>is. in_box len is \<longrightarrow> q \<noteq> row_major d_dims (map2 (+) d_start is)) \<longrightarrow> d' ! q = d ! q)"
proof -
  let ?q = "\<lambda>v. row_major d_dims (map2 (+) d_start v)" and ?p = "\<lambda>v. row_major s_dims (map2 (+) s_start v)"
  have range: "\<forall>v \<in> set (index_vectors len). ?q v < length d \<and> ?p v < length s"
    using row_major_less block_in_box [OF assms(1)] block_in_box [OF assms(2)] assms(3,4) by (simp add: set_index_vectors)
  have "inj_on ?q (set (index_vectors len))"
  proof (rule inj_onI)
    fix v w assume vw: "v \<in> set (index_vectors len)" "w \<in> set (index_vectors len)" "?q v = ?q w"
    then have b: "in_box len v" "in_box len w" by (simp_all add: set_index_vectors)
    then have "map2 (+) d_start v = map2 (+) d_start w"
      using row_major_inject [OF block_in_box [OF assms(2)] block_in_box [OF assms(2)] vw(3)] by blast
    moreover have "length v = length d_start" "length w = length d_start" using b assms(2) in_box_length by (auto simp: block_in_def)
    ultimately show "v = w" by (rule map2_plus_cancel)
  qed
  then obtain d' where d': "Copy row_major cast s_dims s s_start len d_dims d_start d = Some d'" "length d' = length d"
    "\<forall>v \<in> set (index_vectors len). d' ! ?q v = cast (s ! ?p v)" "\<forall>k < length d. k \<notin> ?q ` set (index_vectors len) \<longrightarrow> d' ! k = d ! k"
    using fold_updates [OF range, of "\<lambda>v. cast (s ! ?p v)"] unfolding Copy_def copy_loops_vectors copy_element_def Let_def append_Nil by blast
  have "d' ! k = d ! k" if "k < length d" "\<forall>is. in_box len is \<longrightarrow> k \<noteq> ?q is" for k
  proof -
    have "k \<notin> ?q ` set (index_vectors len)" using that(2) set_index_vectors by blast
    then show ?thesis using d'(4) that(1) by blast
  qed
  then show ?thesis using d'(1-3) unfolding set_index_vectors by (intro exI [of _ d']) (simp add: set_index_vectors)
qed

interpretation loops: slice_copier row_major "Copy row_major cast" cast for cast
  by unfold_locales (rule row_major_less, assumption, rule row_major_inject, assumption+, rule Copy_block, assumption+)
section \<open>Places of the cells of a slice\<close>

text \<open>An index vector relative to a slice, and lists filled up to the rank that Eigen is given.\<close>

definition rel :: "int list \<Rightarrow> tensor_slice \<Rightarrow> int list \<Rightarrow> int list" where
  "rel ds s v = map (\<lambda>d. v ! d - origin s d) [0..<length ds]"

definition pad :: "nat \<Rightarrow> int \<Rightarrow> int list \<Rightarrow> int list" where
  "pad n x xs = xs @ replicate (n - length xs) x"

text \<open>The place of an index vector in the data of a slice.\<close>

definition offset :: "layout \<Rightarrow> int list \<Rightarrow> tensor_slice \<Rightarrow> int list \<Rightarrow> nat" where
  "offset at ds s v = at (pad kTensorSliceMaxRank 1 (slice_sizes ds s)) (pad kTensorSliceMaxRank 0 (rel ds s v))"

lemma length_rel [simp]: "length (rel ds s v) = length ds"
  by (simp add: rel_def)

lemma length_pad: "length xs \<le> n \<Longrightarrow> length (pad n x xs) = n"
  by (simp add: pad_def)

lemma prod_pad: "prod_list (pad n 1 xs) = prod_list xs"
  by (simp add: pad_def prod_list_replicate)

lemma in_box_pad: "in_box ds is \<Longrightarrow> in_box (pad n 1 ds) (pad n 0 is)"
  using in_box_length [of ds "is"] by (auto simp: in_box_nth pad_def nth_append)

lemma pad_inject: "length xs = length ys \<Longrightarrow> pad n x xs = pad n x ys \<Longrightarrow> xs = ys"
  by (simp add: pad_def)

lemma rel_inject: "length v = length ds \<Longrightarrow> length w = length ds \<Longrightarrow> rel ds s v = rel ds s w \<Longrightarrow> v = w"
  by (auto simp: rel_def intro!: nth_equalityI)

lemma cells_nth:
  assumes "slice_ok s" "fits ds s"
  shows "v \<in> cells ds s \<longleftrightarrow> length v = length ds \<and> (\<forall>d < length ds. origin s d \<le> v ! d \<and> v ! d < origin s d + slice_size ds s d)"
  by (auto simp: cells_box [OF assms] box_def list_all2_conv_all_nth)

lemma rel_box:
  assumes "slice_ok s" "fits ds s" "length v = length ds"
  shows "in_box (slice_sizes ds s) (rel ds s v) \<longleftrightarrow> v \<in> cells ds s"
  using assms(3) by (auto simp: cells_nth [OF assms(1,2)] in_box_nth rel_def slice_sizes_def)

lemma block_cells:
  assumes "slice_ok s" "fits ds s" "in_box (pad n 1 (slice_sizes ds s)) is"
  shows "\<exists>w \<in> cells ds s. is = pad n 0 (rel ds s w)"
proof -
  let ?m = "length ds" and ?w = "map (\<lambda>d. is ! d + origin s d) [0..<length ds]"
  have ls: "length (slice_sizes ds s) = ?m" by (simp add: slice_sizes_def)
  have b: "length is = ?m + (n - ?m)" "\<forall>i < ?m + (n - ?m). 0 \<le> is ! i \<and> is ! i < pad n 1 (slice_sizes ds s) ! i"
    using assms(3) by (simp_all add: in_box_nth pad_def ls)
  have lo: "0 \<le> is ! d \<and> is ! d < slice_size ds s d" if "d < ?m" for d
  proof -
    have "pad n 1 (slice_sizes ds s) ! d = slice_size ds s d" using that by (simp add: pad_def slice_sizes_def nth_append)
    then show ?thesis using b(2) that by (metis trans_less_add1)
  qed
  have hi: "is ! d = 0" if "?m \<le> d" "d < ?m + (n - ?m)" for d
  proof -
    have "pad n 1 (slice_sizes ds s) ! d = 1" using that by (simp add: pad_def nth_append ls)
    then have "0 \<le> is ! d \<and> is ! d < 1" using b(2) that by metis
    then show ?thesis by simp
  qed
  have "rel ds s ?w = map (\<lambda>d. is ! d) [0..<?m]" by (auto simp: rel_def)
  then have "is = pad n 0 (rel ds s ?w)"
    using b(1) hi by (intro nth_equalityI) (auto simp: pad_def nth_append)
  moreover have "?w \<in> cells ds s" using lo by (auto simp: cells_nth [OF assms(1,2)])
  ultimately show ?thesis by blast
qed

text \<open>Moving from one origin to another.\<close>

lemma shift_rel:
  "map2 (+) (pad n 0 (map (\<lambda>d. origin r d - origin s d) [0..<length ds])) (pad n 0 (rel ds r w)) = pad n 0 (rel ds s w)"
  by (rule nth_equalityI) (auto simp: pad_def rel_def nth_append)

lemma within_inside:
  assumes "slice_ok sub" "slice_dims sub = slice_dims s" "within sub s"
  shows "inside sub s"
proof -
  have "covers s d i" if "d < slice_dims s" "covers sub d i" for d i
  proof -
    have "contains s ((map (origin sub) [0..<slice_dims sub])[d := i])"
      using contains_update [OF assms(1) that(2)] assms(3) by (simp add: within_def)
    then show ?thesis using that(1) assms(2) by (auto simp: contains_def)
  qed
  then show ?thesis using assms(2) by (simp add: inside_def)
qed

text \<open>In each dimension, where a slice lies in one that contains it.\<close>

lemma inside_origin:
  assumes "slice_ok s" "slice_ok sub" "inside sub s" "fits ds s" "fits ds sub" "d < length ds"
  shows "0 \<le> origin sub d - origin s d \<and> origin sub d - origin s d + slice_size ds sub d \<le> slice_size ds s d \<and>
    (if IsFullAt (ComputeRelative sub r s) d then origin sub d - origin s d = 0 \<and> slice_size ds sub d = slice_size ds s d
     else start (ComputeRelative sub r s) d = origin sub d - origin s d \<and> slength (ComputeRelative sub r s) d = slice_size ds sub d)"
proof -
  have d: "d < slice_dims s" "d < slice_dims sub" using assms(4-6) by (auto simp: fits_def)
  note o = slice_okD [OF assms(1) d(1)] slice_okD [OF assms(2) d(2)] and send = send_eq [OF assms(2) d(2)]
  have f: "IsFullAt sub d \<or> send sub d \<le> ds ! d" using assms(5,6) by (auto simp: fits_def list_all_iff)
  have r: "start (ComputeRelative sub r s) d = fst (relative_extent s sub d)" "slength (ComputeRelative sub r s) d = snd (relative_extent s sub d)"
    "IsFullAt (ComputeRelative sub r s) d \<longleftrightarrow> relative_extent s sub d = (0, kFullExtent)" using d(1) by (simp_all add: ComputeRelative_eq)
  show ?thesis
  proof (cases "IsFullAt s d")
    case True
    then show ?thesis
      unfolding r using o(2) f send by (auto simp: relative_extent_def origin_def slice_size_def IsFullAt_alt)
  next
    case False
    note ie = inside_extent [OF assms(1-3) d(1) False]
    have "wrap64 (start sub d - start s d) = start sub d - start s d" using o ie False by (intro wrap64_id) auto
    moreover have "slength sub d \<noteq> kFullExtent" using o(2) ie(1) by (auto simp: kFullExtent_def)
    ultimately show ?thesis unfolding r using False ie o by (auto simp: relative_extent_def origin_def slice_size_def)
  qed
qed

lemma FillIndices_relative:
  assumes "slice_ok s" "slice_ok sub" "inside sub s" "fits ds s" "fits ds sub" "holds False shp (slice_sizes ds s)" "length ds \<le> n"
  shows "FillIndicesAndSizes n shp (ComputeRelative sub r s) =
      Some (pad n 0 (map (\<lambda>d. origin sub d - origin s d) [0..<length ds]), pad n 1 (slice_sizes ds sub))"
    and "block_in (pad n 1 (slice_sizes ds s)) (pad n 0 (map (\<lambda>d. origin sub d - origin s d) [0..<length ds])) (pad n 1 (slice_sizes ds sub))"
proof -
  let ?r = "ComputeRelative sub r s"
  note io = inside_origin [OF assms(1-5)]
  have dims: "slice_dims ?r = length ds" using assms(4) by (simp add: ComputeRelative_eq fits_def)
  have hd: "dims False shp = int (length ds)" using held_dims [OF assms(6)] by (simp add: slice_sizes_def)
  have dn: "dim_size False shp d = slice_size ds s d" if "d < length ds" for d
    using held_nth [OF assms(6), of d] that by (simp add: slice_sizes_def)
  have "map (\<lambda>d. if IsFullAt ?r d then 0 else start ?r d) [0..<length ds] = map (\<lambda>d. origin sub d - origin s d) [0..<length ds]"
    "map (\<lambda>d. if IsFullAt ?r d then dim_size False shp d else slength ?r d) [0..<length ds] = slice_sizes ds sub"
    using io [of _ r] dn by (auto simp: slice_sizes_def split: if_splits)
  then show "FillIndicesAndSizes n shp ?r = Some (pad n 0 (map (\<lambda>d. origin sub d - origin s d) [0..<length ds]), pad n 1 (slice_sizes ds sub))"
    using assms(7) by (simp add: FillIndicesAndSizes_def dims hd pad_def slice_sizes_def)
  show "block_in (pad n 1 (slice_sizes ds s)) (pad n 0 (map (\<lambda>d. origin sub d - origin s d) [0..<length ds])) (pad n 1 (slice_sizes ds sub))"
    using io by (auto simp: block_in_def pad_def slice_sizes_def nth_append)
qed
lemma Intersect_inside:
  assumes "slice_ok s" "slice_ok other" "fits ds s" "fits ds other" "meets s other"
  shows "\<exists>r. Intersect other (Some i) s = (True, Some r) \<and> slice_ok r \<and> fits ds r \<and> cells ds r = cells ds s \<inter> cells ds other \<and>
    inside r s \<and> inside r other"
proof -
  have dims: "slice_dims s = slice_dims other" using assms(3,4) by (simp add: fits_def)
  obtain r where r: "Intersect other (Some i) s = (True, Some r)" "slice_ok r" "slice_dims r = slice_dims s"
    "\<forall>is. contains r is \<longleftrightarrow> contains s is \<and> contains other is"
    using Intersect_law [OF assms(1,2) dims, of "Some i"] assms(5) unfolding meets_def by auto
  have "within r s" "within r other" using r(4) by (auto simp: within_def)
  then have "inside r s" "inside r other" using within_inside [OF r(2)] r(3) dims by simp_all
  then show ?thesis using r fits_inter [OF assms(1-4) r(1)] inter_cells [of r s other] by blast
qed

lemma padded_sizes:
  assumes "holds False shp (slice_sizes ds s)" "length ds \<le> n"
  shows "AsEigenDSizesWithPadding n shp = Some (pad n 1 (slice_sizes ds s))"
proof -
  have l: "dims False shp = int (length ds)" using held_dims [OF assms(1)] by (simp add: slice_sizes_def)
  have "map (dim_size False shp) [0..<length ds] = slice_sizes ds s"
    using held_nth [OF assms(1)] by (auto simp: slice_sizes_def)
  then show ?thesis using l assms(2)
    by (simp add: AsEigenDSizesWithPadding_def CheckDimsAtMost_def AsEigenDSizesCopyAndPad_def pad_def slice_sizes_def)
qed

lemma card_prod:
  assumes "slice_ok s" "fits ds s" "representable False ds"
  shows "card (cells ds s) = nat (prod_list (slice_sizes ds s))"
proof -
  have "\<forall>x \<in> set (slice_sizes ds s). 0 \<le> x"
    using slice_sizes_le [OF assms] by (fastforce simp: list_all2_conv_all_nth in_set_conv_nth)
  then have "\<not> list_ex (\<lambda>d. d < 0) (slice_sizes ds s)" by (auto simp: list_ex_iff)
  then have "int (card (cells ds s)) = prod_list (slice_sizes ds s)" using card_cells(2) [OF assms] by (simp add: elements_def)
  then show ?thesis by simp
qed

context slice_copier
begin

lemma offset_less:
  assumes "slice_ok s" "fits ds s" "representable False ds" "v \<in> cells ds s"
  shows "offset at ds s v < card (cells ds s)"
proof -
  have l: "length v = length ds" using assms(4) by (simp add: cells_nth [OF assms(1,2)])
  have "offset at ds s v < nat (prod_list (pad kTensorSliceMaxRank 1 (slice_sizes ds s)))"
    unfolding offset_def by (rule at_less) (use rel_box [OF assms(1,2) l] assms(4) in \<open>auto intro: in_box_pad\<close>)
  then show ?thesis by (simp add: prod_pad card_prod [OF assms(1-3)])
qed

lemma offset_inject:
  assumes "slice_ok s" "fits ds s" "v \<in> cells ds s" "w \<in> cells ds s" "offset at ds s v = offset at ds s w"
  shows "v = w"
proof -
  have l: "length v = length ds" "length w = length ds" using assms(3,4) by (simp_all add: cells_nth [OF assms(1,2)])
  have "pad kTensorSliceMaxRank 0 (rel ds s v) = pad kTensorSliceMaxRank 0 (rel ds s w)"
    using assms(3-5) rel_box [OF assms(1,2) l(1)] rel_box [OF assms(1,2) l(2)] in_box_pad unfolding offset_def by (intro at_inject) auto
  then have "rel ds s v = rel ds s w" by (rule pad_inject [rotated]) simp
  then show ?thesis by (rule rel_inject [OF l])
qed

lemma copy_slices:
  assumes "slice_ok s" "slice_ok s'" "fits ds s" "fits ds s'" "holds False shape ds" "length ds \<le> kTensorSliceMaxRank" "length (sr_buf raw) = 16"
    "length src = card (cells ds s)" "length dst = card (cells ds s')"
  shows "\<exists>dst'. CopyDataFromTensorSliceToTensorSlice raw copy shape s s' src dst = Some (meets s s', dst') \<and> length dst' = length dst \<and>
    (\<forall>v \<in> cells ds s'. dst' ! offset at ds s' v = (if v \<in> cells ds s then cast (src ! offset at ds s v) else dst ! offset at ds s' v))"
proof (cases "meets s s'")
  case False
  then have "Intersect s' (Some TensorSlice) s = (False, Some TensorSlice)" using Intersect_meets [OF assms(1-4), of TensorSlice] by simp
  moreover have "cells ds s \<inter> cells ds s' = {}" by (rule not_meets_cells [OF False])
  ultimately show ?thesis using False assms(6) held_dims [OF assms(5)]
    by (auto simp: CopyDataFromTensorSliceToTensorSlice_def)
next
  case True
  let ?N = kTensorSliceMaxRank
  have rep: "representable False ds" by (rule holdsE(4) [OF assms(5)])
  obtain r where r: "Intersect s' (Some TensorSlice) s = (True, Some r)" "slice_ok r" "fits ds r" "cells ds r = cells ds s \<inter> cells ds s'"
    "inside r s" "inside r s'" using Intersect_inside [OF assms(1-4) True] by blast
  obtain ps where ps: "SliceTensorShape shape (TensorShapeBase False raw) s = Some (OkStatus, ps)" "holds False ps (slice_sizes ds s)"
    using SliceTensorShape_law [OF assms(1,5) length_raw [OF assms(7)]] assms(3) by auto
  obtain pd where pd: "SliceTensorShape shape (TensorShapeBase False raw) s' = Some (OkStatus, pd)" "holds False pd (slice_sizes ds s')"
    using SliceTensorShape_law [OF assms(2,5) length_raw [OF assms(7)]] assms(4) by auto
  note fs = FillIndices_relative [OF assms(1) r(2,5) assms(3) r(3) ps(2) assms(6)]
    and fd = FillIndices_relative [OF assms(2) r(2,6) assms(4) r(3) pd(2) assms(6)]
  let ?ss = "pad ?N 0 (map (\<lambda>d. origin r d - origin s d) [0..<length ds])" and ?ds = "pad ?N 0 (map (\<lambda>d. origin r d - origin s' d) [0..<length ds])"
    and ?len = "pad ?N 1 (slice_sizes ds r)"
  have call: "CopyDataFromTensorSliceToTensorSlice raw copy shape s s' src dst =
      map_option (\<lambda>d. (True, d)) (copy (pad ?N 1 (slice_sizes ds s)) src ?ss ?len (pad ?N 1 (slice_sizes ds s')) ?ds dst)"
    using assms(6) held_dims [OF assms(5)]
    by (simp add: CopyDataFromTensorSliceToTensorSlice_def r(1) ps(1) pd(1) padded_sizes [OF ps(2) assms(6)] padded_sizes [OF pd(2) assms(6)] fs(1) fd(1) Let_def)
  have sizes: "length src = nat (prod_list (pad ?N 1 (slice_sizes ds s)))" "length dst = nat (prod_list (pad ?N 1 (slice_sizes ds s')))"
    using assms(8,9) card_prod [OF assms(1,3) rep] card_prod [OF assms(2,4) rep] by (simp_all add: prod_pad)
  obtain dst' where d: "copy (pad ?N 1 (slice_sizes ds s)) src ?ss ?len (pad ?N 1 (slice_sizes ds s')) ?ds dst = Some dst'" "length dst' = length dst"
    "\<forall>is. in_box ?len is \<longrightarrow> dst' ! at (pad ?N 1 (slice_sizes ds s')) (map2 (+) ?ds is) = cast (src ! at (pad ?N 1 (slice_sizes ds s)) (map2 (+) ?ss is))"
    "\<forall>q < length dst. (\<forall>is. in_box ?len is \<longrightarrow> q \<noteq> at (pad ?N 1 (slice_sizes ds s')) (map2 (+) ?ds is)) \<longrightarrow> dst' ! q = dst ! q"
    using copy_block [OF fs(2) fd(2) sizes] by blast
  have written: "dst' ! offset at ds s' v = cast (src ! offset at ds s v)" if "v \<in> cells ds r" for v
  proof -
    have "length v = length ds" using that by (simp add: cells_nth [OF r(2,3)])
    then have "in_box ?len (pad ?N 0 (rel ds r v))" using rel_box [OF r(2,3)] that in_box_pad by blast
    from d(3) [rule_format, OF this] show ?thesis by (simp add: offset_def shift_rel)
  qed
  have kept: "dst' ! offset at ds s' v = dst ! offset at ds s' v" if v: "v \<in> cells ds s'" "v \<notin> cells ds r" for v
  proof -
    have "offset at ds s' v \<noteq> at (pad ?N 1 (slice_sizes ds s')) (map2 (+) ?ds is)" if b: "in_box ?len is" for "is"
    proof -
      obtain w where w: "w \<in> cells ds r" "is = pad ?N 0 (rel ds r w)" using block_cells [OF r(2,3) b] by blast
      then have "w \<in> cells ds s'" "w \<noteq> v" using r(4) v by auto
      then have "offset at ds s' v \<noteq> offset at ds s' w" using offset_inject [OF assms(2,4) v(1)] by blast
      then show ?thesis by (simp add: w(2) shift_rel offset_def)
    qed
    moreover have "offset at ds s' v < length dst" using offset_less [OF assms(2,4) rep v(1)] assms(9) by simp
    ultimately show ?thesis using d(4) by blast
  qed
  show ?thesis using call d(1,2) written kept r(4) True by (intro exI [of _ dst']) auto
qed

end
section \<open>The property of the copy\<close>

text \<open>(C15) \<open>CopyDataFromTensorSliceToTensorSlice\<close>, for tensors of up to eight dimensions and arrays that have the data of the two
  slices: it always returns, without an access outside the arrays, returns whether the slices overlap, and gives
  every index vector that both slices have the converted element of the source and leaves the others alone.  It holds for the
  nested loops that copy strings and halves, and for any copier and layout that do what Eigen documents.\<close>

theorem copy_between_slices:
  assumes "slice_copier at copy cast" "slice_ok s" "slice_ok s'" "fits ds s" "fits ds s'" "holds False shape ds"
    "length ds \<le> kTensorSliceMaxRank" "length (sr_buf raw) = 16" "length src = card (cells ds s)" "length dst = card (cells ds s')"
  shows "\<exists>dst'. CopyDataFromTensorSliceToTensorSlice raw copy shape s s' src dst = Some (meets s s', dst') \<and> length dst' = length dst \<and>
    (\<forall>v \<in> cells ds s'. dst' ! offset at ds s' v = (if v \<in> cells ds s then cast (src ! offset at ds s v) else dst ! offset at ds s' v))"
  by (rule slice_copier.copy_slices [OF assms])

lemma offset_values: "offset row_major [4] second_one [1] = 0" "offset row_major [4] first_two [1] = 1"
  by code_simp+

lemma copy_between_slices_witness:
  "\<exists>shape dst'. holds False shape [4] \<and>
    CopyDataFromTensorSliceToTensorSlice raw_shape (Copy row_major Suc) shape first_two second_one [10, 20] [0] = Some (meets first_two second_one, dst') \<and>
    dst' = [21]"
proof -
  obtain shape where shape: "holds False shape [4]" using example_shape by blast
  have rep: "representable False [4]" by (rule holdsE(4) [OF shape])
  have c: "length [10, 20 :: nat] = card (cells [4] first_two)" "length [0 :: nat] = card (cells [4] second_one)"
    unfolding card_prod [OF example_slices(1,3) rep] card_prod [OF example_slices(2,4) rep] by code_simp+
  have n: "length [4 :: int] \<le> kTensorSliceMaxRank" by code_simp
  obtain dst' where d: "CopyDataFromTensorSliceToTensorSlice raw_shape (Copy row_major Suc) shape first_two second_one [10, 20] [0] = Some (meets first_two second_one, dst')"
    "length dst' = 1" "\<forall>v \<in> cells [4] second_one. dst' ! offset row_major [4] second_one v =
      (if v \<in> cells [4] first_two then Suc ([10, 20] ! offset row_major [4] first_two v) else [0] ! offset row_major [4] second_one v)"
    using copy_between_slices [OF loops.slice_copier_axioms example_slices(1-4) shape n example_slices(5) c] by auto
  have v: "[1] \<in> cells [4] second_one" unfolding cells_nth [OF example_slices(2,4)] by code_simp
  then have "dst' ! 0 = 21"
    using d(3) [rule_format, OF v] example_cells offset_values by auto
  then have "dst' = [21]" using d(2) by (cases dst') auto
  then show ?thesis using shape d(1) by blast
qed

end
