(* ===== verification/Table_Builder.thy ===== *)
theory Table_Builder
  imports Table_Format
begin

text \<open>
  \<open>tsl/lib/io/table_builder.cc\<close>: the builder that cuts a sorted sequence of entries into
  blocks and writes the blocks, the index and the footer to a file.

  A file is an abstract state \<open>'f\<close> with a function \<open>app\<close> (\<open>WritableFile::Append\<close>).  The
  operations return \<open>None\<close> where a \<open>CHECK\<close> of the block builder aborts.

  The invariant \<open>table_inv\<close> relates the builder to the file it has written: every finished block
  is stored under the handle in its index entry, and every index key separates the keys of its
  block from all later keys.
\<close>

section \<open>Separators\<close>

definition FindShortestSeparator :: "bytes \<Rightarrow> bytes \<Rightarrow> bytes" where
  "FindShortestSeparator start limit =
     (let min_length = min (length start) (length limit);
          diff_index = shared_prefix start limit
      in if diff_index \<ge> min_length then start
         else
           let diff_byte = start ! diff_index in
           if diff_byte < 0xff \<and> unat diff_byte + 1 < unat (limit ! diff_index)
           then take diff_index start @ [diff_byte + 1]
           else start)"

fun FindShortSuccessor :: "bytes \<Rightarrow> bytes" where
  "FindShortSuccessor [] = []"
| "FindShortSuccessor (b # key) = (if b \<noteq> 0xff then [b + 1] else b # FindShortSuccessor key)"

section \<open>The builder\<close>


record 'f table_builder =
  tb_options :: options
  tb_index_block_options :: options
  tb_file :: 'f
  tb_offset :: u64
  tb_status :: status
  tb_data_block :: block_builder
  tb_index_block :: block_builder
  tb_last_key :: bytes
  tb_num_entries :: int
  tb_closed :: bool
  tb_pending_index_entry :: bool
  tb_pending_handle :: block_handle

definition TableBuilder :: "options \<Rightarrow> 'f \<Rightarrow> 'f table_builder" where
  "TableBuilder opt f =
     \<lparr>tb_options = opt, tb_index_block_options = opt\<lparr>block_restart_interval := 1\<rparr>, tb_file = f,
      tb_offset = 0, tb_status = OkStatus, tb_data_block = BlockBuilder, tb_index_block = BlockBuilder,
      tb_last_key = [], tb_num_entries = 0, tb_closed = False, tb_pending_index_entry = False,
      tb_pending_handle = BlockHandle\<rparr>"

definition WriteRawBlock ::
  "'f appender \<Rightarrow> bytes \<Rightarrow> CompressionType \<Rightarrow> 'f table_builder \<Rightarrow> block_handle \<times> 'f table_builder" where
  "WriteRawBlock app contents ctype r =
     (let handle = \<lparr>bh_offset = tb_offset r, bh_size = word_of_nat (length contents)\<rparr>;
          (s, f) = app (tb_file r) contents;
          r = r\<lparr>tb_status := s, tb_file := f\<rparr>
      in if \<not> ok s then (handle, r)
         else
           let (s, f) = app (tb_file r) (block_trailer contents ctype);
               r = r\<lparr>tb_status := s, tb_file := f\<rparr>
           in if \<not> ok s then (handle, r)
              else (handle, r\<lparr>tb_offset := tb_offset r + word_of_nat (length contents + kBlockTrailerSize)\<rparr>))"

text \<open>\<open>WriteBlock\<close> finishes a block, writes it and resets its builder.\<close>

definition WriteBlock ::
  "snappy \<Rightarrow> 'f appender \<Rightarrow> block_builder \<Rightarrow> 'f table_builder \<Rightarrow>
   (block_handle \<times> block_builder \<times> 'f table_builder) option" where
  "WriteBlock sn app b r =
     (case BlockBuilder_Finish b of
        None \<Rightarrow> None
      | Some (raw, b) \<Rightarrow>
          let (contents, ctype) = compress_block sn (compression (tb_options r)) raw;
              (handle, r) = WriteRawBlock app contents ctype r
          in Some (handle, BlockBuilder_Reset b, r))"

definition TableBuilder_Flush :: "snappy \<Rightarrow> 'f appender \<Rightarrow> 'f table_builder \<Rightarrow> 'f table_builder option" where
  "TableBuilder_Flush sn app r =
     (if \<not> ok (tb_status r) then Some r
      else if BlockBuilder_empty (tb_data_block r) then Some r
      else
        case WriteBlock sn app (tb_data_block r) r of
          None \<Rightarrow> None
        | Some (handle, b, r) \<Rightarrow>
            let r = r\<lparr>tb_data_block := b, tb_pending_handle := handle\<rparr> in
            Some (if ok (tb_status r) then r\<lparr>tb_pending_index_entry := True\<rparr> else r))"

text \<open>Adding the entry of the pending block to the index; \<open>last_key\<close> has been shortened.\<close>

definition add_index_entry :: "bytes \<Rightarrow> 'f table_builder \<Rightarrow> 'f table_builder option" where
  "add_index_entry last_key r =
     (let handle_encoding = BlockHandle_EncodeTo (tb_pending_handle r) [] in
      map_option (\<lambda>b. r\<lparr>tb_last_key := last_key, tb_index_block := b, tb_pending_index_entry := False\<rparr>)
        (BlockBuilder_Add (tb_index_block_options r) (tb_index_block r) last_key handle_encoding))"

text \<open>The last part of \<open>Add\<close>: the entry goes to the data block, which is flushed when it is full.\<close>

definition add_data_entry ::
  "snappy \<Rightarrow> 'f appender \<Rightarrow> bytes \<Rightarrow> bytes \<Rightarrow> 'f table_builder \<Rightarrow> 'f table_builder option" where
  "add_data_entry sn app key val r =
     (let r = r\<lparr>tb_last_key := key, tb_num_entries := tb_num_entries r + 1\<rparr> in
      case BlockBuilder_Add (tb_options r) (tb_data_block r) key val of
        None \<Rightarrow> None
      | Some b \<Rightarrow>
          let r = r\<lparr>tb_data_block := b\<rparr>;
              estimated_block_size = CurrentSizeEstimate (tb_data_block r) in
          if estimated_block_size \<ge> block_size (tb_options r) then TableBuilder_Flush sn app r
          else Some r)"

definition TableBuilder_Add ::
  "snappy \<Rightarrow> 'f appender \<Rightarrow> bytes \<Rightarrow> bytes \<Rightarrow> 'f table_builder \<Rightarrow> 'f table_builder option" where
  "TableBuilder_Add sn app key val r =
     (if \<not> ok (tb_status r) then Some r
      else
        let kOverlyLargeBlockRatio = 2;
            this_entry_bytes = length key + length val in
        Option.bind
          (if tb_num_entries r > 0 \<and>
              this_entry_bytes \<ge> (kOverlyLargeBlockRatio * block_size (tb_options r)) mod 2 ^ 64
           then TableBuilder_Flush sn app r else Some r) (\<lambda>r.
        Option.bind
          (if tb_pending_index_entry r
           then add_index_entry (FindShortestSeparator (tb_last_key r) key) r
           else Some r) (add_data_entry sn app key val)))"

definition TableBuilder_Finish ::
  "snappy \<Rightarrow> 'f appender \<Rightarrow> 'f table_builder \<Rightarrow> (status \<times> 'f table_builder) option" where
  "TableBuilder_Finish sn app r =
     Option.bind (TableBuilder_Flush sn app r) (\<lambda>r.
     let r = r\<lparr>tb_closed := True\<rparr> in
     Option.bind
       (if ok (tb_status r)
        then map_option (\<lambda>(h, b, r). (h, r)) (WriteBlock sn app BlockBuilder r)
        else Some (BlockHandle, r)) (\<lambda>(metaindex_block_handle, r).
     Option.bind
       (if ok (tb_status r)
        then
          Option.bind
            (if tb_pending_index_entry r then add_index_entry (FindShortSuccessor (tb_last_key r)) r else Some r)
            (\<lambda>r. map_option (\<lambda>(h, b, r). (h, r\<lparr>tb_index_block := b\<rparr>)) (WriteBlock sn app (tb_index_block r) r))
        else Some (BlockHandle, r)) (\<lambda>(index_block_handle, r).
     if ok (tb_status r)
     then
       let footer_encoding =
             Footer_EncodeTo \<lparr>ft_metaindex_handle = metaindex_block_handle, ft_index_handle = index_block_handle\<rparr> [];
           (s, f) = app (tb_file r) footer_encoding;
           r = r\<lparr>tb_status := s, tb_file := f\<rparr>;
           r = (if ok s then r\<lparr>tb_offset := tb_offset r + word_of_nat (length footer_encoding)\<rparr> else r)
       in Some (tb_status r, r)
     else Some (tb_status r, r))))"

definition TableBuilder_Abandon :: "'f table_builder \<Rightarrow> 'f table_builder" where
  "TableBuilder_Abandon r = r\<lparr>tb_closed := True\<rparr>"

definition NumEntries :: "'f table_builder \<Rightarrow> u64" where
  "NumEntries r = word_of_int (tb_num_entries r)"

definition FileSize :: "'f table_builder \<Rightarrow> u64" where
  "FileSize r = tb_offset r"

text \<open>A client adds sorted entries and finishes the table.\<close>

fun add_all :: "snappy \<Rightarrow> 'f appender \<Rightarrow> entry list \<Rightarrow> 'f table_builder \<Rightarrow> 'f table_builder option" where
  "add_all sn app [] r = Some r"
| "add_all sn app ((k, v) # es) r = Option.bind (TableBuilder_Add sn app k v r) (add_all sn app es)"

definition build_table :: "snappy \<Rightarrow> 'f appender \<Rightarrow> options \<Rightarrow> 'f \<Rightarrow> entry list \<Rightarrow> (status \<times> 'f table_builder) option" where
  "build_table sn app opt f es =
     Option.bind (add_all sn app es (TableBuilder opt f)) (TableBuilder_Finish sn app)"

section \<open>Separators stay between the keys\<close>

lemma shared_prefix_nth:
  "i < shared_prefix xs ys \<Longrightarrow> xs ! i = ys ! i"
proof (induction xs ys arbitrary: i rule: shared_prefix.induct)
  case (1 x xs y ys)
  then show ?case by (cases i) (auto split: if_splits)
qed simp_all

lemma byte_less_Suc: "b \<noteq> 0xff \<Longrightarrow> unat (b + 1) = Suc (unat (b :: byte))"
proof (rule unat_Suc_word)
  assume "b \<noteq> 0xff"
  moreover have "(0xff :: byte) = - 1" by simp
  ultimately show "b \<noteq> - 1" by metis
qed

lemma FindShortestSeparator_between:
  assumes "start < limit"
  shows "start \<le> FindShortestSeparator start limit \<and> FindShortestSeparator start limit < limit"
proof -
  let ?n = "shared_prefix start limit"
  show ?thesis
  proof (cases "?n < min (length start) (length limit) \<and> start ! ?n < 0xff \<and> unat (start ! ?n) + 1 < unat (limit ! ?n)")
    case False
    then show ?thesis using assms by (auto simp: FindShortestSeparator_def Let_def not_le)
  next
    case True
    then have sep: "FindShortestSeparator start limit = take ?n start @ [start ! ?n + 1]"
      by (auto simp: FindShortestSeparator_def Let_def min_le_iff_disj)
    have s: "start = take ?n start @ start ! ?n # drop (Suc ?n) start"
      using True by (intro id_take_nth_drop) simp
    have l: "limit = take ?n start @ limit ! ?n # drop (Suc ?n) limit"
      using True by (subst shared_prefix_take) (intro id_take_nth_drop, simp)
    have u: "unat (start ! ?n + 1) = Suc (unat (start ! ?n))" using True by (intro byte_less_Suc) auto
    have "take ?n start @ start ! ?n # drop (Suc ?n) start < take ?n start @ [start ! ?n + 1]"
      using u by (simp add: word_less_nat_alt)
    moreover have "take ?n start @ [start ! ?n + 1] < take ?n start @ limit ! ?n # drop (Suc ?n) limit"
      using u True by (simp add: word_less_nat_alt)
    ultimately show ?thesis using s l sep by (metis order.strict_implies_order)
  qed
qed

lemma FindShortSuccessor_ge: "key \<le> FindShortSuccessor key"
proof (induction key)
  case (Cons b key)
  then show ?case using byte_less_Suc [of b] by (auto simp: word_less_nat_alt less_le)
qed simp

lemma length_FindShortestSeparator: "length (FindShortestSeparator start limit) \<le> length start"
  by (auto simp: FindShortestSeparator_def Let_def)

lemma length_FindShortSuccessor: "length (FindShortSuccessor key) \<le> length key"
  by (induction key) auto

section \<open>Writing one block\<close>

lemma WriteRawBlock_appends:
  assumes "appends app contents" "tb_offset r = word_of_nat (length (contents (tb_file r)))"
  obtains f' where "WriteRawBlock app c ctype r =
      (\<lparr>bh_offset = word_of_nat (length (contents (tb_file r))), bh_size = word_of_nat (length c)\<rparr>,
       r\<lparr>tb_status := OkStatus, tb_file := f', tb_offset := word_of_nat (length (contents f'))\<rparr>)"
    "contents f' = contents (tb_file r) @ c @ block_trailer c ctype"
proof -
  obtain f1 where f1: "app (tb_file r) c = (OkStatus, f1)" "contents f1 = contents (tb_file r) @ c"
    using assms(1) by (rule appendsE)
  obtain f2 where f2: "app f1 (block_trailer c ctype) = (OkStatus, f2)" "contents f2 = contents f1 @ block_trailer c ctype"
    using assms(1) by (rule appendsE)
  show ?thesis
    by (rule that [of f2]) (simp_all add: WriteRawBlock_def Let_def f1 f2 assms(2) kBlockTrailerSize_def add.assoc)
qed

text \<open>The size of what a builder holds follows from the entries.\<close>

lemma length_entries_code:
  "length ss = length es \<Longrightarrow> length (entries_code ss es) + 4 * length es + 8 \<le> block_bound es"
proof (induction ss es rule: list_induct2)
  case (Cons s ss e es)
  then show ?case
    using length_entry_code [of s e] by (cases e) (simp add: entries_code_def block_bound_def)
qed (simp add: entries_code_def block_bound_def)

lemma built_size:
  assumes "built b es"
  shows "length (bb_buffer b) + 4 * length (bb_restarts b) + 4 \<le> block_bound es"
    and "bb_buffer b = [] \<longleftrightarrow> es = []"
proof -
  from assms obtain ss rs where b: "shares_ok ss es" "bb_buffer b = entries_code ss es"
    "length (bb_restarts b) = length rs" "length rs \<le> Suc (length es)"
    unfolding built_def by (metis length_map)
  then have len: "length ss = length es" by (simp add: shares_ok_def)
  from length_entries_code [OF len] b show "length (bb_buffer b) + 4 * length (bb_restarts b) + 4 \<le> block_bound es"
    by simp
  have "entry_code s e \<noteq> []" for s e
    using header_length_ge [of s e] length_entry_code_eq [of s e] by auto
  then show "bb_buffer b = [] \<longleftrightarrow> es = []"
    using len b(2) by (cases es; cases ss) (auto simp: entries_code_def)
qed

lemma Finish_built:
  assumes "built b es" "block_bound es < 2 ^ 32"
  obtains d b' ss rs where "BlockBuilder_Finish b = Some (d, b')" "layout d es ss rs"
    "BlockBuilder_Reset b' = BlockBuilder" "length d \<le> block_bound es"
proof -
  note size = built_size(1) [OF assms(1)]
  then have "\<not> length (bb_restarts b) > UINT32_MAX" using assms(2) by simp
  then obtain d b' where d: "BlockBuilder_Finish b = Some (d, b')"
    by (auto simp: BlockBuilder_Finish_def Let_def)
  then have len: "length d = length (bb_buffer b) + 4 * length (bb_restarts b) + 4"
    by (auto simp: BlockBuilder_Finish_def Let_def foldl_PutFixed32 PutFixed32_def length_concat comp_def
        sum_list_triv split: if_splits)
  then obtain ss rs where "layout d es ss rs" using built_Finish [OF assms(1) d] size assms(2) by auto
  moreover have "BlockBuilder_Reset b' = BlockBuilder"
    by (simp add: BlockBuilder_Reset_def BlockBuilder_def)
  ultimately show ?thesis using that d len size by simp
qed

lemma WriteBlock_built:
  assumes "appends app contents" "snappy_ok sn" "tb_offset r = word_of_nat (length (contents (tb_file r)))"
    and "built b es" "block_bound es < 2 ^ 32" "length (contents (tb_file r)) + block_bound es + 5 < 2 ^ 64"
  obtains h f' d ss rs where
    "WriteBlock sn app b r = Some (h, BlockBuilder,
       r\<lparr>tb_status := OkStatus, tb_file := f', tb_offset := word_of_nat (length (contents f'))\<rparr>)"
    "stored_block sn (contents f') h d" "layout d es ss rs"
    "\<exists>x. contents f' = contents (tb_file r) @ x \<and> length x \<le> block_bound es + 5 \<and> x \<noteq> []"
    "bh_offset h = word_of_nat (length (contents (tb_file r)))"
proof -
  obtain d b' ss rs where d: "BlockBuilder_Finish b = Some (d, b')" "layout d es ss rs"
    "BlockBuilder_Reset b' = BlockBuilder" "length d \<le> block_bound es"
    using Finish_built [OF assms(4,5)] .
  obtain c ctype where c: "compress_block sn (compression (tb_options r)) d = (c, ctype)" by fastforce
  have len: "length c \<le> block_bound es"
    using compress_block_length [of sn "compression (tb_options r)" d] c d(4) by simp
  obtain f' where f': "WriteRawBlock app c ctype r =
      (\<lparr>bh_offset = word_of_nat (length (contents (tb_file r))), bh_size = word_of_nat (length c)\<rparr>,
       r\<lparr>tb_status := OkStatus, tb_file := f', tb_offset := word_of_nat (length (contents f'))\<rparr>)"
    "contents f' = contents (tb_file r) @ c @ block_trailer c ctype"
    using WriteRawBlock_appends [OF assms(1,3)] .
  have "stored_block sn (contents f')
      \<lparr>bh_offset = word_of_nat (length (contents (tb_file r))), bh_size = word_of_nat (length c)\<rparr> d"
    unfolding f'(2) using len assms(6) by (intro stored_block_new [OF assms(2) c]) simp
  moreover have "WriteBlock sn app b r =
      Some (\<lparr>bh_offset = word_of_nat (length (contents (tb_file r))), bh_size = word_of_nat (length c)\<rparr>, BlockBuilder,
       r\<lparr>tb_status := OkStatus, tb_file := f', tb_offset := word_of_nat (length (contents f'))\<rparr>)"
    unfolding WriteBlock_def d(1) using c by (simp only: option.case prod.case Let_def f'(1) d(3))
  moreover have "\<exists>x. contents f' = contents (tb_file r) @ x \<and> length x \<le> block_bound es + 5 \<and> x \<noteq> []"
    using len length_block_trailer [of c ctype]
    by (intro exI [of _ "c @ block_trailer c ctype"]) (auto simp: f'(2) simp del: length_block_trailer)
  moreover have "bh_offset \<lparr>bh_offset = o', bh_size = s'\<rparr> = o'" for o' s' by simp
  ultimately show ?thesis using that [OF _ _ d(2)] by metis
qed

section \<open>The invariant\<close>

text \<open>\<open>ix\<close> indexes the blocks \<open>B\<close> of a file: each entry refers to the stored block, and its key is
  at or past every key of the block and before every key that comes after it.\<close>

definition block_stored :: "snappy \<Rightarrow> bytes \<Rightarrow> block_handle \<Rightarrow> entry list \<Rightarrow> bool" where
  "block_stored sn bs h es \<longleftrightarrow> (\<exists>d ss rs. stored_block sn bs h d \<and> layout d es ss rs)"

definition index_ok :: "snappy \<Rightarrow> bytes \<Rightarrow> entry list \<Rightarrow> entry list list \<Rightarrow> entry list \<Rightarrow> bool" where
  "index_ok sn bs ix B later \<longleftrightarrow> length ix = length B \<and> (\<forall>j < length B.
     B ! j \<noteq> [] \<and> (\<exists>h. snd (ix ! j) = BlockHandle_EncodeTo h [] \<and> block_stored sn bs h (B ! j)) \<and>
     (\<forall>e \<in> set (B ! j). fst e \<le> fst (ix ! j)) \<and>
     (\<forall>e \<in> set (concat (drop (Suc j) B) @ later). fst (ix ! j) < fst e))"

definition table_bound :: "entry list \<Rightarrow> nat" where
  "table_bound es = sum_list (map (\<lambda>(k, v). 2 * length k + length v + 80) es)"

text \<open>The handles in the index refer to increasing offsets, all before \<open>n\<close>.\<close>

definition handles_before :: "entry list \<Rightarrow> nat \<Rightarrow> bool" where
  "handles_before ix n \<longleftrightarrow> (\<exists>hs. map snd ix = map (\<lambda>h. BlockHandle_EncodeTo h []) hs \<and>
     sorted_wrt (<) (map (\<lambda>h. unat (bh_offset h)) hs) \<and> (\<forall>h \<in> set hs. unat (bh_offset h) < n))"

lemma handles_before_Nil [simp]: "handles_before [] n"
  by (simp add: handles_before_def)

lemma handles_before_mono: "handles_before ix n \<Longrightarrow> n \<le> m \<Longrightarrow> handles_before ix m"
  unfolding handles_before_def by (meson order.strict_trans2)

lemma handles_before_snoc:
  assumes "handles_before ix (unat (bh_offset h))" "unat (bh_offset h) < n"
  shows "handles_before (ix @ [(k, BlockHandle_EncodeTo h [])]) n"
proof -
  obtain hs where "map snd ix = map (\<lambda>h. BlockHandle_EncodeTo h []) hs"
     "sorted_wrt (<) (map (\<lambda>h. unat (bh_offset h)) hs)" "\<forall>g \<in> set hs. unat (bh_offset g) < unat (bh_offset h)"
    using assms(1) unfolding handles_before_def by blast
  with assms(2) show ?thesis
    unfolding handles_before_def by (intro exI [of _ "hs @ [h]"]) (auto simp: sorted_wrt_append)
qed

definition table_inv :: "snappy \<Rightarrow> ('f \<Rightarrow> bytes) \<Rightarrow> 'f table_builder \<Rightarrow> entry list list \<Rightarrow> entry list \<Rightarrow> bool" where
  "table_inv sn contents r B pend \<longleftrightarrow>
     tb_status r = OkStatus \<and> tb_offset r = word_of_nat (length (contents (tb_file r))) \<and>
     (\<exists>ix. built (tb_index_block r) ix \<and> index_ok sn (contents (tb_file r)) ix B pend \<and>
        block_bound ix \<le> 8 + table_bound (concat B) \<and>
        handles_before ix (if tb_pending_index_entry r then unat (bh_offset (tb_pending_handle r))
                           else length (contents (tb_file r)))) \<and>
     (if tb_pending_index_entry r
      then pend \<noteq> [] \<and> built (tb_data_block r) [] \<and> block_stored sn (contents (tb_file r)) (tb_pending_handle r) pend \<and>
           unat (bh_offset (tb_pending_handle r)) < length (contents (tb_file r))
      else built (tb_data_block r) pend) \<and>
     (pend = [] \<longrightarrow> B = []) \<and> (pend \<noteq> [] \<longrightarrow> tb_last_key r = fst (last pend)) \<and>
     tb_num_entries r = int (length (concat B @ pend)) \<and>
     length (contents (tb_file r)) \<le> table_bound (concat B @ (if tb_pending_index_entry r then pend else []))"

lemma table_bound_simps [simp]:
  "table_bound [] = 0" "table_bound (xs @ ys) = table_bound xs + table_bound ys"
  "table_bound ((k, v) # xs) = 2 * length k + length v + 80 + table_bound xs"
  by (simp_all add: table_bound_def)

lemma block_bound_append: "block_bound (xs @ [(k, v)]) = block_bound xs + length k + length v + 19"
  by (simp add: block_bound_def)

lemma block_bound_table: "xs \<noteq> [] \<Longrightarrow> block_bound xs + 5 \<le> table_bound xs"
proof (induction xs rule: list_nonempty_induct)
  case (single x)
  then show ?case by (cases x) (simp add: block_bound_def)
next
  case (cons x xs)
  then show ?case by (cases x) (simp add: block_bound_def)
qed

lemma block_stored_append:
  "block_stored sn bs h es \<Longrightarrow> length (bs @ x) < 2 ^ 64 \<Longrightarrow> block_stored sn (bs @ x) h es"
  unfolding block_stored_def using stored_block_append by blast

lemma index_ok_append:
  assumes "index_ok sn bs ix B later" "length (bs @ x) < 2 ^ 64"
  shows "index_ok sn (bs @ x) ix B later"
  using assms(1) block_stored_append [OF _ assms(2)] unfolding index_ok_def by blast

lemma index_ok_later:
  assumes "index_ok sn bs ix B later" "later = [] \<Longrightarrow> B = []" "\<And>e. e \<in> set later \<Longrightarrow> fst e < k"
  shows "index_ok sn bs ix B (later @ [(k, v)])"
proof -
  have "fst (ix ! j) < k" if "j < length B" for j
  proof -
    from that assms(2) have "later \<noteq> []" by auto
    then obtain e where e: "e \<in> set later" by (metis last_in_set)
    then have "fst (ix ! j) < fst e" using assms(1) that unfolding index_ok_def by simp
    with assms(3) [OF e] show ?thesis by simp
  qed
  with assms(1) show ?thesis unfolding index_ok_def by auto
qed

lemma index_ok_snoc:
  assumes "index_ok sn bs ix B b" "b \<noteq> []" "block_stored sn bs h b"
    and "\<And>e. e \<in> set b \<Longrightarrow> fst e \<le> sep" "\<And>e. e \<in> set later \<Longrightarrow> sep < fst e"
  shows "index_ok sn bs (ix @ [(sep, BlockHandle_EncodeTo h [])]) (B @ [b]) later"
proof -
  have trans: "fst (ix ! j) < fst e" if "j < length B" "e \<in> set later" for j e
  proof -
    obtain x where x: "x \<in> set b" using assms(2) by (metis last_in_set)
    then have "fst (ix ! j) < fst x" using assms(1) that unfolding index_ok_def by simp
    also have "fst x \<le> sep" using x by (rule assms(4))
    also have "sep < fst e" using that(2) by (rule assms(5))
    finally show ?thesis .
  qed
  have old: "index_ok sn bs ix B (b @ later)"
    using assms(1) trans unfolding index_ok_def by (simp add: ball_Un)
  have new: "index_ok sn bs [(sep, BlockHandle_EncodeTo h [])] [b] later"
    using assms(2-5) unfolding index_ok_def by auto
  have len: "length ix = length B" using assms(1) by (simp add: index_ok_def)
  show ?thesis
    unfolding index_ok_def
  proof (intro conjI allI impI)
    show "length (ix @ [(sep, BlockHandle_EncodeTo h [])]) = length (B @ [b])" using len by simp
    fix j assume "j < length (B @ [b])"
    then consider "j < length B" | "j = length B" by fastforce
    note cases = this
    show "(B @ [b]) ! j \<noteq> []"
      "\<exists>h'. snd ((ix @ [(sep, BlockHandle_EncodeTo h [])]) ! j) = BlockHandle_EncodeTo h' [] \<and>
         block_stored sn bs h' ((B @ [b]) ! j)"
      "\<forall>e \<in> set ((B @ [b]) ! j). fst e \<le> fst ((ix @ [(sep, BlockHandle_EncodeTo h [])]) ! j)"
      "\<forall>e \<in> set (concat (drop (Suc j) (B @ [b])) @ later). fst ((ix @ [(sep, BlockHandle_EncodeTo h [])]) ! j) < fst e"
      using cases old new len unfolding index_ok_def by (cases; simp add: nth_append)+
  qed
qed

section \<open>The operations keep it\<close>

lemma table_inv_init: "contents f = [] \<Longrightarrow> table_inv sn contents (TableBuilder opt f) [] []"
  unfolding table_inv_def
  by (auto simp: TableBuilder_def built_BlockBuilder index_ok_def block_bound_def intro!: exI [of _ "[]"])

lemma Flush_inv:
  assumes env: "appends app contents" "snappy_ok sn"
    and inv: "table_inv sn contents r B pend" and bound: "table_bound (concat B @ pend) + 100 < 2 ^ 32"
  shows "\<exists>r'. TableBuilder_Flush sn app r = Some r' \<and> table_inv sn contents r' B pend \<and>
     (tb_pending_index_entry r' \<longleftrightarrow> pend \<noteq> [])"
proof (cases "tb_pending_index_entry r \<or> pend = []")
  case True
  then have "BlockBuilder_empty (tb_data_block r)"
    using inv built_size(2) by (auto simp: table_inv_def BlockBuilder_empty_def split: if_splits)
  with True inv show ?thesis by (auto simp: TableBuilder_Flush_def table_inv_def split: if_splits)
next
  case False
  let ?F = "contents (tb_file r)"
  have b: "built (tb_data_block r) pend" and st: "tb_status r = OkStatus"
    and off: "tb_offset r = word_of_nat (length ?F)" and len: "length ?F \<le> table_bound (concat B)"
    using inv False by (auto simp: table_inv_def)
  have "\<not> BlockBuilder_empty (tb_data_block r)"
    using built_size(2) [OF b] False by (simp add: BlockBuilder_empty_def)
  have bb: "block_bound pend + 5 \<le> table_bound pend" using False by (simp add: block_bound_table)
  have "block_bound pend < 2 ^ 32" "length ?F + block_bound pend + 5 < 2 ^ 64"
    using bb bound len by simp_all
  from WriteBlock_built [OF env off b this] obtain h f' d ss rs where w:
    "WriteBlock sn app (tb_data_block r) r = Some (h, BlockBuilder,
       r\<lparr>tb_status := OkStatus, tb_file := f', tb_offset := word_of_nat (length (contents f'))\<rparr>)"
    "stored_block sn (contents f') h d" "layout d pend ss rs"
    "\<exists>x. contents f' = ?F @ x \<and> length x \<le> block_bound pend + 5 \<and> x \<noteq> []"
    "bh_offset h = word_of_nat (length ?F)" by blast
  then obtain x where x: "contents f' = ?F @ x" "length x \<le> block_bound pend + 5" "x \<noteq> []" by blast
  let ?r = "r\<lparr>tb_status := OkStatus, tb_file := f', tb_offset := word_of_nat (length (contents f')),
     tb_data_block := BlockBuilder, tb_pending_handle := h, tb_pending_index_entry := True\<rparr>"
  have "TableBuilder_Flush sn app r = Some ?r"
    using st \<open>\<not> BlockBuilder_empty _\<close> by (simp add: TableBuilder_Flush_def w(1) Let_def)
  moreover have "block_stored sn (contents f') h pend" using w unfolding block_stored_def by blast
  moreover obtain ix where ix: "built (tb_index_block r) ix" "index_ok sn ?F ix B pend"
     "block_bound ix \<le> 8 + table_bound (concat B)" "handles_before ix (length ?F)"
    using inv False unfolding table_inv_def by auto
  moreover have small: "length (?F @ x) < 2 ^ 64" using x(2) bb bound len by simp
  moreover have "length (?F @ x) \<le> table_bound (concat B @ pend)" using x(2) bb len by simp
  moreover have "unat (bh_offset h) = length ?F" "length ?F < length (?F @ x)"
    using w(5) bound len x(3) unat_of_nat_u64 [of "length ?F"] by simp_all
  ultimately show ?thesis
    using inv False x(1) index_ok_append [OF ix(2) small]
    by (intro exI [of _ ?r]) (auto simp: table_inv_def built_BlockBuilder)
qed

lemma add_index_entry_inv:
  assumes inv: "table_inv sn contents r B pend" and pending: "tb_pending_index_entry r"
    and bound: "table_bound (concat B @ pend) + 100 < 2 ^ 32"
    and sep: "\<And>e. e \<in> set pend \<Longrightarrow> fst e \<le> sep" "length sep \<le> length (tb_last_key r)"
  obtains ix b where
    "BlockBuilder_Add (tb_index_block_options r) (tb_index_block r) sep (BlockHandle_EncodeTo (tb_pending_handle r) []) = Some b"
    "built b ix" "block_bound ix \<le> 8 + table_bound (concat (B @ [pend]))"
    "\<And>later. (\<And>e. e \<in> set later \<Longrightarrow> sep < fst e) \<Longrightarrow> index_ok sn (contents (tb_file r)) ix (B @ [pend]) later"
    "handles_before ix (length (contents (tb_file r)))"
proof -
  have ne: "pend \<noteq> []" and st: "block_stored sn (contents (tb_file r)) (tb_pending_handle r) pend"
    and off: "unat (bh_offset (tb_pending_handle r)) < length (contents (tb_file r))"
    and lk: "tb_last_key r = fst (last pend)"
    using inv pending by (auto simp: table_inv_def)
  obtain ix where ix: "built (tb_index_block r) ix" "index_ok sn (contents (tb_file r)) ix B pend"
     "block_bound ix \<le> 8 + table_bound (concat B)" "handles_before ix (unat (bh_offset (tb_pending_handle r)))"
    using inv pending unfolding table_inv_def by auto
  let ?h = "BlockHandle_EncodeTo (tb_pending_handle r) []"
  have h: "length ?h \<le> 20" using length_BlockHandle_EncodeTo by (simp add: kMaxEncodedLength_def)
  obtain es e where pend: "pend = es @ [e]" using ne by (metis append_butlast_last_id)
  have last: "length sep + 39 \<le> table_bound pend"
    using sep(2) lk pend by (cases e) simp
  have "length (bb_buffer (tb_index_block r)) < 2 ^ 32" "length sep < 2 ^ 32" "length ?h < 2 ^ 32"
    using built_size(1) [OF ix(1)] ix(3) bound last h by simp_all
  then obtain b where b: "BlockBuilder_Add (tb_index_block_options r) (tb_index_block r) sep ?h = Some b"
    by (rule Add_total)
  show ?thesis
  proof (rule that [of b "ix @ [(sep, ?h)]"])
    show "BlockBuilder_Add (tb_index_block_options r) (tb_index_block r) sep ?h = Some b" by (rule b)
    show "built b (ix @ [(sep, ?h)])" using built_Add [OF ix(1) b] .
    show "block_bound (ix @ [(sep, ?h)]) \<le> 8 + table_bound (concat (B @ [pend]))"
      using ix(3) last h by (simp add: block_bound_append)
    show "index_ok sn (contents (tb_file r)) (ix @ [(sep, ?h)]) (B @ [pend]) later"
      if "\<And>e. e \<in> set later \<Longrightarrow> sep < fst e" for later
      using index_ok_snoc [OF ix(2) ne st sep(1) that] .
    show "handles_before (ix @ [(sep, ?h)]) (length (contents (tb_file r)))"
      using ix(4) off by (rule handles_before_snoc)
  qed
qed

text \<open>The last steps of \<open>Add\<close>, once the index entry of the previous block is out.\<close>

lemma data_block_Add_inv:
  assumes env: "appends app contents" "snappy_ok sn"
    and r: "tb_status r = OkStatus" "tb_offset r = word_of_nat (length (contents (tb_file r)))"
      "\<not> tb_pending_index_entry r" "built (tb_data_block r) pend" "tb_num_entries r = int (length (concat B @ pend))"
      "length (contents (tb_file r)) \<le> table_bound (concat B)"
    and ix: "built (tb_index_block r) ix" "index_ok sn (contents (tb_file r)) ix B (pend @ [(k, v)])"
      "block_bound ix \<le> 8 + table_bound (concat B)" "handles_before ix (length (contents (tb_file r)))"
    and bound: "table_bound (concat B @ pend @ [(k, v)]) + 100 < 2 ^ 32"
  shows "\<exists>r'. add_data_entry sn app k v r = Some r' \<and> table_inv sn contents r' B (pend @ [(k, v)])"
proof -
  have "block_bound pend \<le> 8 + table_bound pend"
    using block_bound_table [of pend] by (cases "pend = []") (simp_all add: block_bound_def)
  then have "length (bb_buffer (tb_data_block r)) < 2 ^ 32" "length k < 2 ^ 32" "length v < 2 ^ 32"
    using built_size(1) [OF r(4)] bound by simp_all
  then obtain b where b: "BlockBuilder_Add (tb_options r) (tb_data_block r) k v = Some b"
    by (rule Add_total)
  let ?r = "r\<lparr>tb_last_key := k, tb_num_entries := tb_num_entries r + 1, tb_data_block := b\<rparr>"
  have inv: "table_inv sn contents ?r B (pend @ [(k, v)])"
    using r ix built_Add [OF r(4) b] by (auto simp: table_inv_def)
  from Flush_inv [OF env inv] bound show ?thesis using inv b by (auto simp: add_data_entry_def Let_def)
qed

lemma Add_inv:
  assumes env: "appends app contents" "snappy_ok sn"
    and inv: "table_inv sn contents r B pend" and srt: "sorted_entries (concat B @ pend @ [(k, v)])"
    and bound: "table_bound (concat B @ pend @ [(k, v)]) + 100 < 2 ^ 32"
  shows "\<exists>r' B' pend'. TableBuilder_Add sn app k v r = Some r' \<and> table_inv sn contents r' B' pend' \<and>
    concat B' @ pend' = concat B @ pend @ [(k, v)]"
proof -
  have st: "tb_status r = OkStatus" using inv by (simp add: table_inv_def)
  have b1: "table_bound (concat B @ pend) + 100 < 2 ^ 32" using bound by simp
  have key: "fst e < k" if "e \<in> set pend" for e using srt that by (auto simp: sorted_wrt_append)
  obtain r1 where r1: "(if tb_num_entries r > 0 \<and>
      length k + length v \<ge> (2 * block_size (tb_options r)) mod 2 ^ 64
      then TableBuilder_Flush sn app r else Some r) = Some r1" "table_inv sn contents r1 B pend"
    using Flush_inv [OF env inv b1] inv by (cases "tb_num_entries r > 0 \<and>
      length k + length v \<ge> (2 * block_size (tb_options r)) mod 2 ^ 64") auto
  show ?thesis
  proof (cases "tb_pending_index_entry r1")
    case False
    then obtain ix where ix: "built (tb_index_block r1) ix" "index_ok sn (contents (tb_file r1)) ix B pend"
      "block_bound ix \<le> 8 + table_bound (concat B)" "handles_before ix (length (contents (tb_file r1)))"
      using r1(2) False unfolding table_inv_def by auto
    have "index_ok sn (contents (tb_file r1)) ix B (pend @ [(k, v)])"
      using index_ok_later [OF ix(2) _ key] r1(2) by (simp add: table_inv_def)
    then obtain r' where "add_data_entry sn app k v r1 = Some r'" "table_inv sn contents r' B (pend @ [(k, v)])"
      using data_block_Add_inv [OF env, of r1 pend B ix k v] r1(2) False ix(1,3,4) bound
      unfolding table_inv_def by auto
    then show ?thesis
      using st r1(1) False unfolding TableBuilder_Add_def by (auto simp: Let_def)
  next
    case True
    have lk: "tb_last_key r1 = fst (last pend)" and ne: "pend \<noteq> []" using r1(2) True by (auto simp: table_inv_def)
    let ?sep = "FindShortestSeparator (tb_last_key r1) k"
    have "fst (last pend) < k" using ne by (intro key) simp
    then have sep: "tb_last_key r1 \<le> ?sep" "?sep < k"
      using FindShortestSeparator_between [of "tb_last_key r1" k] lk by simp_all
    have "fst e \<le> ?sep" if "e \<in> set pend" for e
    proof -
      have "sorted_entries pend" using srt by (simp add: sorted_wrt_append)
      then have "fst e \<le> fst (last pend)" using that by (rule sorted_entries_last)
      with sep lk show ?thesis by simp
    qed
    with length_FindShortestSeparator obtain ix b where ix:
      "BlockBuilder_Add (tb_index_block_options r1) (tb_index_block r1) ?sep (BlockHandle_EncodeTo (tb_pending_handle r1) []) = Some b"
      "built b ix" "block_bound ix \<le> 8 + table_bound (concat (B @ [pend]))"
      "\<And>later. (\<And>e. e \<in> set later \<Longrightarrow> ?sep < fst e) \<Longrightarrow> index_ok sn (contents (tb_file r1)) ix (B @ [pend]) later"
      "handles_before ix (length (contents (tb_file r1)))"
      using add_index_entry_inv [OF r1(2) True b1] by metis
    have ai: "add_index_entry ?sep r1 = Some (r1\<lparr>tb_last_key := ?sep, tb_index_block := b, tb_pending_index_entry := False\<rparr>)"
      using ix(1) by (simp add: add_index_entry_def)
    let ?r = "r1\<lparr>tb_last_key := ?sep, tb_index_block := b, tb_pending_index_entry := False\<rparr>"
    have iok: "index_ok sn (contents (tb_file ?r)) ix (B @ [pend]) ([] @ [(k, v)])"
      using ix(4) [of "[(k, v)]"] sep(2) by auto
    obtain r' where "add_data_entry sn app k v ?r = Some r'" "table_inv sn contents r' (B @ [pend]) ([] @ [(k, v)])"
      using data_block_Add_inv [OF env, of ?r "[]" "B @ [pend]" ix k v] r1(2) True ix(2,3,5) iok bound
      by (auto simp: table_inv_def)
    then show ?thesis
      using st r1(1) True ai unfolding TableBuilder_Add_def
      by (intro exI [of _ r'] exI [of _ "B @ [pend]"] exI [of _ "[(k, v)]"]) (simp add: Let_def)
  qed
qed

lemma add_all_inv:
  assumes env: "appends app contents" "snappy_ok sn"
    and "table_inv sn contents r B pend" "sorted_entries (concat B @ pend @ es)"
    and "table_bound (concat B @ pend @ es) + 100 < 2 ^ 32"
  shows "\<exists>r' B' pend'. add_all sn app es r = Some r' \<and> table_inv sn contents r' B' pend' \<and>
    concat B' @ pend' = concat B @ pend @ es"
  using assms(3-5)
proof (induction es arbitrary: r B pend)
  case Nil
  then show ?case by auto
next
  case (Cons e es)
  obtain k v where e: "e = (k, v)" by fastforce
  have "sorted_entries (concat B @ pend @ [(k, v)])"
    using Cons.prems(2) by (auto simp: e sorted_wrt_append)
  moreover have "table_bound (concat B @ pend @ [(k, v)]) + 100 < 2 ^ 32"
    using Cons.prems(3) by (simp add: e)
  ultimately obtain r1 B1 pend1 where r1: "TableBuilder_Add sn app k v r = Some r1"
    "table_inv sn contents r1 B1 pend1" "concat B1 @ pend1 = concat B @ pend @ [(k, v)]"
    using Add_inv [OF env Cons.prems(1)] by blast
  have eq: "concat B1 @ pend1 @ es = concat B @ pend @ e # es"
    using r1(3) e by (metis append.assoc append_Cons append_Nil)
  then have "\<exists>r' B' pend'. add_all sn app es r1 = Some r' \<and> table_inv sn contents r' B' pend' \<and>
      concat B' @ pend' = concat B1 @ pend1 @ es"
    using Cons.prems(2,3) by (intro Cons.IH [OF r1(2)]; simp only: eq)
  then show ?case using eq r1(1) e by simp
qed

section \<open>The finished file\<close>

text \<open>A file is a table of the entries \<open>es\<close>: a footer at its end points to an index block, whose
  entries refer to the data blocks.\<close>

definition table_file :: "snappy \<Rightarrow> bytes \<Rightarrow> entry list \<Rightarrow> entry list \<Rightarrow> entry list list \<Rightarrow> footer \<Rightarrow> bool" where
  "table_file sn bs es ix B ft \<longleftrightarrow>
     length bs < 2 ^ 64 \<and> concat B = es \<and> sorted_entries es \<and> index_ok sn bs ix B [] \<and>
     handles_before ix (unat (bh_offset (ft_metaindex_handle ft))) \<and>
     block_stored sn bs (ft_index_handle ft) ix \<and> block_stored sn bs (ft_metaindex_handle ft) [] \<and>
     (\<exists>body. bs = body @ Footer_EncodeTo ft [])"

text \<open>The index entry of the last block, written by \<open>Finish\<close>; \<open>r\<close> is the state after more was
  appended to the file of \<open>r1\<close>.\<close>

lemma last_index_entry:
  assumes inv: "table_inv sn contents r1 B pend" and srt: "sorted_entries (concat B @ pend)"
    and bound: "table_bound (concat B @ pend) + 100 < 2 ^ 32"
    and pending: "tb_pending_index_entry r1 \<longleftrightarrow> pend \<noteq> []"
    and r: "tb_pending_index_entry r = tb_pending_index_entry r1" "tb_last_key r = tb_last_key r1"
      "tb_index_block r = tb_index_block r1" "tb_index_block_options r = tb_index_block_options r1"
      "tb_pending_handle r = tb_pending_handle r1"
  shows "\<exists>b ix B' lk. (if tb_pending_index_entry r then add_index_entry (FindShortSuccessor (tb_last_key r)) r else Some r) =
        Some (r\<lparr>tb_last_key := lk, tb_index_block := b, tb_pending_index_entry := False\<rparr>) \<and>
      built b ix \<and> index_ok sn (contents (tb_file r1)) ix B' [] \<and> concat B' = concat B @ pend \<and>
      block_bound ix \<le> 8 + table_bound (concat B @ pend) \<and> handles_before ix (length (contents (tb_file r1)))"
proof (cases "pend = []")
  case True
  with inv obtain ix where "B = []" "built (tb_index_block r1) ix" "index_ok sn (contents (tb_file r1)) ix B []"
    "block_bound ix \<le> 8 + table_bound (concat B)" "handles_before ix (length (contents (tb_file r1)))"
    using pending unfolding table_inv_def by auto
  moreover have "r = r\<lparr>tb_last_key := tb_last_key r, tb_index_block := tb_index_block r1, tb_pending_index_entry := False\<rparr>"
    using True pending r by (cases r) simp
  ultimately show ?thesis
    using True pending r(1) by (intro exI [of _ "tb_index_block r1"] exI [of _ ix] exI [of _ B] exI [of _ "tb_last_key r"]) simp
next
  case False
  then have p: "tb_pending_index_entry r1" using pending by simp
  let ?sep = "FindShortSuccessor (tb_last_key r1)"
  have "sorted_entries pend" using srt by (simp add: sorted_wrt_append)
  moreover have "tb_last_key r1 = fst (last pend)" using inv False by (simp add: table_inv_def)
  ultimately have "fst e \<le> ?sep" if "e \<in> set pend" for e
    using sorted_entries_last [OF _ that] FindShortSuccessor_ge [of "tb_last_key r1"] by (metis order.trans)
  with length_FindShortSuccessor obtain ix b where ix:
      "BlockBuilder_Add (tb_index_block_options r1) (tb_index_block r1) ?sep (BlockHandle_EncodeTo (tb_pending_handle r1) []) = Some b"
      "built b ix" "block_bound ix \<le> 8 + table_bound (concat (B @ [pend]))"
      "\<And>later. (\<And>e. e \<in> set later \<Longrightarrow> ?sep < fst e) \<Longrightarrow> index_ok sn (contents (tb_file r1)) ix (B @ [pend]) later"
      "handles_before ix (length (contents (tb_file r1)))"
    using add_index_entry_inv [OF inv p bound] by metis
  have "add_index_entry ?sep r = Some (r\<lparr>tb_last_key := ?sep, tb_index_block := b, tb_pending_index_entry := False\<rparr>)"
    using ix(1) r by (simp add: add_index_entry_def)
  then show ?thesis
    using ix(2,3,5) ix(4) [of "[]"] p r(1,2)
    by (intro exI [of _ b] exI [of _ ix] exI [of _ "B @ [pend]"] exI [of _ ?sep]) simp
qed

lemma Finish_inv:
  assumes env: "appends app contents" "snappy_ok sn"
    and inv: "table_inv sn contents r B pend" and srt: "sorted_entries (concat B @ pend)"
    and bound: "table_bound (concat B @ pend) + 100 < 2 ^ 32"
  shows "\<exists>r' ix B' ft. TableBuilder_Finish sn app r = Some (OkStatus, r') \<and>
    table_file sn (contents (tb_file r')) (concat B @ pend) ix B' ft \<and>
    tb_num_entries r' = int (length (concat B @ pend)) \<and>
    tb_offset r' = word_of_nat (length (contents (tb_file r')))"
proof -
  obtain r1 where r1: "TableBuilder_Flush sn app r = Some r1" "table_inv sn contents r1 B pend"
    "tb_pending_index_entry r1 \<longleftrightarrow> pend \<noteq> []"
    using Flush_inv [OF env inv bound] by blast
  let ?F = "contents (tb_file r1)"
  have F: "length ?F \<le> table_bound (concat B @ pend)"
    using r1(2,3) by (cases "pend = []") (auto simp: table_inv_def)
  have st: "tb_status r1 = OkStatus" and off: "tb_offset r1 = word_of_nat (length ?F)"
    using r1(2) by (simp_all add: table_inv_def)
  \<comment> \<open>the metaindex block\<close>
  define r0 where "r0 = r1\<lparr>tb_closed := True\<rparr>"
  have "block_bound [] < 2 ^ 32" "length (contents (tb_file r0)) + block_bound [] + 5 < 2 ^ 64"
    "tb_offset r0 = word_of_nat (length (contents (tb_file r0)))"
    using F bound off by (simp_all add: block_bound_def r0_def)
  from WriteBlock_built [OF env this(3) built_BlockBuilder this(1,2)]
  obtain mh f2 d ss rs where m:
    "WriteBlock sn app BlockBuilder r0 = Some (mh, BlockBuilder,
       r0\<lparr>tb_status := OkStatus, tb_file := f2, tb_offset := word_of_nat (length (contents f2))\<rparr>)"
    "stored_block sn (contents f2) mh d" "layout d [] ss rs"
    "\<exists>x. contents f2 = contents (tb_file r0) @ x \<and> length x \<le> block_bound [] + 5 \<and> x \<noteq> []"
    "bh_offset mh = word_of_nat (length (contents (tb_file r0)))" by blast
  have "contents (tb_file r0) = ?F" "block_bound [] + 5 = 13" by (simp_all add: r0_def block_bound_def)
  with m(4) obtain x where x: "contents f2 = ?F @ x" "length x \<le> 13" by metis
  define r2 where "r2 = r0\<lparr>tb_status := OkStatus, tb_file := f2,
     tb_offset := word_of_nat (length (contents f2))\<rparr>"
  have mst: "block_stored sn (contents f2) mh []" using m by (auto simp: block_stored_def)
  have F2: "length (contents f2) \<le> table_bound (concat B @ pend) + 13" using F x by simp
  \<comment> \<open>the index block\<close>
  obtain b ix B' lk where ix: "(if tb_pending_index_entry r2 then add_index_entry (FindShortSuccessor (tb_last_key r2)) r2 else Some r2) =
        Some (r2\<lparr>tb_last_key := lk, tb_index_block := b, tb_pending_index_entry := False\<rparr>)"
      "built b ix" "index_ok sn ?F ix B' []" "concat B' = concat B @ pend" "block_bound ix \<le> 8 + table_bound (concat B @ pend)"
      "handles_before ix (length ?F)"
    using last_index_entry [OF r1(2) srt bound r1(3), of r2] by (auto simp: r2_def r0_def)
  define r3 where "r3 = r2\<lparr>tb_last_key := lk, tb_index_block := b, tb_pending_index_entry := False\<rparr>"
  have "tb_offset r3 = word_of_nat (length (contents (tb_file r3)))" "tb_file r3 = f2" "tb_index_block r3 = b"
    by (simp_all add: r3_def r2_def)
  note r3 = this
  have "block_bound ix < 2 ^ 32" "length (contents (tb_file r3)) + block_bound ix + 5 < 2 ^ 64"
    using ix(5) bound F2 r3(2) by simp_all
  from WriteBlock_built [OF env r3(1) ix(2) this]
  obtain ih f4 d' ss' rs' where w:
    "WriteBlock sn app b r3 = Some (ih, BlockBuilder,
       r3\<lparr>tb_status := OkStatus, tb_file := f4, tb_offset := word_of_nat (length (contents f4))\<rparr>)"
    "stored_block sn (contents f4) ih d'" "layout d' ix ss' rs'"
    "\<exists>x. contents f4 = contents (tb_file r3) @ x \<and> length x \<le> block_bound ix + 5 \<and> x \<noteq> []"
    "bh_offset ih = word_of_nat (length (contents (tb_file r3)))" by blast
  then obtain y where y: "contents f4 = contents f2 @ y" "length y \<le> block_bound ix + 5" by (auto simp: r3)
  \<comment> \<open>the footer\<close>
  define ft where "ft = \<lparr>ft_metaindex_handle = mh, ft_index_handle = ih\<rparr>"
  obtain f5 where f5: "app f4 (Footer_EncodeTo ft []) = (OkStatus, f5)" "contents f5 = contents f4 @ Footer_EncodeTo ft []"
    using env(1) by (rule appendsE)
  define r5 where "r5 = r3\<lparr>tb_status := OkStatus, tb_file := f5,
     tb_offset := word_of_nat (length (contents f4)) + word_of_nat (length (Footer_EncodeTo ft [])), tb_index_block := BlockBuilder\<rparr>"
  have st2: "tb_status r2 = OkStatus" by (simp add: r2_def)
  have "TableBuilder_Finish sn app r = Some (OkStatus, r5)"
    using r1(1) st st2 m(1) ix(1) w(1) f5(1) r3(3)
    by (simp add: TableBuilder_Finish_def r0_def [symmetric] r2_def [symmetric] r3_def [symmetric] ft_def [symmetric] Let_def r5_def)
  moreover have "table_file sn (contents f5) (concat B @ pend) ix B' ft"
  proof -
    have len: "length (contents f5) < 2 ^ 64"
      using F2 y f5(2) bound ix(5) by (simp add: length_Footer_EncodeTo kEncodedLength_def kMaxEncodedLength_def)
    have f51: "contents f5 = ?F @ (x @ y @ Footer_EncodeTo ft [])" "contents f5 = contents f2 @ (y @ Footer_EncodeTo ft [])"
      using f5(2) y(1) x(1) by simp_all
    show ?thesis
      unfolding table_file_def
    proof (intro conjI)
      show "index_ok sn (contents f5) ix B' []" using index_ok_append [OF ix(3)] len f51 by metis
      have "unat (bh_offset mh) = length ?F"
        using m(5) F bound unat_of_nat_u64 [of "length ?F"] by (simp add: r0_def)
      then show "handles_before ix (unat (bh_offset (ft_metaindex_handle ft)))" using ix(6) by (simp add: ft_def)
      show "block_stored sn (contents f5) (ft_metaindex_handle ft) []"
        using block_stored_append [OF mst] len f51 by (simp add: ft_def)
      have "block_stored sn (contents f4) ih ix" using w by (auto simp: block_stored_def)
      then show "block_stored sn (contents f5) (ft_index_handle ft) ix"
        using block_stored_append len f5(2) by (simp add: ft_def)
    qed (use len srt ix(4) f5(2) in auto)
  qed
  moreover have "tb_num_entries r5 = int (length (concat B @ pend))"
    using r1(2) by (simp add: r5_def r3_def r2_def r0_def table_inv_def)
  moreover have "tb_offset r5 = word_of_nat (length (contents f5))" by (simp add: r5_def f5(2))
  ultimately show ?thesis by (intro exI [of _ r5] exI [of _ ix] exI [of _ B'] exI [of _ ft]) (simp add: r5_def)
qed

lemma build_table_file:
  assumes "appends app contents" "snappy_ok sn" "contents f = []" "sorted_entries es"
    "table_bound es + 100 < 2 ^ 32"
  obtains r ix B ft where "build_table sn app opt f es = Some (OkStatus, r)"
    "table_file sn (contents (tb_file r)) es ix B ft" "tb_num_entries r = int (length es)"
    "tb_offset r = word_of_nat (length (contents (tb_file r)))"
proof -
  obtain r1 B1 pend1 where r1: "add_all sn app es (TableBuilder opt f) = Some r1" "table_inv sn contents r1 B1 pend1"
    "concat B1 @ pend1 = es"
    using add_all_inv [OF assms(1,2) table_inv_init [of contents f, OF assms(3)], of es opt] assms(4,5) by auto
  then show ?thesis
    using Finish_inv [OF assms(1,2) r1(2)] assms(4,5) that by (auto simp: build_table_def)
qed

section \<open>Properties\<close>

text \<open>Index keys: the shortened key written between two blocks is at or past the last key of the
  first and before the first key of the second, and is never longer; the successor written for the
  last block is at or past its last key.\<close>

theorem separator_correct:
  "(start < limit \<longrightarrow> start \<le> FindShortestSeparator start limit \<and> FindShortestSeparator start limit < limit) \<and>
   length (FindShortestSeparator start limit) \<le> length start \<and>
   start \<le> FindShortSuccessor start \<and> length (FindShortSuccessor start) \<le> length start"
  using FindShortestSeparator_between [of start limit] length_FindShortestSeparator FindShortSuccessor_ge
    length_FindShortSuccessor by blast

theorem separator_correct_witness:
  "[1, 2, 9] < [1, 7 :: byte] \<and> [1, 2, 9] \<le> FindShortestSeparator [1, 2, 9] [1, 7] \<and>
   FindShortestSeparator [1, 2, 9] [1, 7] < [1, 7] \<and> FindShortestSeparator [1, 2, 9] [1, 7] = [1, 3]"
  using separator_correct [of "[1, 2, 9]" "[1, 7]"]
  by (simp add: FindShortestSeparator_def Let_def word_less_nat_alt)

text \<open>The table builder succeeds on every sorted sequence of entries that fits and accounts for
  what it wrote: \<open>Finish\<close> returns OK, \<open>NumEntries\<close> is the number of entries and \<open>FileSize\<close> the
  number of bytes in the file, for any block size, restart interval and compression setting.\<close>

theorem table_builder_accounts:
  assumes "appends app contents" "snappy_ok sn" "contents f = []" "sorted_entries es"
    "table_bound es + 100 < 2 ^ 32"
  shows "\<exists>r. build_table sn app opt f es = Some (OkStatus, r) \<and> unat (NumEntries r) = length es \<and>
    unat (FileSize r) = length (contents (tb_file r))"
proof -
  obtain r ix B ft where r: "build_table sn app opt f es = Some (OkStatus, r)"
    "table_file sn (contents (tb_file r)) es ix B ft" "tb_num_entries r = int (length es)"
    "tb_offset r = word_of_nat (length (contents (tb_file r)))"
    using build_table_file [OF assms] .
  have "80 * length es \<le> table_bound es" by (induction es) (auto simp: table_bound_def)
  then have "unat (word_of_nat (length es) :: u64) = length es" using assms(5) by (intro unat_of_nat_u64) simp
  moreover have "unat (FileSize r) = length (contents (tb_file r))"
    using r(2,4) by (simp add: FileSize_def table_file_def unat_of_nat)
  ultimately show ?thesis using r(1,3) by (auto simp: NumEntries_def)
qed

definition mem_append :: "bytes appender" where
  "mem_append f b = (OkStatus, f @ b)"

lemma appends_mem_append: "appends mem_append id"
  by (simp add: appends_def mem_append_def)

theorem table_builder_accounts_witness:
  "\<exists>r. build_table no_snappy mem_append \<lparr>block_size = 30, block_restart_interval = 2, compression = kSnappyCompression\<rparr> []
      [([1], [7]), ([1, 2], [8]), ([3], [])] = Some (OkStatus, r) \<and>
    unat (NumEntries r) = length [([1], [7]), ([1, 2], [8 :: byte]), ([3 :: byte], [])] \<and>
    unat (FileSize r) = length (id (tb_file r))"
  by (rule table_builder_accounts [OF appends_mem_append snappy_ok_no_snappy]) (simp_all add: table_bound_def)

end
