(* ===== verification/Two_Level.thy ===== *)
theory Two_Level
  imports Block
begin

text \<open>
  \<open>tsl/lib/io/two_level_iterator.cc\<close>: an iterator over the concatenation of the blocks that an
  index iterator refers to.

  \<open>block_function_\<close> is a function from its argument \<open>arg_\<close> and an index value to an iterator
  over the block, with the cleanup functions registered for it; it may change what the argument
  refers to (a table refers to its block cache).  Deleting the iterator runs the cleanup functions.
  The locale \<open>block_function\<close> is what the iterator relies on: the function returns an iterator over
  the entries that the index value stands for, and its cleanup functions can be run once it is
  done with.  Under it the two-level iterator satisfies the contract
  of \<open>table_iterator\<close> over the concatenation of the blocks.
\<close>

section \<open>The iterator\<close>

type_synonym 'c data_iterator = "block_iterator \<times> 'c list"

type_synonym ('a, 'c) block_function = "'a \<Rightarrow> bytes \<Rightarrow> ('c data_iterator \<times> 'a) option"

record ('a, 'c) two_level =
  tl_arg :: 'a
  tl_saved_status :: status
  tl_index_iter :: block_iterator
  tl_data_iter :: "'c data_iterator option"
  tl_data_block_handle :: bytes

definition TwoLevelIterator :: "block_iterator \<Rightarrow> 'a \<Rightarrow> ('a, 'c) two_level" where
  "TwoLevelIterator index_iter arg =
     \<lparr>tl_arg = arg, tl_saved_status = OkStatus, tl_index_iter = index_iter, tl_data_iter = None,
      tl_data_block_handle = []\<rparr>"

definition TwoLevel_Valid :: "('a, 'c) two_level \<Rightarrow> bool" where
  "TwoLevel_Valid it = (case tl_data_iter it of None \<Rightarrow> False | Some d \<Rightarrow> Iterator_Valid (fst d))"

definition TwoLevel_key :: "('a, 'c) two_level \<Rightarrow> bytes option" where
  "TwoLevel_key it = Option.bind (tl_data_iter it) (Iterator_key \<circ> fst)"

definition TwoLevel_value :: "('a, 'c) two_level \<Rightarrow> bytes option" where
  "TwoLevel_value it = Option.bind (tl_data_iter it) (Iterator_value \<circ> fst)"

definition TwoLevel_status :: "('a, 'c) two_level \<Rightarrow> status" where
  "TwoLevel_status it =
     (if \<not> ok (Iterator_status (tl_index_iter it)) then Iterator_status (tl_index_iter it)
      else case tl_data_iter it of
             None \<Rightarrow> tl_saved_status it
           | Some d \<Rightarrow> if \<not> ok (Iterator_status (fst d)) then Iterator_status (fst d) else tl_saved_status it)"

definition SaveError :: "status \<Rightarrow> ('a, 'c) two_level \<Rightarrow> ('a, 'c) two_level" where
  "SaveError s it = (if ok (tl_saved_status it) \<and> \<not> ok s then it\<lparr>tl_saved_status := s\<rparr> else it)"

text \<open>\<open>delete\<close> of an iterator; \<open>call\<close> runs one cleanup function.\<close>

definition delete_iterator :: "('c \<Rightarrow> 'a \<Rightarrow> 'a) \<Rightarrow> 'c data_iterator \<Rightarrow> 'a \<Rightarrow> 'a" where
  "delete_iterator call d a = run_cleanup call (snd d) a"

definition SetDataIterator ::
  "('c \<Rightarrow> 'a \<Rightarrow> 'a) \<Rightarrow> 'c data_iterator option \<Rightarrow> ('a, 'c) two_level \<Rightarrow> ('a, 'c) two_level" where
  "SetDataIterator call data_iter it =
     (case tl_data_iter it of
        None \<Rightarrow> it
      | Some d \<Rightarrow> (SaveError (Iterator_status (fst d)) it)\<lparr>tl_arg := delete_iterator call d (tl_arg it)\<rparr>)
       \<lparr>tl_data_iter := data_iter\<rparr>"

definition InitDataBlock ::
  "('a, 'c) block_function \<Rightarrow> ('c \<Rightarrow> 'a \<Rightarrow> 'a) \<Rightarrow> ('a, 'c) two_level \<Rightarrow> ('a, 'c) two_level option" where
  "InitDataBlock bf call it =
     (if \<not> Iterator_Valid (tl_index_iter it) then Some (SetDataIterator call None it)
      else case Iterator_value (tl_index_iter it) of
             None \<Rightarrow> None
           | Some handle \<Rightarrow>
               if tl_data_iter it \<noteq> None \<and> handle = tl_data_block_handle it then Some it
               else
                 map_option (\<lambda>(iter, arg).
                     SetDataIterator call (Some iter) (it\<lparr>tl_arg := arg, tl_data_block_handle := handle\<rparr>))
                   (bf (tl_arg it) handle))"

text \<open>The destructor; the index iterator has no cleanup functions of its own.\<close>

definition TwoLevel_destroy :: "('c \<Rightarrow> 'a \<Rightarrow> 'a) \<Rightarrow> ('a, 'c) two_level \<Rightarrow> 'a" where
  "TwoLevel_destroy call it =
     (case tl_data_iter it of None \<Rightarrow> tl_arg it | Some d \<Rightarrow> delete_iterator call d (tl_arg it))"

text \<open>\<open>if (data_iter_ != nullptr) data_iter_->op()\<close>.\<close>

definition on_data_iter :: "(block_iterator \<Rightarrow> block_iterator option) \<Rightarrow> ('a, 'c) two_level \<Rightarrow> ('a, 'c) two_level option" where
  "on_data_iter f it =
     (case tl_data_iter it of
        None \<Rightarrow> Some it
      | Some d \<Rightarrow> map_option (\<lambda>d'. it\<lparr>tl_data_iter := Some (d', snd d)\<rparr>) (f (fst d)))"

partial_function (option) SkipEmptyDataBlocksForward :: "('a, 'c) block_function \<Rightarrow> ('c \<Rightarrow> 'a \<Rightarrow> 'a) \<Rightarrow> ('a, 'c) two_level \<Rightarrow> ('a, 'c) two_level option" where
  "SkipEmptyDataBlocksForward bf call it =
     (if \<not> TwoLevel_Valid it then
        if \<not> Iterator_Valid (tl_index_iter it) then Some (SetDataIterator call None it)
        else
          Option.bind (Iterator_Next (tl_index_iter it)) (\<lambda>index_iter.
          Option.bind (InitDataBlock bf call (it\<lparr>tl_index_iter := index_iter\<rparr>)) (\<lambda>it.
          Option.bind (on_data_iter Iterator_SeekToFirst it) (\<lambda>it.
          SkipEmptyDataBlocksForward bf call it)))
      else Some it)"

definition TwoLevel_Seek :: "('a, 'c) block_function \<Rightarrow> ('c \<Rightarrow> 'a \<Rightarrow> 'a) \<Rightarrow> ('a, 'c) two_level \<Rightarrow> bytes \<Rightarrow> ('a, 'c) two_level option" where
  "TwoLevel_Seek bf call it target =
     Option.bind (Iterator_Seek (tl_index_iter it) target) (\<lambda>index_iter.
     Option.bind (InitDataBlock bf call (it\<lparr>tl_index_iter := index_iter\<rparr>)) (\<lambda>it.
     Option.bind (on_data_iter (\<lambda>d. Iterator_Seek d target) it) (\<lambda>it.
     SkipEmptyDataBlocksForward bf call it)))"

definition TwoLevel_SeekToFirst :: "('a, 'c) block_function \<Rightarrow> ('c \<Rightarrow> 'a \<Rightarrow> 'a) \<Rightarrow> ('a, 'c) two_level \<Rightarrow> ('a, 'c) two_level option" where
  "TwoLevel_SeekToFirst bf call it =
     Option.bind (Iterator_SeekToFirst (tl_index_iter it)) (\<lambda>index_iter.
     Option.bind (InitDataBlock bf call (it\<lparr>tl_index_iter := index_iter\<rparr>)) (\<lambda>it.
     Option.bind (on_data_iter Iterator_SeekToFirst it) (\<lambda>it.
     SkipEmptyDataBlocksForward bf call it)))"

definition TwoLevel_Next :: "('a, 'c) block_function \<Rightarrow> ('c \<Rightarrow> 'a \<Rightarrow> 'a) \<Rightarrow> ('a, 'c) two_level \<Rightarrow> ('a, 'c) two_level option" where
  "TwoLevel_Next bf call it = Option.bind (on_data_iter Iterator_Next it) (SkipEmptyDataBlocksForward bf call)"

section \<open>What the iterator is over\<close>

text \<open>\<open>reads h b\<close>: the index value \<open>h\<close> stands for a block with the entries \<open>b\<close>.\<close>

definition index_for :: "(bytes \<Rightarrow> entry list \<Rightarrow> bool) \<Rightarrow> entry list \<Rightarrow> entry list list \<Rightarrow> bool" where
  "index_for reads ix B \<longleftrightarrow> length ix = length B \<and> (\<forall>j < length B.
     B ! j \<noteq> [] \<and> reads (snd (ix ! j)) (B ! j) \<and> (\<forall>e \<in> set (B ! j). fst e \<le> fst (ix ! j)) \<and>
     (\<forall>e \<in> set (concat (drop (Suc j) B)). fst (ix ! j) < fst e))"

text \<open>The state between the steps of an operation: the index iterator is at block \<open>j\<close>.\<close>

definition tl_held :: "('a, 'c) two_level \<Rightarrow> 'c list" where
  "tl_held it = (case tl_data_iter it of None \<Rightarrow> [] | Some d \<Rightarrow> snd d)"

definition tl_at :: "('a \<Rightarrow> 'c list \<Rightarrow> bool) \<Rightarrow> (bytes \<Rightarrow> entry list \<Rightarrow> bool) \<Rightarrow> entry list \<Rightarrow> entry list list \<Rightarrow>
    ('a, 'c) two_level \<Rightarrow> bool" where
  "tl_at good reads ix B it \<longleftrightarrow> good (tl_arg it) (tl_held it) \<and> length (tl_held it) \<le> 1 \<and> tl_saved_status it = OkStatus \<and> index_for reads ix B \<and>
     sorted_entries (concat B) \<and> block_over ix (tl_index_iter it) \<and>
     (\<forall>d. tl_data_iter it = Some d \<longrightarrow>
        (\<exists>b. reads (tl_data_block_handle it) b \<and> block_over b (fst d) \<and> Iterator_status (fst d) = OkStatus))"

definition tl_over :: "('a \<Rightarrow> 'c list \<Rightarrow> bool) \<Rightarrow> (bytes \<Rightarrow> entry list \<Rightarrow> bool) \<Rightarrow> entry list \<Rightarrow> ('a, 'c) two_level \<Rightarrow> bool" where
  "tl_over good reads es it \<longleftrightarrow> (\<exists>ix B. es = concat B \<and> tl_at good reads ix B it)"

definition tl_pos :: "('a \<Rightarrow> 'c list \<Rightarrow> bool) \<Rightarrow> (bytes \<Rightarrow> entry list \<Rightarrow> bool) \<Rightarrow> entry list \<Rightarrow> ('a, 'c) two_level \<Rightarrow> nat \<Rightarrow> bool" where
  "tl_pos good reads es it i \<longleftrightarrow> (\<exists>ix B j. es = concat B \<and> tl_at good reads ix B it \<and> block_pos ix (tl_index_iter it) j \<and>
     (case tl_data_iter it of
        None \<Rightarrow> j = length B \<and> i = length es
      | Some d \<Rightarrow> j < length B \<and> reads (tl_data_block_handle it) (B ! j) \<and>
          (\<exists>p < length (B ! j). block_pos (B ! j) (fst d) p \<and> i = length (concat (take j B)) + p)))"

lemma index_for_sorted:
  assumes "index_for reads ix B"
  shows "sorted_entries ix"
  unfolding sorted_wrt_iff_nth_less
proof (intro allI impI)
  fix i j assume ij: "i < j" "j < length ix"
  then have "B ! j \<noteq> []" "\<forall>e \<in> set (B ! j). fst e \<le> fst (ix ! j)"
    and i: "\<forall>e \<in> set (concat (drop (Suc i) B)). fst (ix ! i) < fst e"
    using assms unfolding index_for_def by auto
  then obtain e where e: "e \<in> set (B ! j)" "fst e \<le> fst (ix ! j)" using last_in_set by blast
  have "B ! j \<in> set (drop (Suc i) B)"
    using ij assms by (auto simp: index_for_def in_set_conv_nth intro!: exI [of _ "j - Suc i"])
  then have "fst (ix ! i) < fst e" using e(1) i by auto
  with e(2) show "fst (ix ! i) < fst (ix ! j)" by simp
qed

text \<open>Positions in the concatenation.\<close>

lemma concat_split: "j < length B \<Longrightarrow> concat B = concat (take j B) @ B ! j @ concat (drop (Suc j) B)"
  by (metis Cons_nth_drop_Suc append_take_drop_id concat.simps(2) concat_append)

lemma lower_bound_concat:
  fixes t :: bytes
  assumes "index_for reads ix B"
  defines "j \<equiv> lower_bound ix t"
  shows "j \<le> length B"
    and "j = length B \<Longrightarrow> lower_bound (concat B) t = length (concat B)"
    and "j < length B \<Longrightarrow> lower_bound (concat B) t = length (concat (take j B)) + lower_bound (B ! j) t"
proof -
  have len: "length ix = length B" using assms(1) by (simp add: index_for_def)
  show jle: "j \<le> length B" using lower_bound_le [of ix t] by (simp add: j_def len)
  have before: "fst e < t" if "e \<in> set (concat (take j B))" for e
  proof -
    from that obtain b where b: "b \<in> set (take j B)" "e \<in> set b" by auto
    then obtain i where i: "i < j" "i < length B" "b = B ! i" by (auto simp: in_set_conv_nth)
    then have "fst e \<le> fst (ix ! i)" using assms(1) b(2) by (auto simp: index_for_def)
    also have "\<dots> < t" using i(1) unfolding j_def by (rule lower_bound_before)
    finally show ?thesis .
  qed
  show "lower_bound (concat B) t = length (concat B)" if "j = length B"
    using lower_bound_append [of "concat (take j B)" t "[]"] before that by (simp add: lower_bound_def)
  show "lower_bound (concat B) t = length (concat (take j B)) + lower_bound (B ! j) t" if "j < length B"
  proof -
    have tj: "t \<le> fst (ix ! j)" using that len lower_bound_at [of ix t] by (simp add: j_def)
    have "\<not> fst e < t" if "e \<in> set (concat (drop (Suc j) B))" for e
      using assms(1) \<open>j < length B\<close> that tj unfolding index_for_def by (meson leD order.strict_trans2 less_imp_le)
    then have "lower_bound (concat (drop (Suc j) B)) t = 0"
      unfolding lower_bound_def by (metis list.set_intros(1) list.size(3) takeWhile.simps(1,2) list.exhaust)
    moreover have "lower_bound (B ! j @ concat (drop (Suc j) B)) t = lower_bound (B ! j) t"
    proof (cases "lower_bound (B ! j) t < length (B ! j)")
      case True
      then show ?thesis by (rule lower_bound_append_le)
    next
      case False
      then have eq: "lower_bound (B ! j) t = length (B ! j)" using lower_bound_le [of "B ! j" t] by simp
      then have "fst e < t" if "e \<in> set (B ! j)" for e
        using that lower_bound_before [of _ "B ! j" t] by (auto simp: in_set_conv_nth)
      then show ?thesis using eq calculation by (simp add: lower_bound_append)
    qed
    ultimately show ?thesis
      using lower_bound_append [of "concat (take j B)" t] before by (subst concat_split [OF that]) simp
  qed
qed

section \<open>The contract\<close>

text \<open>\<open>good a cs\<close>: the argument is in order, and this client still has the cleanup functions \<open>cs\<close> to run.\<close>

locale block_function =
  fixes bf :: "('a, 'c) block_function" and call :: "'c \<Rightarrow> 'a \<Rightarrow> 'a"
    and good :: "'a \<Rightarrow> 'c list \<Rightarrow> bool" and reads :: "bytes \<Rightarrow> entry list \<Rightarrow> bool"
  assumes bf_reads: "good a cs \<Longrightarrow> length cs \<le> 1 \<Longrightarrow> reads h b \<Longrightarrow>
      \<exists>it ds a'. bf a h = Some ((it, ds), a') \<and> block_over b it \<and> Iterator_status it = OkStatus \<and> length ds \<le> 1 \<and> good a' (cs @ ds)"
    and cleanup_good: "good a (cs @ ds) \<Longrightarrow> good (run_cleanup call cs a) ds"
    and reads_inject: "reads h b \<Longrightarrow> reads h b' \<Longrightarrow> b = b'"
begin

lemma SetDataIterator_at:
  assumes "tl_at good reads ix B it"
  shows "SetDataIterator call x it =
    it\<lparr>tl_arg := run_cleanup call (tl_held it) (tl_arg it), tl_data_iter := x\<rparr>"
  using assms by (auto simp: SetDataIterator_def SaveError_def tl_at_def tl_held_def delete_iterator_def split: option.split)

lemma good_drop: "tl_at good reads ix B it \<Longrightarrow> good (run_cleanup call (tl_held it) (tl_arg it)) []"
  using cleanup_good [of _ _ "[]"] by (simp add: tl_at_def)

lemma tl_at_None:
  assumes "tl_at good reads ix B it"
  shows "tl_at good reads ix B (SetDataIterator call None it)" "tl_data_iter (SetDataIterator call None it) = None"
    "tl_index_iter (SetDataIterator call None it) = tl_index_iter it"
  using assms good_drop [OF assms] unfolding SetDataIterator_at [OF assms] by (simp_all add: tl_at_def tl_held_def)

lemma InitDataBlock_at:
  assumes "tl_at good reads ix B it" "block_pos ix (tl_index_iter it) j"
  shows "\<exists>it'. InitDataBlock bf call it = Some it' \<and> tl_at good reads ix B it' \<and> tl_index_iter it' = tl_index_iter it \<and>
     (if j < length B
      then \<exists>d. tl_data_iter it' = Some d \<and> block_over (B ! j) (fst d) \<and> reads (tl_data_block_handle it') (B ! j)
      else tl_data_iter it' = None)"
proof (cases "j < length B")
  case False
  then have "\<not> Iterator_Valid (tl_index_iter it)"
    using assms block.pos_valid [OF assms(2)] by (simp add: tl_at_def index_for_def)
  with False tl_at_None [OF assms(1)] show ?thesis by (simp add: InitDataBlock_def)
next
  case True
  then have j: "j < length ix" "reads (snd (ix ! j)) (B ! j)"
    using assms(1) by (auto simp: tl_at_def index_for_def)
  have v: "Iterator_Valid (tl_index_iter it)" "Iterator_value (tl_index_iter it) = Some (snd (ix ! j))"
    using block.pos_valid [OF assms(2)] block.pos_entry [OF assms(2) j(1)] j(1) by simp_all
  show ?thesis
  proof (cases "tl_data_iter it \<noteq> None \<and> snd (ix ! j) = tl_data_block_handle it")
    case same: True
    then obtain d b where d: "tl_data_iter it = Some d" "reads (snd (ix ! j)) b" "block_over b (fst d)"
      using assms(1) by (auto simp: tl_at_def)
    then have "b = B ! j" using j(2) reads_inject by blast
    with same True v d assms(1) show ?thesis by (intro exI [of _ it]) (auto simp: InitDataBlock_def intro!: exI [of _ d])
  next
    case False
    have "good (tl_arg it) (tl_held it)" "length (tl_held it) \<le> 1" using assms(1) by (simp_all add: tl_at_def)
    then obtain d ds a where d: "bf (tl_arg it) (snd (ix ! j)) = Some ((d, ds), a)" "block_over (B ! j) d"
      "Iterator_status d = OkStatus" "length ds \<le> 1" "good a (tl_held it @ ds)"
      using bf_reads j(2) by blast
    let ?it = "it\<lparr>tl_arg := a, tl_data_block_handle := snd (ix ! j)\<rparr>"
    have "SetDataIterator call (Some (d, ds)) ?it =
        ?it\<lparr>tl_arg := run_cleanup call (tl_held it) a, tl_data_iter := Some (d, ds)\<rparr>"
      using assms(1) by (auto simp: SetDataIterator_def SaveError_def tl_at_def tl_held_def delete_iterator_def split: option.split)
    with False True v d assms(1) j(2) cleanup_good [OF d(5)] show ?thesis
      by (auto simp: InitDataBlock_def tl_at_def tl_held_def)
  qed
qed

lemma tl_at_data:
  assumes "tl_at good reads ix B it" "reads (tl_data_block_handle it) b" "block_pos b d p"
    and "tl_data_iter it = Some d0"
  shows "tl_at good reads ix B (it\<lparr>tl_data_iter := Some (d, snd d0)\<rparr>)"
  using assms block.pos_over [OF assms(3)] block.pos_status [OF assms(3)] by (auto simp: tl_at_def tl_held_def)

lemma tl_at_index:
  "tl_at good reads ix B it \<Longrightarrow> block_pos ix i j \<Longrightarrow> tl_at good reads ix B (it\<lparr>tl_index_iter := i\<rparr>)"
  using block.pos_over by (auto simp: tl_at_def tl_held_def)

lemma Skip_done:
  assumes "TwoLevel_Valid it"
  shows "SkipEmptyDataBlocksForward bf call it = Some it"
  using assms by (subst SkipEmptyDataBlocksForward.simps) simp

lemma Skip_end:
  assumes "tl_at good reads ix B it" "block_pos ix (tl_index_iter it) (length B)" "tl_data_iter it = None"
  shows "\<exists>it'. SkipEmptyDataBlocksForward bf call it = Some it' \<and> tl_pos good reads (concat B) it' (length (concat B))"
proof -
  have "\<not> Iterator_Valid (tl_index_iter it)"
    using assms block.pos_valid [OF assms(2)] by (simp add: tl_at_def index_for_def)
  then have "SkipEmptyDataBlocksForward bf call it = Some (SetDataIterator call None it)"
    using assms(3) by (subst SkipEmptyDataBlocksForward.simps) (simp add: TwoLevel_Valid_def)
  moreover have "tl_pos good reads (concat B) (SetDataIterator call None it) (length (concat B))"
    unfolding tl_pos_def using assms tl_at_None [OF assms(1)]
    by (intro exI [of _ ix] exI [of _ B] exI [of _ "length B"]) auto
  ultimately show ?thesis by blast
qed

lemma Skip_at:
  assumes "tl_at good reads ix B it" "block_pos ix (tl_index_iter it) j" "j < length B"
    and "tl_data_iter it = Some d" "reads (tl_data_block_handle it) (B ! j)" "block_pos (B ! j) (fst d) p"
  shows "\<exists>it'. SkipEmptyDataBlocksForward bf call it = Some it' \<and>
    tl_pos good reads (concat B) it' (length (concat (take j B)) + p)"
proof (cases "p < length (B ! j)")
  case True
  then have "TwoLevel_Valid it" using block.pos_valid [OF assms(6)] assms(4) by (simp add: TwoLevel_Valid_def)
  moreover have "tl_pos good reads (concat B) it (length (concat (take j B)) + p)"
    unfolding tl_pos_def using assms True by (intro exI [of _ ix] exI [of _ B] exI [of _ j]) auto
  ultimately show ?thesis using Skip_done by blast
next
  case False
  have p: "p = length (B ! j)" using False block.pos_over [OF assms(6)] by simp
  have len: "length ix = length B" using assms(1) by (simp add: tl_at_def index_for_def)
  have inv: "\<not> TwoLevel_Valid it" using False block.pos_valid [OF assms(6)] assms(4) by (simp add: TwoLevel_Valid_def)
  have iv: "Iterator_Valid (tl_index_iter it)" using block.pos_valid [OF assms(2)] assms(3) len by simp
  obtain i' where i': "Iterator_Next (tl_index_iter it) = Some i'" "block_pos ix i' (Suc j)"
    using block.pos_nxt [OF assms(2)] assms(3) len by auto
  let ?it1 = "it\<lparr>tl_index_iter := i'\<rparr>"
  obtain it2 where it2: "InitDataBlock bf call ?it1 = Some it2" "tl_at good reads ix B it2" "tl_index_iter it2 = i'"
    "if Suc j < length B
     then \<exists>d. tl_data_iter it2 = Some d \<and> block_over (B ! Suc j) (fst d) \<and> reads (tl_data_block_handle it2) (B ! Suc j)
     else tl_data_iter it2 = None"
    using InitDataBlock_at [OF tl_at_index [OF assms(1) i'(2)]] i'(2) by auto
  have pos: "length (concat (take j B)) + p = length (concat (take (Suc j) B))"
    using assms(3) p by (simp add: take_Suc_conv_app_nth)
  have step: "SkipEmptyDataBlocksForward bf call it = Option.bind (on_data_iter Iterator_SeekToFirst it2) (SkipEmptyDataBlocksForward bf call)"
    using inv iv i'(1) it2(1) by (subst SkipEmptyDataBlocksForward.simps) simp
  show ?thesis
  proof (cases "Suc j < length B")
    case False
    then have "Suc j = length B" using assms(3) by simp
    then show ?thesis
      using step pos it2 i'(2) Skip_end [OF it2(2)] by (auto simp: on_data_iter_def)
  next
    case True
    then obtain d2 where d2: "tl_data_iter it2 = Some d2" "block_over (B ! Suc j) (fst d2)" "reads (tl_data_block_handle it2) (B ! Suc j)"
      using it2(4) by auto
    obtain d3 where d3: "Iterator_SeekToFirst (fst d2) = Some d3" "block_pos (B ! Suc j) d3 0"
      using block.over_seek_to_first [OF d2(2)] by blast
    let ?it3 = "it2\<lparr>tl_data_iter := Some (d3, snd d2)\<rparr>"
    have ne: "B ! Suc j \<noteq> []" using assms(1) True by (simp add: tl_at_def index_for_def)
    then have "TwoLevel_Valid ?it3" using block.pos_valid [OF d3(2)] by (simp add: TwoLevel_Valid_def)
    then have "SkipEmptyDataBlocksForward bf call it = Some ?it3"
      using step d2(1) d3(1) Skip_done by (simp add: on_data_iter_def)
    moreover have "tl_pos good reads (concat B) ?it3 (length (concat (take (Suc j) B)) + 0)"
      unfolding tl_pos_def using tl_at_data [OF it2(2) d2(3) d3(2) d2(1)] it2(3) i'(2) True d2(3) d3(2) ne
      by (intro exI [of _ ix] exI [of _ B] exI [of _ "Suc j"]) auto
    ultimately show ?thesis using pos by auto
  qed
qed

text \<open>The two positioning operations have the same shape.\<close>

lemma position:
  assumes "tl_at good reads ix B it" "block_pos ix i j"
    and "j < length B \<Longrightarrow> (\<And>d. block_over (B ! j) d \<Longrightarrow> \<exists>d'. f d = Some d' \<and> block_pos (B ! j) d' p)"
  shows "\<exists>it'. Option.bind (InitDataBlock bf call (it\<lparr>tl_index_iter := i\<rparr>)) (\<lambda>it.
      Option.bind (on_data_iter f it) (\<lambda>it. SkipEmptyDataBlocksForward bf call it)) = Some it' \<and>
    tl_pos good reads (concat B) it' (if j < length B then length (concat (take j B)) + p else length (concat B))"
proof -
  obtain it2 where it2: "InitDataBlock bf call (it\<lparr>tl_index_iter := i\<rparr>) = Some it2" "tl_at good reads ix B it2" "tl_index_iter it2 = i"
    "if j < length B
     then \<exists>d. tl_data_iter it2 = Some d \<and> block_over (B ! j) (fst d) \<and> reads (tl_data_block_handle it2) (B ! j)
     else tl_data_iter it2 = None"
    using InitDataBlock_at [OF tl_at_index [OF assms(1,2)]] assms(2) by auto
  show ?thesis
  proof (cases "j < length B")
    case True
    then obtain d where d: "tl_data_iter it2 = Some d" "block_over (B ! j) (fst d)" "reads (tl_data_block_handle it2) (B ! j)"
      using it2(4) by auto
    obtain d' where d': "f (fst d) = Some d'" "block_pos (B ! j) d' p" using assms(3) [OF True d(2)] by blast
    from Skip_at [OF tl_at_data [OF it2(2) d(3) d'(2) d(1)], of j "(d', snd d)" p] True d d' it2(1,3) assms(2) show ?thesis
      by (auto simp: on_data_iter_def)
  next
    case False
    then have "j = length B"
      using block.pos_over [OF assms(2)] assms(1) by (simp add: tl_at_def index_for_def)
    with False it2 assms(2) Skip_end [OF it2(2)] show ?thesis by (auto simp: on_data_iter_def)
  qed
qed

lemma tl_over_Seek:
  assumes "tl_over good reads es it"
  shows "\<exists>it'. TwoLevel_Seek bf call it t = Some it' \<and> tl_pos good reads es it' (lower_bound es t)"
proof -
  obtain ix B where es: "es = concat B" and at: "tl_at good reads ix B it" using assms unfolding tl_over_def by blast
  then have "block_over ix (tl_index_iter it)" and idx: "index_for reads ix B" by (simp_all add: tl_at_def)
  then obtain i where i: "Iterator_Seek (tl_index_iter it) t = Some i" "block_pos ix i (lower_bound ix t)"
    using block.over_seek by blast
  from position [OF at i(2), of "\<lambda>d. Iterator_Seek d t" "lower_bound (B ! lower_bound ix t) t"] block.over_seek
  show ?thesis
    using lower_bound_concat [OF idx, of t] i(1) by (auto simp: TwoLevel_Seek_def es split: if_splits)
qed

lemma tl_over_SeekToFirst:
  assumes "tl_over good reads es it"
  shows "\<exists>it'. TwoLevel_SeekToFirst bf call it = Some it' \<and> tl_pos good reads es it' 0"
proof -
  obtain ix B where es: "es = concat B" and at: "tl_at good reads ix B it" using assms unfolding tl_over_def by blast
  then have "block_over ix (tl_index_iter it)" by (simp_all add: tl_at_def)
  then obtain i where i: "Iterator_SeekToFirst (tl_index_iter it) = Some i" "block_pos ix i 0"
    using block.over_seek_to_first by blast
  from position [OF at i(2), of Iterator_SeekToFirst 0] block.over_seek_to_first
  show ?thesis
    using i(1) by (auto simp: TwoLevel_SeekToFirst_def es split: if_splits)
qed

lemma tl_pos_Next:
  assumes "tl_pos good reads es it i" "i < length es"
  shows "\<exists>it'. TwoLevel_Next bf call it = Some it' \<and> tl_pos good reads es it' (Suc i)"
proof -
  obtain ix B j where es: "es = concat B" "tl_at good reads ix B it" "block_pos ix (tl_index_iter it) j"
    and data: "case tl_data_iter it of
        None \<Rightarrow> j = length B \<and> i = length es
      | Some d \<Rightarrow> j < length B \<and> reads (tl_data_block_handle it) (B ! j) \<and>
          (\<exists>p < length (B ! j). block_pos (B ! j) (fst d) p \<and> i = length (concat (take j B)) + p)"
    using assms(1) unfolding tl_pos_def by blast
  with assms(2) obtain d p where d: "tl_data_iter it = Some d" "j < length B" "reads (tl_data_block_handle it) (B ! j)"
    "p < length (B ! j)" "block_pos (B ! j) (fst d) p" "i = length (concat (take j B)) + p"
    by (auto split: option.splits)
  obtain d' where d': "Iterator_Next (fst d) = Some d'" "block_pos (B ! j) d' (Suc p)"
    using block.pos_nxt [OF d(5,4)] by blast
  from Skip_at [OF tl_at_data [OF es(2) d(3) d'(2) d(1)], of j "(d', snd d)" "Suc p"] es d d' show ?thesis
    by (auto simp: TwoLevel_Next_def on_data_iter_def)
qed

lemma tl_pos_entry:
  assumes "tl_pos good reads es it i" "i < length es"
  shows "TwoLevel_Valid it \<and> TwoLevel_key it = Some (fst (es ! i)) \<and> TwoLevel_value it = Some (snd (es ! i))"
proof -
  obtain ix B j where es: "es = concat B"
    and data: "case tl_data_iter it of
        None \<Rightarrow> j = length B \<and> i = length es
      | Some d \<Rightarrow> j < length B \<and> reads (tl_data_block_handle it) (B ! j) \<and>
          (\<exists>p < length (B ! j). block_pos (B ! j) (fst d) p \<and> i = length (concat (take j B)) + p)"
    using assms(1) unfolding tl_pos_def by blast
  with assms(2) obtain d p where d: "tl_data_iter it = Some d" "j < length B"
    "p < length (B ! j)" "block_pos (B ! j) (fst d) p" "i = length (concat (take j B)) + p"
    by (auto split: option.splits)
  have "es ! i = B ! j ! p" unfolding es d(5) by (subst concat_split [OF d(2)]) (simp add: nth_append d(3))
  then show ?thesis
    using d(1,3) block.pos_valid [OF d(4)] block.pos_entry [OF d(4,3)]
    by (simp add: TwoLevel_Valid_def TwoLevel_key_def TwoLevel_value_def)
qed

lemma tl_pos_bounds:
  assumes "tl_pos good reads es it i"
  shows "i \<le> length es" "TwoLevel_Valid it \<longleftrightarrow> i < length es" "TwoLevel_status it = OkStatus"
proof -
  obtain ix B j where es: "es = concat B" "tl_at good reads ix B it" "block_pos ix (tl_index_iter it) j"
    and data: "case tl_data_iter it of
        None \<Rightarrow> j = length B \<and> i = length es
      | Some d \<Rightarrow> j < length B \<and> reads (tl_data_block_handle it) (B ! j) \<and>
          (\<exists>p < length (B ! j). block_pos (B ! j) (fst d) p \<and> i = length (concat (take j B)) + p)"
    using assms unfolding tl_pos_def by blast
  have less: "length (concat (take j B)) + p < length es" if "j < length B" "p < length (B ! j)" for p
    using arg_cong [OF concat_split [OF that(1)], of length] that(2) unfolding es(1) by simp
  show "i \<le> length es" using data less by (auto split: option.splits intro: less_imp_le)
  show "TwoLevel_Valid it \<longleftrightarrow> i < length es"
    using data less block.pos_valid by (auto simp: TwoLevel_Valid_def split: option.splits)
  show "TwoLevel_status it = OkStatus"
    using es(2) block.pos_status [OF es(3)] by (auto simp: TwoLevel_status_def tl_at_def split: option.split)
qed

lemma destroy_good: "tl_over good reads es it \<Longrightarrow> good (TwoLevel_destroy call it) []"
proof -
  assume "tl_over good reads es it"
  then obtain ix B where "tl_at good reads ix B it" by (auto simp: tl_over_def)
  from good_drop [OF this] show ?thesis
    by (auto simp: TwoLevel_destroy_def delete_iterator_def tl_held_def split: option.splits)
qed

end

sublocale block_function \<subseteq> table_iterator
  TwoLevel_Valid TwoLevel_key TwoLevel_value TwoLevel_status "TwoLevel_Next bf call" "TwoLevel_Seek bf call" "TwoLevel_SeekToFirst bf call"
  "tl_over good reads" "tl_pos good reads"
proof (unfold_locales, goal_cases)
  case (1 es it)
  then show ?case by (auto simp: tl_over_def tl_at_def)
next
  case (2 es it i)
  then show ?case using tl_pos_bounds(1) [OF 2] by (auto simp: tl_over_def tl_pos_def)
next
  case (3 es it i)
  then show ?case by (rule tl_pos_bounds)
next
  case (4 es it i)
  then show ?case using tl_pos_entry by blast
next
  case (5 es it i)
  then show ?case by (rule tl_pos_bounds)
next
  case (6 es it i)
  then show ?case by (rule tl_pos_Next)
next
  case (7 es it t)
  then show ?case by (rule tl_over_Seek)
next
  case (8 es it)
  then show ?case by (rule tl_over_SeekToFirst)
qed

end
