(* ===== verification/Lru_Cache.thy ===== *)
theory Lru_Cache
  imports Coding "HOL-Library.Multiset"
begin

text \<open>
  The block cache of \<open>tsl/lib/io/cache.cc\<close>: the chained hash table \<open>HandleTable\<close>, one shard
  \<open>LRUCache\<close> with reference counts and the two lists of entries, and \<open>ShardedLRUCache\<close>.

  An entry is a number (its address); \<open>lc_heap\<close> gives the fields of every entry ever
  allocated and \<open>lc_freed\<close> the entries passed to their deleter, in order.  A circular list is the
  list of its elements from the oldest (\<open>next\<close> of the dummy head) to the newest, a bucket the list
  along \<open>next_hash\<close>.  References are counted in 32 bits, charges, usage and capacity in 64 bits, and
  wrap around as in the code.  The number of entries of the hash table, also of 32 bits, is a natural
  number; the theorems assume fewer than \<open>2 ^ 31\<close> entries, beyond which \<open>Resize\<close> doubles the length to
  0 and does not end.  The mutex makes every method one atomic step.

  The specification is a map from keys to values together with the multiset of handles that
  clients hold.  Every sequence of client calls in which the counters do not wrap keeps the invariant
  \<open>lru_inv\<close>: the table refines the map, an entry is freed exactly when the cache and all clients have let
  it go, and the usage is the sum of the charges.  What happens when a counter wraps is stated at the
  end.
\<close>

section \<open>Entries\<close>

record 'v lru_handle =
  lh_value :: 'v
  lh_charge :: u64
  lh_key :: bytes
  lh_in_cache :: bool
  lh_refs :: u32
  lh_hash :: u32

type_synonym 'v lru_heap = "nat \<Rightarrow> 'v lru_handle"

section \<open>The hash table\<close>

record handle_table =
  ht_length :: nat
  ht_elems :: nat
  ht_list :: "nat list list"

definition bucket_of :: "nat \<Rightarrow> u32 \<Rightarrow> nat" where
  "bucket_of len hash = unat (hash AND (word_of_nat len - 1))"

definition handle_matches :: "'v lru_heap \<Rightarrow> bytes \<Rightarrow> u32 \<Rightarrow> nat \<Rightarrow> bool" where
  "handle_matches heap key hash e \<longleftrightarrow> lh_hash (heap e) = hash \<and> key = lh_key (heap e)"

text \<open>\<open>FindPointer\<close> walks a bucket to the slot of the matching entry or to the trailing slot; the
  three clients read, overwrite or unlink that slot.\<close>

fun slot_lookup :: "'v lru_heap \<Rightarrow> bytes \<Rightarrow> u32 \<Rightarrow> nat list \<Rightarrow> nat option" where
  "slot_lookup heap key hash [] = None"
| "slot_lookup heap key hash (e # es) =
     (if handle_matches heap key hash e then Some e else slot_lookup heap key hash es)"

fun slot_insert :: "'v lru_heap \<Rightarrow> bytes \<Rightarrow> u32 \<Rightarrow> nat \<Rightarrow> nat list \<Rightarrow> nat list" where
  "slot_insert heap key hash h [] = [h]"
| "slot_insert heap key hash h (e # es) =
     (if handle_matches heap key hash e then h # es else e # slot_insert heap key hash h es)"

fun slot_remove :: "'v lru_heap \<Rightarrow> bytes \<Rightarrow> u32 \<Rightarrow> nat list \<Rightarrow> nat list" where
  "slot_remove heap key hash [] = []"
| "slot_remove heap key hash (e # es) =
     (if handle_matches heap key hash e then es else e # slot_remove heap key hash es)"

function resize_length :: "nat \<Rightarrow> nat \<Rightarrow> nat" where
  "resize_length new_length elems =
     (if 0 < new_length \<and> new_length < elems then resize_length (new_length * 2) elems else new_length)"
  by pat_completeness auto
termination
  by (relation "measure (\<lambda>(n, elems). elems - n)") auto

declare resize_length.simps [simp del]

text \<open>Moving every entry of the old buckets to the front of its new bucket.\<close>

definition rehash :: "'v lru_heap \<Rightarrow> nat \<Rightarrow> nat list \<Rightarrow> nat list list \<Rightarrow> nat list list" where
  "rehash heap new_length es new_list =
     foldl (\<lambda>l e. let i = bucket_of new_length (lh_hash (heap e)) in l[i := e # l ! i]) new_list es"

definition HandleTable_Resize :: "'v lru_heap \<Rightarrow> handle_table \<Rightarrow> handle_table" where
  "HandleTable_Resize heap t =
     (let new_length = resize_length 4 (ht_elems t)
      in t\<lparr>ht_length := new_length,
           ht_list := rehash heap new_length (concat (ht_list t)) (replicate new_length [])\<rparr>)"

definition HandleTable :: handle_table where
  "HandleTable = \<lparr>ht_length = 4, ht_elems = 0, ht_list = replicate 4 []\<rparr>"

definition HandleTable_Lookup :: "'v lru_heap \<Rightarrow> handle_table \<Rightarrow> bytes \<Rightarrow> u32 \<Rightarrow> nat option" where
  "HandleTable_Lookup heap t key hash = slot_lookup heap key hash (ht_list t ! bucket_of (ht_length t) hash)"

definition HandleTable_Insert :: "'v lru_heap \<Rightarrow> handle_table \<Rightarrow> nat \<Rightarrow> nat option \<times> handle_table" where
  "HandleTable_Insert heap t h =
     (let key = lh_key (heap h); hash = lh_hash (heap h); i = bucket_of (ht_length t) hash;
          old = slot_lookup heap key hash (ht_list t ! i);
          t = t\<lparr>ht_list := (ht_list t)[i := slot_insert heap key hash h (ht_list t ! i)]\<rparr>
      in case old of
           Some _ \<Rightarrow> (old, t)
         | None \<Rightarrow>
             let t = t\<lparr>ht_elems := ht_elems t + 1\<rparr> in
             (old, if ht_elems t > ht_length t then HandleTable_Resize heap t else t))"

definition HandleTable_Remove :: "'v lru_heap \<Rightarrow> handle_table \<Rightarrow> bytes \<Rightarrow> u32 \<Rightarrow> nat option \<times> handle_table" where
  "HandleTable_Remove heap t key hash =
     (let i = bucket_of (ht_length t) hash;
          result = slot_lookup heap key hash (ht_list t ! i)
      in case result of
           None \<Rightarrow> (None, t)
         | Some e \<Rightarrow>
             (Some e, t\<lparr>ht_list := (ht_list t)[i := slot_remove heap key hash (ht_list t ! i)],
                        ht_elems := ht_elems t - 1\<rparr>))"

section \<open>One shard\<close>

record 'v lru_cache =
  lc_capacity :: u64
  lc_usage :: u64
  lc_lru :: "nat list"
  lc_in_use :: "nat list"
  lc_table :: handle_table
  lc_heap :: "'v lru_heap"
  lc_next :: nat
  lc_freed :: "nat list"

definition LRUCache :: "'v lru_heap \<Rightarrow> 'v lru_cache" where
  "LRUCache heap =
     \<lparr>lc_capacity = 0, lc_usage = 0, lc_lru = [], lc_in_use = [], lc_table = HandleTable, lc_heap = heap,
      lc_next = 0, lc_freed = []\<rparr>"

definition SetCapacity :: "u64 \<Rightarrow> 'v lru_cache \<Rightarrow> 'v lru_cache" where
  "SetCapacity capacity c = c\<lparr>lc_capacity := capacity\<rparr>"

definition LRU_Remove :: "nat \<Rightarrow> 'v lru_cache \<Rightarrow> 'v lru_cache" where
  "LRU_Remove e c = c\<lparr>lc_lru := remove1 e (lc_lru c), lc_in_use := remove1 e (lc_in_use c)\<rparr>"

definition set_refs :: "nat \<Rightarrow> u32 \<Rightarrow> 'v lru_cache \<Rightarrow> 'v lru_cache" where
  "set_refs e n c = c\<lparr>lc_heap := (lc_heap c)(e := (lc_heap c e)\<lparr>lh_refs := n\<rparr>)\<rparr>"

definition LRUCache_Ref :: "nat \<Rightarrow> 'v lru_cache \<Rightarrow> 'v lru_cache" where
  "LRUCache_Ref e c =
     (let c = (if lh_refs (lc_heap c e) = 1 \<and> lh_in_cache (lc_heap c e)
               then (let c = LRU_Remove e c in c\<lparr>lc_in_use := lc_in_use c @ [e]\<rparr>) else c)
      in set_refs e (lh_refs (lc_heap c e) + 1) c)"

definition LRUCache_Unref :: "nat \<Rightarrow> 'v lru_cache \<Rightarrow> 'v lru_cache" where
  "LRUCache_Unref e c =
     (let c = set_refs e (lh_refs (lc_heap c e) - 1) c in
      if lh_refs (lc_heap c e) = 0 then c\<lparr>lc_freed := lc_freed c @ [e]\<rparr>
      else if lh_in_cache (lc_heap c e) \<and> lh_refs (lc_heap c e) = 1
      then (let c = LRU_Remove e c in c\<lparr>lc_lru := lc_lru c @ [e]\<rparr>)
      else c)"

definition FinishErase :: "nat option \<Rightarrow> 'v lru_cache \<Rightarrow> bool \<times> 'v lru_cache" where
  "FinishErase x c =
     (case x of
        None \<Rightarrow> (False, c)
      | Some e \<Rightarrow>
          let c = LRU_Remove e c;
              c = c\<lparr>lc_heap := (lc_heap c)(e := (lc_heap c e)\<lparr>lh_in_cache := False\<rparr>),
                    lc_usage := lc_usage c - lh_charge (lc_heap c e)\<rparr>
          in (True, LRUCache_Unref e c))"

definition LRUCache_Lookup :: "bytes \<Rightarrow> u32 \<Rightarrow> 'v lru_cache \<Rightarrow> nat option \<times> 'v lru_cache" where
  "LRUCache_Lookup key hash c =
     (case HandleTable_Lookup (lc_heap c) (lc_table c) key hash of
        None \<Rightarrow> (None, c)
      | Some e \<Rightarrow> (Some e, LRUCache_Ref e c))"

definition LRUCache_Release :: "nat \<Rightarrow> 'v lru_cache \<Rightarrow> 'v lru_cache" where
  "LRUCache_Release handle c = LRUCache_Unref handle c"

text \<open>\<open>FinishErase(table_.Remove(key, hash))\<close>.\<close>

definition erase_key :: "bytes \<Rightarrow> u32 \<Rightarrow> 'v lru_cache \<Rightarrow> 'v lru_cache" where
  "erase_key key hash c =
     (let (x, t) = HandleTable_Remove (lc_heap c) (lc_table c) key hash
      in snd (FinishErase x (c\<lparr>lc_table := t\<rparr>)))"

definition LRUCache_Erase :: "bytes \<Rightarrow> u32 \<Rightarrow> 'v lru_cache \<Rightarrow> 'v lru_cache" where
  "LRUCache_Erase key hash c = erase_key key hash c"

text \<open>The eviction loops: while the limit is exceeded, respectively always, drop the oldest entry
  of the LRU list.\<close>

partial_function (option) evict_loop :: "('v lru_cache \<Rightarrow> bool) \<Rightarrow> 'v lru_cache \<Rightarrow> 'v lru_cache option" where
  "evict_loop excess c =
     (if excess c \<and> lc_lru c \<noteq> []
      then let old = hd (lc_lru c) in
           evict_loop excess (erase_key (lh_key (lc_heap c old)) (lh_hash (lc_heap c old)) c)
      else Some c)"

declare evict_loop.simps [code]

definition LRUCache_Insert ::
  "bytes \<Rightarrow> u32 \<Rightarrow> 'v \<Rightarrow> u64 \<Rightarrow> 'v lru_cache \<Rightarrow> (nat \<times> 'v lru_cache) option" where
  "LRUCache_Insert key hash val charge c =
     (let e = lc_next c;
          c = c\<lparr>lc_next := e + 1,
                lc_heap := (lc_heap c)(e := \<lparr>lh_value = val, lh_charge = charge, lh_key = key,
                  lh_in_cache = False, lh_refs = 1, lh_hash = hash\<rparr>)\<rparr>;
          c = (if lc_capacity c > 0 then
                 let c = c\<lparr>lc_heap := (lc_heap c)(e := (lc_heap c e)\<lparr>lh_refs := 2, lh_in_cache := True\<rparr>),
                           lc_in_use := lc_in_use c @ [e], lc_usage := lc_usage c + charge\<rparr>;
                     (old, t) = HandleTable_Insert (lc_heap c) (lc_table c) e
                 in snd (FinishErase old (c\<lparr>lc_table := t\<rparr>))
               else c)
      in map_option (Pair e) (evict_loop (\<lambda>c. lc_usage c > lc_capacity c) c))"

definition LRUCache_Prune :: "'v lru_cache \<Rightarrow> 'v lru_cache option" where
  "LRUCache_Prune c = evict_loop (\<lambda>c. True) c"

definition LRUCache_TotalCharge :: "'v lru_cache \<Rightarrow> u64" where
  "LRUCache_TotalCharge c = lc_usage c"

text \<open>The destructor drops the cache's reference to every entry of the LRU list.\<close>

definition LRUCache_destroy :: "'v lru_cache \<Rightarrow> 'v lru_cache" where
  "LRUCache_destroy c =
     fold (\<lambda>e c. LRUCache_Unref e (c\<lparr>lc_heap := (lc_heap c)(e := (lc_heap c e)\<lparr>lh_in_cache := False\<rparr>)\<rparr>))
       (lc_lru c) c"

section \<open>The sharded cache\<close>

definition kNumShardBits :: nat where "kNumShardBits = 4"
definition kNumShards :: nat where "kNumShards = 2 ^ kNumShardBits"

text \<open>The hash: four bytes at a time, then the rest with the fall-through of the \<open>switch\<close>.\<close>

fun Hash_loop :: "u32 \<Rightarrow> bytes \<Rightarrow> u32 \<times> bytes" where
  "Hash_loop h (a # b # c # d # data) =
     (let w = DecodeFixed32 [a, b, c, d];
          h = h + w; h = h * 0xc6a4a793; h = h XOR drop_bit 16 h
      in Hash_loop h data)"
| "Hash_loop h data = (h, data)"

definition Hash :: "bytes \<Rightarrow> u32 \<Rightarrow> u32" where
  "Hash data seed =
     (let m = 0xc6a4a793; r = 24;
          h = seed XOR (word_of_nat (length data) * m);
          (h, rest) = Hash_loop h data;
          h = (if length rest = 3 then h + push_bit 16 (ucast (rest ! 2)) else h);
          h = (if length rest \<ge> 2 then h + push_bit 8 (ucast (rest ! 1)) else h)
      in if length rest \<ge> 1
         then (let h = h + ucast (rest ! 0); h = h * m in h XOR drop_bit r h)
         else h)"

definition HashSlice :: "bytes \<Rightarrow> u32" where "HashSlice s = Hash s 0"

definition Shard :: "u32 \<Rightarrow> nat" where "Shard hash = unat (drop_bit (32 - kNumShardBits) hash)"

record 'v sharded_cache =
  sc_shard :: "'v lru_cache list"
  sc_last_id :: u64

text \<open>A handle of the sharded cache, a pointer to an entry, is the shard that allocated it and its number
  there.  \<open>Release\<close> finds the shard by the hash of the entry.\<close>

type_synonym cache_handle = "nat \<times> nat"

definition ShardedLRUCache :: "'v lru_heap \<Rightarrow> u64 \<Rightarrow> 'v sharded_cache" where
  "ShardedLRUCache heap capacity =
     (let per_shard = (capacity + (word_of_nat kNumShards - 1)) div word_of_nat kNumShards
      in \<lparr>sc_shard = replicate kNumShards (SetCapacity per_shard (LRUCache heap)), sc_last_id = 0\<rparr>)"

definition Cache_Insert :: "bytes \<Rightarrow> 'v \<Rightarrow> u64 \<Rightarrow> 'v sharded_cache \<Rightarrow> (cache_handle \<times> 'v sharded_cache) option" where
  "Cache_Insert key val charge sc =
     (let hash = HashSlice key; s = Shard hash in
      map_option (\<lambda>(e, c). ((s, e), sc\<lparr>sc_shard := (sc_shard sc)[s := c]\<rparr>))
        (LRUCache_Insert key hash val charge (sc_shard sc ! s)))"

definition Cache_Lookup :: "bytes \<Rightarrow> 'v sharded_cache \<Rightarrow> cache_handle option \<times> 'v sharded_cache" where
  "Cache_Lookup key sc =
     (let hash = HashSlice key; s = Shard hash;
          (x, c) = LRUCache_Lookup key hash (sc_shard sc ! s)
      in (map_option (Pair s) x, sc\<lparr>sc_shard := (sc_shard sc)[s := c]\<rparr>))"

definition Cache_Release :: "cache_handle \<Rightarrow> 'v sharded_cache \<Rightarrow> 'v sharded_cache" where
  "Cache_Release handle sc =
     (let (i, e) = handle;
          h = lc_heap (sc_shard sc ! i) e;
          s = Shard (lh_hash h)
      in sc\<lparr>sc_shard := (sc_shard sc)[s := LRUCache_Release e (sc_shard sc ! s)]\<rparr>)"

definition Cache_Erase :: "bytes \<Rightarrow> 'v sharded_cache \<Rightarrow> 'v sharded_cache" where
  "Cache_Erase key sc =
     (let hash = HashSlice key; s = Shard hash
      in sc\<lparr>sc_shard := (sc_shard sc)[s := LRUCache_Erase key hash (sc_shard sc ! s)]\<rparr>)"

definition Cache_Value :: "cache_handle \<Rightarrow> 'v sharded_cache \<Rightarrow> 'v" where
  "Cache_Value handle sc = (let (s, e) = handle in lh_value (lc_heap (sc_shard sc ! s) e))"

definition NewId :: "'v sharded_cache \<Rightarrow> u64 \<times> 'v sharded_cache" where
  "NewId sc = (sc_last_id sc + 1, sc\<lparr>sc_last_id := sc_last_id sc + 1\<rparr>)"

definition Cache_Prune :: "'v sharded_cache \<Rightarrow> 'v sharded_cache option" where
  "Cache_Prune sc = map_option (\<lambda>cs. sc\<lparr>sc_shard := cs\<rparr>) (those (map LRUCache_Prune (sc_shard sc)))"

definition TotalCharge :: "'v sharded_cache \<Rightarrow> u64" where
  "TotalCharge sc = sum_list (map LRUCache_TotalCharge (sc_shard sc))"

section \<open>The hash table finds what was put in\<close>

definition ht_entries :: "handle_table \<Rightarrow> nat list" where
  "ht_entries t = concat (ht_list t)"

text \<open>Every entry is in the bucket of its hash, no key is there twice, and the counters agree.\<close>

definition ht_ok :: "'v lru_heap \<Rightarrow> handle_table \<Rightarrow> bool" where
  "ht_ok heap t \<longleftrightarrow> (\<exists>j \<le> 31. ht_length t = 2 ^ j) \<and> length (ht_list t) = ht_length t \<and>
     ht_elems t = length (ht_entries t) \<and> distinct (ht_entries t) \<and>
     (\<forall>i < ht_length t. \<forall>e \<in> set (ht_list t ! i). bucket_of (ht_length t) (lh_hash (heap e)) = i) \<and>
     (\<forall>e \<in> set (ht_entries t). \<forall>e' \<in> set (ht_entries t).
        lh_key (heap e) = lh_key (heap e') \<longrightarrow> lh_hash (heap e) = lh_hash (heap e') \<longrightarrow> e = e')"

lemma bucket_of_less: "j \<le> 31 \<Longrightarrow> bucket_of (2 ^ j) hash < 2 ^ j"
proof -
  assume "j \<le> 31"
  have "(word_of_nat (2 ^ j) - 1 :: u32) = mask j" by (simp add: mask_eq_exp_minus_1)
  then have "hash AND (word_of_nat (2 ^ j) - 1) = take_bit j hash" by (simp only: take_bit_eq_mask)
  then show ?thesis unfolding bucket_of_def by (simp only: unat_take_bit_less)
qed

lemma ht_ok_bucket: "ht_ok heap t \<Longrightarrow> bucket_of (ht_length t) hash < length (ht_list t)"
  using bucket_of_less by (auto simp: ht_ok_def)

lemma slot_lookup_Some: "slot_lookup heap key hash es = Some e \<Longrightarrow> e \<in> set es \<and> handle_matches heap key hash e"
  by (induction es) (auto split: if_splits)

lemma slot_lookup_None: "slot_lookup heap key hash es = None \<longleftrightarrow> (\<forall>e \<in> set es. \<not> handle_matches heap key hash e)"
  by (induction es) auto

lemma mset_slot_insert:
  "slot_lookup heap key hash es = None \<Longrightarrow> mset (slot_insert heap key hash h es) = add_mset h (mset es)"
  "slot_lookup heap key hash es = Some e \<Longrightarrow> mset (slot_insert heap key hash h es) = add_mset h (mset es - {#e#})"
proof (induction es)
  case (Cons x es)
  { case 1 with Cons show ?case by (auto split: if_splits) }
  { case 2
    show ?case
    proof (cases "handle_matches heap key hash x")
      case False
      with 2 have "slot_lookup heap key hash es = Some e" by simp
      moreover from this have "e \<in># mset es" by (auto dest: slot_lookup_Some)
      ultimately show ?thesis using False Cons.IH(2) by simp
    qed (use 2 in auto) }
qed simp_all

lemma mset_slot_remove:
  "slot_lookup heap key hash es = Some e \<Longrightarrow> mset (slot_remove heap key hash es) = mset es - {#e#}"
proof (induction es)
  case (Cons x es)
  show ?case
  proof (cases "handle_matches heap key hash x")
    case False
    with Cons.prems have *: "slot_lookup heap key hash es = Some e" by simp
    then have "e \<in># mset es" by (auto dest: slot_lookup_Some)
    with * False Cons.IH show ?thesis by simp
  qed (use Cons.prems in auto)
qed simp

lemma mset_concat_update:
  assumes "i < length l"
  shows "mset (concat (l[i := b])) + mset (l ! i) = mset (concat l) + mset b"
proof -
  have "l = take i l @ l ! i # drop (Suc i) l" using assms by (rule id_take_nth_drop)
  then have "mset (concat l) = mset (concat (take i l)) + mset (l ! i) + mset (concat (drop (Suc i) l))"
    by (metis concat.simps(2) concat_append mset_append union_assoc)
  moreover have "mset (concat (l[i := b])) = mset (concat (take i l)) + mset b + mset (concat (drop (Suc i) l))"
    using assms by (simp add: upd_conv_take_nth_drop)
  ultimately show ?thesis by simp
qed

lemma in_bucket: "i < length l \<Longrightarrow> e \<in> set (l ! i) \<Longrightarrow> e \<in> set (concat l)"
  by auto

lemma ht_ok_Lookup:
  assumes "ht_ok heap t"
  shows "HandleTable_Lookup heap t key hash = Some e \<longleftrightarrow> e \<in> set (ht_entries t) \<and> handle_matches heap key hash e"
    and "HandleTable_Lookup heap t key hash = None \<longleftrightarrow> (\<forall>e \<in> set (ht_entries t). \<not> handle_matches heap key hash e)"
proof -
  let ?i = "bucket_of (ht_length t) hash"
  have i: "?i < length (ht_list t)" using ht_ok_bucket [OF assms] .
  have bucket: "e \<in> set (ht_list t ! ?i)" if "e \<in> set (ht_entries t)" "handle_matches heap key hash e" for e
  proof -
    from that(1) obtain b where "b \<in> set (ht_list t)" "e \<in> set b" by (auto simp: ht_entries_def)
    then obtain k where k: "k < length (ht_list t)" "e \<in> set (ht_list t ! k)" by (metis in_set_conv_nth)
    then have "bucket_of (ht_length t) (lh_hash (heap e)) = k" using assms by (auto simp: ht_ok_def)
    with k(2) that(2) show ?thesis by (simp add: handle_matches_def)
  qed
  have uniq: "e = e'" if "e \<in> set (ht_entries t)" "e' \<in> set (ht_entries t)"
    "handle_matches heap key hash e" "handle_matches heap key hash e'" for e e'
    using assms that unfolding ht_ok_def handle_matches_def by metis
  show none: "HandleTable_Lookup heap t key hash = None \<longleftrightarrow> (\<forall>e \<in> set (ht_entries t). \<not> handle_matches heap key hash e)"
    unfolding HandleTable_Lookup_def slot_lookup_None
    using bucket in_bucket [OF i] unfolding ht_entries_def by blast
  show "HandleTable_Lookup heap t key hash = Some e \<longleftrightarrow> e \<in> set (ht_entries t) \<and> handle_matches heap key hash e"
  proof
    assume "HandleTable_Lookup heap t key hash = Some e"
    then show "e \<in> set (ht_entries t) \<and> handle_matches heap key hash e"
      unfolding HandleTable_Lookup_def ht_entries_def using slot_lookup_Some in_bucket [OF i] by blast
  next
    assume e: "e \<in> set (ht_entries t) \<and> handle_matches heap key hash e"
    then obtain e' where e': "HandleTable_Lookup heap t key hash = Some e'" using none by fastforce
    then have "e' \<in> set (ht_entries t) \<and> handle_matches heap key hash e'"
      unfolding HandleTable_Lookup_def ht_entries_def using slot_lookup_Some in_bucket [OF i] by blast
    with e uniq e' show "HandleTable_Lookup heap t key hash = Some e" by blast
  qed
qed

text \<open>Resizing keeps the entries and puts them in their new buckets.\<close>

lemma resize_length_pow:
  assumes "k \<le> 31" "elems \<le> 2 ^ 31"
  shows "\<exists>j \<le> 31. resize_length (2 ^ k) elems = 2 ^ j \<and> elems \<le> 2 ^ j"
  using assms(1)
proof (induction "31 - k" arbitrary: k)
  case 0
  then have "k = 31" by simp
  then show ?case using assms(2) by (subst resize_length.simps) auto
next
  case (Suc n)
  show ?case
  proof (cases "2 ^ k < elems")
    case True
    have "resize_length (2 ^ k) elems = resize_length (2 ^ Suc k) elems"
      using True by (subst resize_length.simps) (simp add: mult.commute)
    moreover have "\<exists>j \<le> 31. resize_length (2 ^ Suc k) elems = 2 ^ j \<and> elems \<le> 2 ^ j"
      using Suc.hyps(2) by (intro Suc.hyps(1)) simp_all
    ultimately show ?thesis by metis
  next
    case False
    then show ?thesis using Suc.prems by (intro exI [of _ k]) (simp add: resize_length.simps [of "2 ^ k"])
  qed
qed

lemma rehash_entries:
  assumes "\<And>e. bucket_of n (lh_hash (heap e)) < n" "length l = n"
  shows "mset (concat (rehash heap n es l)) = mset es + mset (concat l) \<and> length (rehash heap n es l) = n"
  using assms(2)
proof (induction es arbitrary: l)
  case (Cons e es)
  let ?i = "bucket_of n (lh_hash (heap e))"
  let ?l = "l[?i := e # l ! ?i]"
  have "rehash heap n (e # es) l = rehash heap n es ?l" by (simp add: rehash_def Let_def)
  moreover have "mset (concat ?l) = add_mset e (mset (concat l))"
    using mset_concat_update [of ?i l "e # l ! ?i"] assms(1) [of e] Cons.prems by simp
  ultimately show ?case using Cons.IH [of ?l] Cons.prems by simp
qed (simp add: rehash_def)

lemma rehash_buckets:
  assumes "\<And>i e. i < n \<Longrightarrow> e \<in> set (l ! i) \<Longrightarrow> bucket_of n (lh_hash (heap e)) = i" "length l = n"
    and "i < n" "e \<in> set (rehash heap n es l ! i)"
  shows "bucket_of n (lh_hash (heap e)) = i"
  using assms
proof (induction es arbitrary: l)
  case (Cons x es)
  let ?l = "l[bucket_of n (lh_hash (heap x)) := x # l ! bucket_of n (lh_hash (heap x))]"
  have eq: "rehash heap n (x # es) l = rehash heap n es ?l" by (simp add: rehash_def Let_def)
  have l: "bucket_of n (lh_hash (heap e)) = i" if "i < n" "e \<in> set (?l ! i)" for i e
  proof (cases "i = bucket_of n (lh_hash (heap x))")
    case True
    then have "e = x \<or> e \<in> set (l ! i)" using that Cons.prems(2) by simp
    then show ?thesis using True Cons.prems(1) [OF that(1)] by blast
  next
    case False
    then have "e \<in> set (l ! i)" using that(2) by simp
    then show ?thesis by (rule Cons.prems(1) [OF that(1)])
  qed
  show ?case
    by (rule Cons.IH [of ?l, OF l]) (use Cons.prems(2-4) eq in simp_all)
qed (simp add: rehash_def)

lemma ht_ok_HandleTable: "ht_ok heap HandleTable"
  unfolding ht_ok_def HandleTable_def ht_entries_def
  by (auto simp: nth_append intro!: exI [of _ 2])

lemma distinct_mset_eq: "mset xs = mset ys \<Longrightarrow> distinct xs \<Longrightarrow> distinct ys"
  by (metis distinct_count_atmost_1 set_mset_mset)

lemma ht_ok_Resize:
  assumes "ht_ok heap t" "ht_elems t \<le> 2 ^ 31"
  shows "ht_ok heap (HandleTable_Resize heap t)"
    and "mset (ht_entries (HandleTable_Resize heap t)) = mset (ht_entries t)"
proof -
  obtain j where j: "j \<le> 31" "resize_length 4 (ht_elems t) = 2 ^ j"
    using resize_length_pow [of 2 "ht_elems t"] assms(2) by auto
  let ?n = "2 ^ j :: nat"
  let ?l = "rehash heap ?n (concat (ht_list t)) (replicate ?n [])"
  have res: "HandleTable_Resize heap t = t\<lparr>ht_length := ?n, ht_list := ?l\<rparr>"
    by (simp add: HandleTable_Resize_def j(2) Let_def)
  have e: "mset (concat ?l) = mset (ht_entries t) \<and> length ?l = ?n"
    using rehash_entries [of ?n heap "replicate ?n []" "concat (ht_list t)"] bucket_of_less [OF j(1)]
    by (simp add: ht_entries_def)
  have b: "bucket_of ?n (lh_hash (heap e)) = i" if "i < ?n" "e \<in> set (?l ! i)" for i e
    using rehash_buckets [of ?n "replicate ?n []" heap i e] that by simp
  show m: "mset (ht_entries (HandleTable_Resize heap t)) = mset (ht_entries t)"
    using e by (simp add: res ht_entries_def)
  have "set (ht_entries (HandleTable_Resize heap t)) = set (ht_entries t)"
    "length (ht_entries (HandleTable_Resize heap t)) = length (ht_entries t)"
    using m mset_eq_setD mset_eq_length by blast+
  then show "ht_ok heap (HandleTable_Resize heap t)"
    using assms(1) e b j(1) distinct_mset_eq [OF m [symmetric]]
    by (auto simp: ht_ok_def res)
qed

text \<open>Replacing the contents of one bucket.\<close>

lemma ht_ok_update:
  assumes "ht_ok heap t" "i = bucket_of (ht_length t) hash" "t' = t\<lparr>ht_list := (ht_list t)[i := b], ht_elems := n\<rparr>"
    and "mset (ht_entries t') = M" "size M = n" "\<And>e. count M e \<le> 1"
    and "\<And>e. e \<in> set b \<Longrightarrow> e \<in> set (ht_list t ! i) \<or> lh_hash (heap e) = hash"
    and "\<And>e e'. e \<in># M \<Longrightarrow> e' \<in># M \<Longrightarrow> lh_key (heap e) = lh_key (heap e') \<Longrightarrow> lh_hash (heap e) = lh_hash (heap e') \<Longrightarrow> e = e'"
  shows "ht_ok heap t'"
proof -
  have i: "i < length (ht_list t)" using ht_ok_bucket [OF assms(1)] by (simp add: assms(2))
  have len: "length (ht_list t) = ht_length t" using assms(1) by (simp add: ht_ok_def)
  have set: "set (ht_entries t') = set_mset M" using assms(4) by auto
  have "distinct (ht_entries t')"
    using assms(4,6) by (metis distinct_count_atmost_1 count_eq_zero_iff le_antisym less_one not_less set set_mset_mset)
  moreover have "length (ht_entries t') = n" using assms(4,5) by (metis size_mset)
  moreover have "bucket_of (ht_length t) (lh_hash (heap e)) = k"
    if "k < ht_length t" "e \<in> set ((ht_list t)[i := b] ! k)" for k e
  proof (cases "k = i")
    case True
    then have "e \<in> set b" using that(2) i by simp
    then show ?thesis
      using assms(1,2,7) that(1) True by (auto simp: ht_ok_def)
  next
    case False
    then show ?thesis using assms(1) that by (auto simp: ht_ok_def)
  qed
  ultimately show ?thesis
    using assms(1,8) len unfolding ht_ok_def by (simp add: assms(3) set [unfolded assms(3)])
qed

lemma ht_ok_Remove:
  assumes "ht_ok heap t" "HandleTable_Lookup heap t key hash = Some e"
  obtains t' where "HandleTable_Remove heap t key hash = (Some e, t')" "ht_ok heap t'"
    "mset (ht_entries t') = mset (ht_entries t) - {#e#}"
proof -
  let ?i = "bucket_of (ht_length t) hash"
  let ?b = "slot_remove heap key hash (ht_list t ! ?i)"
  let ?t = "t\<lparr>ht_list := (ht_list t)[?i := ?b], ht_elems := ht_elems t - 1\<rparr>"
  have i: "?i < length (ht_list t)" using ht_ok_bucket [OF assms(1)] .
  have lk: "slot_lookup heap key hash (ht_list t ! ?i) = Some e" using assms(2) by (simp add: HandleTable_Lookup_def)
  then have mem: "e \<in># mset (ht_list t ! ?i)" by (auto dest: slot_lookup_Some)
  then have mem': "e \<in># mset (ht_entries t)" using in_bucket [OF i] by (simp add: ht_entries_def)
  have "mset (ht_entries ?t) + mset (ht_list t ! ?i) = mset (ht_entries t) + (mset (ht_list t ! ?i) - {#e#})"
    using mset_concat_update [OF i, of ?b] by (simp add: ht_entries_def mset_slot_remove [OF lk])
  also have "\<dots> = (mset (ht_entries t) - {#e#}) + mset (ht_list t ! ?i)"
    using mem mem' by (metis add_mset_remove_trivial_eq insert_DiffM union_mset_add_mset_left union_mset_add_mset_right)
  finally have m: "mset (ht_entries ?t) = mset (ht_entries t) - {#e#}" by simp
  have dist: "distinct (ht_entries t)" using assms(1) by (simp add: ht_ok_def)
  have "ht_ok heap ?t"
  proof (rule ht_ok_update [OF assms(1) refl refl m])
    show "size (mset (ht_entries t) - {#e#}) = ht_elems t - 1"
      using assms(1) mem' by (simp add: ht_ok_def size_Diff_singleton)
    show "count (mset (ht_entries t) - {#e#}) x \<le> 1" for x
      using dist by (simp add: distinct_count_atmost_1 count_mset_0_iff)
    have "set ?b \<subseteq> set (ht_list t ! ?i)"
      using mset_slot_remove [OF lk] by (metis diff_subset_eq_self set_mset_mono set_mset_mset)
    then show "x \<in> set (ht_list t ! ?i) \<or> lh_hash (heap x) = hash" if "x \<in> set ?b" for x using that by blast
    show "x = y" if "x \<in># mset (ht_entries t) - {#e#}" "y \<in># mset (ht_entries t) - {#e#}"
      "lh_key (heap x) = lh_key (heap y)" "lh_hash (heap x) = lh_hash (heap y)" for x y
    proof -
      have "x \<in> set (ht_entries t)" "y \<in> set (ht_entries t)" using that(1,2) by (auto dest: in_diffD)
      then show ?thesis using assms(1) that(3,4) unfolding ht_ok_def by blast
    qed
  qed
  then show ?thesis
    using that [of ?t] m lk by (simp add: HandleTable_Remove_def Let_def)
qed

lemma ht_ok_Insert:
  assumes "ht_ok heap t" "h \<notin> set (ht_entries t)" "ht_elems t < 2 ^ 31"
    and "old = HandleTable_Lookup heap t (lh_key (heap h)) (lh_hash (heap h))"
  obtains t' where "HandleTable_Insert heap t h = (old, t')" "ht_ok heap t'"
    "set (ht_entries t') = insert h (set (ht_entries t) - set_option old)"
proof -
  let ?key = "lh_key (heap h)" and ?hash = "lh_hash (heap h)"
  let ?i = "bucket_of (ht_length t) ?hash"
  let ?b = "slot_insert heap ?key ?hash h (ht_list t ! ?i)"
  let ?t = "\<lambda>n. t\<lparr>ht_list := (ht_list t)[?i := ?b], ht_elems := n\<rparr>"
  have i: "?i < length (ht_list t)" using ht_ok_bucket [OF assms(1)] .
  have dist: "distinct (ht_entries t)" using assms(1) by (simp add: ht_ok_def)
  define O' where "O' = mset_set (set_option old)"
  have sub: "O' \<subseteq># mset (ht_list t ! ?i)" "O' \<subseteq># mset (ht_entries t)"
    and ins: "mset ?b = add_mset h (mset (ht_list t ! ?i) - O')"
  proof -
    have lk: "slot_lookup heap ?key ?hash (ht_list t ! ?i) = old" by (simp add: assms(4) HandleTable_Lookup_def)
    show "O' \<subseteq># mset (ht_list t ! ?i)" using slot_lookup_Some [of heap ?key ?hash "ht_list t ! ?i"] lk
      by (cases old) (auto simp: O'_def)
    show "O' \<subseteq># mset (ht_entries t)"
    proof (cases old)
      case (Some e)
      then have "e \<in> set (ht_entries t)" using ht_ok_Lookup(1) [OF assms(1), of ?key ?hash e] assms(4) by simp
      then show ?thesis by (simp add: O'_def Some)
    qed (simp add: O'_def)
    show "mset ?b = add_mset h (mset (ht_list t ! ?i) - O')"
      using mset_slot_insert [of heap ?key ?hash "ht_list t ! ?i"] lk by (cases old) (auto simp: O'_def)
  qed
  let ?M = "add_mset h (mset (ht_entries t) - O')"
  have m: "mset (ht_entries (?t n)) = ?M" for n
  proof -
    have "mset (ht_entries (?t n)) + mset (ht_list t ! ?i) = mset (ht_entries t) + mset ?b"
      using mset_concat_update [OF i, of ?b] by (simp add: ht_entries_def)
    also have "\<dots> = ?M + mset (ht_list t ! ?i)"
      unfolding ins using sub by (simp add: subset_mset.add_diff_assoc2 add.commute)
    finally show ?thesis by simp
  qed
  have set: "set_mset ?M = insert h (set (ht_entries t) - set_option old)"
  proof -
    have "set_mset (mset (ht_entries t) - O') = set (ht_entries t) - set_option old"
    proof (cases old)
      case (Some e)
      then have "mset (ht_entries t) - O' = mset (remove1 e (ht_entries t))" by (simp add: O'_def)
      then have "set_mset (mset (ht_entries t) - O') = set (remove1 e (ht_entries t))" by (simp only: set_mset_mset)
      then show ?thesis unfolding set_remove1_eq [OF dist] Some by simp
    qed (simp add: O'_def)
    then show ?thesis by simp
  qed
  have cnt: "count ?M x \<le> 1" for x
    using dist assms(2) by (auto simp: distinct_count_atmost_1 not_in_iff [symmetric])
  have uniq: "x = y" if "x \<in># ?M" "y \<in># ?M" "lh_key (heap x) = lh_key (heap y)" "lh_hash (heap x) = lh_hash (heap y)" for x y
  proof -
    have nomatch: "z = h" if "z \<in># ?M" "lh_key (heap z) = ?key" "lh_hash (heap z) = ?hash" for z
    proof (rule ccontr)
      assume "z \<noteq> h"
      then have z: "z \<in> set (ht_entries t)" "z \<notin> set_option old" using that(1) unfolding set by auto
      then have "HandleTable_Lookup heap t ?key ?hash = Some z"
        using ht_ok_Lookup(1) [OF assms(1)] that(2,3) by (simp add: handle_matches_def)
      with z(2) assms(4) show False by simp
    qed
    show ?thesis
    proof (cases "x = h \<or> y = h")
      case True
      then show ?thesis using nomatch [OF that(1)] nomatch [OF that(2)] that(3,4) by auto
    next
      case False
      then have "x \<in> set (ht_entries t)" "y \<in> set (ht_entries t)" using that(1,2) unfolding set by auto
      then show ?thesis using assms(1) that(3,4) unfolding ht_ok_def by blast
    qed
  qed
  have bs: "x \<in> set (ht_list t ! ?i) \<or> lh_hash (heap x) = ?hash" if "x \<in> set ?b" for x
  proof -
    have "x \<in># add_mset h (mset (ht_list t ! ?i) - O')" using that ins by (metis set_mset_mset)
    then show ?thesis by (auto dest: in_diffD)
  qed
  have ok: "ht_ok heap (?t n)" if "size ?M = n" for n
    by (rule ht_ok_update [OF assms(1) refl refl m that cnt bs uniq])
  show ?thesis
  proof (cases old)
    case (Some e)
    have "size ?M = ht_elems t"
      using assms(1) sub(2) Some by (auto simp: ht_ok_def O'_def size_Diff_singleton) (metis Suc_pred length_pos_if_in_set)
    then have "ht_ok heap (?t (ht_elems t))" by (rule ok)
    moreover have "HandleTable_Insert heap t h = (old, ?t (ht_elems t))"
      using Some assms(4) by (simp add: HandleTable_Insert_def HandleTable_Lookup_def Let_def)
    moreover have "set (ht_entries (?t (ht_elems t))) = insert h (set (ht_entries t) - set_option old)"
      using m set by (metis set_mset_mset)
    ultimately show ?thesis using that by blast
  next
    case None
    let ?t1 = "?t (ht_elems t + 1)"
    have "size ?M = ht_elems t + 1" using assms(1) None by (simp add: ht_ok_def O'_def)
    then have ok1: "ht_ok heap ?t1" by (rule ok)
    have s1: "set (ht_entries ?t1) = insert h (set (ht_entries t) - set_option old)"
      using m set by (metis set_mset_mset)
    let ?t2 = "if ht_elems t + 1 > ht_length t then HandleTable_Resize heap ?t1 else ?t1"
    have "HandleTable_Insert heap t h = (old, ?t2)"
      using None assms(4) by (simp add: HandleTable_Insert_def HandleTable_Lookup_def Let_def)
    moreover have "ht_ok heap ?t2" "set (ht_entries ?t2) = set (ht_entries ?t1)"
      using ht_ok_Resize [OF ok1] ok1 assms(3) by (auto dest: mset_eq_setD)
    ultimately show ?thesis using that s1 by simp
  qed
qed

section \<open>The invariant of a shard\<close>

text \<open>\<open>out e\<close> is the number of handles of \<open>e\<close> that clients hold, \<open>T\<close> the entries in the cache.\<close>

definition core_inv :: "'v lru_cache \<Rightarrow> (nat \<Rightarrow> nat) \<Rightarrow> nat set \<Rightarrow> bool" where
  "core_inv c out T \<longleftrightarrow> finite T \<and> (\<forall>e \<in> T. e < lc_next c) \<and> (\<forall>e \<ge> lc_next c. out e = 0) \<and>
     distinct (lc_lru c) \<and> distinct (lc_in_use c) \<and>
     set (lc_lru c) = {e \<in> T. out e = 0} \<and> set (lc_in_use c) = {e \<in> T. out e > 0} \<and>
     (\<forall>e < lc_next c. lh_in_cache (lc_heap c e) = (e \<in> T) \<and> unat (lh_refs (lc_heap c e)) = (if e \<in> T then 1 else 0) + out e) \<and>
     distinct (lc_freed c) \<and> set (lc_freed c) = {e. e < lc_next c \<and> e \<notin> T \<and> out e = 0} \<and>
     unat (lc_usage c) = (\<Sum>e \<in> T. unat (lh_charge (lc_heap c e)))"

definition lru_inv :: "'v lru_cache \<Rightarrow> (nat \<Rightarrow> nat) \<Rightarrow> bool" where
  "lru_inv c out \<longleftrightarrow> ht_ok (lc_heap c) (lc_table c) \<and> core_inv c out (set (ht_entries (lc_table c))) \<and>
     (lc_capacity c = 0 \<longrightarrow> ht_entries (lc_table c) = [])"

text \<open>The map the shard implements.\<close>

definition lru_map :: "'v lru_cache \<Rightarrow> bytes \<Rightarrow> u32 \<Rightarrow> 'v option" where
  "lru_map c key hash = map_option (\<lambda>e. lh_value (lc_heap c e)) (HandleTable_Lookup (lc_heap c) (lc_table c) key hash)"

text \<open>The table only reads keys and hashes.\<close>

definition same_keys :: "'v lru_heap \<Rightarrow> 'v lru_heap \<Rightarrow> bool" where
  "same_keys h h' \<longleftrightarrow> (\<forall>e. lh_key (h e) = lh_key (h' e) \<and> lh_hash (h e) = lh_hash (h' e) \<and>
     lh_value (h e) = lh_value (h' e) \<and> lh_charge (h e) = lh_charge (h' e))"

lemma same_keys_refl [simp]: "same_keys h h"
  by (simp add: same_keys_def)

lemma same_keys_upd [simp]:
  "same_keys h (h(e := h e\<lparr>lh_refs := n\<rparr>))" "same_keys h (h(e := h e\<lparr>lh_in_cache := b\<rparr>))"
  by (simp_all add: same_keys_def)

lemma same_keys_trans: "same_keys a b \<Longrightarrow> same_keys b c \<Longrightarrow> same_keys a c"
  by (simp add: same_keys_def)

lemma ht_ok_same_keys: "same_keys h h' \<Longrightarrow> ht_ok h t = ht_ok h' t"
  unfolding ht_ok_def same_keys_def by simp

lemma Lookup_same_keys:
  assumes "same_keys h h'"
  shows "HandleTable_Lookup h t key hash = HandleTable_Lookup h' t key hash"
proof -
  have "slot_lookup h key hash es = slot_lookup h' key hash es" for es
    using assms by (induction es) (simp_all add: handle_matches_def same_keys_def)
  then show ?thesis by (simp add: HandleTable_Lookup_def)
qed

lemma unat_suc: "unat (x :: 'a :: len word) + 1 < 2 ^ LENGTH('a) \<Longrightarrow> unat (x + 1) = unat x + 1"
  by (simp add: unat_word_ariths)

lemma unat_sum: "unat (x :: 'a :: len word) + unat y < 2 ^ LENGTH('a) \<Longrightarrow> unat (x + y) = unat x + unat y"
  by (simp add: unat_word_ariths)

lemma unat_pred: "0 < unat (x :: 'a :: len word) \<Longrightarrow> unat (x - 1) = unat x - 1"
  by (metis unat_minus_one less_irrefl unat_0)

lemma refs_eq: "unat (x :: u32) = n \<Longrightarrow> x = 1 \<longleftrightarrow> n = 1" "unat (x :: u32) = n \<Longrightarrow> x = 0 \<longleftrightarrow> n = 0"
  by (auto simp: word_unat_eq_iff unat_eq_0)

lemma core_inv_Ref:
  assumes "core_inv c out T" "e \<in> T" "out e + 2 < 2 ^ 32"
  shows "core_inv (LRUCache_Ref e c) (out(e := out e + 1)) T"
    and "lc_table (LRUCache_Ref e c) = lc_table c" "same_keys (lc_heap c) (lc_heap (LRUCache_Ref e c))"
    "lc_capacity (LRUCache_Ref e c) = lc_capacity c" "lc_next (LRUCache_Ref e c) = lc_next c"
proof -
  have r: "unat (lh_refs (lc_heap c e)) = 1 + out e" "lh_in_cache (lc_heap c e)" "e < lc_next c"
    using assms by (auto simp: core_inv_def)
  define n where "n = lh_refs (lc_heap c e) + 1"
  have n: "unat n = out e + 2" using r(1) assms(3) unat_suc [of "lh_refs (lc_heap c e)"] by (simp add: n_def)
  show "core_inv (LRUCache_Ref e c) (out(e := out e + 1)) T"
  proof (cases "out e = 0")
    case True
    then have "e \<notin> set (lc_in_use c)" using assms by (simp add: core_inv_def)
    then have "LRUCache_Ref e c = set_refs e n (c\<lparr>lc_lru := remove1 e (lc_lru c), lc_in_use := lc_in_use c @ [e]\<rparr>)"
      using r(2) refs_eq(1) [OF r(1)] True by (simp add: LRUCache_Ref_def LRU_Remove_def Let_def remove1_idem n_def)
    then show ?thesis
      using assms(1,2) r n True \<open>e \<notin> set (lc_in_use c)\<close>
      by (auto simp: core_inv_def set_refs_def intro!: sum.cong)
  next
    case False
    then have "LRUCache_Ref e c = set_refs e n c"
      using refs_eq(1) [OF r(1)] by (simp add: LRUCache_Ref_def Let_def n_def)
    then show ?thesis using assms(1,2) r n False by (auto simp: core_inv_def set_refs_def intro!: sum.cong)
  qed
qed (simp_all add: LRUCache_Ref_def LRU_Remove_def set_refs_def Let_def)

text \<open>\<open>Unref\<close> drops a reference of a client.\<close>

lemma core_inv_Unref:
  assumes "core_inv c out T" "out e > 0"
  shows "core_inv (LRUCache_Unref e c) (out(e := out e - 1)) T"
    and "lc_table (LRUCache_Unref e c) = lc_table c" "same_keys (lc_heap c) (lc_heap (LRUCache_Unref e c))"
    "lc_capacity (LRUCache_Unref e c) = lc_capacity c" "lc_next (LRUCache_Unref e c) = lc_next c"
proof -
  have e: "e < lc_next c" using assms by (auto simp: core_inv_def)
  define n where "n = lh_refs (lc_heap c e) - 1"
  have refs: "unat (lh_refs (lc_heap c e)) = (if e \<in> T then 1 else 0) + out e" using assms e by (simp add: core_inv_def)
  then have n: "unat n = (if e \<in> T then 1 else 0) + out e - 1" using assms(2) unat_pred [of "lh_refs (lc_heap c e)"] by (simp add: n_def)
  note cmp = refs_eq [OF n]
  show "core_inv (LRUCache_Unref e c) (out(e := out e - 1)) T"
  proof (cases "e \<in> T")
    case True
    then have r: "lh_in_cache (lc_heap c e)" "e \<notin> set (lc_lru c)" using assms e by (auto simp: core_inv_def)
    show ?thesis
    proof (cases "out e = 1")
      case one: True
      then have "LRUCache_Unref e c = set_refs e n (c\<lparr>lc_lru := lc_lru c @ [e], lc_in_use := remove1 e (lc_in_use c)\<rparr>)"
        using r cmp True by (simp add: LRUCache_Unref_def LRU_Remove_def Let_def remove1_idem set_refs_def flip: n_def)
      then show ?thesis
        using assms r n one True by (auto simp: core_inv_def set_refs_def intro!: sum.cong)
    next
      case False
      then have "LRUCache_Unref e c = set_refs e n c"
        using r cmp True assms(2) by (simp add: LRUCache_Unref_def Let_def set_refs_def flip: n_def)
      then show ?thesis using assms r n False True by (auto simp: core_inv_def set_refs_def intro!: sum.cong)
    qed
  next
    case False
    then have r: "\<not> lh_in_cache (lc_heap c e)" "e \<notin> set (lc_freed c)" using assms e by (auto simp: core_inv_def)
    have "LRUCache_Unref e c = (set_refs e n c)\<lparr>lc_freed := lc_freed c @ (if out e = 1 then [e] else [])\<rparr>"
      using r cmp False assms(2) by (auto simp: LRUCache_Unref_def Let_def set_refs_def simp flip: n_def)
    then show ?thesis using assms r n False e by (auto simp: core_inv_def set_refs_def intro!: sum.cong)
  qed
qed (simp_all add: LRUCache_Unref_def LRU_Remove_def set_refs_def Let_def)

text \<open>\<open>FinishErase\<close> drops the cache's own reference.\<close>

lemma core_inv_FinishErase:
  assumes "core_inv c out T" "e \<in> T"
  defines "c' \<equiv> snd (FinishErase (Some e) c)"
  shows "core_inv c' out (T - {e})"
    and "lc_table c' = lc_table c" "same_keys (lc_heap c) (lc_heap c')" "lc_capacity c' = lc_capacity c"
    "lc_next c' = lc_next c" "lc_lru c' = remove1 e (lc_lru c)" "lc_usage c' = lc_usage c - lh_charge (lc_heap c e)"
proof -
  have e: "e < lc_next c" "unat (lh_refs (lc_heap c e)) = 1 + out e" "e \<notin> set (lc_freed c)" "finite T"
    using assms by (auto simp: core_inv_def)
  define n where "n = lh_refs (lc_heap c e) - 1"
  have n: "unat n = out e" using e(2) unat_pred [of "lh_refs (lc_heap c e)"] by (simp add: n_def)
  let ?c = "c\<lparr>lc_lru := remove1 e (lc_lru c), lc_in_use := remove1 e (lc_in_use c),
      lc_heap := (lc_heap c)(e := lc_heap c e\<lparr>lh_in_cache := False, lh_refs := n\<rparr>),
      lc_usage := lc_usage c - lh_charge (lc_heap c e),
      lc_freed := lc_freed c @ (if out e = 0 then [e] else [])\<rparr>"
  have c': "c' = ?c"
    unfolding c'_def using refs_eq(2) [OF n] refs_eq(1) [OF e(2)] by (auto simp: FinishErase_def LRU_Remove_def LRUCache_Unref_def set_refs_def Let_def simp flip: n_def)
  have usage: "unat (lc_usage c) = (\<Sum>x \<in> T. unat (lh_charge (lc_heap c x)))" using assms(1) by (simp add: core_inv_def)
  have "unat (lh_charge (lc_heap c e)) \<le> unat (lc_usage c)"
    unfolding usage using e(4) assms(2) by (intro member_le_sum) auto
  then have "unat (lc_usage c - lh_charge (lc_heap c e)) = (\<Sum>x \<in> T. unat (lh_charge (lc_heap c x))) - unat (lh_charge (lc_heap c e))"
    unfolding usage [symmetric] by (intro unat_sub) (simp add: word_le_nat_alt)
  also have "\<dots> = (\<Sum>x \<in> T - {e}. unat (lh_charge (lc_heap c x)))" using e(4) assms(2) by (simp add: sum_diff1_nat)
  also have "\<dots> = (\<Sum>x \<in> T - {e}. unat (lh_charge (lc_heap ?c x)))" by (intro sum.cong) auto
  finally show "core_inv c' out (T - {e})"
    using assms(1,2) e n unfolding c' core_inv_def by auto
  show "lc_table c' = lc_table c" "same_keys (lc_heap c) (lc_heap c')" "lc_capacity c' = lc_capacity c"
    "lc_next c' = lc_next c" "lc_lru c' = remove1 e (lc_lru c)" "lc_usage c' = lc_usage c - lh_charge (lc_heap c e)"
    unfolding c' by (simp_all add: same_keys_def)
qed

section \<open>The operations keep the invariant\<close>

lemma core_inv_table [simp]: "core_inv (c\<lparr>lc_table := t\<rparr>) out T = core_inv c out T"
  by (simp add: core_inv_def)

lemma lru_inv_erase_key:
  assumes inv: "lru_inv c out" and e: "HandleTable_Lookup (lc_heap c) (lc_table c) key hash = Some e"
  defines "c' \<equiv> erase_key key hash c"
  shows "lru_inv c' out" "set (ht_entries (lc_table c')) = set (ht_entries (lc_table c)) - {e}"
    "same_keys (lc_heap c) (lc_heap c')" "lc_capacity c' = lc_capacity c" "lc_next c' = lc_next c"
    "lc_lru c' = remove1 e (lc_lru c)" "unat (lc_usage c) = unat (lc_usage c') + unat (lh_charge (lc_heap c' e))"
proof -
  let ?T = "set (ht_entries (lc_table c))"
  have ht: "ht_ok (lc_heap c) (lc_table c)" and core: "core_inv c out ?T"
    and cap: "lc_capacity c = 0 \<longrightarrow> ht_entries (lc_table c) = []"
    using inv by (simp_all add: lru_inv_def)
  obtain t where t: "HandleTable_Remove (lc_heap c) (lc_table c) key hash = (Some e, t)" "ht_ok (lc_heap c) t"
    "mset (ht_entries t) = mset (ht_entries (lc_table c)) - {#e#}"
    using ht_ok_Remove [OF ht e] .
  have eT: "e \<in> ?T" using ht_ok_Lookup(1) [OF ht] e by blast
  have "distinct (ht_entries (lc_table c))" using ht by (simp add: ht_ok_def)
  then have set: "set (ht_entries t) = ?T - {e}"
    using t(3) by (metis distinct_remove1_removeAll mset_remove1 set_mset_mset set_removeAll)
  have c': "c' = snd (FinishErase (Some e) (c\<lparr>lc_table := t\<rparr>))"
    by (simp add: c'_def erase_key_def t(1))
  have core': "core_inv (c\<lparr>lc_table := t\<rparr>) out ?T" using core by simp
  note f = core_inv_FinishErase [OF core' eT, folded c']
  show "set (ht_entries (lc_table c')) = ?T - {e}" using f(2) set by simp
  show sk: "same_keys (lc_heap c) (lc_heap c')" using f(3) by simp
  show "lc_capacity c' = lc_capacity c" "lc_next c' = lc_next c" "lc_lru c' = remove1 e (lc_lru c)" using f by simp_all
  have "unat (lh_charge (lc_heap c e)) \<le> unat (lc_usage c)"
    using core eT by (auto simp: core_inv_def intro!: member_le_sum)
  moreover from this have "unat (lc_usage c') = unat (lc_usage c) - unat (lh_charge (lc_heap c e))"
    using f(7) by (simp add: unat_sub word_le_nat_alt)
  ultimately show "unat (lc_usage c) = unat (lc_usage c') + unat (lh_charge (lc_heap c' e))" using sk by (simp add: same_keys_def)
  show "lru_inv c' out"
    using f set t(2) ht_ok_same_keys [OF sk] cap eT by (auto simp: lru_inv_def)
qed

lemma erase_key_absent:
  "HandleTable_Lookup (lc_heap c) (lc_table c) key hash = None \<Longrightarrow> erase_key key hash c = c"
  by (simp add: erase_key_def HandleTable_Remove_def HandleTable_Lookup_def Let_def FinishErase_def)

text \<open>The eviction loops end, and they drop entries from the oldest on.\<close>

lemma evict_loop_inv:
  assumes "lru_inv c out"
  shows "\<exists>c' k. evict_loop excess c = Some c' \<and> lru_inv c' out \<and> k \<le> length (lc_lru c) \<and>
    lc_lru c' = drop k (lc_lru c) \<and>
    set (ht_entries (lc_table c')) = set (ht_entries (lc_table c)) - set (take k (lc_lru c)) \<and>
    same_keys (lc_heap c) (lc_heap c') \<and> lc_capacity c' = lc_capacity c \<and> lc_next c' = lc_next c \<and>
    (\<not> excess c' \<or> lc_lru c' = []) \<and>
    (k > 0 \<longrightarrow> (\<exists>c''. excess c'' \<and> lc_capacity c'' = lc_capacity c \<and>
       unat (lc_usage c'') = unat (lc_usage c') + unat (lh_charge (lc_heap c' (lc_lru c ! (k - 1))))))"
  using assms
proof (induction "length (lc_lru c)" arbitrary: c)
  case 0
  then show ?case
    by (intro exI [of _ c] exI [of _ 0]) (subst evict_loop.simps, simp)
next
  case (Suc n)
  show ?case
  proof (cases "excess c")
    case False
    then show ?thesis using Suc.prems by (intro exI [of _ c] exI [of _ 0]) (subst evict_loop.simps, simp)
  next
    case True
    obtain old rest where lru: "lc_lru c = old # rest" using Suc.hyps(2) by (cases "lc_lru c") auto
    have ht: "ht_ok (lc_heap c) (lc_table c)" and dist: "distinct (lc_lru c)"
      and T: "set (lc_lru c) \<subseteq> set (ht_entries (lc_table c))"
      using Suc.prems by (auto simp: lru_inv_def core_inv_def)
    have "HandleTable_Lookup (lc_heap c) (lc_table c) (lh_key (lc_heap c old)) (lh_hash (lc_heap c old)) = Some old"
      using ht_ok_Lookup(1) [OF ht] T lru by (simp add: handle_matches_def)
    note e = lru_inv_erase_key [OF Suc.prems this]
    let ?c = "erase_key (lh_key (lc_heap c old)) (lh_hash (lc_heap c old)) c"
    have "n = length (lc_lru ?c)" using e(6) lru Suc.hyps(2) by simp
    from Suc.hyps(1) [OF this e(1)] obtain c' k where k: "evict_loop excess ?c = Some c'" "lru_inv c' out"
      "k \<le> length (lc_lru ?c)" "lc_lru c' = drop k (lc_lru ?c)"
      "set (ht_entries (lc_table c')) = set (ht_entries (lc_table ?c)) - set (take k (lc_lru ?c))"
      "same_keys (lc_heap ?c) (lc_heap c')" "lc_capacity c' = lc_capacity ?c" "lc_next c' = lc_next ?c"
      "\<not> excess c' \<or> lc_lru c' = []"
      "k > 0 \<longrightarrow> (\<exists>c''. excess c'' \<and> lc_capacity c'' = lc_capacity ?c \<and>
         unat (lc_usage c'') = unat (lc_usage c') + unat (lh_charge (lc_heap c' (lc_lru ?c ! (k - 1)))))" by blast
    have last: "\<exists>c''. excess c'' \<and> lc_capacity c'' = lc_capacity c \<and>
       unat (lc_usage c'') = unat (lc_usage c') + unat (lh_charge (lc_heap c' (lc_lru c ! k)))"
    proof (cases "k = 0")
      case zero: True
      have "unat (lc_usage c') = (\<Sum>e \<in> set (ht_entries (lc_table c')). unat (lh_charge (lc_heap c' e)))"
        "unat (lc_usage ?c) = (\<Sum>e \<in> set (ht_entries (lc_table ?c)). unat (lh_charge (lc_heap ?c e)))"
        using k(2) e(1) unfolding lru_inv_def core_inv_def by blast+
      then have "unat (lc_usage c') = unat (lc_usage ?c)" using k(5,6) zero by (simp add: same_keys_def)
      then show ?thesis using True e(7) zero lru k(6) by (intro exI [of _ c]) (simp add: same_keys_def)
    next
      case False
      then show ?thesis using k(10) e(4,6) lru by (auto simp: nth_Cons' )
    qed
    have "evict_loop excess c = Some c'"
      using True lru k(1) by (subst evict_loop.simps) (simp add: Let_def)
    moreover have "set (ht_entries (lc_table c')) = set (ht_entries (lc_table c)) - set (take (Suc k) (lc_lru c))"
      "lc_lru c' = drop (Suc k) (lc_lru c)" "Suc k \<le> length (lc_lru c)"
      "lc_capacity c' = lc_capacity c" "lc_next c' = lc_next c"
      using k(3,4,5,7,8) e(2,4,5,6) lru by auto
    ultimately show ?thesis
      using k(2,9) last same_keys_trans [OF e(3) k(6)] by (metis diff_Suc_1)
  qed
qed

text \<open>\<open>Insert\<close> up to its eviction loop.\<close>

definition insert_entry :: "bytes \<Rightarrow> u32 \<Rightarrow> 'v \<Rightarrow> u64 \<Rightarrow> 'v lru_cache \<Rightarrow> 'v lru_cache" where
  "insert_entry key hash val charge c =
     (let e = lc_next c;
          c = c\<lparr>lc_next := e + 1,
                lc_heap := (lc_heap c)(e := \<lparr>lh_value = val, lh_charge = charge, lh_key = key,
                  lh_in_cache = False, lh_refs = 1, lh_hash = hash\<rparr>)\<rparr>
      in if lc_capacity c > 0 then
           let c = c\<lparr>lc_heap := (lc_heap c)(e := (lc_heap c e)\<lparr>lh_refs := 2, lh_in_cache := True\<rparr>),
                     lc_in_use := lc_in_use c @ [e], lc_usage := lc_usage c + charge\<rparr>;
               (old, t) = HandleTable_Insert (lc_heap c) (lc_table c) e
           in snd (FinishErase old (c\<lparr>lc_table := t\<rparr>))
         else c)"

lemma LRUCache_Insert_eq:
  "LRUCache_Insert key hash val charge c =
     map_option (Pair (lc_next c)) (evict_loop (\<lambda>c. lc_usage c > lc_capacity c) (insert_entry key hash val charge c))"
  by (simp add: LRUCache_Insert_def insert_entry_def Let_def)

lemma ht_ok_upd_new:
  assumes "ht_ok heap t" "e \<notin> set (ht_entries t)"
  shows "ht_ok (heap(e := x)) t"
proof -
  have "e' \<noteq> e" if "i < ht_length t" "e' \<in> set (ht_list t ! i)" for e' i
    using assms in_bucket [of i "ht_list t" e'] that by (auto simp: ht_ok_def ht_entries_def)
  then show ?thesis using assms unfolding ht_ok_def by (auto simp: ht_entries_def)
qed

text \<open>What \<open>insert_entry\<close> has done: the new entry is held by the caller, in the cache if caching is on,
  and the entry that had the key has been dropped.\<close>

definition entry_added :: "'v lru_cache \<Rightarrow> 'v lru_cache \<Rightarrow> bytes \<Rightarrow> u32 \<Rightarrow> 'v \<Rightarrow> bool" where
  "entry_added c c' key hash val \<longleftrightarrow>
     (let e = lc_next c; old = HandleTable_Lookup (lc_heap c) (lc_table c) key hash in
      lc_next c' = Suc e \<and> lc_capacity c' = lc_capacity c \<and>
      lh_value (lc_heap c' e) = val \<and> lh_key (lc_heap c' e) = key \<and> lh_hash (lc_heap c' e) = hash \<and>
      (\<forall>x < e. lh_key (lc_heap c' x) = lh_key (lc_heap c x) \<and> lh_hash (lc_heap c' x) = lh_hash (lc_heap c x) \<and>
        lh_value (lc_heap c' x) = lh_value (lc_heap c x)) \<and>
      set (ht_entries (lc_table c')) =
        (if lc_capacity c = 0 then {} else insert e (set (ht_entries (lc_table c)) - set_option old)) \<and>
      lc_lru c' = filter (\<lambda>x. Some x \<noteq> old) (lc_lru c))"

lemma Lookup_upd_new:
  assumes "ht_ok heap t" "e \<notin> set (ht_entries t)"
  shows "HandleTable_Lookup (heap(e := x)) t key hash = HandleTable_Lookup heap t key hash"
proof -
  have "HandleTable_Lookup (heap(e := x)) t key hash = Some y \<longleftrightarrow> HandleTable_Lookup heap t key hash = Some y" for y
    unfolding ht_ok_Lookup(1) [OF assms(1)] ht_ok_Lookup(1) [OF ht_ok_upd_new [OF assms]]
    using assms(2) by (auto simp: handle_matches_def)
  then show ?thesis by (metis not_None_eq)
qed

lemma insert_entry_off:
  assumes "lru_inv c out" "lc_capacity c = 0"
  shows "lru_inv (insert_entry key hash val charge c) (out(lc_next c := 1)) \<and>
    entry_added c (insert_entry key hash val charge c) key hash val"
proof -
  let ?e = "lc_next c"
  have none: "ht_entries (lc_table c) = []" using assms by (simp add: lru_inv_def)
  have ht: "ht_ok (lc_heap c) (lc_table c)" and core: "core_inv c out {}"
    using assms none by (simp_all add: lru_inv_def)
  have "HandleTable_Lookup (lc_heap c) (lc_table c) key hash = None"
    using ht_ok_Lookup(2) [OF ht] none by simp
  then show ?thesis
    using assms none core ht_ok_upd_new [OF ht, of ?e]
    by (auto simp: insert_entry_def Let_def lru_inv_def entry_added_def core_inv_def less_Suc_eq)
qed

lemma insert_entry_on:
  assumes "lru_inv c out" "lc_capacity c > 0" "ht_elems (lc_table c) < 2 ^ 31" "unat (lc_usage c) + unat charge < 2 ^ 64"
  shows "lru_inv (insert_entry key hash val charge c) (out(lc_next c := 1)) \<and>
    entry_added c (insert_entry key hash val charge c) key hash val"
proof -
  let ?e = "lc_next c" and ?T = "set (ht_entries (lc_table c))"
  define hb where "hb = (lc_heap c)(?e := \<lparr>lh_value = val, lh_charge = charge, lh_key = key,
     lh_in_cache = True, lh_refs = 2, lh_hash = hash\<rparr>)"
  define cb where "cb = c\<lparr>lc_next := ?e + 1, lc_heap := hb, lc_in_use := lc_in_use c @ [?e], lc_usage := lc_usage c + charge\<rparr>"
  define old where "old = HandleTable_Lookup (lc_heap c) (lc_table c) key hash"
  have ht: "ht_ok (lc_heap c) (lc_table c)" and core: "core_inv c out ?T" using assms(1) by (simp_all add: lru_inv_def)
  have new: "?e \<notin> ?T" "out ?e = 0" "finite ?T" using core by (auto simp: core_inv_def)
  have htb: "ht_ok hb (lc_table c)" unfolding hb_def using ht new(1) by (rule ht_ok_upd_new)
  have "HandleTable_Lookup hb (lc_table c) (lh_key (hb ?e)) (lh_hash (hb ?e)) = old"
    using Lookup_upd_new [OF ht new(1)] by (simp add: hb_def old_def)
  then obtain t where t: "HandleTable_Insert hb (lc_table c) ?e = (old, t)" "ht_ok hb t"
    "set (ht_entries t) = insert ?e (?T - set_option old)"
    using ht_ok_Insert [OF htb new(1) assms(3)] by metis
  have coreb: "core_inv (cb\<lparr>lc_table := t\<rparr>) (out(?e := 1)) (insert ?e ?T)"
  proof -
    have "(\<Sum>x \<in> ?T. unat (lh_charge (hb x))) = (\<Sum>x \<in> ?T. unat (lh_charge (lc_heap c x)))"
      using new(1) by (intro sum.cong) (auto simp: hb_def)
    moreover have "unat (lc_usage c + charge) = unat (lc_usage c) + unat charge" using assms(4) by (intro unat_sum) simp
    ultimately show ?thesis
      using core new by (auto simp: core_inv_def cb_def less_Suc_eq hb_def)
  qed
  define c' where "c' = insert_entry key hash val charge c"
  have c': "c' = snd (FinishErase old (cb\<lparr>lc_table := t\<rparr>))"
    using assms(2) t(1) by (simp add: c'_def insert_entry_def Let_def cb_def hb_def)
  have lru_e: "?e \<notin> set (lc_lru c)" using core new(1) by (simp add: core_inv_def)
  have "lru_inv c' (out(?e := 1)) \<and> entry_added c c' key hash val"
  proof (cases old)
    case None
    then have "c' = cb\<lparr>lc_table := t\<rparr>" by (simp add: c' FinishErase_def)
    then show ?thesis
      using coreb t(2,3) None assms(2) lru_e
      by (auto simp: lru_inv_def entry_added_def Let_def old_def [symmetric] cb_def hb_def)
  next
    case (Some x)
    then have x: "x \<in> ?T" using ht_ok_Lookup(1) [OF ht] by (auto simp: old_def)
    then have xe: "x \<noteq> ?e" "x \<in> insert ?e ?T" using new(1) by auto
    note f = core_inv_FinishErase [OF coreb xe(2), folded Some, folded c']
    have sk: "same_keys hb (lc_heap c')" using f(3) by (simp add: cb_def)
    have "insert ?e ?T - {x} = set (ht_entries t)" using t(3) Some xe(1) by auto
    moreover have "lc_lru c' = filter (\<lambda>y. Some y \<noteq> old) (lc_lru c)"
      using f(6) Some core by (simp add: cb_def core_inv_def distinct_remove1_removeAll removeAll_filter_not_eq) (metis)
    moreover have "lh_key (lc_heap c' y) = lh_key (lc_heap c y) \<and> lh_hash (lc_heap c' y) = lh_hash (lc_heap c y) \<and>
        lh_value (lc_heap c' y) = lh_value (lc_heap c y)" if "y < ?e" for y
      using sk [unfolded same_keys_def, rule_format, of y] that by (simp add: hb_def)
    moreover have "lh_value (lc_heap c' ?e) = val" "lh_key (lc_heap c' ?e) = key" "lh_hash (lc_heap c' ?e) = hash"
      using sk [unfolded same_keys_def, rule_format, of ?e] by (simp_all add: hb_def)
    ultimately show ?thesis
      using f(1,2,4,5) t(2,3) assms(2) ht_ok_same_keys [OF sk] Some
      by (auto simp: lru_inv_def entry_added_def Let_def old_def [symmetric] cb_def)
  qed
  then show ?thesis by (simp add: c'_def)
qed

lemma insert_entry_inv:
  assumes "lru_inv c out" "ht_elems (lc_table c) < 2 ^ 31" "unat (lc_usage c) + unat charge < 2 ^ 64"
  shows "lru_inv (insert_entry key hash val charge c) (out(lc_next c := 1))"
    and "entry_added c (insert_entry key hash val charge c) key hash val"
  using insert_entry_off [OF assms(1), of key hash val charge] insert_entry_on [OF assms(1) _ assms(2,3), of key hash val]
  by (cases "lc_capacity c = 0"; simp add: word_gt_0)+

lemma insert_entry_charge:
  "lh_charge (lc_heap (insert_entry key hash val charge c) x) = (if x = lc_next c then charge else lh_charge (lc_heap c x))"
  by (auto simp: insert_entry_def FinishErase_def LRUCache_Unref_def LRU_Remove_def set_refs_def Let_def
      split: prod.split option.split)

text \<open>The whole of \<open>Insert\<close>: what is evicted is a prefix of the LRU list.\<close>

definition insert_spec ::
  "bytes \<Rightarrow> u32 \<Rightarrow> 'v \<Rightarrow> 'v lru_cache \<Rightarrow> 'v lru_cache \<Rightarrow> nat \<Rightarrow> bool" where
  "insert_spec key hash val c c' k \<longleftrightarrow>
     (let e = lc_next c; old = HandleTable_Lookup (lc_heap c) (lc_table c) key hash;
          L = filter (\<lambda>x. Some x \<noteq> old) (lc_lru c) in
      lc_next c' = Suc e \<and> lc_capacity c' = lc_capacity c \<and>
      lh_value (lc_heap c' e) = val \<and> lh_key (lc_heap c' e) = key \<and> lh_hash (lc_heap c' e) = hash \<and>
      (\<forall>x < e. lh_key (lc_heap c' x) = lh_key (lc_heap c x) \<and> lh_hash (lc_heap c' x) = lh_hash (lc_heap c x) \<and>
        lh_value (lc_heap c' x) = lh_value (lc_heap c x)) \<and>
      k \<le> length L \<and> lc_lru c' = drop k L \<and>
      set (ht_entries (lc_table c')) =
        (if lc_capacity c = 0 then {}
         else insert e (set (ht_entries (lc_table c)) - set_option old - set (take k L))) \<and>
      (lc_usage c' \<le> lc_capacity c' \<or> lc_lru c' = []) \<and>
      (k > 0 \<longrightarrow> unat (lc_usage c') + unat (lh_charge (lc_heap c' (L ! (k - 1)))) > unat (lc_capacity c')))"

lemma lru_inv_Insert:
  assumes "lru_inv c out" "ht_elems (lc_table c) < 2 ^ 31" "unat (lc_usage c) + unat charge < 2 ^ 64"
  shows "\<exists>c' k. LRUCache_Insert key hash val charge c = Some (lc_next c, c') \<and>
    lru_inv c' (out(lc_next c := 1)) \<and> insert_spec key hash val c c' k \<and>
    (\<forall>x. lh_charge (lc_heap c' x) = (if x = lc_next c then charge else lh_charge (lc_heap c x)))"
proof -
  let ?c = "insert_entry key hash val charge c" and ?e = "lc_next c"
  let ?old = "HandleTable_Lookup (lc_heap c) (lc_table c) key hash"
  let ?L = "filter (\<lambda>x. Some x \<noteq> ?old) (lc_lru c)"
  note inv = insert_entry_inv [OF assms, of key hash val]
  obtain c' k where c': "evict_loop (\<lambda>c. lc_usage c > lc_capacity c) ?c = Some c'" "lru_inv c' (out(?e := 1))"
    "k \<le> length (lc_lru ?c)" "lc_lru c' = drop k (lc_lru ?c)"
    "set (ht_entries (lc_table c')) = set (ht_entries (lc_table ?c)) - set (take k (lc_lru ?c))"
    "same_keys (lc_heap ?c) (lc_heap c')" "lc_capacity c' = lc_capacity ?c" "lc_next c' = lc_next ?c"
    "lc_usage c' \<le> lc_capacity c' \<or> lc_lru c' = []"
    "k > 0 \<longrightarrow> unat (lc_usage c') + unat (lh_charge (lc_heap c' (lc_lru ?c ! (k - 1)))) > unat (lc_capacity c')"
    using evict_loop_inv [OF inv(1), of "\<lambda>c. lc_usage c > lc_capacity c"] by (elim exE conjE) (metis (no_types, lifting) word_less_nat_alt not_less)
  have lru: "lc_lru ?c = ?L" using inv(2) by (simp add: entry_added_def Let_def)
  have "?e \<notin> set (lc_lru c)" using assms(1) by (auto simp: lru_inv_def core_inv_def)
  then have "?e \<notin> set (take k ?L)" by (auto dest: in_set_takeD)
  then have "insert_spec key hash val c c' k"
    using inv(2) c'(3-10) unfolding insert_spec_def entry_added_def Let_def lru same_keys_def
    by (auto simp: insert_Diff_if)
  moreover have "lh_charge (lc_heap c' x) = (if x = lc_next c then charge else lh_charge (lc_heap c x))" for x
    using c'(6) insert_entry_charge [of key hash val charge c x] by (simp add: same_keys_def)
  ultimately show ?thesis using c'(1,2) by (auto simp: LRUCache_Insert_eq)
qed

lemma lru_inv_Lookup:
  assumes "lru_inv c out" "LRUCache_Lookup key hash c = (Some e, c')" "out e + 2 < 2 ^ 32"
  shows "lru_inv c' (out(e := out e + 1))" "lc_table c' = lc_table c" "same_keys (lc_heap c) (lc_heap c')"
    "lc_capacity c' = lc_capacity c" "lc_next c' = lc_next c"
    "HandleTable_Lookup (lc_heap c) (lc_table c) key hash = Some e"
proof -
  have e: "HandleTable_Lookup (lc_heap c) (lc_table c) key hash = Some e" and c': "c' = LRUCache_Ref e c"
    using assms(2) by (auto simp: LRUCache_Lookup_def split: option.splits)
  have ht: "ht_ok (lc_heap c) (lc_table c)" and core: "core_inv c out (set (ht_entries (lc_table c)))"
    using assms(1) by (simp_all add: lru_inv_def)
  have "e \<in> set (ht_entries (lc_table c))" using ht_ok_Lookup(1) [OF ht] e by blast
  note r = core_inv_Ref [OF core this assms(3)]
  show "lc_table c' = lc_table c" "same_keys (lc_heap c) (lc_heap c')" "lc_capacity c' = lc_capacity c"
    "lc_next c' = lc_next c" using r by (simp_all add: c')
  then show "lru_inv c' (out(e := out e + 1))"
    using r(1) assms(1) ht_ok_same_keys [of "lc_heap c" "lc_heap c'"] by (simp add: lru_inv_def c')
  show "HandleTable_Lookup (lc_heap c) (lc_table c) key hash = Some e" by (rule e)
qed

lemma lru_inv_Release:
  assumes "lru_inv c out" "out e > 0"
  shows "lru_inv (LRUCache_Release e c) (out(e := out e - 1))" "lc_table (LRUCache_Release e c) = lc_table c"
    "same_keys (lc_heap c) (lc_heap (LRUCache_Release e c))" "lc_capacity (LRUCache_Release e c) = lc_capacity c"
    "lc_next (LRUCache_Release e c) = lc_next c"
proof -
  have core: "core_inv c out (set (ht_entries (lc_table c)))" using assms(1) by (simp add: lru_inv_def)
  note r = core_inv_Unref [OF core assms(2)]
  show eqs: "lc_table (LRUCache_Release e c) = lc_table c"
    "same_keys (lc_heap c) (lc_heap (LRUCache_Release e c))" "lc_capacity (LRUCache_Release e c) = lc_capacity c"
    "lc_next (LRUCache_Release e c) = lc_next c"
    using r by (simp_all add: LRUCache_Release_def)
  then show "lru_inv (LRUCache_Release e c) (out(e := out e - 1))"
    using r(1) assms(1) ht_ok_same_keys [OF eqs(2)] by (simp add: lru_inv_def LRUCache_Release_def)
qed

lemma lru_inv_Erase:
  assumes "lru_inv c out"
  shows "lru_inv (LRUCache_Erase key hash c) out"
  using assms lru_inv_erase_key(1) [OF assms] erase_key_absent [of c key hash]
  by (cases "HandleTable_Lookup (lc_heap c) (lc_table c) key hash") (simp_all add: LRUCache_Erase_def)

lemma lru_inv_init: "lru_inv (SetCapacity capacity (LRUCache heap)) (\<lambda>e. 0)"
proof -
  have "ht_entries HandleTable = []" by (simp add: ht_entries_def HandleTable_def)
  then show ?thesis
    by (simp add: lru_inv_def core_inv_def SetCapacity_def LRUCache_def ht_ok_HandleTable)
qed

section \<open>Client histories\<close>

text \<open>A history of calls on one shard with the number of handles that clients hold of every entry:
  \<open>Insert\<close> and a successful \<open>Lookup\<close> hand one out, \<open>Release\<close> takes one back.  The counters must not
  wrap: the table stays below the \<open>2 ^ 31\<close> entries that its \<open>uint32\<close> length can double to, the charges of
  the entries in the cache below \<open>2 ^ 64\<close>, and the references to one entry below \<open>2 ^ 32\<close>.\<close>

inductive lru_run :: "'v lru_cache \<Rightarrow> (nat \<Rightarrow> nat) \<Rightarrow> bool" where
  start: "lru_run (SetCapacity capacity (LRUCache heap)) (\<lambda>e. 0)"
| insert: "lru_run c out \<Longrightarrow> ht_elems (lc_table c) < 2 ^ 31 \<Longrightarrow> unat (lc_usage c) + unat charge < 2 ^ 64 \<Longrightarrow>
    LRUCache_Insert key hash val charge c = Some (e, c') \<Longrightarrow> lru_run c' (out(e := out e + 1))"
| hit: "lru_run c out \<Longrightarrow> LRUCache_Lookup key hash c = (Some e, c') \<Longrightarrow> out e + 2 < 2 ^ 32 \<Longrightarrow> lru_run c' (out(e := out e + 1))"
| miss: "lru_run c out \<Longrightarrow> LRUCache_Lookup key hash c = (None, c') \<Longrightarrow> lru_run c' out"
| release: "lru_run c out \<Longrightarrow> out e > 0 \<Longrightarrow> lru_run (LRUCache_Release e c) (out(e := out e - 1))"
| erase: "lru_run c out \<Longrightarrow> lru_run (LRUCache_Erase key hash c) out"
| prune: "lru_run c out \<Longrightarrow> LRUCache_Prune c = Some c' \<Longrightarrow> lru_run c' out"

lemma lru_run_inv: "lru_run c out \<Longrightarrow> lru_inv c out"
proof (induction rule: lru_run.induct)
  case (insert c out charge key hash val e c')
  have "out (lc_next c) = 0" using insert.IH by (auto simp: lru_inv_def core_inv_def)
  moreover obtain c1 k where "LRUCache_Insert key hash val charge c = Some (lc_next c, c1)" "lru_inv c1 (out(lc_next c := 1))"
    using lru_inv_Insert [OF insert.IH insert.hyps(2,3)] by blast
  moreover from this(1) insert.hyps(4) have "e = lc_next c" "c' = c1" by simp_all
  ultimately show ?case by (simp only: add_0)
next
  case (prune c out c')
  then show ?case using evict_loop_inv [of c out "\<lambda>c. True"] by (auto simp: LRUCache_Prune_def)
next
  case (start capacity heap)
  show ?case by (rule lru_inv_init)
next
  case (hit c out key hash e c')
  show ?case by (rule lru_inv_Lookup(1) [OF hit.IH hit.hyps(2,3)])
next
  case (miss c out key hash c')
  then show ?case by (auto simp: LRUCache_Lookup_def split: option.splits)
next
  case (release c out e)
  show ?case by (rule lru_inv_Release(1) [OF release.IH release.hyps(2)])
next
  case (erase c out key hash)
  show ?case by (rule lru_inv_Erase [OF erase.IH])
qed

text \<open>(C6) In every history of client calls in which no counter wraps (fewer than \<open>2 ^ 32\<close> references to an entry, charges
  below \<open>2 ^ 64\<close> and fewer than \<open>2 ^ 31\<close> entries in the cache) an entry is passed to its deleter exactly once, when it
  is neither in the cache nor held by a client; so a handle that a client holds is never to freed
  memory, and no entry leaks.  The LRU list is exactly the cached entries that nobody holds, and
  \<open>usage_\<close> is the sum of the charges of the cached entries.\<close>

theorem lru_handles_safe:
  assumes "lru_run c out"
  shows "distinct (lc_freed c) \<and>
    (\<forall>e. e \<in> set (lc_freed c) \<longleftrightarrow> e < lc_next c \<and> e \<notin> set (ht_entries (lc_table c)) \<and> out e = 0) \<and>
    set (lc_lru c) = {e \<in> set (ht_entries (lc_table c)). out e = 0} \<and>
    unat (LRUCache_TotalCharge c) = (\<Sum>e \<in> set (ht_entries (lc_table c)). unat (lh_charge (lc_heap c e)))"
  using lru_run_inv [OF assms] unfolding lru_inv_def core_inv_def LRUCache_TotalCharge_def by blast

text \<open>An example: an entry of charge 3 in a cache of capacity 4, which is released; inserting another one of charge 3 evicts it.\<close>

definition no_entries :: "bool lru_heap" where
  "no_entries e = \<lparr>lh_value = False, lh_charge = 0, lh_key = [], lh_in_cache = False, lh_refs = 0, lh_hash = 0\<rparr>"

definition one_entry :: "bool lru_cache option" where
  "one_entry = map_option (\<lambda>(e, c). LRUCache_Release e c) (LRUCache_Insert [1] 7 True 3 (SetCapacity 4 (LRUCache no_entries)))"

lemma one_entry_run:
  obtains c where "one_entry = Some c" "lru_run c (\<lambda>e. 0)" "lc_lru c = [0]" "ht_elems (lc_table c) = 1" "lc_usage c = 3" "lc_capacity c = 4"
    "map_option (\<lambda>(e, c'). (e, lc_freed c', lc_usage c')) (LRUCache_Insert [2] 9 False 3 c) = Some (1, [0], 3)"
proof -
  let ?c = "SetCapacity 4 (LRUCache no_entries)"
  have v: "map_option fst (LRUCache_Insert [1] 7 True 3 ?c) = Some 0"
    "map_option (\<lambda>c. (lc_lru c, ht_elems (lc_table c), lc_usage c, lc_capacity c,
       map_option (\<lambda>(e, c'). (e, lc_freed c', lc_usage c')) (LRUCache_Insert [2] 9 False 3 c))) one_entry = Some ([0], 1, 3, 4, Some (1, [0], 3))"
    by code_simp+
  then obtain c where c: "LRUCache_Insert [1] 7 True 3 ?c = Some (0, c)" by auto
  have "ht_elems (lc_table ?c) < 2 ^ 31" "unat (lc_usage ?c) + unat (3 :: u64) < 2 ^ 64"
    by (simp_all add: SetCapacity_def LRUCache_def HandleTable_def)
  from lru_run.release [OF lru_run.insert [OF lru_run.start this c], of 0]
  have "lru_run (LRUCache_Release 0 c) (\<lambda>e. 0)" by (simp add: fun_upd_idem)
  then show thesis using v(2) c by (intro that [of "LRUCache_Release 0 c"]) (simp_all add: one_entry_def)
qed

theorem lru_handles_safe_witness:
  "\<exists>c c'. one_entry = Some c \<and> LRUCache_Insert [2] 9 False 3 c = Some (1, c') \<and> lc_freed c' = [0] \<and> 0 \<notin> set (ht_entries (lc_table c')) \<and>
    unat (LRUCache_TotalCharge c') = (\<Sum>e \<in> set (ht_entries (lc_table c')). unat (lh_charge (lc_heap c' e)))"
proof -
  obtain c where c: "one_entry = Some c" "lru_run c (\<lambda>e. 0)" "ht_elems (lc_table c) = 1" "lc_usage c = 3"
    "map_option (\<lambda>(e, c'). (e, lc_freed c', lc_usage c')) (LRUCache_Insert [2] 9 False 3 c) = Some (1, [0], 3)" by (rule one_entry_run)
  from c(5) obtain c' where c': "LRUCache_Insert [2] 9 False 3 c = Some (1, c')" "lc_freed c' = [0]" by auto
  have "ht_elems (lc_table c) < 2 ^ 31" "unat (lc_usage c) + unat (3 :: u64) < 2 ^ 64" by (simp_all add: c(3,4))
  note safe = lru_handles_safe [OF lru_run.insert [OF c(2) this c'(1)]]
  have "0 \<in> set (lc_freed c')" by (simp add: c'(2))
  then have "0 \<notin> set (ht_entries (lc_table c'))" using safe by blast
  then show ?thesis using c(1) c' safe by blast
qed

section \<open>The shard refines a map\<close>

lemma lru_map_eq:
  assumes "lru_inv c out"
  shows "lru_map c key hash = Some v \<longleftrightarrow>
    (\<exists>e \<in> set (ht_entries (lc_table c)). lh_key (lc_heap c e) = key \<and> lh_hash (lc_heap c e) = hash \<and> lh_value (lc_heap c e) = v)"
proof -
  have ht: "ht_ok (lc_heap c) (lc_table c)" using assms by (simp add: lru_inv_def)
  have "lru_map c key hash = Some v \<longleftrightarrow>
    (\<exists>e. HandleTable_Lookup (lc_heap c) (lc_table c) key hash = Some e \<and> lh_value (lc_heap c e) = v)"
    by (simp add: lru_map_def)
  then show ?thesis unfolding ht_ok_Lookup(1) [OF ht] handle_matches_def by auto
qed

lemma lru_map_same:
  assumes "same_keys (lc_heap c) (lc_heap c')" "lc_table c' = lc_table c"
  shows "lru_map c' key hash = lru_map c key hash"
  using Lookup_same_keys [OF assms(1)] assms unfolding lru_map_def same_keys_def
  by (auto intro!: map_option_cong)

lemma option_eqI: "(\<And>v. x = Some v \<longleftrightarrow> y = Some v) \<Longrightarrow> x = y"
  by (metis not_None_eq)

lemma lru_map_Insert:
  assumes "lru_inv c out" "lru_inv c' out'" "insert_spec key hash val c c' k"
  shows "lru_map c' key hash = (if lc_capacity c = 0 then None else Some val)"
    and "lru_map c' key' hash' = Some v \<Longrightarrow> (key', hash') \<noteq> (key, hash) \<Longrightarrow> lru_map c key' hash' = Some v"
    and "lru_map c key' hash' = Some v \<Longrightarrow> (key', hash') \<noteq> (key, hash) \<Longrightarrow> lru_map c' key' hash' = None \<Longrightarrow>
      \<exists>e \<in> set (take k (filter (\<lambda>x. Some x \<noteq> HandleTable_Lookup (lc_heap c) (lc_table c) key hash) (lc_lru c))).
        HandleTable_Lookup (lc_heap c) (lc_table c) key' hash' = Some e"
proof -
  let ?e = "lc_next c" and ?T = "set (ht_entries (lc_table c))"
  let ?old = "HandleTable_Lookup (lc_heap c) (lc_table c) key hash"
  let ?L = "filter (\<lambda>x. Some x \<noteq> ?old) (lc_lru c)"
  have ht: "ht_ok (lc_heap c) (lc_table c)" using assms(1) by (simp add: lru_inv_def)
  have T: "?T = {} \<or> lc_capacity c \<noteq> 0" "\<And>e. e \<in> ?T \<Longrightarrow> e < ?e" using assms(1) by (auto simp: lru_inv_def core_inv_def)
  have new: "lh_value (lc_heap c' ?e) = val" "lh_key (lc_heap c' ?e) = key" "lh_hash (lc_heap c' ?e) = hash"
    and keep: "\<And>x. x < ?e \<Longrightarrow> lh_key (lc_heap c' x) = lh_key (lc_heap c x) \<and> lh_hash (lc_heap c' x) = lh_hash (lc_heap c x) \<and>
        lh_value (lc_heap c' x) = lh_value (lc_heap c x)"
    and T': "set (ht_entries (lc_table c')) =
        (if lc_capacity c = 0 then {} else insert ?e (?T - set_option ?old - set (take k ?L)))"
    using assms(3) unfolding insert_spec_def Let_def by blast+
  show "lru_map c' key hash = (if lc_capacity c = 0 then None else Some val)"
  proof (cases "lc_capacity c = 0")
    case True
    then have "lru_map c' key hash \<noteq> Some v" for v
      unfolding lru_map_eq [OF assms(2)] T' by simp
    with True show ?thesis by (metis not_None_eq)
  next
    case False
    then have "lru_map c' key hash = Some val"
      unfolding lru_map_eq [OF assms(2)] T' using new by auto
    with False show ?thesis by simp
  qed
  show "lru_map c key' hash' = Some v" if "lru_map c' key' hash' = Some v" "(key', hash') \<noteq> (key, hash)"
    using that(1) unfolding lru_map_eq [OF assms(2)] lru_map_eq [OF assms(1)] T'
    using that(2) new keep T(2) by (auto split: if_splits)
  show "\<exists>e \<in> set (take k ?L). HandleTable_Lookup (lc_heap c) (lc_table c) key' hash' = Some e"
    if that: "lru_map c key' hash' = Some v" "(key', hash') \<noteq> (key, hash)" "lru_map c' key' hash' = None"
  proof -
    from that(1) obtain e where e: "HandleTable_Lookup (lc_heap c) (lc_table c) key' hash' = Some e"
      by (auto simp: lru_map_def)
    then have eT: "e \<in> ?T" "lh_key (lc_heap c e) = key'" "lh_hash (lc_heap c e) = hash'"
      using ht_ok_Lookup(1) [OF ht] by (auto simp: handle_matches_def)
    have "e \<notin> set_option ?old"
      using that(2) eT ht_ok_Lookup(1) [OF ht, of key hash e] by (auto simp: handle_matches_def)
    moreover have "e \<notin> set (ht_entries (lc_table c'))"
      using that(3) lru_map_eq [OF assms(2), of key' hash' "lh_value (lc_heap c' e)"] keep [OF T(2) [OF eT(1)]] eT by auto
    ultimately have "e \<in> set (take k ?L)" using eT(1) T(1) unfolding T' by (auto split: if_splits)
    with e show ?thesis by blast
  qed
qed

text \<open>(C27) After any history in which no counter wraps, and with a charge that fits into the 64 bits of the usage, \<open>Insert\<close>
  returns a handle to the new value, which is then found under its key
  unless caching is off.  Entries of other keys are neither changed nor invented; the ones that are
  lost are the \<open>k\<close> least recently used ones that no client holds.  Afterwards the usage is within the capacity or every
  cached entry is held, and no more was evicted than needed: with the last evicted entry the
  capacity would be exceeded.\<close>

theorem lru_insert_evicts_oldest:
  assumes "lru_run c out" "ht_elems (lc_table c) < 2 ^ 31" "unat (lc_usage c) + unat charge < 2 ^ 64"
  shows "\<exists>e c' k. LRUCache_Insert key hash val charge c = Some (e, c') \<and> lh_value (lc_heap c' e) = val \<and>
    lru_map c' key hash = (if lc_capacity c = 0 then None else Some val) \<and>
    (let L = filter (\<lambda>x. Some x \<noteq> HandleTable_Lookup (lc_heap c) (lc_table c) key hash) (lc_lru c) in
     (\<forall>key' hash'. (key', hash') \<noteq> (key, hash) \<longrightarrow>
       lru_map c' key' hash' = lru_map c key' hash' \<or>
       lru_map c' key' hash' = None \<and>
         HandleTable_Lookup (lc_heap c) (lc_table c) key' hash' \<in> Some ` set (take k L)) \<and>
     lc_lru c' = drop k L \<and>
     (lc_usage c' \<le> lc_capacity c \<or> (\<forall>x \<in> set (ht_entries (lc_table c')). (out(e := 1)) x > 0)) \<and>
     (k > 0 \<longrightarrow> unat (lc_usage c') + unat (lh_charge (lc_heap c' (L ! (k - 1)))) > unat (lc_capacity c)))"
proof -
  have inv: "lru_inv c out" using assms(1) by (rule lru_run_inv)
  obtain c' k where c': "LRUCache_Insert key hash val charge c = Some (lc_next c, c')"
    "lru_inv c' (out(lc_next c := 1))" "insert_spec key hash val c c' k"
    using lru_inv_Insert [OF inv assms(2,3)] by blast
  note m = lru_map_Insert [OF inv c'(2,3)]
  let ?L = "filter (\<lambda>x. Some x \<noteq> HandleTable_Lookup (lc_heap c) (lc_table c) key hash) (lc_lru c)"
  have others: "lru_map c' key' hash' = lru_map c key' hash' \<or>
       lru_map c' key' hash' = None \<and>
         HandleTable_Lookup (lc_heap c) (lc_table c) key' hash' \<in> Some ` set (take k ?L)"
    if "(key', hash') \<noteq> (key, hash)" for key' hash'
    using m(2,3) [OF _ that] by (cases "lru_map c' key' hash'"; cases "lru_map c key' hash'") auto
  have "lc_usage c' \<le> lc_capacity c \<or> (\<forall>x \<in> set (ht_entries (lc_table c')). (out(lc_next c := 1)) x > 0)"
  proof (cases "lc_lru c' = []")
    case True
    then have "{x \<in> set (ht_entries (lc_table c')). (out(lc_next c := 1)) x = 0} = {}"
      using c'(2) unfolding lru_inv_def core_inv_def by (metis (no_types, lifting) empty_set)
    then have "(out(lc_next c := 1)) x > 0" if "x \<in> set (ht_entries (lc_table c'))" for x
      using that by (simp only: empty_iff Collect_empty_eq) (meson gr_zeroI)
    then show ?thesis by (intro disjI2 ballI)
  qed (use c'(3) in \<open>auto simp: insert_spec_def Let_def\<close>)
  moreover have "lh_value (lc_heap c' (lc_next c)) = val" "lc_lru c' = drop k ?L"
    "k > 0 \<longrightarrow> unat (lc_usage c') + unat (lh_charge (lc_heap c' (?L ! (k - 1)))) > unat (lc_capacity c)"
    using c'(3) unfolding insert_spec_def Let_def by metis+
  ultimately show ?thesis
    using c'(1) m(1) others unfolding Let_def by blast
qed

theorem lru_insert_evicts_oldest_witness:
  "\<exists>c c'. one_entry = Some c \<and> lru_map c [1] 7 = Some True \<and> LRUCache_Insert [2] 9 False 3 c = Some (1, c') \<and>
    lru_map c' [2] 9 = Some False \<and> lru_map c' [1] 7 = None \<and> lc_lru c' = []"
proof -
  obtain c where c: "one_entry = Some c" "lru_run c (\<lambda>e. 0)" "lc_lru c = [0]" "ht_elems (lc_table c) = 1" "lc_usage c = 3" "lc_capacity c = 4"
    by (rule one_entry_run)
  have "ht_elems (lc_table c) < 2 ^ 31" "unat (lc_usage c) + unat (3 :: u64) < 2 ^ 64" by (simp_all add: c(4,5))
  from lru_insert_evicts_oldest [OF c(2) this, of "[2]" 9 False] obtain e c' where
    c': "LRUCache_Insert [2] 9 False 3 c = Some (e, c')" "lru_map c' [2] 9 = Some False" by (auto simp: c(6))
  have "map_option (\<lambda>c. (lru_map c [1] 7, map_option (\<lambda>(e, c'). (e, lru_map c' [1] 7, lc_lru c')) (LRUCache_Insert [2] 9 False 3 c))) one_entry =
      Some (Some True, Some (1, None, []))" by code_simp
  then have "lru_map c [1] 7 = Some True" "e = 1" "lru_map c' [1] 7 = None" "lc_lru c' = []" unfolding c(1) using c'(1) by auto
  then show ?thesis using c(1) c' by blast
qed

lemma lru_map_subset:
  assumes "lru_inv c out" "lru_inv c' out'" "same_keys (lc_heap c) (lc_heap c')"
    and "set (ht_entries (lc_table c')) = {e \<in> set (ht_entries (lc_table c)). P e}"
  shows "lru_map c' key hash =
    (case HandleTable_Lookup (lc_heap c) (lc_table c) key hash of
       None \<Rightarrow> None | Some e \<Rightarrow> if P e then Some (lh_value (lc_heap c e)) else None)"
proof -
  have ht: "ht_ok (lc_heap c) (lc_table c)" and ht': "ht_ok (lc_heap c') (lc_table c')"
    using assms(1,2) by (simp_all add: lru_inv_def)
  have L: "HandleTable_Lookup (lc_heap c') (lc_table c') key hash = Some e \<longleftrightarrow>
      HandleTable_Lookup (lc_heap c) (lc_table c) key hash = Some e \<and> P e" for e
    unfolding ht_ok_Lookup(1) [OF ht] ht_ok_Lookup(1) [OF ht'] assms(4)
    using assms(3) by (auto simp: handle_matches_def same_keys_def)
  have v: "lh_value (lc_heap c' e) = lh_value (lc_heap c e)" for e using assms(3) by (simp add: same_keys_def)
  show ?thesis
  proof (cases "HandleTable_Lookup (lc_heap c') (lc_table c') key hash")
    case (Some e)
    then show ?thesis using L v by (simp add: lru_map_def)
  next
    case None
    then have "\<not> P e" if "HandleTable_Lookup (lc_heap c) (lc_table c) key hash = Some e" for e using L that by auto
    then show ?thesis using None by (simp add: lru_map_def split: option.split)
  qed
qed

lemma lru_map_Erase:
  assumes "lru_inv c out"
  shows "lru_map (LRUCache_Erase key hash c) key' hash' = (if (key', hash') = (key, hash) then None else lru_map c key' hash')"
proof (cases "HandleTable_Lookup (lc_heap c) (lc_table c) key hash")
  case None
  then show ?thesis by (auto simp: LRUCache_Erase_def erase_key_absent lru_map_def)
next
  case (Some e)
  have ht: "ht_ok (lc_heap c) (lc_table c)" using assms by (simp add: lru_inv_def)
  note r = lru_inv_erase_key [OF assms Some]
  have "set (ht_entries (lc_table (erase_key key hash c))) = {x \<in> set (ht_entries (lc_table c)). x \<noteq> e}"
    using r(2) by auto
  note m = lru_map_subset [OF assms r(1,3) this, of key' hash']
  have "x = e \<longleftrightarrow> (key', hash') = (key, hash)"
    if "HandleTable_Lookup (lc_heap c) (lc_table c) key' hash' = Some x" for x
  proof
    assume "x = e"
    then show "(key', hash') = (key, hash)"
      using that Some unfolding ht_ok_Lookup(1) [OF ht] handle_matches_def by simp
  qed (use that Some in simp)
  note same = this
  show ?thesis
  proof (cases "HandleTable_Lookup (lc_heap c) (lc_table c) key' hash'")
    case None
    then show ?thesis using m by (simp add: LRUCache_Erase_def lru_map_def)
  next
    case (Some x)
    show ?thesis
      unfolding LRUCache_Erase_def m unfolding lru_map_def Some option.case same [OF Some] by simp
  qed
qed

lemma lru_map_Prune:
  assumes "lru_inv c out"
  shows "\<exists>c'. LRUCache_Prune c = Some c' \<and> lru_inv c' out \<and> lc_lru c' = [] \<and>
    (\<forall>key hash. lru_map c' key hash =
      (case HandleTable_Lookup (lc_heap c) (lc_table c) key hash of
         None \<Rightarrow> None | Some e \<Rightarrow> if out e > 0 then Some (lh_value (lc_heap c e)) else None))"
proof -
  obtain c' k where c': "evict_loop (\<lambda>c. True) c = Some c'" "lru_inv c' out" "k \<le> length (lc_lru c)"
    "lc_lru c' = drop k (lc_lru c)"
    "set (ht_entries (lc_table c')) = set (ht_entries (lc_table c)) - set (take k (lc_lru c))"
    "same_keys (lc_heap c) (lc_heap c')" "\<not> True \<or> lc_lru c' = []"
    using evict_loop_inv [OF assms, of "\<lambda>c. True"] by blast
  have "set (lc_lru c) = {e \<in> set (ht_entries (lc_table c)). out e = 0}"
    using assms by (simp add: lru_inv_def core_inv_def)
  moreover have "take k (lc_lru c) = lc_lru c" using c'(3,4,7) by simp
  ultimately have "set (ht_entries (lc_table c')) = {e \<in> set (ht_entries (lc_table c)). out e > 0}"
    using c'(5) by auto
  note m = lru_map_subset [OF assms c'(2,6) this]
  then show ?thesis using c'(1,2,7) by (auto simp: LRUCache_Prune_def)
qed

lemma lru_map_Lookup:
  assumes "lru_inv c out"
  shows "case LRUCache_Lookup key hash c of
      (None, c') \<Rightarrow> lru_map c key hash = None \<and> c' = c
    | (Some e, c') \<Rightarrow> lru_map c key hash = Some (lh_value (lc_heap c' e)) \<and> lru_map c' = lru_map c"
proof (cases "HandleTable_Lookup (lc_heap c) (lc_table c) key hash")
  case None
  then show ?thesis by (simp add: LRUCache_Lookup_def lru_map_def)
next
  case (Some e)
  then have l: "LRUCache_Lookup key hash c = (Some e, LRUCache_Ref e c)" by (simp add: LRUCache_Lookup_def)
  have r: "lc_table (LRUCache_Ref e c) = lc_table c" "same_keys (lc_heap c) (lc_heap (LRUCache_Ref e c))"
    by (simp_all add: LRUCache_Ref_def LRU_Remove_def set_refs_def Let_def)
  have "lru_map (LRUCache_Ref e c) = lru_map c" using lru_map_same [OF r(2,1)] by (intro ext)
  then show ?thesis
    using Some r(2) by (simp add: l) (simp add: lru_map_def same_keys_def)
qed

text \<open>(C21) Seen as a map from keys (with their hashes) to values, a shard behaves as its interface
  says after any history in which no counter wraps: \<open>Lookup\<close> returns the value stored under the key or nothing and leaves the
  map alone, \<open>Release\<close> leaves it alone, \<open>Erase\<close> removes exactly its key, and \<open>Prune\<close> returns,
  keeping exactly the entries that clients hold.\<close>

theorem lru_refines_map:
  assumes "lru_run c out"
  shows "(case LRUCache_Lookup key hash c of
            (None, c') \<Rightarrow> lru_map c key hash = None \<and> c' = c
          | (Some e, c') \<Rightarrow> lru_map c key hash = Some (lh_value (lc_heap c' e)) \<and> lru_map c' = lru_map c) \<and>
    (out e > 0 \<longrightarrow> lru_map (LRUCache_Release e c) = lru_map c) \<and>
    (\<forall>key' hash'. lru_map (LRUCache_Erase key hash c) key' hash' =
       (if (key', hash') = (key, hash) then None else lru_map c key' hash')) \<and>
    (\<exists>c'. LRUCache_Prune c = Some c' \<and> lc_lru c' = [] \<and>
       (\<forall>key hash. lru_map c' key hash =
         (case HandleTable_Lookup (lc_heap c) (lc_table c) key hash of
            None \<Rightarrow> None | Some e \<Rightarrow> if out e > 0 then Some (lh_value (lc_heap c e)) else None)))"
proof -
  have inv: "lru_inv c out" using assms by (rule lru_run_inv)
  have "out e > 0 \<longrightarrow> lru_map (LRUCache_Release e c) = lru_map c"
    using lru_map_same [OF lru_inv_Release(3,2) [OF inv]] by (intro impI ext)
  then show ?thesis
    using lru_map_Prune [OF inv] by (intro conjI lru_map_Lookup [OF inv] allI lru_map_Erase [OF inv]) blast+
qed

theorem lru_refines_map_witness:
  "\<exists>c c'. one_entry = Some c \<and> (case LRUCache_Lookup [1] 7 c of (Some e, c1) \<Rightarrow> lh_value (lc_heap c1 e) | (None, c1) \<Rightarrow> False) \<and>
    lru_map (LRUCache_Erase [1] 7 c) [1] 7 = None \<and> LRUCache_Prune c = Some c' \<and> lc_lru c = [0] \<and> lc_lru c' = [] \<and> lru_map c' [1] 7 = None"
proof -
  obtain c where c: "one_entry = Some c" "lru_run c (\<lambda>e. 0)" "lc_lru c = [0]" by (rule one_entry_run)
  have "map_option (\<lambda>c. lru_map c [1] 7) one_entry = Some (Some True)" by code_simp
  then have m: "lru_map c [1] 7 = Some True" unfolding c(1) by simp
  note refines = lru_refines_map [OF c(2), of "[1]" 7 0]
  have "case LRUCache_Lookup [1] 7 c of (Some e, c1) \<Rightarrow> lh_value (lc_heap c1 e) | (None, c1) \<Rightarrow> False"
    using conjunct1 [OF refines] m by (auto split: prod.splits option.splits)
  moreover have "lru_map (LRUCache_Erase [1] 7 c) [1] 7 = None" using refines by auto
  moreover obtain c' where "LRUCache_Prune c = Some c'" "lc_lru c' = []" "lru_map c' [1] 7 = None"
    using refines by (auto split: option.splits)
  ultimately show ?thesis using c(1,3) by (intro exI [of _ c] exI [of _ c']) simp
qed

section \<open>Counters that wrap\<close>

text \<open>The bounds on the history are needed.  When clients hold \<open>2 ^ 32 - 2\<close> handles of an entry in the cache, its count is the
  largest number of 32 bits; two more lookups take it to 1, and the next \<open>Release\<close> frees the entry, which the
  table still has.\<close>

lemma references_wrap:
  assumes "HandleTable_Lookup (lc_heap c) (lc_table c) key hash = Some e" "lh_refs (lc_heap c e) = - 1"
  shows "\<exists>c1 c2. LRUCache_Lookup key hash c = (Some e, c1) \<and> LRUCache_Lookup key hash c1 = (Some e, c2) \<and>
    e \<in> set (lc_freed (LRUCache_Release e c2)) \<and> HandleTable_Lookup (lc_heap (LRUCache_Release e c2)) (lc_table (LRUCache_Release e c2)) key hash = Some e"
proof -
  have t: "lc_table (LRUCache_Ref e c) = lc_table c" "same_keys (lc_heap c) (lc_heap (LRUCache_Ref e c))" for c :: "'a lru_cache"
    by (simp_all add: LRUCache_Ref_def LRU_Remove_def set_refs_def Let_def)
  have u: "lc_table (LRUCache_Release e c) = lc_table c" "same_keys (lc_heap c) (lc_heap (LRUCache_Release e c))" for c :: "'a lru_cache"
    by (simp_all add: LRUCache_Release_def LRUCache_Unref_def LRU_Remove_def set_refs_def Let_def)
  let ?c1 = "LRUCache_Ref e c"
  let ?c2 = "LRUCache_Ref e ?c1"
  have l: "HandleTable_Lookup (lc_heap ?c1) (lc_table ?c1) key hash = Some e" "HandleTable_Lookup (lc_heap ?c2) (lc_table ?c2) key hash = Some e"
    using assms(1) Lookup_same_keys [OF t(2)] t(1) by metis+
  have "HandleTable_Lookup (lc_heap (LRUCache_Release e ?c2)) (lc_table (LRUCache_Release e ?c2)) key hash = Some e"
    using l(2) Lookup_same_keys [OF u(2)] u(1) by metis
  moreover have "lh_refs (lc_heap ?c1 e) = 0" using assms(2) by (simp add: LRUCache_Ref_def LRU_Remove_def set_refs_def Let_def)
  then have "lh_refs (lc_heap ?c2 e) = 1" by (simp add: LRUCache_Ref_def [of e ?c1] LRU_Remove_def set_refs_def Let_def)
  then have "e \<in> set (lc_freed (LRUCache_Release e ?c2))" by (simp add: LRUCache_Release_def LRUCache_Unref_def set_refs_def Let_def)
  ultimately show ?thesis using assms(1) l(1) by (intro exI [of _ ?c1] exI [of _ ?c2]) (simp add: LRUCache_Lookup_def)
qed

text \<open>Two entries of charge \<open>2 ^ 63\<close> give a usage of 0: a cache of capacity 1 keeps both when they are released.\<close>

lemma charges_wrap:
  "Option.bind (LRUCache_Insert [1] 7 True (2 ^ 63) (SetCapacity 1 (LRUCache no_entries))) (\<lambda>(e1, c).
     map_option (\<lambda>(e2, c). let c = LRUCache_Release e2 (LRUCache_Release e1 c) in (lc_usage c, lc_lru c)) (LRUCache_Insert [2] 9 True (2 ^ 63) c)) =
   Some (0, [0, 1])"
  by code_simp

section \<open>The sharded cache refines a map\<close>

lemma Shard_less: "Shard h < kNumShards"
proof -
  have "unat h < 2 ^ 32" using unsigned_less [of h, where 'a = nat] by simp
  then have "unat h div 2 ^ 28 < 2 ^ 4" by (simp add: less_mult_imp_div_less)
  then show ?thesis by (simp add: Shard_def kNumShards_def kNumShardBits_def drop_bit_eq_div unat_div_distrib)
qed

definition sc_map :: "'v sharded_cache \<Rightarrow> bytes \<Rightarrow> 'v option" where
  "sc_map sc key = lru_map (sc_shard sc ! Shard (HashSlice key)) key (HashSlice key)"

text \<open>\<open>H\<close> holds the handles of the clients; \<open>B\<close> bounds the capacity of a shard and the number of its entries, and no charge
  reaches \<open>2 ^ 32\<close>.\<close>

definition shard_inv :: "nat \<Rightarrow> (nat \<Rightarrow> nat) \<Rightarrow> 'v lru_cache \<Rightarrow> bool" where
  "shard_inv B out c \<longleftrightarrow> lru_inv c out \<and> unat (lc_capacity c) \<le> B \<and> ht_elems (lc_table c) \<le> B \<and>
     (\<forall>e < lc_next c. 1 \<le> unat (lh_charge (lc_heap c e)) \<and> unat (lh_charge (lc_heap c e)) < 2 ^ 32)"

definition sc_inv :: "nat \<Rightarrow> 'v sharded_cache \<Rightarrow> cache_handle multiset \<Rightarrow> bool" where
  "sc_inv B sc H \<longleftrightarrow> B < 2 ^ 31 \<and> length (sc_shard sc) = kNumShards \<and>
     (\<forall>s < kNumShards. shard_inv B (\<lambda>e. count H (s, e)) (sc_shard sc ! s) \<and>
       (\<forall>e < lc_next (sc_shard sc ! s). Shard (lh_hash (lc_heap (sc_shard sc ! s) e)) = s)) \<and> (\<forall>h \<in># H. fst h < kNumShards)"

lemma lru_inv_out: "lru_inv c out \<Longrightarrow> (\<And>e. out e = out' e) \<Longrightarrow> lru_inv c out'"
  by (metis ext)

text \<open>After \<open>Insert\<close> a shard has at most as many entries as its capacity or as clients hold.\<close>

lemma entries_bound:
  assumes "lru_inv c out" "\<forall>e < lc_next c. 1 \<le> unat (lh_charge (lc_heap c e)) \<and> unat (lh_charge (lc_heap c e)) < 2 ^ 32"
  shows "ht_elems (lc_table c) \<le> unat (lc_usage c)" "unat (lc_usage c) \<le> ht_elems (lc_table c) * 2 ^ 32"
    and "lc_lru c = [] \<Longrightarrow> ht_elems (lc_table c) \<le> card {e. e < lc_next c \<and> out e > 0}"
proof -
  let ?T = "set (ht_entries (lc_table c))"
  have core: "core_inv c out ?T" and "ht_ok (lc_heap c) (lc_table c)" using assms(1) by (simp_all add: lru_inv_def)
  then have n: "ht_elems (lc_table c) = card ?T" by (simp add: ht_ok_def distinct_card)
  have T: "e < lc_next c" if "e \<in> ?T" for e using core that by (auto simp: core_inv_def)
  have "card ?T = (\<Sum>e \<in> ?T. 1)" by simp
  also have "\<dots> \<le> (\<Sum>e \<in> ?T. unat (lh_charge (lc_heap c e)))" using assms(2) T by (intro sum_mono) auto
  also have usage: "\<dots> = unat (lc_usage c)" using core by (simp add: core_inv_def)
  finally show "ht_elems (lc_table c) \<le> unat (lc_usage c)" using n by simp
  have "(\<Sum>e \<in> ?T. unat (lh_charge (lc_heap c e))) \<le> (\<Sum>e \<in> ?T. 2 ^ 32)" using assms(2) T by (intro sum_mono) (simp add: less_imp_le)
  then show "unat (lc_usage c) \<le> ht_elems (lc_table c) * 2 ^ 32" using n usage by simp
  show "ht_elems (lc_table c) \<le> card {e. e < lc_next c \<and> out e > 0}" if "lc_lru c = []"
  proof -
    have "{e \<in> ?T. out e = 0} = {}" using core that unfolding core_inv_def by (metis empty_set)
    then have "?T \<subseteq> {e. e < lc_next c \<and> out e > 0}" using T by auto
    then show ?thesis unfolding n by (intro card_mono) auto
  qed
qed

lemma card_held_le:
  "card {e. e < n \<and> count H (s, e) > 0} \<le> size (H :: cache_handle multiset)"
proof -
  have "{e. e < n \<and> count H (s, e) > 0} \<subseteq> snd ` set_mset H" by (force simp: image_iff)
  then have "card {e. e < n \<and> count H (s, e) > 0} \<le> card (snd ` set_mset H)" by (intro card_mono) auto
  also have "\<dots> \<le> card (set_mset H)" by (rule card_image_le) simp
  also have "\<dots> \<le> size H" by (metis size_multiset_overloaded_eq count_greater_zero_iff card_eq_sum Suc_leI sum_mono One_nat_def)
  finally show ?thesis .
qed

lemma sc_inv_init:
  assumes "unat ((capacity + (word_of_nat kNumShards - 1)) div word_of_nat kNumShards) \<le> B" "B < 2 ^ 31"
  shows "sc_inv B (ShardedLRUCache heap capacity) {#}"
proof -
  define c where "c = SetCapacity ((capacity + (word_of_nat kNumShards - 1)) div word_of_nat kNumShards) (LRUCache heap)"
  have "shard_inv B (\<lambda>e. 0) c"
    unfolding shard_inv_def c_def using assms(1) lru_inv_init by (simp add: SetCapacity_def LRUCache_def HandleTable_def)
  moreover have "lc_next c = 0" by (simp add: c_def SetCapacity_def LRUCache_def)
  ultimately show ?thesis using assms(2) unfolding sc_inv_def ShardedLRUCache_def Let_def c_def [symmetric] by simp
qed

lemma sc_inv_shard:
  assumes "sc_inv B sc H"
  shows "shard_inv B (\<lambda>e. count H (Shard h, e)) (sc_shard sc ! Shard h)" "Shard h < length (sc_shard sc)"
    "e < lc_next (sc_shard sc ! Shard h) \<Longrightarrow> Shard (lh_hash (lc_heap (sc_shard sc ! Shard h) e)) = Shard h"
  using assms Shard_less [of h] by (simp_all add: sc_inv_def)

text \<open>One shard takes a step, the others stay as they are.\<close>

lemma sc_inv_step:
  assumes "sc_inv B sc H" "s < kNumShards" "shard_inv B (\<lambda>e. count H' (s, e)) c" "\<And>e. e < lc_next c \<Longrightarrow> Shard (lh_hash (lc_heap c e)) = s"
    and "\<And>s' e. s' \<noteq> s \<Longrightarrow> count H' (s', e) = count H (s', e)"
  shows "sc_inv B (sc\<lparr>sc_shard := (sc_shard sc)[s := c]\<rparr>) H'"
proof -
  have "fst h < kNumShards" if "h \<in># H'" for h
  proof (cases "fst h = s")
    case False
    then have "h \<in># H" using assms(5) [of "fst h" "snd h"] that by (metis count_eq_zero_iff prod.collapse)
    then show ?thesis using assms(1) by (simp add: sc_inv_def)
  qed (use assms(2) in simp)
  then show ?thesis using assms by (auto simp: sc_inv_def nth_list_update)
qed

lemma sc_map_step:
  "s < length (sc_shard sc) \<Longrightarrow> sc_map (sc\<lparr>sc_shard := (sc_shard sc)[s := c]\<rparr>) key =
    (if Shard (HashSlice key) = s then lru_map c key (HashSlice key) else sc_map sc key)"
  by (auto simp: sc_map_def)

lemma sc_map_keep:
  assumes "s < length (sc_shard sc)" "\<And>k h. lru_map c k h = lru_map (sc_shard sc ! s) k h"
  shows "sc_map (sc\<lparr>sc_shard := (sc_shard sc)[s := c]\<rparr>) = sc_map sc"
  by (rule ext, unfold sc_map_step [OF assms(1)]) (simp add: sc_map_def assms(2))

lemma Cache_Value_step:
  "s < length (sc_shard sc) \<Longrightarrow> Cache_Value h (sc\<lparr>sc_shard := (sc_shard sc)[s := c]\<rparr>) =
    (if fst h = s then lh_value (lc_heap c (snd h)) else Cache_Value h sc)"
  by (auto simp: Cache_Value_def split: prod.split)

lemma sc_inv_Insert:
  assumes inv: "sc_inv B sc H" and "size H < B" "1 \<le> unat charge" "unat charge < 2 ^ 32"
  shows "\<exists>h sc'. Cache_Insert key val charge sc = Some (h, sc') \<and> sc_inv B sc' (add_mset h H) \<and>
    Cache_Value h sc' = val \<and> (\<forall>h' \<in># H. Cache_Value h' sc' = Cache_Value h' sc) \<and>
    (\<forall>k v. sc_map sc' k = Some v \<longrightarrow> sc_map sc k = Some v \<or> k = key \<and> v = val) \<and>
    (lc_capacity (sc_shard sc ! Shard (HashSlice key)) > 0 \<longrightarrow> sc_map sc' key = Some val)"
proof -
  let ?hash = "HashSlice key"
  let ?s = "Shard ?hash"
  let ?c = "sc_shard sc ! ?s" and ?out = "\<lambda>e. count H (?s, e)"
  let ?e = "lc_next ?c"
  have c: "lru_inv ?c ?out" "unat (lc_capacity ?c) \<le> B" "ht_elems (lc_table ?c) \<le> B"
    "\<forall>e < lc_next ?c. 1 \<le> unat (lh_charge (lc_heap ?c e)) \<and> unat (lh_charge (lc_heap ?c e)) < 2 ^ 32"
    using sc_inv_shard(1) [OF inv, of ?hash] by (simp_all add: shard_inv_def)
  have s: "?s < length (sc_shard sc)" using sc_inv_shard(2) [OF inv] .
  have B: "B < 2 ^ 31" using inv by (simp add: sc_inv_def)
  then have small: "ht_elems (lc_table ?c) < 2 ^ 31" using c(3) by simp
  moreover have "unat (lc_usage ?c) + unat charge < 2 ^ 64" using entries_bound(2) [OF c(1,4)] small assms(4) by simp
  ultimately obtain c' k where c': "LRUCache_Insert key ?hash val charge ?c = Some (?e, c')" "lru_inv c' (?out(?e := 1))"
    "insert_spec key ?hash val ?c c' k"
    "\<forall>x. lh_charge (lc_heap c' x) = (if x = ?e then charge else lh_charge (lc_heap ?c x))"
    using lru_inv_Insert [OF c(1)] by blast
  let ?h = "(?s, ?e)" and ?sc = "sc\<lparr>sc_shard := (sc_shard sc)[?s := c']\<rparr>"
  have spec: "lc_next c' = Suc ?e" "lc_capacity c' = lc_capacity ?c" "lh_value (lc_heap c' ?e) = val"
    "\<And>x. x < ?e \<Longrightarrow> lh_value (lc_heap c' x) = lh_value (lc_heap ?c x)" "lc_usage c' \<le> lc_capacity c' \<or> lc_lru c' = []"
    "lh_hash (lc_heap c' ?e) = ?hash" "\<And>x. x < ?e \<Longrightarrow> lh_hash (lc_heap c' x) = lh_hash (lc_heap ?c x)"
    using c'(3) unfolding insert_spec_def Let_def by metis+
  have new: "count H ?h = 0" using c(1) by (auto simp: lru_inv_def core_inv_def)
  then have out: "(?out(?e := 1)) x = count (add_mset ?h H) (?s, x)" for x by (cases "x = ?e") simp_all
  then have inv': "lru_inv c' (\<lambda>x. count (add_mset ?h H) (?s, x))" using c'(2) by (rule lru_inv_out [rotated])
  have ch: "\<forall>x < lc_next c'. 1 \<le> unat (lh_charge (lc_heap c' x)) \<and> unat (lh_charge (lc_heap c' x)) < 2 ^ 32"
    using c(4) assms(3,4) c'(4) spec(1) by (auto simp: less_Suc_eq)
  have sh: "Shard (lh_hash (lc_heap c' x)) = ?s" if "x < lc_next c'" for x
    using that spec(1,6,7) sc_inv_shard(3) [OF inv, of x ?hash] by (auto simp: less_Suc_eq)
  have "ht_elems (lc_table c') \<le> B"
  proof (cases "lc_usage c' \<le> lc_capacity c'")
    case True
    then show ?thesis using entries_bound(1) [OF inv' ch] c(2) spec(2) by (simp add: word_le_nat_alt)
  next
    case False
    then have "ht_elems (lc_table c') \<le> size (add_mset ?h H)"
      using entries_bound(3) [OF inv' ch] card_held_le [of "lc_next c'" "add_mset ?h H" ?s] spec(5) by simp
    then show ?thesis using assms(2) by simp
  qed
  then have "shard_inv B (\<lambda>e. count (add_mset ?h H) (?s, e)) c'"
    using inv' ch c(2) spec(2) by (simp add: shard_inv_def)
  then have "sc_inv B ?sc (add_mset ?h H)"
    using inv Shard_less sh by (intro sc_inv_step) auto
  moreover have "Cache_Insert key val charge sc = Some (?h, ?sc)"
    by (simp add: Cache_Insert_def Let_def c'(1))
  moreover have "Cache_Value ?h ?sc = val" using s spec(3) by (simp add: Cache_Value_step)
  moreover have "Cache_Value h' ?sc = Cache_Value h' sc" if "h' \<in># H" for h'
  proof (cases "fst h' = ?s")
    case True
    then have "snd h' < ?e" using c(1) that by (cases h') (force simp: lru_inv_def core_inv_def not_less count_eq_zero_iff)
    then show ?thesis using True spec(4) by (cases h') (simp add: Cache_Value_step [OF s], simp add: Cache_Value_def)
  qed (simp add: Cache_Value_step [OF s])
  moreover have "sc_map sc x = Some v \<or> x = key \<and> v = val" if "sc_map ?sc x = Some v" for x v
  proof (cases "Shard (HashSlice x) = ?s \<and> x \<noteq> key")
    case True
    then have "lru_map c' x (HashSlice x) = Some v" using that unfolding sc_map_step [OF s] by simp
    then have "lru_map ?c x (HashSlice x) = Some v" by (rule lru_map_Insert(2) [OF c(1) inv' c'(3)]) (use True in simp)
    then show ?thesis using True by (simp add: sc_map_def)
  next
    case False
    then show ?thesis
      using that lru_map_Insert(1) [OF c(1) inv' c'(3)] unfolding sc_map_step [OF s] by (auto split: if_splits)
  qed
  moreover have "lc_capacity ?c > 0 \<longrightarrow> sc_map ?sc key = Some val"
    using lru_map_Insert(1) [OF c(1) inv' c'(3)] unfolding sc_map_step [OF s] by simp
  ultimately show ?thesis by (intro exI [of _ ?h] exI [of _ ?sc] conjI ballI allI impI) auto
qed

lemma sc_inv_Lookup:
  assumes inv: "sc_inv B sc H" and held: "size H < B"
  shows "case Cache_Lookup key sc of
      (None, sc') \<Rightarrow> sc_map sc key = None \<and> sc' = sc
    | (Some h, sc') \<Rightarrow> sc_map sc key = Some (Cache_Value h sc') \<and> sc_inv B sc' (add_mset h H) \<and>
        sc_map sc' = sc_map sc \<and> (\<forall>h'. Cache_Value h' sc' = Cache_Value h' sc)"
proof -
  let ?hash = "HashSlice key"
  let ?s = "Shard ?hash"
  let ?c = "sc_shard sc ! ?s" and ?out = "\<lambda>e. count H (?s, e)"
  have c: "lru_inv ?c ?out" "unat (lc_capacity ?c) \<le> B" "ht_elems (lc_table ?c) \<le> B"
    "\<forall>e < lc_next ?c. 1 \<le> unat (lh_charge (lc_heap ?c e)) \<and> unat (lh_charge (lc_heap ?c e)) < 2 ^ 32"
    using sc_inv_shard(1) [OF inv, of ?hash] by (simp_all add: shard_inv_def)
  have s: "?s < length (sc_shard sc)" using sc_inv_shard(2) [OF inv] .
  obtain x c' where l: "LRUCache_Lookup key ?hash ?c = (x, c')" by fastforce
  note m = lru_map_Lookup [OF c(1), of key ?hash, unfolded l prod.case]
  show ?thesis
  proof (cases x)
    case None
    then have "lru_map ?c key ?hash = None" "c' = ?c" using m by simp_all
    then show ?thesis by (simp add: Cache_Lookup_def Let_def l None sc_map_def)
  next
    case (Some e)
    let ?h = "(?s, e)" and ?sc = "sc\<lparr>sc_shard := (sc_shard sc)[?s := c']\<rparr>"
    have "count H (?s, e) \<le> size H" by (rule count_le_size)
    then have "count H (?s, e) + 2 < 2 ^ 32" using held inv by (simp add: sc_inv_def)
    note r = lru_inv_Lookup [OF c(1) l [unfolded Some] this]
    have sh: "Shard (lh_hash (lc_heap c' x)) = ?s" if "x < lc_next c'" for x
      using that r(3,5) sc_inv_shard(3) [OF inv, of x ?hash] by (simp add: same_keys_def)
    have "(?out(e := ?out e + 1)) x = count (add_mset ?h H) (?s, x)" for x by (cases "x = e") simp_all
    with r(1) have "lru_inv c' (\<lambda>x. count (add_mset ?h H) (?s, x))" by (rule lru_inv_out)
    then have "shard_inv B (\<lambda>e. count (add_mset ?h H) (?s, e)) c'"
      using c r(2-5) by (simp add: shard_inv_def same_keys_def)
    then have "sc_inv B ?sc (add_mset ?h H)" using inv Shard_less sh by (intro sc_inv_step) auto
    moreover have "Cache_Lookup key sc = (Some ?h, ?sc)" by (simp add: Cache_Lookup_def Let_def l Some)
    moreover have "lru_map c' = lru_map ?c" "sc_map sc key = Some (Cache_Value ?h ?sc)"
      using m Some s by (simp_all add: Cache_Value_step sc_map_def)
    moreover have "sc_map ?sc = sc_map sc" using sc_map_keep [OF s] calculation(3) by simp
    moreover have "Cache_Value h' ?sc = Cache_Value h' sc" for h'
      unfolding Cache_Value_step [OF s] using r(3) by (simp add: Cache_Value_def same_keys_def split: prod.split)
    ultimately show ?thesis by simp
  qed
qed

lemma sc_inv_Release:
  assumes inv: "sc_inv B sc H" and "h \<in># H"
  shows "sc_inv B (Cache_Release h sc) (H - {#h#})" "sc_map (Cache_Release h sc) = sc_map sc"
    "Cache_Value h' (Cache_Release h sc) = Cache_Value h' sc"
proof -
  obtain s e where h: "h = (s, e)" by fastforce
  have s: "s < kNumShards" "s < length (sc_shard sc)" using inv assms(2) h by (auto simp: sc_inv_def)
  let ?c = "sc_shard sc ! s" and ?out = "\<lambda>e. count H (s, e)"
  have c: "lru_inv ?c ?out" "unat (lc_capacity ?c) \<le> B" "ht_elems (lc_table ?c) \<le> B"
    "\<forall>e < lc_next ?c. 1 \<le> unat (lh_charge (lc_heap ?c e)) \<and> unat (lh_charge (lc_heap ?c e)) < 2 ^ 32"
    using inv s(1) by (simp_all add: sc_inv_def shard_inv_def)
  have pos: "?out e > 0" using assms(2) h by simp
  note r = lru_inv_Release [OF c(1) pos]
  have "(?out(e := ?out e - 1)) x = count (H - {#h#}) (s, x)" for x by (cases "x = e") (simp_all add: h)
  with r(1) have "lru_inv (LRUCache_Release e ?c) (\<lambda>x. count (H - {#h#}) (s, x))" by (rule lru_inv_out)
  then have "shard_inv B (\<lambda>x. count (H - {#h#}) (s, x)) (LRUCache_Release e ?c)"
    using c r(2-5) by (simp add: shard_inv_def same_keys_def)
  moreover have "\<forall>x \<ge> lc_next ?c. count H (s, x) = 0" using c(1) by (simp add: lru_inv_def core_inv_def)
  then have "e < lc_next ?c" using pos by (metis not_less less_irrefl)
  then have eq: "Cache_Release h sc = sc\<lparr>sc_shard := (sc_shard sc)[s := LRUCache_Release e ?c]\<rparr>"
    using inv s(1) by (simp add: Cache_Release_def h sc_inv_def)
  moreover have "Shard (lh_hash (lc_heap (LRUCache_Release e ?c) x)) = s" if "x < lc_next (LRUCache_Release e ?c)" for x
  proof -
    have "lh_hash (lc_heap (LRUCache_Release e ?c) x) = lh_hash (lc_heap ?c x)" using r(3) by (simp add: same_keys_def)
    then show ?thesis using that r(5) inv s(1) by (simp add: sc_inv_def)
  qed
  ultimately show "sc_inv B (Cache_Release h sc) (H - {#h#})"
    using inv s(1) h by (simp only: eq, intro sc_inv_step) auto
  show "sc_map (Cache_Release h sc) = sc_map sc"
    unfolding eq using lru_map_same [OF r(3,2)] by (rule sc_map_keep [OF s(2)])
  show "Cache_Value h' (Cache_Release h sc) = Cache_Value h' sc"
    unfolding eq Cache_Value_step [OF s(2)] using r(3) by (simp add: Cache_Value_def same_keys_def split: prod.split)
qed

text \<open>A value put into the sharded cache is found under its key: after \<open>Insert\<close> into a cache with a
  capacity, \<open>Lookup\<close> of the same key returns a handle to the value, and every other key has the value
  it had or is not found; the handles that clients held before keep their values.\<close>

theorem cache_insert_lookup:
  assumes "sc_inv B sc H" "size H + 1 < B" "1 \<le> unat charge" "unat charge < 2 ^ 32" "lc_capacity (sc_shard sc ! Shard (HashSlice key)) > 0"
  shows "\<exists>h sc1 h' sc2. Cache_Insert key val charge sc = Some (h, sc1) \<and> Cache_Value h sc1 = val \<and>
    Cache_Lookup key sc1 = (Some h', sc2) \<and> Cache_Value h' sc2 = val \<and>
    (\<forall>k. k \<noteq> key \<longrightarrow> sc_map sc1 k = None \<or> sc_map sc1 k = sc_map sc k) \<and>
    (\<forall>g \<in># H. Cache_Value g sc1 = Cache_Value g sc)"
proof -
  obtain h sc1 where i: "Cache_Insert key val charge sc = Some (h, sc1)" "sc_inv B sc1 (add_mset h H)" "Cache_Value h sc1 = val"
    "\<forall>g \<in># H. Cache_Value g sc1 = Cache_Value g sc" "\<forall>k v. sc_map sc1 k = Some v \<longrightarrow> sc_map sc k = Some v \<or> k = key \<and> v = val"
    "sc_map sc1 key = Some val"
    using sc_inv_Insert [OF assms(1) _ assms(3,4), of key val] assms(2,5) by auto
  have "\<exists>h' sc2. Cache_Lookup key sc1 = (Some h', sc2) \<and> Cache_Value h' sc2 = val"
    using sc_inv_Lookup [OF i(2), of key] assms(2) i(6) by (cases "Cache_Lookup key sc1") (auto split: option.splits)
  moreover have "\<forall>k. k \<noteq> key \<longrightarrow> sc_map sc1 k = None \<or> sc_map sc1 k = sc_map sc k"
    using i(5) by (metis option.exhaust)
  ultimately show ?thesis using i(1,3,4) by blast
qed

theorem cache_insert_lookup_witness:
  "\<exists>h sc. Cache_Insert [1, 2] True 1 (ShardedLRUCache no_entries 64) = Some (h, sc) \<and> Cache_Value h sc = True"
proof -
  let ?sc = "ShardedLRUCache no_entries 64"
  have inv: "sc_inv 100 ?sc {#}" by (rule sc_inv_init) (simp_all add: kNumShards_def kNumShardBits_def)
  have "lc_capacity (sc_shard ?sc ! Shard (HashSlice [1, 2])) > 0"
    using Shard_less [of "HashSlice [1, 2]"]
    by (simp add: ShardedLRUCache_def Let_def SetCapacity_def) (simp add: kNumShards_def kNumShardBits_def)
  with cache_insert_lookup [OF inv, of 1 "[1, 2]" True] show ?thesis by auto
qed

end
