(* ===== verification/Table.thy ===== *)
theory Table
  imports Table_Builder Two_Level Lru_Cache
begin

text \<open>
  The immutable table of \<open>tsl/lib/io/table.cc\<close>: opening a file, the function that turns an index value
  into an iterator over a data block (through the block cache when there is one), iterating over the
  table, looking up a key and estimating the offset of a key.

  The file is the function \<open>read\<close>; the block cache is the sharded LRU cache with parsed blocks as
  values.  The table record is the argument of the two-level iterator, so the cache changes with it.
  The locale \<open>block_function\<close> is interpreted on \<open>BlockReader\<close>, with and without a cache; what is
  proved of the iterator then holds of the tables that the table builder writes.
\<close>

section \<open>The code\<close>

datatype cleanup = DeleteBlock | ReleaseBlock cache_handle

record table =
  tr_file :: file_reader
  tr_cache_id :: u64
  tr_metaindex_handle :: block_handle
  tr_index_block :: block
  tr_block_cache :: "block sharded_cache option"

definition Footer :: footer where
  "Footer = \<lparr>ft_metaindex_handle = BlockHandle, ft_index_handle = BlockHandle\<rparr>"

text \<open>The first component of the result is the status, the second the table unless there is an error.  A
  footer read that returns fewer bytes than asked for leads to a read past its end (\<open>None\<close>).\<close>

definition Table_Open ::
  "snappy \<Rightarrow> block sharded_cache option \<Rightarrow> file_reader \<Rightarrow> u64 \<Rightarrow> (status \<times> table option) option" where
  "Table_Open sn block_cache read sz =
     (if unat sz < kEncodedLength
      then Some (Error DATA_LOSS ''file is too short to be an sstable'', None)
      else
        let (s, footer_input, in_buf) = read (sz - word_of_nat kEncodedLength) kEncodedLength in
        if \<not> ok s then Some (s, None)
        else
          (case Footer_DecodeFrom Footer footer_input of
             None \<Rightarrow> None
           | Some (s, footer, rest) \<Rightarrow>
               if \<not> ok s then Some (s, None)
               else
                 let (s, contents) = ReadBlock sn read (ft_index_handle footer) in
                 if ok s then
                   let index_block = Block (bc_data contents);
                       (cache_id, block_cache) =
                         (case block_cache of
                            None \<Rightarrow> (0, None)
                          | Some cache \<Rightarrow> (let (i, cache) = NewId cache in (i, Some cache)))
                   in Some (s, Some \<lparr>tr_file = read, tr_cache_id = cache_id,
                        tr_metaindex_handle = ft_metaindex_handle footer, tr_index_block = index_block,
                        tr_block_cache = block_cache\<rparr>)
                 else Some (s, None)))"

fun call_cleanup :: "cleanup \<Rightarrow> table \<Rightarrow> table" where
  "call_cleanup DeleteBlock t = t"
| "call_cleanup (ReleaseBlock handle) t = t\<lparr>tr_block_cache := map_option (Cache_Release handle) (tr_block_cache t)\<rparr>"

definition cache_key :: "u64 \<Rightarrow> u64 \<Rightarrow> bytes" where
  "cache_key cache_id offset = EncodeFixed64 cache_id @ EncodeFixed64 offset"

text \<open>A block that comes from the cache is released with the iterator, any other one is deleted with it.\<close>

definition BlockReader :: "snappy \<Rightarrow> (table, cleanup) block_function" where
  "BlockReader sn t index_value =
     (let (s, handle, rest) = BlockHandle_DecodeFrom BlockHandle index_value in
      if \<not> ok s then Some ((NoEntries (NewErrorIterator s), []), t)
      else
        (case tr_block_cache t of
           Some cache \<Rightarrow>
             let key = cache_key (tr_cache_id t) (bh_offset handle);
                 (cache_handle, cache) = Cache_Lookup key cache
             in (case cache_handle of
                   Some h \<Rightarrow>
                     Some ((Block_NewIterator (Cache_Value h cache), RegisterCleanup [] (ReleaseBlock h)),
                           t\<lparr>tr_block_cache := Some cache\<rparr>)
                 | None \<Rightarrow>
                     let (s, contents) = ReadBlock sn (tr_file t) handle in
                     if ok s then
                       let block = Block (bc_data contents) in
                       map_option (\<lambda>(h, cache).
                           ((Block_NewIterator block, RegisterCleanup [] (ReleaseBlock h)),
                            t\<lparr>tr_block_cache := Some cache\<rparr>))
                         (Cache_Insert key block (word_of_nat (blk_size block)) cache)
                     else Some ((NoEntries (NewErrorIterator s), []), t\<lparr>tr_block_cache := Some cache\<rparr>))
         | None \<Rightarrow>
             let (s, contents) = ReadBlock sn (tr_file t) handle in
             if ok s then
               Some ((Block_NewIterator (Block (bc_data contents)), RegisterCleanup [] DeleteBlock), t)
             else Some ((NoEntries (NewErrorIterator s), []), t)))"

definition Table_NewIterator :: "table \<Rightarrow> (table, cleanup) two_level" where
  "Table_NewIterator t = TwoLevelIterator (Block_NewIterator (tr_index_block t)) t"

text \<open>The part of \<open>InternalGet\<close> that looks into the block: what \<open>saver\<close> is called with, and the status.\<close>

definition get_in_block ::
  "cleanup data_iterator \<Rightarrow> bytes \<Rightarrow> table \<Rightarrow> (status \<times> entry option \<times> table) option" where
  "get_in_block d k t =
     (case Iterator_Seek (fst d) k of
        None \<Rightarrow> None
      | Some block_iter \<Rightarrow>
          let s = Iterator_status block_iter; t = delete_iterator call_cleanup d t in
          if Iterator_Valid block_iter
          then (case (Iterator_key block_iter, Iterator_value block_iter) of
                  (Some key, Some val) \<Rightarrow> Some (s, Some (key, val), t)
                | _ \<Rightarrow> None)
          else Some (s, None, t))"

definition InternalGet :: "snappy \<Rightarrow> table \<Rightarrow> bytes \<Rightarrow> (status \<times> entry option \<times> table) option" where
  "InternalGet sn t k =
     (case Iterator_Seek (Block_NewIterator (tr_index_block t)) k of
        None \<Rightarrow> None
      | Some iiter \<Rightarrow>
          if Iterator_Valid iiter then
            (case Iterator_value iiter of
               None \<Rightarrow> None
             | Some index_value \<Rightarrow>
                 (case BlockReader sn t index_value of
                    None \<Rightarrow> None
                  | Some (d, t) \<Rightarrow>
                      map_option (\<lambda>(s, saved, t). (if ok s then Iterator_status iiter else s, saved, t))
                        (get_in_block d k t)))
          else Some (Iterator_status iiter, None, t))"

definition ApproximateOffsetOf :: "table \<Rightarrow> bytes \<Rightarrow> u64 option" where
  "ApproximateOffsetOf t key =
     (case Iterator_Seek (Block_NewIterator (tr_index_block t)) key of
        None \<Rightarrow> None
      | Some index_iter \<Rightarrow>
          if Iterator_Valid index_iter then
            (case Iterator_value index_iter of
               None \<Rightarrow> None
             | Some input \<Rightarrow>
                 let (s, handle, rest) = BlockHandle_DecodeFrom BlockHandle input in
                 Some (if ok s then bh_offset handle else bh_offset (tr_metaindex_handle t)))
          else Some (bh_offset (tr_metaindex_handle t)))"

section \<open>The block reader meets the contract\<close>

text \<open>\<open>t\<close> is a table over the file \<open>bs\<close> whose index is \<open>ix\<close> over the blocks \<open>B\<close>.  A cached block is the block
  of the file; the handles in use are those of other clients \<open>H\<close> and the ones still to be released here.
  \<open>N\<close> bounds the entries of a shard; \<open>N = 0\<close> stands for a table without a cache.\<close>

definition cache_right :: "entry list \<Rightarrow> entry list list \<Rightarrow> u64 \<Rightarrow> block sharded_cache \<Rightarrow> bool" where
  "cache_right ix B cache_id cache \<longleftrightarrow> (\<forall>j < length B. \<forall>h b. snd (ix ! j) = BlockHandle_EncodeTo h [] \<longrightarrow>
     sc_map cache (cache_key cache_id (bh_offset h)) = Some b \<longrightarrow> (\<exists>d ss rs. b = Block d \<and> layout d (B ! j) ss rs))"

definition table_good ::
  "snappy \<Rightarrow> bytes \<Rightarrow> entry list \<Rightarrow> entry list list \<Rightarrow> nat \<Rightarrow> cache_handle multiset \<Rightarrow> table \<Rightarrow> cleanup list \<Rightarrow> bool" where
  "table_good sn bs ix B N H t cs \<longleftrightarrow>
     file_holds (tr_file t) bs \<and> index_ok sn bs ix B [] \<and> handles_before ix (length bs) \<and> sorted_entries (concat B) \<and>
     (case tr_block_cache t of
        None \<Rightarrow> N = 0 \<and> set cs \<subseteq> {DeleteBlock}
      | Some cache \<Rightarrow> \<exists>hs. cs = map ReleaseBlock hs \<and> size H + 2 < N \<and> sc_inv N cache (H + mset hs) \<and>
          cache_right ix B (tr_cache_id t) cache)"

definition table_reads :: "entry list \<Rightarrow> entry list list \<Rightarrow> bytes \<Rightarrow> entry list \<Rightarrow> bool" where
  "table_reads ix B hv b \<longleftrightarrow> distinct (map snd ix) \<and> length ix = length B \<and> (\<exists>j < length B. hv = snd (ix ! j) \<and> b = B ! j)"

lemma BlockHandle_EncodeTo_inject: "BlockHandle_EncodeTo h [] = BlockHandle_EncodeTo h' [] \<Longrightarrow> h = h'"
  using BlockHandle_roundtrip [of BlockHandle h "[]"] BlockHandle_roundtrip [of BlockHandle h' "[]"] by simp

lemma handles_before_nth:
  assumes "handles_before ix n" "i < j" "j < length ix"
    "snd (ix ! i) = BlockHandle_EncodeTo h []" "snd (ix ! j) = BlockHandle_EncodeTo h' []"
  shows "unat (bh_offset h) < unat (bh_offset h')"
proof -
  obtain hs where hs: "map snd ix = map (\<lambda>h. BlockHandle_EncodeTo h []) hs" "sorted_wrt (<) (map (\<lambda>h. unat (bh_offset h)) hs)"
    using assms(1) unfolding handles_before_def by blast
  have len: "length hs = length ix" using hs(1) by (metis length_map)
  have nth: "snd (ix ! k) = BlockHandle_EncodeTo (hs ! k) []" if "k < length ix" for k
    using arg_cong [OF hs(1), of "\<lambda>l. l ! k"] that len by simp
  have "hs ! i = h" "hs ! j = h'"
    using nth [of i] nth [of j] assms(2-5) BlockHandle_EncodeTo_inject by simp_all
  then show ?thesis using hs(2) assms(2,3) len by (auto simp: sorted_wrt_iff_nth_less)
qed

lemma handles_before_distinct:
  assumes "handles_before ix n"
  shows "distinct (map snd ix)"
proof -
  obtain hs where hs: "map snd ix = map (\<lambda>h. BlockHandle_EncodeTo h []) hs" "sorted_wrt (<) (map (\<lambda>h. unat (bh_offset h)) hs)"
    using assms(1) unfolding handles_before_def by blast
  have "distinct (map (\<lambda>h. unat (bh_offset h)) hs)" using hs(2) by (simp add: strict_sorted_iff)
  then have "distinct hs" by (simp add: distinct_map)
  moreover have "inj_on (\<lambda>h. BlockHandle_EncodeTo h []) (set hs)"
    using BlockHandle_EncodeTo_inject by (auto intro: inj_onI)
  ultimately show ?thesis unfolding hs(1) by (simp add: distinct_map)
qed

lemma cache_key_inject: "cache_key i off = cache_key i' off' \<Longrightarrow> off = off'"
  unfolding cache_key_def
  using DecodeFixed_EncodeFixed(3) [of off "[]"] DecodeFixed_EncodeFixed(3) [of off' "[]"]
  by (simp add: EncodeFixed64_le_bytes append_eq_append_conv)

lemma table_good_cleanup:
  assumes "table_good sn bs ix B N H t (c # cs)"
  shows "table_good sn bs ix B N H (call_cleanup c t) cs"
proof (cases "tr_block_cache t")
  case None
  then show ?thesis using assms by (auto simp: table_good_def)
next
  case (Some cache)
  then obtain h hs where h: "c = ReleaseBlock h" "cs = map ReleaseBlock hs" "sc_inv N cache (H + mset (h # hs))"
    "cache_right ix B (tr_cache_id t) cache"
    using assms by (auto simp: table_good_def)
  have "h \<in># H + mset (h # hs)" by simp
  note r = sc_inv_Release [OF h(3) this]
  have "sc_inv N (Cache_Release h cache) (H + mset hs)" using r(1) by simp
  moreover have "cache_right ix B (tr_cache_id t) (Cache_Release h cache)"
    using h(4) r(2) by (simp add: cache_right_def)
  ultimately show ?thesis using assms Some h(1,2) by (auto simp: table_good_def)
qed

lemma table_good_run_cleanup:
  "table_good sn bs ix B N H t (cs @ ds) \<Longrightarrow> table_good sn bs ix B N H (run_cleanup call_cleanup cs t) ds"
  by (induction cs arbitrary: t) (auto dest: table_good_cleanup)

lemma index_ok_block:
  assumes "index_ok sn bs ix B later" "file_holds read bs" "j < length B"
  obtains h c ss rs where "snd (ix ! j) = BlockHandle_EncodeTo h []" "ReadBlock sn read h = (OkStatus, c)"
    "layout (bc_data c) (B ! j) ss rs"
proof -
  obtain h d ss rs where h: "snd (ix ! j) = BlockHandle_EncodeTo h []" "stored_block sn bs h d" "layout d (B ! j) ss rs"
    using assms(1,3) unfolding index_ok_def block_stored_def by blast
  obtain c where "ReadBlock sn read h = (OkStatus, c)" "bc_data c = d" using ReadBlock_stored [OF assms(2) h(2)] by blast
  with h that show ?thesis by blast
qed

lemma layout_blk_size:
  assumes "layout d es ss rs"
  shows "1 \<le> unat (word_of_nat (blk_size (Block d)) :: u64)" "unat (word_of_nat (blk_size (Block d)) :: u64) < 2 ^ 32"
proof -
  have "1 \<le> length d" "length d < 2 ^ 32" using layout_length [OF assms] assms by (simp_all add: layout_def)
  then have "unat (word_of_nat (blk_size (Block d)) :: u64) = length d" by (simp add: layout_Block [OF assms] unat_of_nat take_bit_nat_eq_self_iff)
  then show "1 \<le> unat (word_of_nat (blk_size (Block d)) :: u64)" "unat (word_of_nat (blk_size (Block d)) :: u64) < 2 ^ 32"
    using \<open>1 \<le> length d\<close> \<open>length d < 2 ^ 32\<close> by simp_all
qed

lemma NewIterator_status:
  assumes "layout d es ss rs"
  shows "Iterator_status (Block_NewIterator (Block d)) = OkStatus"
  using layout_length [OF assms]
  by (simp add: Block_NewIterator_def layout_Block [OF assms] Iter_def NewEmptyIterator_def Let_def)

text \<open>The cache stays right when a block read from the file is put into it.\<close>

lemma cache_right_insert:
  assumes "cache_right ix B i cache" "handles_before ix n" "length ix = length B" "j < length B"
    and "snd (ix ! j) = BlockHandle_EncodeTo h []" "layout d (B ! j) ss rs"
    and "\<And>k v. sc_map cache' k = Some v \<Longrightarrow> sc_map cache k = Some v \<or> k = cache_key i (bh_offset h) \<and> v = Block d"
  shows "cache_right ix B i cache'"
  unfolding cache_right_def
proof (intro allI impI)
  fix j' h' b
  assume j': "j' < length B" "snd (ix ! j') = BlockHandle_EncodeTo h' []" "sc_map cache' (cache_key i (bh_offset h')) = Some b"
  from assms(7) [OF j'(3)] show "\<exists>d ss rs. b = Block d \<and> layout d (B ! j') ss rs"
  proof
    assume "sc_map cache (cache_key i (bh_offset h')) = Some b"
    then show ?thesis using assms(1) j'(1,2) unfolding cache_right_def by blast
  next
    assume b: "cache_key i (bh_offset h') = cache_key i (bh_offset h) \<and> b = Block d"
    then have "bh_offset h' = bh_offset h" using cache_key_inject by blast
    then have "j' = j"
      using handles_before_nth [OF assms(2), of j j' h h'] handles_before_nth [OF assms(2), of j' j h' h] assms(3-5) j'(1,2)
      by (metis less_irrefl nat_neq_iff)
    with b assms(6) show ?thesis by blast
  qed
qed

lemma BlockReader_reads:
  assumes "table_good sn bs ix B N H t cs" "length cs \<le> 1" "table_reads ix B hv b"
  shows "\<exists>it ds t'. BlockReader sn t hv = Some ((it, ds), t') \<and> block_over b it \<and> Iterator_status it = OkStatus \<and>
    length ds \<le> 1 \<and> table_good sn bs ix B N H t' (cs @ ds)"
proof -
  obtain j where j: "j < length B" "hv = snd (ix ! j)" "b = B ! j" "length ix = length B"
    using assms(3) by (auto simp: table_reads_def)
  have good: "file_holds (tr_file t) bs" "index_ok sn bs ix B []" "handles_before ix (length bs)" "sorted_entries (concat B)"
    using assms(1) by (simp_all add: table_good_def)
  obtain h c ss rs where h: "snd (ix ! j) = BlockHandle_EncodeTo h []" "ReadBlock sn (tr_file t) h = (OkStatus, c)"
    "layout (bc_data c) (B ! j) ss rs"
    using index_ok_block [OF good(2,1) j(1)] .
  have dec: "BlockHandle_DecodeFrom BlockHandle hv = (OkStatus, h, [])"
    using BlockHandle_roundtrip [of BlockHandle h "[]"] by (simp add: j(2) h(1))
  have srt: "sorted_entries (B ! j)"
    using good(4) concat_split [OF j(1)] by (simp add: sorted_wrt_append)
  have over: "block_over (B ! j) (Block_NewIterator (Block d))" "Iterator_status (Block_NewIterator (Block d)) = OkStatus"
    if "layout d (B ! j) ss' rs'" for d ss' rs'
    using NewIterator_over [OF that srt] NewIterator_status [OF that] by simp_all
  show ?thesis
  proof (cases "tr_block_cache t")
    case None
    then show ?thesis
      using assms(1) over [OF h(3)] j(3) by (auto simp: BlockReader_def dec h(2) table_good_def)
  next
    case (Some cache)
    let ?key = "cache_key (tr_cache_id t) (bh_offset h)"
    obtain hs where hs: "cs = map ReleaseBlock hs" "size H + 2 < N" "sc_inv N cache (H + mset hs)"
      "cache_right ix B (tr_cache_id t) cache"
      using assms(1) Some by (auto simp: table_good_def)
    obtain x cache1 where l: "Cache_Lookup ?key cache = (x, cache1)" by fastforce
    have held: "size (H + mset hs) < N" using hs(1,2) assms(2) by simp
    note lk = sc_inv_Lookup [OF hs(3) held, of ?key, unfolded l prod.case]
    show ?thesis
    proof (cases x)
      case hit: (Some ch)
      let ?t = "t\<lparr>tr_block_cache := Some cache1\<rparr>"
      have c1: "sc_map cache ?key = Some (Cache_Value ch cache1)" "sc_inv N cache1 (H + mset (hs @ [ch]))" "sc_map cache1 = sc_map cache"
        using lk hit by (simp_all add: add.commute)
      obtain d ss' rs' where d: "Cache_Value ch cache1 = Block d" "layout d (B ! j) ss' rs'"
        using hs(4) c1(1) j(1) h(1) unfolding cache_right_def by blast
      have "table_good sn bs ix B N H ?t (cs @ [ReleaseBlock ch])"
        unfolding table_good_def using good hs c1(2,3) by (auto simp: cache_right_def intro!: exI [of _ "hs @ [ch]"])
      then show ?thesis
        using over [OF d(2)] j(3) by (auto simp: BlockReader_def dec Some l hit d(1) Let_def)
    next
      case miss: None
      have c1: "cache1 = cache" using lk miss by simp
      obtain ch cache2 where ins: "Cache_Insert ?key (Block (bc_data c)) (word_of_nat (blk_size (Block (bc_data c)))) cache = Some (ch, cache2)"
        "sc_inv N cache2 (add_mset ch (H + mset hs))"
        "\<forall>k v. sc_map cache2 k = Some v \<longrightarrow> sc_map cache k = Some v \<or> k = ?key \<and> v = Block (bc_data c)"
        using sc_inv_Insert [OF hs(3) held layout_blk_size [OF h(3)], of ?key "Block (bc_data c)"] by blast
      let ?t = "t\<lparr>tr_block_cache := Some cache2\<rparr>"
      have "cache_right ix B (tr_cache_id t) cache2"
        using cache_right_insert [OF hs(4) good(3) j(4,1) h(1,3)] ins(3) by blast
      moreover have "sc_inv N cache2 (H + mset (hs @ [ch]))" using ins(2) by (simp add: add.commute)
      ultimately have "table_good sn bs ix B N H ?t (cs @ [ReleaseBlock ch])"
        unfolding table_good_def using good hs by (auto intro!: exI [of _ "hs @ [ch]"])
      then show ?thesis
        using over [OF h(3)] j(3) ins(1) by (auto simp: BlockReader_def dec Some l miss c1 Let_def h(2))
    qed
  qed
qed

interpretation table: block_function "BlockReader sn" call_cleanup "table_good sn bs ix B N H" "table_reads ix B"
  for sn bs ix B N H
proof (unfold_locales, goal_cases)
  case (1 a cs h b)
  then show ?case by (rule BlockReader_reads)
next
  case (2 a cs ds)
  then show ?case by (rule table_good_run_cleanup)
next
  case (3 h b b')
  then obtain i j where "i < length ix" "j < length ix" "map snd ix ! i = map snd ix ! j" "b = B ! i" "b' = B ! j"
    "distinct (map snd ix)"
    by (auto simp: table_reads_def)
  then show ?case by (simp add: nth_eq_iff_index_eq del: nth_map)
qed

section \<open>Opening a table\<close>

text \<open>A cache that a table can be opened with: the id that \<open>NewId\<close> will give has not been used.\<close>

definition cache_ready :: "nat \<Rightarrow> cache_handle multiset \<Rightarrow> block sharded_cache option \<Rightarrow> bool" where
  "cache_ready N H block_cache \<longleftrightarrow>
     (case block_cache of
        None \<Rightarrow> N = 0
      | Some cache \<Rightarrow> size H + 2 < N \<and> sc_inv N cache H \<and> (\<forall>off. sc_map cache (cache_key (sc_last_id cache + 1) off) = None))"

lemma sc_last_id_irrelevant [simp]:
  "sc_inv N (sc\<lparr>sc_last_id := i\<rparr>) H = sc_inv N sc H" "sc_map (sc\<lparr>sc_last_id := i\<rparr>) k = sc_map sc k"
  by (simp_all add: sc_inv_def sc_map_def)

lemma index_for_index_ok:
  assumes "index_ok sn bs ix B []" "handles_before ix n"
  shows "index_for (table_reads ix B) ix B"
  using assms(1) handles_before_distinct [OF assms(2)] unfolding index_ok_def index_for_def table_reads_def
  by (metis append_Nil2)

definition opened :: "snappy \<Rightarrow> bytes \<Rightarrow> entry list \<Rightarrow> entry list list \<Rightarrow> nat \<Rightarrow> cache_handle multiset \<Rightarrow> table \<Rightarrow> bool" where
  "opened sn bs ix B N H t \<longleftrightarrow> table_good sn bs ix B N H t [] \<and> block_over ix (Block_NewIterator (tr_index_block t)) \<and>
     index_for (table_reads ix B) ix B"

lemma opened_over:
  assumes "opened sn bs ix B N H t"
  shows "tl_over (table_good sn bs ix B N H) (table_reads ix B) (concat B) (Table_NewIterator t)"
  using assms unfolding tl_over_def tl_at_def opened_def
  by (intro exI [of _ ix] exI [of _ B])
     (auto simp: Table_NewIterator_def TwoLevelIterator_def tl_held_def table_good_def)

lemma file_bound: "table_file sn bs es ix B ft \<Longrightarrow> length bs < 2 ^ 64"
  by (simp add: table_file_def)

lemma metaindex_within:
  assumes "table_file sn bs es ix B ft"
  shows "unat (bh_offset (ft_metaindex_handle ft)) \<le> length bs"
proof -
  obtain d where "stored_block sn bs (ft_metaindex_handle ft) d"
    using assms unfolding table_file_def block_stored_def by blast
  then obtain payload ctype pre post where pre: "bs = pre @ payload @ block_trailer payload ctype @ post" "length bs < 2 ^ 64"
    "bh_offset (ft_metaindex_handle ft) = word_of_nat (length pre)"
    unfolding stored_block_def by (elim exE conjE) (rule that)
  have le: "length pre \<le> length bs" unfolding pre(1) by simp
  then have "length pre < 2 ^ 64" using pre(2) by (rule le_less_trans)
  then show ?thesis unfolding pre(3) by (subst unat_of_nat_u64) (assumption, rule le)
qed

text \<open>\<open>Open\<close> reads the last bytes of the file as the footer.\<close>

lemma footer_read:
  assumes "file_holds read bs" "length bs < 2 ^ 64" "kEncodedLength \<le> length bs"
  obtains ib where "read (word_of_nat (length bs) - word_of_nat kEncodedLength) kEncodedLength =
      (OkStatus, drop (length bs - kEncodedLength) bs, ib)" "\<not> unat (word_of_nat (length bs) :: u64) < kEncodedLength"
proof -
  have sz: "unat (word_of_nat (length bs) :: u64) = length bs" using assms(2) by (rule unat_of_nat_u64)
  have eq: "(word_of_nat (length bs) :: u64) - word_of_nat kEncodedLength = word_of_nat (length bs - kEncodedLength)"
    using assms(3) by (simp add: of_nat_diff)
  have off: "unat (word_of_nat (length bs - kEncodedLength) :: u64) = length bs - kEncodedLength"
    using assms(2) by (intro unat_of_nat_u64) simp
  obtain ib where "read (word_of_nat (length bs - kEncodedLength)) kEncodedLength =
      (OkStatus, take kEncodedLength (drop (length bs - kEncodedLength) bs), ib)"
    using assms(1) [unfolded file_holds_def, rule_format, of "word_of_nat (length bs - kEncodedLength)" kEncodedLength]
    unfolding off using assms(3) by (auto split: if_splits)
  then show ?thesis using that eq sz assms(3) by (simp del: of_nat_diff)
qed

lemma Table_Open_file:
  assumes "table_file sn bs es ix B ft" "file_holds read bs" "cache_ready N H cache"
  shows "\<exists>t. Table_Open sn cache read (word_of_nat (length bs)) = Some (OkStatus, Some t) \<and>
    opened sn bs ix B N H t \<and> tr_metaindex_handle t = ft_metaindex_handle ft"
proof -
  have len: "length bs < 2 ^ 64"
    and srt: "sorted_entries es" "concat B = es" and iok: "index_ok sn bs ix B []"
    and hb: "handles_before ix (unat (bh_offset (ft_metaindex_handle ft)))"
    and ist: "block_stored sn bs (ft_index_handle ft) ix" and "\<exists>body. bs = body @ Footer_EncodeTo ft []"
    using assms(1) unfolding table_file_def by blast+
  then obtain body where body: "bs = body @ Footer_EncodeTo ft []" by (elim exE)
  have k: "kEncodedLength \<le> length bs" "drop (length bs - kEncodedLength) bs = Footer_EncodeTo ft []"
    by (simp_all add: body length_Footer_EncodeTo)
  obtain ib where rd: "read (word_of_nat (length bs) - word_of_nat kEncodedLength) kEncodedLength = (OkStatus, Footer_EncodeTo ft [], ib)"
    and n: "\<not> unat (word_of_nat (length bs) :: u64) < kEncodedLength"
    using footer_read [OF assms(2) len k(1)] unfolding k(2) .
  have ftr: "Footer_DecodeFrom Footer (Footer_EncodeTo ft []) = Some (OkStatus, ft, [])"
    using Footer_roundtrip [of Footer ft "[]"] by simp
  obtain d ss rs where d: "stored_block sn bs (ft_index_handle ft) d" "layout d ix ss rs"
    using ist unfolding block_stored_def by blast
  obtain c where c: "ReadBlock sn read (ft_index_handle ft) = (OkStatus, c)" "bc_data c = d"
    using ReadBlock_stored [OF assms(2) d(1)] by blast
  have hb': "handles_before ix (length bs)" using hb metaindex_within [OF assms(1)] by (rule handles_before_mono)
  have idx: "index_for (table_reads ix B) ix B" using iok hb by (rule index_for_index_ok)
  have over: "block_over ix (Block_NewIterator (Block d))"
    using d(2) index_for_sorted [OF idx] by (rule NewIterator_over)
  let ?id = "case cache of None \<Rightarrow> 0 | Some ch \<Rightarrow> sc_last_id ch + 1"
  let ?ch = "map_option (\<lambda>ch. ch\<lparr>sc_last_id := sc_last_id ch + 1\<rparr>) cache"
  let ?t = "\<lparr>tr_file = read, tr_cache_id = ?id, tr_metaindex_handle = ft_metaindex_handle ft,
     tr_index_block = Block d, tr_block_cache = ?ch\<rparr>"
  have "Table_Open sn cache read (word_of_nat (length bs)) = Some (OkStatus, Some ?t)"
    unfolding Table_Open_def if_not_P [OF n] rd Let_def prod.case ftr option.case c
    by (cases cache) (simp_all add: c NewId_def)
  moreover have "opened sn bs ix B N H ?t"
    unfolding opened_def table_good_def using assms(2,3) iok hb' srt over idx
    by (auto simp: cache_ready_def cache_right_def split: option.splits)
  ultimately show ?thesis by auto
qed

section \<open>Lookup and offsets\<close>

lemma opened_index_seek:
  assumes "opened sn bs ix B N H t"
  obtains iiter where "Iterator_Seek (Block_NewIterator (tr_index_block t)) k = Some iiter"
    "Iterator_Valid iiter \<longleftrightarrow> lower_bound ix k < length B" "Iterator_status iiter = OkStatus"
    "lower_bound ix k < length B \<Longrightarrow> Iterator_value iiter = Some (snd (ix ! lower_bound ix k))"
proof -
  have over: "block_over ix (Block_NewIterator (tr_index_block t))" and len: "length ix = length B"
    using assms by (auto simp: opened_def index_for_def)
  obtain iiter where i: "Iterator_Seek (Block_NewIterator (tr_index_block t)) k = Some iiter" "block_pos ix iiter (lower_bound ix k)"
    using block.over_seek [OF over] by blast
  show ?thesis
    using that i(1) block.pos_valid [OF i(2)] block.pos_status [OF i(2)] block.pos_entry [OF i(2)] len by simp
qed

text \<open>A key can only be in the block that the index leads to.\<close>

lemma map_of_index:
  assumes idx: "index_for reads ix B" and j: "lower_bound ix k < length B"
  shows "map_of (concat B) k = map_of (B ! lower_bound ix k) k"
proof -
  let ?j = "lower_bound ix k"
  have "fst e < k" if "e \<in> set (concat (take ?j B))" for e
  proof -
    from that obtain b where "b \<in> set (take ?j B)" and b: "e \<in> set b" by auto
    then obtain i where "i < ?j" "i < length B" "b = B ! i" by (auto simp: in_set_conv_nth [of b])
    with b have i: "i < ?j" "i < length B" "e \<in> set (B ! i)" by simp_all
    then have "fst e \<le> fst (ix ! i)" using idx by (auto simp: index_for_def)
    also have "\<dots> < k" using i(1) by (rule lower_bound_before)
    finally show ?thesis .
  qed
  then have "map_of (concat (take ?j B)) k = None" by (auto simp: map_of_eq_None_iff)
  moreover have "k < fst e" if "e \<in> set (concat (drop (Suc ?j) B))" for e
  proof -
    have "k \<le> fst (ix ! ?j)" using lower_bound_at [of ix k] idx j by (simp add: index_for_def)
    also have "\<dots> < fst e" using idx j that unfolding index_for_def by blast
    finally show ?thesis .
  qed
  then have "map_of (concat (drop (Suc ?j) B)) k = None" by (auto simp: map_of_eq_None_iff)
  ultimately show ?thesis
    by (subst concat_split [OF j]) (simp add: map_add_def split: option.split)
qed

lemma InternalGet_opened:
  assumes "opened sn bs ix B N H t"
  shows "\<exists>saved t'. InternalGet sn t k = Some (OkStatus, saved, t') \<and> table_good sn bs ix B N H t' [] \<and>
    map_of (concat B) k = (case saved of Some (k', v) \<Rightarrow> if k' = k then Some v else None | None \<Rightarrow> None)"
proof -
  have good: "table_good sn bs ix B N H t []" and idx: "index_for (table_reads ix B) ix B" using assms by (simp_all add: opened_def)
  then have srt: "sorted_entries (concat B)" by (simp add: table_good_def)
  let ?j = "lower_bound ix k"
  obtain iiter where i: "Iterator_Seek (Block_NewIterator (tr_index_block t)) k = Some iiter"
    "Iterator_Valid iiter \<longleftrightarrow> ?j < length B" "Iterator_status iiter = OkStatus"
    "?j < length B \<Longrightarrow> Iterator_value iiter = Some (snd (ix ! ?j))"
    using opened_index_seek [OF assms, of k] by metis
  note lb = lower_bound_concat [OF idx, of k]
  show ?thesis
  proof (cases "?j < length B")
    case False
    then have "lower_bound (concat B) k = length (concat B)" using lb(1,2) by simp
    then have "map_of (concat B) k = None" unfolding map_of_sorted_entries [OF srt] by simp
    with False i good show ?thesis by (simp add: InternalGet_def)
  next
    case True
    let ?b = "B ! ?j"
    have rds: "table_reads ix B (snd (ix ! ?j)) ?b" using idx True by (simp add: index_for_def)
    obtain it ds t1 where br: "BlockReader sn t (snd (ix ! ?j)) = Some ((it, ds), t1)" "block_over ?b it"
      "table_good sn bs ix B N H t1 ([] @ ds)"
      using table.bf_reads [OF good _ rds] by auto
    obtain bi where bi: "Iterator_Seek it k = Some bi" "block_pos ?b bi (lower_bound ?b k)"
      using block.over_seek [OF br(2)] by blast
    have t': "table_good sn bs ix B N H (run_cleanup call_cleanup ds t1) []"
      using table.cleanup_good [of sn bs ix B N H t1 ds "[]"] br(3) by simp
    have st: "Iterator_status bi = OkStatus" using block.pos_status [OF bi(2)] .
    have m: "map_of (concat B) k = map_of ?b k" using idx True by (rule map_of_index)
    have get: "map_of ?b k = (if Iterator_Valid bi \<and> Iterator_key bi = Some k then Iterator_value bi else None)"
      using block.seek_get [OF br(2) bi(1)] .
    show ?thesis
    proof (cases "Iterator_Valid bi")
      case valid: True
      then have p: "lower_bound ?b k < length ?b" using block.pos_valid [OF bi(2)] by simp
      note e = block.pos_entry [OF bi(2) p]
      have "InternalGet sn t k = Some (OkStatus, Some (?b ! lower_bound ?b k), run_cleanup call_cleanup ds t1)"
        using i True br(1) bi(1) valid e st by (simp add: InternalGet_def get_in_block_def delete_iterator_def Let_def)
      then show ?thesis
        using t' m get valid e by (auto split: prod.split)
    next
      case False
      have "InternalGet sn t k = Some (OkStatus, None, run_cleanup call_cleanup ds t1)"
        using i True br(1) bi(1) False st by (simp add: InternalGet_def get_in_block_def delete_iterator_def Let_def)
      then show ?thesis using t' m get False by auto
    qed
  qed
qed

lemma lower_bound_mono:
  fixes k k' :: bytes
  assumes "k \<le> k'"
  shows "lower_bound es k \<le> lower_bound es k'"
proof (rule ccontr)
  assume "\<not> lower_bound es k \<le> lower_bound es k'"
  then have lt: "lower_bound es k' < lower_bound es k" by simp
  then have "fst (es ! lower_bound es k') < k" by (rule lower_bound_before)
  moreover have "k' \<le> fst (es ! lower_bound es k')"
    using lt lower_bound_le [of es k] by (intro lower_bound_at) simp
  ultimately show False using assms by simp
qed

lemma ApproximateOffsetOf_opened:
  assumes "opened sn bs ix B N H t"
  shows "ApproximateOffsetOf t k = Some (if lower_bound ix k < length B
      then bh_offset (fst (snd (BlockHandle_DecodeFrom BlockHandle (snd (ix ! lower_bound ix k)))))
      else bh_offset (tr_metaindex_handle t))"
proof -
  obtain iiter where i: "Iterator_Seek (Block_NewIterator (tr_index_block t)) k = Some iiter"
    "Iterator_Valid iiter \<longleftrightarrow> lower_bound ix k < length B"
    "lower_bound ix k < length B \<Longrightarrow> Iterator_value iiter = Some (snd (ix ! lower_bound ix k))"
    using opened_index_seek [OF assms, of k] by metis
  have "ok (fst (BlockHandle_DecodeFrom BlockHandle (snd (ix ! j))))" if j: "j < length B" for j
  proof -
    have "index_ok sn bs ix B []" using assms by (simp add: opened_def table_good_def)
    then obtain h where "snd (ix ! j) = BlockHandle_EncodeTo h []" using j unfolding index_ok_def by blast
    then show ?thesis using BlockHandle_roundtrip [of BlockHandle h "[]"] by simp
  qed
  note dec = this
  show ?thesis
  proof (cases "lower_bound ix k < length B")
    case True
    with i dec [OF True] show ?thesis by (simp add: ApproximateOffsetOf_def case_prod_beta)
  next
    case False
    with i show ?thesis by (simp add: ApproximateOffsetOf_def)
  qed
qed

lemma index_handle:
  assumes "index_ok sn bs ix B []" and j: "j < length B"
  obtains h where "snd (ix ! j) = BlockHandle_EncodeTo h []"
    "bh_offset (fst (snd (BlockHandle_DecodeFrom BlockHandle (snd (ix ! j))))) = bh_offset h"
proof -
  obtain h where h: "snd (ix ! j) = BlockHandle_EncodeTo h []" using assms unfolding index_ok_def by blast
  then show ?thesis using BlockHandle_roundtrip [of BlockHandle h "[]"] by (intro that [of h]) simp_all
qed

lemma index_offset_less:
  assumes "index_ok sn bs ix B []" "handles_before ix n" "j < length B"
  shows "unat (bh_offset (fst (snd (BlockHandle_DecodeFrom BlockHandle (snd (ix ! j)))))) < n"
proof -
  have len: "length ix = length B" using assms(1) by (simp add: index_ok_def)
  obtain g where g: "snd (ix ! j) = BlockHandle_EncodeTo g []"
    "bh_offset (fst (snd (BlockHandle_DecodeFrom BlockHandle (snd (ix ! j))))) = bh_offset g"
    using index_handle [OF assms(1,3)] .
  obtain hs where hs: "map snd ix = map (\<lambda>h. BlockHandle_EncodeTo h []) hs" "\<forall>h \<in> set hs. unat (bh_offset h) < n"
    using assms(2) unfolding handles_before_def by blast
  have lt: "j < length hs" using assms(3) len map_eq_imp_length_eq [OF hs(1)] by simp
  then have "BlockHandle_EncodeTo (hs ! j) [] = BlockHandle_EncodeTo g []"
    using arg_cong [OF hs(1), of "\<lambda>l. l ! j"] assms(3) len g(1) by simp
  then have "hs ! j = g" by (rule BlockHandle_EncodeTo_inject)
  then show ?thesis using hs(2) lt g(2) by (metis nth_mem)
qed

lemma index_offset_mono:
  assumes "index_ok sn bs ix B []" "handles_before ix n" "i \<le> j" "j < length B"
  shows "bh_offset (fst (snd (BlockHandle_DecodeFrom BlockHandle (snd (ix ! i))))) \<le>
    bh_offset (fst (snd (BlockHandle_DecodeFrom BlockHandle (snd (ix ! j)))))"
proof (cases "i = j")
  case False
  with assms have ij: "i < j" "j < length ix" "i < length B" by (simp_all add: index_ok_def)
  obtain g where g: "snd (ix ! i) = BlockHandle_EncodeTo g []"
    "bh_offset (fst (snd (BlockHandle_DecodeFrom BlockHandle (snd (ix ! i))))) = bh_offset g"
    using index_handle [OF assms(1) ij(3)] .
  obtain g' where g': "snd (ix ! j) = BlockHandle_EncodeTo g' []"
    "bh_offset (fst (snd (BlockHandle_DecodeFrom BlockHandle (snd (ix ! j))))) = bh_offset g'"
    using index_handle [OF assms(1,4)] .
  show ?thesis unfolding g(2) g'(2) word_le_nat_alt
    using handles_before_nth [OF assms(2) ij(1,2) g(1) g'(1)] by simp
qed simp

lemma ApproximateOffsetOf_bounds:
  assumes "opened sn bs ix B N H t" "handles_before ix (unat (bh_offset (tr_metaindex_handle t)))" "k \<le> k'"
  obtains a b where "ApproximateOffsetOf t k = Some a" "ApproximateOffsetOf t k' = Some b" "a \<le> b"
    "b \<le> bh_offset (tr_metaindex_handle t)"
proof -
  have iok: "index_ok sn bs ix B []" using assms(1) by (simp add: opened_def table_good_def)
  have meta: "bh_offset (fst (snd (BlockHandle_DecodeFrom BlockHandle (snd (ix ! j))))) \<le> bh_offset (tr_metaindex_handle t)"
    if "j < length B" for j
    using index_offset_less [OF iok assms(2) that] by (simp add: word_le_nat_alt)
  have "lower_bound ix k \<le> lower_bound ix k'" using assms(3) by (rule lower_bound_mono)
  then show ?thesis
    using that meta index_offset_mono [OF iok assms(2)] unfolding ApproximateOffsetOf_opened [OF assms(1)]
    by (cases "lower_bound ix k < length B"; cases "lower_bound ix k' < length B") auto
qed

section \<open>Properties\<close>

text \<open>(C2) The composition of writer and reader: a table built from any sorted entries that fit, in a file that keeps
  what was appended, can be opened with the size that the builder reports, with or without a block
  cache; iterating over it from the start yields exactly the entries, and iterating from a sought
  key yields exactly the entries at or past the key.\<close>

theorem table_roundtrip:
  assumes "appends app contents" "snappy_ok sn" "contents f = []" "sorted_entries es" "table_bound es + 100 < 2 ^ 32"
  shows "\<exists>r. build_table sn app opt f es = Some (OkStatus, r) \<and>
    (\<forall>read cache N H. file_holds read (contents (tb_file r)) \<longrightarrow> cache_ready N H cache \<longrightarrow>
      (\<exists>t. Table_Open sn cache read (FileSize r) = Some (OkStatus, Some t) \<and>
        Option.bind (TwoLevel_SeekToFirst (BlockReader sn) call_cleanup (Table_NewIterator t))
          (scan TwoLevel_Valid TwoLevel_key TwoLevel_value (TwoLevel_Next (BlockReader sn) call_cleanup) (Suc (length es))) = Some es \<and>
        (\<forall>k. Option.bind (TwoLevel_Seek (BlockReader sn) call_cleanup (Table_NewIterator t) k)
          (scan TwoLevel_Valid TwoLevel_key TwoLevel_value (TwoLevel_Next (BlockReader sn) call_cleanup) (Suc (length es))) =
          Some (filter (\<lambda>e. k \<le> fst e) es))))"
proof -
  obtain r ix B ft where r: "build_table sn app opt f es = Some (OkStatus, r)"
    "table_file sn (contents (tb_file r)) es ix B ft" "tb_offset r = word_of_nat (length (contents (tb_file r)))"
    using build_table_file [OF assms] by metis
  have es: "concat B = es" using r(2) by (simp add: table_file_def)
  show ?thesis
  proof (intro exI [of _ r] conjI allI impI)
    fix read cache N H
    assume rd: "file_holds read (contents (tb_file r))" "cache_ready N H cache"
    obtain t where t: "Table_Open sn cache read (FileSize r) = Some (OkStatus, Some t)" "opened sn (contents (tb_file r)) ix B N H t"
      using Table_Open_file [OF r(2) rd] r(3) by (auto simp: FileSize_def)
    note over = opened_over [OF t(2), unfolded es]
    show "\<exists>t. Table_Open sn cache read (FileSize r) = Some (OkStatus, Some t) \<and>
        Option.bind (TwoLevel_SeekToFirst (BlockReader sn) call_cleanup (Table_NewIterator t))
          (scan TwoLevel_Valid TwoLevel_key TwoLevel_value (TwoLevel_Next (BlockReader sn) call_cleanup) (Suc (length es))) = Some es \<and>
        (\<forall>k. Option.bind (TwoLevel_Seek (BlockReader sn) call_cleanup (Table_NewIterator t) k)
          (scan TwoLevel_Valid TwoLevel_key TwoLevel_value (TwoLevel_Next (BlockReader sn) call_cleanup) (Suc (length es))) =
          Some (filter (\<lambda>e. k \<le> fst e) es))"
      using t(1) table.scan_all [OF over] table.scan_from [OF over] by (intro exI [of _ t]) simp
  qed (rule r(1))
qed

theorem table_roundtrip_witness:
  "\<exists>r. build_table no_snappy mem_append \<lparr>block_size = 30, block_restart_interval = 2, compression = kSnappyCompression\<rparr> []
      [([1], [7]), ([1, 2], [8]), ([3], [])] = Some (OkStatus, r) \<and>
    (\<exists>t. Table_Open no_snappy None (mem_reader (tb_file r)) (FileSize r) = Some (OkStatus, Some t))"
proof -
  let ?es = "[([1], [7]), ([1, 2], [8]), ([3], [])] :: entry list"
  have "sorted_entries ?es" "table_bound ?es + 100 < 2 ^ 32" "id [] = ([] :: bytes)"
    by (simp_all add: table_bound_def)
  note w = table_roundtrip [OF appends_mem_append snappy_ok_no_snappy this(3,1,2),
      of "\<lparr>block_size = 30, block_restart_interval = 2, compression = kSnappyCompression\<rparr>"]
  obtain r where r: "build_table no_snappy mem_append \<lparr>block_size = 30, block_restart_interval = 2, compression = kSnappyCompression\<rparr> [] ?es = Some (OkStatus, r)"
    "\<forall>read cache N H. file_holds read (id (tb_file r)) \<longrightarrow> cache_ready N H cache \<longrightarrow>
      (\<exists>t. Table_Open no_snappy cache read (FileSize r) = Some (OkStatus, Some t))"
    using w by (elim exE conjE) (rule that, assumption, meson)
  have "cache_ready 0 {#} None" by (simp add: cache_ready_def)
  moreover have "file_holds (mem_reader (tb_file r)) (id (tb_file r))" using file_holds_mem_reader by simp
  ultimately show ?thesis using r by blast
qed

text \<open>(C7) Looking up a key in a table that was built from sorted entries finds exactly what was put
  in: \<open>InternalGet\<close> returns OK, and it calls \<open>saver\<close> with the key and its value when the key is in the table; when the
  key is not there it calls \<open>saver\<close> with no entry or with one of a larger key.  The block that was
  read is released: afterwards the cache has exactly the handles of the other clients.\<close>

theorem table_get:
  assumes "appends app contents" "snappy_ok sn" "contents f = []" "sorted_entries es" "table_bound es + 100 < 2 ^ 32"
  shows "\<exists>r. build_table sn app opt f es = Some (OkStatus, r) \<and>
    (\<forall>read cache N H k. file_holds read (contents (tb_file r)) \<longrightarrow> cache_ready N H cache \<longrightarrow>
      (\<exists>t saved t'. Table_Open sn cache read (FileSize r) = Some (OkStatus, Some t) \<and>
        InternalGet sn t k = Some (OkStatus, saved, t') \<and>
        map_of es k = (case saved of Some (k', v) \<Rightarrow> if k' = k then Some v else None | None \<Rightarrow> None) \<and>
        (\<forall>c. tr_block_cache t' = Some c \<longrightarrow> sc_inv N c H)))"
proof -
  obtain r ix B ft where r: "build_table sn app opt f es = Some (OkStatus, r)"
    "table_file sn (contents (tb_file r)) es ix B ft" "tb_offset r = word_of_nat (length (contents (tb_file r)))"
    using build_table_file [OF assms] by metis
  have es: "concat B = es" using r(2) by (simp add: table_file_def)
  show ?thesis
  proof (intro exI [of _ r] conjI allI impI)
    fix read cache N H k
    assume rd: "file_holds read (contents (tb_file r))" "cache_ready N H cache"
    obtain t where t: "Table_Open sn cache read (FileSize r) = Some (OkStatus, Some t)" "opened sn (contents (tb_file r)) ix B N H t"
      using Table_Open_file [OF r(2) rd] r(3) by (auto simp: FileSize_def)
    obtain saved t' where g: "InternalGet sn t k = Some (OkStatus, saved, t')"
      "table_good sn (contents (tb_file r)) ix B N H t' []"
      "map_of es k = (case saved of Some (k', v) \<Rightarrow> if k' = k then Some v else None | None \<Rightarrow> None)"
      using InternalGet_opened [OF t(2), of k] unfolding es by blast
    have "sc_inv N c H" if "tr_block_cache t' = Some c" for c
      using g(2) that by (simp add: table_good_def)
    with t(1) g(1,3) show "\<exists>t saved t'. Table_Open sn cache read (FileSize r) = Some (OkStatus, Some t) \<and>
        InternalGet sn t k = Some (OkStatus, saved, t') \<and>
        map_of es k = (case saved of Some (k', v) \<Rightarrow> if k' = k then Some v else None | None \<Rightarrow> None) \<and>
        (\<forall>c. tr_block_cache t' = Some c \<longrightarrow> sc_inv N c H)" by blast
  qed (rule r(1))
qed

theorem table_get_witness:
  "\<exists>r t saved t'. build_table no_snappy mem_append \<lparr>block_size = 30, block_restart_interval = 2, compression = kSnappyCompression\<rparr> []
      [([1], [7]), ([1, 2], [8]), ([3], [])] = Some (OkStatus, r) \<and>
    Table_Open no_snappy None (mem_reader (tb_file r)) (FileSize r) = Some (OkStatus, Some t) \<and>
    InternalGet no_snappy t [1, 2] = Some (OkStatus, saved, t') \<and> saved = Some ([1, 2], [8])"
proof -
  let ?es = "[([1], [7]), ([1, 2], [8]), ([3], [])] :: entry list"
  have "sorted_entries ?es" "table_bound ?es + 100 < 2 ^ 32" "id [] = ([] :: bytes)"
    by (simp_all add: table_bound_def)
  note w = table_get [OF appends_mem_append snappy_ok_no_snappy this(3,1,2),
      of "\<lparr>block_size = 30, block_restart_interval = 2, compression = kSnappyCompression\<rparr>"]
  obtain r where r: "build_table no_snappy mem_append \<lparr>block_size = 30, block_restart_interval = 2, compression = kSnappyCompression\<rparr> [] ?es = Some (OkStatus, r)"
    "\<forall>read cache N H k. file_holds read (id (tb_file r)) \<longrightarrow> cache_ready N H cache \<longrightarrow>
      (\<exists>t saved t'. Table_Open no_snappy cache read (FileSize r) = Some (OkStatus, Some t) \<and>
        InternalGet no_snappy t k = Some (OkStatus, saved, t') \<and>
        map_of ?es k = (case saved of Some (k', v) \<Rightarrow> if k' = k then Some v else None | None \<Rightarrow> None))"
    using w by (elim exE conjE) (rule that, assumption, meson)
  have "cache_ready 0 {#} None" by (simp add: cache_ready_def)
  moreover have "file_holds (mem_reader (tb_file r)) (id (tb_file r))" using file_holds_mem_reader by simp
  ultimately obtain t saved t' where t: "Table_Open no_snappy None (mem_reader (tb_file r)) (FileSize r) = Some (OkStatus, Some t)"
    "InternalGet no_snappy t [1, 2] = Some (OkStatus, saved, t')"
    "map_of ?es [1, 2] = (case saved of Some (k', v) \<Rightarrow> if k' = [1, 2] then Some v else None | None \<Rightarrow> None)"
    using r(2) by blast
  have "saved = Some ([1, 2], [8])" using t(3) by (auto split: option.splits if_splits)
  with r(1) t(1,2) show ?thesis by blast
qed

text \<open>The client loop that takes at most \<open>n\<close> steps.\<close>

fun advance :: "snappy \<Rightarrow> nat \<Rightarrow> (table, cleanup) two_level \<Rightarrow> (table, cleanup) two_level option" where
  "advance sn 0 it = Some it"
| "advance sn (Suc n) it =
     (if TwoLevel_Valid it
      then Option.bind (TwoLevel_Next (BlockReader sn) call_cleanup it) (advance sn n) else Some it)"

lemma advance_pos:
  assumes "tl_pos (table_good sn bs ix B N H) (table_reads ix B) es it i"
  shows "\<exists>it' i'. advance sn n it = Some it' \<and> tl_pos (table_good sn bs ix B N H) (table_reads ix B) es it' i'"
  using assms
proof (induction n arbitrary: it i)
  case (Suc n)
  show ?case
  proof (cases "TwoLevel_Valid it")
    case True
    then have "i < length es" using table.pos_valid [OF Suc.prems] by simp
    then obtain it1 where "TwoLevel_Next (BlockReader sn) call_cleanup it = Some it1"
      "tl_pos (table_good sn bs ix B N H) (table_reads ix B) es it1 (Suc i)"
      using table.pos_nxt [OF Suc.prems] by blast
    with Suc.IH True show ?thesis by simp
  qed (use Suc.prems in auto)
qed auto

text \<open>(C26) Iterating does not leak cache handles: after seeking to any key in a table opened on a cache
  and taking any number of steps, destroying the iterator leaves exactly the handles of the other
  clients, so that entries of this table can be evicted again.\<close>

theorem iterator_releases_blocks:
  assumes "table_file sn bs es ix B ft" "file_holds read bs" "cache_ready N H (Some cache)"
  shows "\<exists>t it c. Table_Open sn (Some cache) read (word_of_nat (length bs)) = Some (OkStatus, Some t) \<and>
    Option.bind (TwoLevel_Seek (BlockReader sn) call_cleanup (Table_NewIterator t) k) (advance sn n) = Some it \<and>
    tr_block_cache (TwoLevel_destroy call_cleanup it) = Some c \<and> sc_inv N c H"
proof -
  obtain t where t: "Table_Open sn (Some cache) read (word_of_nat (length bs)) = Some (OkStatus, Some t)" "opened sn bs ix B N H t"
    using Table_Open_file [OF assms] by blast
  obtain it1 i where it1: "TwoLevel_Seek (BlockReader sn) call_cleanup (Table_NewIterator t) k = Some it1"
    "tl_pos (table_good sn bs ix B N H) (table_reads ix B) (concat B) it1 i"
    using table.over_seek [OF opened_over [OF t(2)]] by blast
  obtain it j where it: "advance sn n it1 = Some it" "tl_pos (table_good sn bs ix B N H) (table_reads ix B) (concat B) it j"
    using advance_pos [OF it1(2)] by blast
  have "table_good sn bs ix B N H (TwoLevel_destroy call_cleanup it) []"
    using table.pos_over [OF it(2)] table.destroy_good by blast
  moreover have "N \<noteq> 0" using assms(3) by (auto simp: cache_ready_def)
  ultimately obtain c where "tr_block_cache (TwoLevel_destroy call_cleanup it) = Some c" "sc_inv N c H"
    by (auto simp: table_good_def split: option.splits)
  with t(1) it1(1) it(1) show ?thesis by auto
qed

lemma cache_ready_init:
  assumes "unat ((capacity + (word_of_nat kNumShards - 1)) div word_of_nat kNumShards) \<le> N" "2 < N" "N < 2 ^ 31"
  shows "cache_ready N {#} (Some (ShardedLRUCache heap capacity))"
proof -
  have "sc_map (ShardedLRUCache heap capacity) k = None" for k
    using Shard_less [of "HashSlice k"]
    by (simp add: sc_map_def lru_map_def ShardedLRUCache_def Let_def SetCapacity_def LRUCache_def)
       (simp add: HandleTable_Lookup_def HandleTable_def nth_append bucket_of_less [of 2, simplified])
  then show ?thesis using assms sc_inv_init [OF assms(1,3)] by (simp add: cache_ready_def)
qed

theorem iterator_releases_blocks_witness:
  "\<exists>bs t it c. Table_Open no_snappy (Some (ShardedLRUCache undefined 64)) (mem_reader bs) (word_of_nat (length bs)) =
      Some (OkStatus, Some t) \<and>
    Option.bind (TwoLevel_Seek (BlockReader no_snappy) call_cleanup (Table_NewIterator t) [1]) (advance no_snappy 2) = Some it \<and>
    tr_block_cache (TwoLevel_destroy call_cleanup it) = Some c \<and> sc_inv 100 c {#}"
proof -
  let ?es = "[([1], [7]), ([1, 2], [8]), ([3], [])] :: entry list"
  have "sorted_entries ?es" "table_bound ?es + 100 < 2 ^ 32" "id [] = ([] :: bytes)"
    by (simp_all add: table_bound_def)
  from build_table_file [OF appends_mem_append snappy_ok_no_snappy this(3,1,2),
      of "\<lparr>block_size = 30, block_restart_interval = 2, compression = kSnappyCompression\<rparr>"]
  obtain bs ix B ft where "table_file no_snappy bs ?es ix B ft" by metis
  moreover have "cache_ready 100 {#} (Some (ShardedLRUCache undefined 64))"
    by (rule cache_ready_init) (simp_all add: kNumShards_def kNumShardBits_def)
  ultimately show ?thesis
    using iterator_releases_blocks [OF _ file_holds_mem_reader] by blast
qed

text \<open>The offsets that \<open>ApproximateOffsetOf\<close> reports grow with the key and do not exceed the size of the file.\<close>

theorem approximate_offset_monotone:
  assumes "table_file sn bs es ix B ft" "file_holds read bs" "cache_ready N H cache" "k \<le> k'"
  shows "\<exists>t a b. Table_Open sn cache read (word_of_nat (length bs)) = Some (OkStatus, Some t) \<and>
    ApproximateOffsetOf t k = Some a \<and> ApproximateOffsetOf t k' = Some b \<and> a \<le> b \<and> unat b \<le> length bs"
proof -
  obtain t where t: "Table_Open sn cache read (word_of_nat (length bs)) = Some (OkStatus, Some t)" "opened sn bs ix B N H t"
    "tr_metaindex_handle t = ft_metaindex_handle ft"
    using Table_Open_file [OF assms(1-3)] by blast
  have hb: "handles_before ix (unat (bh_offset (tr_metaindex_handle t)))"
    using assms(1) t(3) by (simp add: table_file_def)
  obtain a b where ab: "ApproximateOffsetOf t k = Some a" "ApproximateOffsetOf t k' = Some b" "a \<le> b"
    and "b \<le> bh_offset (tr_metaindex_handle t)"
    using ApproximateOffsetOf_bounds [OF t(2) hb assms(4)] by blast
  then have "unat b \<le> length bs"
    using metaindex_within [OF assms(1)] t(3) by (simp add: word_le_nat_alt)
  with t(1) ab show ?thesis by blast
qed

theorem approximate_offset_monotone_witness:
  "\<exists>bs t a b. Table_Open no_snappy None (mem_reader bs) (word_of_nat (length bs)) = Some (OkStatus, Some t) \<and>
    ApproximateOffsetOf t [1] = Some a \<and> ApproximateOffsetOf t [2] = Some b \<and> a \<le> b \<and> unat b \<le> length bs"
proof -
  let ?es = "[([1], [7]), ([1, 2], [8]), ([3], [])] :: entry list"
  have "sorted_entries ?es" "table_bound ?es + 100 < 2 ^ 32" "id [] = ([] :: bytes)"
    by (simp_all add: table_bound_def)
  from build_table_file [OF appends_mem_append snappy_ok_no_snappy this(3,1,2),
      of "\<lparr>block_size = 30, block_restart_interval = 2, compression = kSnappyCompression\<rparr>"]
  obtain bs ix B ft where "table_file no_snappy bs ?es ix B ft" by metis
  moreover have "cache_ready 0 {#} None" by (simp add: cache_ready_def)
  moreover have "[1] \<le> [2 :: byte]" by simp
  ultimately show ?thesis
    using approximate_offset_monotone [OF _ file_holds_mem_reader] by blast
qed

lemma EncodeFixed64_le_value: "length p = 8 \<Longrightarrow> EncodeFixed64 (word_of_nat (le_value p)) = p"
  using memcpy_out_in [of p] by (simp add: EncodeFixed64_le_bytes memcpy_in_le_value memcpy_out_le_bytes)

lemma Footer_DecodeFrom_magic:
  assumes "length p = kEncodedLength" "drop (length p - 8) p \<noteq> EncodeFixed64 kTableMagicNumber"
  shows "Footer_DecodeFrom f p = Some (Error DATA_LOSS ''not an sstable (bad magic number)'', f, p)"
proof -
  let ?m = "drop (kEncodedLength - 8) p"
  have m: "length ?m = 8" using assms(1) by (simp add: kEncodedLength_def)
  have "push_bit 32 (ucast (DecodeFixed32 (drop 4 ?m))) OR ucast (DecodeFixed32 ?m) \<noteq> kTableMagicNumber"
    using DecodeFixed32_pair [of ?m] EncodeFixed64_le_value [OF m] m assms by auto
  then show ?thesis using assms(1) by (simp add: Footer_DecodeFrom_def Let_def)
qed

text \<open>A file that cannot be a table is refused: one that is shorter than a footer, one whose last eight
  bytes are not the magic number, and one whose index block fails its checksum are reported as data
  loss, and no table is returned.\<close>

theorem open_rejects:
  assumes "file_holds read bs" "length bs < 2 ^ 64"
  shows "(length bs < kEncodedLength \<longrightarrow>
      Table_Open sn cache read (word_of_nat (length bs)) = Some (Error DATA_LOSS ''file is too short to be an sstable'', None)) \<and>
    (kEncodedLength \<le> length bs \<longrightarrow> drop (length bs - 8) bs \<noteq> EncodeFixed64 kTableMagicNumber \<longrightarrow>
      Table_Open sn cache read (word_of_nat (length bs)) = Some (Error DATA_LOSS ''not an sstable (bad magic number)'', None)) \<and>
    (\<forall>ft body. bs = body @ Footer_EncodeTo ft [] \<longrightarrow> \<not> ok (fst (ReadBlock sn read (ft_index_handle ft))) \<longrightarrow>
      Table_Open sn cache read (word_of_nat (length bs)) = Some (fst (ReadBlock sn read (ft_index_handle ft)), None))"
proof (intro conjI impI allI)
  have sz: "unat (word_of_nat (length bs) :: u64) = length bs" using assms(2) by (rule unat_of_nat_u64)
  show "Table_Open sn cache read (word_of_nat (length bs)) = Some (Error DATA_LOSS ''file is too short to be an sstable'', None)"
    if "length bs < kEncodedLength" using that by (simp add: Table_Open_def sz)
  show "Table_Open sn cache read (word_of_nat (length bs)) = Some (Error DATA_LOSS ''not an sstable (bad magic number)'', None)"
    if k: "kEncodedLength \<le> length bs" and magic: "drop (length bs - 8) bs \<noteq> EncodeFixed64 kTableMagicNumber"
  proof -
    obtain ib where rd: "read (word_of_nat (length bs) - word_of_nat kEncodedLength) kEncodedLength =
        (OkStatus, drop (length bs - kEncodedLength) bs, ib)" "\<not> unat (word_of_nat (length bs) :: u64) < kEncodedLength"
      using footer_read [OF assms k] .
    have "length (drop (length bs - kEncodedLength) bs) = kEncodedLength" using k by simp
    moreover have "drop (kEncodedLength - 8) (drop (length bs - kEncodedLength) bs) = drop (length bs - 8) bs"
      using k by (simp add: kEncodedLength_def)
    ultimately have "Footer_DecodeFrom Footer (drop (length bs - kEncodedLength) bs) =
        Some (Error DATA_LOSS ''not an sstable (bad magic number)'', Footer, drop (length bs - kEncodedLength) bs)"
      using magic by (intro Footer_DecodeFrom_magic) simp_all
    then show ?thesis unfolding Table_Open_def if_not_P [OF rd(2)] rd(1) Let_def prod.case by simp
  qed
  show "Table_Open sn cache read (word_of_nat (length bs)) = Some (fst (ReadBlock sn read (ft_index_handle ft)), None)"
    if bs: "bs = body @ Footer_EncodeTo ft []" and bad: "\<not> ok (fst (ReadBlock sn read (ft_index_handle ft)))" for ft body
  proof -
    have k: "kEncodedLength \<le> length bs" "drop (length bs - kEncodedLength) bs = Footer_EncodeTo ft []"
      by (simp_all add: bs length_Footer_EncodeTo)
    obtain ib where rd: "read (word_of_nat (length bs) - word_of_nat kEncodedLength) kEncodedLength = (OkStatus, Footer_EncodeTo ft [], ib)"
      "\<not> unat (word_of_nat (length bs) :: u64) < kEncodedLength"
      using footer_read [OF assms k(1)] unfolding k(2) .
    have "Footer_DecodeFrom Footer (Footer_EncodeTo ft []) = Some (OkStatus, ft, [])"
      using Footer_roundtrip [of Footer ft "[]"] by simp
    then show ?thesis
      unfolding Table_Open_def if_not_P [OF rd(2)] rd(1) Let_def prod.case using bad
      by (simp add: case_prod_beta)
  qed
qed

theorem open_rejects_witness:
  "Table_Open no_snappy None (mem_reader (replicate 60 7)) (word_of_nat (length (replicate 60 (7 :: byte)))) =
    Some (Error DATA_LOSS ''not an sstable (bad magic number)'', None)"
proof -
  have "hd (EncodeFixed64 kTableMagicNumber) = 0x57"
    using le_bytes.simps(2) [of 7] by (simp add: EncodeFixed64_le_bytes kTableMagicNumber_def)
  moreover have "hd (drop (length (replicate 60 (7 :: byte)) - 8) (replicate 60 7)) = (7 :: byte)" by simp
  moreover have "(7 :: byte) \<noteq> 0x57" by simp
  ultimately have "drop (length (replicate 60 (7 :: byte)) - 8) (replicate 60 7) \<noteq> EncodeFixed64 kTableMagicNumber"
    by metis
  moreover have "kEncodedLength \<le> length (replicate 60 (7 :: byte))" by (simp add: kEncodedLength_def kMaxEncodedLength_def)
  ultimately show ?thesis
    using open_rejects [OF file_holds_mem_reader, of "replicate 60 7" no_snappy None] by (simp only: length_replicate) simp
qed

end
