(* ===== verification/Tensor_Data.thy ===== *)
theory Tensor_Data
  imports Prelude
begin

text \<open>
  The data of a slice in its message: the templates \<open>Fill\<close>, \<open>TensorProtoData\<close> and \<open>TensorProtoDataSize\<close> of
  \<open>core/util/saved_tensor_slice_util.h\<close>.  The message is the record of the repeated fields that they use; a float, a
  double or a half is its bits, an \<open>int32\<close> or \<open>int64\<close> its value.  A pointer to \<open>n\<close> elements is the list of them.

  The locale \<open>saved_type\<close> is what the writer and the reader need of a type: that the data is found as it was filled in,
  and that the conversion of the copy loops gives the elements back.  It holds of every type that the header supports.
\<close>

record tensor_proto =
  half_val :: "int list"
  float_val :: "u32 list"
  double_val :: "u64 list"
  int_val :: "int list"
  string_val :: "bytes list"
  scomplex_val :: "u32 list"
  int64_val :: "int list"
  bool_val :: "bool list"
  dcomplex_val :: "u64 list"
  uint32_val :: "u32 list"
  uint64_val :: "u64 list"

definition no_tensor :: tensor_proto where
  "no_tensor = \<lparr>half_val = [], float_val = [], double_val = [], int_val = [], string_val = [], scomplex_val = [], int64_val = [],
     bool_val = [], dcomplex_val = [], uint32_val = [], uint64_val = []\<rparr>"

section \<open>The code\<close>

text \<open>The macro for a type with a field of its own or converted to that of another: \<open>upd\<close> is the update of the field.\<close>

definition TENSOR_PROTO_Fill :: "(('f list \<Rightarrow> 'f list) \<Rightarrow> tensor_proto \<Rightarrow> tensor_proto) \<Rightarrow> ('a \<Rightarrow> 'f) \<Rightarrow> 'a list \<Rightarrow> tensor_proto \<Rightarrow> tensor_proto" where
  "TENSOR_PROTO_Fill upd convert data t =
     (let copy = map convert data in upd (\<lambda>_. copy) t)"

definition TENSOR_PROTO_DataSize :: "(tensor_proto \<Rightarrow> 'f list) \<Rightarrow> tensor_proto \<Rightarrow> nat" where
  "TENSOR_PROTO_DataSize field t = length (field t)"

text \<open>Complex numbers: the elements, and the field, are read as an array of twice as many numbers.\<close>

fun flat :: "('f \<times> 'f) list \<Rightarrow> 'f list" where
  "flat [] = []"
| "flat ((re, im) # xs) = re # im # flat xs"

fun pairs :: "'f list \<Rightarrow> ('f \<times> 'f) list" where
  "pairs (re # im # xs) = (re, im) # pairs xs"
| "pairs xs = []"

definition TENSOR_PROTO_COMPLEX_Fill ::
    "(('f list \<Rightarrow> 'f list) \<Rightarrow> tensor_proto \<Rightarrow> tensor_proto) \<Rightarrow> ('f \<times> 'f) list \<Rightarrow> tensor_proto \<Rightarrow> tensor_proto" where
  "TENSOR_PROTO_COMPLEX_Fill upd data t =
     (let copy = flat data in upd (\<lambda>_. copy) t)"

definition TENSOR_PROTO_COMPLEX_DataSize :: "(tensor_proto \<Rightarrow> 'f list) \<Rightarrow> tensor_proto \<Rightarrow> nat" where
  "TENSOR_PROTO_COMPLEX_DataSize field t = length (field t) div 2"

definition TENSOR_PROTO_COMPLEX_Data :: "(tensor_proto \<Rightarrow> 'f list) \<Rightarrow> tensor_proto \<Rightarrow> ('f \<times> 'f) list" where
  "TENSOR_PROTO_COMPLEX_Data field t = pairs (field t)"

text \<open>
  The types.  The integers of at most 16 bits are converted to the \<open>int32\<close> of their field; \<open>qint8\<close>, \<open>quint8\<close> and
  \<open>quint16\<close> are stored as the integers of their width.
\<close>

definition Fill_bool :: "bool list \<Rightarrow> tensor_proto \<Rightarrow> tensor_proto" where
  "Fill_bool = TENSOR_PROTO_Fill bool_val_update (\<lambda>x. x)"

definition Fill_float :: "u32 list \<Rightarrow> tensor_proto \<Rightarrow> tensor_proto" where
  "Fill_float = TENSOR_PROTO_Fill float_val_update (\<lambda>x. x)"

definition Fill_double :: "u64 list \<Rightarrow> tensor_proto \<Rightarrow> tensor_proto" where
  "Fill_double = TENSOR_PROTO_Fill double_val_update (\<lambda>x. x)"

definition Fill_complex64 :: "(u32 \<times> u32) list \<Rightarrow> tensor_proto \<Rightarrow> tensor_proto" where
  "Fill_complex64 = TENSOR_PROTO_COMPLEX_Fill scomplex_val_update"

definition Fill_complex128 :: "(u64 \<times> u64) list \<Rightarrow> tensor_proto \<Rightarrow> tensor_proto" where
  "Fill_complex128 = TENSOR_PROTO_COMPLEX_Fill dcomplex_val_update"

definition Fill_int32 :: "int list \<Rightarrow> tensor_proto \<Rightarrow> tensor_proto" where
  "Fill_int32 = TENSOR_PROTO_Fill int_val_update (\<lambda>x. x)"

definition Fill_uint32 :: "u32 list \<Rightarrow> tensor_proto \<Rightarrow> tensor_proto" where
  "Fill_uint32 = TENSOR_PROTO_Fill uint32_val_update (\<lambda>x. x)"

definition Fill_int64 :: "int list \<Rightarrow> tensor_proto \<Rightarrow> tensor_proto" where
  "Fill_int64 = TENSOR_PROTO_Fill int64_val_update (\<lambda>x. x)"

definition Fill_uint64 :: "u64 list \<Rightarrow> tensor_proto \<Rightarrow> tensor_proto" where
  "Fill_uint64 = TENSOR_PROTO_Fill uint64_val_update (\<lambda>x. x)"

definition Fill_uint16 :: "u16 list \<Rightarrow> tensor_proto \<Rightarrow> tensor_proto" where
  "Fill_uint16 = TENSOR_PROTO_Fill int_val_update uint"

definition Fill_uint8 :: "byte list \<Rightarrow> tensor_proto \<Rightarrow> tensor_proto" where
  "Fill_uint8 = TENSOR_PROTO_Fill int_val_update uint"

definition Fill_int8 :: "byte list \<Rightarrow> tensor_proto \<Rightarrow> tensor_proto" where
  "Fill_int8 = TENSOR_PROTO_Fill int_val_update sint"

definition Fill_int16 :: "u16 list \<Rightarrow> tensor_proto \<Rightarrow> tensor_proto" where
  "Fill_int16 = TENSOR_PROTO_Fill int_val_update sint"

definition Fill_qint32 :: "int list \<Rightarrow> tensor_proto \<Rightarrow> tensor_proto" where
  "Fill_qint32 data t =
     (let copy = data in t\<lparr>int_val := copy\<rparr>)"

text \<open>The half is stored in a loop, after the field has been given its size.\<close>

definition Resize :: "nat \<Rightarrow> 'f \<Rightarrow> 'f list \<Rightarrow> 'f list" where
  "Resize n v val = take n val @ replicate (n - length val) v"

primrec half_loop :: "u16 list \<Rightarrow> nat \<Rightarrow> int list \<Rightarrow> int list" where
  "half_loop [] i val = val"
| "half_loop (x # data) i val = half_loop data (i + 1) (val[i := uint x])"

definition Fill_half :: "u16 list \<Rightarrow> tensor_proto \<Rightarrow> tensor_proto" where
  "Fill_half data t = t\<lparr>half_val := half_loop data 0 (Resize (length data) 0 (half_val t))\<rparr>"

definition Fill_string :: "bytes list \<Rightarrow> tensor_proto \<Rightarrow> tensor_proto" where
  "Fill_string data t =
     (let copy = data in t\<lparr>string_val := copy\<rparr>)"

section \<open>What the writer and the reader need of a type\<close>

text \<open>
  \<open>data\<close> and \<open>size\<close> are what \<open>TensorProtoData\<close> points to and \<open>TensorProtoDataSize\<close>; \<open>enc\<close> is the value that is
  stored for an element and \<open>cast\<close> the conversion back.
\<close>

locale saved_type =
  fixes fill :: "'a list \<Rightarrow> tensor_proto \<Rightarrow> tensor_proto" and data :: "tensor_proto \<Rightarrow> 's list" and size :: "tensor_proto \<Rightarrow> nat"
    and enc :: "'a \<Rightarrow> 's" and cast :: "'s \<Rightarrow> 'a"
  assumes data_fill: "data (fill xs t) = map enc xs"
    and size_data: "size t = length (data t)"
    and cast_enc: "cast (enc x) = x"
begin

lemma size_fill: "size (fill xs t) = length xs"
  by (simp add: size_data data_fill)

lemma restore_fill: "map cast (data (fill xs t)) = xs"
  by (simp add: data_fill cast_enc comp_def)

end

lemma pairs_flat: "pairs (flat xs) = xs"
  by (induction xs rule: flat.induct) simp_all

lemma length_pairs: "length (pairs xs) = length xs div 2"
  by (induction xs rule: pairs.induct) simp_all

lemma length_half_loop [simp]: "length (half_loop data i val) = length val"
  by (induction data arbitrary: i val) simp_all

lemma half_loop_law: "length val = i + length data \<Longrightarrow> half_loop data i val = take i val @ map uint data"
proof (induction data arbitrary: i val)
  case (Cons x data)
  have "half_loop (x # data) i val = take (i + 1) (val[i := uint x]) @ map uint data" using Cons by simp
  also have "take (i + 1) (val[i := uint x]) = take i val @ [uint x]" using Cons.prems by (simp add: take_Suc_conv_app_nth)
  finally show ?case by simp
qed simp

lemma length_Resize [simp]: "length (Resize n v val) = n"
  by (simp add: Resize_def)

lemmas type_defs = Fill_bool_def Fill_float_def Fill_double_def Fill_complex64_def Fill_complex128_def Fill_int32_def Fill_uint32_def Fill_int64_def
  Fill_uint64_def Fill_uint16_def Fill_uint8_def Fill_int8_def Fill_int16_def Fill_qint32_def Fill_string_def
  TENSOR_PROTO_Fill_def TENSOR_PROTO_DataSize_def TENSOR_PROTO_COMPLEX_Fill_def TENSOR_PROTO_COMPLEX_DataSize_def TENSOR_PROTO_COMPLEX_Data_def
  pairs_flat length_pairs Let_def

interpretation bool_type: saved_type Fill_bool bool_val "TENSOR_PROTO_DataSize bool_val" "\<lambda>x. x" "\<lambda>x. x"
  by unfold_locales (simp_all add: type_defs)

interpretation float_type: saved_type Fill_float float_val "TENSOR_PROTO_DataSize float_val" "\<lambda>x. x" "\<lambda>x. x"
  by unfold_locales (simp_all add: type_defs)

interpretation double_type: saved_type Fill_double double_val "TENSOR_PROTO_DataSize double_val" "\<lambda>x. x" "\<lambda>x. x"
  by unfold_locales (simp_all add: type_defs)

interpretation complex64_type: saved_type Fill_complex64 "TENSOR_PROTO_COMPLEX_Data scomplex_val" "TENSOR_PROTO_COMPLEX_DataSize scomplex_val" "\<lambda>x. x" "\<lambda>x. x"
  by unfold_locales (simp_all add: type_defs)

interpretation complex128_type: saved_type Fill_complex128 "TENSOR_PROTO_COMPLEX_Data dcomplex_val" "TENSOR_PROTO_COMPLEX_DataSize dcomplex_val" "\<lambda>x. x" "\<lambda>x. x"
  by unfold_locales (simp_all add: type_defs)

interpretation int32_type: saved_type Fill_int32 int_val "TENSOR_PROTO_DataSize int_val" "\<lambda>x. x" "\<lambda>x. x"
  by unfold_locales (simp_all add: type_defs)

interpretation uint32_type: saved_type Fill_uint32 uint32_val "TENSOR_PROTO_DataSize uint32_val" "\<lambda>x. x" "\<lambda>x. x"
  by unfold_locales (simp_all add: type_defs)

interpretation int64_type: saved_type Fill_int64 int64_val "TENSOR_PROTO_DataSize int64_val" "\<lambda>x. x" "\<lambda>x. x"
  by unfold_locales (simp_all add: type_defs)

interpretation uint64_type: saved_type Fill_uint64 uint64_val "TENSOR_PROTO_DataSize uint64_val" "\<lambda>x. x" "\<lambda>x. x"
  by unfold_locales (simp_all add: type_defs)

interpretation uint16_type: saved_type Fill_uint16 int_val "TENSOR_PROTO_DataSize int_val" uint word_of_int
  by unfold_locales (simp_all add: type_defs)

interpretation uint8_type: saved_type Fill_uint8 int_val "TENSOR_PROTO_DataSize int_val" uint word_of_int
  by unfold_locales (simp_all add: type_defs)

interpretation int8_type: saved_type Fill_int8 int_val "TENSOR_PROTO_DataSize int_val" sint word_of_int
  by unfold_locales (simp_all add: type_defs)

interpretation int16_type: saved_type Fill_int16 int_val "TENSOR_PROTO_DataSize int_val" sint word_of_int
  by unfold_locales (simp_all add: type_defs)

interpretation qint32_type: saved_type Fill_qint32 int_val "TENSOR_PROTO_DataSize int_val" "\<lambda>x. x" "\<lambda>x. x"
  by unfold_locales (simp_all add: type_defs)

interpretation half_type: saved_type Fill_half half_val "TENSOR_PROTO_DataSize half_val" uint word_of_int
  by unfold_locales (simp_all add: Fill_half_def half_loop_law TENSOR_PROTO_DataSize_def)

interpretation string_type: saved_type Fill_string string_val "TENSOR_PROTO_DataSize string_val" "\<lambda>x. x" "\<lambda>x. x"
  by unfold_locales (simp_all add: type_defs)

end
