(* ===== verification/Slice_Reader.thy ===== *)
theory Slice_Reader
  imports Checkpoint_Key Slice_Copy Table Tensor_Data
begin

text \<open>
  Reading checkpoints: \<open>core/util/tensor_slice_reader.cc\<close> and \<open>tensor_slice_reader.h\<close>, with \<open>CheckVersions\<close> of
  \<open>core/framework/versions.cc\<close>.  A checkpoint is a set of tables; each has a message with the tensors and slices it holds
  under the first key, and the data of each slice under the key of the slice.  The reader registers the slices of the
  tables and puts the data of a slice together from the slices that share an index vector with it.

  The parameters of the reader are in a record: the tables, as the locale \<open>shard\<close> describes them, the parser of the
  messages, the order of iteration over hash maps, and Eigen.  The template argument of \<open>CopySliceData\<close> is there too:
  \<open>re_vals\<close> is \<open>TensorProtoData\<close> and \<open>re_copy\<close> the copy loops for the type, modelled in \<open>Tensor_Data\<close> and
  \<open>Slice_Copy\<close>.  \<open>None\<close> is a call that does not return.

  The theory shows that a table is such a shard, that loading refines a catalogue of tensors and slices, and that
  \<open>CopySliceData\<close> returns true exactly when the registered slices have all the data and then fills the array with
  the elements of the tensor.
\<close>

section \<open>Versions\<close>

record version_def =
  vd_producer :: int
  vd_min_consumer :: int
  vd_bad_consumers :: "int list"

definition TF_CHECKPOINT_VERSION_MIN_PRODUCER :: int where "TF_CHECKPOINT_VERSION_MIN_PRODUCER = 0"
definition TF_CHECKPOINT_VERSION_MIN_CONSUMER :: int where "TF_CHECKPOINT_VERSION_MIN_CONSUMER = 0"
definition TF_CHECKPOINT_VERSION :: int where "TF_CHECKPOINT_VERSION = 1"

text \<open>\<open>tf\<close> is the text of the version of TensorFlow.\<close>

definition CheckVersions :: "string \<Rightarrow> version_def \<Rightarrow> int \<Rightarrow> int \<Rightarrow> string \<Rightarrow> string \<Rightarrow> status" where
  "CheckVersions tf versions consumer min_producer upper_name lower_name =
     (if consumer < min_producer
      then Error INTERNAL (upper_name @ '' version check has consumer '' @ num consumer @ '' < min_producer '' @ num min_producer @ ''.'')
      else if vd_producer versions < min_producer
      then Error INVALID_ARGUMENT (upper_name @ '' producer version '' @ num (vd_producer versions) @ '' below min producer '' @
             num min_producer @ '' supported by TensorFlow '' @ tf @ ''.  Please regenerate your '' @ lower_name @ ''.'')
      else if vd_min_consumer versions > consumer
      then Error INVALID_ARGUMENT (upper_name @ '' min consumer version '' @ num (vd_min_consumer versions) @ '' above current version '' @
             num consumer @ '' for TensorFlow '' @ tf @ ''.  Please upgrade TensorFlow.'')
      else if consumer \<in> set (vd_bad_consumers versions)
      then Error INVALID_ARGUMENT (upper_name @ '' disallows consumer version '' @ num consumer @
             ''.  Please upgrade TensorFlow: this version is likely buggy.'')
      else OkStatus)"

section \<open>Messages\<close>

text \<open>The fields of \<open>SavedTensorSlices\<close> that the code uses; \<open>'p\<close> is the message with the data of a slice.\<close>

record saved_slice_meta =
  ssm_name :: bytes
  ssm_shape :: shape_proto
  ssm_type :: dtype
  ssm_slices :: "slice_proto list"

record 'p saved_slice =
  ss_name :: bytes
  ss_slice :: slice_proto
  ss_data :: 'p

record 'p saved_tensor_slices =
  sts_tensors :: "saved_slice_meta list"
  sts_versions :: version_def
  sts_data :: "'p saved_slice"

section \<open>The reader\<close>

record ('t, 'p, 'a, 'b) reader_env =
  re_raw :: shape_rep
  re_order :: iteration
  re_extent_text :: "extent_proto \<Rightarrow> string"
  re_type_text :: "dtype \<Rightarrow> string"
  re_status_text :: "status \<Rightarrow> string"
  re_version :: string
  re_open :: "string \<Rightarrow> (status \<times> 't option) option"
  re_get :: "'t \<Rightarrow> bytes \<Rightarrow> (bytes option \<times> 't) option"
  re_parse :: "bytes \<Rightarrow> 'p saved_tensor_slices option"
  re_vals :: "'p \<Rightarrow> 'a list"
  re_copy :: "('a, 'b) copier"

record 't slice_reader =
  rd_filepattern :: string
  rd_fnames :: "string list"
  rd_fname_to_index :: "string \<rightharpoonup> nat"
  rd_all_shards_loaded :: bool
  rd_sss :: "'t option list"
  rd_tensors :: "string \<rightharpoonup> slice_set"
  rd_status :: status

text \<open>The slices of one tensor; the loops stop when the status is an error.\<close>

fun load_slices ::
    "('t, 'p, 'a, 'b) reader_env \<Rightarrow> string \<Rightarrow> bytes \<Rightarrow> shape_rep \<Rightarrow> dtype \<Rightarrow> slice_proto list \<Rightarrow> 't slice_reader \<Rightarrow> 't slice_reader option" where
  "load_slices env fname name shape ty [] r = Some r"
| "load_slices env fname name shape ty (tsp # tsps) r =
     (let (s, ss_slice) = BuildTensorSlice (re_extent_text env) tsp TensorSlice in
      if \<not> ok s then Some (r\<lparr>rd_status := s\<rparr>)
      else
        Option.bind (RegisterTensorSlice (re_raw env) (re_order env) (re_type_text env) (text_of name) shape ty fname ss_slice (rd_tensors r)) (\<lambda>(s, m).
          let r = r\<lparr>rd_status := s, rd_tensors := m\<rparr> in
          if \<not> ok s then Some r else load_slices env fname name shape ty tsps r))"

fun load_tensors :: "('t, 'p, 'a, 'b) reader_env \<Rightarrow> string \<Rightarrow> saved_slice_meta list \<Rightarrow> 't slice_reader \<Rightarrow> 't slice_reader option" where
  "load_tensors env fname [] r = Some r"
| "load_tensors env fname (ssm # ssms) r =
     Option.bind (BuildTensorShapeBase_proto False (ssm_shape ssm) (TensorShapeBase False (re_raw env))) (\<lambda>(s, shape).
       let r = r\<lparr>rd_status := s\<rparr> in
       if \<not> ok s then Some r
       else
         Option.bind (load_slices env fname (ssm_name ssm) shape (ssm_type ssm) (ssm_slices ssm) r) (\<lambda>r.
           if \<not> ok (rd_status r) then Some r else load_tensors env fname ssms r))"

definition LoadShard :: "('t, 'p, 'a, 'b) reader_env \<Rightarrow> nat \<Rightarrow> 't slice_reader \<Rightarrow> 't slice_reader option" where
  "LoadShard env shard r =
     (if \<not> shard < length (rd_sss r) then None
      else if rd_sss r ! shard \<noteq> None \<or> \<not> ok (rd_status r) then Some r
      else
        let fname = rd_fnames r ! shard in
        Option.bind (re_open env fname) (\<lambda>(s, table).
          if \<not> ok s then Some (r\<lparr>rd_status := Error DATA_LOSS (''Unable to open table file '' @ fname @ '': '' @ re_status_text env s)\<rparr>)
          else
            Option.bind table (\<lambda>t.
            Option.bind (re_get env t kSavedTensorSlicesKey) (\<lambda>(v, t).
              let r = r\<lparr>rd_sss := (rd_sss r)[shard := Some t]\<rparr> in
              case Option.bind v (re_parse env) of
                None \<Rightarrow> Some (r\<lparr>rd_status := Error INTERNAL
                  (''Failed to find the saved tensor slices at the beginning of the checkpoint file: '' @ fname)\<rparr>)
              | Some sts \<Rightarrow>
                  let r = r\<lparr>rd_status := CheckVersions (re_version env) (sts_versions sts) TF_CHECKPOINT_VERSION
                        TF_CHECKPOINT_VERSION_MIN_PRODUCER ''Checkpoint'' ''checkpoint''\<rparr>
                  in if \<not> ok (rd_status r) then Some r else load_tensors env fname (sts_tensors sts) r))))"

fun load_shards :: "('t, 'p, 'a, 'b) reader_env \<Rightarrow> nat list \<Rightarrow> 't slice_reader \<Rightarrow> 't slice_reader option" where
  "load_shards env [] r = Some r"
| "load_shards env (i # is) r = (if \<not> ok (rd_status r) then Some r else Option.bind (LoadShard env i r) (load_shards env is))"

definition LoadAllShards :: "('t, 'p, 'a, 'b) reader_env \<Rightarrow> 't slice_reader \<Rightarrow> 't slice_reader option" where
  "LoadAllShards env r =
     map_option (\<lambda>r. r\<lparr>rd_all_shards_loaded := True\<rparr>) (load_shards env [0..<length (rd_fnames r)] r)"

text \<open>The constructor; \<open>matching\<close> is the result of \<open>GetMatchingPaths\<close>, and a shard of -1 asks for all.\<close>

fun index_fnames :: "nat \<Rightarrow> string list \<Rightarrow> (string \<rightharpoonup> nat) \<Rightarrow> (string \<rightharpoonup> nat)" where
  "index_fnames shard [] m = m"
| "index_fnames shard (f # fs) m = index_fnames (Suc shard) fs (if m f = None then m(f \<mapsto> shard) else m)"

definition kLoadAllShards :: int where "kLoadAllShards = -1"

definition TensorSliceReader ::
    "('t, 'p, 'a, 'b) reader_env \<Rightarrow> string \<Rightarrow> status \<times> string list \<Rightarrow> int \<Rightarrow> 't slice_reader option" where
  "TensorSliceReader env filepattern matching preferred_shard =
     (let (s, fnames) = matching;
          r = \<lparr>rd_filepattern = filepattern, rd_fnames = fnames, rd_fname_to_index = Map.empty, rd_all_shards_loaded = False,
               rd_sss = [], rd_tensors = Map.empty, rd_status = OkStatus\<rparr>
      in if \<not> ok s
         then Some (r\<lparr>rd_status := Error INVALID_ARGUMENT (''Unsuccessful TensorSliceReader constructor: Failed to get matching files on '' @
                filepattern @ '': '' @ re_status_text env s)\<rparr>)
         else if fnames = []
         then Some (r\<lparr>rd_status := Error NOT_FOUND
                (''Unsuccessful TensorSliceReader constructor: Failed to find any matching files for '' @ filepattern)\<rparr>)
         else
           let r = r\<lparr>rd_sss := replicate (length fnames) None, rd_fname_to_index := index_fnames 0 fnames Map.empty\<rparr> in
           if preferred_shard = kLoadAllShards \<or> length fnames = 1 \<or> preferred_shard < 0 \<or> nat preferred_shard \<ge> length fnames
           then LoadAllShards env r
           else LoadShard env (nat preferred_shard) r)"

text \<open>The set of the tensor when it has the slice, and the slices that supply it.\<close>

definition FindTensorSlice ::
    "('t, 'p, 'a, 'b) reader_env \<Rightarrow> bytes \<Rightarrow> tensor_slice \<Rightarrow> 't slice_reader \<Rightarrow> (slice_set option \<times> (tensor_slice \<times> string) list) option" where
  "FindTensorSlice env name sl r =
     (case rd_tensors r (text_of name) of
        None \<Rightarrow> Some (None, [])
      | Some tss \<Rightarrow> map_option (\<lambda>(b, details). (if b then Some tss else None, details)) (QueryMeta (re_raw env) (re_order env) sl tss))"

definition HasTensor :: "('t, 'p, 'a, 'b) reader_env \<Rightarrow> bytes \<Rightarrow> 't slice_reader \<Rightarrow> ((shape_rep \<times> dtype) option \<times> 't slice_reader) option" where
  "HasTensor env name r =
     map_option (\<lambda>r. (map_option (\<lambda>tss. (tss_shape tss, tss_type tss)) (rd_tensors r (text_of name)), r))
       (if rd_tensors r (text_of name) = None \<and> \<not> rd_all_shards_loaded r then LoadAllShards env r else Some r)"

fun copy_details ::
    "('t, 'p, 'a, 'b) reader_env \<Rightarrow> bytes \<Rightarrow> tensor_slice \<Rightarrow> slice_set \<Rightarrow> (tensor_slice \<times> string) list \<Rightarrow> 'b list \<Rightarrow> 't slice_reader \<Rightarrow>
     (bool \<times> 'b list \<times> 't slice_reader) option" where
  "copy_details env name sl tss [] dat r = Some (True, dat, r)"
| "copy_details env name sl tss ((slice_s, fname) # details) dat r =
     Option.bind (rd_fname_to_index r fname) (\<lambda>idx.
     Option.bind (rd_sss r ! idx) (\<lambda>t.
     Option.bind (re_get env t (EncodeTensorNameSlice name slice_s)) (\<lambda>(v, t).
       let r = r\<lparr>rd_sss := (rd_sss r)[idx := Some t]\<rparr> in
       case Option.bind v (re_parse env) of
         None \<Rightarrow> Some (False, dat, r)
       | Some sts \<Rightarrow>
           Option.bind (SliceTensorShape (tss_shape tss) (TensorShapeBase False (re_raw env)) slice_s) (\<lambda>(s, shp_s).
             if \<not> ok s then Some (False, dat, r)
             else
               let p = re_vals env (ss_data (sts_data sts)) in
               if int (length p) \<noteq> sr_num_elements shp_s then Some (False, dat, r)
               else
                 Option.bind (CopyDataFromTensorSliceToTensorSlice (re_raw env) (re_copy env) (tss_shape tss) slice_s sl p dat) (\<lambda>(b, dat).
                   copy_details env name sl tss details dat r)))))"

definition CopySliceData ::
    "('t, 'p, 'a, 'b) reader_env \<Rightarrow> bytes \<Rightarrow> tensor_slice \<Rightarrow> 'b list \<Rightarrow> 't slice_reader \<Rightarrow> (bool \<times> 'b list \<times> 't slice_reader) option" where
  "CopySliceData env name sl dat r =
     Option.bind (FindTensorSlice env name sl r) (\<lambda>(tss, details).
     Option.bind
       (if tss = None \<and> \<not> rd_all_shards_loaded r
        then Option.bind (LoadAllShards env r) (\<lambda>r. map_option (\<lambda>(tss, details). (tss, details, r)) (FindTensorSlice env name sl r))
        else Some (tss, details, r)) (\<lambda>(tss, details, r).
       case tss of
         None \<Rightarrow> Some (False, dat, r)
       | Some tss \<Rightarrow> copy_details env name sl tss details dat r))"

text \<open>The types of the \<open>switch\<close>, by their numbers in \<open>types.proto\<close>: float, double, int32, uint8, int16, int8, int64 and
  string.\<close>

definition reader_copy_types :: "dtype list" where
  "reader_copy_types = [1, 2, 3, 4, 5, 6, 9, 7]"

text \<open>\<open>build\<close> is \<open>Tensor::BuildTensor\<close>, with the array of the tensor.  The first entry of a map without entries cannot be
  read.\<close>

definition GetTensor ::
    "('t, 'p, 'a, 'b) reader_env \<Rightarrow> (dtype \<Rightarrow> shape_rep \<Rightarrow> status \<times> 'b list) \<Rightarrow> bytes \<Rightarrow> 't slice_reader \<Rightarrow>
     (status \<times> 'b list option \<times> 't slice_reader) option" where
  "GetTensor env build name r =
     (case rd_tensors r (text_of name) of
        None \<Rightarrow> Some (Error NOT_FOUND (text_of name @ '' not found in checkpoint file''), None, r)
      | Some tss \<Rightarrow>
          if length (tss_slices tss) > 1 then Some (Error UNIMPLEMENTED ''Sliced checkpoints are not supported'', None, r)
          else
            case re_order env (tss_slices tss) of
              [] \<Rightarrow> None
            | x # _ \<Rightarrow>
                let (s, dat) = build (tss_type tss) (tss_shape tss) in
                if \<not> ok s then Some (s, None, r)
                else if tss_type tss \<notin> set reader_copy_types then Some (Error UNIMPLEMENTED ''Data type not supported'', None, r)
                else
                  map_option (\<lambda>(success, dat, r).
                      if \<not> success then (Error NOT_FOUND (text_of name @ '' not found in checkpoint file''), None, r) else (OkStatus, Some dat, r))
                    (CopySliceData env name (si_slice (snd x)) dat r))"

definition GetVariableToShapeMap :: "'t slice_reader \<Rightarrow> (string \<rightharpoonup> shape_rep)" where
  "GetVariableToShapeMap r = (if ok (rd_status r) then map_option tss_shape \<circ> rd_tensors r else Map.empty)"

definition GetVariableToDataTypeMap :: "'t slice_reader \<Rightarrow> (string \<rightharpoonup> dtype)" where
  "GetVariableToDataTypeMap r = (if ok (rd_status r) then map_option tss_type \<circ> rd_tensors r else Map.empty)"

text \<open>\<open>entries\<close> are the entries of the map of tensors in the order of iteration.\<close>

definition reader_DebugString :: "(dtype \<Rightarrow> string) \<Rightarrow> (string \<times> slice_set) list \<Rightarrow> 't slice_reader \<Rightarrow> string" where
  "reader_DebugString DataType_Name entries r =
     (if ok (rd_status r)
      then concat (map (\<lambda>(name, tss). name @ '' ('' @ DataType_Name (tss_type tss) @ '') '' @ DebugString (tss_shape tss) @
             (let num_slices = length (tss_slices tss) in if num_slices > 1 then '', '' @ num (int num_slices) @ '' slices'' else '''') @ [char_of (10 :: nat)])
           entries)
      else '''')"

section \<open>The shards of a checkpoint in table files\<close>

text \<open>\<open>TensorSliceReaderTable\<close>: the iterator of the table is destroyed at the end.\<close>

definition Shard_Get :: "snappy \<Rightarrow> table \<Rightarrow> bytes \<Rightarrow> (bytes option \<times> table) option" where
  "Shard_Get sn t key =
     map_option (\<lambda>iter.
         (if TwoLevel_Valid iter \<and> TwoLevel_key iter = Some key then TwoLevel_value iter else None,
          TwoLevel_destroy call_cleanup iter))
       (TwoLevel_Seek (BlockReader sn) call_cleanup (Table_NewIterator t) key)"

text \<open>\<open>new_file\<close> and \<open>file_size\<close> are \<open>NewRandomAccessFile\<close> and \<open>GetFileSize\<close> of the file system.\<close>

definition OpenTableTensorSliceReader ::
    "snappy \<Rightarrow> (string \<Rightarrow> status \<times> file_reader) \<Rightarrow> (string \<Rightarrow> status \<times> u64) \<Rightarrow> string \<Rightarrow> (status \<times> table option) option" where
  "OpenTableTensorSliceReader sn new_file file_size fname =
     (let (s, f) = new_file fname in
      if \<not> ok s then Some (s, None)
      else
        let (s, sz) = file_size fname in
        if \<not> ok s then Some (s, None)
        else
          Option.bind (Table_Open sn None f sz) (\<lambda>(s, table).
            case s of
              OkStatus \<Rightarrow> Option.bind table (\<lambda>t. Some (OkStatus, Some t))
            | Error c m \<Rightarrow> Some (Error c (m @
                '': perhaps your file is in a different file format and you need to use a different restore operator?''), None)))"

section \<open>The interface to a shard\<close>

text \<open>A shard stands for a map from keys to values, which reading does not change.\<close>

locale shard =
  fixes get :: "'t \<Rightarrow> bytes \<Rightarrow> (bytes option \<times> 't) option" and has :: "'t \<Rightarrow> (bytes \<rightharpoonup> bytes) \<Rightarrow> bool"
  assumes get_has: "has t m \<Longrightarrow> \<exists>t'. get t k = Some (m k, t') \<and> has t' m"

text \<open>Reading a table does not change its index, so that it can be read again.\<close>

lemma run_cleanup_index: "tr_index_block (run_cleanup call_cleanup cs t) = tr_index_block t"
proof (induction cs arbitrary: t)
  case (Cons c cs)
  have "tr_index_block (call_cleanup c t) = tr_index_block t" by (cases c) simp_all
  with Cons show ?case by simp
qed simp

lemma BlockReader_index: "BlockReader sn t h = Some (d, t') \<Longrightarrow> tr_index_block t' = tr_index_block t"
  by (auto simp: BlockReader_def Let_def split: prod.splits if_splits option.splits)

interpretation reread: block_function "BlockReader sn" call_cleanup
  "\<lambda>t cs. table_good sn bs ix B N H t cs \<and> tr_index_block t = ib" "table_reads ix B" for sn bs ix B N H ib
proof (unfold_locales, goal_cases)
  case (1 a cs h b)
  then show ?case using table.bf_reads [of sn bs ix B N H a cs h b] BlockReader_index by blast
next
  case (2 a cs ds)
  then show ?case using table.cleanup_good run_cleanup_index by blast
next
  case (3 h b b')
  then show ?case by (rule table.reads_inject)
qed

definition table_has :: "snappy \<Rightarrow> table \<Rightarrow> (bytes \<rightharpoonup> bytes) \<Rightarrow> bool" where
  "table_has sn t m \<longleftrightarrow> (\<exists>bs ix B N H. opened sn bs ix B N H t \<and> m = map_of (concat B))"

interpretation tables: shard "Shard_Get sn" "table_has sn" for sn
proof
  fix t m k
  assume "table_has sn t m"
  then obtain bs ix B N H where o: "opened sn bs ix B N H t" and m: "m = map_of (concat B)" by (auto simp: table_has_def)
  let ?good = "\<lambda>u cs. table_good sn bs ix B N H u cs \<and> tr_index_block u = tr_index_block t"
  have over: "tl_over ?good (table_reads ix B) (concat B) (Table_NewIterator t)"
    using o unfolding tl_over_def tl_at_def opened_def
    by (intro exI [of _ ix] exI [of _ B]) (auto simp: Table_NewIterator_def TwoLevelIterator_def tl_held_def table_good_def)
  obtain it where it: "TwoLevel_Seek (BlockReader sn) call_cleanup (Table_NewIterator t) k = Some it"
    "tl_pos ?good (table_reads ix B) (concat B) it (lower_bound (concat B) k)"
    using reread.over_seek [OF over] by blast
  have "?good (TwoLevel_destroy call_cleanup it) []" using reread.pos_over [OF it(2)] reread.destroy_good by blast
  then have "opened sn bs ix B N H (TwoLevel_destroy call_cleanup it)" using o by (simp add: opened_def)
  then have "table_has sn (TwoLevel_destroy call_cleanup it) m" unfolding table_has_def using m by blast
  then show "\<exists>t'. Shard_Get sn t k = Some (m k, t') \<and> table_has sn t' m"
    using reread.seek_get [OF over it(1)] it(1) m by (auto simp: Shard_Get_def)
qed

section \<open>Reading a slice\<close>

text \<open>The shard with map \<open>m\<close> has the elements of the tensor \<open>T\<close> that lie in the slice, in the layout \<open>at\<close>.\<close>

definition stores ::
    "('t, 'p, 'a, 'b) reader_env \<Rightarrow> layout \<Rightarrow> int list \<Rightarrow> (int list \<Rightarrow> 'a) \<Rightarrow> bytes \<Rightarrow> (bytes \<rightharpoonup> bytes) \<Rightarrow> tensor_slice \<Rightarrow> bool" where
  "stores env at ds T name m s \<longleftrightarrow>
     (\<exists>val sts. m (EncodeTensorNameSlice name s) = Some val \<and> re_parse env val = Some sts \<and>
        length (re_vals env (ss_data (sts_data sts))) = card (cells ds s) \<and>
        (\<forall>v \<in> cells ds s. re_vals env (ss_data (sts_data sts)) ! offset at ds s v = T v))"

text \<open>The reader has an open shard for the file, and the shard stores the slice.\<close>

definition supplied ::
    "('t, 'p, 'a, 'b) reader_env \<Rightarrow> ('t \<Rightarrow> (bytes \<rightharpoonup> bytes) \<Rightarrow> bool) \<Rightarrow> layout \<Rightarrow> int list \<Rightarrow> (int list \<Rightarrow> 'a) \<Rightarrow> bytes \<Rightarrow>
     't slice_reader \<Rightarrow> tensor_slice \<times> string \<Rightarrow> bool" where
  "supplied env has at ds T name r x \<longleftrightarrow> slice_ok (fst x) \<and> fits ds (fst x) \<and>
     (\<exists>idx t m. rd_fname_to_index r (snd x) = Some idx \<and> idx < length (rd_sss r) \<and> rd_sss r ! idx = Some t \<and> has t m \<and>
        stores env at ds T name m (fst x))"

lemma card_num_elements:
  assumes "slice_ok s" "fits ds s" "representable False ds" "holds False shp (slice_sizes ds s)"
  shows "sr_num_elements shp = int (card (cells ds s))"
  using card_cells(2) [OF assms(1-3)] assms(4) by (simp add: holds_def shape_ok_def)

locale checkpoint_reader = shard "re_get env" has + slice_copier at "re_copy env" cast
  for env :: "('t, 'p, 'a, 'b) reader_env" and has and at and cast
begin

lemma supplied_get:
  assumes "supplied env has at ds T name r x" "rd_sss r ! idx = Some t" "re_get env t k = Some (v, t')"
  shows "supplied env has at ds T name (r\<lparr>rd_sss := (rd_sss r)[idx := Some t']\<rparr>) x"
proof -
  obtain i u m where u: "slice_ok (fst x)" "fits ds (fst x)" "rd_fname_to_index r (snd x) = Some i" "i < length (rd_sss r)"
    "rd_sss r ! i = Some u" "has u m" "stores env at ds T name m (fst x)"
    using assms(1) unfolding supplied_def by blast
  have "\<exists>u'. (rd_sss r)[idx := Some t'] ! i = Some u' \<and> has u' m"
  proof (cases "i = idx")
    case True
    then have "has t' m" using get_has [OF u(6), of k] u(5) assms(2,3) by auto
    then show ?thesis using True u(4) by simp
  qed (use u in simp)
  then show ?thesis using u by (auto simp: supplied_def)
qed

lemma copy_details_law:
  assumes "slice_ok sl" "fits ds sl" "holds False (tss_shape tss) ds" "length ds \<le> kTensorSliceMaxRank" "length (sr_buf (re_raw env)) = 16"
    "length dat = card (cells ds sl)" "\<forall>x \<in> set details. supplied env has at ds T name r x"
  shows "\<exists>dat' r'. copy_details env name sl tss details dat r = Some (True, dat', r') \<and> length dat' = length dat \<and>
    (\<forall>v \<in> cells ds sl. dat' ! offset at ds sl v =
       (if v \<in> (\<Union>x \<in> set details. cells ds (fst x)) then cast (T v) else dat ! offset at ds sl v))"
  using assms(6,7)
proof (induction details arbitrary: dat r)
  case (Cons x details)
  obtain s f where x: "x = (s, f)" by (cases x)
  have "supplied env has at ds T name r (s, f)" using Cons.prems(2) x by simp
  then obtain idx t m where s: "slice_ok s" "fits ds s" "rd_fname_to_index r f = Some idx" "rd_sss r ! idx = Some t" "has t m"
    "stores env at ds T name m s"
    unfolding supplied_def by auto
  then obtain val sts where v: "m (EncodeTensorNameSlice name s) = Some val" "re_parse env val = Some sts"
    "length (re_vals env (ss_data (sts_data sts))) = card (cells ds s)"
    "\<forall>v \<in> cells ds s. re_vals env (ss_data (sts_data sts)) ! offset at ds s v = T v"
    unfolding stores_def by blast
  let ?p = "re_vals env (ss_data (sts_data sts))"
  obtain t' where t': "re_get env t (EncodeTensorNameSlice name s) = Some (Some val, t')" using get_has [OF s(5)] v(1) by metis
  have rep: "representable False ds" by (rule holdsE(4) [OF assms(3)])
  obtain ps where ps: "SliceTensorShape (tss_shape tss) (TensorShapeBase False (re_raw env)) s = Some (OkStatus, ps)" "holds False ps (slice_sizes ds s)"
    using SliceTensorShape_law [OF s(1) assms(3) length_raw [OF assms(5)]] s(2) by auto
  have n: "sr_num_elements ps = int (length ?p)" using card_num_elements [OF s(1,2) rep ps(2)] v(3) by simp
  obtain d where d: "CopyDataFromTensorSliceToTensorSlice (re_raw env) (re_copy env) (tss_shape tss) s sl ?p dat = Some (meets s sl, d)"
    "length d = length dat"
    "\<forall>v \<in> cells ds sl. d ! offset at ds sl v = (if v \<in> cells ds s then cast (?p ! offset at ds s v) else dat ! offset at ds sl v)"
    using copy_slices [OF s(1) assms(1) s(2) assms(2,3,4,5) v(3) Cons.prems(1)] by blast
  let ?r = "r\<lparr>rd_sss := (rd_sss r)[idx := Some t']\<rparr>"
  have step: "copy_details env name sl tss (x # details) dat r = copy_details env name sl tss details d ?r"
    using s(3,4) t' v(2) ps(1) n d(1) by (simp add: x Let_def)
  have "\<forall>x \<in> set details. supplied env has at ds T name ?r x" using Cons.prems(2) supplied_get [OF _ s(4) t'] by simp
  with Cons.IH [of d ?r] d(2) Cons.prems(1) obtain dat' r' where
    "copy_details env name sl tss details d ?r = Some (True, dat', r')" "length dat' = length dat"
    "\<forall>v \<in> cells ds sl. dat' ! offset at ds sl v = (if v \<in> (\<Union>x \<in> set details. cells ds (fst x)) then cast (T v) else d ! offset at ds sl v)"
    by auto
  then show ?case using step d(3) v(4) x by auto
qed simp

end

context checkpoint_reader
begin

text \<open>The registered slices of a tensor are supplied by their shards.\<close>

lemma CopySliceData_law:
  assumes "rd_tensors r (text_of name) = Some tss" "slice_set_ok ds tss" "rd_all_shards_loaded r \<or> fits ds sl \<and>
      cells ds sl \<subseteq> (\<Union>x \<in> set (tss_slices tss). cells ds (si_slice (snd x)))"
    and "\<forall>x \<in> set (tss_slices tss). supplied env has at ds T name r (si_slice (snd x), si_tag (snd x))"
    and "slice_ok sl" "iterates (re_order env)" "length (sr_buf (re_raw env)) = 16" "length ds \<le> kTensorSliceMaxRank"
    and "length dat = card (cells ds sl)"
  shows "if fits ds sl \<and> cells ds sl \<subseteq> (\<Union>x \<in> set (tss_slices tss). cells ds (si_slice (snd x)))
    then \<exists>dat' r'. CopySliceData env name sl dat r = Some (True, dat', r') \<and> length dat' = length dat \<and>
      (\<forall>v \<in> cells ds sl. dat' ! offset at ds sl v = cast (T v))
    else CopySliceData env name sl dat r = Some (False, dat, r)"
proof (cases "fits ds sl \<and> cells ds sl \<subseteq> (\<Union>x \<in> set (tss_slices tss). cells ds (si_slice (snd x)))")
  case False
  then have "QueryMeta (re_raw env) (re_order env) sl tss = Some (False, [])" using QueryMeta_law [OF assms(2,5,6,7)] by auto
  then have "FindTensorSlice env name sl r = Some (None, [])" using assms(1) by (simp add: FindTensorSlice_def)
  then show ?thesis using False assms(3) by (auto simp: CopySliceData_def)
next
  case True
  then obtain details where q: "QueryMeta (re_raw env) (re_order env) sl tss = Some (True, details)" "set details = set (suppliers sl (tss_slices tss))"
    using QueryMeta_law [OF assms(2,5,6,7)] by auto
  then have f: "CopySliceData env name sl dat r = copy_details env name sl tss details dat r"
    using assms(1) by (simp add: FindTensorSlice_def CopySliceData_def)
  have sup: "\<forall>x \<in> set details. supplied env has at ds T name r x"
    using assms(4) unfolding q(2) by (auto simp: suppliers_def)
  have all: "v \<in> (\<Union>x \<in> set details. cells ds (fst x))" if v: "v \<in> cells ds sl" for v
  proof -
    obtain x where x: "x \<in> set (tss_slices tss)" "v \<in> cells ds (si_slice (snd x))" using True v by blast
    then have "meets sl (si_slice (snd x))" using v not_meets_cells by blast
    then have "x \<in> set (filter (\<lambda>x. meets sl (si_slice (snd x))) (tss_slices tss))" using x(1) by simp
    then have "(si_slice (snd x), si_tag (snd x)) \<in> set details" unfolding q(2) suppliers_def set_map by (rule image_eqI [OF refl])
    then show ?thesis by (rule UN_I) (simp add: x(2))
  qed
  have h: "holds False (tss_shape tss) ds" using assms(2) by (simp add: slice_set_ok_def)
  have fit: "fits ds sl" using True by blast
  show ?thesis unfolding if_P [OF True] f
    using copy_details_law [OF assms(5) fit h assms(8,7,9) sup] all by auto
qed

end

section \<open>Loading\<close>

text \<open>The abstract state of a reader: for each tensor its sizes, its type, and its slices with their files.\<close>

type_synonym catalogue = "string \<rightharpoonup> int list \<times> dtype \<times> (tensor_slice \<times> string) list"

definition describes :: "slice_set \<Rightarrow> int list \<times> dtype \<times> (tensor_slice \<times> string) list \<Rightarrow> bool" where
  "describes tss e \<longleftrightarrow> slice_set_ok (fst e) tss \<and> tss_type tss = fst (snd e) \<and>
     map (\<lambda>x. (si_slice (snd x), si_tag (snd x))) (tss_slices tss) = snd (snd e)"

definition catalogued :: "(string \<rightharpoonup> slice_set) \<Rightarrow> catalogue \<Rightarrow> bool" where
  "catalogued m C \<longleftrightarrow> (\<forall>name. rel_option describes (m name) (C name))"

lemma cataloguedD:
  assumes "catalogued m C"
  shows "C name = None \<Longrightarrow> m name = None" "C name = Some e \<Longrightarrow> \<exists>tss. m name = Some tss \<and> describes tss e"
  using assms [unfolded catalogued_def, rule_format, of name] by (auto simp: option_rel_Some2)

text \<open>Adding a slice: the result says whether the slice is accepted.  A new tensor stays in the catalogue when its slice is not.\<close>

definition add_slice :: "string \<Rightarrow> int list \<Rightarrow> dtype \<Rightarrow> string \<Rightarrow> tensor_slice \<Rightarrow> catalogue \<Rightarrow> bool \<times> catalogue" where
  "add_slice name ds ty fname sl C =
     (let (es, ty', ss) = (case C name of None \<Rightarrow> (ds, ty, []) | Some e \<Rightarrow> e) in
      if es \<noteq> ds \<or> ty' \<noteq> ty then (False, C)
      else if fits ds sl \<and> (\<forall>s \<in> set ss. \<not> meets sl (fst s)) then (True, C(name \<mapsto> (ds, ty, ss @ [(sl, fname)])))
      else (False, C(name \<mapsto> (ds, ty, ss))))"

fun add_slices :: "string \<Rightarrow> int list \<Rightarrow> dtype \<Rightarrow> string \<Rightarrow> slice_proto list \<Rightarrow> catalogue \<Rightarrow> bool \<times> catalogue" where
  "add_slices name ds ty fname [] C = (True, C)"
| "add_slices name ds ty fname (tsp # tsps) C =
     (if \<not> slice_ok (TensorSlice_proto tsp) then (False, C)
      else
        let (b, C) = add_slice name ds ty fname (TensorSlice_proto tsp) C in
        if b then add_slices name ds ty fname tsps C else (False, C))"

definition shape_accepted :: "int list \<Rightarrow> bool" where
  "shape_accepted ds \<longleftrightarrow> representable False ds \<and> nonzero_product ds < 2 ^ 63"

fun add_tensors :: "string \<Rightarrow> saved_slice_meta list \<Rightarrow> catalogue \<Rightarrow> bool \<times> catalogue" where
  "add_tensors fname [] C = (True, C)"
| "add_tensors fname (ssm # ssms) C =
     (if \<not> shape_accepted (sp_dim (ssm_shape ssm)) then (False, C)
      else
        let (b, C) = add_slices (text_of (ssm_name ssm)) (sp_dim (ssm_shape ssm)) (ssm_type ssm) fname (ssm_slices ssm) C in
        if b then add_tensors fname ssms C else (False, C))"

fun add_files :: "(string \<Rightarrow> saved_slice_meta list) \<Rightarrow> string list \<Rightarrow> catalogue \<Rightarrow> bool \<times> catalogue" where
  "add_files meta [] C = (True, C)"
| "add_files meta (f # fs) C = (let (b, C) = add_tensors f (meta f) C in if b then add_files meta fs C else (False, C))"

text \<open>The fields of a message are 64-bit integers.\<close>

definition meta_ok :: "saved_slice_meta \<Rightarrow> bool" where
  "meta_ok ssm \<longleftrightarrow> sizes_ok False (sp_dim (ssm_shape ssm)) \<and> list_all proto_ok (ssm_slices ssm)"

lemma BuildTensorShape_law:
  assumes "length (sr_buf raw) = 16" "sizes_ok False (sp_dim proto)"
  shows "if shape_accepted (sp_dim proto)
    then \<exists>s. BuildTensorShapeBase_proto False proto (TensorShapeBase False raw) = Some (OkStatus, s) \<and> holds False s (sp_dim proto)
    else \<exists>m s. BuildTensorShapeBase_proto False proto (TensorShapeBase False raw) = Some (Error INVALID_ARGUMENT m, s)"
proof -
  let ?s = "set_data_type DT_INVALID (set_tag REP16 (TensorShapeBase False raw))"
  have s: "length (sr_buf ?s) = 16" "tag ?s = REP16" using length_raw [OF assms(1)] by simp_all
  show ?thesis using build_proto_loop_law [OF holds_empty [OF s] assms(2), of 1]
    by (auto simp: BuildTensorShapeBase_proto_def shape_accepted_def Let_def split: if_splits)
qed

lemma RegisterTensorSlice_law:
  assumes "catalogued m C" "holds False shape ds" "slice_ok sl" "iterates order" "length (sr_buf raw) = 16"
  shows "\<exists>s m' C'. RegisterTensorSlice raw order type_text name shape ty fname sl m = Some (s, m') \<and>
    add_slice name ds ty fname sl C = (ok s, C') \<and> catalogued m' C'"
proof -
  let ?ss = "\<lambda>tss. map (\<lambda>x. (si_slice (snd x), si_tag (snd x))) (tss_slices tss)"
  have upd: "catalogued (m(name \<mapsto> tss)) (C(name \<mapsto> (ds, ty, ?ss tss)))" if "slice_set_ok ds tss" "tss_type tss = ty" for tss
    using assms(1) that by (simp add: catalogued_def describes_def)
  have reg: "\<exists>s tss'. Register raw order sl fname tss = Some (s, tss') \<and> slice_set_ok ds tss' \<and> tss_type tss' = tss_type tss \<and>
      (ok s \<longleftrightarrow> fits ds sl \<and> (\<forall>s \<in> set (?ss tss). \<not> meets sl (fst s))) \<and> ?ss tss' = ?ss tss @ (if ok s then [(sl, fname)] else [])"
    if t: "slice_set_ok ds tss" for tss
  proof (cases "fits ds sl \<and> (\<forall>x \<in> set (tss_slices tss). \<not> meets sl (si_slice (snd x)))")
    case True
    then show ?thesis using Register_law [OF t assms(3-5), of fname] by auto
  next
    case False
    then obtain e where "Register raw order sl fname tss = Some (Error INTERNAL e, tss)"
      using Register_law [OF t assms(3-5), of fname] unfolding if_not_P [OF False] by blast
    with False t show ?thesis by (intro exI [of _ "Error INTERNAL e"] exI [of _ tss]) auto
  qed
  show ?thesis
  proof (cases "C name")
    case None
    then have n: "m name = None" by (rule cataloguedD(1) [OF assms(1)])
    obtain s tss' where t: "Register raw order sl fname (TensorSliceSet shape ty) = Some (s, tss')" "slice_set_ok ds tss'"
      "tss_type tss' = ty" "ok s \<longleftrightarrow> fits ds sl" "?ss tss' = (if ok s then [(sl, fname)] else [])"
      using reg [OF TensorSliceSet_ok [OF assms(2), of ty]] by (auto simp: TensorSliceSet_def)
    with None n upd [OF t(2,3)] show ?thesis by (auto simp: RegisterTensorSlice_def add_slice_def Let_def)
  next
    case (Some e)
    then obtain es ty' ss where e: "C name = Some (es, ty', ss)" by (cases e) auto
    obtain tss where tss: "m name = Some tss" "slice_set_ok es tss" "tss_type tss = ty'" "?ss tss = ss"
      using cataloguedD(2) [OF assms(1) e] by (auto simp: describes_def)
    have same: "IsSameSize shape (tss_shape tss) \<longleftrightarrow> es = ds" using IsSameSize_iff [OF assms(2) slice_set_okD(1) [OF tss(2)]] by auto
    show ?thesis
    proof (cases "es = ds \<and> ty' = ty")
      case False
      then show ?thesis using e tss same assms(1) by (auto simp: RegisterTensorSlice_def add_slice_def Let_def)
    next
      case True
      then obtain s tss' where t: "Register raw order sl fname tss = Some (s, tss')" "slice_set_ok ds tss'"
        "tss_type tss' = ty" "ok s \<longleftrightarrow> fits ds sl \<and> (\<forall>s \<in> set ss. \<not> meets sl (fst s))" "?ss tss' = ss @ (if ok s then [(sl, fname)] else [])"
        using reg [of tss, unfolded tss(3,4)] tss(2) by blast
      have "add_slice name ds ty fname sl C = (ok s, C(name \<mapsto> (ds, ty, ?ss tss')))"
        unfolding t(5) using True e t(4) by (cases "ok s") (simp_all add: add_slice_def)
      with True t(1) tss(1,3) same upd [OF t(2,3)] show ?thesis by (auto simp: RegisterTensorSlice_def Let_def)
    qed
  qed
qed

text \<open>The environment gives each entry of a hash map once, and shapes in 16 bytes.\<close>

definition env_ok :: "('t, 'p, 'a, 'b) reader_env \<Rightarrow> bool" where
  "env_ok env \<longleftrightarrow> iterates (re_order env) \<and> length (sr_buf (re_raw env)) = 16"

text \<open>The parts of the reader that registering does not change.\<close>

definition same_shards :: "'t slice_reader \<Rightarrow> 't slice_reader \<Rightarrow> bool" where
  "same_shards r r' \<longleftrightarrow> rd_fnames r' = rd_fnames r \<and> rd_fname_to_index r' = rd_fname_to_index r \<and> rd_sss r' = rd_sss r \<and>
     rd_all_shards_loaded r' = rd_all_shards_loaded r"

lemma load_slices_law:
  assumes "env_ok env" "catalogued (rd_tensors r) C" "holds False shape ds" "list_all proto_ok tsps" "ok (rd_status r)"
  shows "\<exists>r' C'. load_slices env fname name shape ty tsps r = Some r' \<and> add_slices (text_of name) ds ty fname tsps C = (ok (rd_status r'), C') \<and>
    catalogued (rd_tensors r') C' \<and> same_shards r r'"
  using assms(2,4,5)
proof (induction tsps arbitrary: r C)
  case (Cons tsp tsps)
  have raw: "iterates (re_order env)" "length (sr_buf (re_raw env)) = 16" using assms(1) by (simp_all add: env_ok_def)
  have p: "proto_ok tsp" "list_all proto_ok tsps" using Cons.prems(2) by simp_all
  show ?case
  proof (cases "slice_ok (TensorSlice_proto tsp)")
    case False
    then obtain m o' where "BuildTensorSlice (re_extent_text env) tsp TensorSlice = (Error INVALID_ARGUMENT m, o')"
      using BuildTensorSlice_law [OF p(1), of "re_extent_text env" TensorSlice] by auto
    then show ?thesis using False Cons.prems(1) by (simp add: same_shards_def)
  next
    case True
    then have b: "BuildTensorSlice (re_extent_text env) tsp TensorSlice = (OkStatus, TensorSlice_proto tsp)"
      using BuildTensorSlice_law [OF p(1)] by auto
    obtain s m' C' where m: "RegisterTensorSlice (re_raw env) (re_order env) (re_type_text env) (text_of name) shape ty fname (TensorSlice_proto tsp) (rd_tensors r) = Some (s, m')"
      "add_slice (text_of name) ds ty fname (TensorSlice_proto tsp) C = (ok s, C')" "catalogued m' C'"
      using RegisterTensorSlice_law [OF Cons.prems(1) assms(3) True raw] by blast
    show ?thesis
    proof (cases "ok s")
      case False
      then show ?thesis using m b True by (auto simp: same_shards_def Let_def)
    next
      case ok: True
      with Cons.IH [of "r\<lparr>rd_status := s, rd_tensors := m'\<rparr>" C'] m(3) p(2) show ?thesis
        using m b True by (auto simp: same_shards_def Let_def)
    qed
  qed
qed (simp add: same_shards_def)

lemma load_tensors_law:
  assumes "env_ok env" "catalogued (rd_tensors r) C" "list_all meta_ok ssms" "ok (rd_status r)"
  shows "\<exists>r' C'. load_tensors env fname ssms r = Some r' \<and> add_tensors fname ssms C = (ok (rd_status r'), C') \<and>
    catalogued (rd_tensors r') C' \<and> same_shards r r'"
  using assms(2-4)
proof (induction ssms arbitrary: r C)
  case (Cons ssm ssms)
  have p: "sizes_ok False (sp_dim (ssm_shape ssm))" "list_all proto_ok (ssm_slices ssm)" "list_all meta_ok ssms"
    using Cons.prems(2) unfolding list.pred_inject meta_ok_def [of ssm] by blast+
  have raw: "length (sr_buf (re_raw env)) = 16" using assms(1) by (simp add: env_ok_def)
  note law = BuildTensorShape_law [OF raw p(1)]
  show ?case
  proof (cases "shape_accepted (sp_dim (ssm_shape ssm))")
    case False
    then show ?thesis using law Cons.prems(1) by (auto simp: same_shards_def)
  next
    case True
    then obtain shape where b: "BuildTensorShapeBase_proto False (ssm_shape ssm) (TensorShapeBase False (re_raw env)) = Some (OkStatus, shape)"
      "holds False shape (sp_dim (ssm_shape ssm))" using law by auto
    let ?r = "r\<lparr>rd_status := OkStatus\<rparr>"
    obtain r1 C1 where s: "load_slices env fname (ssm_name ssm) shape (ssm_type ssm) (ssm_slices ssm) ?r = Some r1"
      "add_slices (text_of (ssm_name ssm)) (sp_dim (ssm_shape ssm)) (ssm_type ssm) fname (ssm_slices ssm) C = (ok (rd_status r1), C1)"
      "catalogued (rd_tensors r1) C1" "same_shards ?r r1"
      using load_slices_law [OF assms(1) _ b(2) p(2), of ?r C fname "ssm_name ssm" "ssm_type ssm"] Cons.prems(1) by auto
    show ?thesis
    proof (cases "ok (rd_status r1)")
      case False
      then show ?thesis using b(1) s True by (auto simp: same_shards_def)
    next
      case ok: True
      from Cons.IH [OF s(3) p(3) ok] show ?thesis using b(1) s True ok by (auto simp: same_shards_def)
    qed
  qed
qed (simp add: same_shards_def)

text \<open>A catalogue only grows: new slices come behind those that are there, with files of \<open>F\<close>.\<close>

definition grows :: "string set \<Rightarrow> catalogue \<Rightarrow> catalogue \<Rightarrow> bool" where
  "grows F C C' \<longleftrightarrow> (\<forall>name.
     (\<forall>ds ty ss. C name = Some (ds, ty, ss) \<longrightarrow> (\<exists>more. C' name = Some (ds, ty, ss @ more) \<and> snd ` set more \<subseteq> F)) \<and>
     (\<forall>ds ty ss. C name = None \<longrightarrow> C' name = Some (ds, ty, ss) \<longrightarrow> snd ` set ss \<subseteq> F))"

lemma growsD:
  assumes "grows F C C'"
  shows "C name = Some (ds, ty, ss) \<Longrightarrow> \<exists>more. C' name = Some (ds, ty, ss @ more) \<and> snd ` set more \<subseteq> F"
    and "C name = None \<Longrightarrow> C' name = Some (ds, ty, ss) \<Longrightarrow> snd ` set ss \<subseteq> F"
  using assms [unfolded grows_def, THEN spec, of name] by simp_all

lemma grows_refl: "grows F C C"
  by (simp add: grows_def)

lemma grows_trans:
  assumes "grows F C C'" "grows F C' C''"
  shows "grows F C C''"
  unfolding grows_def
proof (intro allI conjI impI)
  fix name ds ty ss
  assume "C name = Some (ds, ty, ss)"
  from growsD(1) [OF assms(1) this] obtain m1 where m1: "C' name = Some (ds, ty, ss @ m1)" "snd ` set m1 \<subseteq> F" by blast
  from growsD(1) [OF assms(2) m1(1)] obtain m2 where "C'' name = Some (ds, ty, (ss @ m1) @ m2)" "snd ` set m2 \<subseteq> F" by blast
  with m1(2) show "\<exists>more. C'' name = Some (ds, ty, ss @ more) \<and> snd ` set more \<subseteq> F"
    by (intro exI [of _ "m1 @ m2"]) (simp add: image_Un)
next
  fix name ds ty ss
  assume n: "C name = None" and s: "C'' name = Some (ds, ty, ss)"
  show "snd ` set ss \<subseteq> F"
  proof (cases "C' name")
    case None
    then show ?thesis using growsD(2) [OF assms(2) None s] by simp
  next
    case (Some e)
    then obtain ds' ty' ss' where e: "C' name = Some (ds', ty', ss')" by (cases e) auto
    from growsD(1) [OF assms(2) e] obtain more where "C'' name = Some (ds', ty', ss' @ more)" "snd ` set more \<subseteq> F" by blast
    moreover from this have "ss = ss' @ more" using s by simp
    ultimately show ?thesis using growsD(2) [OF assms(1) n e] by (simp add: image_Un)
  qed
qed

lemma add_slice_grows: "add_slice name ds ty f sl C = (b, C') \<Longrightarrow> f \<in> F \<Longrightarrow> grows F C C'"
  by (cases "C name") (auto simp: add_slice_def grows_def split: if_splits)

lemma add_slices_grows: "add_slices name ds ty f tsps C = (b, C') \<Longrightarrow> f \<in> F \<Longrightarrow> grows F C C'"
proof (induction tsps arbitrary: C)
  case (Cons tsp tsps)
  obtain b1 C1 where a: "add_slice name ds ty f (TensorSlice_proto tsp) C = (b1, C1)" by fastforce
  from Cons a show ?case using grows_trans [OF add_slice_grows [OF a Cons.prems(2)]] add_slice_grows [OF a Cons.prems(2)]
    by (auto simp: grows_refl split: if_splits)
qed (simp add: grows_refl)

lemma add_tensors_grows: "add_tensors f ssms C = (b, C') \<Longrightarrow> f \<in> F \<Longrightarrow> grows F C C'"
proof (induction ssms arbitrary: C)
  case (Cons ssm ssms)
  obtain b1 C1 where a: "add_slices (text_of (ssm_name ssm)) (sp_dim (ssm_shape ssm)) (ssm_type ssm) f (ssm_slices ssm) C = (b1, C1)" by fastforce
  from Cons a show ?case using grows_trans [OF add_slices_grows [OF a Cons.prems(2)]] add_slices_grows [OF a Cons.prems(2)]
    by (auto simp: grows_refl split: if_splits)
qed (simp add: grows_refl)

lemma add_files_grows: "add_files meta fs C = (b, C') \<Longrightarrow> set fs \<subseteq> F \<Longrightarrow> grows F C C'"
proof (induction fs arbitrary: C)
  case (Cons f fs)
  obtain b1 C1 where a: "add_tensors f (meta f) C = (b1, C1)" by fastforce
  have f: "f \<in> F" using Cons.prems(2) by simp
  from Cons a show ?case using grows_trans [OF add_tensors_grows [OF a f]] add_tensors_grows [OF a f]
    by (auto split: if_splits)
qed (simp add: grows_refl)

text \<open>The files of a checkpoint: what their shards have, and the tensors that the first message of each describes.\<close>

definition checkpoint_files ::
    "('t, 'p, 'a, 'b) reader_env \<Rightarrow> ('t \<Rightarrow> (bytes \<rightharpoonup> bytes) \<Rightarrow> bool) \<Rightarrow> (string \<Rightarrow> bytes \<rightharpoonup> bytes) \<Rightarrow> (string \<Rightarrow> saved_slice_meta list) \<Rightarrow>
     string set \<Rightarrow> bool" where
  "checkpoint_files env has M meta fs \<longleftrightarrow> (\<forall>f \<in> fs.
     (\<exists>t. re_open env f = Some (OkStatus, Some t) \<and> has t (M f)) \<and> list_all meta_ok (meta f) \<and>
     (\<exists>val sts. M f kSavedTensorSlicesKey = Some val \<and> re_parse env val = Some sts \<and> sts_tensors sts = meta f \<and>
        ok (CheckVersions (re_version env) (sts_versions sts) TF_CHECKPOINT_VERSION TF_CHECKPOINT_VERSION_MIN_PRODUCER ''Checkpoint'' ''checkpoint'')))"

definition shards_open :: "('t \<Rightarrow> (bytes \<rightharpoonup> bytes) \<Rightarrow> bool) \<Rightarrow> (string \<Rightarrow> bytes \<rightharpoonup> bytes) \<Rightarrow> 't slice_reader \<Rightarrow> bool" where
  "shards_open has M r \<longleftrightarrow> length (rd_sss r) = length (rd_fnames r) \<and>
     (\<forall>i < length (rd_fnames r). \<forall>t. rd_sss r ! i = Some t \<longrightarrow> has t (M (rd_fnames r ! i)))"

definition same_files :: "'t slice_reader \<Rightarrow> 't slice_reader \<Rightarrow> bool" where
  "same_files r r' \<longleftrightarrow> rd_fnames r' = rd_fnames r \<and> rd_fname_to_index r' = rd_fname_to_index r"

context checkpoint_reader
begin

lemma LoadShard_law:
  assumes "env_ok env" "checkpoint_files env has M meta (set (rd_fnames r))" "shards_open has M r" "i < length (rd_fnames r)"
    "catalogued (rd_tensors r) C" "ok (rd_status r)" "rd_sss r ! i = None"
  shows "\<exists>r' C'. LoadShard env i r = Some r' \<and> add_tensors (rd_fnames r ! i) (meta (rd_fnames r ! i)) C = (ok (rd_status r'), C') \<and>
    catalogued (rd_tensors r') C' \<and> shards_open has M r' \<and> same_files r r' \<and> rd_all_shards_loaded r' = rd_all_shards_loaded r \<and>
    (\<exists>t. rd_sss r' = (rd_sss r)[i := Some t])"
proof -
  let ?f = "rd_fnames r ! i"
  obtain t val sts where f: "re_open env ?f = Some (OkStatus, Some t)" "has t (M ?f)" "M ?f kSavedTensorSlicesKey = Some val"
    "re_parse env val = Some sts" "sts_tensors sts = meta ?f" "list_all meta_ok (meta ?f)"
    "ok (CheckVersions (re_version env) (sts_versions sts) TF_CHECKPOINT_VERSION TF_CHECKPOINT_VERSION_MIN_PRODUCER ''Checkpoint'' ''checkpoint'')"
    using assms(2,4) unfolding checkpoint_files_def by (meson nth_mem)
  obtain t' where t': "re_get env t kSavedTensorSlicesKey = Some (Some val, t')" "has t' (M ?f)" using get_has [OF f(2)] f(3) by metis
  let ?s = "CheckVersions (re_version env) (sts_versions sts) TF_CHECKPOINT_VERSION TF_CHECKPOINT_VERSION_MIN_PRODUCER ''Checkpoint'' ''checkpoint''"
  let ?r = "r\<lparr>rd_sss := (rd_sss r)[i := Some t'], rd_status := ?s\<rparr>"
  have len: "i < length (rd_sss r)" using assms(3,4) by (simp add: shards_open_def)
  obtain r' C' where r': "load_tensors env ?f (meta ?f) ?r = Some r'" "add_tensors ?f (meta ?f) C = (ok (rd_status r'), C')"
    "catalogued (rd_tensors r') C'" "same_shards ?r r'"
    using load_tensors_law [OF assms(1) _ f(6), of ?r C ?f] assms(5) f(7) by auto
  have "LoadShard env i r = Some r'"
    unfolding LoadShard_def using len assms(6,7) f(1,4,5,7) t'(1) r'(1) by (simp add: Let_def)
  moreover have "shards_open has M ?r" using assms(3,4) t'(2) by (auto simp: shards_open_def nth_list_update)
  ultimately show ?thesis using r' unfolding same_shards_def same_files_def by (auto simp: shards_open_def)
qed

lemma load_shards_law:
  assumes "env_ok env" "checkpoint_files env has M meta (set (rd_fnames r))" "shards_open has M r" "catalogued (rd_tensors r) C"
    "ok (rd_status r)" "distinct is" "set is \<subseteq> {..<length (rd_fnames r)}"
  shows "\<exists>r' C'. load_shards env is r = Some r' \<and>
    add_files meta (map ((!) (rd_fnames r)) (filter (\<lambda>i. rd_sss r ! i = None) is)) C = (ok (rd_status r'), C') \<and>
    catalogued (rd_tensors r') C' \<and> shards_open has M r' \<and> same_files r r' \<and> rd_all_shards_loaded r' = rd_all_shards_loaded r \<and>
    (ok (rd_status r') \<longrightarrow> (\<forall>i < length (rd_fnames r). i \<in> set is \<or> rd_sss r ! i \<noteq> None \<longrightarrow> rd_sss r' ! i \<noteq> None))"
  using assms(2-)
proof (induction "is" arbitrary: r C)
  case (Cons i "is")
  have i: "i < length (rd_fnames r)" "i < length (rd_sss r)" using Cons.prems by (auto simp: shards_open_def)
  show ?case
  proof (cases "rd_sss r ! i")
    case (Some t)
    then have "LoadShard env i r = Some r" using i(2) by (simp add: LoadShard_def)
    moreover have "distinct is" "set is \<subseteq> {..<length (rd_fnames r)}" using Cons.prems by simp_all
    moreover have "j \<in> set (i # is) \<or> rd_sss r ! j \<noteq> None \<longleftrightarrow> j \<in> set is \<or> rd_sss r ! j \<noteq> None" for j using Some by auto
    ultimately show ?thesis using Cons.IH [OF Cons.prems(1-4)] Some Cons.prems(4) by simp
  next
    case None
    obtain r1 C1 t where r1: "LoadShard env i r = Some r1" "add_tensors (rd_fnames r ! i) (meta (rd_fnames r ! i)) C = (ok (rd_status r1), C1)"
      "catalogued (rd_tensors r1) C1" "shards_open has M r1" "same_files r r1" "rd_all_shards_loaded r1 = rd_all_shards_loaded r"
      "rd_sss r1 = (rd_sss r)[i := Some t]"
      using LoadShard_law [OF assms(1) Cons.prems(1,2) i(1) Cons.prems(3,4) None] by blast
    show ?thesis
    proof (cases "ok (rd_status r1)")
      case False
      then have "load_shards env (i # is) r = Some r1" using r1(1) Cons.prems(4) by (cases "is") simp_all
      then show ?thesis using False None r1 by simp
    next
      case True
      have fs: "rd_fnames r1 = rd_fnames r" using r1(5) by (simp add: same_files_def)
      have eq: "filter (\<lambda>i. rd_sss r1 ! i = None) is = filter (\<lambda>i. rd_sss r ! i = None) is"
        using Cons.prems(5) unfolding r1(7) by (intro filter_cong refl) (metis distinct.simps(2) nth_list_update_neq)
      obtain r2 C2 where r2: "load_shards env is r1 = Some r2"
        "add_files meta (map ((!) (rd_fnames r)) (filter (\<lambda>i. rd_sss r ! i = None) is)) C1 = (ok (rd_status r2), C2)"
        "catalogued (rd_tensors r2) C2" "shards_open has M r2" "same_files r1 r2" "rd_all_shards_loaded r2 = rd_all_shards_loaded r1"
        "ok (rd_status r2) \<longrightarrow> (\<forall>i < length (rd_fnames r). i \<in> set is \<or> rd_sss r1 ! i \<noteq> None \<longrightarrow> rd_sss r2 ! i \<noteq> None)"
        using Cons.IH [of r1 C1] r1(3,4) Cons.prems(1,5,6) True unfolding eq fs by auto
      have "\<forall>j < length (rd_fnames r). j \<in> set (i # is) \<or> rd_sss r ! j \<noteq> None \<longrightarrow> rd_sss r2 ! j \<noteq> None" if "ok (rd_status r2)"
        using r2(7) that i(2) unfolding r1(7) by (auto simp: nth_list_update split: if_splits)
      then show ?thesis using r1(1,2,5,6) r2 True None Cons.prems(4) by (simp add: same_files_def)
    qed
  qed
qed (auto simp: same_files_def)

end

lemma index_fnames_law:
  "index_fnames k fs m f = (case m f of Some i \<Rightarrow> Some i | None \<Rightarrow> if f \<in> set fs then Some (k + length (takeWhile (\<lambda>g. g \<noteq> f) fs)) else None)"
  by (induction fs arbitrary: k m) (auto split: option.splits)

lemma index_fnames_nth:
  assumes "f \<in> set fs"
  shows "\<exists>i < length fs. index_fnames 0 fs Map.empty f = Some i \<and> fs ! i = f"
proof -
  obtain ys zs where fs: "fs = ys @ f # zs" "f \<notin> set ys" using split_list_first [OF assms] by blast
  have "takeWhile (\<lambda>g. g \<noteq> f) (ys @ f # zs) = ys @ takeWhile (\<lambda>g. g \<noteq> f) (f # zs)"
    by (rule takeWhile_append2) (use fs(2) in auto)
  then have "takeWhile (\<lambda>g. g \<noteq> f) fs = ys" using fs(1) by simp
  then show ?thesis using fs by (intro exI [of _ "length ys"]) (simp add: index_fnames_law)
qed

text \<open>The order in which the shards are loaded, the preferred one first.\<close>

definition load_order :: "nat \<Rightarrow> int \<Rightarrow> nat list" where
  "load_order n p = (if n = 1 \<or> p < 0 \<or> nat p \<ge> n then [0..<n] else nat p # filter (\<lambda>i. i \<noteq> nat p) [0..<n])"

text \<open>A reader that has gone through the shards \<open>is\<close>, and its catalogue.\<close>

definition loaded ::
    "('t \<Rightarrow> (bytes \<rightharpoonup> bytes) \<Rightarrow> bool) \<Rightarrow> (string \<Rightarrow> bytes \<rightharpoonup> bytes) \<Rightarrow> string list \<Rightarrow> nat set \<Rightarrow> catalogue \<Rightarrow> 't slice_reader \<Rightarrow> bool" where
  "loaded has M fnames is C r \<longleftrightarrow> rd_fnames r = fnames \<and> rd_fname_to_index r = index_fnames 0 fnames Map.empty \<and> shards_open has M r \<and>
     catalogued (rd_tensors r) C \<and> (ok (rd_status r) \<longrightarrow> (\<forall>i \<in> is. rd_sss r ! i \<noteq> None))"

lemma catalogued_empty: "catalogued Map.empty Map.empty"
  by (simp add: catalogued_def)

lemma add_files_append:
  "add_files meta (fs @ gs) C = (let (b, C) = add_files meta fs C in if b then add_files meta gs C else (False, C))"
  by (induction fs arbitrary: C) (auto split: prod.splits)

context checkpoint_reader
begin

lemma LoadAllShards_law:
  assumes "env_ok env" "checkpoint_files env has M meta (set fnames)" "loaded has M fnames is C r" "ok (rd_status r)"
  shows "\<exists>r' C'. LoadAllShards env r = Some r' \<and>
    add_files meta (map ((!) fnames) (filter (\<lambda>i. rd_sss r ! i = None) [0..<length fnames])) C = (ok (rd_status r'), C') \<and>
    loaded has M fnames {..<length fnames} C' r' \<and> rd_all_shards_loaded r'"
proof -
  have l: "rd_fnames r = fnames" "shards_open has M r" "catalogued (rd_tensors r) C" "rd_fname_to_index r = index_fnames 0 fnames Map.empty"
    using assms(3) by (simp_all add: loaded_def)
  have s: "set [0..<length fnames] \<subseteq> {..<length (rd_fnames r)}" by (auto simp: l(1))
  obtain r' C' where r': "load_shards env [0..<length fnames] r = Some r'"
    "add_files meta (map ((!) fnames) (filter (\<lambda>i. rd_sss r ! i = None) [0..<length fnames])) C = (ok (rd_status r'), C')"
    "catalogued (rd_tensors r') C'" "shards_open has M r'" "same_files r r'"
    "ok (rd_status r') \<longrightarrow> (\<forall>i < length fnames. rd_sss r' ! i \<noteq> None)"
    using load_shards_law [OF assms(1) _ l(2,3) assms(4) distinct_upt s, of meta] assms(2) unfolding l(1) by (elim exE conjE meta_impE) auto
  have "loaded has M fnames {..<length fnames} C' (r'\<lparr>rd_all_shards_loaded := True\<rparr>)"
    using r'(3-6) l(1,4) by (auto simp: loaded_def shards_open_def same_files_def)
  then show ?thesis using r'(1,2) l(1) by (auto simp: LoadAllShards_def)
qed

text \<open>The constructor has loaded all shards or the preferred one.\<close>

lemma TensorSliceReader_law:
  assumes "env_ok env" "checkpoint_files env has M meta (set fnames)" "fnames \<noteq> []"
    "add_files meta (map ((!) fnames) (load_order (length fnames) p)) Map.empty = (True, C)"
  shows "\<exists>r. TensorSliceReader env pattern (OkStatus, fnames) p = Some r \<and> ok (rd_status r) \<and>
    (loaded has M fnames {..<length fnames} C r \<and> rd_all_shards_loaded r \<or>
     \<not> rd_all_shards_loaded r \<and> (\<exists>i C1. i < length fnames \<and> loaded has M fnames {i} C1 r \<and> grows {fnames ! i} Map.empty C1 \<and> grows (set fnames) C1 C \<and>
       (\<exists>r'. LoadAllShards env r = Some r' \<and>
       ok (rd_status r') \<and> loaded has M fnames {..<length fnames} C r' \<and> rd_all_shards_loaded r')))"
proof -
  let ?n = "length fnames"
  let ?r = "\<lparr>rd_filepattern = pattern, rd_fnames = fnames, rd_fname_to_index = index_fnames 0 fnames Map.empty, rd_all_shards_loaded = False,
               rd_sss = replicate ?n None, rd_tensors = Map.empty, rd_status = OkStatus\<rparr>"
  have r: "loaded has M fnames {} Map.empty ?r" by (simp add: loaded_def shards_open_def catalogued_empty)
  have none: "filter (\<lambda>i. rd_sss ?r ! i = None) [0..<?n] = [0..<?n]" by (rule filter_True) simp
  show ?thesis
  proof (cases "?n = 1 \<or> p < 0 \<or> nat p \<ge> ?n")
    case True
    then have c: "TensorSliceReader env pattern (OkStatus, fnames) p = LoadAllShards env ?r" using assms(3)
      by (auto simp: TensorSliceReader_def Let_def kLoadAllShards_def)
    then show ?thesis using LoadAllShards_law [OF assms(1,2) r] assms(4) True unfolding none by (auto simp: load_order_def)
  next
    case False
    let ?p = "nat p"
    have p: "?p < ?n" "?p < length (rd_fnames ?r)" using False by auto
    have c: "TensorSliceReader env pattern (OkStatus, fnames) p = LoadShard env ?p ?r" using False assms(3)
      by (auto simp: TensorSliceReader_def Let_def kLoadAllShards_def)
    have so: "shards_open has M ?r" "rd_sss ?r ! ?p = None" "ok (rd_status ?r)" "catalogued (rd_tensors ?r) Map.empty"
      "checkpoint_files env has M meta (set (rd_fnames ?r))"
      using p assms(2) by (simp_all add: shards_open_def catalogued_empty)
    obtain r1 C1 t where r1: "LoadShard env ?p ?r = Some r1" "add_tensors (fnames ! ?p) (meta (fnames ! ?p)) Map.empty = (ok (rd_status r1), C1)"
      "catalogued (rd_tensors r1) C1" "shards_open has M r1" "same_files ?r r1" "\<not> rd_all_shards_loaded r1"
      "rd_sss r1 = (replicate ?n None)[?p := Some t]"
      using LoadShard_law [OF assms(1) so(5,1) p(2) so(4,3,2)] by auto
    have f1: "rd_fnames r1 = fnames" "rd_fname_to_index r1 = index_fnames 0 fnames Map.empty" using r1(5) by (simp_all add: same_files_def)
    have all: "ok (rd_status r1)" "add_files meta (map ((!) fnames) (filter (\<lambda>i. i \<noteq> ?p) [0..<?n])) C1 = (True, C)"
      using assms(4) False r1(2) by (auto simp: load_order_def Let_def split: if_splits)
    have l1: "loaded has M fnames {?p} C1 r1" using r1(3,4,7) f1 p by (simp add: loaded_def)
    have g1: "grows {fnames ! ?p} Map.empty C1" by (rule add_tensors_grows [OF r1(2)]) simp
    have eq: "filter (\<lambda>i. rd_sss r1 ! i = None) [0..<?n] = filter (\<lambda>i. i \<noteq> ?p) [0..<?n]"
      unfolding r1(7) using p by (intro filter_cong refl) (simp add: nth_list_update)
    have g: "grows (set fnames) C1 C" by (rule add_files_grows [OF all(2)]) (auto simp: p)
    from LoadAllShards_law [OF assms(1,2) l1 all(1)] all(2) eq obtain r' where
      "LoadAllShards env r1 = Some r'" "ok (rd_status r')" "loaded has M fnames {..<?n} C r'" "rd_all_shards_loaded r'" by auto
    then show ?thesis using c r1(1,6) all(1) l1 g1 g p(1) by (intro exI [of _ r1] conjI disjI2 exI [of _ ?p] exI [of _ C1] exI [of _ r']) simp_all
  qed
qed

end

context checkpoint_reader
begin

lemma loaded_supplied:
  assumes "loaded has M fnames is C r" "ok (rd_status r)" "distinct fnames" "is \<subseteq> {..<length fnames}" "grows ((!) fnames ` is) Map.empty C"
    "C name' = Some (ds, ty, ss)" "\<forall>x \<in> set ss. stores env at ds T name (M (snd x)) (fst x)"
  shows "\<exists>tss. rd_tensors r name' = Some tss \<and> slice_set_ok ds tss \<and> (\<lambda>x. (si_slice (snd x), si_tag (snd x))) ` set (tss_slices tss) = set ss \<and>
    (\<forall>x \<in> set (tss_slices tss). supplied env has at ds T name r (si_slice (snd x), si_tag (snd x)))"
proof -
  have l: "rd_fnames r = fnames" "rd_fname_to_index r = index_fnames 0 fnames Map.empty" "shards_open has M r" "catalogued (rd_tensors r) C"
    "\<forall>i \<in> is. rd_sss r ! i \<noteq> None" using assms(1,2) by (simp_all add: loaded_def)
  obtain tss where tss: "rd_tensors r name' = Some tss" "describes tss (ds, ty, ss)" using cataloguedD(2) [OF l(4) assms(6)] by blast
  have img: "(\<lambda>x. (si_slice (snd x), si_tag (snd x))) ` set (tss_slices tss) = set ss"
    using tss(2) unfolding describes_def by (metis set_map snd_conv)
  have ok: "slice_set_ok ds tss" using tss(2) by (simp add: describes_def)
  have "supplied env has at ds T name r (si_slice (snd x), si_tag (snd x))" if x: "x \<in> set (tss_slices tss)" for x
  proof -
    have e: "slice_ok (si_slice (snd x))" "fits ds (si_slice (snd x))" using entry_okD(2,3) [OF slice_set_okD(3) [OF ok x]] by blast+
    have m: "(si_slice (snd x), si_tag (snd x)) \<in> set ss" using x img by blast
    have "snd ` set ss \<subseteq> (!) fnames ` is" by (rule growsD(2) [OF assms(5) _ assms(6)]) simp
    then obtain i where i: "i \<in> is" "si_tag (snd x) = fnames ! i" using m by force
    then have n: "i < length fnames" using assms(4) by blast
    obtain j where j: "j < length fnames" "index_fnames 0 fnames Map.empty (fnames ! i) = Some j" "fnames ! j = fnames ! i"
      using index_fnames_nth [OF nth_mem [OF n]] by blast
    then have "j = i" using assms(3) n by (simp add: nth_eq_iff_index_eq)
    moreover obtain t where t: "rd_sss r ! i = Some t" using l(5) i(1) by blast
    ultimately show ?thesis using e j n l(1-3) i(2) assms(7) m unfolding supplied_def shards_open_def by fastforce
  qed
  then show ?thesis using tss(1) ok img by blast
qed

lemma CopySliceData_loads:
  assumes "FindTensorSlice env name sl r = Some (None, d)" "\<not> rd_all_shards_loaded r" "LoadAllShards env r = Some r'" "rd_all_shards_loaded r'"
  shows "CopySliceData env name sl dat r = CopySliceData env name sl dat r'"
  using assms by (auto simp: CopySliceData_def option.map_comp split: bind_split)

lemma read_slice:
  assumes "env_ok env" "checkpoint_files env has M meta (set fnames)" "fnames \<noteq> []" "distinct fnames"
    "add_files meta (map ((!) fnames) (load_order (length fnames) p)) Map.empty = (True, C)"
    "C (text_of name) = Some (ds, ty, ss)" "\<forall>x \<in> set ss. stores env at ds T name (M (snd x)) (fst x)"
    "slice_ok sl" "length ds \<le> kTensorSliceMaxRank" "length dat = card (cells ds sl)"
  shows "\<exists>r. TensorSliceReader env pattern (OkStatus, fnames) p = Some r \<and> ok (rd_status r) \<and>
    (if fits ds sl \<and> cells ds sl \<subseteq> (\<Union>x \<in> set ss. cells ds (fst x))
     then \<exists>dat' r'. CopySliceData env name sl dat r = Some (True, dat', r') \<and> length dat' = length dat \<and>
       (\<forall>v \<in> cells ds sl. dat' ! offset at ds sl v = cast (T v))
     else \<exists>r'. CopySliceData env name sl dat r = Some (False, dat, r'))"
proof -
  have raw: "iterates (re_order env)" "length (sr_buf (re_raw env)) = 16" using assms(1) by (simp_all add: env_ok_def)
  let ?goal = "\<lambda>r. if fits ds sl \<and> cells ds sl \<subseteq> (\<Union>x \<in> set ss. cells ds (fst x))
     then \<exists>dat' r'. CopySliceData env name sl dat r = Some (True, dat', r') \<and> length dat' = length dat \<and>
       (\<forall>v \<in> cells ds sl. dat' ! offset at ds sl v = cast (T v))
     else \<exists>r'. CopySliceData env name sl dat r = Some (False, dat, r')"
  have img: "(\<Union>x \<in> set (tss_slices tss). cells ds (si_slice (snd x))) = (\<Union>x \<in> set ss'. cells ds (fst x))"
    if "(\<lambda>x. (si_slice (snd x), si_tag (snd x))) ` set (tss_slices tss) = set ss'" for tss ss'
    unfolding that [symmetric] by simp
  have all: "?goal r" if r: "loaded has M fnames {..<length fnames} C r" "rd_all_shards_loaded r" "ok (rd_status r)" for r
  proof -
    have F: "(!) fnames ` {..<length fnames} = set fnames" by (auto simp: in_set_conv_nth)
    have o: "set (load_order (length fnames) p) \<subseteq> {..<length fnames}" by (auto simp: load_order_def)
    have g: "grows ((!) fnames ` {..<length fnames}) Map.empty C" unfolding F by (rule add_files_grows [OF assms(5)]) (use o in auto)
    from loaded_supplied [OF r(1,3) assms(4) order_refl g assms(6,7)] obtain tss where tss: "rd_tensors r (text_of name) = Some tss" "slice_set_ok ds tss"
      "(\<lambda>x. (si_slice (snd x), si_tag (snd x))) ` set (tss_slices tss) = set ss"
      "\<forall>x \<in> set (tss_slices tss). supplied env has at ds T name r (si_slice (snd x), si_tag (snd x))" by blast
    show ?thesis using CopySliceData_law [OF tss(1,2) disjI1 [OF r(2)] tss(4) assms(8) raw assms(9,10)] unfolding img [OF tss(3)] by (auto split: if_splits)
  qed
  show ?thesis
    using TensorSliceReader_law [OF assms(1-3,5), of pattern]
  proof (elim exE conjE disjE)
    fix r
    assume "TensorSliceReader env pattern (OkStatus, fnames) p = Some r" "ok (rd_status r)" "loaded has M fnames {..<length fnames} C r" "rd_all_shards_loaded r"
    with all show ?thesis by blast
  next
    fix r i C1 r'
    assume r: "TensorSliceReader env pattern (OkStatus, fnames) p = Some r" "ok (rd_status r)" "\<not> rd_all_shards_loaded r" "i < length fnames"
      "loaded has M fnames {i} C1 r" "grows {fnames ! i} Map.empty C1" "grows (set fnames) C1 C" "LoadAllShards env r = Some r'" "ok (rd_status r')"
      "loaded has M fnames {..<length fnames} C r'" "rd_all_shards_loaded r'"
    have "?goal r"
    proof (cases "FindTensorSlice env name sl r = Some (None, [])")
      case True
      then show ?thesis unfolding CopySliceData_loads [OF True r(3,8,11)] by (intro all [OF r(10,11,9)])
    next
      case False
      have cat: "catalogued (rd_tensors r) C1" using r(5) by (simp add: loaded_def)
      have "C1 (text_of name) \<noteq> None"
      proof
        assume "C1 (text_of name) = None"
        from cataloguedD(1) [OF cat this] show False using False by (simp add: FindTensorSlice_def)
      qed
      then obtain ds1 ty1 ss1 where c1: "C1 (text_of name) = Some (ds1, ty1, ss1)" by auto
      from growsD(1) [OF r(7) c1] obtain more where more: "ds1 = ds" "ss = ss1 @ more" using assms(6) by auto
      have "\<forall>x \<in> set ss1. stores env at ds T name (M (snd x)) (fst x)" using assms(7) more(2) by simp
      moreover have "{i} \<subseteq> {..<length fnames}" "grows ((!) fnames ` {i}) Map.empty C1" using r(4,6) by simp_all
      ultimately obtain tss where tss: "rd_tensors r (text_of name) = Some tss" "slice_set_ok ds tss"
        "(\<lambda>x. (si_slice (snd x), si_tag (snd x))) ` set (tss_slices tss) = set ss1"
        "\<forall>x \<in> set (tss_slices tss). supplied env has at ds T name r (si_slice (snd x), si_tag (snd x))"
        using loaded_supplied [OF r(5,2) assms(4) _ _ c1 [unfolded more(1)]] by blast
      have q: "fits ds sl \<and> cells ds sl \<subseteq> (\<Union>x \<in> set (tss_slices tss). cells ds (si_slice (snd x)))"
        using False tss(1) QueryMeta_law [OF tss(2) assms(8) raw] by (auto simp: FindTensorSlice_def split: if_splits)
      moreover from q have "fits ds sl \<and> cells ds sl \<subseteq> (\<Union>x \<in> set ss. cells ds (fst x))" unfolding img [OF tss(3)] more(2) by auto
      ultimately show ?thesis using CopySliceData_law [OF tss(1,2) disjI2 [OF q] tss(4) assms(8) raw assms(9,10)] by auto
    qed
    with r(1,2) show ?thesis by blast
  qed
qed

end

context checkpoint_reader
begin

lemma GetTensor_law:
  assumes "rd_tensors r (text_of name) = Some tss" "slice_set_ok ds tss" "tss_slices tss = [x]"
    and "supplied env has at ds T name r (si_slice (snd x), si_tag (snd x))" "env_ok env" "length ds \<le> kTensorSliceMaxRank"
    and "build (tss_type tss) (tss_shape tss) = (OkStatus, dat)" "length dat = card (cells ds (si_slice (snd x)))"
  shows "if tss_type tss \<in> set reader_copy_types
    then \<exists>dat' r'. GetTensor env build name r = Some (OkStatus, Some dat', r') \<and> length dat' = length dat \<and>
      (\<forall>v \<in> cells ds (si_slice (snd x)). dat' ! offset at ds (si_slice (snd x)) v = cast (T v))
    else \<exists>m. GetTensor env build name r = Some (Error UNIMPLEMENTED m, None, r)"
proof -
  have raw: "iterates (re_order env)" "length (sr_buf (re_raw env)) = 16" using assms(5) by (simp_all add: env_ok_def)
  have "mset (re_order env [x]) = {#x#}" using raw(1) by (simp add: iterates_def)
  then have ord: "re_order env [x] = [x]" by (cases "re_order env [x]") auto
  have e: "slice_ok (si_slice (snd x))" "fits ds (si_slice (snd x))" using entry_okD(2,3) [OF slice_set_okD(3) [OF assms(2)]] assms(3) by auto
  have cov: "fits ds (si_slice (snd x)) \<and> cells ds (si_slice (snd x)) \<subseteq> (\<Union>x \<in> set (tss_slices tss). cells ds (si_slice (snd x)))"
    using e(2) assms(3) by simp
  have sup: "\<forall>x \<in> set (tss_slices tss). supplied env has at ds T name r (si_slice (snd x), si_tag (snd x))" using assms(3,4) by simp
  from CopySliceData_law [OF assms(1,2) disjI2 [OF cov] sup e(1) raw assms(6,8)] obtain dat' r' where
    "CopySliceData env name (si_slice (snd x)) dat r = Some (True, dat', r')" "length dat' = length dat"
    "\<forall>v \<in> cells ds (si_slice (snd x)). dat' ! offset at ds (si_slice (snd x)) v = cast (T v)" unfolding if_P [OF cov] by blast
  then show ?thesis using assms(1,3,7) ord by (auto simp: GetTensor_def)
qed

end

text \<open>The reader over table files, with the loops instead of Eigen.\<close>

interpretation files: checkpoint_reader "env\<lparr>re_get := Shard_Get sn, re_copy := Copy row_major cast\<rparr>" "table_has sn" row_major cast for env sn cast
  by (intro checkpoint_reader.intro) (simp_all add: tables.shard_axioms loops.slice_copier_axioms)

text \<open>A sequence of lookups.\<close>

fun get_all :: "('t \<Rightarrow> bytes \<Rightarrow> (bytes option \<times> 't) option) \<Rightarrow> bytes list \<Rightarrow> 't \<Rightarrow> bytes option list option" where
  "get_all get [] t = Some []"
| "get_all get (k # ks) t = Option.bind (get t k) (\<lambda>(v, t). map_option ((#) v) (get_all get ks t))"

context shard
begin

lemma get_all_has: "has t m \<Longrightarrow> get_all get ks t = Some (map m ks)"
proof (induction ks arbitrary: t)
  case (Cons k ks)
  obtain t' where "get t k = Some (m k, t')" "has t' m" using get_has [OF Cons.prems] by blast
  with Cons.IH show ?case by simp
qed simp

end

text \<open>Opening a file that holds a table.\<close>

lemma OpenTable_table:
  assumes "table_file sn bs es ix B ft" "new_file fname = (OkStatus, f)" "file_holds f bs" "file_size fname = (OkStatus, word_of_nat (length bs))"
  shows "\<exists>t. OpenTableTensorSliceReader sn new_file file_size fname = Some (OkStatus, Some t) \<and> table_has sn t (map_of es)"
proof -
  have "cache_ready 0 {#} None" by (simp add: cache_ready_def)
  from Table_Open_file [OF assms(1,3) this] obtain t where
    t: "Table_Open sn None f (word_of_nat (length bs)) = Some (OkStatus, Some t)" "opened sn bs ix B 0 {#} t" by blast
  have "concat B = es" using assms(1) by (simp add: table_file_def)
  then have "table_has sn t (map_of es)" using t(2) unfolding table_has_def by blast
  then show ?thesis using t(1) assms(2,4) by (simp add: OpenTableTensorSliceReader_def)
qed

section \<open>Properties\<close>

text \<open>(C16) A table that the builder wrote serves as a shard: opening its file gives a shard, and every sequence of
  lookups in it finds the value of each key that was added and nothing for any other key.\<close>

theorem shard_lookups:
  assumes "appends app contents" "snappy_ok sn" "contents f = []" "sorted_entries es" "table_bound es + 100 < 2 ^ 32"
  shows "\<exists>r. build_table sn app opt f es = Some (OkStatus, r) \<and>
    (\<forall>new_file file_size fname read. new_file fname = (OkStatus, read) \<longrightarrow> file_holds read (contents (tb_file r)) \<longrightarrow>
      file_size fname = (OkStatus, FileSize r) \<longrightarrow>
      (\<exists>t. OpenTableTensorSliceReader sn new_file file_size fname = Some (OkStatus, Some t) \<and>
        (\<forall>ks. get_all (Shard_Get sn) ks t = Some (map (map_of es) ks))))"
proof -
  obtain r ix B ft where r: "build_table sn app opt f es = Some (OkStatus, r)"
    "table_file sn (contents (tb_file r)) es ix B ft" "tb_offset r = word_of_nat (length (contents (tb_file r)))"
    using build_table_file [OF assms] by metis
  show ?thesis
  proof (intro exI [of _ r] conjI allI impI)
    fix new_file :: "string \<Rightarrow> status \<times> file_reader" and file_size fname read
    assume a: "new_file fname = (OkStatus, read)" "file_holds read (contents (tb_file r))" "file_size fname = (OkStatus, FileSize r)"
    have "file_size fname = (OkStatus, word_of_nat (length (contents (tb_file r))))" using a(3) r(3) by (simp add: FileSize_def)
    from OpenTable_table [where new_file = new_file and fname = fname and file_size = file_size, OF r(2) a(1,2) this] show "\<exists>t. OpenTableTensorSliceReader sn new_file file_size fname = Some (OkStatus, Some t) \<and>
        (\<forall>ks. get_all (Shard_Get sn) ks t = Some (map (map_of es) ks))"
      using tables.get_all_has by blast
  qed (rule r(1))
qed

lemma shard_lookups_witness:
  "\<exists>r t. build_table no_snappy mem_append \<lparr>block_size = 30, block_restart_interval = 2, compression = kSnappyCompression\<rparr> []
      [([1], [7]), ([1, 2], [8]), ([3], [])] = Some (OkStatus, r) \<and>
    OpenTableTensorSliceReader no_snappy (\<lambda>n. (OkStatus, mem_reader (tb_file r))) (\<lambda>n. (OkStatus, FileSize r)) ''ckpt'' = Some (OkStatus, Some t) \<and>
    get_all (Shard_Get no_snappy) [[3], [2], [1, 2]] t = Some [Some [], None, Some [8]]"
proof -
  let ?es = "[([1], [7]), ([1, 2], [8]), ([3], [])] :: entry list"
  have "sorted_entries ?es" "table_bound ?es + 100 < 2 ^ 32" "id [] = ([] :: bytes)"
    by (simp_all add: table_bound_def)
  note w = shard_lookups [OF appends_mem_append snappy_ok_no_snappy this(3,1,2),
      of "\<lparr>block_size = 30, block_restart_interval = 2, compression = kSnappyCompression\<rparr>"]
  obtain r where r: "build_table no_snappy mem_append \<lparr>block_size = 30, block_restart_interval = 2, compression = kSnappyCompression\<rparr> [] ?es = Some (OkStatus, r)"
    "\<forall>new_file file_size fname read. new_file fname = (OkStatus, read) \<longrightarrow> file_holds read (id (tb_file r)) \<longrightarrow>
      file_size fname = (OkStatus, FileSize r) \<longrightarrow>
      (\<exists>t. OpenTableTensorSliceReader no_snappy new_file file_size fname = Some (OkStatus, Some t) \<and>
        (\<forall>ks. get_all (Shard_Get no_snappy) ks t = Some (map (map_of ?es) ks)))"
    using w by (elim exE conjE) (rule that)
  have h: "file_holds (mem_reader (tb_file r)) (id (tb_file r))" using file_holds_mem_reader by simp
  obtain t where t: "OpenTableTensorSliceReader no_snappy (\<lambda>n. (OkStatus, mem_reader (tb_file r))) (\<lambda>n. (OkStatus, FileSize r)) ''ckpt'' = Some (OkStatus, Some t)"
    "\<forall>ks. get_all (Shard_Get no_snappy) ks t = Some (map (map_of ?es) ks)"
    using r(2) [THEN spec, THEN spec, THEN spec, THEN spec, THEN mp, THEN mp, THEN mp, OF _ h,
        of "\<lambda>n. (OkStatus, mem_reader (tb_file r))" "''ckpt''" "\<lambda>n. (OkStatus, FileSize r)"] by auto
  have "get_all (Shard_Get no_snappy) [[3], [2], [1, 2]] t = Some [Some [], None, Some [8]]"
    unfolding t(2) [rule_format] by simp
  with r(1) t(1) show ?thesis by blast
qed

text \<open>(C4) Loading refines the catalogue: for a checkpoint whose files open, with messages that parse and whose versions are accepted, the
  constructor returns a reader whose status is OK exactly when all slices of all files can be added to the catalogue; its tensors are those of the
  catalogue, with sizes, types and slices, and \<open>HasTensor\<close> answers from it.\<close>

theorem loading_refines_catalogue:
  assumes "checkpoint_reader env has at cast" "env_ok env" "checkpoint_files env has M meta (set fnames)" "fnames \<noteq> []"
  shows "\<exists>r C. TensorSliceReader env pattern (OkStatus, fnames) kLoadAllShards = Some r \<and>
    add_files meta fnames Map.empty = (ok (rd_status r), C) \<and> catalogued (rd_tensors r) C \<and>
    (\<forall>name. \<exists>found. HasTensor env name r = Some (found, r) \<and>
      rel_option (\<lambda>(shape, ty) (ds, ty', ss). holds False shape ds \<and> ty = ty') found (C (text_of name)))"
proof -
  let ?n = "length fnames"
  let ?r = "\<lparr>rd_filepattern = pattern, rd_fnames = fnames, rd_fname_to_index = index_fnames 0 fnames Map.empty, rd_all_shards_loaded = False,
               rd_sss = replicate ?n None, rd_tensors = Map.empty, rd_status = OkStatus\<rparr>"
  have r: "loaded has M fnames {} Map.empty ?r" "ok (rd_status ?r)" by (simp_all add: loaded_def shards_open_def catalogued_empty)
  have none: "map ((!) fnames) (filter (\<lambda>i. rd_sss ?r ! i = None) [0..<?n]) = fnames" by (simp add: map_nth filter_True)
  obtain r' C where r': "LoadAllShards env ?r = Some r'" "add_files meta fnames Map.empty = (ok (rd_status r'), C)"
    "loaded has M fnames {..<?n} C r'" "rd_all_shards_loaded r'"
    using checkpoint_reader.LoadAllShards_law [OF assms(1-3) r] unfolding none by blast
  have cat: "catalogued (rd_tensors r') C" using r'(3) by (simp add: loaded_def)
  have "\<exists>found. HasTensor env name r' = Some (found, r') \<and>
      rel_option (\<lambda>(shape, ty) (ds, ty', ss). holds False shape ds \<and> ty = ty') found (C (text_of name))" for name
    using cat [unfolded catalogued_def, THEN spec, of "text_of name"] r'(4)
    by (cases "C (text_of name)") (auto simp: HasTensor_def option_rel_Some2 describes_def dest: slice_set_okD(1))
  moreover have "TensorSliceReader env pattern (OkStatus, fnames) kLoadAllShards = Some r'" using assms(4) r'(1)
    by (simp add: TensorSliceReader_def Let_def kLoadAllShards_def)
  ultimately show ?thesis using r'(2) cat by blast
qed

text \<open>(C3) Reading a slice: a reader of a checkpoint, whichever shard it prefers, copies a slice of a tensor exactly when
  the slices in the files have all its elements.  Then the array has, for each index vector of the slice, the element that the tensor has there,
  also when the elements come from several slices in several files, or from files that are loaded only now; otherwise the call
  returns false and the array is as it was.\<close>

theorem checkpoint_read:
  assumes "checkpoint_reader env has at cast" "env_ok env" "checkpoint_files env has M meta (set fnames)" "fnames \<noteq> []" "distinct fnames"
    "add_files meta (map ((!) fnames) (load_order (length fnames) p)) Map.empty = (True, C)"
    "C (text_of name) = Some (ds, ty, ss)" "\<forall>x \<in> set ss. stores env at ds T name (M (snd x)) (fst x)"
    "slice_ok sl" "length ds \<le> kTensorSliceMaxRank" "length dat = card (cells ds sl)"
  shows "\<exists>r. TensorSliceReader env pattern (OkStatus, fnames) p = Some r \<and> ok (rd_status r) \<and>
    (if fits ds sl \<and> cells ds sl \<subseteq> (\<Union>x \<in> set ss. cells ds (fst x))
     then \<exists>dat' r'. CopySliceData env name sl dat r = Some (True, dat', r') \<and> length dat' = length dat \<and>
       (\<forall>v \<in> cells ds sl. dat' ! offset at ds sl v = cast (T v))
     else \<exists>r'. CopySliceData env name sl dat r = Some (False, dat, r'))"
  by (rule checkpoint_reader.read_slice [OF assms])

text \<open>\<open>GetTensor\<close> reads the first entry of the map of slices of a tensor that is known; a tensor whose only slice was refused
  has none, and the read has no defined result.\<close>

lemma get_tensor_without_slices:
  assumes "rd_tensors r (text_of name) = Some (TensorSliceSet shape ty)" "iterates (re_order env)"
  shows "GetTensor env build name r = None"
  using assms iterates_set [OF assms(2), of "[]"] by (simp add: GetTensor_def TensorSliceSet_def)

text \<open>An example: a tensor of four elements, two in each of two files.\<close>

definition last_two :: tensor_slice where "last_two = TensorSlice_extents [(2, 2)]"
definition middle_two :: tensor_slice where "middle_two = TensorSlice_extents [(1, 2)]"

definition example_meta :: "string \<Rightarrow> saved_slice_meta list" where
  "example_meta f = [\<lparr>ssm_name = [119], ssm_shape = \<lparr>sp_dim = [4], sp_unknown_rank = False\<rparr>, ssm_type = 9,
     ssm_slices = [[\<lparr>ex_start = (if f = ''a'' then 0 else 2), ex_length = Some 2\<rparr>]]\<rparr>]"

definition example_message :: "string \<Rightarrow> int list \<Rightarrow> tensor_proto saved_tensor_slices" where
  "example_message f xs = \<lparr>sts_tensors = example_meta f, sts_versions = \<lparr>vd_producer = 1, vd_min_consumer = 0, vd_bad_consumers = []\<rparr>,
     sts_data = \<lparr>ss_name = [119], ss_slice = [], ss_data = Fill_int64 xs no_tensor\<rparr>\<rparr>"

definition example_shard :: "string \<Rightarrow> bytes \<rightharpoonup> bytes" where
  "example_shard f k =
     (if k = [] then Some [if f = ''a'' then 0 else 1]
      else if k = EncodeTensorNameSlice [119] (if f = ''a'' then first_two else last_two) then Some [if f = ''a'' then 2 else 3] else None)"

definition example_parse :: "bytes \<Rightarrow> tensor_proto saved_tensor_slices option" where
  "example_parse val =
     (if val = [0] then Some (example_message ''a'' []) else if val = [1] then Some (example_message ''b'' [])
      else if val = [2] then Some (example_message ''a'' [0, 1]) else if val = [3] then Some (example_message ''b'' [2, 3]) else None)"

definition example_env :: "(bytes \<rightharpoonup> bytes, tensor_proto, int, int) reader_env" where
  "example_env = \<lparr>re_raw = raw_shape, re_order = rev, re_extent_text = (\<lambda>e. []), re_type_text = (\<lambda>ty. []), re_status_text = (\<lambda>s. []),
     re_version = [], re_open = (\<lambda>f. Some (OkStatus, Some (example_shard f))), re_get = (\<lambda>t k. Some (t k, t)), re_parse = example_parse,
     re_vals = int64_val, re_copy = Copy row_major (\<lambda>x. x)\<rparr>"

lemma example_last: "slice_ok last_two" "slice_ok middle_two" "fits [4] last_two" "fits [4] middle_two" "\<not> Overlaps last_two first_two"
  "slice_dims first_two = 1" "slice_dims last_two = 1"
  by code_simp+

lemma example_protos: "TensorSlice_proto [\<lparr>ex_start = 0, ex_length = Some 2\<rparr>] = first_two" "TensorSlice_proto [\<lparr>ex_start = 2, ex_length = Some 2\<rparr>] = last_two"
  by code_simp+

lemma example_disjoint: "\<not> meets first_two last_two"
  using Overlaps_meets [OF example_slices(1) example_last(1)] example_last(5-7) by simp

lemma example_reader: "checkpoint_reader example_env (\<lambda>t m. t = m) row_major (\<lambda>x. x)" "env_ok example_env"
  by (auto intro!: checkpoint_reader.intro shard.intro simp: example_env_def loops.slice_copier_axioms env_ok_def iterates_rev example_slices(5))

lemma example_files: "checkpoint_files example_env (\<lambda>t m. t = m) example_shard example_meta {''a'', ''b''}"
  unfolding checkpoint_files_def
proof (intro ballI conjI)
  fix f
  assume "f \<in> {''a'', ''b''}"
  then show "\<exists>val sts. example_shard f kSavedTensorSlicesKey = Some val \<and> re_parse example_env val = Some sts \<and> sts_tensors sts = example_meta f \<and>
        ok (CheckVersions (re_version example_env) (sts_versions sts) TF_CHECKPOINT_VERSION TF_CHECKPOINT_VERSION_MIN_PRODUCER ''Checkpoint'' ''checkpoint'')"
    by (elim insertE emptyE) (simp_all add: example_shard_def kSavedTensorSlicesKey_def example_env_def example_parse_def example_message_def CheckVersions_def
        TF_CHECKPOINT_VERSION_def TF_CHECKPOINT_VERSION_MIN_PRODUCER_def)
qed (simp_all add: example_env_def example_meta_def meta_ok_def sizes_ok_def proto_ok_def GetExtentLength_def)

lemma example_name: "text_of [119] = ''w''"
  by code_simp

lemma example_catalogue:
  "add_files example_meta [''b'', ''a''] Map.empty = (True, [''w'' \<mapsto> ([4], 9, [(last_two, ''b''), (first_two, ''a'')])])"
proof -
  have "shape_accepted [4]" by (simp add: shape_accepted_def representable_def least_size_def nonzero_product_def elements_def)
  then show ?thesis
    using example_name example_slices(1,3) example_last(1,3) example_disjoint meets_sym by (simp add: example_meta_def example_protos add_slice_def Let_def)
qed

lemma example_offset:
  assumes "slice_ok s" "fits [4] s"
  shows "v \<in> cells [4] s \<Longrightarrow> offset row_major [4] s v = nat (v ! 0 - origin s 0)"
    and "v \<in> cells [4] s \<longleftrightarrow> length v = 1 \<and> origin s 0 \<le> v ! 0 \<and> v ! 0 < origin s 0 + slice_size [4] s 0"
  by (simp_all add: offset_def pad_def kTensorSliceMaxRank_def rel_def slice_sizes_def cells_nth [OF assms] eval_nat_numeral)

lemma example_values: "origin first_two 0 = 0" "origin last_two 0 = 2" "origin middle_two 0 = 1" "slice_size [4] first_two 0 = 2"
  "slice_size [4] last_two 0 = 2" "slice_size [4] middle_two 0 = 2"
  by code_simp+

lemma example_cards: "card (cells [4] first_two) = 2" "card (cells [4] last_two) = 2" "card (cells [4] middle_two) = 2"
proof -
  obtain shape where "holds False shape [4]" using example_shape by blast
  note rep = holdsE(4) [OF this]
  show "card (cells [4] first_two) = 2" "card (cells [4] last_two) = 2" "card (cells [4] middle_two) = 2"
    unfolding card_prod [OF example_slices(1,3) rep] card_prod [OF example_last(1,3) rep] card_prod [OF example_last(2,4) rep] by code_simp+
qed

lemma example_keys: "EncodeTensorNameSlice [119] first_two \<noteq> []" "EncodeTensorNameSlice [119] last_two \<noteq> []"
  by (simp_all add: EncodeTensorNameSlice_eq WriteNumIncreasing_def Let_def)

lemma example_stores:
  "stores example_env row_major [4] (\<lambda>v. v ! 0) [119] (example_shard ''b'') last_two"
  "stores example_env row_major [4] (\<lambda>v. v ! 0) [119] (example_shard ''a'') first_two"
proof -
  have pick: "xs ! nat i = xs ! 0 \<and> i = 0 \<or> xs ! nat i = xs ! 1 \<and> i = 1" if "0 \<le> i" "i < 2" for xs :: "int list" and i
  proof -
    have "i = 0 \<or> i = 1" using that by arith
    then show ?thesis by auto
  qed
  have "\<forall>v \<in> cells [4] last_two. [2, 3] ! offset row_major [4] last_two v = v ! 0"
  proof
    fix v
    assume "v \<in> cells [4] last_two"
    then show "[2, 3] ! offset row_major [4] last_two v = v ! 0"
      using pick [of "v ! 0 - 2" "[2, 3]"] by (auto simp: example_offset [OF example_last(1,3)] example_values)
  qed
  then show "stores example_env row_major [4] (\<lambda>v. v ! 0) [119] (example_shard ''b'') last_two"
    unfolding stores_def by (simp add: example_shard_def example_keys example_env_def example_parse_def example_message_def example_cards int64_type.data_fill)
  have "\<forall>v \<in> cells [4] first_two. [0, 1] ! offset row_major [4] first_two v = v ! 0"
  proof
    fix v
    assume "v \<in> cells [4] first_two"
    then show "[0, 1] ! offset row_major [4] first_two v = v ! 0"
      using pick [of "v ! 0" "[0, 1]"] by (auto simp: example_offset [OF example_slices(1,3)] example_values)
  qed
  then show "stores example_env row_major [4] (\<lambda>v. v ! 0) [119] (example_shard ''a'') first_two"
    unfolding stores_def by (simp add: example_shard_def example_keys example_env_def example_parse_def example_message_def example_cards int64_type.data_fill)
qed

lemma checkpoint_read_witness:
  "\<exists>r r'. TensorSliceReader example_env ''ckpt'' (OkStatus, [''a'', ''b'']) 1 = Some r \<and> ok (rd_status r) \<and>
    CopySliceData example_env [119] middle_two [0, 0] r = Some (True, [1, 2], r')"
proof -
  let ?ss = "[(last_two, ''b''), (first_two, ''a'')]"
  have o: "map ((!) [''a'', ''b'']) (load_order (length [''a'', ''b'']) 1) = [''b'', ''a'']" by code_simp
  have files: "checkpoint_files example_env (\<lambda>t m. t = m) example_shard example_meta (set [''a'', ''b''])" using example_files by simp
  have cov: "fits [4] middle_two \<and> cells [4] middle_two \<subseteq> (\<Union>x \<in> set ?ss. cells [4] (fst x))"
    using example_last(4) by (auto simp: example_offset(2) [OF example_last(1,3)] example_offset(2) [OF example_last(2,4)]
        example_offset(2) [OF example_slices(1,3)] example_values)
  let ?C = "[''w'' \<mapsto> ([4], 9, ?ss)] :: catalogue"
  have c: "?C (text_of [119]) = Some ([4], 9, ?ss)" unfolding example_name by simp
  have st: "\<forall>x \<in> set ?ss. stores example_env row_major [4] (\<lambda>v. v ! 0) [119] (example_shard (snd x)) (fst x)" using example_stores by simp
  have n: "length [4 :: int] \<le> kTensorSliceMaxRank" "length [0, 0 :: int] = card (cells [4] middle_two)" "[''a'', ''b''] \<noteq> []" "distinct [''a'', ''b'']"
    by (simp_all add: kTensorSliceMaxRank_def example_cards)
  have cat: "add_files example_meta (map ((!) [''a'', ''b'']) (load_order (length [''a'', ''b'']) 1)) Map.empty = (True, ?C)"
    unfolding o by (rule example_catalogue)
  obtain r dat' r' where r: "TensorSliceReader example_env ''ckpt'' (OkStatus, [''a'', ''b'']) 1 = Some r" "ok (rd_status r)"
    "CopySliceData example_env [119] middle_two [0, 0] r = Some (True, dat', r')" "length dat' = 2"
    "\<forall>v \<in> cells [4] middle_two. dat' ! offset row_major [4] middle_two v = v ! 0"
    using checkpoint_read [OF example_reader files n(3,4) cat c st example_last(2) n(1,2), of "''ckpt''"] unfolding if_P [OF cov] by auto
  have "dat' ! 0 = 1" "dat' ! 1 = 2"
    using r(5) [rule_format, of "[1]"] r(5) [rule_format, of "[2]"] example_offset [OF example_last(2,4)] by (simp_all add: example_values)
  then have "dat' = [1, 2]" using r(4) by (cases dat'; cases "tl dat'") auto
  then show ?thesis using r(1-3) by blast
qed

lemma loading_refines_catalogue_witness:
  "\<exists>r C. TensorSliceReader example_env ''ckpt'' (OkStatus, [''b'', ''a'']) kLoadAllShards = Some r \<and> ok (rd_status r) \<and>
    catalogued (rd_tensors r) C \<and> C ''w'' = Some ([4], 9, [(last_two, ''b''), (first_two, ''a'')])"
proof -
  have files: "checkpoint_files example_env (\<lambda>t m. t = m) example_shard example_meta (set [''b'', ''a''])" using example_files by (simp add: insert_commute)
  from loading_refines_catalogue [OF example_reader files, of "''ckpt''"] obtain r C where
    "TensorSliceReader example_env ''ckpt'' (OkStatus, [''b'', ''a'']) kLoadAllShards = Some r"
    "add_files example_meta [''b'', ''a''] Map.empty = (ok (rd_status r), C)" "catalogued (rd_tensors r) C" by auto
  then show ?thesis using example_catalogue by auto
qed

end
