(* ===== verification/Slice_Writer.thy ===== *)
theory Slice_Writer
  imports Slice_Reader
begin

text \<open>
  Writing checkpoints: \<open>core/util/tensor_slice_writer.cc\<close> and \<open>tensor_slice_writer.h\<close>.  A writer collects the slices of
  tensors, with one message for the data of each, and \<open>Finish\<close> writes them to a table under a temporary name, with the
  list of tensors under the first key, and then renames the file.

  The parameters are the protocol buffer code (\<open>ByteSize\<close> and \<open>AppendToString\<close>), the builder of tables and the
  file system.  The template argument of \<open>Add\<close> and \<open>SaveData\<close> is in the record too: \<open>we_fill\<close> is \<open>Fill\<close> for the
  type, modelled in \<open>Tensor_Data\<close>, and \<open>messages_of_type\<close> shows that it has the round trip that is used; \<open>None\<close> is a call that does not return.  The assertions that only a debug
  build checks are left out.

  The theory shows the invariant of a writer, which sizes \<open>SaveData\<close> accepts, and that a checkpoint that was
  written is read back: the reader of \<open>Slice_Reader\<close> on the file copies the data that was added.
\<close>

section \<open>The code\<close>

record ('p, 'a) writer_env =
  we_raw :: shape_rep
  we_type_text :: "dtype \<Rightarrow> string"
  we_no_data :: 'p
  we_fill :: "dtype \<Rightarrow> 'a list \<Rightarrow> 'p"
  we_elem_size :: "'a \<Rightarrow> nat"
  we_byte_size :: "'p saved_slice \<Rightarrow> nat"
  we_append :: "'p saved_tensor_slices \<Rightarrow> bool \<times> bytes"

record slice_writer =
  wr_filename :: string
  wr_tmpname :: string
  wr_name_to_index :: "bytes \<rightharpoonup> nat"
  wr_tensors :: "saved_slice_meta list"
  wr_versions :: version_def
  wr_data :: "entry list"
  wr_slices :: int

text \<open>\<open>rnd\<close> is the text of the random number in the temporary name.\<close>

definition TensorSliceWriter :: "string \<Rightarrow> string \<Rightarrow> slice_writer" where
  "TensorSliceWriter filename rnd =
     \<lparr>wr_filename = filename, wr_tmpname = filename @ ''.tempstate'' @ rnd, wr_name_to_index = Map.empty, wr_tensors = [],
      wr_versions = \<lparr>vd_producer = TF_CHECKPOINT_VERSION, vd_min_consumer = TF_CHECKPOINT_VERSION_MIN_CONSUMER, vd_bad_consumers = []\<rparr>,
      wr_data = [], wr_slices = 0\<rparr>"

text \<open>The types by their numbers in \<open>types.proto\<close>.\<close>

definition MaxBytesPerElementOrZero :: "dtype \<Rightarrow> nat" where
  "MaxBytesPerElementOrZero dt =
     (if dt = 1 then 4 else if dt = 2 then 8 else if dt = 3 then 10 else if dt = 4 then 2 else if dt = 5 then 10
      else if dt = 6 then 10 else if dt = 8 then 8 else if dt = 9 then 10 else if dt = 10 then 1 else if dt = 11 then 10
      else if dt = 12 then 2 else if dt = 13 then 10 else if dt = 15 then 10 else if dt = 16 then 3 else if dt = 17 then 3
      else if dt = 18 then 16 else if dt = 19 then 3 else 0)"

definition MaxBytesPerElement :: "dtype \<Rightarrow> nat option" where
  "MaxBytesPerElement dt =
     (let max_bytes_per_element = MaxBytesPerElementOrZero dt in
      if max_bytes_per_element = 0 then None else Some max_bytes_per_element)"

definition DT_INT32 :: dtype where "DT_INT32 = 3"
definition DT_STRING :: dtype where "DT_STRING = 7"

definition kMaxMessageBytes :: u64 where "kMaxMessageBytes = 2 ^ 31"
definition kTensorProtoHeaderBytes :: u64 where "kTensorProtoHeaderBytes = 2 ^ 10"

definition too_large :: "u64 \<Rightarrow> status" where
  "too_large size_bound = Error INVALID_ARGUMENT (''Tensor slice is too large to serialize (conservative estimate: '' @
     FastUInt64ToBufferLeft size_bound @ '' bytes)'')"

text \<open>\<open>SaveData\<close> for strings; the result has the filled message.\<close>

definition SaveData_string ::
    "('p, 'a) writer_env \<Rightarrow> 'a list \<Rightarrow> int \<Rightarrow> 'p saved_slice \<Rightarrow> (status \<times> 'p saved_slice) option" where
  "SaveData_string env data num_elements ss =
     Option.bind (MaxBytesPerElement DT_INT32) (\<lambda>n.
       if length data < nat num_elements then None
       else
         let size_bound = word_of_nat (we_byte_size env ss) + kTensorProtoHeaderBytes + word_of_int num_elements * word_of_nat n;
             size_bound = fold (\<lambda>x size_bound. size_bound + word_of_nat (we_elem_size env x)) (take (nat num_elements) data) size_bound
         in if size_bound > kMaxMessageBytes then Some (too_large size_bound, ss)
            else Some (OkStatus, ss\<lparr>ss_data := we_fill env DT_STRING (take (nat num_elements) data)\<rparr>))"

definition SaveData ::
    "('p, 'a) writer_env \<Rightarrow> dtype \<Rightarrow> 'a list \<Rightarrow> int \<Rightarrow> 'p saved_slice \<Rightarrow> (status \<times> 'p saved_slice) option" where
  "SaveData env dt data num_elements ss =
     (if dt = DT_STRING then SaveData_string env data num_elements ss
      else
        let max_bytes_per_element = MaxBytesPerElementOrZero dt in
        if max_bytes_per_element = 0
        then Some (Error INVALID_ARGUMENT (''Tensor slice serialization not implemented for dtype '' @ num dt), ss)
        else
          let size_bound = word_of_nat (we_byte_size env ss) + kTensorProtoHeaderBytes + word_of_nat max_bytes_per_element * word_of_int num_elements in
          if size_bound > kMaxMessageBytes then Some (too_large size_bound, ss)
          else if length data < nat num_elements then None
          else Some (OkStatus, ss\<lparr>ss_data := we_fill env dt (take (nat num_elements) data)\<rparr>))"

text \<open>\<open>insert\<close> of \<open>std::map\<close>, in the order of the keys: an entry that is there stays.\<close>

fun data_insert :: "bytes \<Rightarrow> bytes \<Rightarrow> entry list \<Rightarrow> entry list" where
  "data_insert k v [] = [(k, v)]"
| "data_insert k v ((k', v') # es) =
     (if k < k' then (k, v) # (k', v') # es else if k = k' then (k', v') # es else (k', v') # data_insert k v es)"

text \<open>The part of \<open>Add\<close> that registers the slice: the index of the tensor, unless there is an error.\<close>

definition add_meta ::
    "('p, 'a) writer_env \<Rightarrow> dtype \<Rightarrow> bytes \<Rightarrow> shape_rep \<Rightarrow> slice_writer \<Rightarrow> (status \<times> nat \<times> slice_writer) option" where
  "add_meta env dt name shape w =
     (case wr_name_to_index w name of
        Some index \<Rightarrow>
          let ssm = wr_tensors w ! index in
          if name \<noteq> ssm_name ssm then None
          else
            Option.bind (TensorShapeBase_proto False (ssm_shape ssm) (we_raw env)) (\<lambda>shape'.
              if \<not> IsSameSize shape shape'
              then Some (Error INTERNAL (''Mismatching shapes: existing tensor = '' @ DebugString shape' @ '', trying to add name '' @
                     text_of name @ '', shape = '' @ DebugString shape), index, w)
              else if dt \<noteq> ssm_type ssm
              then Some (Error INTERNAL (''Mismatching types: existing type = '' @ we_type_text env (ssm_type ssm) @
                     '', trying to add name '' @ text_of name @ '', type = '' @ we_type_text env dt), index, w)
              else Some (OkStatus, index, w))
      | None \<Rightarrow>
          let index = length (wr_tensors w) in
          Some (OkStatus, index,
            w\<lparr>wr_name_to_index := (wr_name_to_index w)(name \<mapsto> index),
              wr_tensors := wr_tensors w @ [\<lparr>ssm_name = name, ssm_shape = AsProto False shape, ssm_type = dt, ssm_slices = []\<rparr>]\<rparr>))"

definition no_versions :: version_def where
  "no_versions = \<lparr>vd_producer = 0, vd_min_consumer = 0, vd_bad_consumers = []\<rparr>"

definition Add ::
    "('p, 'a) writer_env \<Rightarrow> dtype \<Rightarrow> bytes \<Rightarrow> shape_rep \<Rightarrow> tensor_slice \<Rightarrow> 'a list \<Rightarrow> slice_writer \<Rightarrow> (status \<times> slice_writer) option" where
  "Add env dt name shape sl data w =
     (if dims False shape \<noteq> int (slice_dims sl)
      then Some (Error INTERNAL (''Incompatible tensor shape and slice: shape = '' @ DebugString shape @ '', slice = '' @ slice_DebugString sl), w)
      else
        Option.bind (add_meta env dt name shape w) (\<lambda>(s, index, w).
          if \<not> ok s then Some (s, w)
          else
            let ssm = wr_tensors w ! index;
                w = w\<lparr>wr_tensors := (wr_tensors w)[index := ssm\<lparr>ssm_slices := ssm_slices ssm @ [slice_AsProto sl []]\<rparr>]\<rparr>;
                ss = \<lparr>ss_name = name, ss_slice = slice_AsProto sl [], ss_data = we_no_data env\<rparr>
            in
              Option.bind (TensorShapeBase_proto False (ssm_shape ssm) (we_raw env)) (\<lambda>saved_shape.
              Option.bind (SliceTensorShape saved_shape (TensorShapeBase False (we_raw env)) sl) (\<lambda>(s, sliced_shape).
                if \<not> ok s then Some (s, w)
                else
                  Option.bind (SaveData env dt data (sr_num_elements sliced_shape) ss) (\<lambda>(s, ss).
                    if \<not> ok s then Some (s, w)
                    else
                      let key = EncodeTensorNameSlice name sl;
                          (b, val) = we_append env \<lparr>sts_tensors = [], sts_versions = no_versions, sts_data = ss\<rparr>
                      in if \<not> b then Some (Error INTERNAL ''Error writing Tensor. Possible size overflow.'', w)
                         else Some (OkStatus, w\<lparr>wr_data := data_insert key val (wr_data w), wr_slices := wr_slices w + 1\<rparr>))))))"

text \<open>The abstract builder of the writer, over a file system with the state \<open>'e\<close>.\<close>

record ('b, 'e) builder_ops =
  bo_create :: "string \<Rightarrow> 'e \<Rightarrow> (status \<times> 'b option \<times> 'e) option"
  bo_add :: "bytes \<Rightarrow> bytes \<Rightarrow> 'b \<Rightarrow> 'b option"
  bo_finish :: "'b \<Rightarrow> 'e \<Rightarrow> (status \<times> int \<times> 'e) option"

record ('f, 'e) file_ops =
  fo_new :: "string \<Rightarrow> 'e \<Rightarrow> status \<times> 'f \<times> 'e"
  fo_append :: "'f appender"
  fo_close :: "'f \<Rightarrow> 'e \<Rightarrow> status \<times> 'e"
  fo_rename :: "string \<Rightarrow> string \<Rightarrow> 'e \<Rightarrow> status \<times> 'e"
  fo_delete :: "string \<Rightarrow> 'e \<Rightarrow> status \<times> 'e"

fun add_entries :: "(bytes \<Rightarrow> bytes \<Rightarrow> 'b \<Rightarrow> 'b option) \<Rightarrow> entry list \<Rightarrow> 'b \<Rightarrow> 'b option" where
  "add_entries add [] b = Some b"
| "add_entries add ((k, v) # es) b = Option.bind (add k v b) (add_entries add es)"

definition meta_message :: "('p, 'a) writer_env \<Rightarrow> slice_writer \<Rightarrow> 'p saved_tensor_slices" where
  "meta_message env w = \<lparr>sts_tensors = wr_tensors w, sts_versions = wr_versions w,
     sts_data = \<lparr>ss_name = [], ss_slice = [], ss_data = we_no_data env\<rparr>\<rparr>"

definition Writer_Finish ::
    "('p, 'a) writer_env \<Rightarrow> ('b, 'e) builder_ops \<Rightarrow> ('f, 'e) file_ops \<Rightarrow> slice_writer \<Rightarrow> 'e \<Rightarrow> (status \<times> 'e) option" where
  "Writer_Finish env bo fo w e =
     Option.bind (bo_create bo (wr_tmpname w) e) (\<lambda>(s, b, e).
       if \<not> ok s then Some (s, e)
       else
         Option.bind b (\<lambda>builder.
           let (_, meta) = we_append env (meta_message env w) in
           Option.bind (bo_add bo kSavedTensorSlicesKey meta builder) (\<lambda>builder.
           Option.bind (add_entries (bo_add bo) (wr_data w) builder) (\<lambda>builder.
           Option.bind (bo_finish bo builder e) (\<lambda>(s, file_size, e).
             if ok s then Some (fo_rename fo (wr_tmpname w) (wr_filename w) e)
             else Some (s, snd (fo_delete fo (wr_tmpname w) e)))))))"

text \<open>The builder of tables.\<close>

record 'f slice_table_builder =
  sb_name :: string
  sb_builder :: "'f table_builder"

definition slice_table_options :: options where
  "slice_table_options = \<lparr>block_size = 262144, block_restart_interval = 16, compression = kNoCompression\<rparr>"

definition CreateTableTensorSliceBuilder ::
    "('f, 'e) file_ops \<Rightarrow> string \<Rightarrow> 'e \<Rightarrow> (status \<times> 'f slice_table_builder option \<times> 'e) option" where
  "CreateTableTensorSliceBuilder fo name e =
     (let (s, f, e) = fo_new fo name e in
      if ok s then Some (OkStatus, Some \<lparr>sb_name = name, sb_builder = TableBuilder slice_table_options f\<rparr>, e)
      else Some (s, None, e))"

definition SliceBuilder_Add ::
    "snappy \<Rightarrow> ('f, 'e) file_ops \<Rightarrow> bytes \<Rightarrow> bytes \<Rightarrow> 'f slice_table_builder \<Rightarrow> 'f slice_table_builder option" where
  "SliceBuilder_Add sn fo key val b =
     map_option (\<lambda>t. b\<lparr>sb_builder := t\<rparr>) (TableBuilder_Add sn (fo_append fo) key val (sb_builder b))"

fun error_message :: "status \<Rightarrow> string" where
  "error_message OkStatus = ''''"
| "error_message (Error c m) = m"

definition SliceBuilder_Finish ::
    "snappy \<Rightarrow> ('f, 'e) file_ops \<Rightarrow> 'f slice_table_builder \<Rightarrow> 'e \<Rightarrow> (status \<times> int \<times> 'e) option" where
  "SliceBuilder_Finish sn fo b e =
     map_option (\<lambda>(s, t).
         let (s, e) = (if ok s then fo_close fo (tb_file t) e else (s, e));
             file_size = (if ok s then sint (FileSize t) else -1);
             s = (if \<not> ok s then Error INTERNAL (''Error writing (tmp) checkpoint file: '' @ sb_name b @ '': '' @ error_message s) else s)
         in (s, file_size, e))
       (TableBuilder_Finish sn (fo_append fo) (sb_builder b))"

definition table_ops :: "snappy \<Rightarrow> ('f, 'e) file_ops \<Rightarrow> ('f slice_table_builder, 'e) builder_ops" where
  "table_ops sn fo = \<lparr>bo_create = CreateTableTensorSliceBuilder fo, bo_add = SliceBuilder_Add sn fo, bo_finish = SliceBuilder_Finish sn fo\<rparr>"

section \<open>The size of a message\<close>

text \<open>The estimate without wrap-around.\<close>

definition estimate :: "('p, 'a) writer_env \<Rightarrow> dtype \<Rightarrow> 'a list \<Rightarrow> 'p saved_slice \<Rightarrow> nat" where
  "estimate env dt data ss = we_byte_size env ss + 2 ^ 10 +
     (if dt = DT_STRING then 10 * length data + sum_list (map (we_elem_size env) data) else MaxBytesPerElementOrZero dt * length data)"

definition savable :: "dtype \<Rightarrow> bool" where
  "savable dt \<longleftrightarrow> dt = DT_STRING \<or> MaxBytesPerElementOrZero dt \<noteq> 0"

lemma fold_sizes: "fold (\<lambda>x b. b + word_of_nat (f x)) xs (word_of_nat n :: u64) = word_of_nat (n + sum_list (map f xs))"
proof (induction xs arbitrary: n)
  case (Cons x xs)
  have "fold (\<lambda>x b. b + word_of_nat (f x)) (x # xs) (word_of_nat n :: u64) = fold (\<lambda>x b. b + word_of_nat (f x)) xs (word_of_nat (n + f x))"
    by simp
  then show ?case using Cons.IH [of "n + f x"] by (simp add: add.assoc)
qed simp

lemma bound_less:
  assumes "n < 2 ^ 64"
  shows "(word_of_nat n :: u64) > kMaxMessageBytes \<longleftrightarrow> n > 2 ^ 31"
proof -
  have "unat (word_of_nat n :: u64) = n" using assms by (simp add: unat_of_nat take_bit_nat_eq_self_iff)
  moreover have "unat kMaxMessageBytes = 2 ^ 31" by (simp add: kMaxMessageBytes_def)
  ultimately show ?thesis by (simp only: word_less_nat_alt)
qed

lemma SaveData_law:
  assumes "estimate env dt data ss < 2 ^ 64" "savable dt"
  shows "if estimate env dt data ss \<le> 2 ^ 31
    then SaveData env dt data (int (length data)) ss = Some (OkStatus, ss\<lparr>ss_data := we_fill env dt data\<rparr>)
    else \<exists>m. SaveData env dt data (int (length data)) ss = Some (Error INVALID_ARGUMENT m, ss)"
proof (cases "dt = DT_STRING")
  case True
  let ?b = "word_of_nat (we_byte_size env ss) + kTensorProtoHeaderBytes + word_of_int (int (length data)) * word_of_nat 10 :: u64"
  have "?b = word_of_nat (we_byte_size env ss + 2 ^ 10 + 10 * length data)" by (simp add: kTensorProtoHeaderBytes_def)
  then have b: "fold (\<lambda>x b. b + word_of_nat (we_elem_size env x)) data ?b = word_of_nat (estimate env dt data ss)"
    by (simp only: fold_sizes) (simp add: estimate_def True)
  have "MaxBytesPerElement DT_INT32 = Some 10" by code_simp
  then have eq: "SaveData env dt data (int (length data)) ss =
      (if (word_of_nat (estimate env dt data ss) :: u64) > kMaxMessageBytes then Some (too_large (word_of_nat (estimate env dt data ss)), ss)
       else Some (OkStatus, ss\<lparr>ss_data := we_fill env dt data\<rparr>))"
    unfolding SaveData_def SaveData_string_def if_P [OF True] Let_def using b True by simp
  show ?thesis unfolding eq bound_less [OF assms(1)] by (simp add: too_large_def)
next
  case False
  then have m: "MaxBytesPerElementOrZero dt \<noteq> 0" using assms(2) by (simp add: savable_def)
  have b: "word_of_nat (we_byte_size env ss) + kTensorProtoHeaderBytes + word_of_nat (MaxBytesPerElementOrZero dt) * word_of_int (int (length data)) =
      (word_of_nat (estimate env dt data ss) :: u64)"
    by (simp add: estimate_def False kTensorProtoHeaderBytes_def)
  show ?thesis
    unfolding SaveData_def if_not_P [OF False] if_not_P [OF m] Let_def b bound_less [OF assms(1)] using m by (simp add: too_large_def)
qed

section \<open>The data of a writer\<close>

lemma data_insert_set: "set (data_insert k v es) = (if k \<in> fst ` set es then set es else insert (k, v) (set es))" if "sorted_entries es"
  using that
proof (induction k v es rule: data_insert.induct)
  case (2 k v k' v' es)
  show ?case
  proof (cases "k < k'")
    case True
    then have "k \<notin> fst ` set ((k', v') # es)" using "2.prems" by force
    with True show ?thesis by simp
  next
    case False
    then show ?thesis using "2.IH" "2.prems" by (auto split: if_splits)
  qed
qed simp

lemma data_insert_sorted: "sorted_entries es \<Longrightarrow> sorted_entries (data_insert k v es)"
proof (induction k v es rule: data_insert.induct)
  case (2 k v k' v' es)
  then show ?case using data_insert_set [of es k v] by (auto split: if_splits)
qed simp

lemma sorted_entries_distinct: "sorted_entries es \<Longrightarrow> distinct (map fst es)"
  by (induction es) force+

lemma map_of_data_insert:
  assumes "sorted_entries es"
  shows "map_of (data_insert k v es) k' = (if k' = k \<and> map_of es k = None then Some v else map_of es k')"
  using assms
proof (induction k v es rule: data_insert.induct)
  case (2 k v a b es)
  show ?case
  proof (cases "k < a")
    case True
    then have "k \<notin> fst ` set ((a, b) # es)" using "2.prems" by force
    then have "map_of ((a, b) # es) k = None" by (simp only: map_of_eq_None_iff not_False_eq_True)
    with True show ?thesis by simp
  next
    case False
    then show ?thesis using "2.IH" "2.prems" by auto
  qed
qed simp

text \<open>Keys of different slices differ.\<close>

lemma slice_eqI:
  assumes "slice_ok s" "slice_ok s'" "slice_dims s = slice_dims s'" "key_extents s = key_extents s'"
  shows "s = s'"
proof -
  have e: "start s d = start s' d \<and> slength s d = slength s' d" if d: "d < slice_dims s" for d
  proof -
    have pair: "take 2 (drop (2 * d) (key_extents t)) = [start t d, slength t d]" if t: "d < slice_dims t" for t
    proof -
      have split: "[0..<slice_dims t] = [0..<d] @ d # [Suc d..<slice_dims t]" using t upt_add_eq_append [of 0 d "slice_dims t - d"] by (simp add: upt_conv_Cons)
      have "length (concat (map (\<lambda>d. [start t d, slength t d]) xs)) = 2 * length xs" for xs by (induction xs) simp_all
      then show ?thesis unfolding key_extents_def split by simp
    qed
    show ?thesis using pair [of s] pair [of s'] d assms(3,4) by simp
  qed
  have "length (ts_starts s) = slice_dims s" "length (ts_starts s') = slice_dims s'" "length (ts_lengths s) = slice_dims s" "length (ts_lengths s') = slice_dims s'"
    using assms(1,2) by (simp_all add: slice_ok_def slice_dims_def)
  then have "ts_starts s = ts_starts s'" "ts_lengths s = ts_lengths s'"
    using e assms(3) by (auto intro!: nth_equalityI simp: start_def slength_def)
  then show ?thesis by simp
qed

lemma key_inject:
  assumes "slice_ok s" "slice_ok s'" "slice_dims s < kint32max" "slice_dims s' < kint32max"
    "EncodeTensorNameSlice name s = EncodeTensorNameSlice name' s'"
  shows "name = name' \<and> s = s'"
proof -
  have "\<not> (name < name' \<or> name = name' \<and> (slice_dims s < slice_dims s' \<or> slice_dims s = slice_dims s' \<and> key_extents s < key_extents s'))"
    "\<not> (name' < name \<or> name' = name \<and> (slice_dims s' < slice_dims s \<or> slice_dims s' = slice_dims s \<and> key_extents s' < key_extents s))"
    using key_less [OF assms(1-4), of name name'] key_less [OF assms(2,1,4,3), of name' name] assms(5) by auto
  then have "name = name' \<and> slice_dims s = slice_dims s' \<and> key_extents s = key_extents s'" by (auto simp: not_less_iff_gr_or_eq)
  then show ?thesis using slice_eqI [OF assms(1,2)] by blast
qed

lemma text_of_inject: "text_of xs = text_of ys \<Longrightarrow> xs = ys"
proof -
  have "inj (\<lambda>b :: byte. char_of (unat b))"
  proof (rule injI)
    fix x y :: byte
    assume "char_of (unat x) = char_of (unat y)"
    then have "of_char (char_of (unat x)) = (of_char (char_of (unat y)) :: nat)" by simp
    then have "unat x mod 256 = unat y mod 256" by (simp only: of_char_of)
    then show "x = y" using unsigned_less [of x, where 'a = nat] unsigned_less [of y, where 'a = nat] by (simp add: word_unat_eq_iff)
  qed
  then show "text_of xs = text_of ys \<Longrightarrow> xs = ys" unfolding text_of_def by (simp add: inj_map_eq_map)
qed

section \<open>The invariant of a writer\<close>

text \<open>A call of \<open>Add\<close>, and a sequence of calls up to the first error.\<close>

record 'a save_call =
  sc_type :: dtype
  sc_name :: bytes
  sc_shape :: shape_rep
  sc_slice :: tensor_slice
  sc_data :: "'a list"

abbreviation sc_dims :: "'a save_call \<Rightarrow> int list" where
  "sc_dims x \<equiv> shape_list False (sc_shape x)"

fun write_slices :: "('p, 'a) writer_env \<Rightarrow> 'a save_call list \<Rightarrow> slice_writer \<Rightarrow> (status \<times> slice_writer) option" where
  "write_slices env [] w = Some (OkStatus, w)"
| "write_slices env (x # xs) w =
     Option.bind (Add env (sc_type x) (sc_name x) (sc_shape x) (sc_slice x) (sc_data x) w) (\<lambda>(s, w).
       if ok s then write_slices env xs w else Some (s, w))"

definition sc_key :: "'a save_call \<Rightarrow> bytes" where
  "sc_key x = EncodeTensorNameSlice (sc_name x) (sc_slice x)"

definition sc_message :: "('p, 'a) writer_env \<Rightarrow> 'a save_call \<Rightarrow> 'p saved_tensor_slices" where
  "sc_message env x = \<lparr>sts_tensors = [], sts_versions = no_versions,
     sts_data = \<lparr>ss_name = sc_name x, ss_slice = slice_AsProto (sc_slice x) [], ss_data = we_fill env (sc_type x) (sc_data x)\<rparr>\<rparr>"

text \<open>A call that the writer accepts: the slice lies in the tensor, the data is as long as the slice, the message is small enough and can be
  written.\<close>

definition call_ok :: "('p, 'a) writer_env \<Rightarrow> 'a save_call \<Rightarrow> bool" where
  "call_ok env x \<longleftrightarrow> holds False (sc_shape x) (sc_dims x) \<and> shape_accepted (sc_dims x) \<and> slice_ok (sc_slice x) \<and> fits (sc_dims x) (sc_slice x) \<and>
     length (sc_data x) = card (cells (sc_dims x) (sc_slice x)) \<and> savable (sc_type x) \<and>
     estimate env (sc_type x) (sc_data x) \<lparr>ss_name = sc_name x, ss_slice = slice_AsProto (sc_slice x) [], ss_data = we_no_data env\<rparr> \<le> 2 ^ 31 \<and>
     fst (we_append env (sc_message env x))"

text \<open>Calls that agree: those of one tensor have its sizes and its type, and their slices are disjoint.\<close>

definition agree :: "'a save_call \<Rightarrow> 'a save_call \<Rightarrow> bool" where
  "agree x y \<longleftrightarrow> (sc_name x = sc_name y \<longrightarrow> sc_dims x = sc_dims y \<and> sc_type x = sc_type y \<and> \<not> meets (sc_slice x) (sc_slice y))"

definition same_tensor :: "'a save_call \<Rightarrow> 'a save_call \<Rightarrow> bool" where
  "same_tensor x y \<longleftrightarrow> (sc_name x = sc_name y \<longrightarrow> sc_dims x = sc_dims y \<and> sc_type x = sc_type y)"

definition of_name :: "bytes \<Rightarrow> 'a save_call list \<Rightarrow> 'a save_call list" where
  "of_name n xs = filter (\<lambda>x. sc_name x = n) xs"

definition meta_of :: "'a save_call list \<Rightarrow> saved_slice_meta \<Rightarrow> bool" where
  "meta_of xs ssm \<longleftrightarrow> of_name (ssm_name ssm) xs \<noteq> [] \<and>
     ssm_slices ssm = map (\<lambda>x. slice_AsProto (sc_slice x) []) (of_name (ssm_name ssm) xs) \<and>
     (\<forall>x \<in> set (of_name (ssm_name ssm) xs). ssm_shape ssm = \<lparr>sp_dim = sc_dims x, sp_unknown_rank = False\<rparr> \<and> ssm_type ssm = sc_type x)"

text \<open>The metadata for the calls \<open>ms\<close>: each tensor once, with its slices in the order of the calls, and found by the index.\<close>

definition meta_inv :: "'a save_call list \<Rightarrow> slice_writer \<Rightarrow> bool" where
  "meta_inv ms w \<longleftrightarrow> (\<forall>x \<in> set ms. holds False (sc_shape x) (sc_dims x)) \<and>
     distinct (map ssm_name (wr_tensors w)) \<and> (\<forall>ssm \<in> set (wr_tensors w). meta_of ms ssm) \<and> sc_name ` set ms = ssm_name ` set (wr_tensors w) \<and>
     (\<forall>n i. wr_name_to_index w n = Some i \<longleftrightarrow> i < length (wr_tensors w) \<and> ssm_name (wr_tensors w ! i) = n)"

text \<open>
  What the data has for a key: the message of the first accepted call with this key, with as many
  elements as its slice has.
\<close>

definition stored_message :: "('p, 'a) writer_env \<Rightarrow> 'a save_call \<Rightarrow> 'p saved_tensor_slices" where
  "stored_message env x = sc_message env (x\<lparr>sc_data := take (card (cells (sc_dims x) (sc_slice x))) (sc_data x)\<rparr>)"

definition first_stored :: "('p, 'a) writer_env \<Rightarrow> 'a save_call list \<Rightarrow> bytes \<Rightarrow> bytes option" where
  "first_stored env xs k = map_option (\<lambda>x. snd (we_append env (stored_message env x))) (find (\<lambda>x. sc_key x = k) xs)"

text \<open>
  The invariant of a writer: \<open>ms\<close> are the calls whose slice was registered and \<open>xs\<close> those of them
  that were accepted.  Slices may overlap or be added again.
\<close>

definition writer_inv :: "('p, 'a) writer_env \<Rightarrow> 'a save_call list \<Rightarrow> 'a save_call list \<Rightarrow> slice_writer \<Rightarrow> bool" where
  "writer_inv env ms xs w \<longleftrightarrow> meta_inv ms w \<and> set xs \<subseteq> set ms \<and>
     (\<forall>x \<in> set xs. fits (sc_dims x) (sc_slice x) \<and> card (cells (sc_dims x) (sc_slice x)) \<le> length (sc_data x)) \<and>
     sorted_entries (wr_data w) \<and> (\<forall>k. map_of (wr_data w) k = first_stored env xs k)"

text \<open>The case of slices that are disjoint: the data has a message for every call.\<close>

definition written :: "('p, 'a) writer_env \<Rightarrow> 'a save_call list \<Rightarrow> slice_writer \<Rightarrow> bool" where
  "written env xs w \<longleftrightarrow> meta_inv xs w \<and> sorted_entries (wr_data w) \<and> fst ` set (wr_data w) = sc_key ` set xs \<and>
     (\<forall>x \<in> set xs. map_of (wr_data w) (sc_key x) = Some (snd (we_append env (sc_message env x))))"

lemma writtenD:
  assumes "written env xs w"
  shows "distinct (map ssm_name (wr_tensors w))" "\<forall>ssm \<in> set (wr_tensors w). meta_of xs ssm" "sc_name ` set xs = ssm_name ` set (wr_tensors w)"
    "\<forall>n i. wr_name_to_index w n = Some i \<longleftrightarrow> i < length (wr_tensors w) \<and> ssm_name (wr_tensors w ! i) = n"
    "sorted_entries (wr_data w)" "fst ` set (wr_data w) = sc_key ` set xs"
    "\<forall>x \<in> set xs. map_of (wr_data w) (sc_key x) = Some (snd (we_append env (sc_message env x)))"
  using assms [unfolded written_def meta_inv_def] by simp_all

lemma meta_invD:
  assumes "meta_inv ms w"
  shows "\<forall>x \<in> set ms. holds False (sc_shape x) (sc_dims x)" "distinct (map ssm_name (wr_tensors w))" "\<forall>ssm \<in> set (wr_tensors w). meta_of ms ssm"
    "sc_name ` set ms = ssm_name ` set (wr_tensors w)"
    "\<forall>n i. wr_name_to_index w n = Some i \<longleftrightarrow> i < length (wr_tensors w) \<and> ssm_name (wr_tensors w ! i) = n"
  using assms [unfolded meta_inv_def] by simp_all

lemma writer_inv_init: "writer_inv env [] [] (TensorSliceWriter filename rnd)"
  by (simp add: writer_inv_def meta_inv_def first_stored_def TensorSliceWriter_def)

lemma meta_inv_data [simp]: "meta_inv ms (w\<lparr>wr_data := d, wr_slices := n\<rparr>) \<longleftrightarrow> meta_inv ms w"
  by (simp add: meta_inv_def)

lemma accepted_dims: "shape_accepted ds \<Longrightarrow> length ds < kint32max"
  by (simp add: shape_accepted_def representable_def kint32max_def)

lemma sizes_ok_representable: "representable False ds \<Longrightarrow> sizes_ok False ds"
  by (auto simp: representable_def sizes_ok_def least_size_def list_all_iff)

lemma TensorShape_proto_law:
  assumes "length (sr_buf raw) = 16" "representable False (sp_dim proto)"
  shows "\<exists>s. TensorShapeBase_proto False proto raw = Some s \<and> holds False s (sp_dim proto)"
proof -
  let ?s = "set_data_type DT_INVALID (set_tag REP16 raw)"
  have s: "length (sr_buf ?s) = 16" "tag ?s = REP16" using assms(1) by simp_all
  show ?thesis using AddDims_law [OF holds_empty [OF s] sizes_ok_representable [OF assms(2)]] assms(2)
    by (auto simp: TensorShapeBase_proto_def Let_def)
qed

lemma AsProto_held: "holds False shape ds \<Longrightarrow> AsProto False shape = \<lparr>sp_dim = ds, sp_unknown_rank = False\<rparr>"
  by (auto simp: AsProto_def held_dims held_nth intro!: nth_equalityI)

text \<open>
  Registering a slice: unless the sizes or the type of the tensor differ, its metadata exists
  afterwards, with these sizes and this type.
\<close>

definition meta_found :: "'a save_call list \<Rightarrow> 'a save_call \<Rightarrow> nat \<Rightarrow> slice_writer \<Rightarrow> bool" where
  "meta_found ms x i w \<longleftrightarrow> i < length (wr_tensors w) \<and>
    ssm_name (wr_tensors w ! i) = sc_name x \<and> ssm_shape (wr_tensors w ! i) = \<lparr>sp_dim = sc_dims x, sp_unknown_rank = False\<rparr> \<and> ssm_type (wr_tensors w ! i) = sc_type x \<and>
    ssm_slices (wr_tensors w ! i) = map (\<lambda>x. slice_AsProto (sc_slice x) []) (of_name (sc_name x) ms) \<and>
    distinct (map ssm_name (wr_tensors w)) \<and> (\<forall>j < length (wr_tensors w). j \<noteq> i \<longrightarrow> meta_of ms (wr_tensors w ! j)) \<and>
    ssm_name ` set (wr_tensors w) = insert (sc_name x) (sc_name ` set ms) \<and>
    (\<forall>n j. wr_name_to_index w n = Some j \<longleftrightarrow> j < length (wr_tensors w) \<and> ssm_name (wr_tensors w ! j) = n)"

lemma add_meta_new:
  assumes "meta_inv ms w" "holds False (sc_shape x) (sc_dims x)" "wr_name_to_index w (sc_name x) = None"
  shows "\<forall>y \<in> set ms. sc_name y \<noteq> sc_name x"
    "\<exists>i w'. add_meta env (sc_type x) (sc_name x) (sc_shape x) w = Some (OkStatus, i, w') \<and> meta_found ms x i w' \<and> wr_data w' = wr_data w"
proof -
  note inv = meta_invD [OF assms(1)]
  have new: "sc_name x \<notin> ssm_name ` set (wr_tensors w)"
  proof
    assume "sc_name x \<in> ssm_name ` set (wr_tensors w)"
    then obtain i where "i < length (wr_tensors w)" "ssm_name (wr_tensors w ! i) = sc_name x" by (auto simp: in_set_conv_nth)
    then have "wr_name_to_index w (sc_name x) = Some i" using inv(5) [THEN spec, of "sc_name x", THEN spec, of i] by simp
    with assms(3) show False by simp
  qed
  then show none: "\<forall>y \<in> set ms. sc_name y \<noteq> sc_name x" unfolding inv(4) [symmetric] by (metis image_eqI)
  let ?ssm = "\<lparr>ssm_name = sc_name x, ssm_shape = AsProto False (sc_shape x), ssm_type = sc_type x, ssm_slices = []\<rparr>"
  let ?w = "w\<lparr>wr_name_to_index := (wr_name_to_index w)(sc_name x \<mapsto> length (wr_tensors w)), wr_tensors := wr_tensors w @ [?ssm]\<rparr>"
  have c: "add_meta env (sc_type x) (sc_name x) (sc_shape x) w = Some (OkStatus, length (wr_tensors w), ?w)"
    using assms(3) by (simp add: add_meta_def Let_def)
  have idx: "wr_name_to_index ?w n = Some j \<longleftrightarrow> j < length (wr_tensors ?w) \<and> ssm_name (wr_tensors ?w ! j) = n" for n j
    using inv(5) [THEN spec, of n, THEN spec, of j] assms(3) by (auto simp: nth_append less_Suc_eq)
  have "\<forall>j < length (wr_tensors ?w). j \<noteq> length (wr_tensors w) \<longrightarrow> meta_of ms (wr_tensors ?w ! j)"
    using inv(3) by (auto simp: nth_append less_Suc_eq)
  moreover have "distinct (map ssm_name (wr_tensors ?w))" "ssm_name ` set (wr_tensors ?w) = insert (sc_name x) (sc_name ` set ms)" using inv(2,4) new by auto
  moreover have "of_name (sc_name x) ms = []" using none by (simp add: of_name_def filter_empty_conv)
  ultimately have "meta_found ms x (length (wr_tensors w)) ?w" using idx AsProto_held [OF assms(2)] by (simp add: meta_found_def)
  with c show "\<exists>i w'. add_meta env (sc_type x) (sc_name x) (sc_shape x) w = Some (OkStatus, i, w') \<and> meta_found ms x i w' \<and> wr_data w' = wr_data w"
    by simp
qed

lemma add_meta_law:
  assumes "meta_inv ms w" "holds False (sc_shape x) (sc_dims x)" "length (sr_buf (we_raw env)) = 16"
  shows "if \<forall>y \<in> set ms. same_tensor y x
    then \<exists>i w'. add_meta env (sc_type x) (sc_name x) (sc_shape x) w = Some (OkStatus, i, w') \<and> meta_found ms x i w' \<and> wr_data w' = wr_data w
    else \<exists>m i. add_meta env (sc_type x) (sc_name x) (sc_shape x) w = Some (Error INTERNAL m, i, w)"
proof (cases "wr_name_to_index w (sc_name x)")
  case (Some i)
  note inv = meta_invD [OF assms(1)]
  have i: "i < length (wr_tensors w)" "ssm_name (wr_tensors w ! i) = sc_name x" using inv(5) Some by auto
  let ?ssm = "wr_tensors w ! i"
  have m: "meta_of ms ?ssm" using inv(3) i(1) by simp
  then have "of_name (sc_name x) ms \<noteq> []" by (simp add: meta_of_def i(2))
  then obtain y where y: "y \<in> set (of_name (sc_name x) ms)" by (meson list.set_sel(1))
  have d: "ssm_shape ?ssm = \<lparr>sp_dim = sc_dims y, sp_unknown_rank = False\<rparr>" "ssm_type ?ssm = sc_type y" using m y unfolding meta_of_def i(2) by auto
  have all: "\<forall>z \<in> set (of_name (sc_name x) ms). sc_dims z = sc_dims y \<and> sc_type z = sc_type y" using m unfolding meta_of_def i(2) d by auto
  have "holds False (sc_shape y) (sc_dims y)" using inv(1) y by (simp add: of_name_def)
  then have "representable False (sc_dims y)" by (rule holdsE(4))
  then obtain s where s: "TensorShapeBase_proto False (ssm_shape ?ssm) (we_raw env) = Some s" "holds False s (sc_dims y)"
    using TensorShape_proto_law [OF assms(3), of "ssm_shape ?ssm"] d(1) by auto
  have same: "(\<forall>y \<in> set ms. same_tensor y x) \<longleftrightarrow> sc_dims x = sc_dims y \<and> sc_type x = sc_type y"
  proof -
    have "y \<in> set ms" "sc_name y = sc_name x" "\<forall>z \<in> set ms. sc_name z = sc_name x \<longrightarrow> sc_dims z = sc_dims y \<and> sc_type z = sc_type y"
      using y all unfolding of_name_def set_filter by blast+
    then show ?thesis unfolding same_tensor_def by metis
  qed
  have c: "add_meta env (sc_type x) (sc_name x) (sc_shape x) w = Some (OkStatus, i, w)" if "sc_dims x = sc_dims y" "sc_type x = sc_type y"
    using that Some i(2) s(1) d(2) IsSameSize_iff [OF assms(2) s(2)] by (simp add: add_meta_def Let_def)
  have e: "\<exists>m i. add_meta env (sc_type x) (sc_name x) (sc_shape x) w = Some (Error INTERNAL m, i, w)" if "\<not> (sc_dims x = sc_dims y \<and> sc_type x = sc_type y)"
    using that Some i(2) s(1) d(2) IsSameSize_iff [OF assms(2) s(2)] by (simp add: add_meta_def Let_def)
  have "insert (sc_name x) (sc_name ` set ms) = ssm_name ` set (wr_tensors w)" using inv(4) i by (metis image_eqI insert_absorb nth_mem)
  then have "meta_found ms x i w" if "sc_dims x = sc_dims y" "sc_type x = sc_type y"
    using that i d m inv by (simp add: meta_found_def meta_of_def)
  then show ?thesis unfolding same using c e by simp
next
  case None
  have "\<forall>y \<in> set ms. same_tensor y x" using add_meta_new(1) [OF assms(1,2) None] by (simp add: same_tensor_def)
  then show ?thesis using add_meta_new(2) [OF assms(1,2) None] by simp
qed

lemma add_meta_keeps:
  "add_meta env dt name shape w = Some (s, i, w') \<Longrightarrow> wr_filename w' = wr_filename w \<and> wr_tmpname w' = wr_tmpname w \<and> wr_versions w' = wr_versions w"
  by (auto simp: add_meta_def Let_def bind_eq_Some_conv split: option.splits if_splits)

lemma of_name_snoc: "of_name n (xs @ [x]) = of_name n xs @ (if sc_name x = n then [x] else [])"
  by (simp add: of_name_def)

lemma call_slice:
  assumes "call_ok env x"
  shows "slice_ok (sc_slice x)" "slice_dims (sc_slice x) < kint32max"
  using assms accepted_dims [of "sc_dims x"] by (simp_all add: call_ok_def fits_def del: length_shape_list)

lemma distinct_keys:
  assumes "call_ok env x" "call_ok env y" "agree y x"
  shows "sc_key y \<noteq> sc_key x"
proof
  assume k: "sc_key y = sc_key x"
  have ok: "slice_ok (sc_slice x)" "slice_ok (sc_slice y)" "slice_dims (sc_slice x) < kint32max" "slice_dims (sc_slice y) < kint32max"
    using call_slice [OF assms(1)] call_slice [OF assms(2)] by simp_all
  from key_inject [OF ok(2,1,4,3) k [unfolded sc_key_def]] have "sc_name y = sc_name x \<and> sc_slice y = sc_slice x" .
  then show False using assms(3) meets_refl [OF ok(1)] by (simp add: agree_def)
qed

lemma update_meta:
  assumes "i < length ts" "distinct (map ssm_name ts)" "ssm_name (ts ! i) = sc_name x" "ssm_shape (ts ! i) = \<lparr>sp_dim = sc_dims x, sp_unknown_rank = False\<rparr>" "ssm_type (ts ! i) = sc_type x"
    "ssm_slices (ts ! i) = map (\<lambda>x. slice_AsProto (sc_slice x) []) (of_name (sc_name x) xs)" "\<forall>j < length ts. j \<noteq> i \<longrightarrow> meta_of xs (ts ! j)"
    "\<forall>y \<in> set xs. same_tensor y x"
  defines "ts' \<equiv> ts[i := (ts ! i)\<lparr>ssm_slices := ssm_slices (ts ! i) @ [slice_AsProto (sc_slice x) []]\<rparr>]"
  shows "map ssm_name ts' = map ssm_name ts" "\<forall>ssm \<in> set ts'. meta_of (xs @ [x]) ssm"
proof -
  show names: "map ssm_name ts' = map ssm_name ts" unfolding ts'_def using assms(1) by (auto simp: nth_list_update intro!: nth_equalityI)
  have "meta_of (xs @ [x]) (ts' ! j)" if j: "j < length ts" for j
  proof (cases "j = i")
    case True
    have "\<forall>y \<in> set (of_name (sc_name x) xs). sc_dims y = sc_dims x \<and> sc_type y = sc_type x" using assms(8) by (auto simp: of_name_def same_tensor_def)
    then show ?thesis using True assms(1,3-6) by (auto simp: ts'_def meta_of_def of_name_snoc)
  next
    case False
    then have "ssm_name (ts ! j) \<noteq> sc_name x" using assms(1-3) j by (metis length_map nth_eq_iff_index_eq nth_map)
    then show ?thesis using False assms(7) j by (simp add: ts'_def meta_of_def of_name_snoc)
  qed
  moreover have "length ts' = length ts" by (simp add: ts'_def)
  ultimately show "\<forall>ssm \<in> set ts'. meta_of (xs @ [x]) ssm" by (metis in_set_conv_nth)
qed

lemma register_law:
  assumes "meta_found ms x i w" "\<forall>y \<in> set ms. same_tensor y x" "meta_inv ms w0" "holds False (sc_shape x) (sc_dims x)"
  defines "ssm \<equiv> wr_tensors w ! i"
  shows "meta_inv (ms @ [x]) (w\<lparr>wr_tensors := (wr_tensors w)[i := ssm\<lparr>ssm_slices := ssm_slices ssm @ [slice_AsProto (sc_slice x) []]\<rparr>]\<rparr>)"
proof -
  note m = assms(1) [unfolded meta_found_def]
  let ?ts = "(wr_tensors w)[i := ssm\<lparr>ssm_slices := ssm_slices ssm @ [slice_AsProto (sc_slice x) []]\<rparr>]"
  have ts: "map ssm_name ?ts = map ssm_name (wr_tensors w)" "\<forall>ssm \<in> set ?ts. meta_of (ms @ [x]) ssm"
    unfolding ssm_def by (rule update_meta [where x = x and xs = ms]; use m assms(2) in simp)+
  have nm: "ssm_name ` set ?ts = ssm_name ` set (wr_tensors w)" using ts(1) by (metis list.set_map)
  have nth: "ssm_name (?ts ! j) = ssm_name (wr_tensors w ! j)" if "j < length (wr_tensors w)" for j
    using ts(1) that by (metis length_list_update nth_map)
  show ?thesis unfolding meta_inv_def using m ts nm nth meta_invD(1) [OF assms(3)] assms(4) by auto
qed

text \<open>What \<open>Add\<close> does once the number of dimensions and the metadata agree: \<open>w1\<close> has the slice registered.\<close>

lemma Add_registers:
  assumes "meta_inv ms w" "holds False (sc_shape x) (sc_dims x)" "slice_ok (sc_slice x)" "length (sr_buf (we_raw env)) = 16"
    "\<forall>y \<in> set ms. same_tensor y x" "length (sc_dims x) = slice_dims (sc_slice x)"
  shows "\<exists>w1 m. meta_inv (ms @ [x]) w1 \<and> wr_data w1 = wr_data w \<and> wr_filename w1 = wr_filename w \<and> wr_tmpname w1 = wr_tmpname w \<and>
    wr_versions w1 = wr_versions w \<and>
    Add env (sc_type x) (sc_name x) (sc_shape x) (sc_slice x) (sc_data x) w =
      (if \<not> fits (sc_dims x) (sc_slice x) then Some (Error INTERNAL m, w1)
       else Option.bind (SaveData env (sc_type x) (sc_data x) (int (card (cells (sc_dims x) (sc_slice x))))
           \<lparr>ss_name = sc_name x, ss_slice = slice_AsProto (sc_slice x) [], ss_data = we_no_data env\<rparr>) (\<lambda>(s, ss).
         if \<not> ok s then Some (s, w1)
         else
           let (b, val) = we_append env \<lparr>sts_tensors = [], sts_versions = no_versions, sts_data = ss\<rparr>
           in if \<not> b then Some (Error INTERNAL ''Error writing Tensor. Possible size overflow.'', w1)
              else Some (OkStatus, w1\<lparr>wr_data := data_insert (sc_key x) val (wr_data w1), wr_slices := wr_slices w1 + 1\<rparr>)))"
proof -
  obtain i w' where m: "add_meta env (sc_type x) (sc_name x) (sc_shape x) w = Some (OkStatus, i, w')" "meta_found ms x i w'" "wr_data w' = wr_data w"
    using add_meta_law [OF assms(1,2,4)] assms(5) by auto
  let ?ssm = "wr_tensors w' ! i"
  let ?w = "w'\<lparr>wr_tensors := (wr_tensors w')[i := ?ssm\<lparr>ssm_slices := ssm_slices ?ssm @ [slice_AsProto (sc_slice x) []]\<rparr>]\<rparr>"
  note rep = holdsE(4) [OF assms(2)]
  have sh: "ssm_shape ?ssm = \<lparr>sp_dim = sc_dims x, sp_unknown_rank = False\<rparr>" using m(2) by (simp add: meta_found_def)
  obtain s where s: "TensorShapeBase_proto False (ssm_shape ?ssm) (we_raw env) = Some s" "holds False s (sc_dims x)"
    using TensorShape_proto_law [OF assms(4), of "ssm_shape ?ssm"] rep sh by auto
  note sliced = SliceTensorShape_law [OF assms(3) s(2) length_raw [OF assms(4)]]
  have dims: "dims False (sc_shape x) = int (slice_dims (sc_slice x))" using held_dims [OF assms(2)] assms(6) by (simp del: length_shape_list)
  have inv: "meta_inv (ms @ [x]) ?w" by (rule register_law [OF m(2) assms(5,1,2)])
  note keeps = add_meta_keeps [OF m(1)]
  show ?thesis
  proof (cases "fits (sc_dims x) (sc_slice x)")
    case True
    then obtain ps where ps: "SliceTensorShape s (TensorShapeBase False (we_raw env)) (sc_slice x) = Some (OkStatus, ps)" "holds False ps (slice_sizes (sc_dims x) (sc_slice x))"
      using sliced by auto
    have n: "sr_num_elements ps = int (card (cells (sc_dims x) (sc_slice x)))" by (rule card_num_elements [OF assms(3) True rep ps(2)])
    show ?thesis unfolding Add_def Let_def sc_key_def
      by (rule exI [of _ ?w]) (use inv m(3) keeps True in \<open>simp add: dims m(1) s(1) ps(1) n\<close>)
  next
    case False
    then obtain e r where "SliceTensorShape s (TensorShapeBase False (we_raw env)) (sc_slice x) = Some (Error INTERNAL e, r)" using sliced by auto
    then show ?thesis
      by (intro exI [of _ ?w] exI [of _ e]) (use inv m(3) keeps False in \<open>simp add: Add_def dims m(1) s(1) Let_def\<close>)
  qed
qed

lemma SaveData_saved:
  assumes "SaveData env dt data n ss = Some (s, ss')" "ok s"
  shows "nat n \<le> length data \<and> ss' = ss\<lparr>ss_data := we_fill env dt (take (nat n) data)\<rparr>"
  using assms by (auto simp: SaveData_def SaveData_string_def too_large_def Let_def bind_eq_Some_conv split: if_splits)

lemma find_snoc: "find P (xs @ [x]) = (case find P xs of None \<Rightarrow> if P x then Some x else None | Some y \<Rightarrow> Some y)"
  by (induction xs) auto

lemma first_stored_snoc:
  assumes "sorted_entries es" "\<forall>k. map_of es k = first_stored env xs k" "val = snd (we_append env (stored_message env x))"
  shows "map_of (data_insert (sc_key x) val es) k = first_stored env (xs @ [x]) k"
  unfolding map_of_data_insert [OF assms(1)] using assms(2,3) by (auto simp: first_stored_def find_snoc split: option.splits)

lemma Add_keeps:
  assumes "writer_inv env ms xs w" "holds False (sc_shape x) (sc_dims x)" "slice_ok (sc_slice x)" "length (sr_buf (we_raw env)) = 16"
    "Add env (sc_type x) (sc_name x) (sc_shape x) (sc_slice x) (sc_data x) w = Some (st, w')"
  shows "if ok st then writer_inv env (ms @ [x]) (xs @ [x]) w' else w' = w \<or> writer_inv env (ms @ [x]) xs w'"
proof -
  note inv = assms(1) [unfolded writer_inv_def]
  have dims: "dims False (sc_shape x) = int (length (sc_dims x))" by (rule held_dims [OF assms(2)])
  consider "length (sc_dims x) \<noteq> slice_dims (sc_slice x)" | "\<not> (\<forall>y \<in> set ms. same_tensor y x)" "length (sc_dims x) = slice_dims (sc_slice x)"
    | "\<forall>y \<in> set ms. same_tensor y x" "length (sc_dims x) = slice_dims (sc_slice x)" by blast
  then show ?thesis
  proof cases
    case 1
    then show ?thesis using assms(5) by (auto simp: Add_def dims simp del: length_shape_list)
  next
    case 2
    then obtain m i where "add_meta env (sc_type x) (sc_name x) (sc_shape x) w = Some (Error INTERNAL m, i, w)"
      using add_meta_law [OF conjunct1 [OF inv] assms(2,4)] unfolding if_not_P [OF 2(1)] by blast
    then show ?thesis using assms(5) 2(2) by (auto simp: Add_def dims simp del: length_shape_list)
  next
    case 3
    let ?n = "card (cells (sc_dims x) (sc_slice x))"
    obtain w1 m where w1: "meta_inv (ms @ [x]) w1" "wr_data w1 = wr_data w"
      and eq: "Add env (sc_type x) (sc_name x) (sc_shape x) (sc_slice x) (sc_data x) w =
      (if \<not> fits (sc_dims x) (sc_slice x) then Some (Error INTERNAL m, w1)
       else Option.bind (SaveData env (sc_type x) (sc_data x) (int ?n)
           \<lparr>ss_name = sc_name x, ss_slice = slice_AsProto (sc_slice x) [], ss_data = we_no_data env\<rparr>) (\<lambda>(s, ss).
         if \<not> ok s then Some (s, w1)
         else
           let (b, val) = we_append env \<lparr>sts_tensors = [], sts_versions = no_versions, sts_data = ss\<rparr>
           in if \<not> b then Some (Error INTERNAL ''Error writing Tensor. Possible size overflow.'', w1)
              else Some (OkStatus, w1\<lparr>wr_data := data_insert (sc_key x) val (wr_data w1), wr_slices := wr_slices w1 + 1\<rparr>)))"
      using Add_registers [OF conjunct1 [OF inv] assms(2-4) 3] by blast
    have kept: "writer_inv env (ms @ [x]) xs w1" using inv w1 by (auto simp: writer_inv_def)
    show ?thesis
    proof (cases "ok st")
      case False
      then have "w' = w1" using assms(5) unfolding eq by (auto simp: bind_eq_Some_conv Let_def split: if_splits prod.splits)
      then show ?thesis using False kept by simp
    next
      case True
      then obtain s ss val where s: "fits (sc_dims x) (sc_slice x)" "SaveData env (sc_type x) (sc_data x) (int ?n)
           \<lparr>ss_name = sc_name x, ss_slice = slice_AsProto (sc_slice x) [], ss_data = we_no_data env\<rparr> = Some (s, ss)" "ok s"
        "we_append env \<lparr>sts_tensors = [], sts_versions = no_versions, sts_data = ss\<rparr> = (True, val)"
        "w' = w1\<lparr>wr_data := data_insert (sc_key x) val (wr_data w1), wr_slices := wr_slices w1 + 1\<rparr>"
        using assms(5) unfolding eq by (auto simp: bind_eq_Some_conv Let_def split: if_splits prod.splits)
      have val: "?n \<le> length (sc_data x)" "val = snd (we_append env (stored_message env x))"
        using SaveData_saved [OF s(2,3)] s(4) by (auto simp: stored_message_def sc_message_def)
      have "writer_inv env (ms @ [x]) (xs @ [x]) w'"
        using inv w1 s(1,5) val data_insert_sorted first_stored_snoc [of "wr_data w" env xs val x] by (auto simp: writer_inv_def)
      then show ?thesis using True by simp
    qed
  qed
qed

lemma Add_accepts:
  assumes "meta_inv ms w" "call_ok env x" "\<forall>y \<in> set ms. same_tensor y x" "length (sr_buf (we_raw env)) = 16"
  shows "\<exists>w'. Add env (sc_type x) (sc_name x) (sc_shape x) (sc_slice x) (sc_data x) w = Some (OkStatus, w') \<and>
    wr_filename w' = wr_filename w \<and> wr_tmpname w' = wr_tmpname w \<and> wr_versions w' = wr_versions w"
proof -
  have x: "holds False (sc_shape x) (sc_dims x)" "slice_ok (sc_slice x)" "fits (sc_dims x) (sc_slice x)"
    "card (cells (sc_dims x) (sc_slice x)) = length (sc_data x)" "savable (sc_type x)" "length (sc_dims x) = slice_dims (sc_slice x)"
    using assms(2) by (simp_all add: call_ok_def fits_def)
  let ?ss = "\<lparr>ss_name = sc_name x, ss_slice = slice_AsProto (sc_slice x) [], ss_data = we_no_data env\<rparr>"
  have est: "estimate env (sc_type x) (sc_data x) ?ss \<le> 2 ^ 31" and app: "fst (we_append env (sc_message env x))"
    using assms(2) by (simp_all add: call_ok_def)
  obtain val where ap: "we_append env (sc_message env x) = (True, val)" using app by (cases "we_append env (sc_message env x)") simp
  have save: "SaveData env (sc_type x) (sc_data x) (int (length (sc_data x))) ?ss = Some (OkStatus, ?ss\<lparr>ss_data := we_fill env (sc_type x) (sc_data x)\<rparr>)"
    using SaveData_law [of env "sc_type x" "sc_data x" ?ss] est x(5) by simp
  show ?thesis using Add_registers [OF assms(1) x(1,2) assms(4,3) x(6)]
    by (elim exE conjE) (simp add: x(3,4) save ap [unfolded sc_message_def])
qed

lemma write_slices_law:
  assumes "\<forall>x \<in> set ys. call_ok env x" "sorted_wrt same_tensor (xs @ ys)" "length (sr_buf (we_raw env)) = 16" "writer_inv env xs xs w"
  shows "\<exists>w'. write_slices env ys w = Some (OkStatus, w') \<and> writer_inv env (xs @ ys) (xs @ ys) w' \<and>
    wr_filename w' = wr_filename w \<and> wr_tmpname w' = wr_tmpname w \<and> wr_versions w' = wr_versions w"
  using assms(1,2,4)
proof (induction ys arbitrary: xs w)
  case (Cons y ys)
  have y: "call_ok env y" "\<forall>x \<in> set xs. same_tensor x y" "meta_inv xs w" using Cons.prems by (simp_all add: sorted_wrt_append writer_inv_def)
  obtain w1 where w1: "Add env (sc_type y) (sc_name y) (sc_shape y) (sc_slice y) (sc_data y) w = Some (OkStatus, w1)"
    "wr_filename w1 = wr_filename w" "wr_tmpname w1 = wr_tmpname w" "wr_versions w1 = wr_versions w"
    using Add_accepts [OF y(3,1,2) assms(3)] by blast
  have "writer_inv env (xs @ [y]) (xs @ [y]) w1"
    using Add_keeps [OF Cons.prems(3) _ _ assms(3) w1(1)] y(1) by (simp add: call_ok_def)
  then show ?case using Cons.IH [of "xs @ [y]" w1] w1 Cons.prems(1,2) by auto
qed auto

text \<open>For calls with disjoint slices every message is kept.\<close>

lemma find_distinct: "distinct (map f xs) \<Longrightarrow> x \<in> set xs \<Longrightarrow> find (\<lambda>y. f y = f x) xs = Some x"
  by (induction xs) (auto simp: rev_image_eqI)

lemma calls_distinct: "\<forall>x \<in> set xs. call_ok env x \<Longrightarrow> sorted_wrt agree xs \<Longrightarrow> distinct (map sc_key xs)"
proof (induction xs)
  case (Cons x xs)
  then have "sc_key x \<noteq> sc_key y" if "y \<in> set xs" for y using that distinct_keys [of env y x] by simp
  then show ?case using Cons by auto
qed simp

lemma written_disjoint:
  assumes "writer_inv env xs xs w" "\<forall>x \<in> set xs. call_ok env x" "sorted_wrt agree xs"
  shows "written env xs w"
proof -
  note inv = assms(1) [unfolded writer_inv_def] and d = calls_distinct [OF assms(2,3)]
  have "stored_message env x = sc_message env x" if "x \<in> set xs" for x using that assms(2) by (simp add: stored_message_def call_ok_def)
  then have vals: "\<forall>x \<in> set xs. map_of (wr_data w) (sc_key x) = Some (snd (we_append env (sc_message env x)))"
    using inv find_distinct [OF d] by (simp add: first_stored_def)
  have "k \<in> fst ` set (wr_data w) \<longleftrightarrow> k \<in> sc_key ` set xs" for k
    using inv map_of_eq_None_iff [of "wr_data w" k] by (auto simp: first_stored_def find_None_iff)
  then show ?thesis using inv vals unfolding written_def by blast
qed

lemma write_all:
  assumes "\<forall>x \<in> set xs. call_ok env x" "sorted_wrt agree xs" "length (sr_buf (we_raw env)) = 16"
  shows "\<exists>w. write_slices env xs (TensorSliceWriter fname rnd) = Some (OkStatus, w) \<and> written env xs w \<and> wr_filename w = fname \<and>
    wr_versions w = wr_versions (TensorSliceWriter fname rnd)"
proof -
  have "sorted_wrt same_tensor xs" by (rule sorted_wrt_mono_rel [OF _ assms(2)]) (simp add: agree_def same_tensor_def)
  then show ?thesis
    using write_slices_law [OF assms(1) _ assms(3) writer_inv_init, of fname rnd] written_disjoint [OF _ assms(1,2)] by (auto simp: TensorSliceWriter_def)
qed

section \<open>What the reader makes of the metadata\<close>

lemma add_slices_disjoint:
  assumes "\<forall>s \<in> set ss. slice_ok s \<and> fits ds s" "sorted_wrt (\<lambda>a b. \<not> meets a b) (ss0 @ ss)"
    "C name = (if ss0 = [] then None else Some (ds, ty, map (\<lambda>s. (s, f)) ss0))"
  shows "add_slices name ds ty f (map (\<lambda>s. slice_AsProto s []) ss) C =
    (True, if ss = [] then C else C(name \<mapsto> (ds, ty, map (\<lambda>s. (s, f)) (ss0 @ ss))))"
  using assms
proof (induction ss arbitrary: ss0 C)
  case (Cons s ss)
  have s: "slice_ok s" "fits ds s" "TensorSlice_proto (slice_AsProto s []) = s" using Cons.prems(1) proto_of_slice(1) by simp_all
  have "\<forall>a \<in> set ss0. \<not> meets s a" using Cons.prems(2) meets_sym by (auto simp: sorted_wrt_append)
  then have add: "add_slice name ds ty f s C = (True, C(name \<mapsto> (ds, ty, map (\<lambda>s. (s, f)) (ss0 @ [s]))))"
    using Cons.prems(3) s(2) by (auto simp: add_slice_def)
  let ?C = "C(name \<mapsto> (ds, ty, map (\<lambda>s. (s, f)) (ss0 @ [s])))"
  have "add_slices name ds ty f (map (\<lambda>s. slice_AsProto s []) ss) ?C = (True, if ss = [] then ?C else ?C(name \<mapsto> (ds, ty, map (\<lambda>s. (s, f)) ((ss0 @ [s]) @ ss))))"
    by (rule Cons.IH) (use Cons.prems(1,2) in simp_all)
  then show ?case using s(1,3) by (cases "ss = []") (simp_all add: add del: fun_upd_apply)
qed simp

lemma slices_disjoint: "sorted_wrt agree xs \<Longrightarrow> sorted_wrt (\<lambda>a b. \<not> meets a b) (map sc_slice (of_name n xs))"
proof -
  assume "sorted_wrt agree xs"
  then have "sorted_wrt agree (of_name n xs)" unfolding of_name_def by (rule sorted_wrt_filter)
  then have "sorted_wrt (\<lambda>x y. \<not> meets (sc_slice x) (sc_slice y)) (of_name n xs)"
    by (rule sorted_wrt_mono_rel [rotated]) (auto simp: of_name_def agree_def)
  then show ?thesis by (simp add: sorted_wrt_map)
qed

lemma add_tensors_meta:
  assumes "distinct (map ssm_name ts)" "\<forall>ssm \<in> set ts. meta_of xs ssm" "\<forall>x \<in> set xs. call_ok env x" "sorted_wrt agree xs"
    "\<forall>ssm \<in> set ts. C (text_of (ssm_name ssm)) = None"
  shows "\<exists>C'. add_tensors f ts C = (True, C') \<and> (\<forall>n. n \<notin> text_of ` ssm_name ` set ts \<longrightarrow> C' n = C n) \<and>
    (\<forall>ssm \<in> set ts. C' (text_of (ssm_name ssm)) =
       Some (sp_dim (ssm_shape ssm), ssm_type ssm, map (\<lambda>x. (sc_slice x, f)) (of_name (ssm_name ssm) xs)))"
  using assms(1,2,5)
proof (induction ts arbitrary: C)
  case (Cons t ts)
  let ?n = "text_of (ssm_name t)" and ?ys = "of_name (ssm_name t) xs" and ?ds = "sp_dim (ssm_shape t)"
  have m: "?ys \<noteq> []" "ssm_slices t = map (\<lambda>s. slice_AsProto s []) (map sc_slice ?ys)" "\<forall>x \<in> set ?ys. ?ds = sc_dims x"
    using Cons.prems(2) by (simp_all add: meta_of_def)
  have ys: "\<forall>y \<in> set ?ys. call_ok env y" using assms(3) by (simp add: of_name_def)
  then have ok: "\<forall>s \<in> set (map sc_slice ?ys). slice_ok s \<and> fits ?ds s" using m(3) by (auto simp: call_ok_def)
  have acc: "shape_accepted ?ds" using m(1,3) ys by (metis call_ok_def list.set_sel(1))
  define C1 where "C1 = C(?n \<mapsto> (?ds, ssm_type t, map (\<lambda>s. (s, f)) (map sc_slice ?ys)))"
  have C1: "C1 ?n = Some (?ds, ssm_type t, map (\<lambda>x. (sc_slice x, f)) ?ys)" "\<And>n. n \<noteq> ?n \<Longrightarrow> C1 n = C n" by (simp_all add: C1_def o_def)
  have add: "add_slices ?n ?ds (ssm_type t) f (ssm_slices t) C = (True, C1)"
    using add_slices_disjoint [OF ok, of "[]" C ?n "ssm_type t" f] slices_disjoint [OF assms(4)] Cons.prems(3) m(1,2) by (simp add: C1_def)
  have ne: "text_of (ssm_name ssm) \<noteq> ?n" if "ssm \<in> set ts" for ssm 
  proof -
    have "ssm_name ssm \<in> ssm_name ` set ts" using that by (rule imageI)
    then show ?thesis using Cons.prems(1) text_of_inject by fastforce
  qed
  then have "\<forall>ssm \<in> set ts. C1 (text_of (ssm_name ssm)) = None" using Cons.prems(3) C1(2) by simp
  with Cons.IH [of C1] Cons.prems(1,2) obtain C' where C': "add_tensors f ts C1 = (True, C')" "\<forall>n. n \<notin> text_of ` ssm_name ` set ts \<longrightarrow> C' n = C1 n"
    "\<forall>ssm \<in> set ts. C' (text_of (ssm_name ssm)) = Some (sp_dim (ssm_shape ssm), ssm_type ssm, map (\<lambda>x. (sc_slice x, f)) (of_name (ssm_name ssm) xs))"
    by (elim meta_impE) auto
  have "?n \<notin> text_of ` ssm_name ` set ts" using ne by fastforce
  then have "C' ?n = Some (?ds, ssm_type t, map (\<lambda>x. (sc_slice x, f)) ?ys)" using C'(2) C1(1) by simp
  then show ?case using C' C1(2) add acc by (intro exI [of _ C']) simp
qed auto

lemma written_catalogue:
  assumes "written env xs w" "\<forall>x \<in> set xs. call_ok env x" "sorted_wrt agree xs"
  shows "\<exists>C. add_tensors f (wr_tensors w) Map.empty = (True, C) \<and>
    (\<forall>x \<in> set xs. C (text_of (sc_name x)) = Some (sc_dims x, sc_type x, map (\<lambda>y. (sc_slice y, f)) (of_name (sc_name x) xs)))"
proof -
  note inv = writtenD [OF assms(1)]
  obtain C where C: "add_tensors f (wr_tensors w) Map.empty = (True, C)"
    "\<forall>ssm \<in> set (wr_tensors w). C (text_of (ssm_name ssm)) = Some (sp_dim (ssm_shape ssm), ssm_type ssm, map (\<lambda>x. (sc_slice x, f)) (of_name (ssm_name ssm) xs))"
    using add_tensors_meta [OF inv(1,2) assms(2,3), of Map.empty f] by auto
  have "C (text_of (sc_name x)) = Some (sc_dims x, sc_type x, map (\<lambda>y. (sc_slice y, f)) (of_name (sc_name x) xs))" if x: "x \<in> set xs" for x
  proof -
    have "sc_name x \<in> ssm_name ` set (wr_tensors w)" using inv(3) x by blast
    then obtain ssm where ssm: "ssm \<in> set (wr_tensors w)" "ssm_name ssm = sc_name x" by auto
    then have "sp_dim (ssm_shape ssm) = sc_dims x \<and> ssm_type ssm = sc_type x" using inv(2) x by (auto simp: meta_of_def of_name_def)
    then show ?thesis using C(2) ssm by force
  qed
  then show ?thesis using C(1) by blast
qed

lemma written_meta_ok:
  assumes "written env xs w" "\<forall>x \<in> set xs. call_ok env x"
  shows "list_all meta_ok (wr_tensors w)"
proof -
  have "meta_ok ssm" if "ssm \<in> set (wr_tensors w)" for ssm
  proof -
    have m: "meta_of xs ssm" using writtenD(2) [OF assms(1)] that by blast
    then have n: "of_name (ssm_name ssm) xs \<noteq> []" by (simp add: meta_of_def)
    have ok: "\<forall>x \<in> set (of_name (ssm_name ssm) xs). call_ok env x" using assms(2) by (simp add: of_name_def)
    have "sp_dim (ssm_shape ssm) = sc_dims (hd (of_name (ssm_name ssm) xs))" using m n unfolding meta_of_def by (metis list.set_sel(1) shape_proto.select_convs(1))
    then have "representable False (sp_dim (ssm_shape ssm))" using ok n by (metis call_ok_def list.set_sel(1) shape_accepted_def)
    moreover have "list_all proto_ok (ssm_slices ssm)" using m ok proto_of_slice(2) by (auto simp: meta_of_def list_all_iff call_ok_def)
    ultimately show ?thesis using sizes_ok_representable by (simp add: meta_ok_def)
  qed
  then show ?thesis by (simp add: list_all_iff)
qed

section \<open>Writing the file\<close>

text \<open>What a file system promises: a new file is empty and keeps what is appended, the file that is open has its contents under its
  name when it is closed, and renaming moves the contents.\<close>

definition fs_ok :: "('f, 'e) file_ops \<Rightarrow> ('f \<Rightarrow> bytes) \<Rightarrow> ('e \<Rightarrow> string) \<Rightarrow> ('e \<Rightarrow> string \<rightharpoonup> bytes) \<Rightarrow> bool" where
  "fs_ok fo contents open_name file_at \<longleftrightarrow> appends (fo_append fo) contents \<and>
     (\<forall>name e. \<exists>f e'. fo_new fo name e = (OkStatus, f, e') \<and> contents f = [] \<and> open_name e' = name) \<and>
     (\<forall>f e. \<exists>e'. fo_close fo f e = (OkStatus, e') \<and> file_at e' (open_name e) = Some (contents f)) \<and>
     (\<forall>a b e bs. file_at e a = Some bs \<longrightarrow> (\<exists>e'. fo_rename fo a b e = (OkStatus, e') \<and> file_at e' b = Some bs))"

lemma fs_okD:
  assumes "fs_ok fo contents open_name file_at"
  shows "appends (fo_append fo) contents" "\<exists>f e'. fo_new fo name e = (OkStatus, f, e') \<and> contents f = [] \<and> open_name e' = name"
    "\<exists>e'. fo_close fo f e = (OkStatus, e') \<and> file_at e' (open_name e) = Some (contents f)"
    "file_at e a = Some bs \<Longrightarrow> \<exists>e'. fo_rename fo a b e = (OkStatus, e') \<and> file_at e' b = Some bs"
  using assms by (simp_all add: fs_ok_def)

text \<open>The entries of the table.\<close>

definition checkpoint_entries :: "('p, 'a) writer_env \<Rightarrow> slice_writer \<Rightarrow> entry list" where
  "checkpoint_entries env w = (kSavedTensorSlicesKey, snd (we_append env (meta_message env w))) # wr_data w"

lemma add_entries_all:
  "add_entries (SliceBuilder_Add sn fo) es b = map_option (\<lambda>t. b\<lparr>sb_builder := t\<rparr>) (add_all sn (fo_append fo) es (sb_builder b))"
proof (induction es arbitrary: b)
  case (Cons e es)
  obtain k v where e: "e = (k, v)" by (cases e)
  show ?case using Cons by (cases "TableBuilder_Add sn (fo_append fo) k v (sb_builder b)") (simp_all add: e SliceBuilder_Add_def option.map_comp o_def)
qed simp

lemma Finish_law:
  assumes "fs_ok fo contents open_name file_at" "snappy_ok sn" "sorted_entries (checkpoint_entries env w)" "table_bound (checkpoint_entries env w) + 100 < 2 ^ 32"
  shows "\<exists>e' bs ix B ft. Writer_Finish env (table_ops sn fo) fo w e = Some (OkStatus, e') \<and> file_at e' (wr_filename w) = Some bs \<and>
    table_file sn bs (checkpoint_entries env w) ix B ft"
proof -
  note fs = fs_okD [OF assms(1)]
  obtain f e1 where f: "fo_new fo (wr_tmpname w) e = (OkStatus, f, e1)" "contents f = []" "open_name e1 = wr_tmpname w" using fs(2) by blast
  obtain r ix B ft where r: "build_table sn (fo_append fo) slice_table_options f (checkpoint_entries env w) = Some (OkStatus, r)"
    "table_file sn (contents (tb_file r)) (checkpoint_entries env w) ix B ft"
    using build_table_file [OF fs(1) assms(2) f(2) assms(3,4)] by metis
  obtain e2 where e2: "fo_close fo (tb_file r) e1 = (OkStatus, e2)" "file_at e2 (wr_tmpname w) = Some (contents (tb_file r))"
    using fs(3) [of "tb_file r" e1] f(3) by auto
  obtain e3 where e3: "fo_rename fo (wr_tmpname w) (wr_filename w) e2 = (OkStatus, e3)" "file_at e3 (wr_filename w) = Some (contents (tb_file r))"
    using fs(4) [OF e2(2)] by blast
  let ?b = "\<lparr>sb_name = wr_tmpname w, sb_builder = TableBuilder slice_table_options f\<rparr>"
  obtain t where t: "add_all sn (fo_append fo) (checkpoint_entries env w) (TableBuilder slice_table_options f) = Some t"
    "TableBuilder_Finish sn (fo_append fo) t = Some (OkStatus, r)"
    using r(1) by (auto simp: build_table_def bind_eq_Some_conv)
  have adds: "add_entries (SliceBuilder_Add sn fo) (checkpoint_entries env w) ?b = Some (?b\<lparr>sb_builder := t\<rparr>)"
    using t(1) by (simp add: add_entries_all)
  then obtain b1 where b1: "SliceBuilder_Add sn fo kSavedTensorSlicesKey (snd (we_append env (meta_message env w))) ?b = Some b1"
    "add_entries (SliceBuilder_Add sn fo) (wr_data w) b1 = Some (?b\<lparr>sb_builder := t\<rparr>)" by (auto simp: checkpoint_entries_def bind_eq_Some_conv)
  have fin: "SliceBuilder_Finish sn fo (?b\<lparr>sb_builder := t\<rparr>) e1 = Some (OkStatus, sint (FileSize r), e2)"
    using t(2) e2(1) by (simp add: SliceBuilder_Finish_def)
  obtain q m where q: "we_append env (meta_message env w) = (q, m)" by fastforce
  have "Writer_Finish env (table_ops sn fo) fo w e = Some (OkStatus, e3)"
    using f(1) e3(1) b1 fin unfolding Writer_Finish_def table_ops_def q by (simp add: CreateTableTensorSliceBuilder_def Let_def)
  then show ?thesis using e3(2) r(2) by blast
qed

section \<open>Properties\<close>

text \<open>What the reader and the writer rely on: a message that was written is parsed as it was, by the protocol buffer code, and the
  elements of type \<open>dt\<close>, which \<open>Fill\<close> stores as \<open>enc\<close> tells, come back through \<open>cast\<close>.\<close>

definition messages_ok ::
    "('p, 'a) writer_env \<Rightarrow> ('t, 'p, 's, 'a) reader_env \<Rightarrow> dtype \<Rightarrow> ('a \<Rightarrow> 's) \<Rightarrow> ('s \<Rightarrow> 'a) \<Rightarrow> bool" where
  "messages_ok env renv dt enc cast \<longleftrightarrow> (\<forall>m bs. we_append env m = (True, bs) \<longrightarrow> re_parse renv bs = Some m) \<and>
     (\<forall>xs. re_vals renv (we_fill env dt xs) = map enc xs) \<and> (\<forall>x. cast (enc x) = x)"

text \<open>The messages of a type that is saved with its \<open>Fill\<close> and read with its \<open>TensorProtoData\<close>.\<close>

context saved_type
begin

lemma messages_of_type:
  assumes "\<And>m bs. we_append env m = (True, bs) \<Longrightarrow> re_parse renv bs = Some m" "we_fill env dt = (\<lambda>xs. fill xs no_tensor)" "re_vals renv = data"
  shows "messages_ok env renv dt enc cast"
  using assms by (simp add: messages_ok_def data_fill cast_enc)

end

text \<open>The reader opens the file with the contents \<open>bs\<close>.\<close>

definition opens ::
    "snappy \<Rightarrow> ('t, 'p, 's, 'a) reader_env \<Rightarrow> ('t \<Rightarrow> (bytes \<rightharpoonup> bytes) \<Rightarrow> bool) \<Rightarrow> string \<Rightarrow> bytes \<Rightarrow> bool" where
  "opens sn renv has fname bs \<longleftrightarrow>
     (\<forall>es ix B ft. table_file sn bs es ix B ft \<longrightarrow> (\<exists>t. re_open renv fname = Some (OkStatus, Some t) \<and> has t (map_of es)))"

text \<open>The elements of tensor \<open>n\<close> in the calls are those of \<open>T\<close>.\<close>

definition calls_give :: "layout \<Rightarrow> (int list \<Rightarrow> 'a) \<Rightarrow> bytes \<Rightarrow> 'a save_call list \<Rightarrow> bool" where
  "calls_give at T n xs \<longleftrightarrow> (\<forall>y \<in> set xs. sc_name y = n \<longrightarrow>
     (\<forall>v \<in> cells (sc_dims y) (sc_slice y). sc_data y ! offset at (sc_dims y) (sc_slice y) v = T v))"

lemma opens_table:
  assumes "re_open renv fname = OpenTableTensorSliceReader sn new_file file_size fname" "new_file fname = (OkStatus, f)" "file_holds f bs"
    "file_size fname = (OkStatus, word_of_nat (length bs))"
  shows "opens sn renv (table_has sn) fname bs"
  unfolding opens_def assms(1) using OpenTable_table [where new_file = new_file and fname = fname and file_size = file_size, OF _ assms(2-4)] by blast

lemma entries_sorted:
  assumes "written env xs w" "\<forall>x \<in> set xs. call_ok env x"
  shows "sorted_entries (checkpoint_entries env w)"
proof -
  have "kSavedTensorSlicesKey < k" if k: "k \<in> fst ` set (wr_data w)" for k
  proof -
    obtain x where "x \<in> set xs" "k = sc_key x" using k unfolding writtenD(6) [OF assms(1)] by blast
    then show ?thesis by (simp add: kSavedTensorSlicesKey_def sc_key_def EncodeTensorNameSlice_eq WriteNumIncreasing_def Let_def)
  qed
  then show ?thesis using writtenD(5) [OF assms(1)] by (simp add: checkpoint_entries_def)
qed

lemma written_checkpoint:
  assumes "written env xs w" "\<forall>x \<in> set xs. call_ok env x" "wr_versions w = wr_versions (TensorSliceWriter fname rnd)"
    "fst (we_append env (meta_message env w))" "messages_ok env renv dt enc cast" "opens sn renv has fname bs" "table_file sn bs (checkpoint_entries env w) ix B ft"
  shows "checkpoint_files renv has (\<lambda>f. map_of (checkpoint_entries env w)) (\<lambda>f. wr_tensors w) {fname}"
proof -
  obtain val where val: "we_append env (meta_message env w) = (True, val)" using assms(4) by (cases "we_append env (meta_message env w)") simp
  then have "re_parse renv val = Some (meta_message env w)" using assms(5) by (simp add: messages_ok_def)
  moreover have "map_of (checkpoint_entries env w) kSavedTensorSlicesKey = Some val" by (simp add: checkpoint_entries_def val)
  moreover have "ok (CheckVersions (re_version renv) (wr_versions w) TF_CHECKPOINT_VERSION TF_CHECKPOINT_VERSION_MIN_PRODUCER ''Checkpoint'' ''checkpoint'')"
    unfolding assms(3)
    by (simp add: CheckVersions_def TensorSliceWriter_def TF_CHECKPOINT_VERSION_def TF_CHECKPOINT_VERSION_MIN_PRODUCER_def TF_CHECKPOINT_VERSION_MIN_CONSUMER_def)
  moreover obtain t where "re_open renv fname = Some (OkStatus, Some t)" "has t (map_of (checkpoint_entries env w))"
    using assms(6,7) unfolding opens_def by blast
  ultimately show ?thesis using written_meta_ok [OF assms(1,2)] by (simp add: checkpoint_files_def meta_message_def)
qed

lemma written_stores:
  assumes "written env xs w" "\<forall>x \<in> set xs. call_ok env x" "messages_ok env renv dt enc cast" "calls_give at T n xs"
    "y \<in> set xs" "sc_name y = n" "sc_type y = dt" "slice_copier at copy cast"
  shows "stores renv at (sc_dims y) (enc \<circ> T) n (map_of (checkpoint_entries env w)) (sc_slice y)"
proof -
  have y: "slice_ok (sc_slice y)" "fits (sc_dims y) (sc_slice y)" "representable False (sc_dims y)" "length (sc_data y) = card (cells (sc_dims y) (sc_slice y))"
    "fst (we_append env (sc_message env y))"
    using assms(2,5) by (simp_all add: call_ok_def shape_accepted_def)
  obtain val where val: "we_append env (sc_message env y) = (True, val)" using y(5) by (cases "we_append env (sc_message env y)") simp
  have "sc_key y \<noteq> kSavedTensorSlicesKey"
    by (simp add: kSavedTensorSlicesKey_def sc_key_def EncodeTensorNameSlice_eq WriteNumIncreasing_def Let_def)
  then have "map_of (checkpoint_entries env w) (EncodeTensorNameSlice n (sc_slice y)) = Some val"
    using writtenD(7) [OF assms(1)] assms(5,6) val by (auto simp: checkpoint_entries_def sc_key_def)
  moreover have "re_parse renv val = Some (sc_message env y)" using assms(3) val by (simp add: messages_ok_def)
  moreover have vals: "re_vals renv (ss_data (sts_data (sc_message env y))) = map enc (sc_data y)" using assms(3,7) by (simp add: messages_ok_def sc_message_def)
  moreover have "map enc (sc_data y) ! offset at (sc_dims y) (sc_slice y) v = (enc \<circ> T) v" if v: "v \<in> cells (sc_dims y) (sc_slice y)" for v
    using slice_copier.offset_less [OF assms(8) y(1-3) v] y(4) assms(4-6) v by (simp add: calls_give_def)
  ultimately show ?thesis unfolding stores_def using y(4) by (intro exI [of _ val] exI [of _ "sc_message env y"]) simp
qed

lemma read_written:
  assumes "written env xs w" "\<forall>x \<in> set xs. call_ok env x" "sorted_wrt agree xs" "wr_versions w = wr_versions (TensorSliceWriter fname rnd)"
    "table_file sn bs (checkpoint_entries env w) ix B ft"
    and "checkpoint_reader renv has at cast" "env_ok renv" "opens sn renv has fname bs" "fst (we_append env (meta_message env w))" "x \<in> set xs"
    "messages_ok env renv (sc_type x) enc cast" "calls_give at T (sc_name x) xs" "length (sc_dims x) \<le> kTensorSliceMaxRank"
    "slice_ok sl" "length dat = card (cells (sc_dims x) sl)"
  shows "\<exists>r. TensorSliceReader renv fname (OkStatus, [fname]) kLoadAllShards = Some r \<and> ok (rd_status r) \<and>
    (if fits (sc_dims x) sl \<and> cells (sc_dims x) sl \<subseteq> (\<Union>y \<in> set (of_name (sc_name x) xs). cells (sc_dims x) (sc_slice y))
     then \<exists>dat' r'. CopySliceData renv (sc_name x) sl dat r = Some (True, dat', r') \<and> length dat' = length dat \<and>
       (\<forall>v \<in> cells (sc_dims x) sl. dat' ! offset at (sc_dims x) sl v = T v)
     else \<exists>r'. CopySliceData renv (sc_name x) sl dat r = Some (False, dat, r'))"
proof -
  let ?M = "\<lambda>f :: string. map_of (checkpoint_entries env w)" and ?meta = "\<lambda>f :: string. wr_tensors w"
  let ?ss = "map (\<lambda>y. (sc_slice y, fname)) (of_name (sc_name x) xs)"
  have files: "checkpoint_files renv has ?M ?meta (set [fname])" using written_checkpoint [OF assms(1,2,4,9,11,8,5)] by simp
  obtain C where C: "add_tensors fname (wr_tensors w) Map.empty = (True, C)" "C (text_of (sc_name x)) = Some (sc_dims x, sc_type x, ?ss)"
    using written_catalogue [OF assms(1-3)] assms(10) by blast
  have load: "add_files ?meta (map ((!) [fname]) (load_order (length [fname]) kLoadAllShards)) Map.empty = (True, C)"
    using C(1) by (simp add: load_order_def)
  have cop: "slice_copier at (re_copy renv) cast" using assms(6) by (rule checkpoint_reader.axioms)
  have same: "sc_dims y = sc_dims x \<and> sc_type y = sc_type x" if y: "y \<in> set (of_name (sc_name x) xs)" for y
  proof -
    obtain ssm where "ssm \<in> set (wr_tensors w)" "ssm_name ssm = sc_name x" using writtenD(3) [OF assms(1)] assms(10) by (metis imageE image_eqI)
    then have "meta_of xs ssm" "ssm_name ssm = sc_name x" using writtenD(2) [OF assms(1)] by blast+
    moreover have "x \<in> set (of_name (sc_name x) xs)" using assms(10) by (simp add: of_name_def)
    ultimately show ?thesis using y unfolding meta_of_def by (metis shape_proto.select_convs(1))
  qed
  have n: "[fname] \<noteq> []" "distinct [fname]" by simp_all
  have un: "(\<Union>p \<in> set ?ss. cells (sc_dims x) (fst p)) = (\<Union>y \<in> set (of_name (sc_name x) xs). cells (sc_dims x) (sc_slice y))" by simp
  have cast: "cast ((enc \<circ> T) v) = T v" for v using assms(11) by (simp add: messages_ok_def)
  have "\<forall>p \<in> set ?ss. stores renv at (sc_dims x) (enc \<circ> T) (sc_name x) (?M (snd p)) (fst p)"
  proof
    fix p
    assume "p \<in> set ?ss"
    then obtain y where y: "y \<in> set (of_name (sc_name x) xs)" "p = (sc_slice y, fname)" by auto
    then have "y \<in> set xs" "sc_name y = sc_name x" by (simp_all add: of_name_def)
    from written_stores [OF assms(1,2,11,12) this _ cop] same [OF y(1)] show "stores renv at (sc_dims x) (enc \<circ> T) (sc_name x) (?M (snd p)) (fst p)"
      by (simp add: y(2))
  qed
  from checkpoint_reader.read_slice [OF assms(6,7) files n load C(2) this assms(14,13,15), of fname] show ?thesis
    unfolding un cast .
qed

text \<open>(C1) A checkpoint that was written is read back.  For any calls of \<open>Add\<close> with slices that lie in their tensors, fit into a message and agree with
  each other, every call returns OK; if the metadata can be written and the table stays below 4 GiB, \<open>Finish\<close> returns OK
  and leaves a file under the final name.  A reader of that file, for a protocol buffer library that parses what it wrote, copies any slice of
  any tensor exactly when the added slices have all its elements, and then the array has the elements that were added.\<close>

theorem checkpoint_write_read:
  assumes "fs_ok fo contents open_name file_at" "snappy_ok sn" "\<forall>x \<in> set xs. call_ok env x" "sorted_wrt agree xs" "length (sr_buf (we_raw env)) = 16"
  shows "\<exists>w. write_slices env xs (TensorSliceWriter fname rnd) = Some (OkStatus, w) \<and>
    (table_bound (checkpoint_entries env w) + 100 < 2 ^ 32 \<longrightarrow>
     (\<exists>e' bs. Writer_Finish env (table_ops sn fo) fo w e = Some (OkStatus, e') \<and> file_at e' fname = Some bs \<and>
       (\<forall>renv has at cast enc x T sl dat. checkpoint_reader renv has at cast \<longrightarrow> env_ok renv \<longrightarrow> opens sn renv has fname bs \<longrightarrow>
         fst (we_append env (meta_message env w)) \<longrightarrow> x \<in> set xs \<longrightarrow> messages_ok env renv (sc_type x) enc cast \<longrightarrow> calls_give at T (sc_name x) xs \<longrightarrow>
         length (sc_dims x) \<le> kTensorSliceMaxRank \<longrightarrow> slice_ok sl \<longrightarrow> length dat = card (cells (sc_dims x) sl) \<longrightarrow>
         (\<exists>r. TensorSliceReader renv fname (OkStatus, [fname]) kLoadAllShards = Some r \<and> ok (rd_status r) \<and>
           (if fits (sc_dims x) sl \<and> cells (sc_dims x) sl \<subseteq> (\<Union>y \<in> set (of_name (sc_name x) xs). cells (sc_dims x) (sc_slice y))
            then \<exists>dat' r'. CopySliceData renv (sc_name x) sl dat r = Some (True, dat', r') \<and> length dat' = length dat \<and>
              (\<forall>v \<in> cells (sc_dims x) sl. dat' ! offset at (sc_dims x) sl v = T v)
            else \<exists>r'. CopySliceData renv (sc_name x) sl dat r = Some (False, dat, r'))))))"
proof -
  obtain w where w: "write_slices env xs (TensorSliceWriter fname rnd) = Some (OkStatus, w)" "written env xs w" "wr_filename w = fname"
    "wr_versions w = wr_versions (TensorSliceWriter fname rnd)" using write_all [OF assms(3-5)] by blast
  show ?thesis
  proof (intro exI [of _ w] conjI impI)
    assume bound: "table_bound (checkpoint_entries env w) + 100 < 2 ^ 32"
    obtain e' bs ix B ft where fin: "Writer_Finish env (table_ops sn fo) fo w e = Some (OkStatus, e')" "file_at e' fname = Some bs"
      "table_file sn bs (checkpoint_entries env w) ix B ft"
      using Finish_law [OF assms(1,2) entries_sorted [OF w(2) assms(3)] bound] w(3) by blast
    show "\<exists>e' bs. Writer_Finish env (table_ops sn fo) fo w e = Some (OkStatus, e') \<and> file_at e' fname = Some bs \<and>
       (\<forall>renv has at cast enc x T sl dat. checkpoint_reader renv has at cast \<longrightarrow> env_ok renv \<longrightarrow> opens sn renv has fname bs \<longrightarrow>
         fst (we_append env (meta_message env w)) \<longrightarrow> x \<in> set xs \<longrightarrow> messages_ok env renv (sc_type x) enc cast \<longrightarrow> calls_give at T (sc_name x) xs \<longrightarrow>
         length (sc_dims x) \<le> kTensorSliceMaxRank \<longrightarrow> slice_ok sl \<longrightarrow> length dat = card (cells (sc_dims x) sl) \<longrightarrow>
         (\<exists>r. TensorSliceReader renv fname (OkStatus, [fname]) kLoadAllShards = Some r \<and> ok (rd_status r) \<and>
           (if fits (sc_dims x) sl \<and> cells (sc_dims x) sl \<subseteq> (\<Union>y \<in> set (of_name (sc_name x) xs). cells (sc_dims x) (sc_slice y))
            then \<exists>dat' r'. CopySliceData renv (sc_name x) sl dat r = Some (True, dat', r') \<and> length dat' = length dat \<and>
              (\<forall>v \<in> cells (sc_dims x) sl. dat' ! offset at (sc_dims x) sl v = T v)
            else \<exists>r'. CopySliceData renv (sc_name x) sl dat r = Some (False, dat, r'))))"
    proof (intro exI [of _ e'] exI [of _ bs] conjI allI impI, rule fin(1), rule fin(2), goal_cases)
      case (1 renv has at cast enc x T sl dat)
      then show ?case by (rule read_written [OF w(2) assms(3,4) w(4) fin(3)])
    qed
  qed (rule w(1))
qed

text \<open>(C30) The limit on the size of a message: for data whose estimate stays below 2^64, \<open>SaveData\<close> stores it exactly when the estimate, with the
  header and the most bytes an element of the type can take, is at most 2^31, and otherwise reports an invalid argument and
  leaves the message alone.\<close>

theorem save_data_limit:
  assumes "estimate env dt data ss < 2 ^ 64" "savable dt"
  shows "if estimate env dt data ss \<le> 2 ^ 31
    then SaveData env dt data (int (length data)) ss = Some (OkStatus, ss\<lparr>ss_data := we_fill env dt data\<rparr>)
    else \<exists>m. SaveData env dt data (int (length data)) ss = Some (Error INVALID_ARGUMENT m, ss)"
  using assms by (rule SaveData_law)

text \<open>(C8) The writer keeps its invariant.  A new writer has it, and for any call of \<open>Add\<close> that returns, with any slice (one that overlaps
  others or was added before too): after an accepted call the metadata has each tensor once, with
  its sizes, its type and the slices of all calls in their order, the index finds the tensors, and
  the data is sorted by key with, under each key, the message of the first accepted call with this
  name and slice.  After a refused call the writer is unchanged, or only the slice was registered.
  A call is accepted when it fits the limits and agrees with the sizes and type of the tensor.\<close>

theorem writer_invariant:
  assumes "writer_inv env ms xs w" "holds False (sc_shape x) (sc_dims x)" "slice_ok (sc_slice x)" "length (sr_buf (we_raw env)) = 16"
  shows "writer_inv env [] [] (TensorSliceWriter fname rnd) \<and>
    (\<forall>st w'. Add env (sc_type x) (sc_name x) (sc_shape x) (sc_slice x) (sc_data x) w = Some (st, w') \<longrightarrow>
      (if ok st then writer_inv env (ms @ [x]) (xs @ [x]) w' else w' = w \<or> writer_inv env (ms @ [x]) xs w')) \<and>
    (call_ok env x \<and> (\<forall>y \<in> set ms. same_tensor y x) \<longrightarrow>
      (\<exists>w'. Add env (sc_type x) (sc_name x) (sc_shape x) (sc_slice x) (sc_data x) w = Some (OkStatus, w')))"
proof (intro conjI allI impI)
  show "\<exists>w'. Add env (sc_type x) (sc_name x) (sc_shape x) (sc_slice x) (sc_data x) w = Some (OkStatus, w')"
    if "call_ok env x \<and> (\<forall>y \<in> set ms. same_tensor y x)"
    using that Add_accepts [of ms w env x] assms(1,4) by (auto simp: writer_inv_def)
qed (rule writer_inv_init, rule Add_keeps [OF assms])

text \<open>\<open>Add\<close> changes the metadata before it finds an error: a slice whose data cannot be saved stays in the list of slices without
  data.\<close>

lemma failed_add_keeps_slice:
  assumes "holds False (sc_shape x) (sc_dims x)" "shape_accepted (sc_dims x)" "slice_ok (sc_slice x)" "fits (sc_dims x) (sc_slice x)"
    "sc_type x \<noteq> DT_STRING" "MaxBytesPerElementOrZero (sc_type x) = 0" "length (sr_buf (we_raw env)) = 16"
  shows "\<exists>m w. Add env (sc_type x) (sc_name x) (sc_shape x) (sc_slice x) (sc_data x) (TensorSliceWriter fname rnd) = Some (Error INVALID_ARGUMENT m, w) \<and>
    map ssm_slices (wr_tensors w) = [[slice_AsProto (sc_slice x) []]] \<and> wr_data w = []"
proof -
  have rep: "representable False (sc_dims x)" using assms(2) by (simp add: shape_accepted_def)
  note pr = AsProto_held [OF assms(1)]
  obtain s where s: "TensorShapeBase_proto False (AsProto False (sc_shape x)) (we_raw env) = Some s" "holds False s (sc_dims x)"
    using TensorShape_proto_law [OF assms(7), of "AsProto False (sc_shape x)"] rep by (auto simp: pr)
  obtain ps where ps: "SliceTensorShape s (TensorShapeBase False (we_raw env)) (sc_slice x) = Some (OkStatus, ps)"
    using SliceTensorShape_law [OF assms(3) s(2) length_raw [OF assms(7)]] assms(4) by auto
  have dims: "dims False (sc_shape x) = int (slice_dims (sc_slice x))" using held_dims [OF assms(1)] assms(4) by (simp add: fits_def)
  show ?thesis using assms(5,6) by (simp add: Add_def dims add_meta_def TensorSliceWriter_def Let_def s(1) ps SaveData_def)
qed

text \<open>The estimate is computed with 64 bits: 2^60 elements of a type with 16 bytes have an estimate of little more than the
  header.\<close>

lemma estimate_wraps:
  assumes "we_byte_size env ss = 0"
  shows "SaveData env 18 data (2 ^ 60) ss =
    (if length data < 2 ^ 60 then None else Some (OkStatus, ss\<lparr>ss_data := we_fill env 18 (take (2 ^ 60) data)\<rparr>))"
proof -
  have m: "MaxBytesPerElementOrZero 18 = 16" "(18 :: dtype) \<noteq> DT_STRING" by code_simp+
  have w: "word_of_nat 0 + kTensorProtoHeaderBytes + word_of_nat 16 * word_of_int (2 ^ 60) = (kTensorProtoHeaderBytes :: u64)" by code_simp
  have l: "\<not> kTensorProtoHeaderBytes > kMaxMessageBytes" by code_simp
  have n: "nat (2 ^ 60 :: int) = 2 ^ 60" by simp
  show ?thesis unfolding SaveData_def if_not_P [OF m(2)] m(1) assms Let_def w if_not_P [OF l] n by simp
qed

section \<open>An example\<close>

definition example_call :: "shape_rep \<Rightarrow> tensor_slice \<Rightarrow> int list \<Rightarrow> int save_call" where
  "example_call shape sl xs = \<lparr>sc_type = 9, sc_name = [119], sc_shape = shape, sc_slice = sl, sc_data = xs\<rparr>"

definition example_data :: "tensor_slice \<Rightarrow> int list \<Rightarrow> tensor_proto saved_tensor_slices" where
  "example_data sl xs = \<lparr>sts_tensors = [], sts_versions = no_versions, sts_data = \<lparr>ss_name = [119], ss_slice = slice_AsProto sl [],
     ss_data = Fill_int64 xs no_tensor\<rparr>\<rparr>"

definition example_list :: "tensor_proto saved_tensor_slices" where
  "example_list = \<lparr>sts_tensors = [\<lparr>ssm_name = [119], ssm_shape = \<lparr>sp_dim = [4], sp_unknown_rank = False\<rparr>, ssm_type = 9,
       ssm_slices = [slice_AsProto first_two [], slice_AsProto last_two []]\<rparr>],
     sts_versions = \<lparr>vd_producer = 1, vd_min_consumer = 0, vd_bad_consumers = []\<rparr>, sts_data = \<lparr>ss_name = [], ss_slice = [], ss_data = no_tensor\<rparr>\<rparr>"

definition example_writer :: "(tensor_proto, int) writer_env" where
  "example_writer = \<lparr>we_raw = raw_shape, we_type_text = (\<lambda>ty. []), we_no_data = no_tensor, we_fill = (\<lambda>dt xs. Fill_int64 xs no_tensor), we_elem_size = (\<lambda>x. 0),
     we_byte_size = (\<lambda>ss. 20),
     we_append = (\<lambda>m. if m = example_list then (True, [0]) else if m = example_data first_two [0, 1] then (True, [1])
       else if m = example_data last_two [2, 3] then (True, [2]) else (False, []))\<rparr>"

definition example_unpack :: "bytes \<Rightarrow> tensor_proto saved_tensor_slices option" where
  "example_unpack bs = (if bs = [0] then Some example_list else if bs = [1] then Some (example_data first_two [0, 1])
     else if bs = [2] then Some (example_data last_two [2, 3]) else None)"

text \<open>A file system in memory: the name of the open file, and the files.\<close>

definition mem_files :: "(bytes, string \<times> (string \<rightharpoonup> bytes)) file_ops" where
  "mem_files = \<lparr>fo_new = (\<lambda>name e. (OkStatus, [], (name, snd e))), fo_append = mem_append,
     fo_close = (\<lambda>f e. (OkStatus, (fst e, (snd e)(fst e \<mapsto> f)))),
     fo_rename = (\<lambda>a b e. case snd e a of None \<Rightarrow> (Error NOT_FOUND [], e) | Some bs \<Rightarrow> (OkStatus, (fst e, (snd e)(a := None, b \<mapsto> bs)))),
     fo_delete = (\<lambda>a e. (OkStatus, (fst e, (snd e)(a := None))))\<rparr>"

definition file_env :: "bytes \<Rightarrow> (table, tensor_proto, int, int) reader_env" where
  "file_env bs = \<lparr>re_raw = raw_shape, re_order = rev, re_extent_text = (\<lambda>e. []), re_type_text = (\<lambda>ty. []), re_status_text = (\<lambda>s. []),
     re_version = [], re_open = OpenTableTensorSliceReader no_snappy (\<lambda>n. (OkStatus, mem_reader bs)) (\<lambda>n. (OkStatus, word_of_nat (length bs))),
     re_get = Shard_Get no_snappy, re_parse = example_unpack, re_vals = int64_val, re_copy = Copy row_major (\<lambda>x. x)\<rparr>"

lemma mem_files_ok: "fs_ok mem_files id fst snd"
  using appends_mem_append by (auto simp: fs_ok_def mem_files_def)

lemma file_env_ok:
  "checkpoint_reader (file_env bs) (table_has no_snappy) row_major (\<lambda>x. x)" "env_ok (file_env bs)" "opens no_snappy (file_env bs) (table_has no_snappy) fname bs"
  "messages_ok example_writer (file_env bs) dt (\<lambda>x. x) (\<lambda>x. x)"
proof -
  show "checkpoint_reader (file_env bs) (table_has no_snappy) row_major (\<lambda>x. x)"
    by (intro checkpoint_reader.intro) (simp_all add: file_env_def tables.shard_axioms loops.slice_copier_axioms)
  show "env_ok (file_env bs)" by (simp add: env_ok_def file_env_def iterates_rev example_slices(5))
  show "opens no_snappy (file_env bs) (table_has no_snappy) fname bs"
    by (rule opens_table [where new_file = "\<lambda>n. (OkStatus, mem_reader bs)" and file_size = "\<lambda>n. (OkStatus, word_of_nat (length bs))",
          OF _ refl file_holds_mem_reader refl]) (simp add: file_env_def)
  show "messages_ok example_writer (file_env bs) dt (\<lambda>x. x) (\<lambda>x. x)"
    by (rule int64_type.messages_of_type) (auto simp: example_writer_def file_env_def example_unpack_def split: if_splits)
qed

lemma example_shape_list: "holds False shape [4] \<Longrightarrow> shape_list False shape = [4]"
  by (rule holdsE(3))

lemma example_limits: "shape_accepted [4]" "savable 9" "MaxBytesPerElementOrZero 9 = 10" "(9 :: dtype) \<noteq> DT_STRING"
  by (simp add: shape_accepted_def representable_def least_size_def nonzero_product_def elements_def) code_simp+

lemma example_calls:
  assumes "holds False shape [4]"
  shows "\<forall>x \<in> set [example_call shape first_two [0, 1], example_call shape last_two [2, 3]]. call_ok example_writer x"
    and "sorted_wrt agree [example_call shape first_two [0, 1], example_call shape last_two [2, 3]]"
proof -
  show "\<forall>x \<in> set [example_call shape first_two [0, 1], example_call shape last_two [2, 3]]. call_ok example_writer x"
    using assms example_limits example_slices(1,3) example_last(1,3)
    by (simp add: call_ok_def example_call_def example_shape_list [OF assms] example_cards estimate_def example_writer_def sc_message_def)
       (simp add: example_data_def)
  show "sorted_wrt agree [example_call shape first_two [0, 1], example_call shape last_two [2, 3]]"
    using example_disjoint by (simp add: agree_def example_call_def)
qed

lemma small_table_bound: "\<forall>e \<in> set es. 2 * length (fst e) + length (snd e) \<le> 20 \<Longrightarrow> table_bound es \<le> 100 * length es"
  by (induction es) (auto simp: table_bound_def)

lemma example_written:
  assumes "holds False shape [4]" "written example_writer [example_call shape first_two [0, 1], example_call shape last_two [2, 3]] w"
    "wr_versions w = wr_versions (TensorSliceWriter fname rnd)"
  shows "fst (we_append example_writer (meta_message example_writer w))" "table_bound (checkpoint_entries example_writer w) + 100 < 2 ^ 32"
proof -
  let ?xs = "[example_call shape first_two [0, 1], example_call shape last_two [2, 3]]"
  note inv = writtenD [OF assms(2)]
  have "ssm_name ` set (wr_tensors w) = {[119]}" using inv(3) by (simp add: example_call_def)
  moreover have "distinct (map ssm_name (wr_tensors w))" by (rule inv(1))
  ultimately have "length (wr_tensors w) = 1" by (metis One_nat_def card.empty card_insert_disjoint distinct_card empty_iff finite.emptyI length_map list.set_map)
  then obtain ssm where ssm: "wr_tensors w = [ssm]" by (cases "wr_tensors w") auto
  then have "ssm_name ssm = [119]" using inv(3) by (simp add: example_call_def)
  moreover have "of_name [119] ?xs = ?xs" by (simp add: of_name_def example_call_def)
  ultimately have "ssm = \<lparr>ssm_name = [119], ssm_shape = \<lparr>sp_dim = [4], sp_unknown_rank = False\<rparr>, ssm_type = 9,
      ssm_slices = [slice_AsProto first_two [], slice_AsProto last_two []]\<rparr>"
    using inv(2) unfolding ssm meta_of_def by (simp add: example_call_def example_shape_list [OF assms(1)])
  then have "meta_message example_writer w = example_list" using assms(3) ssm
    by (simp add: meta_message_def example_list_def example_writer_def TensorSliceWriter_def TF_CHECKPOINT_VERSION_def TF_CHECKPOINT_VERSION_MIN_CONSUMER_def)
  then have app: "we_append example_writer (meta_message example_writer w) = (True, [0])" by (simp add: example_writer_def)
  then show "fst (we_append example_writer (meta_message example_writer w))" by simp
  have k: "length (EncodeTensorNameSlice [119] first_two) = 8" "length (EncodeTensorNameSlice [119] last_two) = 8" by code_simp+
  have e: "2 * length a + length b \<le> 20" if "(a, b) \<in> set (wr_data w)" for a b
  proof -
    have "a \<in> sc_key ` set ?xs" using inv(6) that by (metis fst_conv image_eqI)
    then obtain x where x: "x \<in> set ?xs" "a = sc_key x" by blast
    have "map_of (wr_data w) a = Some b" using that sorted_entries_distinct [OF inv(5)] by simp
    then have "b = snd (we_append example_writer (sc_message example_writer x))" using inv(7) [rule_format, OF x(1)] x(2) by simp
    then have "length b \<le> 1" by (simp add: example_writer_def split: if_splits)
    moreover have "length a = 8" using x k by (auto simp: sc_key_def example_call_def)
    ultimately show ?thesis by simp
  qed
  have "length (wr_data w) = card (fst ` set (wr_data w))" using sorted_entries_distinct [OF inv(5)] by (metis distinct_card length_map list.set_map)
  also have "\<dots> \<le> 2" unfolding inv(6) by (simp add: card_insert_if)
  finally have l: "length (wr_data w) \<le> 2" .
  have "table_bound (wr_data w) \<le> 100 * length (wr_data w)"
    by (rule small_table_bound) (use e in auto)
  then show "table_bound (checkpoint_entries example_writer w) + 100 < 2 ^ 32"
    using l by (simp add: checkpoint_entries_def table_bound_def app kSavedTensorSlicesKey_def)
qed

lemma checkpoint_write_read_witness:
  "\<exists>shape w e bs r r'. holds False shape [4] \<and>
    write_slices example_writer [example_call shape first_two [0, 1], example_call shape last_two [2, 3]] (TensorSliceWriter ''ckpt'' ''1'') = Some (OkStatus, w) \<and>
    Writer_Finish example_writer (table_ops no_snappy mem_files) mem_files w ([], Map.empty) = Some (OkStatus, e) \<and> snd e ''ckpt'' = Some bs \<and>
    TensorSliceReader (file_env bs) ''ckpt'' (OkStatus, [''ckpt'']) kLoadAllShards = Some r \<and>
    CopySliceData (file_env bs) [119] middle_two [0, 0] r = Some (True, [1, 2], r')"
proof -
  obtain shape where shape: "holds False shape [4]" using example_shape by blast
  let ?x = "example_call shape first_two [0, 1]" and ?y = "example_call shape last_two [2, 3]"
  let ?xs = "[?x, ?y]"
  note calls = example_calls [OF shape] and sl4 = example_shape_list [OF shape]
  have raw: "length (sr_buf (we_raw example_writer)) = 16" by (simp add: example_writer_def example_slices(5))
  obtain w where w: "write_slices example_writer ?xs (TensorSliceWriter ''ckpt'' ''1'') = Some (OkStatus, w)" "written example_writer ?xs w"
    "wr_versions w = wr_versions (TensorSliceWriter ''ckpt'' ''1'')" using write_all [OF calls raw] by blast
  note ex = example_written [OF shape w(2,3)]
  let ?P = "\<lambda>bs r. ok (rd_status r) \<and>
    (\<exists>dat' r'. CopySliceData (file_env bs) [119] middle_two [0, 0] r = Some (True, dat', r') \<and> length dat' = length [0, 0 :: int] \<and>
       (\<forall>v \<in> cells [4] middle_two. dat' ! offset row_major [4] middle_two v = v ! 0))"
  have give: "calls_give row_major (\<lambda>v. v ! 0) [119] ?xs"
    using example_stores by (simp add: calls_give_def example_call_def sl4 stores_def example_shard_def example_keys example_env_def example_parse_def example_message_def int64_type.data_fill)
  have of: "of_name [119] ?xs = ?xs" by (simp add: of_name_def example_call_def)
  have cov: "fits [4] middle_two \<and> cells [4] middle_two \<subseteq> (\<Union>y \<in> set ?xs. cells [4] (sc_slice y))"
    using example_last(4) by (auto simp: example_call_def example_offset(2) [OF example_last(1,3)] example_offset(2) [OF example_last(2,4)]
        example_offset(2) [OF example_slices(1,3)] example_values)
  have x: "?x \<in> set ?xs" "sc_name ?x = [119]" "sc_dims ?x = [4]" "sc_type ?x = 9" by (simp_all add: example_call_def sl4)
  have n: "length [4 :: int] \<le> kTensorSliceMaxRank" "length [0, 0 :: int] = card (cells [4] middle_two)" by (simp_all add: kTensorSliceMaxRank_def example_cards)
  obtain e bs where e: "Writer_Finish example_writer (table_ops no_snappy mem_files) mem_files w ([], Map.empty) = Some (OkStatus, e)" "snd e ''ckpt'' = Some bs"
    "\<exists>r. TensorSliceReader (file_env bs) ''ckpt'' (OkStatus, [''ckpt'']) kLoadAllShards = Some r \<and> ?P bs r"
  proof -
    from checkpoint_write_read [OF mem_files_ok snappy_ok_no_snappy calls raw, of "''ckpt''" "''1''" "([], Map.empty)"]
    obtain e bs where e: "Writer_Finish example_writer (table_ops no_snappy mem_files) mem_files w ([], Map.empty) = Some (OkStatus, e)" "snd e ''ckpt'' = Some bs"
      and rd: "\<forall>(renv :: (table, tensor_proto, int, int) reader_env) has at cast enc x T sl dat. checkpoint_reader renv has at cast \<longrightarrow> env_ok renv \<longrightarrow> opens no_snappy renv has ''ckpt'' bs \<longrightarrow>
         fst (we_append example_writer (meta_message example_writer w)) \<longrightarrow> x \<in> set ?xs \<longrightarrow> messages_ok example_writer renv (sc_type x) enc cast \<longrightarrow>
         calls_give at T (sc_name x) ?xs \<longrightarrow> length (sc_dims x) \<le> kTensorSliceMaxRank \<longrightarrow> slice_ok sl \<longrightarrow> length dat = card (cells (sc_dims x) sl) \<longrightarrow>
         (\<exists>r. TensorSliceReader renv ''ckpt'' (OkStatus, [''ckpt'']) kLoadAllShards = Some r \<and> ok (rd_status r) \<and>
           (if fits (sc_dims x) sl \<and> cells (sc_dims x) sl \<subseteq> (\<Union>y \<in> set (of_name (sc_name x) ?xs). cells (sc_dims x) (sc_slice y))
            then \<exists>dat' r'. CopySliceData renv (sc_name x) sl dat r = Some (True, dat', r') \<and> length dat' = length dat \<and>
              (\<forall>v \<in> cells (sc_dims x) sl. dat' ! offset at (sc_dims x) sl v = T v)
            else \<exists>r'. CopySliceData renv (sc_name x) sl dat r = Some (False, dat, r')))"
      unfolding w(1) option.inject prod.inject by (elim exE conjE) (hypsubst, drule mp, rule ex(2), elim exE conjE, rule that)
    have "\<exists>r. TensorSliceReader (file_env bs) ''ckpt'' (OkStatus, [''ckpt'']) kLoadAllShards = Some r \<and> ?P bs r"
      using rd [THEN spec, THEN spec, THEN spec, THEN spec, THEN spec, THEN spec, THEN spec, THEN spec, THEN spec, THEN mp, THEN mp, THEN mp, THEN mp, THEN mp,
          THEN mp, THEN mp, THEN mp, THEN mp, THEN mp, OF file_env_ok(1,2,3) ex(1) x(1) file_env_ok(4), unfolded x(2,3) of, OF give n(1) example_last(2) n(2)]
      unfolding if_P [OF cov] by simp
    with e show ?thesis by (rule that)
  qed
  then obtain r dat' r' where r: "TensorSliceReader (file_env bs) ''ckpt'' (OkStatus, [''ckpt'']) kLoadAllShards = Some r"
    "CopySliceData (file_env bs) [119] middle_two [0, 0] r = Some (True, dat', r')" "length dat' = length [0, 0 :: int]"
    "\<forall>v \<in> cells [4] middle_two. dat' ! offset row_major [4] middle_two v = v ! 0" by blast
  have "dat' ! 0 = 1" "dat' ! 1 = 2"
    using r(4) [rule_format, of "[1]"] r(4) [rule_format, of "[2]"] example_offset [OF example_last(2,4)] by (simp_all add: example_values)
  then have "dat' = [1, 2]" using r(3) by (cases dat'; cases "tl dat'") auto
  then show ?thesis using shape w(1) e(1,2) r(1,2) by blast
qed

lemma save_data_limit_witness:
  "SaveData example_writer 9 [5, 6] 2 \<lparr>ss_name = [119], ss_slice = [], ss_data = no_tensor\<rparr> =
    Some (OkStatus, \<lparr>ss_name = [119], ss_slice = [], ss_data = no_tensor\<lparr>int64_val := [5, 6]\<rparr>\<rparr>)"
proof -
  let ?ss = "\<lparr>ss_name = [119], ss_slice = [], ss_data = no_tensor\<rparr> :: tensor_proto saved_slice"
  have e: "estimate example_writer 9 [5, 6] ?ss = 1064" using example_limits(3,4) by (simp add: estimate_def example_writer_def)
  then have "estimate example_writer 9 [5, 6] ?ss < 2 ^ 64" by simp
  from save_data_limit [OF this example_limits(2)] show ?thesis unfolding e by (simp add: example_writer_def type_defs)
qed

text \<open>The same slice added twice: both calls are accepted and the data of the first one stays.\<close>

definition bytes_writer :: "(tensor_proto, int) writer_env" where
  "bytes_writer = example_writer\<lparr>we_append := (\<lambda>m. (True, map word_of_int (int64_val (ss_data (sts_data m)))))\<rparr>"

lemma writer_invariant_witness:
  "\<exists>shape w w'. holds False shape [4] \<and>
    write_slices bytes_writer [example_call shape first_two [0, 1]] (TensorSliceWriter ''ckpt'' ''1'') = Some (OkStatus, w) \<and>
    Add bytes_writer 9 [119] shape first_two [5, 6] w = Some (OkStatus, w') \<and>
    writer_inv bytes_writer [example_call shape first_two [0, 1], example_call shape first_two [5, 6]]
      [example_call shape first_two [0, 1], example_call shape first_two [5, 6]] w' \<and>
    map_of (wr_data w') (EncodeTensorNameSlice [119] first_two) = Some [0, 1]"
proof -
  obtain shape where shape: "holds False shape [4]" using example_shape by blast
  let ?x = "example_call shape first_two [0, 1]" and ?y = "example_call shape first_two [5, 6]"
  have raw: "length (sr_buf (we_raw bytes_writer)) = 16" by (simp add: bytes_writer_def example_writer_def example_slices(5))
  have ok: "call_ok bytes_writer ?x" "call_ok bytes_writer ?y"
    using shape example_limits example_slices(1,3)
    by (simp_all add: call_ok_def example_call_def example_shape_list [OF shape] example_cards estimate_def bytes_writer_def example_writer_def)
  have y: "holds False (sc_shape ?y) (sc_dims ?y)" "slice_ok (sc_slice ?y)" using ok(2) by (simp_all add: call_ok_def)
  obtain w where w: "write_slices bytes_writer [?x] (TensorSliceWriter ''ckpt'' ''1'') = Some (OkStatus, w)" "writer_inv bytes_writer [?x] [?x] w"
    using write_slices_law [OF _ _ raw writer_inv_init, of "[?x]" "''ckpt''" "''1''"] ok(1) by auto
  have sel: "sc_type ?y = 9" "sc_name ?y = [119]" "sc_shape ?y = shape" "sc_slice ?y = first_two" "sc_data ?y = [5, 6]" by (simp_all add: example_call_def)
  have "same_tensor ?x ?y" by (simp add: same_tensor_def example_call_def)
  then obtain w' where w': "Add bytes_writer 9 [119] shape first_two [5, 6] w = Some (OkStatus, w')" "writer_inv bytes_writer [?x, ?y] [?x, ?y] w'"
    using writer_invariant [OF w(2) y raw, of "''ckpt''" "''1''", unfolded sel] ok(2) by fastforce
  have "first_stored bytes_writer [?x, ?y] (EncodeTensorNameSlice [119] first_two) = Some [0, 1]"
    using example_shape_list [OF shape]
    by (simp add: first_stored_def sc_key_def stored_message_def sc_message_def example_call_def bytes_writer_def example_writer_def example_cards int64_type.data_fill)
  then show ?thesis using shape w(1) w' by (auto simp: writer_inv_def)
qed

end
