(* ===== verification/Reader_Cache.thy ===== *)
theory Reader_Cache
  imports Slice_Reader
begin

text \<open>
  The cache of checkpoint readers: \<open>core/util/tensor_slice_reader_cache.cc\<close> and \<open>tensor_slice_reader_cache.h\<close>.  Several
  threads ask for the reader of a pattern of file names; the first opens the files with the lock released, and the
  others wait until it is done.

  The threads are a list of calls with the place where each one is.  A call is cut into the sections that it runs without
  giving up the lock, so that one step of the relation \<open>cache_step\<close> is one section of one call, in any order; a reader is
  constructed between two sections.  Readers are objects at addresses: the heap has those that were allocated and not
  deleted.  \<open>'w\<close> is the state of the file system while a reader is constructed, which may differ from one to
  the next.

  The theory shows that in every interleaving only one thread opens a pattern, that what a call returns is live and belongs to
  its pattern and function, that nothing leaks, that no wake-up is lost and every schedule ends with all calls
  returned, and that through the wrapper, which holds a lock of its own, the cache acts as a map.
\<close>

section \<open>The code\<close>

text \<open>The open function is the pointer that \<open>target\<close> returns: \<open>None\<close> for a lambda, or without run-time type information.\<close>

record 'o reader_call =
  gc_filepattern :: string
  gc_open_function :: "'o option"
  gc_preferred_shard :: int

record ('o, 't) reader_cache =
  rk_readers :: "string \<rightharpoonup> 'o \<times> nat"
  rk_still_opening :: "string set"
  rk_heap :: "nat \<rightharpoonup> 't slice_reader"
  rk_next :: nat

datatype progress = Entered | Waiting | Woken | Constructing | Constructed nat | Returned "nat option"

definition TensorSliceReaderCache :: "('o, 't) reader_cache" where
  "TensorSliceReaderCache = \<lparr>rk_readers = Map.empty, rk_still_opening = {}, rk_heap = Map.empty, rk_next = 0\<rparr>"

text \<open>From the test of the loop to where the lock is released: the call waits, goes on to construct a reader, or returns.  The last
  component is whether it calls \<open>notify_all\<close>.\<close>

definition GetReader_lookup :: "'o \<Rightarrow> string \<Rightarrow> ('o, 't) reader_cache \<Rightarrow> ('o, 't) reader_cache \<times> progress \<times> bool" where
  "GetReader_lookup func_ptr filepattern s =
     (if filepattern \<in> rk_still_opening s then (s, Waiting, False)
      else
        case rk_readers s filepattern of
          None \<Rightarrow> (s\<lparr>rk_still_opening := insert filepattern (rk_still_opening s)\<rparr>, Constructing, False)
        | Some (f, reader) \<Rightarrow> (s, Returned (if f = func_ptr then Some reader else None), True))"

definition GetReader_enter :: "'o reader_call \<Rightarrow> ('o, 't) reader_cache \<Rightarrow> ('o, 't) reader_cache \<times> progress \<times> bool" where
  "GetReader_enter c s =
     (case gc_open_function c of
        None \<Rightarrow> (s, Returned None, False)
      | Some func_ptr \<Rightarrow> GetReader_lookup func_ptr (gc_filepattern c) s)"

definition new_reader :: "'t slice_reader \<Rightarrow> ('o, 't) reader_cache \<Rightarrow> ('o, 't) reader_cache \<times> nat" where
  "new_reader r s = (s\<lparr>rk_heap := (rk_heap s)(rk_next s \<mapsto> r), rk_next := Suc (rk_next s)\<rparr>, rk_next s)"

text \<open>With the lock again; \<open>None\<close> when the \<open>CHECK\<close> fails or the object is gone.\<close>

definition GetReader_publish :: "'o \<Rightarrow> string \<Rightarrow> nat \<Rightarrow> ('o, 't) reader_cache \<Rightarrow> (('o, 't) reader_cache \<times> progress \<times> bool) option" where
  "GetReader_publish func_ptr filepattern tmp_reader s =
     Option.bind (rk_heap s tmp_reader) (\<lambda>r.
       let (reader, s) =
             (if ok (rd_status r) then (Some tmp_reader, s\<lparr>rk_readers := (rk_readers s)(filepattern \<mapsto> (func_ptr, tmp_reader))\<rparr>)
              else (None, s\<lparr>rk_heap := (rk_heap s)(tmp_reader := None)\<rparr>))
       in if filepattern \<in> rk_still_opening s
          then Some (s\<lparr>rk_still_opening := rk_still_opening s - {filepattern}\<rparr>, Returned reader, True)
          else None)"

text \<open>\<open>notify_all\<close> of the condition variable.\<close>

fun wake_up :: "'o reader_call \<times> progress \<Rightarrow> 'o reader_call \<times> progress" where
  "wake_up (c, p) = (c, if p = Waiting then Woken else p)"

definition notify_all :: "bool \<Rightarrow> ('o reader_call \<times> progress) list \<Rightarrow> ('o reader_call \<times> progress) list" where
  "notify_all b ts = (if b then map wake_up ts else ts)"

type_synonym ('o, 't) cache_state = "('o, 't) reader_cache \<times> ('o reader_call \<times> progress) list"

inductive cache_step ::
    "('o \<Rightarrow> 'w \<Rightarrow> ('t, 'p, 'a, 'b) reader_env) \<Rightarrow> ('w \<Rightarrow> string \<Rightarrow> status \<times> string list) \<Rightarrow> ('o, 't) cache_state \<Rightarrow> ('o, 't) cache_state \<Rightarrow> bool"
  for env glob where
  enter: "\<lbrakk>i < length ts; ts ! i = (c, Entered); GetReader_enter c s = (s', p, b)\<rbrakk>
    \<Longrightarrow> cache_step env glob (s, ts) (s', notify_all b (ts[i := (c, p)]))"
| recheck: "\<lbrakk>i < length ts; ts ! i = (c, Woken); gc_open_function c = Some f; GetReader_lookup f (gc_filepattern c) s = (s', p, b)\<rbrakk>
    \<Longrightarrow> cache_step env glob (s, ts) (s', notify_all b (ts[i := (c, p)]))"
| construct: "\<lbrakk>i < length ts; ts ! i = (c, Constructing); gc_open_function c = Some f;
      TensorSliceReader (env f w) (gc_filepattern c) (glob w (gc_filepattern c)) (gc_preferred_shard c) = Some r; new_reader r s = (s', a)\<rbrakk>
    \<Longrightarrow> cache_step env glob (s, ts) (s', ts[i := (c, Constructed a)])"
| publish: "\<lbrakk>i < length ts; ts ! i = (c, Constructed a); gc_open_function c = Some f;
      GetReader_publish f (gc_filepattern c) a s = Some (s', p, b)\<rbrakk>
    \<Longrightarrow> cache_step env glob (s, ts) (s', notify_all b (ts[i := (c, p)]))"

text \<open>The states of a cache: calls arrive at any time, sections are run in any order, and a wait may end without a
  notification.\<close>

inductive cache_reachable ::
    "('o \<Rightarrow> 'w \<Rightarrow> ('t, 'p, 'a, 'b) reader_env) \<Rightarrow> ('w \<Rightarrow> string \<Rightarrow> status \<times> string list) \<Rightarrow> ('o, 't) cache_state \<Rightarrow> bool"
  for env glob where
  start: "cache_reachable env glob (TensorSliceReaderCache, [])"
| call: "cache_reachable env glob (s, ts) \<Longrightarrow> cache_reachable env glob (s, ts @ [(c, Entered)])"
| run: "\<lbrakk>cache_reachable env glob st; cache_step env glob st st'\<rbrakk> \<Longrightarrow> cache_reachable env glob st'"
| spurious: "\<lbrakk>cache_reachable env glob (s, ts); i < length ts; ts ! i = (c, Waiting)\<rbrakk> \<Longrightarrow> cache_reachable env glob (s, ts[i := (c, Woken)])"

text \<open>The destructor; \<open>None\<close> is a pointer that was deleted before.\<close>

fun delete_readers :: "(string \<times> 'o \<times> nat) list \<Rightarrow> (nat \<rightharpoonup> 't slice_reader) \<Rightarrow> (nat \<rightharpoonup> 't slice_reader) option" where
  "delete_readers [] h = Some h"
| "delete_readers ((filepattern, f, reader) # es) h = (if h reader = None then None else delete_readers es (h(reader := None)))"

text \<open>A call that no other call interferes with, since the wrapper holds its own lock; \<open>None\<close> when it waits for ever.\<close>

definition GetReader ::
    "('o \<Rightarrow> 'w \<Rightarrow> ('t, 'p, 'a, 'b) reader_env) \<Rightarrow> ('w \<Rightarrow> string \<Rightarrow> status \<times> string list) \<Rightarrow> 'w \<Rightarrow> 'o reader_call \<Rightarrow> ('o, 't) reader_cache \<Rightarrow>
     (nat option \<times> ('o, 't) reader_cache) option" where
  "GetReader env glob w c s =
     (case GetReader_enter c s of
        (s, Constructing, b) \<Rightarrow>
          Option.bind (gc_open_function c) (\<lambda>f.
          Option.bind (TensorSliceReader (env f w) (gc_filepattern c) (glob w (gc_filepattern c)) (gc_preferred_shard c)) (\<lambda>r.
            let (s, a) = new_reader r s in
            Option.bind (GetReader_publish f (gc_filepattern c) a s) (\<lambda>(s, p, b).
              case p of Returned reader \<Rightarrow> Some (reader, s) | _ \<Rightarrow> None)))
      | (s, Returned reader, b) \<Rightarrow> Some (reader, s)
      | _ \<Rightarrow> None)"

definition Wrapper_GetReader ::
    "('o \<Rightarrow> 'w \<Rightarrow> ('t, 'p, 'a, 'b) reader_env) \<Rightarrow> ('w \<Rightarrow> string \<Rightarrow> status \<times> string list) \<Rightarrow> 'w \<Rightarrow> 'o reader_call \<Rightarrow> ('o, 't) reader_cache option \<Rightarrow>
     (nat option \<times> ('o, 't) reader_cache option) option" where
  "Wrapper_GetReader env glob w c cache =
     map_option (\<lambda>(reader, s). (reader, Some s))
       (GetReader env glob w c (case cache of None \<Rightarrow> TensorSliceReaderCache | Some s \<Rightarrow> s))"

section \<open>The invariant\<close>

text \<open>A reader that was constructed for a function and a pattern, in some state of the file system and with some shard preferred.\<close>

definition constructed ::
    "('o \<Rightarrow> 'w \<Rightarrow> ('t, 'p, 'a, 'b) reader_env) \<Rightarrow> ('w \<Rightarrow> string \<Rightarrow> status \<times> string list) \<Rightarrow> 'o \<Rightarrow> string \<Rightarrow> 't slice_reader \<Rightarrow> bool" where
  "constructed env glob f fp r \<longleftrightarrow> (\<exists>w p. TensorSliceReader (env f w) fp (glob w fp) p = Some r)"

fun busy :: "progress \<Rightarrow> bool" where
  "busy Constructing = True"
| "busy (Constructed a) = True"
| "busy _ = False"

definition busy_at :: "('o reader_call \<times> progress) list \<Rightarrow> nat \<Rightarrow> string \<Rightarrow> bool" where
  "busy_at ts i fp \<longleftrightarrow> i < length ts \<and> busy (snd (ts ! i)) \<and> gc_filepattern (fst (ts ! i)) = fp"

definition holds_at :: "('o reader_call \<times> progress) list \<Rightarrow> nat \<Rightarrow> nat \<Rightarrow> bool" where
  "holds_at ts i a \<longleftrightarrow> i < length ts \<and> snd (ts ! i) = Constructed a"

definition cached :: "('o, 't) reader_cache \<Rightarrow> nat \<Rightarrow> bool" where
  "cached s a \<longleftrightarrow> (\<exists>fp f. rk_readers s fp = Some (f, a))"

fun thread_ok ::
    "('o \<Rightarrow> 'w \<Rightarrow> ('t, 'p, 'a, 'b) reader_env) \<Rightarrow> ('w \<Rightarrow> string \<Rightarrow> status \<times> string list) \<Rightarrow> ('o, 't) reader_cache \<Rightarrow> 'o reader_call \<Rightarrow> progress \<Rightarrow> bool" where
  "thread_ok env glob s c Entered \<longleftrightarrow> True"
| "thread_ok env glob s c Waiting \<longleftrightarrow> gc_open_function c \<noteq> None \<and> gc_filepattern c \<in> rk_still_opening s"
| "thread_ok env glob s c Woken \<longleftrightarrow> gc_open_function c \<noteq> None"
| "thread_ok env glob s c Constructing \<longleftrightarrow> gc_open_function c \<noteq> None \<and> rk_readers s (gc_filepattern c) = None"
| "thread_ok env glob s c (Constructed a) \<longleftrightarrow> rk_readers s (gc_filepattern c) = None \<and> \<not> cached s a \<and>
     (\<exists>f r. gc_open_function c = Some f \<and> rk_heap s a = Some r \<and> constructed env glob f (gc_filepattern c) r)"
| "thread_ok env glob s c (Returned None) \<longleftrightarrow> True"
| "thread_ok env glob s c (Returned (Some a)) \<longleftrightarrow> (\<exists>f. gc_open_function c = Some f \<and> rk_readers s (gc_filepattern c) = Some (f, a))"

definition cache_ok ::
    "('o \<Rightarrow> 'w \<Rightarrow> ('t, 'p, 'a, 'b) reader_env) \<Rightarrow> ('w \<Rightarrow> string \<Rightarrow> status \<times> string list) \<Rightarrow> ('o, 't) reader_cache \<Rightarrow> bool" where
  "cache_ok env glob s \<longleftrightarrow>
     (\<forall>fp f a. rk_readers s fp = Some (f, a) \<longrightarrow> (\<exists>r. rk_heap s a = Some r \<and> ok (rd_status r) \<and> constructed env glob f fp r)) \<and>
     (\<forall>fp fp' f f' a. rk_readers s fp = Some (f, a) \<longrightarrow> rk_readers s fp' = Some (f', a) \<longrightarrow> fp = fp') \<and>
     (\<forall>a. rk_heap s a \<noteq> None \<longrightarrow> a < rk_next s)"

definition threads_ok ::
    "('o \<Rightarrow> 'w \<Rightarrow> ('t, 'p, 'a, 'b) reader_env) \<Rightarrow> ('w \<Rightarrow> string \<Rightarrow> status \<times> string list) \<Rightarrow> ('o, 't) cache_state \<Rightarrow> bool" where
  "threads_ok env glob st \<longleftrightarrow> cache_ok env glob (fst st) \<and>
     (\<forall>(c, p) \<in> set (snd st). thread_ok env glob (fst st) c p) \<and>
     (\<forall>fp. fp \<in> rk_still_opening (fst st) \<longleftrightarrow> (\<exists>i. busy_at (snd st) i fp)) \<and>
     (\<forall>i j fp. busy_at (snd st) i fp \<longrightarrow> busy_at (snd st) j fp \<longrightarrow> i = j) \<and>
     (\<forall>i j a. holds_at (snd st) i a \<longrightarrow> holds_at (snd st) j a \<longrightarrow> i = j) \<and>
     (\<forall>a. rk_heap (fst st) a \<noteq> None \<longleftrightarrow> cached (fst st) a \<or> (\<exists>i. holds_at (snd st) i a))"

lemma threads_okD:
  assumes "threads_ok env glob (s, ts)"
  shows "cache_ok env glob s"
    and "i < length ts \<Longrightarrow> ts ! i = (c, p) \<Longrightarrow> thread_ok env glob s c p"
    and "fp \<in> rk_still_opening s \<longleftrightarrow> (\<exists>i. busy_at ts i fp)"
    and "busy_at ts i fp \<Longrightarrow> busy_at ts j fp \<Longrightarrow> i = j"
    and "holds_at ts i a \<Longrightarrow> holds_at ts j a \<Longrightarrow> i = j"
    and "rk_heap s a \<noteq> None \<longleftrightarrow> cached s a \<or> (\<exists>i. holds_at ts i a)"
  using assms nth_mem [of i ts] by (auto simp: threads_ok_def)

lemma cache_okD:
  assumes "cache_ok env glob s"
  shows "rk_readers s fp = Some (f, a) \<Longrightarrow> \<exists>r. rk_heap s a = Some r \<and> ok (rd_status r) \<and> constructed env glob f fp r"
    and "rk_readers s fp = Some (f, a) \<Longrightarrow> rk_readers s fp' = Some (f', a) \<Longrightarrow> fp = fp'"
    and "rk_heap s a \<noteq> None \<Longrightarrow> a < rk_next s"
  using assms unfolding cache_ok_def by blast+

subsection \<open>Lists of calls\<close>

lemma length_notify_all [simp]: "length (notify_all b ts) = length ts"
  by (simp add: notify_all_def)

lemma fst_wake_up [simp]: "fst (wake_up x) = fst x"
  by (cases x) simp

lemma snd_wake_up [simp]: "snd (wake_up x) = (if snd x = Waiting then Woken else snd x)"
  by (cases x) simp

lemma busy_at_notify_all [simp]: "busy_at (notify_all b ts) i fp = busy_at ts i fp"
  by (auto simp: busy_at_def notify_all_def split: if_splits)

lemma holds_at_notify_all [simp]: "holds_at (notify_all b ts) i a = holds_at ts i a"
  by (auto simp: holds_at_def notify_all_def split: if_splits)

lemma busy_at_update:
  assumes "i < length ts"
  shows "busy_at (ts[i := (c, p)]) j fp \<longleftrightarrow> (if j = i then busy p \<and> gc_filepattern c = fp else busy_at ts j fp)"
  using assms by (auto simp: busy_at_def)

lemma holds_at_update:
  assumes "i < length ts"
  shows "holds_at (ts[i := (c, p)]) j a \<longleftrightarrow> (if j = i then p = Constructed a else holds_at ts j a)"
  using assms by (auto simp: holds_at_def)

lemma busy_at_append: "busy_at (ts @ [(c, Entered)]) j fp \<longleftrightarrow> busy_at ts j fp"
  by (auto simp: busy_at_def nth_append less_Suc_eq)

lemma holds_at_append: "holds_at (ts @ [(c, Entered)]) j a \<longleftrightarrow> holds_at ts j a"
  by (auto simp: holds_at_def nth_append less_Suc_eq)

lemma busy_at_nth: "i < length ts \<Longrightarrow> ts ! i = (c, p) \<Longrightarrow> busy_at ts i fp \<longleftrightarrow> busy p \<and> gc_filepattern c = fp"
  by (simp add: busy_at_def)

lemma holds_at_nth: "i < length ts \<Longrightarrow> ts ! i = (c, p) \<Longrightarrow> holds_at ts i a \<longleftrightarrow> p = Constructed a"
  by (simp add: holds_at_def)

lemma in_set_update:
  assumes "(c', p') \<in> set (ts[i := (c, p)])"
  obtains "c' = c" "p' = p" | j where "j < length ts" "j \<noteq> i" "ts ! j = (c', p')"
proof -
  obtain j where j: "j < length ts" "ts[i := (c, p)] ! j = (c', p')" using assms by (auto simp: in_set_conv_nth)
  show ?thesis using j that by (cases "j = i") auto
qed

lemma in_notify_all:
  assumes "(c, p) \<in> set (notify_all b ts)"
  obtains q where "(c, q) \<in> set ts" "q = p \<or> b \<and> q = Waiting \<and> p = Woken" "b \<longrightarrow> p \<noteq> Waiting"
proof (cases b)
  case True
  then have "(c, p) \<in> wake_up ` set ts" using assms by (simp add: notify_all_def)
  then obtain c' q where q: "(c, p) = wake_up (c', q)" "(c', q) \<in> set ts" by auto
  show ?thesis using q True by (intro that [of q]) (auto split: if_splits)
qed (use assms that in \<open>auto simp: notify_all_def\<close>)

subsection \<open>Every step keeps it\<close>

text \<open>A call that is not opening files changes its place, and the cache does not change.\<close>

lemma move_keeps:
  assumes inv: "threads_ok env glob (s, ts)" and i: "i < length ts" "ts ! i = (c, q)" and q: "\<not> busy q" "\<not> busy p" "thread_ok env glob s c p"
  shows "threads_ok env glob (s, notify_all b (ts[i := (c, p)]))"
proof -
  have "thread_ok env glob s c' p'" if "(c', p') \<in> set (notify_all b (ts[i := (c, p)]))" for c' p'
    using that
  proof (rule in_notify_all)
    fix q'
    assume q': "(c', q') \<in> set (ts[i := (c, p)])" "q' = p' \<or> b \<and> q' = Waiting \<and> p' = Woken"
    have "thread_ok env glob s c' q'" using q'(1) by (rule in_set_update) (use q(3) threads_okD(2) [OF inv] in auto)
    then show ?thesis using q'(2) by auto
  qed
  moreover have "busy_at (ts[i := (c, p)]) j fp = busy_at ts j fp" for j fp using busy_at_nth [OF i] q(1,2) by (simp add: busy_at_update [OF i(1)])
  moreover have "holds_at (ts[i := (c, p)]) j a = holds_at ts j a" for j a
    using holds_at_nth [OF i] q(1,2) by (cases p; cases q) (auto simp: holds_at_update [OF i(1)])
  ultimately show ?thesis using inv by (auto simp: threads_ok_def)
qed

lemma call_keeps: "threads_ok env glob (s, ts) \<Longrightarrow> threads_ok env glob (s, ts @ [(c, Entered)])"
  by (auto simp: threads_ok_def busy_at_append holds_at_append)

lemma open_keeps:
  assumes inv: "threads_ok env glob (s, ts)" and i: "i < length ts" "ts ! i = (c, q)" and q: "\<not> busy q"
    and c: "gc_open_function c \<noteq> None" "gc_filepattern c \<notin> rk_still_opening s" "rk_readers s (gc_filepattern c) = None"
  shows "threads_ok env glob (s\<lparr>rk_still_opening := insert (gc_filepattern c) (rk_still_opening s)\<rparr>, ts[i := (c, Constructing)])"
    (is "threads_ok env glob (?s, ?ts)")
proof -
  have mono: "thread_ok env glob ?s c' p'" if "thread_ok env glob s c' p'" for c' p'
    using that by (cases "(env, glob, s, c', p')" rule: thread_ok.cases) (auto simp: cached_def)
  have "thread_ok env glob ?s c' p'" if "(c', p') \<in> set ?ts" for c' p'
    using that by (rule in_set_update) (use c threads_okD(2) [OF inv] mono in auto)
  moreover have "cache_ok env glob ?s" using threads_okD(1) [OF inv] by (simp add: cache_ok_def)
  moreover have b: "busy_at ?ts j fp \<longleftrightarrow> j = i \<and> fp = gc_filepattern c \<or> busy_at ts j fp" for j fp
    using busy_at_nth [OF i] q by (auto simp: busy_at_update [OF i(1)])
  moreover have "holds_at ?ts j a = holds_at ts j a" for j a
    using holds_at_nth [OF i] q by (cases q) (auto simp: holds_at_update [OF i(1)])
  moreover have "\<not> busy_at ts j (gc_filepattern c)" for j using threads_okD(3) [OF inv] c(2) by blast
  ultimately show ?thesis using inv by (auto simp: threads_ok_def cached_def)
qed

lemma construct_keeps:
  assumes inv: "threads_ok env glob (s, ts)" and i: "i < length ts" "ts ! i = (c, Constructing)" and f: "gc_open_function c = Some f"
    and r: "constructed env glob f (gc_filepattern c) r" and s': "new_reader r s = (s', a)"
  shows "threads_ok env glob (s', ts[i := (c, Constructed a)])" (is "threads_ok env glob (s', ?ts)")
proof -
  have a: "a = rk_next s" and s: "s' = s\<lparr>rk_heap := (rk_heap s)(a \<mapsto> r), rk_next := Suc a\<rparr>" using s' by (auto simp: new_reader_def)
  have fresh: "rk_heap s a = None" using cache_okD(3) [OF threads_okD(1) [OF inv], of a] a by (metis less_irrefl)
  then have new: "\<not> cached s a" "\<not> holds_at ts j a" for j using threads_okD(6) [OF inv, of a] by auto
  have mono: "thread_ok env glob s' c' p'" if "thread_ok env glob s c' p'" for c' p'
    using that fresh by (cases "(env, glob, s, c', p')" rule: thread_ok.cases) (auto simp: cached_def s)
  have "rk_readers s (gc_filepattern c) = None" using threads_okD(2) [OF inv i] by simp
  then have "thread_ok env glob s' c (Constructed a)" using f r new(1) by (simp add: s cached_def)
  then have "thread_ok env glob s' c' p'" if "(c', p') \<in> set ?ts" for c' p'
    using that by (elim in_set_update) (use threads_okD(2) [OF inv] mono in auto)
  moreover have "cache_ok env glob s'" using threads_okD(1) [OF inv] new(1) fresh a unfolding cache_ok_def s cached_def
    by (auto simp: less_Suc_eq split: if_splits)
  moreover have "busy_at ?ts j fp = busy_at ts j fp" for j fp using busy_at_nth [OF i] by (simp add: busy_at_update [OF i(1)])
  moreover have "holds_at ?ts j b \<longleftrightarrow> j = i \<and> b = a \<or> holds_at ts j b" for j b
    using holds_at_nth [OF i] by (auto simp: holds_at_update [OF i(1)])
  ultimately show ?thesis using inv new by (auto simp: threads_ok_def cached_def s)
qed

text \<open>The reader is published when it could be opened, and deleted otherwise; either way the pattern is free again.\<close>

lemma publish_cases:
  assumes inv: "threads_ok env glob (s, ts)" and i: "i < length ts" "ts ! i = (c, Constructed a)" "gc_open_function c = Some f"
  obtains r where "rk_heap s a = Some r" "constructed env glob f (gc_filepattern c) r"
    "GetReader_publish f (gc_filepattern c) a s = Some
      (if ok (rd_status r)
       then (s\<lparr>rk_readers := (rk_readers s)(gc_filepattern c \<mapsto> (f, a)), rk_still_opening := rk_still_opening s - {gc_filepattern c}\<rparr>, Returned (Some a), True)
       else (s\<lparr>rk_heap := (rk_heap s)(a := None), rk_still_opening := rk_still_opening s - {gc_filepattern c}\<rparr>, Returned None, True))"
proof -
  obtain r where f: "rk_heap s a = Some r" "constructed env glob f (gc_filepattern c) r"
    using threads_okD(2) [OF inv i(1,2)] i(3) by auto
  have "gc_filepattern c \<in> rk_still_opening s" using threads_okD(3) [OF inv] busy_at_nth [OF i(1,2)] by auto
  then show ?thesis using f by (intro that) (auto simp: GetReader_publish_def)
qed

lemma finish_keeps:
  assumes inv: "threads_ok env glob (s, ts)" and i: "i < length ts" "ts ! i = (c, Constructed a)"
    and s': "rk_still_opening s' = rk_still_opening s - {gc_filepattern c}" "cache_ok env glob s'" "thread_ok env glob s' c (Returned q)"
      "\<And>b. rk_heap s' b \<noteq> None \<longleftrightarrow> cached s' b \<or> (\<exists>j. holds_at ts j b \<and> b \<noteq> a)"
    and mono: "\<And>c' p'. \<lbrakk>thread_ok env glob s c' p'; busy p' \<longrightarrow> gc_filepattern c' \<noteq> gc_filepattern c; p' \<noteq> Constructed a; p' \<noteq> Waiting\<rbrakk> \<Longrightarrow> thread_ok env glob s' c' p'"
  shows "threads_ok env glob (s', notify_all True (ts[i := (c, Returned q)]))" (is "threads_ok env glob (s', notify_all True ?ts)")
proof -
  have b: "busy_at ts j (gc_filepattern c) \<longleftrightarrow> j = i" for j
    using threads_okD(4) [OF inv, of j _ i] busy_at_nth [OF i, of "gc_filepattern c"] by (metis busy.simps(2))
  have h: "holds_at ts j a \<longleftrightarrow> j = i" for j using threads_okD(5) [OF inv, of j _ i] holds_at_nth [OF i, of a] by metis
  have other: "thread_ok env glob s' c' p'" if "j < length ts" "j \<noteq> i" "ts ! j = (c', p')" "p' \<noteq> Waiting" for j c' p'
  proof (rule mono [OF threads_okD(2) [OF inv that(1,3)] _ _ that(4)])
    show "busy p' \<longrightarrow> gc_filepattern c' \<noteq> gc_filepattern c" using b [of j] busy_at_nth [OF that(1,3)] that(2) by simp
    show "p' \<noteq> Constructed a" using h [of j] holds_at_nth [OF that(1,3)] that(2) by simp
  qed
  have "thread_ok env glob s' c' p'" if "(c', p') \<in> set (notify_all True ?ts)" for c' p'
    using that
  proof (rule in_notify_all)
    fix q'
    assume q': "(c', q') \<in> set ?ts" "q' = p' \<or> True \<and> q' = Waiting \<and> p' = Woken" "True \<longrightarrow> p' \<noteq> Waiting"
    show ?thesis using q'(1)
    proof (rule in_set_update)
      fix j
      assume j: "j < length ts" "j \<noteq> i" "ts ! j = (c', q')"
      show ?thesis using q'(2,3) other [OF j] threads_okD(2) [OF inv j(1,3)] by auto
    qed (use q'(2) s'(3) in auto)
  qed
  moreover have "busy_at ?ts j fp \<longleftrightarrow> busy_at ts j fp \<and> fp \<noteq> gc_filepattern c" for j fp
    using b [of j] busy_at_nth [OF i, of fp] by (cases "fp = gc_filepattern c") (simp_all add: busy_at_update [OF i(1)])
  moreover have "holds_at ?ts j b \<longleftrightarrow> holds_at ts j b \<and> b \<noteq> a" for j b
    using h [of j] holds_at_nth [OF i, of b] by (cases "b = a") (simp_all add: holds_at_update [OF i(1)])
  ultimately show ?thesis using inv s'(1,2,4) by (auto simp: threads_ok_def)
qed

lemma publish_keeps:
  assumes inv: "threads_ok env glob (s, ts)" and i: "i < length ts" "ts ! i = (c, Constructed a)" and f: "gc_open_function c = Some f"
    and r: "rk_heap s a = Some r" "ok (rd_status r)" "constructed env glob f (gc_filepattern c) r"
  shows "threads_ok env glob (s\<lparr>rk_readers := (rk_readers s)(gc_filepattern c \<mapsto> (f, a)), rk_still_opening := rk_still_opening s - {gc_filepattern c}\<rparr>,
    notify_all True (ts[i := (c, Returned (Some a))]))" (is "threads_ok env glob (?s, _)")
proof (rule finish_keeps [OF inv i])
  have none: "rk_readers s (gc_filepattern c) = None" and new: "\<not> cached s a" using threads_okD(2) [OF inv i] by auto
  have cached: "cached ?s b \<longleftrightarrow> b = a \<or> cached s b" for b using none by (auto simp: cached_def) (metis option.distinct(1))
  show "cache_ok env glob ?s" using threads_okD(1) [OF inv] new r unfolding cache_ok_def cached_def by auto
  show "rk_heap ?s b \<noteq> None \<longleftrightarrow> cached ?s b \<or> (\<exists>j. holds_at ts j b \<and> b \<noteq> a)" for b using threads_okD(6) [OF inv, of b] r(1) by (auto simp: cached)
  show "thread_ok env glob ?s c' p'"
    if "thread_ok env glob s c' p'" "busy p' \<longrightarrow> gc_filepattern c' \<noteq> gc_filepattern c" "p' \<noteq> Constructed a" "p' \<noteq> Waiting" for c' p'
    using that none by (cases "(env, glob, s, c', p')" rule: thread_ok.cases) (auto simp: cached)
qed (simp_all add: f)

lemma discard_keeps:
  assumes inv: "threads_ok env glob (s, ts)" and i: "i < length ts" "ts ! i = (c, Constructed a)"
  shows "threads_ok env glob (s\<lparr>rk_heap := (rk_heap s)(a := None), rk_still_opening := rk_still_opening s - {gc_filepattern c}\<rparr>,
    notify_all True (ts[i := (c, Returned None)]))" (is "threads_ok env glob (?s, _)")
proof (rule finish_keeps [OF inv i])
  have new: "\<not> cached s a" using threads_okD(2) [OF inv i] by auto
  have cached: "cached ?s b \<longleftrightarrow> cached s b" for b by (simp add: cached_def)
  show "cache_ok env glob ?s" using threads_okD(1) [OF inv] new unfolding cache_ok_def cached_def by auto
  show "rk_heap ?s b \<noteq> None \<longleftrightarrow> cached ?s b \<or> (\<exists>j. holds_at ts j b \<and> b \<noteq> a)" for b using threads_okD(6) [OF inv, of b] new by (auto simp: cached)
  show "thread_ok env glob ?s c' p'" if "thread_ok env glob s c' p'" "p' \<noteq> Constructed a" "p' \<noteq> Waiting" for c' p'
    using that by (cases "(env, glob, s, c', p')" rule: thread_ok.cases) (auto simp: cached)
qed simp_all

lemma lookup_keeps:
  assumes inv: "threads_ok env glob (s, ts)" and i: "i < length ts" "ts ! i = (c, q)" "\<not> busy q" and f: "gc_open_function c = Some f"
    and l: "GetReader_lookup f (gc_filepattern c) s = (s', p, b)"
  shows "threads_ok env glob (s', notify_all b (ts[i := (c, p)]))"
proof (cases "p = Constructing")
  case True
  then have "gc_filepattern c \<notin> rk_still_opening s" "rk_readers s (gc_filepattern c) = None" "\<not> b"
    "s' = s\<lparr>rk_still_opening := insert (gc_filepattern c) (rk_still_opening s)\<rparr>" using l by (auto simp: GetReader_lookup_def split: if_splits option.splits)
  then show ?thesis using open_keeps [OF inv i] f True by (simp add: notify_all_def)
next
  case False
  then have "s' = s" "\<not> busy p" "thread_ok env glob s c p" using l f by (auto simp: GetReader_lookup_def split: if_splits option.splits)
  then show ?thesis using move_keeps [OF inv i] by simp
qed

lemma step_keeps:
  assumes "cache_step env glob st st'" "threads_ok env glob st"
  shows "threads_ok env glob st'"
  using assms
proof cases
  case (enter i ts c s s' p b)
  then show ?thesis using assms(2) lookup_keeps [of env glob s ts i c Entered _ s' p b] move_keeps [of env glob s ts i c Entered "Returned None" b]
    by (auto simp: GetReader_enter_def split: option.splits)
next
  case (recheck i ts c f s s' p b)
  then show ?thesis using assms(2) lookup_keeps [of env glob s ts i c Woken] by simp
next
  case (construct i ts c f w r s s' a)
  then show ?thesis using assms(2) construct_keeps [of env glob s ts i c f r s' a] by (auto simp: constructed_def)
next
  case (publish i ts c a f s s' p b)
  have inv: "threads_ok env glob (s, ts)" using assms(2) publish(1) by simp
  show ?thesis
  proof (rule publish_cases [OF inv publish(3-5)])
    fix r
    assume r: "rk_heap s a = Some r" "constructed env glob f (gc_filepattern c) r"
      "GetReader_publish f (gc_filepattern c) a s = Some (if ok (rd_status r)
       then (s\<lparr>rk_readers := (rk_readers s)(gc_filepattern c \<mapsto> (f, a)), rk_still_opening := rk_still_opening s - {gc_filepattern c}\<rparr>, Returned (Some a), True)
       else (s\<lparr>rk_heap := (rk_heap s)(a := None), rk_still_opening := rk_still_opening s - {gc_filepattern c}\<rparr>, Returned None, True))"
    show ?thesis
    proof (cases "ok (rd_status r)")
      case True
      then show ?thesis using publish_keeps [OF inv publish(3,4,5) r(1) True r(2)] r(3) publish(6) unfolding publish(2) by simp
    next
      case False
      then show ?thesis using discard_keeps [OF inv publish(3,4)] r(3) publish(6) unfolding publish(2) by simp
    qed
  qed
qed

lemma reachable_ok: "cache_reachable env glob st \<Longrightarrow> threads_ok env glob st"
proof (induction rule: cache_reachable.induct)
  case start
  then show ?case by (simp add: threads_ok_def cache_ok_def TensorSliceReaderCache_def busy_at_def holds_at_def cached_def)
next
  case (call s ts c)
  then show ?case by (simp add: call_keeps)
next
  case (run st st')
  then show ?case by (simp add: step_keeps)
next
  case (spurious s ts i c)
  then show ?case using move_keeps [of env glob s ts i c Waiting Woken False] threads_okD(2) [of env glob s ts i c Waiting] by (simp add: notify_all_def)
qed

section \<open>Progress\<close>

fun returned :: "progress \<Rightarrow> bool" where
  "returned (Returned q) = True"
| "returned _ = False"

definition all_returned :: "('o, 't) cache_state \<Rightarrow> bool" where
  "all_returned st \<longleftrightarrow> (\<forall>(c, p) \<in> set (snd st). returned p)"

text \<open>A call has at most three sections ahead of it until it waits or returns, and a return can wake the others once.\<close>

fun sections_left :: "progress \<Rightarrow> nat" where
  "sections_left Entered = 3"
| "sections_left Woken = 3"
| "sections_left Constructing = 2"
| "sections_left (Constructed a) = 1"
| "sections_left _ = 0"

definition pending :: "('o reader_call \<times> progress) list \<Rightarrow> nat" where
  "pending ts = sum_list (map (\<lambda>x. if returned (snd x) then 0 else 1) ts)"

definition sections :: "('o reader_call \<times> progress) list \<Rightarrow> nat" where
  "sections ts = sum_list (map (\<lambda>x. sections_left (snd x)) ts)"

definition work :: "('o, 't) cache_state \<Rightarrow> nat" where
  "work st = pending (snd st) * (3 * length (snd st) + 1) + sections (snd st)"

lemma sum_list_map_update:
  fixes f :: "'a \<Rightarrow> nat"
  assumes "i < length xs"
  shows "sum_list (map f (xs[i := x])) + f (xs ! i) = sum_list (map f xs) + f x"
proof -
  have "f (xs ! i) \<le> sum_list (map f xs)" using assms by (simp add: member_le_sum_list)
  then show ?thesis using assms by (simp add: map_update sum_list_update)
qed

lemma sections_left_le: "sections_left p \<le> 3"
  by (cases p) simp_all

lemma sections_le: "sections ts \<le> 3 * length ts"
  unfolding sections_def by (induction ts) (use sections_left_le in \<open>auto intro: add_mono\<close>)

lemma pending_notify_all: "pending (notify_all b ts) = pending ts"
proof -
  have "returned (snd (wake_up x)) = returned (snd x)" for x :: "'a reader_call \<times> progress" by auto
  then show ?thesis by (simp add: pending_def notify_all_def o_def)
qed

lemma work_less:
  assumes i: "i < length ts" "ts ! i = (c, q)" "\<not> returned q" and p: "returned p \<or> \<not> b \<and> sections_left p < sections_left q"
  shows "work (s', notify_all b (ts[i := (c, p)])) < work (s, ts)"
proof -
  note n = sum_list_map_update [OF i(1), of "\<lambda>x. if returned (snd x) then 0 else 1" "(c, p)", folded pending_def]
  note m = sum_list_map_update [OF i(1), of "\<lambda>x. sections_left (snd x)" "(c, p)", folded sections_def]
  show ?thesis
  proof (cases "returned p")
    case True
    then have "pending ts = Suc (pending (ts[i := (c, p)]))" using n i(2,3) by simp
    then show ?thesis using sections_le [of "notify_all b (ts[i := (c, p)])"] by (simp add: work_def pending_notify_all)
  next
    case False
    then show ?thesis using n m i(2,3) p by (simp add: work_def notify_all_def)
  qed
qed

lemma step_work:
  assumes "cache_step env glob st st'"
  shows "work st' < work st"
  using assms
proof cases
  case (enter i ts c s s' p b)
  then show ?thesis using work_less [of i ts c Entered p b s' s] by (auto simp: GetReader_enter_def GetReader_lookup_def split: option.splits if_splits)
next
  case (recheck i ts c f s s' p b)
  then show ?thesis using work_less [of i ts c Woken p b s' s] by (auto simp: GetReader_lookup_def split: option.splits if_splits)
next
  case (construct i ts c f w r s s' a)
  then show ?thesis using work_less [of i ts c Constructing "Constructed a" False s' s] by (simp add: notify_all_def)
next
  case (publish i ts c a f s s' p b)
  have "returned p" using publish(6) by (auto simp: GetReader_publish_def bind_eq_Some_conv split: if_splits)
  then show ?thesis using publish work_less [of i ts c "Constructed a" p b s' s] by simp
qed

lemma busy_steps:
  assumes inv: "threads_ok env glob (s, ts)" and i: "busy_at ts i fp" and t: "\<And>f w fp p. \<exists>r. TensorSliceReader (env f w) fp (glob w fp) p = Some r"
  shows "\<exists>st'. cache_step env glob (s, ts) st'"
proof -
  obtain c q where q: "i < length ts" "ts ! i = (c, q)" "busy q" using i by (auto simp: busy_at_def) (metis prod.collapse)
  obtain f where f: "gc_open_function c = Some f" using threads_okD(2) [OF inv q(1,2)] q(3) by (cases q) auto
  show ?thesis
  proof (cases q)
    case Constructing
    obtain w r where "TensorSliceReader (env f w) (gc_filepattern c) (glob w (gc_filepattern c)) (gc_preferred_shard c) = Some r" using t by blast
    then show ?thesis using cache_step.construct [of i ts c f env _ glob r s, OF q(1) _ f] q(2) Constructing by (metis surj_pair)
  next
    case (Constructed a)
    from publish_cases [OF inv q(1) q(2) [unfolded Constructed] f] obtain x where "GetReader_publish f (gc_filepattern c) a s = Some x" by blast
    then show ?thesis using cache_step.publish [OF q(1) q(2) [unfolded Constructed] f] by (cases x) blast
  qed (use q(3) in simp_all)
qed

lemma not_stuck:
  assumes inv: "threads_ok env glob st" and p: "\<not> all_returned st" and t: "\<And>f w fp p. \<exists>r. TensorSliceReader (env f w) fp (glob w fp) p = Some r"
  shows "\<exists>st'. cache_step env glob st st'"
proof -
  obtain s ts where st: "st = (s, ts)" by (cases st)
  obtain c q where "(c, q) \<in> set ts" and q: "\<not> returned q" using p by (auto simp: all_returned_def st)
  then obtain i where i: "i < length ts" "ts ! i = (c, q)" by (auto simp: in_set_conv_nth)
  note ok = threads_okD(2) [OF inv [unfolded st] i]
  show ?thesis
  proof (cases q)
    case Entered
    obtain s' p b where "GetReader_enter c s = (s', p, b)" by (cases "GetReader_enter c s") auto
    then show ?thesis using cache_step.enter [OF i(1) i(2) [unfolded Entered]] unfolding st by blast
  next
    case Woken
    then obtain f where f: "gc_open_function c = Some f" using ok by auto
    obtain s' p b where "GetReader_lookup f (gc_filepattern c) s = (s', p, b)" by (cases "GetReader_lookup f (gc_filepattern c) s") auto
    then show ?thesis using cache_step.recheck [OF i(1) i(2) [unfolded Woken] f] unfolding st by blast
  next
    case Waiting
    then obtain j where "busy_at ts j (gc_filepattern c)" using ok threads_okD(3) [OF inv [unfolded st]] by auto
    then show ?thesis using busy_steps [OF inv [unfolded st]] t unfolding st by blast
  qed (use q busy_steps [OF inv [unfolded st], of i "gc_filepattern c"] busy_at_nth [OF i] t in \<open>auto simp: st\<close>)
qed

lemma steps_keep: "(cache_step env glob ^^ k) st st' \<Longrightarrow> threads_ok env glob st \<Longrightarrow> threads_ok env glob st'"
  by (induction k arbitrary: st') (auto simp: step_keeps)

lemma steps_work: "(cache_step env glob ^^ k) st st' \<Longrightarrow> k + work st' \<le> work st"
proof (induction k arbitrary: st')
  case (Suc k)
  then obtain st'' where "(cache_step env glob ^^ k) st st''" "cache_step env glob st'' st'" by auto
  then show ?case using Suc.IH [of st''] step_work [of env glob st'' st'] by simp
qed simp

lemma some_schedule_ends:
  assumes "threads_ok env glob st" and t: "\<And>f w fp p. \<exists>r. TensorSliceReader (env f w) fp (glob w fp) p = Some r"
  shows "\<exists>k st'. (cache_step env glob ^^ k) st st' \<and> all_returned st'"
  using assms(1)
proof (induction "work st" arbitrary: st rule: less_induct)
  case less
  show ?case
  proof (cases "all_returned st")
    case True
    then show ?thesis by (intro exI [of _ 0] exI [of _ st]) simp
  next
    case False
    then obtain st' where s: "cache_step env glob st st'" using not_stuck [OF less.prems] t by blast
    then obtain k st'' where "(cache_step env glob ^^ k) st' st''" "all_returned st''" using less.hyps step_work step_keeps less.prems by blast
    then show ?thesis using relpowp_Suc_I2 [of "cache_step env glob", OF s] by blast
  qed
qed

section \<open>Deleting the cache\<close>

lemma delete_readers_law:
  assumes "distinct (map (\<lambda>e. snd (snd e)) es)" "\<forall>e \<in> set es. h (snd (snd e)) \<noteq> None"
  shows "delete_readers es h = Some (h |` (- (\<lambda>e. snd (snd e)) ` set es))"
  using assms
proof (induction es arbitrary: h)
  case (Cons e es)
  obtain fp f a where e: "e = (fp, f, a)" by (cases e)
  have "delete_readers es (h(a := None)) = Some ((h(a := None)) |` (- (\<lambda>e. snd (snd e)) ` set es))"
    using Cons.prems by (intro Cons.IH) (auto simp: e)
  moreover have "(h(a := None)) |` (- (\<lambda>e. snd (snd e)) ` set es) = h |` (- (\<lambda>e. snd (snd e)) ` set (e # es))"
    by (auto simp: restrict_map_def e fun_eq_iff)
  ultimately show ?case using Cons.prems by (auto simp: e)
qed (simp add: restrict_map_def)

lemma destroy_frees_all:
  assumes inv: "threads_ok env glob (s, ts)" and r: "all_returned (s, ts)" and es: "distinct (map fst es)" "map_of es = rk_readers s"
  shows "delete_readers es (rk_heap s) = Some Map.empty"
proof -
  note c = cache_okD [OF threads_okD(1) [OF inv]]
  have m: "(fp, f, a) \<in> set es \<longleftrightarrow> rk_readers s fp = Some (f, a)" for fp f a using es by (metis map_of_eq_Some_iff)
  have "inj_on (\<lambda>e. snd (snd e)) (set es)"
  proof (rule inj_onI)
    fix x y
    assume xy: "x \<in> set es" "y \<in> set es" "snd (snd x) = snd (snd y)"
    obtain fp f a fp' f' a' where "x = (fp, f, a)" "y = (fp', f', a')" by (metis prod_cases3)
    then show "x = y" using xy m c(2) [of fp f a fp' f'] by auto
  qed
  then have d: "distinct (map (\<lambda>e. snd (snd e)) es)" using es(1) by (simp add: distinct_map)
  have l: "\<forall>e \<in> set es. rk_heap s (snd (snd e)) \<noteq> None" using m c(1) by fastforce
  have "returned (snd (ts ! i))" if "i < length ts" for i using r nth_mem [OF that] by (simp add: all_returned_def split_beta)
  then have "\<not> holds_at ts i a" for i a by (metis holds_at_def returned.simps(6))
  then have "rk_heap s a = None" if "a \<notin> (\<lambda>e. snd (snd e)) ` set es" for a using that threads_okD(6) [OF inv, of a] m by (force simp: cached_def)
  then show ?thesis unfolding delete_readers_law [OF d l] by (auto simp: restrict_map_def fun_eq_iff)
qed

section \<open>The wrapper as a map\<close>

text \<open>The specification: a map from patterns to the function and the reader that they were first opened with.\<close>

definition spec_get ::
    "('o \<Rightarrow> 'w \<Rightarrow> ('t, 'p, 'a, 'b) reader_env) \<Rightarrow> ('w \<Rightarrow> string \<Rightarrow> status \<times> string list) \<Rightarrow> 'w \<Rightarrow> 'o reader_call \<Rightarrow> (string \<rightharpoonup> 'o \<times> 't slice_reader) \<Rightarrow>
     ('t slice_reader option \<times> (string \<rightharpoonup> 'o \<times> 't slice_reader)) option" where
  "spec_get env glob w c m =
     (case (gc_open_function c, m (gc_filepattern c)) of
        (None, _) \<Rightarrow> Some (None, m)
      | (Some f, Some (g, r)) \<Rightarrow> Some (if g = f then Some r else None, m)
      | (Some f, None) \<Rightarrow>
          map_option (\<lambda>r. if ok (rd_status r) then (Some r, m(gc_filepattern c \<mapsto> (f, r))) else (None, m))
            (TensorSliceReader (env f w) (gc_filepattern c) (glob w (gc_filepattern c)) (gc_preferred_shard c)))"

fun spec_calls ::
    "('o \<Rightarrow> 'w \<Rightarrow> ('t, 'p, 'a, 'b) reader_env) \<Rightarrow> ('w \<Rightarrow> string \<Rightarrow> status \<times> string list) \<Rightarrow> ('w \<times> 'o reader_call) list \<Rightarrow>
     (string \<rightharpoonup> 'o \<times> 't slice_reader) \<Rightarrow> 't slice_reader option list option" where
  "spec_calls env glob [] m = Some []"
| "spec_calls env glob ((w, c) # cs) m = Option.bind (spec_get env glob w c m) (\<lambda>(q, m). map_option ((#) q) (spec_calls env glob cs m))"

fun wrapper_calls ::
    "('o \<Rightarrow> 'w \<Rightarrow> ('t, 'p, 'a, 'b) reader_env) \<Rightarrow> ('w \<Rightarrow> string \<Rightarrow> status \<times> string list) \<Rightarrow> ('w \<times> 'o reader_call) list \<Rightarrow>
     ('o, 't) reader_cache option \<Rightarrow> (nat option list \<times> ('o, 't) reader_cache option) option" where
  "wrapper_calls env glob [] k = Some ([], k)"
| "wrapper_calls env glob ((w, c) # cs) k =
     Option.bind (Wrapper_GetReader env glob w c k) (\<lambda>(q, k). map_option (\<lambda>(qs, k). (q # qs, k)) (wrapper_calls env glob cs k))"

text \<open>What a pointer to a reader points to.\<close>

definition points_to :: "('o, 't) reader_cache option \<Rightarrow> nat option \<Rightarrow> 't slice_reader option" where
  "points_to k q = Option.bind q (rk_heap (case k of None \<Rightarrow> TensorSliceReaderCache | Some s \<Rightarrow> s))"

definition resolve :: "(string \<rightharpoonup> 'o \<times> nat) \<Rightarrow> (nat \<rightharpoonup> 't slice_reader) \<Rightarrow> string \<rightharpoonup> 'o \<times> 't slice_reader" where
  "resolve readers h fp = Option.bind (readers fp) (\<lambda>(f, a). map_option (Pair f) (h a))"

abbreviation known :: "('o, 't) reader_cache \<Rightarrow> string \<rightharpoonup> 'o \<times> 't slice_reader" where
  "known s \<equiv> resolve (rk_readers s) (rk_heap s)"

lemma alone_ok: "threads_ok env glob (s, [(c, Returned q)]) \<Longrightarrow> threads_ok env glob (s, [])"
  by (auto simp: threads_ok_def busy_at_def holds_at_def less_Suc_eq)

lemma alone_known:
  assumes "threads_ok env glob (s, [])"
  shows "rk_still_opening s = {}" "known s fp = None \<longleftrightarrow> rk_readers s fp = None"
  using threads_okD(3) [OF assms] cache_okD(1) [OF threads_okD(1) [OF assms], of fp]
  by (auto simp: busy_at_def) (cases "rk_readers s fp"; force simp: resolve_def)+

lemma GetReader_alone:
  assumes inv: "threads_ok env glob (s, [])" and g: "GetReader env glob w c s = Some (q, s')"
  shows "threads_ok env glob (s', [(c, Returned q)])"
proof -
  let ?step = "cache_step env glob"
  obtain s1 p b where e: "GetReader_enter c s = (s1, p, b)" by (cases "GetReader_enter c s") auto
  have i0: "threads_ok env glob (s, [(c, Entered)])" using call_keeps [OF inv, of c] by simp
  have i1: "threads_ok env glob (s1, notify_all b [(c, p)])" using step_keeps [OF cache_step.enter [of 0 "[(c, Entered)]" c s s1 p b env glob] i0] e by simp
  show ?thesis
  proof (cases p)
    case Constructing
    then obtain f r s2 a s3 p' b' where r: "gc_open_function c = Some f"
      "TensorSliceReader (env f w) (gc_filepattern c) (glob w (gc_filepattern c)) (gc_preferred_shard c) = Some r" "new_reader r s1 = (s2, a)"
      "GetReader_publish f (gc_filepattern c) a s2 = Some (s3, p', b')" "(case p' of Returned reader \<Rightarrow> Some (reader, s3) | _ \<Rightarrow> None) = Some (q, s')"
      using g e by (auto simp: GetReader_def bind_eq_Some_conv new_reader_def Let_def)
    have p': "p' = Returned q" "s3 = s'" using r(5) by (cases p'; simp)+
    have "\<not> b" using e Constructing by (auto simp: GetReader_enter_def GetReader_lookup_def split: option.splits if_splits)
    then have "threads_ok env glob (s1, [(c, Constructing)])" using i1 Constructing by (simp add: notify_all_def)
    then have "threads_ok env glob (s2, [(c, Constructed a)])" using step_keeps [OF cache_step.construct [of 0 "[(c, Constructing)]" c f env w glob r s1 s2 a]] r by simp
    then have "threads_ok env glob (s', notify_all b' [(c, Returned q)])"
      using step_keeps [OF cache_step.publish [of 0 "[(c, Constructed a)]" c a f s2 s' "Returned q" b' env glob]] r p' by simp
    then show ?thesis by (cases b') (simp_all add: notify_all_def)
  next
    case (Returned q')
    then show ?thesis using g e i1 by (cases b) (auto simp: GetReader_def notify_all_def)
  qed (use g e in \<open>auto simp: GetReader_def\<close>)
qed

lemmas GetReader_steps = alone_ok [OF GetReader_alone]

lemma returned_live:
  assumes "threads_ok env glob (s, [])" "GetReader env glob w c s = Some (q, s')" "q = Some a"
  shows "rk_heap s' a \<noteq> None"
proof -
  note inv = GetReader_alone [OF assms(1,2)]
  obtain f where "rk_readers s' (gc_filepattern c) = Some (f, a)" using threads_okD(2) [OF inv, of 0 c] assms(3) by auto
  then show ?thesis using cache_okD(1) [OF threads_okD(1) [OF inv]] by blast
qed

text \<open>One call refines the specification, and the readers that were returned before stay where they are.\<close>

lemma GetReader_refines:
  assumes inv: "threads_ok env glob (s, [])"
  shows "map_option (\<lambda>(q, s'). (Option.bind q (rk_heap s'), known s')) (GetReader env glob w c s) = spec_get env glob w c (known s)"
    and "GetReader env glob w c s = Some (q, s') \<Longrightarrow> rk_heap s \<subseteq>\<^sub>m rk_heap s'"
proof -
  note k = alone_known [OF inv]
  have fresh: "rk_heap s (rk_next s) = None" using cache_okD(3) [OF threads_okD(1) [OF inv], of "rk_next s"] by (metis less_irrefl)
  have u: "rk_readers s fp \<noteq> Some (g, rk_next s)" for fp g using fresh cache_okD(1) [OF threads_okD(1) [OF inv], of fp g "rk_next s"] by auto
  have "resolve ((rk_readers s)(fp \<mapsto> (f, rk_next s))) ((rk_heap s)(rk_next s \<mapsto> r)) = (known s)(fp \<mapsto> (f, r))" for fp f r
  proof
    fix x
    show "resolve ((rk_readers s)(fp \<mapsto> (f, rk_next s))) ((rk_heap s)(rk_next s \<mapsto> r)) x = ((known s)(fp \<mapsto> (f, r))) x"
      using u [of x] by (cases "rk_readers s x") (auto simp: resolve_def)
  qed
  moreover have "(rk_heap s)(rk_next s := None) = rk_heap s" using fresh by (simp add: fun_upd_idem)
  moreover have "known s fp = map_option (Pair g) (rk_heap s a) \<and> (\<exists>r. rk_heap s a = Some r)" if "rk_readers s fp = Some (g, a)" for fp g a
    using cache_okD(1) [OF threads_okD(1) [OF inv] that] that by (auto simp: resolve_def)
  ultimately show "map_option (\<lambda>(q, s'). (Option.bind q (rk_heap s'), known s')) (GetReader env glob w c s) = spec_get env glob w c (known s)"
    using k(1) k(2) [of "gc_filepattern c"]
    by (cases "gc_open_function c"; cases "rk_readers s (gc_filepattern c)"; cases "TensorSliceReader (env (the (gc_open_function c)) w) (gc_filepattern c) (glob w (gc_filepattern c)) (gc_preferred_shard c)")
      (auto simp: GetReader_def GetReader_enter_def GetReader_lookup_def GetReader_publish_def spec_get_def new_reader_def Let_def)
  show "rk_heap s \<subseteq>\<^sub>m rk_heap s'" if "GetReader env glob w c s = Some (q, s')"
    using that fresh by (auto simp: GetReader_def GetReader_enter_def GetReader_lookup_def GetReader_publish_def new_reader_def bind_eq_Some_conv Let_def map_le_def
        split: option.splits if_splits progress.splits)
qed

lemma known_new: "known TensorSliceReaderCache = Map.empty"
  by (simp add: TensorSliceReaderCache_def resolve_def fun_eq_iff)

lemma points_to_mono: "points_to (Some s) q = Some r \<Longrightarrow> rk_heap s \<subseteq>\<^sub>m rk_heap s' \<Longrightarrow> points_to (Some s') q = Some r"
  by (auto simp: points_to_def bind_eq_Some_conv map_le_def) (metis domI)

lemma wrapper_calls_law:
  assumes "threads_ok env glob (s, [])"
  shows "map_option (\<lambda>(qs, k). map (points_to k) qs) (wrapper_calls env glob cs (Some s)) = spec_calls env glob cs (known s)"
    and "wrapper_calls env glob cs (Some s) = Some (qs, k) \<Longrightarrow> \<exists>s'. k = Some s' \<and> rk_heap s \<subseteq>\<^sub>m rk_heap s'"
  using assms
proof (induction cs arbitrary: s qs k)
  case (Cons wc cs)
  obtain w c where wc: "wc = (w, c)" by (cases wc)
  {
    case 1
    show ?case
    proof (cases "GetReader env glob w c s")
      case None
      then show ?thesis using GetReader_refines(1) [OF 1, of w c] by (simp add: wc Wrapper_GetReader_def)
    next
      case (Some x)
      obtain q s1 where g: "GetReader env glob w c s = Some (q, s1)" using Some by (cases x) auto
      note inv = GetReader_steps [OF 1 g]
      have spec: "spec_get env glob w c (known s) = Some (points_to (Some s1) q, known s1)"
        using GetReader_refines(1) [OF 1, of w c] by (simp add: g points_to_def)
      show ?thesis
      proof (cases "wrapper_calls env glob cs (Some s1)")
        case None
        then show ?thesis using Cons.IH(1) [OF inv] spec g by (simp add: wc Wrapper_GetReader_def)
      next
        case (Some y)
        then obtain qs s2 where y: "wrapper_calls env glob cs (Some s1) = Some (qs, Some s2)" "rk_heap s1 \<subseteq>\<^sub>m rk_heap s2"
          using Cons.IH(2) [OF _ inv] by (cases y) auto
        have "points_to (Some s2) q = points_to (Some s1) q"
          using returned_live [OF 1 g] points_to_mono [OF _ y(2), of q] by (cases q) (auto simp: points_to_def)
        then show ?thesis using Cons.IH(1) [OF inv, symmetric] spec g y(1) by (simp add: wc Wrapper_GetReader_def)
      qed
    qed
  next
    case 2
    then obtain q s1 qs' where g: "GetReader env glob w c s = Some (q, s1)" and r: "wrapper_calls env glob cs (Some s1) = Some (qs', k)"
      by (auto simp: wc Wrapper_GetReader_def bind_eq_Some_conv)
    from Cons.IH(2) [OF r GetReader_steps [OF 2(2) g]] GetReader_refines(2) [OF 2(2) g] show ?case by (auto intro: map_le_trans)
  }
qed simp_all

section \<open>Properties\<close>

text \<open>(C9) The cache of readers is safe in every interleaving of calls, with spurious wake-ups.  No two calls construct a reader for the
  same pattern at a time.  A reader that a call returned is live, was opened without error for the pattern and the open function of
  the call, and is the one in the cache; so calls with the same pattern never return different readers.  The \<open>CHECK\<close> after the
  construction holds.  When all calls have returned, the destructor deletes every reader that was not
  deleted before, each once.\<close>

theorem reader_cache_safe:
  assumes "cache_reachable env glob (s, ts)"
  shows "(\<forall>i j fp. busy_at ts i fp \<longrightarrow> busy_at ts j fp \<longrightarrow> i = j) \<and>
    (\<forall>c a. (c, Returned (Some a)) \<in> set ts \<longrightarrow> (\<exists>f r. gc_open_function c = Some f \<and> rk_readers s (gc_filepattern c) = Some (f, a) \<and>
      rk_heap s a = Some r \<and> ok (rd_status r) \<and> constructed env glob f (gc_filepattern c) r)) \<and>
    (\<forall>c a c' b. (c, Returned (Some a)) \<in> set ts \<longrightarrow> (c', Returned (Some b)) \<in> set ts \<longrightarrow> (a = b \<longleftrightarrow> gc_filepattern c = gc_filepattern c')) \<and>
    (\<forall>c a f. (c, Constructed a) \<in> set ts \<longrightarrow> gc_open_function c = Some f \<longrightarrow> GetReader_publish f (gc_filepattern c) a s \<noteq> None) \<and>
    (\<forall>es. all_returned (s, ts) \<longrightarrow> distinct (map fst es) \<longrightarrow> map_of es = rk_readers s \<longrightarrow> delete_readers es (rk_heap s) = Some Map.empty)"
proof (intro conjI allI impI)
  note inv = reachable_ok [OF assms]
  note cache = cache_okD [OF threads_okD(1) [OF inv]]
  have at: "thread_ok env glob s c p" if "(c, p) \<in> set ts" for c p using that threads_okD(2) [OF inv] by (auto simp: in_set_conv_nth)
  show "i = j" if "busy_at ts i fp" "busy_at ts j fp" for i j fp by (rule threads_okD(4) [OF inv that])
  show live: "\<exists>f r. gc_open_function c = Some f \<and> rk_readers s (gc_filepattern c) = Some (f, a) \<and> rk_heap s a = Some r \<and>
      ok (rd_status r) \<and> constructed env glob f (gc_filepattern c) r" if "(c, Returned (Some a)) \<in> set ts" for c a
    using at [OF that] cache(1) [of "gc_filepattern c"] by fastforce
  show "a = b \<longleftrightarrow> gc_filepattern c = gc_filepattern c'" if "(c, Returned (Some a)) \<in> set ts" "(c', Returned (Some b)) \<in> set ts" for c a c' b
    using live [OF that(1)] live [OF that(2)] cache(2) by (metis option.inject prod.inject)
  show "GetReader_publish f (gc_filepattern c) a s \<noteq> None" if c: "(c, Constructed a) \<in> set ts" and f: "gc_open_function c = Some f" for c a f
  proof -
    obtain i where "i < length ts" "ts ! i = (c, Constructed a)" using c by (auto simp: in_set_conv_nth)
    from publish_cases [OF inv this f] show ?thesis by blast
  qed
  show "delete_readers es (rk_heap s) = Some Map.empty" if "all_returned (s, ts)" "distinct (map fst es)" "map_of es = rk_readers s" for es
    by (rule destroy_frees_all [OF inv that])
qed

text \<open>(C10) Every call returns.  Whatever state the cache is in and whichever section is run next, as long as some call has not returned
  another section can be run, also when calls wait, so no wake-up is lost; and no schedule runs more than \<open>work\<close> sections, which is at most
  quadratic in the number of calls.  This holds when the constructor of the readers returns.\<close>

theorem reader_cache_progress:
  assumes "cache_reachable env glob st" "\<forall>f w fp p. \<exists>r. TensorSliceReader (env f w) fp (glob w fp) p = Some r"
  shows "(\<exists>k st'. (cache_step env glob ^^ k) st st' \<and> all_returned st') \<and>
    (\<forall>k st'. (cache_step env glob ^^ k) st st' \<longrightarrow> k \<le> work st \<and> (all_returned st' \<or> (\<exists>st''. cache_step env glob st' st''))) \<and>
    work st \<le> length (snd st) * (3 * length (snd st) + 4)"
proof (intro conjI allI impI)
  note inv = reachable_ok [OF assms(1)]
  show "\<exists>k st'. (cache_step env glob ^^ k) st st' \<and> all_returned st'" using some_schedule_ends [OF inv] assms(2) by blast
  show "k \<le> work st" if "(cache_step env glob ^^ k) st st'" for k st' using steps_work [OF that] by simp
  show "all_returned st' \<or> (\<exists>st''. cache_step env glob st' st'')" if "(cache_step env glob ^^ k) st st'" for k st'
    using not_stuck [OF steps_keep [OF that inv]] assms(2) by blast
next
  have "pending ts \<le> length ts" for ts :: "('a reader_call \<times> progress) list" unfolding pending_def by (induction ts) auto
  then have "pending (snd st) * (3 * length (snd st) + 1) \<le> length (snd st) * (3 * length (snd st) + 1)" by (intro mult_le_mono) simp_all
  then show "work st \<le> length (snd st) * (3 * length (snd st) + 4)" using sections_le [of "snd st"] by (simp add: work_def algebra_simps)
qed

text \<open>(C22) Through the wrapper, which holds its lock during the whole call, the cache acts as a map: what a call
  returns is the reader with which its pattern was first opened without error, when that was with the same open function, and null
  otherwise.  The pointers stay valid after later calls.  A call returns exactly when the constructor it may run returns.\<close>

theorem wrapper_refines_map:
  "map_option (\<lambda>(qs, k). map (points_to k) qs) (wrapper_calls env glob cs None) = spec_calls env glob cs Map.empty"
proof (cases cs)
  case (Cons wc cs')
  have "wrapper_calls env glob cs None = wrapper_calls env glob cs (Some TensorSliceReaderCache)"
    by (cases wc) (simp add: Cons Wrapper_GetReader_def)
  then show ?thesis using wrapper_calls_law(1) [OF reachable_ok [OF cache_reachable.start], of env glob cs] by (simp add: known_new)
qed simp

subsection \<open>An example\<close>

text \<open>Two calls for a checkpoint of one file: the second waits for the first.\<close>

definition example_glob :: "unit \<Rightarrow> string \<Rightarrow> status \<times> string list" where
  "example_glob w fp = (OkStatus, if fp = ''ckpt'' then [''b''] else [])"

definition example_call2 :: "nat reader_call" where
  "example_call2 = \<lparr>gc_filepattern = ''ckpt'', gc_open_function = Some 7, gc_preferred_shard = 0\<rparr>"

abbreviation example_envs :: "nat \<Rightarrow> unit \<Rightarrow> (bytes \<rightharpoonup> bytes, tensor_proto, int, int) reader_env" where
  "example_envs \<equiv> \<lambda>f w. example_env"

lemma example_opens: "\<exists>r. TensorSliceReader example_env ''ckpt'' (OkStatus, [''b'']) p = Some r \<and> ok (rd_status r)"
proof -
  have "shape_accepted [4]" by (simp add: shape_accepted_def representable_def least_size_def nonzero_product_def elements_def)
  then obtain C where C: "add_files example_meta [''b''] Map.empty = (True, C)"
    using example_name example_last(1,3) by (simp add: example_meta_def example_protos add_slice_def Let_def)
  have "map ((!) [''b'']) (load_order (length [''b'']) p) = [''b'']" by (simp add: load_order_def)
  moreover have "checkpoint_files example_env (\<lambda>t m. t = m) example_shard example_meta (set [''b''])" using example_files by (simp add: checkpoint_files_def)
  ultimately show ?thesis using checkpoint_reader.TensorSliceReader_law [OF example_reader, of example_shard example_meta "[''b'']" p C] C by auto
qed

lemma example_total: "\<exists>r. TensorSliceReader example_env fp (example_glob w fp) p = Some r"
  using example_opens [of p] by (auto simp: example_glob_def TensorSliceReader_def)

lemma example_waits:
  "cache_reachable example_envs example_glob (TensorSliceReaderCache\<lparr>rk_still_opening := {''ckpt''}\<rparr>, [(example_call2, Constructing), (example_call2, Waiting)])"
proof -
  let ?R = "cache_reachable example_envs example_glob" and ?c = example_call2 and ?s = "TensorSliceReaderCache :: (nat, bytes \<rightharpoonup> bytes) reader_cache"
  let ?s1 = "?s\<lparr>rk_still_opening := {''ckpt''}\<rparr>"
  have "?R (?s, [(?c, Entered)])" using cache_reachable.call [where c = ?c, OF cache_reachable.start] by simp
  then have "?R (?s, [(?c, Entered), (?c, Entered)])" using cache_reachable.call [where c = ?c and ts = "[(?c, Entered)]"] by simp
  from cache_reachable.run [OF this cache_step.enter [of 0 _ ?c _ ?s1 Constructing False]] have "?R (?s1, [(?c, Constructing), (?c, Entered)])"
    by (simp add: GetReader_enter_def GetReader_lookup_def notify_all_def TensorSliceReaderCache_def example_call2_def)
  from cache_reachable.run [OF this cache_step.enter [of 1 _ ?c _ ?s1 Waiting False]] show ?thesis
    by (simp add: GetReader_enter_def GetReader_lookup_def notify_all_def TensorSliceReaderCache_def example_call2_def)
qed

lemma example_returns:
  "\<exists>s. cache_reachable example_envs example_glob (s, [(example_call2, Returned (Some 0)), (example_call2, Returned (Some 0))]) \<and>
    rk_readers s = [''ckpt'' \<mapsto> (7, 0)]"
proof -
  let ?R = "cache_reachable example_envs example_glob" and ?c = example_call2
  let ?s = "TensorSliceReaderCache\<lparr>rk_still_opening := {''ckpt''}\<rparr> :: (nat, bytes \<rightharpoonup> bytes) reader_cache"
  obtain r where r: "TensorSliceReader example_env ''ckpt'' (OkStatus, [''b'']) 0 = Some r" "ok (rd_status r)" using example_opens by blast
  let ?s1 = "?s\<lparr>rk_heap := [0 \<mapsto> r], rk_next := 1\<rparr>"
  let ?s2 = "?s1\<lparr>rk_readers := [''ckpt'' \<mapsto> (7, 0)], rk_still_opening := {}\<rparr>"
  have "?R (?s1, [(?c, Constructed 0), (?c, Waiting)])"
    using cache_reachable.run [OF example_waits cache_step.construct [of 0 _ ?c 7 _ "()" _ r _ ?s1 0]] r(1)
    by (simp add: example_call2_def example_glob_def new_reader_def TensorSliceReaderCache_def)
  from cache_reachable.run [OF this cache_step.publish [of 0 _ ?c 0 7 _ ?s2 "Returned (Some 0)" True]] r(2)
  have "?R (?s2, [(?c, Returned (Some 0)), (?c, Woken)])"
    by (simp add: example_call2_def GetReader_publish_def TensorSliceReaderCache_def notify_all_def)
  from cache_reachable.run [OF this cache_step.recheck [of 1 _ ?c 7 _ ?s2 "Returned (Some 0)" True]]
  have "?R (?s2, [(?c, Returned (Some 0)), (?c, Returned (Some 0))])"
    by (simp add: example_call2_def GetReader_lookup_def notify_all_def)
  then show ?thesis by (intro exI [of _ ?s2]) simp
qed

lemma reader_cache_safe_witness:
  "\<exists>s r. cache_reachable example_envs example_glob (s, [(example_call2, Returned (Some 0)), (example_call2, Returned (Some 0))]) \<and>
    rk_heap s 0 = Some r \<and> ok (rd_status r) \<and> constructed example_envs example_glob 7 ''ckpt'' r \<and> delete_readers [(''ckpt'', 7 :: nat, 0)] (rk_heap s) = Some Map.empty"
proof -
  obtain s where s: "cache_reachable example_envs example_glob (s, [(example_call2, Returned (Some 0)), (example_call2, Returned (Some 0))])"
    "rk_readers s = [''ckpt'' \<mapsto> (7, 0)]" using example_returns by blast
  note safe = reader_cache_safe [OF s(1)]
  from safe [THEN conjunct2, THEN conjunct1, rule_format, of example_call2 0]
  obtain r where "rk_heap s 0 = Some r" "ok (rd_status r)" "constructed example_envs example_glob 7 ''ckpt'' r"
    by (auto simp: example_call2_def)
  moreover have "delete_readers [(''ckpt'', 7 :: nat, 0)] (rk_heap s) = Some Map.empty"
    using safe [THEN conjunct2, THEN conjunct2, THEN conjunct2, THEN conjunct2, rule_format, of "[(''ckpt'', 7, 0)]"] s(2) by (simp add: all_returned_def)
  ultimately show ?thesis using s(1) by blast
qed

lemma reader_cache_progress_witness:
  "\<exists>k st'. (cache_step example_envs example_glob ^^ k)
     (TensorSliceReaderCache\<lparr>rk_still_opening := {''ckpt''}\<rparr>, [(example_call2, Constructing), (example_call2, Waiting)]) st' \<and> all_returned st'"
  using reader_cache_progress [OF example_waits] example_total by blast

end
